(* ===== verification/Prelude.thy ===== *)
theory Prelude
  imports Complex_Main "HOL-Library.Sublist" "HOL-Library.Multiset" "HOL-Library.Word"
begin

text \<open>
  Shared ground of the development: the byte strings of the engine, the few
  operations of the C and C++ standard libraries its code calls on them
  (\<open>tolower\<close>, \<open>isspace\<close>, \<open>std::string::find\<close>, \<open>rfind\<close>, \<open>substr\<close>, \<open>std::getline\<close> with a
  separator, \<open>std::to_string\<close>), and the lemmas on lists and strings that several
  components use.

  A \<open>std::string\<close> is a list of \<open>char\<close>, and HOL's \<open>char\<close> is an 8-bit byte, so
  \<open>of_char c\<close> is the value of \<open>static_cast<unsigned char>(c)\<close>.  The classification
  functions are those of the "C" locale: bytes from 128 on belong to no class and are
  changed by no case conversion.
\<close>

section \<open>Collections of facts\<close>

named_theorems byte_simps \<open>definitions of the byte classes\<close>
named_theorems str_simps \<open>definitions of the string operations\<close>

section \<open>Bytes\<close>

type_synonym bytes = "char list"

abbreviation byte_of :: "char \<Rightarrow> nat" where
  "byte_of c \<equiv> of_char c"

definition isupper_c :: "char \<Rightarrow> bool" where
  [byte_simps]: "isupper_c c \<longleftrightarrow> 65 \<le> byte_of c \<and> byte_of c \<le> 90"

definition islower_c :: "char \<Rightarrow> bool" where
  [byte_simps]: "islower_c c \<longleftrightarrow> 97 \<le> byte_of c \<and> byte_of c \<le> 122"

definition isdigit_c :: "char \<Rightarrow> bool" where
  [byte_simps]: "isdigit_c c \<longleftrightarrow> 48 \<le> byte_of c \<and> byte_of c \<le> 57"

definition isalnum_c :: "char \<Rightarrow> bool" where
  "isalnum_c c \<longleftrightarrow> isupper_c c \<or> islower_c c \<or> isdigit_c c"

definition isspace_c :: "char \<Rightarrow> bool" where
  [byte_simps]: "isspace_c c \<longleftrightarrow> byte_of c = 32 \<or> (9 \<le> byte_of c \<and> byte_of c \<le> 13)"

definition tolower_c :: "char \<Rightarrow> char" where
  "tolower_c c = (if isupper_c c then char_of (byte_of c + 32) else c)"

abbreviation lower :: "bytes \<Rightarrow> bytes" where
  "lower s \<equiv> map tolower_c s"

lemma byte_of_less [simp]: "byte_of c < 256"
proof -
  have "byte_of c = byte_of c mod 256"
    by (metis char_of_char of_char_of)
  also have "\<dots> < 256" by simp
  finally show ?thesis .
qed

lemma byte_of_eq_iff: "c = d \<longleftrightarrow> byte_of c = byte_of d"
  by simp

text \<open>The conversion on the bits of a byte, for evaluation.\<close>

lemma tolower_c_code [code]:
  "tolower_c (Char b0 b1 b2 b3 b4 b5 b6 b7) =
     (if \<not> b7 \<and> b6 \<and> \<not> b5 \<and> (b0 \<or> b1 \<or> b2 \<or> b3 \<or> b4) \<and> \<not> (b4 \<and> b3 \<and> (b2 \<or> b1 \<and> b0))
      then Char b0 b1 b2 b3 b4 True b6 b7 else Char b0 b1 b2 b3 b4 b5 b6 b7)"
  by (cases b0; cases b1; cases b2; cases b3; cases b4; cases b5; cases b6; cases b7)
    (simp_all add: tolower_c_def isupper_c_def char_of_def bit_0)

lemma byte_of_tolower: "byte_of (tolower_c c) = (if isupper_c c then byte_of c + 32 else byte_of c)"
  by (auto simp: tolower_c_def byte_simps of_char_of)

lemma tolower_not_upper [simp]: "\<not> isupper_c (tolower_c c)"
  by (auto simp: isupper_c_def byte_of_tolower)

lemma tolower_idem [simp]: "tolower_c (tolower_c c) = tolower_c c"
  by (simp add: tolower_c_def [of "tolower_c c"])

lemma lower_idem [simp]: "lower (lower s) = lower s"
  by simp

section \<open>String operations\<close>

text \<open>\<open>s.find(sub)\<close>: the first position where \<open>sub\<close> occurs, \<open>None\<close> for \<open>npos\<close>.\<close>

fun str_find :: "bytes \<Rightarrow> bytes \<Rightarrow> nat option" where
  "str_find sub [] = (if sub = [] then Some 0 else None)"
| "str_find sub (c # cs) = (if prefix sub (c # cs) then Some 0 else map_option Suc (str_find sub cs))"

text \<open>\<open>s.rfind(c)\<close> for one character: the last position of \<open>c\<close>.\<close>

fun str_rfind :: "char \<Rightarrow> bytes \<Rightarrow> nat option" where
  "str_rfind c [] = None"
| "str_rfind c (d # ds) =
     (case str_rfind c ds of
        Some i \<Rightarrow> Some (Suc i)
      | None \<Rightarrow> (if c = d then Some 0 else None))"

definition str_contains :: "bytes \<Rightarrow> bytes \<Rightarrow> bool" where
  "str_contains sub s \<longleftrightarrow> str_find sub s \<noteq> None"

text \<open>\<open>std::getline\<close> over a string stream with a separator: the last piece is produced only
  when it is not empty, so a trailing separator opens no empty piece.\<close>

fun getline_split :: "char \<Rightarrow> bytes \<Rightarrow> bytes list" where
  "getline_split sep s =
     (if s = [] then []
      else takeWhile (\<lambda>c. c \<noteq> sep) s #
           getline_split sep (drop (Suc (length (takeWhile (\<lambda>c. c \<noteq> sep) s))) s))"

declare getline_split.simps [simp del]

text \<open>A loop of \<open>find(sep, start)\<close> and \<open>substr\<close>: the pieces between all separators, empty ones
  included.\<close>

fun split_all :: "char \<Rightarrow> bytes \<Rightarrow> bytes list" where
  "split_all sep [] = [[]]"
| "split_all sep (c # cs) =
     (if c = sep then [] # split_all sep cs
      else (c # hd (split_all sep cs)) # tl (split_all sep cs))"

lemma split_all_nonempty [simp]: "split_all sep s \<noteq> []"
  by (cases s) auto

lemma split_all_single: "sep \<notin> set s \<Longrightarrow> split_all sep s = [s]"
  by (induction s) auto

lemma split_all_append: "sep \<notin> set p \<Longrightarrow> split_all sep (p @ sep # s) = p # split_all sep s"
  by (induction p) auto

lemma str_find_Some_iff:
  "str_find sub s = Some i \<longleftrightarrow>
     i \<le> length s \<and> prefix sub (drop i s) \<and> (\<forall>j<i. \<not> prefix sub (drop j s))"
proof (induction s arbitrary: i)
  case Nil
  then show ?case by auto
next
  case (Cons c s)
  show ?case
  proof (cases "prefix sub (c # s)")
    case True
    then show ?thesis by (cases i) auto
  next
    case False
    have "str_find sub (c # s) = Some i \<longleftrightarrow> (\<exists>k. i = Suc k \<and> str_find sub s = Some k)"
      using False by auto
    also have "\<dots> \<longleftrightarrow>
      i \<le> length (c # s) \<and> prefix sub (drop i (c # s)) \<and> (\<forall>j<i. \<not> prefix sub (drop j (c # s)))"
      using False by (cases i) (auto simp: Cons.IH less_Suc_eq_0_disj)
    finally show ?thesis .
  qed
qed

lemma str_find_None_iff: "str_find sub s = None \<longleftrightarrow> (\<forall>i \<le> length s. \<not> prefix sub (drop i s))"
proof (induction s)
  case Nil
  then show ?case by auto
next
  case (Cons c s)
  have "(\<forall>i \<le> length (c # s). \<not> prefix sub (drop i (c # s))) \<longleftrightarrow>
        \<not> prefix sub (c # s) \<and> (\<forall>i \<le> length s. \<not> prefix sub (drop i s))"
    by (auto simp: All_less_Suc2 simp flip: less_Suc_eq_le)
  then show ?case using Cons by auto
qed

lemma str_contains_iff: "str_contains sub s \<longleftrightarrow> sublist sub s"
proof
  assume "str_contains sub s"
  then obtain i where "prefix sub (drop i s)"
    by (auto simp: str_contains_def str_find_Some_iff)
  then have "sublist sub (drop i s)" by (rule prefix_imp_sublist)
  then show "sublist sub s" by (meson sublist_drop sublist_order.order.trans)
next
  assume "sublist sub s"
  then obtain ps ss where s: "s = ps @ sub @ ss" by (auto simp: sublist_def)
  then have "prefix sub (drop (length ps) s)" and "length ps \<le> length s" by auto
  then show "str_contains sub s"
    unfolding str_contains_def by (metis str_find_None_iff)
qed

lemma str_rfind_bound: "str_rfind c s = Some i \<Longrightarrow> i < length s \<and> s ! i = c"
  by (induction s arbitrary: i) (auto split: option.splits if_splits)

lemma str_rfind_last: "str_rfind c s = Some i \<Longrightarrow> c \<notin> set (drop (Suc i) s)"
proof (induction s arbitrary: i)
  case Nil
  then show ?case by simp
next
  case (Cons d s)
  show ?case
  proof (cases "str_rfind c s")
    case None
    have "c \<notin> set s" using None
      by (induction s) (auto split: option.splits if_splits)
    with Cons.prems None show ?thesis by (auto split: if_splits)
  next
    case (Some k)
    with Cons show ?thesis by auto
  qed
qed

lemma str_rfind_None_iff: "str_rfind c s = None \<longleftrightarrow> c \<notin> set s"
  by (induction s) (auto split: option.splits)

section \<open>Decimal numerals\<close>

text \<open>\<open>std::to_string\<close> of an integer.\<close>

definition digit_char :: "nat \<Rightarrow> char" where
  "digit_char d = char_of (48 + d)"

fun nat_digits :: "nat \<Rightarrow> bytes" where
  "nat_digits n = (if n < 10 then [digit_char n] else nat_digits (n div 10) @ [digit_char (n mod 10)])"

declare nat_digits.simps [simp del]

definition to_string_int :: "int \<Rightarrow> bytes" where
  "to_string_int n = (if n < 0 then CHR ''-'' # nat_digits (nat (- n)) else nat_digits (nat n))"

abbreviation to_string_nat :: "nat \<Rightarrow> bytes" where
  "to_string_nat n \<equiv> nat_digits n"

definition digit_val :: "char \<Rightarrow> nat" where
  "digit_val c = byte_of c - 48"

definition digits_val :: "bytes \<Rightarrow> nat" where
  "digits_val s = foldl (\<lambda>acc c. acc * 10 + digit_val c) 0 s"

lemma isdigit_digit_char [simp]: "d < 10 \<Longrightarrow> isdigit_c (digit_char d)"
  by (simp add: isdigit_c_def digit_char_def of_char_of)

lemma digit_val_digit_char [simp]: "d < 10 \<Longrightarrow> digit_val (digit_char d) = d"
  by (simp add: digit_val_def digit_char_def of_char_of)

lemma nat_digits_nonempty [simp]: "nat_digits n \<noteq> []"
  by (subst nat_digits.simps) simp

lemma nat_digits_isdigit: "c \<in> set (nat_digits n) \<Longrightarrow> isdigit_c c"
proof (induction n rule: nat_digits.induct)
  case (1 n)
  show ?case
  proof (cases "n < 10")
    case True
    with 1 show ?thesis by (simp add: nat_digits.simps [of n])
  next
    case False
    with 1 show ?thesis by (auto simp: nat_digits.simps [of n])
  qed
qed

lemma digits_val_snoc [simp]: "digits_val (s @ [c]) = digits_val s * 10 + digit_val c"
  by (simp add: digits_val_def)

lemma digits_val_nat_digits [simp]: "digits_val (nat_digits n) = n"
proof (induction n rule: nat_digits.induct)
  case (1 n)
  show ?case
  proof (cases "n < 10")
    case True
    then show ?thesis by (subst nat_digits.simps) (simp add: digits_val_def)
  next
    case False
    then show ?thesis using 1 by (subst nat_digits.simps) simp
  qed
qed

section \<open>Lists\<close>

lemma set_map_filter: "set (List.map_filter f xs) = {y. \<exists>x \<in> set xs. f x = Some y}"
  by (induction xs) (auto simp: List.map_filter_def)

lemma takeWhile_append_stop:
  "(\<And>x. x \<in> set xs \<Longrightarrow> P x) \<Longrightarrow> ys = [] \<or> \<not> P (hd ys) \<Longrightarrow> takeWhile P (xs @ ys) = xs"
  by (cases ys) (auto simp: takeWhile_append)

lemma dropWhile_append_stop:
  "(\<And>x. x \<in> set xs \<Longrightarrow> P x) \<Longrightarrow> ys = [] \<or> \<not> P (hd ys) \<Longrightarrow> dropWhile P (xs @ ys) = ys"
  by (cases ys) (auto simp: dropWhile_append)

text \<open>Sorting by a key that tells the elements apart does not depend on their order.\<close>

lemma sort_key_perm:
  assumes "mset xs = mset ys" and "inj_on k (set xs)"
  shows "sort_key k xs = sort_key k ys"
proof (rule properties_for_sort_key)
  show "mset (sort_key k ys) = mset xs" using assms(1) by simp
  show "sorted (map k (sort_key k ys))" by simp
  fix a assume "a \<in> set (sort_key k ys)"
  then have a: "a \<in> set xs" using assms(1) by (metis set_mset_mset set_sort)
  then have one: "\<And>b. b \<in> set xs \<Longrightarrow> k a = k b \<longleftrightarrow> b = a" using assms(2) by (metis inj_onD)
  have s: "set ys = set xs" using assms(1) by (metis set_mset_mset)
  have "filter (\<lambda>x. k a = k x) zs = replicate (count (mset zs) a) a" if "set zs \<subseteq> set xs" for zs
    using that
  proof (induction zs)
    case (Cons z zs)
    then show ?case using one [of z] by auto
  qed simp
  then show "filter (\<lambda>x. k a = k x) (sort_key k ys) = filter (\<lambda>x. k a = k x) xs"
    using assms(1) s by simp
qed

section \<open>Walks in a relation\<close>

text \<open>Two relations that agree on a set which the second does not leave have the same walks from
  its members.\<close>

lemma relpowp_cong_on:
  assumes "\<And>u v. u \<in> N \<Longrightarrow> P u v \<longleftrightarrow> Q u v" and "\<And>u v. Q u v \<Longrightarrow> v \<in> N" and "s \<in> N"
  shows "(P ^^ k) s t \<longleftrightarrow> (Q ^^ k) s t"
  using assms(3)
proof (induction k arbitrary: s)
  case 0
  then show ?case by simp
next
  case (Suc k)
  have "(P ^^ Suc k) s t \<longleftrightarrow> (\<exists>u. Q s u \<and> (P ^^ k) u t)"
    using assms(1) Suc.prems by (simp only: relpowp_Suc_left OO_def)
  also have "\<dots> \<longleftrightarrow> (\<exists>u. Q s u \<and> (Q ^^ k) u t)"
    using Suc.IH assms(2) by blast
  finally show ?case by (simp only: relpowp_Suc_left OO_def)
qed

end
