(* ===== verification/Json_Text.thy ===== *)
theory Json_Text
  imports Prelude
begin

text \<open>
  The two ends of the engine's JSON text: the escaper of \<open>util/json_writer.cpp\<close>
  (\<open>jsonEscapeString\<close>) and the recursive-descent reader of \<open>evidence/rule.cpp\<close>
  (\<open>JsonValue\<close>, \<open>JsonParser\<close>).

  The reader's cursor is the unread suffix of the source.  A parse function returns
  \<open>Inr\<close> of a value and the new suffix, or \<open>Inl\<close> of the first error and the suffix at
  which it was recorded; \<open>parse_json\<close> turns that suffix into the offset the code
  prints.  \<open>peek\<close> and \<open>next\<close> return the NUL byte at the end of the input, as in the code.

  The nesting counter \<open>depth_\<close> counts up to \<open>kMaxDepth\<close> = 64; the model counts the levels
  that are left, so a value at level 0 is the "maximum nesting depth exceeded" branch.
  The two \<open>while (true)\<close> loops consume at least one byte per turn; they carry the length
  of the unread suffix as fuel, and \<open>parse_value_fuel\<close> shows that the fuel never runs out.
\<close>

section \<open>jsonEscapeString\<close>

abbreviation quote_char :: char where "quote_char \<equiv> CHR 0x22"
abbreviation backslash :: char where "backslash \<equiv> CHR 0x5C"

definition hex_digit :: "nat \<Rightarrow> char" where
  "hex_digit n = (if n < 10 then char_of (48 + n) else char_of (87 + n))"

text \<open>\<open>snprintf(buf, 8, "\u%04x", c)\<close> for a byte.\<close>

definition hex4 :: "nat \<Rightarrow> bytes" where
  "hex4 n = [CHR ''0'', CHR ''0'', hex_digit (n div 16 mod 16), hex_digit (n mod 16)]"

definition esc_char :: "char \<Rightarrow> bytes" where
  "esc_char c =
     (if c = quote_char then [backslash, quote_char]
      else if c = backslash then [backslash, backslash]
      else if c = CHR 0x0A then [backslash, CHR ''n'']
      else if c = CHR 0x0D then [backslash, CHR ''r'']
      else if c = CHR 0x09 then [backslash, CHR ''t'']
      else if byte_of c < 32 then [backslash, CHR ''u''] @ hex4 (byte_of c)
      else [c])"

definition jsonEscapeString :: "bytes \<Rightarrow> bytes" where
  "jsonEscapeString s = concat (map esc_char s)"

section \<open>JsonValue\<close>

datatype json =
    JNull
  | JBool bool
  | JNumber rat
  | JString bytes
  | JArray "json list"
  | JObject "(bytes \<times> json) list"

fun json_find :: "json \<Rightarrow> bytes \<Rightarrow> json option" where
  "json_find (JObject kvs) k = map_of kvs k"
| "json_find _ k = None"

section \<open>JsonParser\<close>

datatype json_error =
    UnexpectedEnd
  | TrailingCharacters
  | MaxDepthExceeded
  | UnexpectedCharacter char
  | ExpectedKey
  | ExpectedColon
  | ExpectedCommaOrBrace
  | ExpectedCommaOrBracket
  | UnterminatedEscape
  | UnterminatedUEscape
  | BadUEscape bytes
  | BadEscape char
  | UnterminatedString
  | BadNumber bytes
  | BadBoolLiteral
  | BadNullLiteral
  | OutOfFuel

type_synonym 'a presult = "(json_error \<times> bytes) + ('a \<times> bytes)"

definition kMaxDepth :: nat where
  "kMaxDepth = 64"

definition peek :: "bytes \<Rightarrow> char" where
  "peek s = (case s of [] \<Rightarrow> CHR 0x00 | c # _ \<Rightarrow> c)"

definition is_json_ws :: "char \<Rightarrow> bool" where
  "is_json_ws c \<longleftrightarrow> c = CHR '' '' \<or> c = CHR 0x09 \<or> c = CHR 0x0A \<or> c = CHR 0x0D"

definition skipWhitespace :: "bytes \<Rightarrow> bytes" where
  "skipWhitespace s = dropWhile is_json_ws s"

subsection \<open>std::stoul(hex, nullptr, 16) and the UTF-8 bytes of an escape\<close>

definition hex_val :: "char \<Rightarrow> nat option" where
  "hex_val c =
     (if isdigit_c c then Some (byte_of c - 48)
      else if 97 \<le> byte_of c \<and> byte_of c \<le> 102 then Some (byte_of c - 87)
      else if 65 \<le> byte_of c \<and> byte_of c \<le> 70 then Some (byte_of c - 55)
      else None)"

definition is_hex :: "char \<Rightarrow> bool" where
  "is_hex c \<longleftrightarrow> hex_val c \<noteq> None"

definition hex_number :: "bytes \<Rightarrow> nat" where
  "hex_number s = foldl (\<lambda>acc c. acc * 16 + (case hex_val c of Some d \<Rightarrow> d | None \<Rightarrow> 0)) 0 s"

text \<open>
  \<open>stoul\<close> skips white space, takes an optional sign and an optional \<open>0x\<close> prefix, converts
  the longest run of hexadecimal digits and ignores what follows, since the code passes
  no end pointer; it throws when there is no digit.  A minus sign negates modulo
  \<open>2^64\<close>, and the cast to \<open>unsigned\<close> keeps 32 bits.
\<close>

definition stoul16 :: "bytes \<Rightarrow> 32 word option" where
  "stoul16 s =
     (let s1 = dropWhile isspace_c s;
          neg = (s1 \<noteq> [] \<and> hd s1 = CHR ''-'');
          s2 = (if s1 \<noteq> [] \<and> (hd s1 = CHR ''-'' \<or> hd s1 = CHR ''+'') then tl s1 else s1);
          s3 = (case s2 of
                  a # b # c # r \<Rightarrow>
                    (if a = CHR ''0'' \<and> (b = CHR ''x'' \<or> b = CHR ''X'') \<and> is_hex c
                     then c # r else s2)
                | _ \<Rightarrow> s2);
          ds = takeWhile is_hex s3
      in if ds = [] then None
         else Some (if neg then - of_nat (hex_number ds) else of_nat (hex_number ds)))"

unbundle bit_operations_syntax

definition byte_char :: "32 word \<Rightarrow> char" where
  "byte_char w = char_of (unat w)"

definition utf8_of_code :: "32 word \<Rightarrow> bytes" where
  "utf8_of_code code =
     (if code < 0x80 then [byte_char code]
      else if code < 0x800 then
        [byte_char (0xC0 OR drop_bit 6 code), byte_char (0x80 OR (code AND 0x3F))]
      else
        [byte_char (0xE0 OR drop_bit 12 code),
         byte_char (0x80 OR (drop_bit 6 code AND 0x3F)),
         byte_char (0x80 OR (code AND 0x3F))])"

subsection \<open>parseString\<close>

text \<open>
  \<open>string_body acc s\<close> is the \<open>while (!eof())\<close> loop after the opening quote; \<open>acc\<close> is
  the string built so far, in reverse.
\<close>

definition simple_escape :: "char \<Rightarrow> char option" where
  "simple_escape e =
     (if e = quote_char then Some quote_char
      else if e = backslash then Some backslash
      else if e = CHR ''/'' then Some (CHR ''/'')
      else if e = CHR ''b'' then Some (CHR 0x08)
      else if e = CHR ''f'' then Some (CHR 0x0C)
      else if e = CHR ''n'' then Some (CHR 0x0A)
      else if e = CHR ''r'' then Some (CHR 0x0D)
      else if e = CHR ''t'' then Some (CHR 0x09)
      else None)"

function string_body :: "bytes \<Rightarrow> bytes \<Rightarrow> bytes presult" where
  "string_body acc [] = Inl (UnterminatedString, [])"
| "string_body acc (c # cs) =
     (if c = quote_char then Inr (rev acc, cs)
      else if c = backslash then
        (case cs of
           [] \<Rightarrow> Inl (UnterminatedEscape, [])
         | e # es \<Rightarrow>
             (case simple_escape e of
                Some d \<Rightarrow> string_body (d # acc) es
              | None \<Rightarrow>
                  if e = CHR ''u'' then
                    (if length es < 4 then Inl (UnterminatedUEscape, [])
                     else (case stoul16 (take 4 es) of
                             None \<Rightarrow> Inl (BadUEscape (take 4 es), drop 4 es)
                           | Some code \<Rightarrow> string_body (rev (utf8_of_code code) @ acc) (drop 4 es)))
                  else Inl (BadEscape e, es)))
      else string_body (c # acc) cs)"
  by pat_completeness auto
termination
  by (relation "measure (\<lambda>(acc, s). length s)") auto

definition parseString :: "bytes \<Rightarrow> bytes presult" where
  "parseString s = string_body [] (tl s)"

subsection \<open>parseNumber, parseBool, parseNull\<close>

definition is_num_char :: "char \<Rightarrow> bool" where
  "is_num_char c \<longleftrightarrow> isdigit_c c \<or> c = CHR ''.'' \<or> c = CHR ''e'' \<or> c = CHR ''E'' \<or>
     c = CHR ''+'' \<or> c = CHR ''-''"

text \<open>
  \<open>std::stod(num, &idx)\<close> together with the check \<open>idx != num.size()\<close>: the whole token
  must be a sign, a decimal mantissa with at least one digit and an optional exponent.
  The value is kept as the exact rational; rounding to the nearest \<open>double\<close> is not
  modelled, but the \<open>out_of_range\<close> exceptions at the two ends of the range of a
  \<open>double\<close> are.
\<close>

definition strip_sign :: "bytes \<Rightarrow> bool \<times> bytes" where
  "strip_sign s =
     (if s \<noteq> [] \<and> hd s = CHR ''-'' then (True, tl s)
      else if s \<noteq> [] \<and> hd s = CHR ''+'' then (False, tl s)
      else (False, s))"

definition scan_exponent :: "bytes \<Rightarrow> int option" where
  "scan_exponent s =
     (if s = [] then Some 0
      else if hd s = CHR ''e'' \<or> hd s = CHR ''E'' then
        (case strip_sign (tl s) of (neg, ds) \<Rightarrow>
           if ds \<noteq> [] \<and> list_all isdigit_c ds
           then Some (if neg then - int (digits_val ds) else int (digits_val ds))
           else None)
      else None)"

definition rat_pow10 :: "int \<Rightarrow> rat" where
  "rat_pow10 e = (if 0 \<le> e then 10 ^ nat e else 1 / 10 ^ nat (- e))"

definition double_in_range :: "rat \<Rightarrow> bool" where
  "double_in_range v \<longleftrightarrow> v = 0 \<or> (1 / 2 ^ 1022 \<le> \<bar>v\<bar> \<and> \<bar>v\<bar> < 2 ^ 1024 - 2 ^ 970)"

definition stod_full :: "bytes \<Rightarrow> rat option" where
  "stod_full s =
     (case strip_sign s of (neg, u) \<Rightarrow>
        let ip = takeWhile isdigit_c u; r1 = dropWhile isdigit_c u;
            dot = (r1 \<noteq> [] \<and> hd r1 = CHR ''.'');
            fp = (if dot then takeWhile isdigit_c (tl r1) else []);
            r2 = (if dot then dropWhile isdigit_c (tl r1) else r1)
        in if ip = [] \<and> fp = [] then None
           else (case scan_exponent r2 of
                   None \<Rightarrow> None
                 | Some e \<Rightarrow>
                     let m = of_nat (digits_val (ip @ fp)) * rat_pow10 (e - int (length fp));
                         v = (if neg then - m else m)
                     in if double_in_range v then Some v else None))"

definition parseNumber :: "bytes \<Rightarrow> json presult" where
  "parseNumber s =
     (let sgn = (if peek s = CHR ''-'' then [CHR ''-''] else []);
          u = (if peek s = CHR ''-'' then tl s else s);
          num = sgn @ takeWhile is_num_char u;
          r = dropWhile is_num_char u
      in case stod_full num of
           Some v \<Rightarrow> Inr (JNumber v, r)
         | None \<Rightarrow> Inl (BadNumber num, r))"

definition parseBool :: "bytes \<Rightarrow> json presult" where
  "parseBool s =
     (if take 4 s = ''true'' then Inr (JBool True, drop 4 s)
      else if take 5 s = ''false'' then Inr (JBool False, drop 5 s)
      else Inl (BadBoolLiteral, s))"

definition parseNull :: "bytes \<Rightarrow> json presult" where
  "parseNull s = (if take 4 s = ''null'' then Inr (JNull, drop 4 s) else Inl (BadNullLiteral, s))"

subsection \<open>parseObject, parseArray, parseValue\<close>

fun object_loop ::
  "(bytes \<Rightarrow> json presult) \<Rightarrow> nat \<Rightarrow> (bytes \<times> json) list \<Rightarrow> bytes \<Rightarrow> json presult" where
  "object_loop pv 0 acc s = Inl (OutOfFuel, s)"
| "object_loop pv (Suc n) acc s =
     (let s1 = skipWhitespace s in
      if peek s1 \<noteq> quote_char then Inl (ExpectedKey, s1)
      else case parseString s1 of
        Inl e \<Rightarrow> Inl e
      | Inr (k, s2) \<Rightarrow>
          (let s3 = skipWhitespace s2 in
           if peek s3 \<noteq> CHR '':'' then Inl (ExpectedColon, s3)
           else case pv (tl s3) of
             Inl e \<Rightarrow> Inl e
           | Inr (v, s4) \<Rightarrow>
               (let s5 = skipWhitespace s4 in
                if peek s5 = CHR '','' then object_loop pv n (acc @ [(k, v)]) (tl s5)
                else if peek s5 = CHR ''}'' then Inr (JObject (acc @ [(k, v)]), tl s5)
                else Inl (ExpectedCommaOrBrace, s5))))"

definition parseObject :: "(bytes \<Rightarrow> json presult) \<Rightarrow> bytes \<Rightarrow> json presult" where
  "parseObject pv s =
     (let s1 = skipWhitespace (tl s) in
      if peek s1 = CHR ''}'' then Inr (JObject [], tl s1)
      else object_loop pv (Suc (length s1)) [] s1)"

fun array_loop ::
  "(bytes \<Rightarrow> json presult) \<Rightarrow> nat \<Rightarrow> json list \<Rightarrow> bytes \<Rightarrow> json presult" where
  "array_loop pv 0 acc s = Inl (OutOfFuel, s)"
| "array_loop pv (Suc n) acc s =
     (case pv s of
        Inl e \<Rightarrow> Inl e
      | Inr (v, s1) \<Rightarrow>
          (let s2 = skipWhitespace s1 in
           if peek s2 = CHR '','' then array_loop pv n (acc @ [v]) (tl s2)
           else if peek s2 = CHR '']'' then Inr (JArray (acc @ [v]), tl s2)
           else Inl (ExpectedCommaOrBracket, s2)))"

definition parseArray :: "(bytes \<Rightarrow> json presult) \<Rightarrow> bytes \<Rightarrow> json presult" where
  "parseArray pv s =
     (let s1 = skipWhitespace (tl s) in
      if peek s1 = CHR '']'' then Inr (JArray [], tl s1)
      else array_loop pv (Suc (length s1)) [] s1)"

fun parseValue :: "nat \<Rightarrow> bytes \<Rightarrow> json presult" where
  "parseValue 0 s = Inl (MaxDepthExceeded, s)"
| "parseValue (Suc d) s =
     (let s1 = skipWhitespace s in
      if s1 = [] then Inl (UnexpectedEnd, s1)
      else let c = peek s1 in
        if c = CHR ''{'' then parseObject (parseValue d) s1
        else if c = CHR ''['' then parseArray (parseValue d) s1
        else if c = quote_char then
          (case parseString s1 of Inl e \<Rightarrow> Inl e | Inr (t, r) \<Rightarrow> Inr (JString t, r))
        else if c = CHR ''t'' \<or> c = CHR ''f'' then parseBool s1
        else if c = CHR ''n'' then parseNull s1
        else if c = CHR ''-'' \<or> isdigit_c c then parseNumber s1
        else Inl (UnexpectedCharacter c, s1))"

text \<open>\<open>JsonParser::parse\<close>; the error carries the offset the code prints with it.\<close>

definition parse_json :: "bytes \<Rightarrow> (json_error \<times> nat) + json" where
  "parse_json src =
     (let offset = (\<lambda>r. length src - length r); s1 = skipWhitespace src in
      if s1 = [] then Inl (UnexpectedEnd, offset s1)
      else case parseValue kMaxDepth s1 of
        Inl (e, r) \<Rightarrow> Inl (e, offset r)
      | Inr (v, r) \<Rightarrow>
          (let s2 = skipWhitespace r in
           if s2 = [] then Inr v else Inl (TrailingCharacters, offset s2)))"

section \<open>The escaper and the string reader\<close>

lemma jsonEscapeString_simps [simp]:
  "jsonEscapeString [] = []"
  "jsonEscapeString (c # s) = esc_char c @ jsonEscapeString s"
  by (simp_all add: jsonEscapeString_def)

lemma jsonEscapeString_append [simp]:
  "jsonEscapeString (s @ t) = jsonEscapeString s @ jsonEscapeString t"
  by (simp add: jsonEscapeString_def)

lemma byte_less_32_cases:
  assumes "byte_of c < (32 :: nat)"
  obtains n :: nat where "n < 32" "c = char_of n"
  using assms by (metis char_of_char)

lemma hex_val_hex_digit [simp]: "k < 16 \<Longrightarrow> hex_val (hex_digit k) = Some k"
  by (auto simp: hex_val_def hex_digit_def isdigit_c_def of_char_of)

lemma is_hex_hex_digit [simp]: "k < 16 \<Longrightarrow> is_hex (hex_digit k)"
  by (simp add: is_hex_def)

lemma hex_digit_0: "CHR ''0'' = hex_digit 0"
proof -
  have "(char_of (48 :: nat)) = CHR ''0''" by (simp add: char_of_def bit_iff_odd)
  then show ?thesis by (simp add: hex_digit_def)
qed

lemma hex_digit_less_128: "k < 16 \<Longrightarrow> 48 \<le> byte_of (hex_digit k)"
  by (auto simp: hex_digit_def of_char_of)

lemma control_escape_code:
  assumes "n < 32"
  shows "stoul16 (hex4 n) = Some (of_nat n)"
proof -
  let ?s = "[hex_digit 0, hex_digit 0, hex_digit (n div 16 mod 16), hex_digit (n mod 16)]"
  have s: "hex4 n = ?s" by (simp add: hex4_def hex_digit_0)
  have d0: "hex_digit 0 = CHR ''0''" by (simp add: hex_digit_0)
  have "dropWhile isspace_c ?s = ?s"
    by (simp add: d0 isspace_c_def)
  moreover have "takeWhile is_hex ?s = ?s"
    by simp
  moreover have "hex_number ?s = n"
    using assms by (simp add: hex_number_def)
  ultimately show ?thesis
    unfolding s stoul16_def Let_def by (simp add: d0)
qed

lemma utf8_of_control: "n < 32 \<Longrightarrow> utf8_of_code (of_nat n) = [char_of n]"
proof -
  assume n: "n < 32"
  have u: "unat (of_nat n :: 32 word) = n"
    using n by (simp add: unat_of_nat)
  then have "(of_nat n :: 32 word) < 0x80"
    using n by (simp add: word_less_nat_alt)
  then show ?thesis
    by (simp add: utf8_of_code_def byte_char_def u)
qed

lemma simple_escape_u [simp]: "simple_escape (CHR ''u'') = None"
  by (simp add: simple_escape_def)

text \<open>Reading one escaped byte gives that byte back.\<close>

lemma string_body_esc_char:
  "string_body acc (esc_char c @ r) = string_body (c # acc) r"
proof (cases "c = quote_char \<or> c = backslash \<or> c = CHR 0x0A \<or> c = CHR 0x0D \<or> c = CHR 0x09")
  case True
  then show ?thesis
    by (elim disjE) (simp_all add: esc_char_def simple_escape_def)
next
  case False
  show ?thesis
  proof (cases "byte_of c < 32")
    case True
    then obtain n :: nat where n: "n < 32" "c = char_of n" by (rule byte_less_32_cases)
    have "length (hex4 n) = 4" by (simp add: hex4_def)
    then have "take 4 (hex4 n @ r) = hex4 n" "drop 4 (hex4 n @ r) = r" "\<not> length (hex4 n @ r) < 4"
      by simp_all
    moreover have "byte_of c = n" using n by (simp add: of_char_of)
    then have "esc_char c = [backslash, CHR ''u''] @ hex4 n"
      using False True by (simp add: esc_char_def)
    ultimately show ?thesis
      using n by (simp add: control_escape_code utf8_of_control)
  next
    case False': False
    with False show ?thesis by (simp add: esc_char_def)
  qed
qed

lemma string_body_escaped:
  "string_body acc (jsonEscapeString s @ quote_char # r) = Inr (rev acc @ s, r)"
  by (induction s arbitrary: acc) (simp_all add: string_body_esc_char)

lemma parseString_escaped:
  "parseString (quote_char # jsonEscapeString s @ quote_char # r) = Inr (s, r)"
  by (simp add: parseString_def string_body_escaped)

text \<open>The escaped text holds no bare quote and no control byte.\<close>

lemma esc_char_printable: "d \<in> set (esc_char c) \<Longrightarrow> 32 \<le> byte_of d"
  by (auto simp: esc_char_def hex4_def hex_digit_def of_char_of split: if_splits)

lemma jsonEscapeString_printable: "d \<in> set (jsonEscapeString s) \<Longrightarrow> 32 \<le> byte_of d"
  by (auto simp: jsonEscapeString_def dest: esc_char_printable)

section \<open>The loops of the reader end\<close>

lemma skipWhitespace_length: "length (skipWhitespace s) \<le> length s"
  by (simp add: skipWhitespace_def length_dropWhile_le)

lemma string_body_shrinks: "string_body acc s = Inr (t, r) \<Longrightarrow> length r < length s"
proof (induction acc s rule: string_body.induct)
  case (1 acc)
  then show ?case by simp
next
  case (2 acc c cs)
  then show ?case
    by (force split: if_splits list.splits option.splits)
qed

lemma string_body_no_fuel: "string_body acc s \<noteq> Inl (OutOfFuel, r)"
proof (induction acc s rule: string_body.induct)
  case (1 acc)
  then show ?case by simp
next
  case (2 acc c cs)
  then show ?case
    by (simp split: list.split option.split)
qed

lemma parseString_shrinks: "parseString s = Inr (t, r) \<Longrightarrow> length r < length s"
  by (cases s) (auto simp: parseString_def dest: string_body_shrinks)

text \<open>
  What the object and array loops need of the parser of the nested value: it consumes
  input and does not fail for lack of fuel.
\<close>

locale value_reader =
  fixes pv :: "bytes \<Rightarrow> json presult"
  assumes shrinks: "pv s = Inr (v, r) \<Longrightarrow> length r < length s"
    and no_fuel_error: "pv s \<noteq> Inl (OutOfFuel, r)"
begin

lemma object_loop_shrinks: "object_loop pv n acc s = Inr (v, r) \<Longrightarrow> length r < length s"
proof (induction n arbitrary: acc s)
  case 0
  then show ?case by simp
next
  case (Suc n)
  let ?s1 = "skipWhitespace s"
  from Suc.prems obtain k s2 w s4 where k: "parseString ?s1 = Inr (k, s2)"
    and w: "pv (tl (skipWhitespace s2)) = Inr (w, s4)"
    and end_or_next: "object_loop pv n (acc @ [(k, w)]) (tl (skipWhitespace s4)) = Inr (v, r) \<or>
      r = tl (skipWhitespace s4)"
    by (auto simp: Let_def split: if_splits sum.splits)
  have "length (tl (skipWhitespace s4)) < length s"
    using parseString_shrinks [OF k] shrinks [OF w] skipWhitespace_length [of s]
      skipWhitespace_length [of s2] skipWhitespace_length [of s4]
    by simp
  with end_or_next show ?case
    using Suc.IH [of "acc @ [(k, w)]" "tl (skipWhitespace s4)"] by auto
qed

lemma object_loop_fuel: "length s < n \<Longrightarrow> object_loop pv n acc s \<noteq> Inl (OutOfFuel, r)"
proof (induction n arbitrary: acc s)
  case 0
  then show ?case by simp
next
  case (Suc n)
  have key: "parseString s1 \<noteq> Inl (OutOfFuel, r)" for s1
    by (simp add: parseString_def string_body_no_fuel)
  have step: "object_loop pv n acc' (tl (skipWhitespace s4)) \<noteq> Inl (OutOfFuel, r)"
    if k: "parseString (skipWhitespace s) = Inr (k, s2)" and w: "pv (tl (skipWhitespace s2)) = Inr (w, s4)"
    for k s2 w s4 acc'
  proof (rule Suc.IH)
    show "length (tl (skipWhitespace s4)) < n"
      using Suc.prems parseString_shrinks [OF k] shrinks [OF w] skipWhitespace_length [of s]
        skipWhitespace_length [of s2] skipWhitespace_length [of s4]
      by simp
  qed
  show ?case
    by (auto simp: Let_def no_fuel_error key step split: if_splits sum.splits)
qed

lemma array_loop_shrinks: "array_loop pv n acc s = Inr (v, r) \<Longrightarrow> length r < length s"
proof (induction n arbitrary: acc s)
  case 0
  then show ?case by simp
next
  case (Suc n)
  from Suc.prems obtain w s1 where w: "pv s = Inr (w, s1)"
    and end_or_next: "array_loop pv n (acc @ [w]) (tl (skipWhitespace s1)) = Inr (v, r) \<or>
      r = tl (skipWhitespace s1)"
    by (auto simp: Let_def split: if_splits sum.splits)
  have "length (tl (skipWhitespace s1)) < length s"
    using shrinks [OF w] skipWhitespace_length [of s1] by simp
  with end_or_next show ?case
    using Suc.IH [of "acc @ [w]" "tl (skipWhitespace s1)"] by auto
qed

lemma array_loop_fuel: "length s < n \<Longrightarrow> array_loop pv n acc s \<noteq> Inl (OutOfFuel, r)"
proof (induction n arbitrary: acc s)
  case 0
  then show ?case by simp
next
  case (Suc n)
  have step: "array_loop pv n acc' (tl (skipWhitespace s1)) \<noteq> Inl (OutOfFuel, r)"
    if w: "pv s = Inr (w, s1)" for w s1 acc'
    by (rule Suc.IH) (use Suc.prems shrinks [OF w] skipWhitespace_length [of s1] in simp)
  show ?case
    by (auto simp: Let_def no_fuel_error step split: if_splits sum.splits)
qed

lemma parseObject_shrinks: "parseObject pv s = Inr (v, r) \<Longrightarrow> s \<noteq> [] \<Longrightarrow> length r < length s"
  using skipWhitespace_length [of "tl s"]
  by (cases s) (auto simp: parseObject_def Let_def simp del: object_loop.simps
      dest!: object_loop_shrinks split: if_splits)

lemma parseArray_shrinks: "parseArray pv s = Inr (v, r) \<Longrightarrow> s \<noteq> [] \<Longrightarrow> length r < length s"
  using skipWhitespace_length [of "tl s"]
  by (cases s) (auto simp: parseArray_def Let_def simp del: array_loop.simps
      dest!: array_loop_shrinks split: if_splits)

lemma parseObject_no_fuel_error: "parseObject pv s \<noteq> Inl (OutOfFuel, r)"
  by (simp add: parseObject_def Let_def object_loop_fuel del: object_loop.simps)

lemma parseArray_no_fuel_error: "parseArray pv s \<noteq> Inl (OutOfFuel, r)"
  by (simp add: parseArray_def Let_def array_loop_fuel del: array_loop.simps)

end

lemma parseNumber_shrinks:
  assumes "parseNumber s = Inr (v, r)" and "isdigit_c (peek s) \<or> peek s = CHR ''-''" and "s \<noteq> []"
  shows "length r < length s"
proof (cases s)
  case Nil
  with assms show ?thesis by simp
next
  case (Cons c cs)
  have "length (dropWhile is_num_char cs) \<le> length cs" by (rule length_dropWhile_le)
  moreover have "r = dropWhile is_num_char (if c = CHR ''-'' then cs else c # cs)"
    using assms(1) Cons by (auto simp: parseNumber_def peek_def Let_def split: option.splits)
  moreover have "is_num_char c"
    using assms(2) Cons by (auto simp: peek_def is_num_char_def)
  ultimately show ?thesis using Cons by (auto split: if_splits)
qed

lemma take_eq_length: "take n s = t \<Longrightarrow> length t = n \<Longrightarrow> 0 < n \<Longrightarrow> length (drop n s) < length s"
  by auto

lemma parse_literals_shrink:
  "parseBool s = Inr (v, r) \<Longrightarrow> length r < length s"
  "parseNull s = Inr (v, r) \<Longrightarrow> length r < length s"
  using take_eq_length [of 4 s "''true''"] take_eq_length [of 5 s "''false''"]
    take_eq_length [of 4 s "''null''"]
  by (auto simp: parseBool_def parseNull_def split: if_splits)

lemma parse_scalars_no_fuel:
  "parseNumber s \<noteq> Inl (OutOfFuel, r)"
  "parseBool s \<noteq> Inl (OutOfFuel, r)"
  "parseNull s \<noteq> Inl (OutOfFuel, r)"
  "parseString s \<noteq> Inl (OutOfFuel, r)"
  by (auto simp: parseNumber_def parseBool_def parseNull_def parseString_def Let_def
      string_body_no_fuel split: option.splits)

lemma value_reader_0: "value_reader (parseValue 0)"
  by unfold_locales simp_all

lemma value_reader_Suc:
  assumes "value_reader (parseValue d)"
  shows "value_reader (parseValue (Suc d))"
proof
  fix s v r
  assume p: "parseValue (Suc d) s = Inr (v, r)"
  let ?s1 = "skipWhitespace s"
  have ne: "?s1 \<noteq> []" using p by auto
  have "length r < length ?s1"
    using p ne value_reader.parseObject_shrinks [OF assms, of ?s1 v r]
      value_reader.parseArray_shrinks [OF assms, of ?s1 v r]
      parseString_shrinks [of ?s1 _ r] parse_literals_shrink [of ?s1 v r]
      parseNumber_shrinks [of ?s1 v r]
    by (auto simp: Let_def split: if_splits sum.splits)
  then show "length r < length s"
    using skipWhitespace_length [of s] by simp
next
  fix s r
  show "parseValue (Suc d) s \<noteq> Inl (OutOfFuel, r)"
    by (auto simp: Let_def value_reader.parseObject_no_fuel_error [OF assms]
        value_reader.parseArray_no_fuel_error [OF assms] parse_scalars_no_fuel
        split: if_splits sum.splits)
qed

interpretation level: value_reader "parseValue d" for d
  by (induction d) (simp_all add: value_reader_0 value_reader_Suc del: parseValue.simps)

end
