(* ===== verification/Json_Writer.thy ===== *)
theory Json_Writer
  imports Json_Text
begin

text \<open>
  The incremental serializer \<open>JsonWriter\<close> of \<open>util/json_writer.{h,cpp}\<close> and the error
  envelopes built with it.

  The writer's state is the record \<open>writer\<close> with the fields of the class; the stack of
  frames has its top at the head.  Each public member function is a definition that
  returns the new state, in the code's order of guards; \<open>writer_op\<close> names a call and
  \<open>writer_step\<close> performs it.  A \<open>double\<close> argument is given by the text the stream
  produces for it, \<open>None\<close> standing for NaN and the infinities: the number formatting of
  \<open>std::ostringstream\<close> is not modelled.

  The abstract machine \<open>doc\<close> is a JSON document under construction.  \<open>writer_refines\<close>
  shows that the writer follows it call by call, and that a call the abstract machine
  refuses sets the error.
\<close>

section \<open>The class\<close>

record frame =
  is_object :: bool
  has_items :: bool

record writer =
  out :: bytes
  werror :: bytes
  stack :: "frame list"
  awaiting_value :: bool
  started :: bool

definition new_writer :: writer where
  "new_writer = \<lparr>out = [], werror = [], stack = [], awaiting_value = False, started = False\<rparr>"

definition reset :: "writer \<Rightarrow> writer" where
  "reset w = \<lparr>out = [], werror = [], stack = [], awaiting_value = False, started = False\<rparr>"

definition writer_ok :: "writer \<Rightarrow> bool" where
  "writer_ok w \<longleftrightarrow> werror w = []"

definition setError :: "bytes \<Rightarrow> writer \<Rightarrow> writer" where
  "setError msg w = (if werror w = [] then w\<lparr>werror := msg\<rparr> else w)"

definition emit :: "bytes \<Rightarrow> writer \<Rightarrow> writer" where
  "emit t w = w\<lparr>out := out w @ t\<rparr>"

definition beforeValue :: "writer \<Rightarrow> writer" where
  "beforeValue w =
     (case stack w of
        [] \<Rightarrow> (if started w then setError ''multiple top-level JSON values'' w else w)
      | f # _ \<Rightarrow>
          if is_object f
          then (if \<not> awaiting_value w then setError ''object value without a key'' w else w)
          else (if has_items f then emit '','' w else w))"

definition markValueDone :: "writer \<Rightarrow> writer" where
  "markValueDone w =
     (case stack w of
        [] \<Rightarrow> w\<lparr>started := True\<rparr>
      | f # fs \<Rightarrow>
          w\<lparr>awaiting_value := (if is_object f then False else awaiting_value w),
            stack := f\<lparr>has_items := True\<rparr> # fs\<rparr>)"

definition appendEscapedString :: "bytes \<Rightarrow> writer \<Rightarrow> writer" where
  "appendEscapedString v w = emit [quote_char] (emit (jsonEscapeString v) (emit [quote_char] w))"

definition beginContainer :: "char \<Rightarrow> bool \<Rightarrow> writer \<Rightarrow> writer" where
  "beginContainer open_char isobj w =
     (if werror w \<noteq> [] then w
      else let w1 = beforeValue w in
        if werror w1 \<noteq> [] then w1
        else let w2 = markValueDone (emit [open_char] w1)
             in w2\<lparr>stack := \<lparr>is_object = isobj, has_items = False\<rparr> # stack w2, awaiting_value := False\<rparr>)"

definition endContainer :: "char \<Rightarrow> bool \<Rightarrow> writer \<Rightarrow> writer" where
  "endContainer close_char isobj w =
     (if werror w \<noteq> [] then w
      else if stack w = [] \<or> is_object (hd (stack w)) \<noteq> isobj
        then setError (if isobj then ''endObject without beginObject''
                       else ''endArray without beginArray'') w
      else if isobj \<and> awaiting_value w then setError ''object key without a value'' w
      else (emit [close_char] (w\<lparr>stack := tl (stack w)\<rparr>))\<lparr>awaiting_value := False\<rparr>)"

definition beginObject :: "writer \<Rightarrow> writer" where "beginObject = beginContainer (CHR ''{'') True"
definition endObject :: "writer \<Rightarrow> writer" where "endObject = endContainer (CHR ''}'') True"
definition beginArray :: "writer \<Rightarrow> writer" where "beginArray = beginContainer (CHR ''['') False"
definition endArray :: "writer \<Rightarrow> writer" where "endArray = endContainer (CHR '']'') False"

definition key :: "bytes \<Rightarrow> writer \<Rightarrow> writer" where
  "key k w =
     (if werror w \<noteq> [] then w
      else if stack w = [] \<or> \<not> is_object (hd (stack w)) then setError ''key outside an object'' w
      else if awaiting_value w
        then setError ''object key without a value for the previous key'' w
      else let w1 = (if has_items (hd (stack w)) then emit '','' w else w)
           in (emit '':'' (appendEscapedString k w1))\<lparr>awaiting_value := True\<rparr>)"

text \<open>The common body of the scalar emitters: the separator, the text, the flags.\<close>

definition emit_value :: "(writer \<Rightarrow> writer) \<Rightarrow> writer \<Rightarrow> writer" where
  "emit_value body w =
     (if werror w \<noteq> [] then w
      else let w1 = beforeValue w in
        if werror w1 \<noteq> [] then w1 else markValueDone (body w1))"

definition value_string :: "bytes \<Rightarrow> writer \<Rightarrow> writer" where
  "value_string v = emit_value (appendEscapedString v)"

definition value_bool :: "bool \<Rightarrow> writer \<Rightarrow> writer" where
  "value_bool v = emit_value (emit (if v then ''true'' else ''false''))"

definition value_int :: "int \<Rightarrow> writer \<Rightarrow> writer" where
  "value_int v = emit_value (emit (to_string_int v))"

definition nullValue :: "writer \<Rightarrow> writer" where
  "nullValue = emit_value (emit ''null'')"

definition value_double :: "bytes option \<Rightarrow> writer \<Rightarrow> writer" where
  "value_double v = (case v of None \<Rightarrow> nullValue | Some t \<Rightarrow> emit_value (emit t))"

definition raw :: "bytes \<Rightarrow> writer \<Rightarrow> writer" where
  "raw t = emit_value (emit t)"

datatype writer_op =
    BeginObject | EndObject | BeginArray | EndArray
  | Key bytes | ValueString bytes | ValueBool bool | ValueInt int
  | ValueDouble "bytes option" | NullValue | Raw bytes

fun writer_step :: "writer_op \<Rightarrow> writer \<Rightarrow> writer" where
  "writer_step BeginObject = beginObject"
| "writer_step EndObject = endObject"
| "writer_step BeginArray = beginArray"
| "writer_step EndArray = endArray"
| "writer_step (Key k) = key k"
| "writer_step (ValueString v) = value_string v"
| "writer_step (ValueBool v) = value_bool v"
| "writer_step (ValueInt v) = value_int v"
| "writer_step (ValueDouble v) = value_double v"
| "writer_step NullValue = nullValue"
| "writer_step (Raw t) = raw t"

definition run_writer :: "writer_op list \<Rightarrow> writer \<Rightarrow> writer" where
  "run_writer = fold writer_step"

section \<open>The error envelopes\<close>

definition envelope :: "bool \<Rightarrow> bytes option \<Rightarrow> bytes option \<Rightarrow> bytes \<Rightarrow> bytes" where
  "envelope with_ok_flag module_name method_name message =
     (let prefix = ''[module='' @ (case module_name of Some m \<Rightarrow> m | None \<Rightarrow> ''unknown'') @
                   '', method='' @ (case method_name of Some m \<Rightarrow> m | None \<Rightarrow> ''unknown'') @
                   ''] '' @ message;
          w1 = beginObject new_writer;
          w2 = (if with_ok_flag then value_bool False (key ''ok'' w1) else w1);
          w3 = value_string prefix (key ''error'' w2)
      in out (endObject w3))"

definition errorEnvelope :: "bytes option \<Rightarrow> bytes option \<Rightarrow> bytes \<Rightarrow> bytes" where
  "errorEnvelope = envelope False"

definition okFalseEnvelope :: "bytes option \<Rightarrow> bytes option \<Rightarrow> bytes \<Rightarrow> bytes" where
  "okFalseEnvelope = envelope True"

section \<open>The text of a value\<close>

definition quoted :: "bytes \<Rightarrow> bytes" where
  "quoted s = quote_char # jsonEscapeString s @ [quote_char]"

fun join :: "bytes \<Rightarrow> bytes list \<Rightarrow> bytes" where
  "join sep [] = []"
| "join sep [x] = x"
| "join sep (x # y # ys) = x @ sep @ join sep (y # ys)"

fun render :: "json \<Rightarrow> bytes" where
  "render JNull = ''null''"
| "render (JBool b) = (if b then ''true'' else ''false'')"
| "render (JNumber q) = to_string_int \<lfloor>q\<rfloor>"
| "render (JString s) = quoted s"
| "render (JArray vs) = ''['' @ join '','' (map render vs) @ '']''"
| "render (JObject kvs) = ''{'' @ join '','' (map (\<lambda>(k, v). quoted k @ '':'' @ render v) kvs) @ ''}''"

definition render_member :: "bytes \<times> json \<Rightarrow> bytes" where
  "render_member kv = quoted (fst kv) @ '':'' @ render (snd kv)"

lemma render_JObject [simp]:
  "render (JObject kvs) = ''{'' @ join '','' (map render_member kvs) @ ''}''"
proof -
  have "(\<lambda>(k, v). quoted k @ '':'' @ render v) = render_member"
    by (simp add: fun_eq_iff render_member_def)
  then show ?thesis by (simp only: render.simps)
qed

declare render.simps(6) [simp del]

lemma join_snoc: "join sep (xs @ [x]) = (if xs = [] then x else join sep xs @ sep @ x)"
proof (induction sep xs rule: join.induct)
  case (1 sep)
  then show ?case by simp
next
  case (2 sep x)
  then show ?case by simp
next
  case (3 sep x y ys)
  then show ?case by simp
qed

section \<open>A document under construction\<close>

text \<open>
  An open container holds the items it has so far; an open object may hold a key that
  waits for its value.  A document is the stack of open containers, innermost first, and
  the finished top-level value.
\<close>

datatype context_frame =
    OpenObject "(bytes \<times> json) list" "bytes option"
  | OpenArray "json list"

datatype doc = Doc "context_frame list" "json option"

datatype doc_op = DBegin bool | DEnd bool | DKey bytes | DPut json

fun can_put :: "context_frame list \<Rightarrow> json option \<Rightarrow> bool" where
  "can_put [] d = (d = None)"
| "can_put (OpenObject kvs p # cs) d = (p \<noteq> None)"
| "can_put (OpenArray vs # cs) d = True"

fun put_value :: "json \<Rightarrow> context_frame list \<Rightarrow> json option \<Rightarrow> doc" where
  "put_value v [] d = Doc [] (Some v)"
| "put_value v (OpenObject kvs (Some k) # cs) d = Doc (OpenObject (kvs @ [(k, v)]) None # cs) d"
| "put_value v (OpenObject kvs None # cs) d = Doc (OpenObject kvs None # cs) d"
| "put_value v (OpenArray vs # cs) d = Doc (OpenArray (vs @ [v]) # cs) d"

fun doc_step :: "doc_op \<Rightarrow> doc \<Rightarrow> doc option" where
  "doc_step (DBegin isobj) (Doc cs d) =
     (if can_put cs d then Some (Doc ((if isobj then OpenObject [] None else OpenArray []) # cs) d)
      else None)"
| "doc_step (DPut v) (Doc cs d) = (if can_put cs d then Some (put_value v cs d) else None)"
| "doc_step (DKey k) (Doc (OpenObject kvs None # cs) d) = Some (Doc (OpenObject kvs (Some k) # cs) d)"
| "doc_step (DKey k) (Doc cs d) = None"
| "doc_step (DEnd True) (Doc (OpenObject kvs None # cs) d) = Some (put_value (JObject kvs) cs d)"
| "doc_step (DEnd False) (Doc (OpenArray vs # cs) d) = Some (put_value (JArray vs) cs d)"
| "doc_step (DEnd b) (Doc cs d) = None"

text \<open>The call of the writer that corresponds to an abstract step.  \<open>raw\<close> and the number
  text of a \<open>double\<close> stand for the value whose text they are.\<close>

fun op_matches :: "writer_op \<Rightarrow> doc_op \<Rightarrow> bool" where
  "op_matches BeginObject a = (a = DBegin True)"
| "op_matches EndObject a = (a = DEnd True)"
| "op_matches BeginArray a = (a = DBegin False)"
| "op_matches EndArray a = (a = DEnd False)"
| "op_matches (Key k) a = (a = DKey k)"
| "op_matches (ValueString v) a = (a = DPut (JString v))"
| "op_matches (ValueBool v) a = (a = DPut (JBool v))"
| "op_matches (ValueInt v) a = (a = DPut (JNumber (of_int v)))"
| "op_matches (ValueDouble None) a = (a = DPut JNull)"
| "op_matches (ValueDouble (Some t)) a = (\<exists>v. a = DPut v \<and> t = render v)"
| "op_matches NullValue a = (a = DPut JNull)"
| "op_matches (Raw t) a = (\<exists>v. a = DPut v \<and> t = render v)"

section \<open>The writer refines the document\<close>

fun waits :: "context_frame \<Rightarrow> bool" where
  "waits (OpenObject kvs p) = (p \<noteq> None)"
| "waits (OpenArray vs) = True"

fun items_in :: "context_frame \<Rightarrow> bool" where
  "items_in (OpenObject kvs p) = (kvs \<noteq> [])"
| "items_in (OpenArray vs) = (vs \<noteq> [])"

fun is_open_object :: "context_frame \<Rightarrow> bool" where
  "is_open_object (OpenObject kvs p) = True"
| "is_open_object (OpenArray vs) = False"

fun has_key :: "context_frame list \<Rightarrow> bool" where
  "has_key (OpenObject kvs p # cs) = (p \<noteq> None)"
| "has_key _ = False"

text \<open>The text of an open container; the flag says that a value follows in it.\<close>

fun context_text :: "bool \<Rightarrow> context_frame \<Rightarrow> bytes" where
  "context_text b (OpenObject kvs p) =
     ''{'' @ join '','' (map render_member kvs) @
     (case p of None \<Rightarrow> [] | Some k \<Rightarrow> (if kvs = [] then [] else '','') @ quoted k @ '':'')"
| "context_text b (OpenArray vs) =
     ''['' @ join '','' (map render vs) @ (if b \<and> vs \<noteq> [] then '','' else [])"

fun contexts_text :: "bool \<Rightarrow> context_frame list \<Rightarrow> bytes" where
  "contexts_text b [] = []"
| "contexts_text b (c # cs) = contexts_text True cs @ context_text b c"

definition final_text :: "json option \<Rightarrow> bytes" where
  "final_text d = (case d of None \<Rightarrow> [] | Some v \<Rightarrow> render v)"

fun frames :: "bool \<Rightarrow> context_frame list \<Rightarrow> frame list" where
  "frames b [] = []"
| "frames b (c # cs) =
     \<lparr>is_object = is_open_object c, has_items = b \<or> items_in c\<rparr> # frames True cs"

fun represents :: "writer \<Rightarrow> doc \<Rightarrow> bool" where
  "represents w (Doc cs d) \<longleftrightarrow>
     werror w = [] \<and>
     out w = final_text d @ contexts_text False cs \<and>
     stack w = frames False cs \<and>
     awaiting_value w = has_key cs \<and>
     started w = (cs \<noteq> [] \<or> d \<noteq> None) \<and>
     (cs \<noteq> [] \<longrightarrow> d = None) \<and>
     list_all waits (tl cs)"

lemma represents_new [simp]: "represents new_writer (Doc [] None)"
  by (simp add: new_writer_def final_text_def)

lemma can_put_Cons [simp]: "can_put (c # cs) d = waits c"
  by (cases c) simp_all

lemma context_text_waits: "waits c \<Longrightarrow> is_open_object c \<Longrightarrow> context_text b c = context_text False c"
  by (cases c) auto

text \<open>Putting a value closes the gap the flag announces.\<close>

lemma put_value_cases:
  assumes "can_put cs d" and "cs \<noteq> [] \<Longrightarrow> d = None"
  obtains cs' d' where "put_value v cs d = Doc cs' d'"
    and "final_text d' @ contexts_text False cs' = final_text d @ contexts_text True cs @ render v"
    and "frames False cs' = frames True cs" and "\<not> has_key cs'"
    and "cs' \<noteq> [] \<or> d' \<noteq> None" and "cs' \<noteq> [] \<longrightarrow> d' = None" and "tl cs' = tl cs" and "length cs' = length cs"
proof (cases "(v, cs, d)" rule: put_value.cases)
  case (1 v d)
  then show ?thesis using assms that [of "[]" "Some v"] by (simp add: final_text_def)
next
  case (2 v kvs k cs d)
  then show ?thesis
    using assms that [of "OpenObject (kvs @ [(k, v)]) None # cs" d]
    by (simp add: join_snoc render_member_def)
next
  case (3 v kvs cs d)
  then show ?thesis using assms by simp
next
  case (4 v vs cs d)
  then show ?thesis
    using assms that [of "OpenArray (vs @ [v]) # cs" d] by (simp add: join_snoc)
qed

text \<open>\<open>beforeValue\<close> refuses exactly where the document cannot take a value.\<close>

lemma beforeValue_refused:
  "represents w (Doc cs d) \<Longrightarrow> \<not> can_put cs d \<Longrightarrow> werror (beforeValue w) \<noteq> []"
  by (cases cs rule: has_key.cases)
    (auto simp: beforeValue_def setError_def)

lemma beforeValue_accepted:
  assumes "represents w (Doc cs d)" and "can_put cs d"
  shows "beforeValue w = w\<lparr>out := final_text d @ contexts_text True cs\<rparr>"
  using assms by (cases cs rule: has_key.cases) (auto simp: beforeValue_def emit_def)

lemma markValueDone_frames:
  assumes "stack w = frames False cs" and "cs \<noteq> [] \<or> awaiting_value w = has_key cs"
  shows "markValueDone w =
    w\<lparr>awaiting_value := (if cs \<noteq> [] \<and> is_open_object (hd cs) then False else awaiting_value w),
      stack := frames True cs, started := started w \<or> cs = []\<rparr>"
  using assms by (cases cs) (auto simp: markValueDone_def)

lemma emit_value_refines:
  assumes rep: "represents w (Doc cs d)" and body: "\<And>u. body u = emit (render v) u"
  shows "if can_put cs d then represents (emit_value body w) (put_value v cs d)
         else werror (emit_value body w) \<noteq> []"
proof (cases "can_put cs d")
  case False
  then show ?thesis
    using rep beforeValue_refused [OF rep] by (simp add: emit_value_def Let_def)
next
  case True
  have none: "cs \<noteq> [] \<Longrightarrow> d = None" using rep by simp
  from put_value_cases [OF True none, where v = v] obtain cs' d' where
    p: "put_value v cs d = Doc cs' d'"
    "final_text d' @ contexts_text False cs' = final_text d @ contexts_text True cs @ render v"
    "frames False cs' = frames True cs" "\<not> has_key cs'"
    "cs' \<noteq> [] \<or> d' \<noteq> None" "cs' \<noteq> [] \<longrightarrow> d' = None" "tl cs' = tl cs" "length cs' = length cs"
    by blast
  let ?w = "w\<lparr>out := final_text d @ contexts_text True cs @ render v\<rparr>"
  have "markValueDone ?w = ?w\<lparr>awaiting_value := False, stack := frames True cs, started := True\<rparr>"
    using rep by (subst markValueDone_frames [where cs = cs])
      (cases cs rule: has_key.cases; auto)+
  then have "emit_value body w = ?w\<lparr>awaiting_value := False, stack := frames True cs, started := True\<rparr>"
    using rep by (simp add: emit_value_def Let_def beforeValue_accepted [OF rep True] body emit_def)
  then show ?thesis
    using True p rep by (cases cs'; auto)
qed

lemma beginContainer_refines:
  assumes rep: "represents w (Doc cs d)"
    and ch: "open_char = (if isobj then CHR ''{'' else CHR ''['')"
  shows "if can_put cs d
         then represents (beginContainer open_char isobj w)
                (Doc ((if isobj then OpenObject [] None else OpenArray []) # cs) d)
         else werror (beginContainer open_char isobj w) \<noteq> []"
proof (cases "can_put cs d")
  case False
  then show ?thesis
    using rep beforeValue_refused [OF rep] by (simp add: beginContainer_def Let_def)
next
  case True
  let ?w = "w\<lparr>out := final_text d @ contexts_text True cs @ [open_char]\<rparr>"
  have "markValueDone ?w = ?w\<lparr>awaiting_value := (if cs \<noteq> [] \<and> is_open_object (hd cs) then False else awaiting_value w),
      stack := frames True cs, started := started w \<or> cs = []\<rparr>"
    using rep by (subst markValueDone_frames [where cs = cs]) auto
  then have "beginContainer open_char isobj w =
      ?w\<lparr>awaiting_value := False, stack := \<lparr>is_object = isobj, has_items = False\<rparr> # frames True cs,
         started := started w \<or> cs = []\<rparr>"
    using rep by (simp add: beginContainer_def Let_def beforeValue_accepted [OF rep True] emit_def)
  moreover have "d = None" using rep True by (cases cs) auto
  moreover have "list_all waits cs" using rep True by (cases cs) auto
  ultimately show ?thesis
    using True rep ch by (auto simp: final_text_def)
qed

lemma doc_step_DEnd_Some:
  assumes "doc_step (DEnd isobj) (Doc cs d) = Some D"
  shows "\<exists>c cs0 v. cs = c # cs0 \<and> D = put_value v cs0 d \<and>
    render v = context_text False c @ (if isobj then ''}'' else '']'') \<and>
    is_open_object c = isobj \<and> \<not> has_key (c # cs0)"
  using assms
  by (cases "(DEnd isobj, Doc cs d)" rule: doc_step.cases)
    (force intro: exI [of _ "JObject _"] exI [of _ "JArray _"])+

lemma endContainer_refines:
  assumes rep: "represents w (Doc cs d)"
    and ch: "close_char = (if isobj then CHR ''}'' else CHR '']'')"
  shows "case doc_step (DEnd isobj) (Doc cs d) of
           Some D \<Rightarrow> represents (endContainer close_char isobj w) D
         | None \<Rightarrow> werror (endContainer close_char isobj w) \<noteq> []"
proof (cases "doc_step (DEnd isobj) (Doc cs d)")
  case None
  then show ?thesis using rep
    by (cases cs rule: has_key.cases; cases isobj)
      (auto simp: endContainer_def setError_def split: option.splits)
next
  case (Some D)
  then obtain c cs0 v where cs: "cs = c # cs0" and D: "D = put_value v cs0 d"
    and v: "render v = context_text False c @ [close_char]"
    and c: "is_open_object c = isobj" "\<not> has_key (c # cs0)"
    using doc_step_DEnd_Some [OF Some] ch by (auto split: if_splits)
  have can: "can_put cs0 d"
    using rep cs by (cases cs0) auto
  have none: "cs0 \<noteq> [] \<Longrightarrow> d = None" using rep cs by simp
  have dn: "d = None" using rep cs by simp
  from put_value_cases [OF can none, where v = v] obtain cs' d' where
    p: "put_value v cs0 d = Doc cs' d'"
    "final_text d' @ contexts_text False cs' = final_text d @ contexts_text True cs0 @ render v"
    "frames False cs' = frames True cs0" "\<not> has_key cs'"
    "cs' \<noteq> [] \<or> d' \<noteq> None" "cs' \<noteq> [] \<longrightarrow> d' = None" "tl cs' = tl cs0" "length cs' = length cs0"
    by blast
  have "endContainer close_char isobj w =
      w\<lparr>out := final_text d @ contexts_text True cs0 @ render v, stack := frames True cs0, awaiting_value := False\<rparr>"
    using rep cs c v by (cases cs0) (auto simp: endContainer_def emit_def)
  moreover have "list_all waits (tl cs0)"
    using rep cs by (cases cs0) auto
  ultimately show ?thesis
    using Some D p rep cs by (cases cs'; auto)
qed

lemma key_refines:
  assumes rep: "represents w (Doc cs d)"
  shows "case doc_step (DKey k) (Doc cs d) of
           Some D \<Rightarrow> represents (key k w) D
         | None \<Rightarrow> werror (key k w) \<noteq> []"
proof (cases cs)
  case Nil
  then show ?thesis using rep by (simp add: key_def setError_def)
next
  case (Cons c cs0)
  show ?thesis
  proof (cases c)
    case (OpenArray vs)
    then show ?thesis using rep Cons by (simp add: key_def setError_def)
  next
    case (OpenObject kvs p)
    then show ?thesis using rep Cons
      by (cases p) (auto simp: key_def setError_def emit_def appendEscapedString_def quoted_def Let_def)
  qed
qed

lemma appendEscapedString_emit: "appendEscapedString v w = emit (render (JString v)) w"
  by (simp add: appendEscapedString_def emit_def quoted_def)

lemmas writer_ops = beginObject_def endObject_def beginArray_def endArray_def value_string_def
  value_bool_def value_int_def nullValue_def value_double_def raw_def

lemma writer_step_refines:
  assumes rep: "represents w D" and op: "op_matches op a"
  shows "case doc_step a D of
           Some D' \<Rightarrow> represents (writer_step op w) D'
         | None \<Rightarrow> werror (writer_step op w) \<noteq> []"
proof -
  obtain cs d where D: "D = Doc cs d" by (cases D)
  note rep' = rep [unfolded D]
  have put: "case doc_step (DPut v) D of
           Some D' \<Rightarrow> represents (emit_value (emit (render v)) w) D'
         | None \<Rightarrow> werror (emit_value (emit (render v)) w) \<noteq> []" for v
    using emit_value_refines [OF rep', of "emit (render v)" v] D by (auto split: if_splits)
  have begin_c: "case doc_step (DBegin isobj) D of
           Some D' \<Rightarrow> represents (beginContainer (if isobj then CHR ''{'' else CHR ''['') isobj w) D'
         | None \<Rightarrow> werror (beginContainer (if isobj then CHR ''{'' else CHR ''['') isobj w) \<noteq> []"
    for isobj
    using beginContainer_refines [OF rep' refl, of isobj] D by (auto split: if_splits)
  note end_c = endContainer_refines [OF rep' refl]
  show ?thesis
  proof (cases op)
    case (ValueDouble x)
    show ?thesis
    proof (cases x)
      case None
      then show ?thesis using op put [of JNull] ValueDouble by (simp add: writer_ops cong: option.case_cong)
    next
      case (Some t)
      then obtain v where "a = DPut v" "t = render v" using op ValueDouble by auto
      then show ?thesis using put [of v] ValueDouble Some by (simp add: writer_ops cong: option.case_cong)
    qed
  next
    case (ValueString v)
    have "appendEscapedString v = emit (render (JString v))"
      by (simp add: appendEscapedString_emit fun_eq_iff del: render.simps)
    then show ?thesis
      using op put [of "JString v"] ValueString by (simp add: writer_ops del: render.simps cong: option.case_cong)
  next
    case (ValueBool v)
    then show ?thesis using op put [of "JBool v"] by (cases v) (simp_all add: writer_ops cong: option.case_cong)
  next
    case (ValueInt v)
    then show ?thesis using op put [of "JNumber (of_int v)"] by (simp add: writer_ops cong: option.case_cong)
  next
    case NullValue
    then show ?thesis using op put [of JNull] by (simp add: writer_ops cong: option.case_cong)
  next
    case (Raw t)
    then obtain v where "a = DPut v" "t = render v" using op by auto
    then show ?thesis using put [of v] Raw by (simp add: writer_ops cong: option.case_cong)
  next
    case (Key k)
    then show ?thesis using op key_refines [OF rep'] D by (simp cong: option.case_cong)
  next
    case BeginObject
    then show ?thesis using op begin_c [of True] by (simp add: writer_ops cong: option.case_cong)
  next
    case BeginArray
    then show ?thesis using op begin_c [of False] by (simp add: writer_ops cong: option.case_cong)
  next
    case EndObject
    then show ?thesis using op end_c [of True] D by (simp add: writer_ops del: doc_step.simps cong: option.case_cong)
  next
    case EndArray
    then show ?thesis using op end_c [of False] D by (simp add: writer_ops del: doc_step.simps cong: option.case_cong)
  qed
qed

subsection \<open>Runs\<close>

fun run_doc :: "doc_op list \<Rightarrow> doc \<Rightarrow> doc option" where
  "run_doc [] D = Some D"
| "run_doc (a # as) D = (case doc_step a D of None \<Rightarrow> None | Some D' \<Rightarrow> run_doc as D')"

text \<open>An error stops the writer: nothing changes after it.\<close>

lemma writer_step_after_error: "werror w \<noteq> [] \<Longrightarrow> writer_step op w = w"
  by (cases op rule: writer_step.cases)
    (auto simp: writer_ops beginContainer_def endContainer_def key_def emit_value_def split: option.split)

lemma run_writer_after_error: "werror w \<noteq> [] \<Longrightarrow> run_writer ops w = w"
  by (induction ops) (simp_all add: run_writer_def writer_step_after_error)

lemma run_writer_simps [simp]:
  "run_writer [] w = w"
  "run_writer (op # ops) w = run_writer ops (writer_step op w)"
  by (simp_all add: run_writer_def)

lemma run_writer_refines:
  assumes "list_all2 op_matches ops as" and "represents w D"
  shows "case run_doc as D of
           Some D' \<Rightarrow> represents (run_writer ops w) D'
         | None \<Rightarrow> werror (run_writer ops w) \<noteq> []"
  using assms
proof (induction ops as arbitrary: w D rule: list_all2_induct)
  case Nil
  then show ?case by simp
next
  case (Cons op ops a as)
  show ?case
  proof (cases "doc_step a D")
    case None
    then have "werror (writer_step op w) \<noteq> []"
      using writer_step_refines [OF Cons.prems Cons.hyps(1)] by simp
    then show ?thesis using None by (simp add: run_writer_after_error)
  next
    case (Some D')
    then have "represents (writer_step op w) D'"
      using writer_step_refines [OF Cons.prems Cons.hyps(1)] by simp
    from Cons.IH [OF this] Some show ?thesis by (simp cong: option.case_cong)
  qed
qed

text \<open>A call whose text arguments are texts of values has an abstract counterpart.\<close>

fun text_args_ok :: "writer_op \<Rightarrow> bool" where
  "text_args_ok (Raw t) = (\<exists>v. t = render v)"
| "text_args_ok (ValueDouble (Some t)) = (\<exists>v. t = render v)"
| "text_args_ok _ = True"

lemma op_matches_total: "text_args_ok op \<Longrightarrow> \<exists>a. op_matches op a"
  by (cases op rule: text_args_ok.cases) auto

lemma ops_matches_total: "list_all text_args_ok ops \<Longrightarrow> \<exists>as. list_all2 op_matches ops as"
proof (induction ops)
  case Nil
  then show ?case by simp
next
  case (Cons op ops)
  then obtain as where "list_all2 op_matches ops as" by auto
  moreover from Cons.prems obtain a where "op_matches op a"
    using op_matches_total [of op] by auto
  ultimately have "list_all2 op_matches (op # ops) (a # as)" by simp
  then show ?case by blast
qed

text \<open>The writer is closed when a top-level value was begun and no container is open.\<close>

definition closed :: "writer \<Rightarrow> bool" where
  "closed w \<longleftrightarrow> started w \<and> stack w = []"

lemma represents_closed:
  assumes "represents w D" and "closed w"
  obtains v where "D = Doc [] (Some v)" and "out w = render v"
proof -
  obtain cs d where D: "D = Doc cs d" by (cases D)
  then have "cs = []" using assms by (cases cs) (auto simp: closed_def)
  then show ?thesis using that assms D by (auto simp: closed_def final_text_def)
qed

lemma run_ok_closed_renders:
  assumes "list_all text_args_ok ops" and "writer_ok (run_writer ops new_writer)"
    and "closed (run_writer ops new_writer)"
  obtains v where "out (run_writer ops new_writer) = render v"
proof -
  from ops_matches_total [OF assms(1)] obtain as where as: "list_all2 op_matches ops as" by blast
  from run_writer_refines [OF as represents_new] assms(2)
  obtain D where "represents (run_writer ops new_writer) D"
    by (auto simp: writer_ok_def split: option.splits)
  then show ?thesis using represents_closed [OF _ assms(3)] that by metis
qed

end
