(* ===== verification/Json_Roundtrip.thy ===== *)
theory Json_Roundtrip
  imports Json_Writer
begin

text \<open>
  The writer of \<open>util/json_writer.cpp\<close> against the reader of \<open>evidence/rule.cpp\<close>: the text
  of a value, as the writer produces it, is read back as that value.  The reader refuses
  nesting beyond 64 levels and keeps numbers as \<open>double\<close>, so the statements ask for a
  value of at most 64 levels whose numbers are integers that a \<open>double\<close> holds exactly,
  those up to \<open>2 ^ 53\<close>; a larger 64-bit integer is written in full and rounded by the reader.

  The member functions that drive the writer over a whole value are \<open>write_value\<close>.
\<close>

fun jdepth :: "json \<Rightarrow> nat" where
  "jdepth (JArray vs) = Suc (Max (insert 0 (set (map jdepth vs))))"
| "jdepth (JObject kvs) = Suc (Max (insert 0 (set (map (\<lambda>kv. jdepth (snd kv)) kvs))))"
| "jdepth _ = 1"

definition exact_double :: "rat \<Rightarrow> bool" where
  "exact_double q \<longleftrightarrow> \<bar>q\<bar> \<le> 2 ^ 53"

fun whole_numbers :: "json \<Rightarrow> bool" where
  "whole_numbers (JNumber q) \<longleftrightarrow> of_int \<lfloor>q\<rfloor> = q"
| "whole_numbers (JArray vs) \<longleftrightarrow> list_all whole_numbers vs"
| "whole_numbers (JObject kvs) \<longleftrightarrow> list_all (\<lambda>kv. whole_numbers (snd kv)) kvs"
| "whole_numbers _ \<longleftrightarrow> True"

fun int_numbers :: "json \<Rightarrow> bool" where
  "int_numbers (JNumber q) \<longleftrightarrow> of_int \<lfloor>q\<rfloor> = q \<and> exact_double q"
| "int_numbers (JArray vs) \<longleftrightarrow> list_all int_numbers vs"
| "int_numbers (JObject kvs) \<longleftrightarrow> list_all (\<lambda>kv. int_numbers (snd kv)) kvs"
| "int_numbers _ \<longleftrightarrow> True"

lemma int_numbers_whole: "int_numbers v \<Longrightarrow> whole_numbers v"
proof (induction v)
  case (JObject kvs)
  have "whole_numbers (snd kv)" if "kv \<in> set kvs" for kv
    using JObject.IH [of kv "snd kv"] JObject.prems that by (cases kv) (force simp: list_all_iff)
  then show ?case by (simp add: list_all_iff)
qed (auto simp: list_all_iff)

section \<open>Numbers\<close>

lemma exact_double_of_int:
  assumes "exact_double (of_int n)"
  shows "double_in_range (of_int n)"
proof -
  have a: "\<bar>of_int n :: rat\<bar> \<le> 2 ^ 53" using assms by (simp add: exact_double_def)
  have b: "(2 ^ 53 :: rat) < 2 ^ 1024 - 2 ^ 970" by simp
  show ?thesis
  proof (cases "n = 0")
    case False
    then have "(1::rat) \<le> \<bar>of_int n\<bar>" by (simp flip: of_int_abs)
    moreover have "(1 / 2 ^ 1022 :: rat) \<le> 1" by simp
    ultimately have "(1 / 2 ^ 1022 :: rat) \<le> \<bar>of_int n\<bar>" by (rule order_trans [rotated])
    with a b show ?thesis by (auto simp: double_in_range_def simp del: power_numeral)
  qed (simp add: double_in_range_def)
qed

lemma isdigit_is_num_char: "isdigit_c c \<Longrightarrow> is_num_char c"
  by (simp add: is_num_char_def)

lemma digit_not_sign: "isdigit_c c \<Longrightarrow> c \<noteq> CHR ''-'' \<and> c \<noteq> CHR ''+'' \<and> c \<noteq> CHR ''.''"
  by (auto simp: isdigit_c_def)

lemma stod_digits:
  assumes "list_all isdigit_c ds" and "ds \<noteq> []" and "double_in_range (of_nat (digits_val ds))"
  shows "stod_full ds = Some (of_nat (digits_val ds))"
    and "stod_full (CHR ''-'' # ds) = Some (- of_nat (digits_val ds))"
proof -
  have all: "takeWhile isdigit_c ds = ds" "dropWhile isdigit_c ds = []"
    using assms(1) by (simp_all add: list_all_iff)
  have "strip_sign ds = (False, ds)"
    using assms(1,2) digit_not_sign by (cases ds) (auto simp: strip_sign_def)
  then show "stod_full ds = Some (of_nat (digits_val ds))"
    using assms by (simp add: all stod_full_def scan_exponent_def rat_pow10_def Let_def)
  have "double_in_range (- of_nat (digits_val ds))"
    using assms(3) by (simp add: double_in_range_def)
  then show "stod_full (CHR ''-'' # ds) = Some (- of_nat (digits_val ds))"
    using assms by (simp add: all stod_full_def strip_sign_def scan_exponent_def rat_pow10_def Let_def)
qed

lemma nat_digits_all: "list_all isdigit_c (nat_digits n)"
  by (auto simp: list_all_iff dest: nat_digits_isdigit)

definition stops_number :: "bytes \<Rightarrow> bool" where
  "stops_number r \<longleftrightarrow> r = [] \<or> \<not> is_num_char (hd r)"

lemma takeWhile_digits:
  "stops_number r \<Longrightarrow> takeWhile is_num_char (nat_digits n @ r) = nat_digits n"
  "stops_number r \<Longrightarrow> dropWhile is_num_char (nat_digits n @ r) = r"
  by (auto simp: stops_number_def isdigit_is_num_char dest: nat_digits_isdigit
      intro!: takeWhile_append_stop dropWhile_append_stop)

lemma peek_digits: "peek (nat_digits n @ r) \<noteq> CHR ''-''" "isdigit_c (peek (nat_digits n @ r))"
proof -
  have "hd (nat_digits n) \<in> set (nat_digits n)" by simp
  then have "isdigit_c (hd (nat_digits n))" by (rule nat_digits_isdigit)
  moreover have "peek (nat_digits n @ r) = hd (nat_digits n)"
    by (cases "nat_digits n") (auto simp: peek_def)
  ultimately show "peek (nat_digits n @ r) \<noteq> CHR ''-''" "isdigit_c (peek (nat_digits n @ r))"
    using digit_not_sign by auto
qed

lemma parseNumber_to_string:
  assumes "stops_number r" and "double_in_range (of_int n)"
  shows "parseNumber (to_string_int n @ r) = Inr (JNumber (of_int n), r)"
proof (cases "n < 0")
  case True
  then have r: "double_in_range (of_nat (nat (- n)))"
    using assms(2) by (simp add: double_in_range_def)
  show ?thesis
    using True assms(1) stod_digits(2) [OF nat_digits_all nat_digits_nonempty, of "nat (- n)"] r
    by (simp add: to_string_int_def parseNumber_def peek_def takeWhile_digits)
next
  case False
  then have r: "double_in_range (of_nat (nat n))"
    using assms(2) by simp
  show ?thesis
    using False assms(1) stod_digits(1) [OF nat_digits_all nat_digits_nonempty, of "nat n"] r
    by (simp add: to_string_int_def parseNumber_def peek_digits takeWhile_digits)
qed

section \<open>The first byte of a rendered value\<close>

definition value_start :: "char \<Rightarrow> bool" where
  "value_start c \<longleftrightarrow> c \<in> set [CHR ''{'', CHR ''['', quote_char, CHR ''t'', CHR ''f'', CHR ''n'', CHR ''-''] \<or>
     isdigit_c c"

lemma render_start: "\<exists>c t. render v = c # t \<and> value_start c"
proof (cases v)
  case (JNumber q)
  show ?thesis
  proof (cases "\<lfloor>q\<rfloor> < 0")
    case True
    then show ?thesis using JNumber by (simp add: to_string_int_def value_start_def)
  next
    case False
    obtain c t where ct: "nat_digits (nat \<lfloor>q\<rfloor>) = c # t" by (cases "nat_digits (nat \<lfloor>q\<rfloor>)") auto
    then have "isdigit_c c" using nat_digits_isdigit [of c "nat \<lfloor>q\<rfloor>"] by simp
    then show ?thesis using JNumber False ct by (simp add: to_string_int_def value_start_def)
  qed
qed (auto simp: value_start_def quoted_def)

lemma value_start_not_ws: "value_start c \<Longrightarrow> \<not> is_json_ws c \<and> c \<noteq> CHR '']'' \<and> c \<noteq> CHR ''}''"
  by (auto simp: value_start_def is_json_ws_def isdigit_c_def)

lemma skipWhitespace_start: "value_start c \<Longrightarrow> skipWhitespace (c # t) = c # t"
  by (simp add: skipWhitespace_def value_start_not_ws)

lemma skipWhitespace_punct [simp]:
  "c \<in> set [CHR '','', CHR '':'', CHR '']'', CHR ''}'', quote_char] \<Longrightarrow> skipWhitespace (c # t) = c # t"
  by (auto simp: skipWhitespace_def is_json_ws_def)

lemma skipWhitespace_render: "skipWhitespace (render v @ r) = render v @ r"
  using render_start [of v] by (auto simp: skipWhitespace_start)

lemma peek_Cons [simp]: "peek (c # s) = c"
  by (simp add: peek_def)

section \<open>The loops on rendered items\<close>

definition reads_back :: "(bytes \<Rightarrow> json presult) \<Rightarrow> json \<Rightarrow> bool" where
  "reads_back pv v \<longleftrightarrow> (\<forall>r. stops_number r \<longrightarrow> pv (render v @ r) = Inr (v, r))"

lemma stops_number_punct [simp]:
  "stops_number (CHR '','' # r)" "stops_number (CHR '']'' # r)" "stops_number (CHR ''}'' # r)"
  by (simp_all add: stops_number_def is_num_char_def isdigit_c_def)

lemma array_loop_render:
  assumes "\<forall>v \<in> set vs. reads_back pv v" and "vs \<noteq> []" and "length vs \<le> n"
  shows "array_loop pv n acc (join '','' (map render vs) @ CHR '']'' # r) = Inr (JArray (acc @ vs), r)"
  using assms
proof (induction vs arbitrary: n acc)
  case Nil
  then show ?case by simp
next
  case (Cons v vs)
  then obtain m where n: "n = Suc m" by (cases n) auto
  have v: "pv (render v @ t) = Inr (v, t)" if "stops_number t" for t
    using Cons.prems(1) that by (simp add: reads_back_def)
  show ?case
  proof (cases vs)
    case Nil
    then show ?thesis using n v by (simp add: Let_def)
  next
    case (Cons v' vs')
    then have "join '','' (map render (v # vs)) @ CHR '']'' # r =
        render v @ CHR '','' # join '','' (map render vs) @ CHR '']'' # r"
      by simp
    then show ?thesis
      using n v Cons.IH [of m "acc @ [v]"] Cons.prems Cons by (simp add: Let_def del: join.simps)
  qed
qed

lemma object_loop_render:
  assumes "\<forall>kv \<in> set kvs. reads_back pv (snd kv)" and "kvs \<noteq> []" and "length kvs \<le> n"
  shows "object_loop pv n acc (join '','' (map render_member kvs) @ CHR ''}'' # r) =
    Inr (JObject (acc @ kvs), r)"
  using assms
proof (induction kvs arbitrary: n acc)
  case Nil
  then show ?case by simp
next
  case (Cons kv kvs)
  then obtain m where n: "n = Suc m" by (cases n) auto
  obtain k v where kv: "kv = (k, v)" by (cases kv)
  have v: "pv (render v @ t) = Inr (v, t)" if "stops_number t" for t
    using Cons.prems(1) that kv by (simp add: reads_back_def)
  have member: "render_member (k, v) @ t = quote_char # jsonEscapeString k @ quote_char # CHR '':'' # render v @ t" for t
    by (simp add: render_member_def quoted_def)
  show ?case
  proof (cases kvs)
    case Nil
    then show ?thesis using n v kv by (simp add: member parseString_escaped Let_def)
  next
    case (Cons kv' kvs')
    then have "join '','' (map render_member (kv # kvs)) @ CHR ''}'' # r =
        render_member kv @ CHR '','' # join '','' (map render_member kvs) @ CHR ''}'' # r"
      by simp
    then show ?thesis
      using n v kv Cons.IH [of m "acc @ [kv]"] Cons.prems Cons
      by (simp add: member parseString_escaped Let_def del: join.simps)
  qed
qed

lemma join_length: "length xs \<le> Suc (length (join '','' xs))"
proof (induction "'',''" xs rule: join.induct)
  case 1
  then show ?case by simp
next
  case (2 x)
  then show ?case by simp
next
  case (3 x y ys)
  then show ?case by simp
qed

lemma join_Cons_start: "\<exists>t. join sep (x # xs) = x @ t"
  by (cases xs) auto

lemma parseArray_render:
  assumes "\<forall>v \<in> set vs. reads_back pv v"
  shows "parseArray pv (render (JArray vs) @ r) = Inr (JArray vs, r)"
proof (cases vs)
  case Nil
  then show ?thesis by (simp add: parseArray_def)
next
  case (Cons v vs')
  let ?s = "join '','' (map render vs) @ CHR '']'' # r"
  obtain t where t: "?s = render v @ t" using Cons join_Cons_start [of "'',''" "render v" "map render vs'"] by auto
  obtain c u where c: "?s = c # u" "value_start c" using render_start [of v] t by auto
  have "length vs \<le> Suc (length ?s)"
    using join_length [of "map render vs"] by simp
  then have "array_loop pv (Suc (length ?s)) [] ?s = Inr (JArray vs, r)"
    using array_loop_render [OF assms, of "Suc (length ?s)" "[]" r] Cons
    by (simp only: append_Nil list.distinct not_False_eq_True simp_thms)
  then show ?thesis
    using c value_start_not_ws [OF c(2)]
    by (simp add: parseArray_def Let_def skipWhitespace_start del: array_loop.simps)
qed

lemma parseObject_render:
  assumes "\<forall>kv \<in> set kvs. reads_back pv (snd kv)"
  shows "parseObject pv (render (JObject kvs) @ r) = Inr (JObject kvs, r)"
proof (cases kvs)
  case Nil
  then show ?thesis by (simp add: parseObject_def)
next
  case (Cons kv kvs')
  let ?s = "join '','' (map render_member kvs) @ CHR ''}'' # r"
  obtain t where t: "?s = render_member kv @ t"
    using Cons join_Cons_start [of "'',''" "render_member kv" "map render_member kvs'"] by auto
  then obtain u where c: "?s = quote_char # u" by (simp add: render_member_def quoted_def)
  have "length kvs \<le> Suc (length ?s)"
    using join_length [of "map render_member kvs"] by simp
  then have "object_loop pv (Suc (length ?s)) [] ?s = Inr (JObject kvs, r)"
    using object_loop_render [OF assms, of "Suc (length ?s)" "[]" r] Cons
    by (simp only: append_Nil list.distinct not_False_eq_True simp_thms)
  then show ?thesis
    using c by (simp add: parseObject_def Let_def del: object_loop.simps)
qed

section \<open>Every rendered value reads back\<close>

lemma parseValue_render:
  "int_numbers v \<Longrightarrow> jdepth v \<le> d \<Longrightarrow> stops_number r \<Longrightarrow> parseValue d (render v @ r) = Inr (v, r)"
proof (induction v arbitrary: d r)
  case (JNumber q)
  then obtain d' where d: "d = Suc d'" by (cases d) auto
  let ?n = "\<lfloor>q\<rfloor>"
  from JNumber.prems(1) have e: "of_int ?n = q" and "exact_double q"
    by (simp_all only: int_numbers.simps)
  then have q: "double_in_range (of_int ?n)" by (intro exact_double_of_int) (simp only: e)
  have "peek (to_string_int ?n @ r) = CHR ''-'' \<or> isdigit_c (peek (to_string_int ?n @ r))"
    using peek_digits(2) by (simp add: to_string_int_def)
  moreover have "isdigit_c c \<Longrightarrow> c \<notin> set [CHR ''{'', CHR ''['', quote_char, CHR ''t'', CHR ''f'', CHR ''n'']" for c
    by (auto simp: isdigit_c_def)
  ultimately show ?case
    using d parseNumber_to_string [OF JNumber.prems(3) q] e skipWhitespace_render [of "JNumber q" r]
      render_start [of "JNumber q"]
    by (auto simp: Let_def)
next
  case (JArray vs)
  then obtain d' where d: "d = Suc d'" by (cases d) auto
  have "reads_back (parseValue d') v" if "v \<in> set vs" for v
    using JArray.IH [OF that] JArray.prems that d by (auto simp: reads_back_def list_all_iff)
  then have "parseArray (parseValue d') (render (JArray vs) @ r) = Inr (JArray vs, r)"
    by (intro parseArray_render) blast
  then show ?case
    using d skipWhitespace_render [of "JArray vs" r] by (simp add: Let_def)
next
  case (JObject kvs)
  then obtain d' where d: "d = Suc d'" by (cases d) auto
  have "reads_back (parseValue d') (snd kv)" if "kv \<in> set kvs" for kv
    using JObject.IH [of kv "snd kv"] JObject.prems that d
    by (cases kv) (force simp: reads_back_def list_all_iff)
  then have "parseObject (parseValue d') (render (JObject kvs) @ r) = Inr (JObject kvs, r)"
    by (intro parseObject_render) blast
  then show ?case
    using d skipWhitespace_render [of "JObject kvs" r] by (simp add: Let_def)
next
  case JNull
  then obtain d' where d: "d = Suc d'" by (cases d) auto
  then show ?case
    by (simp add: Let_def skipWhitespace_def is_json_ws_def parseNull_def)
next
  case (JBool b)
  then obtain d' where d: "d = Suc d'" by (cases d) auto
  then show ?case
    by (simp add: Let_def skipWhitespace_def is_json_ws_def parseBool_def)
next
  case (JString s)
  then obtain d' where d: "d = Suc d'" by (cases d) auto
  then show ?case
    by (simp add: Let_def quoted_def parseString_escaped)
qed

lemma parse_json_render:
  assumes "int_numbers v" and "jdepth v \<le> kMaxDepth"
  shows "parse_json (render v) = Inr v"
proof -
  have "parseValue kMaxDepth (render v) = Inr (v, [])"
    using parseValue_render [OF assms, of "[]"] by (simp add: stops_number_def)
  moreover have "skipWhitespace (render v) = render v" "render v \<noteq> []"
    using skipWhitespace_render [of v "[]"] render_start [of v] by auto
  ultimately show ?thesis
    by (simp add: parse_json_def Let_def skipWhitespace_def)
qed

section \<open>Driving the writer over a whole value\<close>

fun value_ops :: "json \<Rightarrow> writer_op list" where
  "value_ops JNull = [NullValue]"
| "value_ops (JBool b) = [ValueBool b]"
| "value_ops (JNumber q) = [ValueInt \<lfloor>q\<rfloor>]"
| "value_ops (JString s) = [ValueString s]"
| "value_ops (JArray vs) = BeginArray # concat (map value_ops vs) @ [EndArray]"
| "value_ops (JObject kvs) =
     BeginObject # concat (map (\<lambda>kv. Key (fst kv) # value_ops (snd kv)) kvs) @ [EndObject]"

fun value_doc_ops :: "json \<Rightarrow> doc_op list" where
  "value_doc_ops (JArray vs) = DBegin False # concat (map value_doc_ops vs) @ [DEnd False]"
| "value_doc_ops (JObject kvs) =
     DBegin True # concat (map (\<lambda>kv. DKey (fst kv) # value_doc_ops (snd kv)) kvs) @ [DEnd True]"
| "value_doc_ops v = [DPut v]"

lemma list_all2_concat_map:
  "(\<And>x. x \<in> set xs \<Longrightarrow> list_all2 P (f x) (g x)) \<Longrightarrow>
   list_all2 P (concat (map f xs)) (concat (map g xs))"
  by (induction xs) (auto intro: list_all2_appendI)

lemma value_ops_match: "whole_numbers v \<Longrightarrow> list_all2 op_matches (value_ops v) (value_doc_ops v)"
proof (induction v)
  case (JArray vs)
  then have "list_all2 op_matches (concat (map value_ops vs)) (concat (map value_doc_ops vs))"
    by (intro list_all2_concat_map) (auto simp: list_all_iff)
  then show ?case by (simp add: list_all2_appendI)
next
  case (JObject kvs)
  have "list_all2 op_matches (value_ops (snd kv)) (value_doc_ops (snd kv))" if "kv \<in> set kvs" for kv
    using JObject.IH [of kv "snd kv"] JObject.prems that by (cases kv) (force simp: list_all_iff)
  then have "list_all2 op_matches (concat (map (\<lambda>kv. Key (fst kv) # value_ops (snd kv)) kvs))
      (concat (map (\<lambda>kv. DKey (fst kv) # value_doc_ops (snd kv)) kvs))"
    by (intro list_all2_concat_map) simp
  then show ?case by (simp add: list_all2_appendI)
qed auto

lemma run_doc_members:
  assumes "\<And>kv cs d as. kv \<in> set kvs \<Longrightarrow> can_put cs d \<Longrightarrow>
    run_doc (value_doc_ops (snd kv) @ as) (Doc cs d) = run_doc as (put_value (snd kv) cs d)"
  shows "run_doc (concat (map (\<lambda>kv. DKey (fst kv) # value_doc_ops (snd kv)) kvs) @ as)
      (Doc (OpenObject acc None # cs) d) = run_doc as (Doc (OpenObject (acc @ kvs) None # cs) d)"
  using assms
proof (induction kvs arbitrary: acc)
  case Nil
  then show ?case by simp
next
  case (Cons kv kvs)
  show ?case using Cons.IH [of "acc @ [kv]"] Cons.prems by simp
qed

lemma run_doc_items:
  assumes "\<And>v cs d as. v \<in> set vs \<Longrightarrow> can_put cs d \<Longrightarrow>
    run_doc (value_doc_ops v @ as) (Doc cs d) = run_doc as (put_value v cs d)"
  shows "run_doc (concat (map value_doc_ops vs) @ as) (Doc (OpenArray acc # cs) d) =
    run_doc as (Doc (OpenArray (acc @ vs) # cs) d)"
  using assms
proof (induction vs arbitrary: acc)
  case Nil
  then show ?case by simp
next
  case (Cons v vs)
  show ?case using Cons.IH [of "acc @ [v]"] Cons.prems by simp
qed

lemma run_doc_value:
  "can_put cs d \<Longrightarrow> run_doc (value_doc_ops v @ as) (Doc cs d) = run_doc as (put_value v cs d)"
proof (induction v arbitrary: cs d as)
  case (JArray vs)
  then show ?case
    using run_doc_items [of vs "DEnd False # as" "[]" cs d] by simp
next
  case (JObject kvs)
  have "run_doc (value_doc_ops (snd kv) @ as) (Doc cs d) = run_doc as (put_value (snd kv) cs d)"
    if "kv \<in> set kvs" "can_put cs d" for kv cs d as
    using JObject.IH [of kv "snd kv" cs d as] that by (cases kv) force
  then show ?case
    using run_doc_members [of kvs "DEnd True # as" "[]" cs d] JObject.prems by simp
qed auto

lemma write_value:
  assumes "whole_numbers v"
  shows "represents (run_writer (value_ops v) new_writer) (Doc [] (Some v))"
  using run_writer_refines [OF value_ops_match [OF assms] represents_new]
    run_doc_value [of "[]" None v "[]"] by simp

lemma represents_finished:
  "represents w (Doc [] (Some v)) \<Longrightarrow> writer_ok w \<and> closed w \<and> out w = render v"
  by (simp add: writer_ok_def closed_def final_text_def)

section \<open>Envelopes as runs of the writer\<close>

lemma envelope_run:
  "envelope f (Some m) (Some g) msg =
    out (run_writer (value_ops (JObject
      ((if f then [(''ok'', JBool False)] else []) @
       [(''error'', JString (''[module='' @ m @ '', method='' @ g @ ''] '' @ msg))]))) new_writer)"
  by (simp add: envelope_def Let_def)

section \<open>Nesting\<close>

lemma parseValue_nested:
  "parseValue d (replicate (Suc d) (CHR ''['') @ s) = Inl (MaxDepthExceeded, CHR ''['' # s)"
proof (induction d)
  case 0
  then show ?case by simp
next
  case (Suc d)
  let ?t = "replicate (Suc d) (CHR ''['') @ s"
  have ws: "skipWhitespace (CHR ''['' # u) = CHR ''['' # u" for u
    by (simp add: skipWhitespace_def is_json_ws_def)
  have t: "?t = CHR ''['' # replicate d (CHR ''['') @ s" by simp
  have "parseArray (parseValue d) (CHR ''['' # ?t) = Inl (MaxDepthExceeded, CHR ''['' # s)"
    using Suc by (simp add: parseArray_def Let_def ws del: parseValue.simps)
  then show ?case by (simp add: ws Let_def)
qed

lemma exact_double_of_int32:
  assumes "- (2 ^ 31) \<le> n" and "n < 2 ^ 31"
  shows "exact_double (of_int n)"
proof -
  have "\<bar>of_int n :: rat\<bar> \<le> 2 ^ 31" using assms by (auto simp: abs_le_iff)
  then show ?thesis by (simp add: exact_double_def)
qed

section \<open>Properties\<close>

text \<open>
  (C8) A value written through \<open>JsonWriter\<close> is read back by \<open>JsonParser\<close>: for every JSON
  value of at most 64 levels whose numbers are integers of at most \<open>2 ^ 53\<close> in magnitude,
  driving the writer over it records no error, closes every container, and the reader
  returns exactly that value from the text.
\<close>

theorem json_writer_parser_roundtrip:
  assumes "int_numbers v" and "jdepth v \<le> kMaxDepth"
  shows "let w = run_writer (value_ops v) new_writer in
    writer_ok w \<and> closed w \<and> parse_json (out w) = Inr v"
  using represents_finished [OF write_value [OF int_numbers_whole [OF assms(1)]]] parse_json_render [OF assms]
  by (simp add: Let_def)

theorem json_writer_parser_roundtrip_witness:
  "parse_json (out (run_writer (value_ops
      (JObject [(''name'', JString [quote_char, CHR 0x01]), (''total'', JNumber 42), (''items'', JArray [JNull])]))
      new_writer)) =
    Inr (JObject [(''name'', JString [quote_char, CHR 0x01]), (''total'', JNumber 42), (''items'', JArray [JNull])])"
  using json_writer_parser_roundtrip [of "JObject [(''name'', JString [quote_char, CHR 0x01]),
      (''total'', JNumber 42), (''items'', JArray [JNull])]"]
  by (simp add: exact_double_def kMaxDepth_def Let_def)

text \<open>
  The writer never produces malformed JSON: whatever sequence of calls is made (with
  \<open>raw\<close> and number texts that are themselves values), if no error is recorded and every
  container is closed, the text is the text of one JSON value, and the reader accepts it
  as that value within its limits of nesting and number range.
\<close>

theorem json_writer_never_malformed:
  assumes "list_all text_args_ok ops" and "writer_ok (run_writer ops new_writer)"
    and "closed (run_writer ops new_writer)"
  shows "\<exists>v. out (run_writer ops new_writer) = render v \<and>
    (int_numbers v \<longrightarrow> jdepth v \<le> kMaxDepth \<longrightarrow> parse_json (out (run_writer ops new_writer)) = Inr v)"
proof -
  obtain v where "out (run_writer ops new_writer) = render v"
    using run_ok_closed_renders [OF assms] by blast
  then show ?thesis using parse_json_render by (intro exI [of _ v]) simp
qed

theorem json_writer_never_malformed_witness:
  "\<exists>v. out (run_writer [BeginArray, ValueInt 1, BeginObject, Key ''a'', NullValue, EndObject, EndArray] new_writer)
     = render v"
proof -
  let ?ops = "[BeginArray, ValueInt 1, BeginObject, Key ''a'', NullValue, EndObject, EndArray]"
  have "writer_ok (run_writer ?ops new_writer) \<and> closed (run_writer ?ops new_writer)"
    by (simp add: writer_ops new_writer_def beginContainer_def endContainer_def beforeValue_def
        markValueDone_def key_def emit_value_def emit_def appendEscapedString_def closed_def
        writer_ok_def Let_def)
  then show ?thesis using json_writer_never_malformed [of ?ops] by auto
qed

text \<open>
  (C36) Misuse is detected: the writer follows an abstract document under construction call
  by call.  A call the document accepts leaves a state that represents the new document; a
  call it refuses (a value without a key, a key outside an object, a wrong end, a second
  top-level value) records an error, and after an error no call changes anything.
\<close>

theorem json_writer_detects_misuse:
  assumes "represents w D" and "op_matches op a"
  shows "case doc_step a D of
           Some D' \<Rightarrow> represents (writer_step op w) D'
         | None \<Rightarrow> \<not> writer_ok (writer_step op w) \<and> (\<forall>ops. run_writer ops (writer_step op w) = writer_step op w)"
  using writer_step_refines [OF assms]
  by (auto simp: writer_ok_def run_writer_after_error split: option.splits)

theorem json_writer_detects_misuse_witness:
  "\<not> writer_ok (writer_step (ValueInt 7) (writer_step BeginObject new_writer))"
proof -
  have "represents (writer_step BeginObject new_writer) (Doc [OpenObject [] None] None)"
    using json_writer_detects_misuse [OF represents_new, of BeginObject "DBegin True"] by simp
  from json_writer_detects_misuse [OF this, of "ValueInt 7" "DPut (JNumber (of_int 7))"]
  show ?thesis by simp
qed

text \<open>
  An error envelope is one JSON object for every message: whatever bytes the message
  holds (quotes, backslashes, control bytes), reading \<open>errorEnvelope\<close> or \<open>okFalseEnvelope\<close>
  back gives the object with the traced message, and the flag \<open>"ok": false\<close> in the second.
\<close>

theorem error_envelopes_read_back:
  "parse_json (errorEnvelope (Some m) (Some f) msg) =
     Inr (JObject [(''error'', JString (''[module='' @ m @ '', method='' @ f @ ''] '' @ msg))]) \<and>
   parse_json (okFalseEnvelope (Some m) (Some f) msg) =
     Inr (JObject [(''ok'', JBool False),
       (''error'', JString (''[module='' @ m @ '', method='' @ f @ ''] '' @ msg))])"
proof -
  have rt: "parse_json (out (run_writer (value_ops v) new_writer)) = Inr v"
    if "int_numbers v" "jdepth v \<le> kMaxDepth" for v
    using represents_finished [OF write_value [OF int_numbers_whole [OF that(1)]]] parse_json_render [OF that] by simp
  show ?thesis
    unfolding errorEnvelope_def okFalseEnvelope_def envelope_run
    by (simp add: rt kMaxDepth_def del: value_ops.simps run_writer_simps)
qed

text \<open>
  (C37) The reader always ends with a verdict of the code: the fuel of the two loops never
  runs out, on any input.
\<close>

theorem json_parser_terminates: "parse_json src \<noteq> Inl (OutOfFuel, n)"
  by (auto simp: parse_json_def Let_def level.no_fuel_error split: sum.splits)

text \<open>
  The nesting bound holds: an input that opens more than 64 arrays is refused at
  offset 64 with the depth error, whatever follows.
\<close>

theorem json_parser_depth_bound:
  "parse_json (replicate (Suc kMaxDepth) (CHR ''['') @ s) = Inl (MaxDepthExceeded, kMaxDepth)"
proof -
  have "skipWhitespace (CHR ''['' # u) = CHR ''['' # u" for u
    by (simp add: skipWhitespace_def is_json_ws_def)
  then show ?thesis
    using parseValue_nested [of kMaxDepth s] by (simp add: parse_json_def Let_def)
qed

text \<open>
  A \<open>\u\<close> escape with malformed digits is accepted: \<open>std::stoul\<close> is called without an
  end pointer, so the four bytes after \<open>\u\<close> need only start with a hexadecimal digit; the
  text \<open>"\u12zz"\<close> is read as the byte 0x12 instead of being refused.
\<close>

theorem json_parser_accepts_malformed_escape:
  "parse_json ([quote_char, backslash] @ ''u12zz'' @ [quote_char]) = Inr (JString [CHR 0x12])"
  by code_simp

section \<open>Texts of reports\<close>

text \<open>Whole numbers as values, and the writer on the calls of a value; the reports of the other
  components are shown to be values through these.\<close>

definition json_nat :: "nat \<Rightarrow> json" where
  "json_nat n = JNumber (of_nat n)"

definition json_int :: "int \<Rightarrow> json" where
  "json_int i = JNumber (of_int i)"

lemma render_json_nat [simp]: "render (json_nat n) = to_string_nat n"
  by (simp add: json_nat_def to_string_int_def)

lemma render_json_int [simp]: "render (json_int i) = to_string_int i"
  by (simp add: json_int_def)

lemma json_int_simps [simp]:
  "value_ops (json_int i) = [ValueInt i]" "whole_numbers (json_int i)"
  by (simp_all add: json_int_def)

lemma write_render: "whole_numbers v \<Longrightarrow> out (run_writer (value_ops v) new_writer) = render v"
  using represents_finished [OF write_value] by blast

end
