(* ===== verification/Rules.thy ===== *)
theory Rules
  imports Json_Roundtrip "HOL-Library.List_Lexorder" "HOL-Library.Char_ord"
begin

text \<open>
  The rule files of \<open>evidence/rule.h\<close> and \<open>evidence/rule.cpp\<close>: the structs \<open>FactNeed\<close>,
  \<open>RuleOutput\<close>, \<open>Rule\<close>, \<open>RuleSet\<close>, the extraction of a rule from a JSON value, and the
  loader \<open>RuleLoader::loadFromDirectory\<close> with \<open>resolveRulesDir\<close>.

  The file system is an argument of the loader: \<open>fs_list\<close> gives the entries of a directory
  (name, and whether it is a regular file) in the order the directory iterator meets them,
  \<open>None\<close> when the path is not a directory; \<open>fs_read\<close> gives the bytes of a file, \<open>None\<close>
  when it cannot be opened.  Numbers of a rule file are exact (see \<open>Json_Text\<close>), and
  \<open>getInt\<close> drops their fraction; beyond the range of an \<open>int\<close> the cast of the code is
  undefined and the model says nothing about it.
\<close>

section \<open>Encodings of enumerations as strings\<close>

text \<open>
  Several enums of the engine are written out as strings and read back, with a default
  for unknown text.  The interface asks for the one law that matters.
\<close>

locale enum_codec =
  fixes enc :: "'e \<Rightarrow> 'c" and dec :: "'c \<Rightarrow> 'e"
  assumes dec_enc [simp]: "dec (enc e) = e"
begin

lemma enc_inj: "inj enc"
  by (metis dec_enc injI)

lemma dec_surj: "surj dec"
  by (metis dec_enc surjI)

lemma canonical: "enc (dec (enc e)) = enc e"
  by simp

lemma map_dec_enc: "map (dec \<circ> enc) es = es"
  by (simp add: comp_def)

end

section \<open>The rule structs\<close>

record fact_need =
  need_category :: bytes
  need_primitive :: bytes
  need_kind :: bytes
  optional :: bool

datatype combine_mode = Collect_mode | MissingMatch | MissingMatchPerFunction | Count

record rule_output =
  severity :: int
  title_template :: bytes
  message_template :: bytes

record rule =
  rule_name :: bytes
  rule_description :: bytes
  rule_category :: bytes
  needs :: "fact_need list"
  combine :: combine_mode
  rule_out :: rule_output

record rule_set =
  set_category :: bytes
  set_rules :: "rule list"

definition default_output :: rule_output where
  "default_output = \<lparr>severity = 1, title_template = [], message_template = []\<rparr>"

fun combineModeToString :: "combine_mode \<Rightarrow> bytes" where
  "combineModeToString Collect_mode = ''collect''"
| "combineModeToString MissingMatch = ''missing_match''"
| "combineModeToString MissingMatchPerFunction = ''missing_match_per_function''"
| "combineModeToString Count = ''count''"

definition combineModeFromString :: "bytes \<Rightarrow> combine_mode" where
  "combineModeFromString s =
     (if s = ''missing_match'' then MissingMatch
      else if s = ''missing_match_per_function'' then MissingMatchPerFunction
      else if s = ''count'' then Count
      else Collect_mode)"

interpretation combine_codec: enum_codec combineModeToString combineModeFromString
proof unfold_locales
  show "combineModeFromString (combineModeToString e) = e" for e
    by (cases e) (simp_all add: combineModeFromString_def)
qed

section \<open>From JSON values to rules\<close>

definition getString :: "json \<Rightarrow> bytes \<Rightarrow> bytes" where
  "getString obj k = (case json_find obj k of Some (JString s) \<Rightarrow> s | _ \<Rightarrow> [])"

text \<open>\<open>static_cast<int>\<close> of a number: the fraction is dropped.\<close>

definition truncate_rat :: "rat \<Rightarrow> int" where
  "truncate_rat v = (if 0 \<le> v then \<lfloor>v\<rfloor> else \<lceil>v\<rceil>)"

definition getInt :: "json \<Rightarrow> bytes \<Rightarrow> int \<Rightarrow> int" where
  "getInt obj k fallback =
     (case json_find obj k of Some (JNumber v) \<Rightarrow> truncate_rat v | _ \<Rightarrow> fallback)"

definition getBool :: "json \<Rightarrow> bytes \<Rightarrow> bool \<Rightarrow> bool" where
  "getBool obj k fallback = (case json_find obj k of Some (JBool b) \<Rightarrow> b | _ \<Rightarrow> fallback)"

definition parseFactNeed :: "json \<Rightarrow> fact_need" where
  "parseFactNeed obj =
     \<lparr>need_category = getString obj ''category'', need_primitive = getString obj ''primitive'',
      need_kind = getString obj ''kind'', optional = getBool obj ''optional'' False\<rparr>"

definition parseRuleOutput :: "json \<Rightarrow> rule_output" where
  "parseRuleOutput obj =
     \<lparr>severity = getInt obj ''severity'' 1, title_template = getString obj ''title'',
      message_template = getString obj ''message''\<rparr>"

definition parseRule :: "json \<Rightarrow> bytes \<Rightarrow> rule option" where
  "parseRule obj fallback_cat =
     (let own = getString obj ''category'';
          cat = (if own = [] then fallback_cat else own);
          need = (case json_find obj ''need'' of
                    Some (JArray ns) \<Rightarrow> Some (JArray ns)
                  | _ \<Rightarrow> json_find obj ''needs'')
      in case need of
           Some (JArray ns) \<Rightarrow>
             (let r = \<lparr>rule_name = getString obj ''name'',
                       rule_description = getString obj ''description'',
                       rule_category = cat,
                       needs = map parseFactNeed ns,
                       combine = combineModeFromString (getString obj ''combine''),
                       rule_out = (case json_find obj ''output'' of
                                   Some (JObject kvs) \<Rightarrow> parseRuleOutput (JObject kvs)
                                 | _ \<Rightarrow> default_output)\<rparr>
              in if rule_name r = [] then None else Some r)
         | _ \<Rightarrow> None)"

datatype rule_file_error =
    BadJson json_error nat
  | NotAnObject
  | MissingRules

definition parseRuleFile :: "bytes \<Rightarrow> rule_file_error + rule_set" where
  "parseRuleFile content =
     (case parse_json content of
        Inl (e, n) \<Rightarrow> Inl (BadJson e n)
      | Inr (JObject kvs) \<Rightarrow>
          (let cat = getString (JObject kvs) ''category'' in
           case json_find (JObject kvs) ''rules'' of
             Some (JArray rs) \<Rightarrow>
               Inr \<lparr>set_category = cat, set_rules = List.map_filter (\<lambda>r. parseRule r cat) rs\<rparr>
           | _ \<Rightarrow> Inl MissingRules)
      | Inr _ \<Rightarrow> Inl NotAnObject)"

section \<open>The loader\<close>

record filesystem =
  fs_list :: "bytes \<Rightarrow> (bytes \<times> bool) list option"
  fs_read :: "bytes \<Rightarrow> bytes option"

text \<open>\<open>std::filesystem::path::extension\<close> of a file name: from the last dot, unless that
  dot is the first byte.\<close>

definition extension :: "bytes \<Rightarrow> bytes" where
  "extension name =
     (case str_rfind (CHR ''.'') name of
        None \<Rightarrow> []
      | Some 0 \<Rightarrow> []
      | Some (Suc i) \<Rightarrow> if name = ''..'' then [] else drop (Suc i) name)"

definition join_path :: "bytes \<Rightarrow> bytes \<Rightarrow> bytes" where
  "join_path d name = (if d = [] \<or> last d = CHR ''/'' then d @ name else d @ CHR ''/'' # name)"

definition is_rule_file :: "bytes \<times> bool \<Rightarrow> bool" where
  "is_rule_file e \<longleftrightarrow> snd e \<and> extension (fst e) = ''.json''"

definition load_one :: "filesystem \<Rightarrow> bytes \<Rightarrow> rule_set option" where
  "load_one fs file =
     (case fs_read fs file of
        None \<Rightarrow> None
      | Some content \<Rightarrow>
          (case parseRuleFile content of
             Inl _ \<Rightarrow> None
           | Inr rs \<Rightarrow> if set_rules rs = [] then None else Some rs))"

definition loadFromDirectory :: "filesystem \<Rightarrow> bytes \<Rightarrow> rule_set list" where
  "loadFromDirectory fs dir =
     (case fs_list fs dir of
        None \<Rightarrow> []
      | Some es \<Rightarrow>
          (let files = sort (map (\<lambda>e. join_path dir (fst e)) (filter is_rule_file es))
           in List.map_filter (load_one fs) files))"

text \<open>\<open>resolveRulesDir\<close>: the environment variable, the build default, the in-tree path.\<close>

definition usable_dir :: "filesystem \<Rightarrow> bytes \<Rightarrow> bool" where
  "usable_dir fs d \<longleftrightarrow>
     d \<noteq> [] \<and> (case fs_list fs d of None \<Rightarrow> False | Some es \<Rightarrow> list_ex is_rule_file es)"

definition rules_dir_default :: bytes where
  "rules_dir_default = ''engine/src/evidence/rules''"

definition resolveRulesDir :: "filesystem \<Rightarrow> bytes option \<Rightarrow> bytes option \<Rightarrow> bytes" where
  "resolveRulesDir fs env_dir build_default =
     (case List.find (\<lambda>c. case c of None \<Rightarrow> False | Some d \<Rightarrow> usable_dir fs d)
             [env_dir, build_default, Some rules_dir_default] of
        Some (Some d) \<Rightarrow> d
      | _ \<Rightarrow> [])"

section \<open>Reading back a written rule set\<close>

definition need_json :: "fact_need \<Rightarrow> json" where
  "need_json n = JObject
     [(''category'', JString (need_category n)), (''primitive'', JString (need_primitive n)),
      (''kind'', JString (need_kind n)), (''optional'', JBool (optional n))]"

definition output_json :: "rule_output \<Rightarrow> json" where
  "output_json ro = JObject
     [(''severity'', JNumber (of_int (severity ro))), (''title'', JString (title_template ro)),
      (''message'', JString (message_template ro))]"

definition rule_json :: "rule \<Rightarrow> json" where
  "rule_json r = JObject
     [(''name'', JString (rule_name r)), (''description'', JString (rule_description r)),
      (''category'', JString (rule_category r)), (''need'', JArray (map need_json (needs r))),
      (''combine'', JString (combineModeToString (combine r))),
      (''output'', output_json (rule_out r))]"

definition rule_set_json :: "rule_set \<Rightarrow> json" where
  "rule_set_json rs = JObject
     [(''category'', JString (set_category rs)), (''rules'', JArray (map rule_json (set_rules rs)))]"

text \<open>A rule the schema can carry: a name, a category, and a severity of an \<open>int\<close>.\<close>

definition well_formed_rule :: "rule \<Rightarrow> bool" where
  "well_formed_rule r \<longleftrightarrow> rule_name r \<noteq> [] \<and> rule_category r \<noteq> [] \<and>
     - (2 ^ 31) \<le> severity (rule_out r) \<and> severity (rule_out r) < 2 ^ 31"

lemmas field_defs = getString_def getInt_def getBool_def

lemma truncate_of_int [simp]: "truncate_rat (of_int n) = n"
  by (simp add: truncate_rat_def)

lemma parse_need_json [simp]: "parseFactNeed (need_json n) = n"
  by (simp add: parseFactNeed_def need_json_def field_defs)

lemma parse_output_json [simp]: "parseRuleOutput (output_json ro) = ro"
  by (simp add: parseRuleOutput_def output_json_def field_defs)

lemma parse_rule_json:
  assumes "rule_name r \<noteq> []" and "rule_category r \<noteq> []"
  shows "parseRule (rule_json r) cat = Some r"
proof -
  have "parseRuleOutput (output_json (rule_out r)) = rule_out r" by simp
  then have ro: "(case output_json (rule_out r) of JObject kvs \<Rightarrow> parseRuleOutput (JObject kvs)
      | _ \<Rightarrow> default_output) = rule_out r"
    by (simp add: output_json_def)
  show ?thesis
    using assms
    by (simp add: parseRule_def rule_json_def field_defs Let_def comp_def ro)
qed

lemma map_filter_all: "(\<And>x. x \<in> set xs \<Longrightarrow> f (g x) = Some x) \<Longrightarrow> List.map_filter f (map g xs) = xs"
  by (induction xs) (auto simp: List.map_filter_def)

lemma rule_set_int_numbers:
  assumes "list_all well_formed_rule (set_rules rs)"
  shows "int_numbers (rule_set_json rs)"
  using assms
  by (auto simp: rule_set_json_def rule_json_def output_json_def need_json_def list_all_iff
      well_formed_rule_def intro!: exact_double_of_int32)

lemma Max_image_le: "finite A \<Longrightarrow> (\<And>x. x \<in> A \<Longrightarrow> f x \<le> (n::nat)) \<Longrightarrow> Max (insert 0 (f ` A)) \<le> n"
  by simp

lemma rule_json_depth: "jdepth (rule_json r) \<le> 4"
proof -
  have "jdepth (need_json n) = 2" for n by (simp add: need_json_def)
  then have "jdepth (JArray (map need_json (needs r))) \<le> 3"
    by (cases "needs r") (auto simp: image_image)
  then show ?thesis by (simp add: rule_json_def output_json_def)
qed

lemma rule_set_depth: "jdepth (rule_set_json rs) \<le> 6"
  using rule_json_depth
  by (auto simp: rule_set_json_def image_image intro: le_SucI order_trans)

lemma parseRuleFile_render:
  assumes "list_all well_formed_rule (set_rules rs)"
  shows "parseRuleFile (render (rule_set_json rs)) = Inr rs"
proof -
  have "parse_json (render (rule_set_json rs)) = Inr (rule_set_json rs)"
    using rule_set_depth [of rs]
    by (intro parse_json_render rule_set_int_numbers assms) (simp add: kMaxDepth_def)
  moreover have "List.map_filter (\<lambda>r. parseRule r (set_category rs)) (map rule_json (set_rules rs)) = set_rules rs"
    using assms by (intro map_filter_all) (auto simp: list_all_iff well_formed_rule_def parse_rule_json)
  ultimately show ?thesis
    by (simp add: parseRuleFile_def rule_set_json_def field_defs Let_def)
qed

section \<open>The loader does not depend on the order of the directory\<close>

definition loadable :: "filesystem \<Rightarrow> bytes \<Rightarrow> bytes \<times> bool \<Rightarrow> bool" where
  "loadable fs dir e \<longleftrightarrow> is_rule_file e \<and> load_one fs (join_path dir (fst e)) \<noteq> None"

lemma map_filter_filter: "List.map_filter f xs = List.map_filter f (filter (\<lambda>x. f x \<noteq> None) xs)"
  by (induction xs) (auto simp: List.map_filter_def)

lemma map_filter_sort:
  "List.map_filter f (sort xs) = List.map_filter f (sort (filter (\<lambda>x. f x \<noteq> None) xs))"
  by (subst map_filter_filter) (simp add: filter_sort)

lemma load_loadable:
  assumes "fs_list fs dir = Some es"
  shows "loadFromDirectory fs dir =
    List.map_filter (load_one fs) (sort (map (\<lambda>e. join_path dir (fst e)) (filter (loadable fs dir) es)))"
proof -
  have "filter (\<lambda>x. load_one fs x \<noteq> None) (map (\<lambda>e. join_path dir (fst e)) (filter is_rule_file es)) =
        map (\<lambda>e. join_path dir (fst e)) (filter (loadable fs dir) es)"
    by (induction es) (auto simp: loadable_def)
  then show ?thesis
    unfolding loadFromDirectory_def assms option.case Let_def
    by (subst map_filter_sort) simp
qed

lemma resolve_usable:
  "resolveRulesDir fs env build = d \<Longrightarrow> d \<noteq> [] \<Longrightarrow>
   usable_dir fs d \<and> d \<in> set (List.map_filter id [env, build, Some rules_dir_default])"
  by (auto simp: resolveRulesDir_def List.map_filter_def split: option.splits if_splits)

section \<open>Properties\<close>

text \<open>
  A rule file carries its rules: writing a set of well-formed rules in the schema of the
  rule files and reading it with \<open>parseRuleFile\<close> gives back exactly the set, with every need,
  combine mode, template and severity.
\<close>

theorem rule_file_roundtrip:
  assumes "list_all well_formed_rule (set_rules rs)"
  shows "parseRuleFile (out (run_writer (value_ops (rule_set_json rs)) new_writer)) = Inr rs"
proof -
  have "represents (run_writer (value_ops (rule_set_json rs)) new_writer) (Doc [] (Some (rule_set_json rs)))"
    by (intro write_value int_numbers_whole rule_set_int_numbers assms)
  then show ?thesis using represents_finished parseRuleFile_render [OF assms] by simp
qed

definition sample_rules :: rule_set where
  "sample_rules = \<lparr>set_category = ''sync'', set_rules =
     [\<lparr>rule_name = ''r'', rule_description = ''d'', rule_category = ''sync'',
       needs = [\<lparr>need_category = ''sync'', need_primitive = ''mutex'', need_kind = ''lock'', optional = False\<rparr>],
       combine = MissingMatchPerFunction,
       rule_out = \<lparr>severity = 2, title_template = ''{count}'', message_template = ''at {line}''\<rparr>\<rparr>]\<rparr>"

theorem rule_file_roundtrip_witness:
  "parseRuleFile (out (run_writer (value_ops (rule_set_json sample_rules)) new_writer)) = Inr sample_rules"
  by (rule rule_file_roundtrip) (simp add: sample_rules_def well_formed_rule_def)

text \<open>
  Loading is deterministic and one bad file does not disturb the others: the list of rule
  sets depends only on which loadable rule files the directory holds, neither on the order in
  which the directory iterator meets them nor on the files that cannot be opened, do not
  parse, have no valid rule or are not rule files.
\<close>

theorem loader_order_and_isolation:
  assumes "fs_list fs dir = Some es" and "fs_list fs' dir = Some es'" and "fs_read fs' = fs_read fs"
    and "mset (filter (loadable fs dir) es) = mset (filter (loadable fs dir) es')"
  shows "loadFromDirectory fs' dir = loadFromDirectory fs dir"
proof -
  have one: "load_one fs' = load_one fs" by (rule ext) (simp add: load_one_def assms(3))
  then have same: "loadable fs' dir = loadable fs dir" by (intro ext) (simp add: loadable_def)
  have "mset (map (\<lambda>e. join_path dir (fst e)) (filter (loadable fs dir) es)) =
      mset (map (\<lambda>e. join_path dir (fst e)) (filter (loadable fs dir) es'))"
    using assms(4) by (simp only: mset_map)
  then have sorted: "sort (map (\<lambda>e. join_path dir (fst e)) (filter (loadable fs dir) es)) =
      sort (map (\<lambda>e. join_path dir (fst e)) (filter (loadable fs dir) es'))"
    by (metis mset_sort properties_for_sort sorted_sort)
  show ?thesis
    using load_loadable [OF assms(1)] load_loadable [OF assms(2)] one same sorted by simp
qed

definition sample_fs :: "(bytes \<times> bool) list \<Rightarrow> filesystem" where
  "sample_fs es = \<lparr>fs_list = [''r'' \<mapsto> es],
     fs_read = [''r/a.json'' \<mapsto> render (rule_set_json sample_rules), ''r/b.json'' \<mapsto> ''{'']\<rparr>"

lemma sample_loads: "load_one (sample_fs es) ''r/a.json'' = Some sample_rules"
proof -
  have "parseRuleFile (render (rule_set_json sample_rules)) = Inr sample_rules"
    by (rule parseRuleFile_render) (simp add: sample_rules_def well_formed_rule_def)
  moreover have "set_rules sample_rules \<noteq> []" by (simp add: sample_rules_def)
  ultimately show ?thesis by (simp add: load_one_def sample_fs_def)
qed

theorem loader_order_and_isolation_witness:
  "loadFromDirectory (sample_fs [(''b.json'', False), (''a.json'', True)]) ''r'' = [sample_rules]"
proof -
  let ?es = "[(''a.json'', True), (''b.json'', False)]"
  let ?es' = "[(''b.json'', False), (''a.json'', True)]"
  have ext: "extension ''a.json'' = ''.json''" by code_simp
  have "loadFromDirectory (sample_fs ?es) ''r'' = [sample_rules]"
    using sample_loads [of ?es]
    by (simp add: loadFromDirectory_def is_rule_file_def join_path_def ext List.map_filter_def)
      (simp add: sample_fs_def is_rule_file_def ext join_path_def)
  moreover have "loadFromDirectory (sample_fs ?es') ''r'' = loadFromDirectory (sample_fs ?es) ''r''"
    by (rule loader_order_and_isolation [of _ _ ?es _ ?es']) (simp_all add: sample_fs_def)
  ultimately show ?thesis by simp
qed

text \<open>
  The loader does not enforce the category of the file on its rules: a rule that names
  another category is kept with its own, so a set of one category can hold rules of another,
  although the header of \<open>RuleSet\<close> says the two match.
\<close>

theorem loader_keeps_foreign_category:
  "parseRuleFile (render (rule_set_json (sample_rules\<lparr>set_category := ''memory''\<rparr>))) =
     Inr (sample_rules\<lparr>set_category := ''memory''\<rparr>) \<and>
   map rule_category (set_rules (sample_rules\<lparr>set_category := ''memory''\<rparr>)) = [''sync'']"
  by (simp add: parseRuleFile_render sample_rules_def well_formed_rule_def)

end
