(* ===== verification/Evidence.thy ===== *)
theory Evidence
  imports Rules
begin

text \<open>
  The evidence builder of \<open>evidence/evidence_builder.cpp\<close>: each rule selects rows of the
  \<open>semantic_fact\<close> table by (category, primitive, kind) and combines them into findings.

  The two tables the builder reads are a list of rows and a map from entity ids to names
  (the primary key of \<open>entity\<close> makes the left join single-valued); a query is the filter
  its \<open>WHERE\<close> clause states, in the order of the list.  Confidences are rationals.  The
  text of \<open>detail_json\<close> is written by \<open>buildDetailJson\<close> of
  \<open>model/semantic_fact_extractor.cpp\<close> and read back here by two small extractors.
\<close>

section \<open>detail_json\<close>

definition buildDetailJson :: "int \<Rightarrow> bytes \<Rightarrow> bytes \<Rightarrow> bytes" where
  "buildDetailJson line snippet related_symbol =
     [CHR ''{'', quote_char] @ ''line'' @ [quote_char, CHR '':''] @ to_string_int line @
     [CHR '','', quote_char] @ ''snippet'' @ [quote_char, CHR '':'', quote_char] @
     jsonEscapeString snippet @
     [quote_char, CHR '','', quote_char] @ ''related_symbol'' @ [quote_char, CHR '':'', quote_char] @
     jsonEscapeString related_symbol @ [quote_char, CHR ''}'']"

text \<open>The loop of \<open>detailJsonString\<close> after the needle: up to the next unescaped quote.\<close>

fun detail_string_body :: "bytes \<Rightarrow> bytes" where
  "detail_string_body [] = []"
| "detail_string_body (c # cs) =
     (if c = quote_char then []
      else if c = backslash \<and> cs \<noteq> [] then
        (let e = hd cs;
             d = (if e = CHR ''n'' then CHR 0x0A
                  else if e = CHR ''t'' then CHR 0x09
                  else if e = CHR ''r'' then CHR 0x0D
                  else e)
         in d # detail_string_body (tl cs))
      else c # detail_string_body cs)"

definition detailJsonString :: "bytes \<Rightarrow> bytes \<Rightarrow> bytes" where
  "detailJsonString txt k =
     (let needle = quote_char # k @ [quote_char, CHR '':'', quote_char] in
      case str_find needle txt of
        None \<Rightarrow> []
      | Some i \<Rightarrow> detail_string_body (drop (i + length needle) txt))"

text \<open>An \<open>int\<close> accumulates the digits in the code; the model does not wrap around.\<close>

definition detailJsonInt :: "bytes \<Rightarrow> bytes \<Rightarrow> int" where
  "detailJsonInt txt k =
     (let needle = quote_char # k @ [quote_char, CHR '':''] in
      case str_find needle txt of
        None \<Rightarrow> 0
      | Some i \<Rightarrow>
          (let r = dropWhile (\<lambda>c. c = CHR '' '' \<or> c = CHR 0x09) (drop (i + length needle) txt);
               neg = (r \<noteq> [] \<and> hd r = CHR ''-'');
               ds = takeWhile isdigit_c (if neg then tl r else r)
           in if ds = [] then 0
              else if neg then - int (digits_val ds) else int (digits_val ds)))"

section \<open>Evidence items\<close>

record evidence_item =
  item_fact_id :: nat
  item_category :: bytes
  item_primitive :: bytes
  item_kind :: bytes
  item_symbol :: bytes
  item_file :: bytes
  item_line :: int
  item_snippet :: bytes

record evidence =
  ev_category :: bytes
  ev_title :: bytes
  ev_confidence :: rat
  ev_items :: "evidence_item list"

text \<open>The file path inside the parentheses of a snippet "name (file_path)".\<close>

definition snippet_file :: "bytes \<Rightarrow> bytes option" where
  "snippet_file s =
     (case (str_rfind (CHR ''('') s, str_rfind (CHR '')'') s) of
        (Some op, Some cl) \<Rightarrow> if op < cl then Some (take (cl - op - 1) (drop (op + 1) s)) else None
      | _ \<Rightarrow> None)"

definition applyDetailJson :: "bytes \<Rightarrow> evidence_item \<Rightarrow> evidence_item" where
  "applyDetailJson detail item =
     (if detail = [] then item
      else let snip = detailJsonString detail ''snippet'';
               item' = item\<lparr>item_line := detailJsonInt detail ''line'', item_snippet := snip\<rparr>
           in case snippet_file snip of None \<Rightarrow> item' | Some f \<Rightarrow> item'\<lparr>item_file := f\<rparr>)"

section \<open>Templates\<close>

fun formatTemplate :: "(bytes \<Rightarrow> bytes option) \<Rightarrow> bytes \<Rightarrow> bytes" where
  "formatTemplate vars [] = []"
| "formatTemplate vars (c # cs) =
     (if c = CHR ''{'' \<and> CHR ''}'' \<in> set cs then
        (let k = takeWhile (\<lambda>d. d \<noteq> CHR ''}'') cs;
             rest = drop (Suc (length k)) cs
         in (case vars k of Some v \<Rightarrow> v | None \<Rightarrow> CHR ''{'' # k @ ''}'') @ formatTemplate vars rest)
      else c # formatTemplate vars cs)"

section \<open>The tables and the query of one need\<close>

record fact_row =
  row_id :: nat
  row_project :: nat
  row_function :: nat
  row_category :: bytes
  row_primitive :: bytes
  row_kind :: bytes
  row_symbol :: bytes
  row_confidence :: rat
  row_detail :: bytes

record fact_store =
  semantic_fact :: "fact_row list"
  entity_name :: "nat \<Rightarrow> bytes option"

record matched_fact =
  fact_id :: nat
  function_id :: nat
  mf_category :: bytes
  mf_primitive :: bytes
  mf_kind :: bytes
  mf_symbol :: bytes
  confidence :: rat
  detail_json :: bytes
  enclosing_symbol :: bytes

definition row_matches :: "nat \<Rightarrow> fact_need \<Rightarrow> fact_row \<Rightarrow> bool" where
  "row_matches project need r \<longleftrightarrow>
     row_project r = project \<and> row_category r = need_category need \<and>
     row_primitive r = need_primitive need \<and> row_kind r = need_kind need"

definition read_row :: "fact_store \<Rightarrow> fact_row \<Rightarrow> matched_fact" where
  "read_row st r =
     \<lparr>fact_id = row_id r, function_id = row_function r, mf_category = row_category r,
      mf_primitive = row_primitive r, mf_kind = row_kind r, mf_symbol = row_symbol r,
      confidence = row_confidence r, detail_json = row_detail r,
      enclosing_symbol = (case entity_name st (row_function r) of Some n \<Rightarrow> n | None \<Rightarrow> [])\<rparr>"

definition queryFactsForNeed :: "fact_store \<Rightarrow> nat \<Rightarrow> fact_need \<Rightarrow> matched_fact list" where
  "queryFactsForNeed st project need =
     map (read_row st) (filter (row_matches project need) (semantic_fact st))"

definition toEvidenceItem :: "matched_fact \<Rightarrow> evidence_item" where
  "toEvidenceItem mf =
     applyDetailJson (detail_json mf)
       \<lparr>item_fact_id = fact_id mf, item_category = mf_category mf, item_primitive = mf_primitive mf,
        item_kind = mf_kind mf,
        item_symbol = (if enclosing_symbol mf = [] then mf_symbol mf else enclosing_symbol mf),
        item_file = [], item_line = 0, item_snippet = []\<rparr>"

definition minConfidence :: "matched_fact list \<Rightarrow> rat" where
  "minConfidence facts =
     (case facts of [] \<Rightarrow> 1 | f # _ \<Rightarrow> foldl (\<lambda>m g. min m (confidence g)) (confidence f) facts)"

definition buildTemplateVars :: "matched_fact list \<Rightarrow> bytes \<Rightarrow> bytes \<Rightarrow> bytes option" where
  "buildTemplateVars facts rname =
     (let base = [''count'' \<mapsto> to_string_nat (length facts), ''name'' \<mapsto> rname] in
      case facts of
        f # _ \<Rightarrow>
          (let item = toEvidenceItem f in
           base(''symbol'' \<mapsto> item_symbol item, ''file'' \<mapsto> item_file item,
                ''line'' \<mapsto> to_string_int (item_line item)))
      | [] \<Rightarrow> base(''symbol'' \<mapsto> [], ''file'' \<mapsto> [], ''line'' \<mapsto> ''0''))"

section \<open>Combine modes\<close>

text \<open>The finding every mode builds from its facts; \<open>Count\<close> leaves the items out.\<close>

definition make_evidence :: "rule \<Rightarrow> matched_fact list \<Rightarrow> evidence" where
  "make_evidence r facts =
     \<lparr>ev_category = rule_category r,
      ev_title = formatTemplate (buildTemplateVars facts (rule_name r)) (title_template (rule_out r)),
      ev_confidence = minConfidence facts,
      ev_items = map toEvidenceItem facts\<rparr>"

fun add_unseen :: "matched_fact list \<Rightarrow> nat set \<times> matched_fact list \<Rightarrow> nat set \<times> matched_fact list" where
  "add_unseen [] st = st"
| "add_unseen (f # fs) (seen, acc) =
     (if fact_id f \<in> seen then add_unseen fs (seen, acc)
      else add_unseen fs (insert (fact_id f) seen, acc @ [f]))"

definition collect_facts :: "fact_store \<Rightarrow> nat \<Rightarrow> rule \<Rightarrow> matched_fact list" where
  "collect_facts st project r =
     snd (fold (\<lambda>need acc. if optional need then acc
                             else add_unseen (queryFactsForNeed st project need) acc)
            (needs r) ({}, []))"

definition combineCollect :: "fact_store \<Rightarrow> nat \<Rightarrow> rule \<Rightarrow> evidence list" where
  "combineCollect st project r =
     (let all = collect_facts st project r in if all = [] then [] else [make_evidence r all])"

definition excluded_functions :: "fact_store \<Rightarrow> nat \<Rightarrow> rule \<Rightarrow> nat list" where
  "excluded_functions st project r =
     concat (map (\<lambda>need. if optional need then map function_id (queryFactsForNeed st project need) else [])
               (tl (needs r)))"

definition kept_facts :: "fact_store \<Rightarrow> nat \<Rightarrow> rule \<Rightarrow> matched_fact list" where
  "kept_facts st project r =
     filter (\<lambda>f. function_id f \<notin> set (excluded_functions st project r))
       (queryFactsForNeed st project (hd (needs r)))"

definition combineMissingMatch :: "fact_store \<Rightarrow> nat \<Rightarrow> rule \<Rightarrow> evidence list" where
  "combineMissingMatch st project r =
     (if needs r = [] then []
      else let kept = kept_facts st project r in
           if kept = [] then [] else [make_evidence r kept])"

text \<open>Grouping by function: \<open>order\<close> lists the functions as first seen, the second component is
  the hash map of the facts of each.\<close>

definition group_step ::
  "matched_fact \<Rightarrow> nat list \<times> (nat \<Rightarrow> matched_fact list) \<Rightarrow> nat list \<times> (nat \<Rightarrow> matched_fact list)" where
  "group_step f st =
     (case st of (order, by_function) \<Rightarrow>
        (if function_id f \<in> set order then order else order @ [function_id f],
         by_function(function_id f := by_function (function_id f) @ [f])))"

definition combineMissingMatchPerFunction :: "fact_store \<Rightarrow> nat \<Rightarrow> rule \<Rightarrow> evidence list" where
  "combineMissingMatchPerFunction st project r =
     (if needs r = [] then []
      else case fold group_step (kept_facts st project r) ([], \<lambda>_. []) of
             (order, by_function) \<Rightarrow> map (\<lambda>fn. make_evidence r (by_function fn)) order)"

definition combineCount :: "fact_store \<Rightarrow> nat \<Rightarrow> rule \<Rightarrow> evidence list" where
  "combineCount st project r =
     (if needs r = [] then []
      else let primary = queryFactsForNeed st project (hd (needs r)) in
           if primary = [] then []
           else [(make_evidence r primary)\<lparr>ev_confidence := 1, ev_items := []\<rparr>])"

definition applyRule :: "fact_store \<Rightarrow> nat \<Rightarrow> rule \<Rightarrow> evidence list" where
  "applyRule st project r =
     (case combine r of
        Collect_mode \<Rightarrow> combineCollect st project r
      | MissingMatch \<Rightarrow> combineMissingMatch st project r
      | MissingMatchPerFunction \<Rightarrow> combineMissingMatchPerFunction st project r
      | Count \<Rightarrow> combineCount st project r)"

section \<open>EvidenceBuilder\<close>

record builder =
  builder_store :: "fact_store option"
  rule_sets :: "rule_set list"

definition loadRules :: "filesystem \<Rightarrow> bytes \<Rightarrow> builder \<Rightarrow> builder" where
  "loadRules fs dir b = b\<lparr>rule_sets := loadFromDirectory fs dir\<rparr>"

definition buildAll :: "builder \<Rightarrow> nat \<Rightarrow> evidence list" where
  "buildAll b project =
     (case builder_store b of
        None \<Rightarrow> []
      | Some st \<Rightarrow>
          concat (map (\<lambda>rs. concat (map (applyRule st project) (set_rules rs))) (rule_sets b)))"

definition buildByCategory :: "builder \<Rightarrow> nat \<Rightarrow> bytes \<Rightarrow> evidence list" where
  "buildByCategory b project cat =
     (case builder_store b of
        None \<Rightarrow> []
      | Some st \<Rightarrow>
          concat (map (\<lambda>rs. if set_category rs \<noteq> cat then []
                             else concat (map (applyRule st project) (set_rules rs))) (rule_sets b)))"

definition buildByRule :: "builder \<Rightarrow> nat \<Rightarrow> bytes \<Rightarrow> evidence list" where
  "buildByRule b project rname =
     (case builder_store b of
        None \<Rightarrow> []
      | Some st \<Rightarrow>
          concat (map (\<lambda>rs. concat (map (\<lambda>r. if rule_name r \<noteq> rname then []
                                               else applyRule st project r) (set_rules rs)))
                    (rule_sets b)))"

section \<open>The interface of the query\<close>

text \<open>
  The combine modes rely on one law of the query: it returns, in table order, the facts of the
  table that match the need.
\<close>

locale fact_query =
  fixes query :: "fact_need \<Rightarrow> matched_fact list"
    and table :: "matched_fact list"
    and matches :: "fact_need \<Rightarrow> matched_fact \<Rightarrow> bool"
  assumes query_filter: "query need = filter (matches need) table"
begin

lemma set_query: "set (query need) = {f \<in> set table. matches need f}"
  by (simp add: query_filter)

lemma add_unseen_inv:
  assumes "inj_on fact_id (set acc \<union> set fs)" and "seen = fact_id ` set acc" and "distinct (map fact_id acc)"
  shows "case add_unseen fs (seen, acc) of (seen', acc') \<Rightarrow>
    seen' = fact_id ` set acc' \<and> set acc' = set acc \<union> set fs \<and> distinct (map fact_id acc')"
  using assms
proof (induction fs arbitrary: seen acc)
  case Nil
  then show ?case by simp
next
  case (Cons f fs)
  show ?case
  proof (cases "fact_id f \<in> seen")
    case True
    then obtain g where g: "g \<in> set acc" "fact_id g = fact_id f" using Cons.prems(2) by auto
    then have "f = g" using inj_onD [OF Cons.prems(1), of g f] by auto
    then have "f \<in> set acc" using g by simp
    moreover have "inj_on fact_id (set acc \<union> set fs)"
      using Cons.prems(1) by (rule inj_on_subset) auto
    ultimately show ?thesis
      using Cons.IH [of acc seen] Cons.prems True by (auto split: prod.splits)
  next
    case False
    then show ?thesis
      using Cons.IH [of "acc @ [f]" "insert (fact_id f) seen"] Cons.prems
      by (auto simp: Un_commute insert_commute split: prod.splits)
  qed
qed

definition merge :: "fact_need list \<Rightarrow> nat set \<times> matched_fact list \<Rightarrow> nat set \<times> matched_fact list" where
  "merge ns = fold (\<lambda>need acc. if optional need then acc else add_unseen (query need) acc) ns"

lemma merge_inv:
  assumes "inj_on fact_id (set table)" and "set acc \<subseteq> set table"
    and "seen = fact_id ` set acc" and "distinct (map fact_id acc)"
  shows "case merge ns (seen, acc) of (seen', acc') \<Rightarrow>
    seen' = fact_id ` set acc' \<and> distinct (map fact_id acc') \<and>
    set acc' = set acc \<union> {f \<in> set table. \<exists>need \<in> set ns. \<not> optional need \<and> matches need f}"
  using assms
proof (induction ns arbitrary: seen acc)
  case Nil
  then show ?case by (simp add: merge_def)
next
  case (Cons need ns)
  show ?case
  proof (cases "optional need")
    case True
    then show ?thesis using Cons.IH [of acc seen] Cons.prems by (simp add: merge_def)
  next
    case False
    obtain seen' acc' where step: "add_unseen (query need) (seen, acc) = (seen', acc')" by fastforce
    have "inj_on fact_id (set acc \<union> set (query need))"
      using Cons.prems(1,2) by (rule_tac inj_on_subset) (auto simp: set_query)
    then have inv: "seen' = fact_id ` set acc'" "set acc' = set acc \<union> set (query need)" "distinct (map fact_id acc')"
      using add_unseen_inv [of acc "query need" seen] Cons.prems step by auto
    then have "set acc' \<subseteq> set table" using Cons.prems(2) by (auto simp: set_query)
    then show ?thesis
      using Cons.IH [of acc' seen'] Cons.prems(1) inv False step
      by (auto simp: merge_def set_query split: prod.splits)
  qed
qed

lemma merge_all:
  assumes "inj_on fact_id (set table)"
  shows "distinct (map fact_id (snd (merge ns ({}, []))))"
    and "set (snd (merge ns ({}, []))) = {f \<in> set table. \<exists>need \<in> set ns. \<not> optional need \<and> matches need f}"
  using merge_inv [OF assms, of "[]" "{}" ns] by (auto split: prod.splits)

end

definition fact_matches :: "fact_store \<Rightarrow> nat \<Rightarrow> fact_need \<Rightarrow> matched_fact \<Rightarrow> bool" where
  "fact_matches st project need f \<longleftrightarrow>
     mf_category f = need_category need \<and> mf_primitive f = need_primitive need \<and> mf_kind f = need_kind need"

definition project_facts :: "fact_store \<Rightarrow> nat \<Rightarrow> matched_fact list" where
  "project_facts st project = map (read_row st) (filter (\<lambda>r. row_project r = project) (semantic_fact st))"

interpretation facts: fact_query "queryFactsForNeed st project" "project_facts st project" "fact_matches st project"
  for st project
  by unfold_locales
    (simp add: queryFactsForNeed_def project_facts_def filter_map comp_def row_matches_def [abs_def]
      fact_matches_def read_row_def conj_ac)

lemma project_facts_inj:
  "distinct (map row_id (semantic_fact st)) \<Longrightarrow> inj_on fact_id (set (project_facts st project))"
  by (auto simp: project_facts_def inj_on_def distinct_map read_row_def)

lemma collect_facts_merge: "collect_facts st project r = snd (facts.merge st project (needs r) ({}, []))"
  by (simp add: collect_facts_def facts.merge_def)

lemma collected_rows:
  "{f \<in> set (project_facts st project). \<exists>need \<in> set ns. \<not> optional need \<and> fact_matches st project need f} =
   {read_row st row | row. row \<in> set (semantic_fact st) \<and>
      (\<exists>need \<in> set ns. \<not> optional need \<and> row_matches project need row)}"
proof -
  have m: "row_project row = project \<Longrightarrow> fact_matches st project need (read_row st row) = row_matches project need row"
    for need row by (simp add: fact_matches_def read_row_def row_matches_def)
  have p: "row_matches project need row \<Longrightarrow> row_project row = project" for need row
    by (simp add: row_matches_def)
  show ?thesis
    unfolding project_facts_def set_map set_filter using m p by blast
qed

section \<open>Confidence\<close>

lemma foldl_min_le: "foldl (\<lambda>m g. min m (h g)) (a::rat) fs \<le> a \<and> (\<forall>f \<in> set fs. foldl (\<lambda>m g. min m (h g)) a fs \<le> h f)"
proof (induction fs arbitrary: a)
  case (Cons f fs)
  have "foldl (\<lambda>m g. min m (h g)) (min a (h f)) fs \<le> min a (h f)" using Cons by blast
  then show ?case using Cons [of "min a (h f)"] by auto
qed simp

lemma foldl_min_mem: "foldl (\<lambda>m g. min m (h g)) (a::rat) fs \<in> insert a (h ` set fs)"
proof (induction fs arbitrary: a)
  case (Cons f fs)
  then show ?case using Cons [of "min a (h f)"] by (auto simp: min_def split: if_splits)
qed simp

lemma minConfidence_Min: "fs \<noteq> [] \<Longrightarrow> minConfidence fs = Min (confidence ` set fs)"
proof (cases fs)
  case (Cons f gs)
  show ?thesis
    unfolding Cons minConfidence_def list.case
    using foldl_min_le [of confidence "confidence f" gs] foldl_min_mem [of confidence "confidence f" gs]
    by (intro Min_eqI [symmetric]) auto
qed simp

section \<open>Grouping by function\<close>

lemma group_inv:
  assumes "distinct order"
  shows "case fold group_step fs (order, bf) of (order', bf') \<Rightarrow>
    distinct order' \<and> set order' = set order \<union> function_id ` set fs \<and>
    bf' = (\<lambda>fn. bf fn @ filter (\<lambda>f. function_id f = fn) fs)"
  using assms
proof (induction fs arbitrary: order bf)
  case Nil
  then show ?case by simp
next
  case (Cons f fs)
  obtain o1 b1 where step: "group_step f (order, bf) = (o1, b1)" by fastforce
  have "distinct o1" "set o1 = insert (function_id f) (set order)"
    "b1 = bf(function_id f := bf (function_id f) @ [f])"
    using Cons.prems step by (auto simp: group_step_def split: if_splits)
  note o1 = this
  have IH: "case fold group_step fs (o1, b1) of (order', bf') \<Rightarrow>
      distinct order' \<and> set order' = set o1 \<union> function_id ` set fs \<and>
      bf' = (\<lambda>fn. b1 fn @ filter (\<lambda>f. function_id f = fn) fs)"
    by (rule Cons.IH) (rule o1)
  obtain o2 b2 where fold: "fold group_step fs (o1, b1) = (o2, b2)" by fastforce
  have "b2 = (\<lambda>fn. bf fn @ filter (\<lambda>f. function_id f = fn) (f # fs))"
    using IH unfolding fold by (intro ext) (simp add: o1(3))
  moreover have "distinct o2" "set o2 = set order \<union> function_id ` set (f # fs)"
    using IH o1(2) unfolding fold by simp_all
  ultimately show ?case by (simp add: step fold)
qed

lemma filter_partition_mset:
  assumes "distinct ks" and "g ` set fs \<subseteq> set ks"
  shows "mset (concat (map (\<lambda>k. filter (\<lambda>f. g f = k) fs) ks)) = mset fs"
  using assms
proof (induction ks arbitrary: fs)
  case Nil
  then show ?case by simp
next
  case (Cons k ks)
  have "filter (\<lambda>f. g f = k') fs = filter (\<lambda>f. g f = k') (filter (\<lambda>f. g f \<noteq> k) fs)" if "k' \<in> set ks" for k'
    using Cons.prems(1) that by (auto intro: filter_cong)
  then have split: "map (\<lambda>k. filter (\<lambda>f. g f = k) fs) ks =
      map (\<lambda>k'. filter (\<lambda>f. g f = k') (filter (\<lambda>f. g f \<noteq> k) fs)) ks"
    by (intro map_cong refl)
  have "mset (concat (map (\<lambda>k'. filter (\<lambda>f. g f = k') (filter (\<lambda>f. g f \<noteq> k) fs)) ks)) =
      mset (filter (\<lambda>f. g f \<noteq> k) fs)"
    using Cons.prems by (intro Cons.IH) auto
  then have "mset (concat (map (\<lambda>k. filter (\<lambda>f. g f = k) fs) (k # ks))) =
      mset (filter (\<lambda>f. g f = k) fs) + mset (filter (\<lambda>f. g f \<noteq> k) fs)"
    by (simp only: split list.map concat.simps mset_append)
  also have "\<dots> = mset fs" unfolding mset_filter by (rule multiset_partition [symmetric])
  finally show ?case .
qed

lemma per_function_groups:
  assumes "needs r \<noteq> []"
  obtains fns where "distinct fns" and "set fns = function_id ` set (kept_facts st project r)"
    and "combineMissingMatchPerFunction st project r =
      map (\<lambda>fn. make_evidence r (filter (\<lambda>f. function_id f = fn) (kept_facts st project r))) fns"
proof -
  obtain order bf where fold: "fold group_step (kept_facts st project r) ([], \<lambda>_. []) = (order, bf)"
    by fastforce
  have "distinct order" "set order = function_id ` set (kept_facts st project r)"
    "bf = (\<lambda>fn. filter (\<lambda>f. function_id f = fn) (kept_facts st project r))"
    using group_inv [of "[]" "kept_facts st project r" "\<lambda>_. []"] fold by auto
  then show ?thesis
    using that [of order] assms fold by (simp add: combineMissingMatchPerFunction_def)
qed

section \<open>Reading detail_json back\<close>

text \<open>The control bytes the reader has no rule for: they are written as a hexadecimal escape.\<close>

definition hex_escaped :: "char \<Rightarrow> bool" where
  "hex_escaped c \<longleftrightarrow> byte_of c < 32 \<and> c \<noteq> CHR 0x0A \<and> c \<noteq> CHR 0x0D \<and> c \<noteq> CHR 0x09"

definition detail_decoded :: "char \<Rightarrow> bytes" where
  "detail_decoded c = (if hex_escaped c then CHR ''u'' # hex4 (byte_of c) else [c])"

lemma hex_digit_plain: "n < 16 \<Longrightarrow> hex_digit n \<noteq> quote_char \<and> hex_digit n \<noteq> backslash"
  by (simp add: byte_of_eq_iff hex_digit_def of_char_of)

lemma detail_body_plain: "c \<noteq> quote_char \<Longrightarrow> c \<noteq> backslash \<Longrightarrow>
   detail_string_body (c # s) = c # detail_string_body s"
  by simp

lemma detail_body_esc: "detail_string_body (esc_char c @ s) = detail_decoded c @ detail_string_body s"
proof (cases "hex_escaped c")
  case True
  then have "c \<noteq> quote_char" "c \<noteq> backslash" by (auto simp: hex_escaped_def)
  with True have esc: "esc_char c = [backslash, CHR ''u''] @ hex4 (byte_of c)"
    by (simp add: esc_char_def hex_escaped_def)
  show ?thesis
    using hex_digit_plain [of "byte_of c div 16 mod 16"] hex_digit_plain [of "byte_of c mod 16"] True
    by (simp add: esc hex4_def detail_decoded_def detail_body_plain Let_def del: detail_string_body.simps)
      (simp add: detail_body_plain)
next
  case False
  then show ?thesis by (auto simp: detail_decoded_def hex_escaped_def esc_char_def)
qed

lemma detail_body_escaped:
  "detail_string_body (jsonEscapeString s @ quote_char # rest) = concat (map detail_decoded s)"
  by (induction s) (simp_all add: jsonEscapeString_def detail_body_esc del: detail_string_body.simps(2),
      simp)

lemma detail_decoded_exact: "concat (map detail_decoded s) = s \<longleftrightarrow> (\<forall>c \<in> set s. \<not> hex_escaped c)"
proof
  have len: "length s \<le> length (concat (map detail_decoded s))" for s
    by (induction s) (auto simp: detail_decoded_def hex4_def)
  show "\<forall>c \<in> set s. \<not> hex_escaped c" if "concat (map detail_decoded s) = s"
    using that
  proof (induction s)
    case (Cons c s)
    show ?case
    proof (cases "hex_escaped c")
      case True
      then have "length (concat (map detail_decoded (c # s))) > length (c # s)"
        using len [of s] by (simp add: detail_decoded_def hex4_def)
      with Cons.prems show ?thesis by simp
    next
      case False
      with Cons show ?thesis by (simp add: detail_decoded_def)
    qed
  qed simp
  show "concat (map detail_decoded s) = s" if "\<forall>c \<in> set s. \<not> hex_escaped c"
    using that by (induction s) (auto simp: detail_decoded_def)
qed

lemma str_find_skip:
  assumes "sub = x # ys" and "x \<notin> set pre"
  shows "str_find sub (pre @ s) = map_option (\<lambda>i. i + length pre) (str_find sub s)"
  using assms(2)
proof (induction pre)
  case (Cons c pre)
  then have "\<not> prefix sub (c # pre @ s)" using assms(1) by auto
  then show ?case using Cons by (simp add: option.map_comp comp_def)
qed (simp add: option.map_ident)

lemma to_string_int_no_quote: "quote_char \<notin> set (to_string_int n)"
  using nat_digits_isdigit [of quote_char] by (auto simp: to_string_int_def isdigit_c_def)

lemma str_find_prefix: "str_find (x # ys) ((x # ys) @ s) = Some 0"
  by simp

lemma detail_snippet: "detailJsonString (buildDetailJson l s r) ''snippet'' = concat (map detail_decoded s)"
proof -
  let ?needle = "quote_char # ''snippet'' @ [quote_char, CHR '':'', quote_char]"
  let ?rest = "[quote_char, CHR '','', quote_char] @ ''related_symbol'' @
     [quote_char, CHR '':'', quote_char] @ jsonEscapeString r @ [quote_char, CHR ''}'']"
  have "str_find ?needle (to_string_int l @ CHR '','' # ?needle @ jsonEscapeString s @ ?rest) =
      Some (Suc (length (to_string_int l)))"
    by (subst str_find_skip [OF refl to_string_int_no_quote]) simp
  then have find: "str_find ?needle (buildDetailJson l s r) = Some (9 + length (to_string_int l))"
    by (simp add: buildDetailJson_def)
  then show ?thesis
    using detail_body_escaped [of s "tl ?rest"]
    by (simp add: detailJsonString_def Let_def buildDetailJson_def)
qed

lemma read_decimal:
  assumes "t = [] \<or> \<not> isdigit_c (hd t)"
  shows "(let r = dropWhile (\<lambda>c. c = CHR '' '' \<or> c = CHR 0x09) (to_string_int l @ t);
              neg = (r \<noteq> [] \<and> hd r = CHR ''-'');
              ds = takeWhile isdigit_c (if neg then tl r else r)
          in if ds = [] then 0
             else if neg then - int (digits_val ds) else int (digits_val ds)) = l"
proof -
  have digits: "takeWhile isdigit_c (nat_digits n @ t) = nat_digits n" for n
    by (rule takeWhile_append_stop) (use assms in \<open>auto dest: nat_digits_isdigit\<close>)
  obtain c cs where start: "to_string_int l = c # cs" "c \<noteq> CHR '' ''" "c \<noteq> CHR 0x09" "c = CHR ''-'' \<longleftrightarrow> l < 0"
  proof (cases "l < 0")
    case True
    then show ?thesis using that by (simp add: to_string_int_def)
  next
    case False
    obtain c cs where n: "nat_digits (nat l) = c # cs"
      by (metis nat_digits_nonempty neq_Nil_conv)
    then have "isdigit_c c" using nat_digits_isdigit [of c "nat l"] by simp
    then have "c \<noteq> CHR '' ''" "c \<noteq> CHR 0x09" "c \<noteq> CHR ''-''" by (auto simp: isdigit_c_def)
    then show ?thesis using that [of c cs] n False by (simp add: to_string_int_def)
  qed
  have ws: "dropWhile (\<lambda>c. c = CHR '' '' \<or> c = CHR 0x09) (to_string_int l @ t) = to_string_int l @ t"
    using start by simp
  have neg: "(to_string_int l @ t \<noteq> [] \<and> hd (to_string_int l @ t) = CHR ''-'') = (l < 0)"
    using start by simp
  show ?thesis
    unfolding ws Let_def neg by (simp add: to_string_int_def digits)
qed

lemma detail_line: "detailJsonInt (buildDetailJson l s r) ''line'' = l"
proof -
  let ?needle = "quote_char # ''line'' @ [quote_char, CHR '':'']"
  have find: "str_find ?needle (buildDetailJson l s r) = Some 1"
    by (simp add: buildDetailJson_def)
  obtain t where drop: "drop (1 + length ?needle) (buildDetailJson l s r) = to_string_int l @ CHR '','' # t"
    by (rule that) (simp add: buildDetailJson_def)
  show ?thesis
    unfolding detailJsonInt_def find option.case drop Let_def [of ?needle]
    by (rule read_decimal) (simp add: isdigit_c_def)
qed

section \<open>Templates as lists of pieces\<close>

datatype piece = Text bytes | Hole bytes

fun piece_ok :: "piece \<Rightarrow> bool" where
  "piece_ok (Text t) \<longleftrightarrow> CHR ''{'' \<notin> set t"
| "piece_ok (Hole k) \<longleftrightarrow> CHR ''}'' \<notin> set k"

fun show_piece :: "piece \<Rightarrow> bytes" where
  "show_piece (Text t) = t"
| "show_piece (Hole k) = CHR ''{'' # k @ ''}''"

fun fill_piece :: "(bytes \<Rightarrow> bytes option) \<Rightarrow> piece \<Rightarrow> bytes" where
  "fill_piece vars (Text t) = t"
| "fill_piece vars (Hole k) = (case vars k of Some v \<Rightarrow> v | None \<Rightarrow> show_piece (Hole k))"

lemma format_text: "CHR ''{'' \<notin> set t \<Longrightarrow> formatTemplate vars (t @ s) = t @ formatTemplate vars s"
  by (induction t) auto

lemma format_hole: "CHR ''}'' \<notin> set k \<Longrightarrow>
   formatTemplate vars (CHR ''{'' # k @ CHR ''}'' # s) = fill_piece vars (Hole k) @ formatTemplate vars s"
proof -
  assume "CHR ''}'' \<notin> set k"
  then have "takeWhile (\<lambda>d. d \<noteq> CHR ''}'') (k @ CHR ''}'' # s) = k"
    by (intro takeWhile_append_stop) auto
  then show ?thesis by (simp add: Let_def split: option.split)
qed

lemma format_pieces: "list_all piece_ok ps \<Longrightarrow>
   formatTemplate vars (concat (map show_piece ps)) = concat (map (fill_piece vars) ps)"
proof (induction ps)
  case (Cons p ps)
  show ?case
  proof (cases p)
    case (Text t)
    with Cons show ?thesis by (simp add: format_text)
  next
    case (Hole k)
    then have "formatTemplate vars (concat (map show_piece (p # ps))) =
        fill_piece vars p @ formatTemplate vars (concat (map show_piece ps))"
      using Cons.prems format_hole [of k vars "concat (map show_piece ps)"]
      by (simp del: formatTemplate.simps)
    with Cons show ?thesis by simp
  qed
qed simp

section \<open>Categories\<close>

definition homogeneous :: "rule_set \<Rightarrow> bool" where
  "homogeneous rs \<longleftrightarrow> list_all (\<lambda>r. rule_category r = set_category rs) (set_rules rs)"

lemma applyRule_category: "ev \<in> set (applyRule st project r) \<Longrightarrow> ev_category ev = rule_category r"
  by (auto simp: applyRule_def combineCollect_def combineMissingMatch_def combineCount_def
      combineMissingMatchPerFunction_def make_evidence_def Let_def
      split: combine_mode.splits if_splits prod.splits)

lemma by_category_filter:
  "buildByCategory b project cat =
     buildAll (b\<lparr>rule_sets := filter (\<lambda>rs. set_category rs = cat) (rule_sets b)\<rparr>) project"
proof -
  have "concat (map (\<lambda>x. if P x then [] else f x) xs) = concat (map f (filter (\<lambda>x. \<not> P x) xs))"
    for P and f :: "rule_set \<Rightarrow> evidence list" and xs
    by (induction xs) auto
  then show ?thesis by (simp add: buildByCategory_def buildAll_def split: option.split)
qed

section \<open>Properties\<close>

text \<open>
  \<open>Collect\<close> reports each matching fact once: with unique row ids, the facts of the finding
  are exactly the rows of the project that match some need that is not optional, none of them
  twice even when several needs select it, and a finding is made only if there is one.
\<close>

theorem collect_exact:
  assumes "distinct (map row_id (semantic_fact st))"
  shows "combineCollect st project r =
      (if collect_facts st project r = [] then [] else [make_evidence r (collect_facts st project r)]) \<and>
    distinct (map fact_id (collect_facts st project r)) \<and>
    set (collect_facts st project r) = {read_row st row | row. row \<in> set (semantic_fact st) \<and>
      (\<exists>need \<in> set (needs r). \<not> optional need \<and> row_matches project need row)}"
proof (intro conjI)
  show "combineCollect st project r =
      (if collect_facts st project r = [] then [] else [make_evidence r (collect_facts st project r)])"
    by (simp add: combineCollect_def Let_def)
  show "distinct (map fact_id (collect_facts st project r))"
    unfolding collect_facts_merge by (rule facts.merge_all [OF project_facts_inj [OF assms]])
  show "set (collect_facts st project r) = {read_row st row | row. row \<in> set (semantic_fact st) \<and>
      (\<exists>need \<in> set (needs r). \<not> optional need \<and> row_matches project need row)}"
    unfolding collect_facts_merge facts.merge_all(2) [OF project_facts_inj [OF assms]]
      collected_rows ..
qed

definition lock_need :: fact_need where
  "lock_need = \<lparr>need_category = ''sync'', need_primitive = ''mutex'', need_kind = ''lock'', optional = False\<rparr>"

definition unlock_need :: fact_need where
  "unlock_need = \<lparr>need_category = ''sync'', need_primitive = ''mutex'', need_kind = ''defer_unlock'', optional = True\<rparr>"

definition sample_row :: "nat \<Rightarrow> nat \<Rightarrow> bytes \<Rightarrow> fact_row" where
  "sample_row i fn kind =
     \<lparr>row_id = i, row_project = 1, row_function = fn, row_category = ''sync'', row_primitive = ''mutex'',
      row_kind = kind, row_symbol = ''Lock'', row_confidence = 9 / 10,
      row_detail = buildDetailJson 7 ''run (a.go)'' []\<rparr>"

definition sample_store :: fact_store where
  "sample_store = \<lparr>semantic_fact =
     [sample_row 1 10 ''lock'', sample_row 2 20 ''lock'', sample_row 3 20 ''defer_unlock'',
      sample_row 4 10 ''lock'', sample_row 5 30 ''lock''],
     entity_name = [10 \<mapsto> ''run'']\<rparr>"

definition sample_rule :: "combine_mode \<Rightarrow> fact_need list \<Rightarrow> rule" where
  "sample_rule mode ns = \<lparr>rule_name = ''r'', rule_description = [], rule_category = ''sync'', needs = ns,
     combine = mode, rule_out = default_output\<lparr>title_template := ''{count} in {file}''\<rparr>\<rparr>"

lemmas sample_defs = sample_store_def sample_row_def sample_rule_def lock_need_def unlock_need_def

theorem collect_exact_witness:
  "distinct (map fact_id (collect_facts sample_store 1 (sample_rule Collect_mode [lock_need, lock_need])))"
  using collect_exact [of sample_store 1 "sample_rule Collect_mode [lock_need, lock_need]"]
  by (simp add: sample_defs del: split_paired_Ex)

text \<open>
  \<open>MissingMatch\<close> is a set difference: its finding holds exactly the rows that match the
  first need and whose function has no row matching an optional later need; there is no
  finding when none is left, and its confidence is the least of its facts.
\<close>

theorem missing_match_exact:
  assumes "needs r = need # rest" and "kept_facts st project r \<noteq> []"
  shows "combineMissingMatch st project r = [make_evidence r (kept_facts st project r)] \<and>
    set (kept_facts st project r) = {read_row st row | row. row \<in> set (semantic_fact st) \<and>
      row_matches project need row \<and>
      \<not> (\<exists>other \<in> set rest. optional other \<and> (\<exists>row' \<in> set (semantic_fact st).
           row_matches project other row' \<and> row_function row' = row_function row))} \<and>
    ev_confidence (make_evidence r (kept_facts st project r)) =
      Min (confidence ` set (kept_facts st project r))"
proof -
  have excluded: "function_id f \<in> set (excluded_functions st project r) \<longleftrightarrow>
      (\<exists>other \<in> set rest. optional other \<and> (\<exists>row' \<in> set (semantic_fact st).
         row_matches project other row' \<and> row_function row' = function_id f))" for f
  proof -
    have "function_id f \<in> set (excluded_functions st project r) \<longleftrightarrow>
        (\<exists>other \<in> set rest. optional other \<and> function_id f \<in> function_id ` set (queryFactsForNeed st project other))"
      using assms(1) by (auto simp: excluded_functions_def split: if_splits)
    moreover have "function_id f \<in> function_id ` set (queryFactsForNeed st project other) \<longleftrightarrow>
        (\<exists>row' \<in> set (semantic_fact st). row_matches project other row' \<and> row_function row' = function_id f)" for other
      by (auto simp: queryFactsForNeed_def read_row_def image_image image_iff)
    ultimately show ?thesis by simp
  qed
  have "set (kept_facts st project r) = {read_row st row | row. row \<in> set (semantic_fact st) \<and>
      row_matches project need row \<and>
      \<not> (\<exists>other \<in> set rest. optional other \<and> (\<exists>row' \<in> set (semantic_fact st).
           row_matches project other row' \<and> row_function row' = row_function row))}"
    using assms(1) unfolding kept_facts_def excluded set_filter
    by (auto simp: queryFactsForNeed_def read_row_def)
  then show ?thesis
    using assms by (simp add: combineMissingMatch_def make_evidence_def minConfidence_Min Let_def)
qed

theorem missing_match_exact_witness:
  "map (map item_fact_id \<circ> ev_items)
     (combineMissingMatch sample_store 1 (sample_rule MissingMatch [lock_need, unlock_need])) = [[1, 4, 5]]"
proof -
  let ?r = "sample_rule MissingMatch [lock_need, unlock_need]"
  have kept: "kept_facts sample_store 1 ?r =
      map (read_row sample_store) [sample_row 1 10 ''lock'', sample_row 4 10 ''lock'', sample_row 5 30 ''lock'']"
    by (simp add: kept_facts_def excluded_functions_def queryFactsForNeed_def row_matches_def
        read_row_def sample_defs)
  have "combineMissingMatch sample_store 1 ?r = [make_evidence ?r (kept_facts sample_store 1 ?r)]"
    using missing_match_exact [of ?r lock_need "[unlock_need]" sample_store 1] kept
    by (simp add: sample_rule_def)
  moreover have "item_fact_id (applyDetailJson d it) = item_fact_id it" for d it
    by (simp add: applyDetailJson_def Let_def split: option.split)
  ultimately show ?thesis
    by (simp add: kept make_evidence_def toEvidenceItem_def read_row_def sample_row_def del: One_nat_def)
qed

text \<open>
  \<open>MissingMatchPerFunction\<close> partitions the facts of \<open>MissingMatch\<close>: one finding per
  function, no function twice and none empty, each with all the kept facts of its function in
  table order, and together exactly the items of \<open>MissingMatch\<close>.
\<close>

theorem per_function_partition:
  assumes "needs r \<noteq> []"
  shows "\<exists>fns. distinct fns \<and> set fns = function_id ` set (kept_facts st project r) \<and>
    combineMissingMatchPerFunction st project r =
      map (\<lambda>fn. make_evidence r (filter (\<lambda>f. function_id f = fn) (kept_facts st project r))) fns \<and>
    (\<forall>ev \<in> set (combineMissingMatchPerFunction st project r). ev_items ev \<noteq> []) \<and>
    mset (concat (map ev_items (combineMissingMatchPerFunction st project r))) =
      mset (concat (map ev_items (combineMissingMatch st project r)))"
proof -
  let ?kept = "kept_facts st project r"
  obtain fns where fns: "distinct fns" "set fns = function_id ` set ?kept"
    and groups: "combineMissingMatchPerFunction st project r =
      map (\<lambda>fn. make_evidence r (filter (\<lambda>f. function_id f = fn) ?kept)) fns"
    using per_function_groups [OF assms, of st project] by blast
  have "mset (concat (map (\<lambda>k. filter (\<lambda>f. function_id f = k) ?kept) fns)) = mset ?kept"
    using fns by (intro filter_partition_mset) simp_all
  then have "mset (map toEvidenceItem (concat (map (\<lambda>k. filter (\<lambda>f. function_id f = k) ?kept) fns))) =
      mset (map toEvidenceItem ?kept)"
    by (simp only: mset_map)
  moreover have "concat (map ev_items (combineMissingMatchPerFunction st project r)) =
      map toEvidenceItem (concat (map (\<lambda>k. filter (\<lambda>f. function_id f = k) ?kept) fns))"
    by (simp add: groups map_concat comp_def make_evidence_def)
  moreover have "concat (map ev_items (combineMissingMatch st project r)) = map toEvidenceItem ?kept"
    using assms by (simp add: combineMissingMatch_def make_evidence_def Let_def)
  moreover have "\<forall>ev \<in> set (combineMissingMatchPerFunction st project r). ev_items ev \<noteq> []"
    using fns(2) by (auto simp: groups make_evidence_def filter_empty_conv)
  ultimately show ?thesis using fns groups by metis
qed

theorem per_function_partition_witness:
  "mset (concat (map ev_items (combineMissingMatchPerFunction sample_store 1
      (sample_rule MissingMatchPerFunction [lock_need, unlock_need])))) =
   mset (concat (map ev_items (combineMissingMatch sample_store 1
      (sample_rule MissingMatchPerFunction [lock_need, unlock_need]))))"
proof -
  have "needs (sample_rule MissingMatchPerFunction [lock_need, unlock_need]) \<noteq> []"
    by (simp add: sample_rule_def)
  from per_function_partition [OF this] show ?thesis by blast
qed

text \<open>
  A snippet and a line survive the trip through \<open>detail_json\<close>: the line is always read
  back, and the snippet is read back unchanged exactly if it holds no control byte other than
  newline, carriage return and tab (those are written as a hexadecimal escape, which the
  reader does not decode).
\<close>

theorem detail_json_roundtrip:
  "detailJsonInt (buildDetailJson l s r) ''line'' = l \<and>
   (detailJsonString (buildDetailJson l s r) ''snippet'' = s \<longleftrightarrow> (\<forall>c \<in> set s. \<not> hex_escaped c))"
  by (simp add: detail_line detail_snippet detail_decoded_exact)

theorem detail_json_roundtrip_witness:
  "detailJsonString (buildDetailJson 3 [CHR 0x0C] []) ''snippet'' \<noteq> [CHR 0x0C] \<and>
   detailJsonString (buildDetailJson 3 [quote_char, backslash] []) ''snippet'' = [quote_char, backslash]"
  using detail_json_roundtrip [of 3 "[CHR 0x0C]" "[]"] detail_json_roundtrip [of 3 "[quote_char, backslash]" "[]"]
  by (simp add: hex_escaped_def)

text \<open>
  Templates are filled hole by hole: a template made of literal text and \<open>{key}\<close> holes
  becomes the concatenation of the texts and of the values of the keys; a key without a value
  leaves its hole as it is.
\<close>

theorem format_template_spec:
  assumes "list_all piece_ok ps"
  shows "formatTemplate vars (concat (map show_piece ps)) = concat (map (fill_piece vars) ps)"
  using assms by (rule format_pieces)

theorem format_template_spec_witness:
  "formatTemplate [''count'' \<mapsto> ''3''] ''{count} of {what}'' = ''3 of {what}''"
  using format_template_spec [of "[Hole ''count'', Text '' of '', Hole ''what'']" "[''count'' \<mapsto> ''3'']"]
  by (simp del: formatTemplate.simps)

text \<open>
  Building by category is building everything from the rule sets of that category, and
  when the rules of a set carry the category of their file, every finding is of the category
  asked for.
\<close>

theorem build_by_category:
  assumes "list_all homogeneous (rule_sets b)"
  shows "buildByCategory b project cat =
      buildAll (b\<lparr>rule_sets := filter (\<lambda>rs. set_category rs = cat) (rule_sets b)\<rparr>) project \<and>
    (\<forall>ev \<in> set (buildByCategory b project cat). ev_category ev = cat)"
proof -
  have "ev_category ev = cat" if "ev \<in> set (buildByCategory b project cat)" for ev
    using that assms applyRule_category
    by (fastforce simp: buildByCategory_def homogeneous_def list_all_iff split: option.splits if_splits)
  then show ?thesis by (simp add: by_category_filter)
qed

theorem build_by_category_witness:
  "list_all (\<lambda>ev. ev_category ev = ''sync'')
     (buildByCategory \<lparr>builder_store = Some sample_store,
        rule_sets = [\<lparr>set_category = ''sync'', set_rules = [sample_rule Count [lock_need]]\<rparr>]\<rparr> 1 ''sync'')"
  using build_by_category [of "\<lparr>builder_store = Some sample_store,
      rule_sets = [\<lparr>set_category = ''sync'', set_rules = [sample_rule Count [lock_need]]\<rparr>]\<rparr>" 1 "''sync''"]
  by (simp add: homogeneous_def sample_rule_def list_all_iff)

text \<open>
  The file of an item is cut at the last opening parenthesis: a snippet
  "name (app/(shop)/page.tsx)", the path of a route group, gives the file
  "shop)/page.tsx" instead of the path.
\<close>

theorem snippet_file_nested_parens:
  "item_file (toEvidenceItem (read_row sample_store
     ((sample_row 1 10 ''lock'')\<lparr>row_detail := buildDetailJson 7 ''f (app/(shop)/page.tsx)'' []\<rparr>))) =
   ''shop)/page.tsx''"
  by code_simp

end
