(* ===== verification/Lsp.thy ===== *)
theory Lsp
  imports Json_Roundtrip
begin

text \<open>
  The client of the language server: the framing of messages and the matching of responses
  of \<open>lsp/lsp_framing.h\<close>, the texts of the JSON-RPC requests, the reading loop and the
  extraction of symbols of \<open>lsp/lsp_client.cpp\<close>.

  The pipe is an argument: the outcomes of \<open>poll\<close> and \<open>read\<close> are a list of events, a chunk
  with the bytes read and whether the deadline had passed when it was handled.  \<open>atoi\<close> is
  taken on the unbounded integers; beyond an \<open>int\<close> its result is undefined in C.
\<close>

section \<open>atoi\<close>

definition atoi :: "bytes \<Rightarrow> int" where
  "atoi s =
     (let s1 = dropWhile isspace_c s;
          neg = (s1 \<noteq> [] \<and> hd s1 = CHR ''-'');
          s2 = (if s1 \<noteq> [] \<and> (hd s1 = CHR ''-'' \<or> hd s1 = CHR ''+'') then tl s1 else s1);
          n = int (digits_val (takeWhile isdigit_c s2))
      in if neg then - n else n)"

section \<open>Framing\<close>

abbreviation cr :: char where "cr \<equiv> CHR 0x0D"
abbreviation lf :: char where "lf \<equiv> CHR 0x0A"

definition header_stop :: bytes where
  "header_stop = [cr, lf, cr, lf]"

definition length_field :: bytes where
  "length_field = ''Content-Length:''"

datatype lsp_framing = Message bytes | NeedMore | Skipped

text \<open>The outcome and the buffer that is left; \<open>Message\<close> carries \<open>out_body\<close>.\<close>

definition takeNextLspMessage :: "bytes \<Rightarrow> lsp_framing \<times> bytes" where
  "takeNextLspMessage buffer =
     (case str_find header_stop buffer of
        None \<Rightarrow> (NeedMore, buffer)
      | Some header_end \<Rightarrow>
          (case str_find length_field buffer of
             None \<Rightarrow> (NeedMore, buffer)
           | Some cl_pos \<Rightarrow>
               if header_end < cl_pos then (NeedMore, buffer)
               else let v = dropWhile (\<lambda>c. c = CHR '' '') (drop (cl_pos + 15) buffer);
                        val = takeWhile (\<lambda>c. c \<noteq> cr \<and> c \<noteq> lf) v
                    in if val = v then (NeedMore, buffer)
                       else let content_length = atoi val; body_start = header_end + 4 in
                         if content_length \<le> 0 then (Skipped, drop body_start buffer)
                         else if length buffer < body_start + nat content_length then (NeedMore, buffer)
                         else (Message (take (nat content_length) (drop body_start buffer)),
                               drop (body_start + nat content_length) buffer)))"

definition wrapLspFramed :: "bytes \<Rightarrow> bytes" where
  "wrapLspFramed body = ''Content-Length: '' @ to_string_nat (length body) @ header_stop @ body"

definition isResponseFor :: "bytes \<Rightarrow> int \<Rightarrow> bool" where
  "isResponseFor body expected_id =
     (case str_find [quote_char, CHR ''i'', CHR ''d'', quote_char] body of
        None \<Rightarrow> False
      | Some pos \<Rightarrow>
          (let r = dropWhile (\<lambda>c. c = CHR '' '' \<or> c = CHR '':'') (drop (pos + 4) body) in
           if r = [] \<or> \<not> isdigit_c (hd r) then False
           else atoi r = expected_id))"

section \<open>Requests\<close>

definition dq :: "bytes \<Rightarrow> bytes" where
  "dq s = quote_char # s @ [quote_char]"

definition buildJsonRpc :: "bytes \<Rightarrow> bytes \<Rightarrow> int \<Rightarrow> bytes" where
  "buildJsonRpc meth params i =
     ''{'' @ dq ''jsonrpc'' @ '':'' @ dq ''2.0'' @ '','' @ dq ''id'' @ '':'' @ to_string_int i @ '','' @
     dq ''method'' @ '':'' @ dq meth @ '','' @ dq ''params'' @ '':'' @ params @ ''}''"

definition buildNotification :: "bytes \<Rightarrow> bytes \<Rightarrow> bytes" where
  "buildNotification meth params =
     ''{'' @ dq ''jsonrpc'' @ '':'' @ dq ''2.0'' @ '','' @ dq ''method'' @ '':'' @ dq meth @ '','' @
     dq ''params'' @ '':'' @ params @ ''}''"

definition wrapLspMessage :: "bytes \<Rightarrow> bytes" where
  "wrapLspMessage body = ''Content-Length: '' @ to_string_nat (length body) @ [cr, lf, cr, lf] @ body"

definition jsonEscapeLsp :: "bytes option \<Rightarrow> bytes" where
  "jsonEscapeLsp s0 = (case s0 of None \<Rightarrow> [] | Some s \<Rightarrow> jsonEscapeString s)"

definition position_params :: "bytes option \<Rightarrow> int \<Rightarrow> int \<Rightarrow> bytes" where
  "position_params uri line column =
     ''{'' @ dq ''textDocument'' @ '':{'' @ dq ''uri'' @ '':'' @ dq (jsonEscapeLsp uri) @ ''},'' @
     dq ''position'' @ '':{'' @ dq ''line'' @ '':'' @ to_string_int line @ '','' @
     dq ''character'' @ '':'' @ to_string_int column @ ''}'' @ ''}''"

definition open_params :: "bytes option \<Rightarrow> bytes option \<Rightarrow> bytes" where
  "open_params uri source_text =
     ''{'' @ dq ''textDocument'' @ '':{'' @ dq ''uri'' @ '':'' @ dq (jsonEscapeLsp uri) @ '','' @
     dq ''languageId'' @ '':'' @ dq ''python'' @ '','' @ dq ''version'' @ '':1,'' @
     dq ''text'' @ '':'' @ dq (jsonEscapeLsp source_text) @ ''}}''"

definition symbol_params :: "bytes option \<Rightarrow> bytes" where
  "symbol_params uri =
     ''{'' @ dq ''textDocument'' @ '':{'' @ dq ''uri'' @ '':'' @ dq (jsonEscapeLsp uri) @ ''}'' @ ''}''"

section \<open>The reading loop\<close>

definition kMaxResponseBytes :: nat where
  "kMaxResponseBytes = 2 ^ 20"

datatype read_event =
    PollTimeout
  | PollFailed
  | WouldBlock
  | ReadFailed
  | Closed
  | Chunk bytes bool

datatype read_outcome =
    Answer bytes
  | Failed bytes
  | Waiting

text \<open>A frame that is taken or skipped removes at least the four bytes of its header end.\<close>

lemma takeNext_shrinks:
  "takeNextLspMessage buffer = (f, rest) \<Longrightarrow> f \<noteq> NeedMore \<Longrightarrow> length rest < length buffer"
proof -
  assume take: "takeNextLspMessage buffer = (f, rest)" and f: "f \<noteq> NeedMore"
  then obtain h where h: "str_find header_stop buffer = Some h"
    by (cases "str_find header_stop buffer") (auto simp: takeNextLspMessage_def)
  then have "prefix header_stop (drop h buffer)" by (simp add: str_find_Some_iff)
  then have "buffer \<noteq> []" by (auto simp: header_stop_def)
  with take f h show ?thesis
    by (auto simp: takeNextLspMessage_def Let_def split: option.splits if_splits)
qed

text \<open>The inner \<open>for (;;)\<close>: the response that answers, or \<open>None\<close> when more bytes are needed.\<close>

function drain :: "int \<Rightarrow> bytes \<Rightarrow> bytes option \<times> bytes" where
  "drain expected_id buffer =
     (case takeNextLspMessage buffer of
        (Message body, rest) \<Rightarrow>
          if isResponseFor body expected_id then (Some body, rest) else drain expected_id rest
      | (Skipped, rest) \<Rightarrow> drain expected_id rest
      | (NeedMore, rest) \<Rightarrow> (None, rest))"
  by pat_completeness auto
termination
  by (relation "measure (\<lambda>(i, buffer). length buffer)") (auto dest!: takeNext_shrinks [OF sym])

declare drain.simps [simp del]

text \<open>\<open>buffer += buf\<close> stops at the first NUL byte of the chunk.\<close>

definition c_string :: "bytes \<Rightarrow> bytes" where
  "c_string s = takeWhile (\<lambda>c. c \<noteq> CHR 0x00) s"

fun readResponse :: "int \<Rightarrow> read_event list \<Rightarrow> bytes \<Rightarrow> read_outcome \<times> bytes \<times> read_event list" where
  "readResponse i [] buffer = (Waiting, buffer, [])"
| "readResponse i (PollTimeout # es) buffer = (Failed ''timeout waiting for LSP response'', buffer, es)"
| "readResponse i (PollFailed # es) buffer = (Failed ''poll() failed'', buffer, es)"
| "readResponse i (WouldBlock # es) buffer = readResponse i es buffer"
| "readResponse i (ReadFailed # es) buffer = (Failed ''read from LSP server failed'', buffer, es)"
| "readResponse i (Closed # es) buffer = (Failed ''LSP server closed connection'', buffer, es)"
| "readResponse i (Chunk buf late # es) buffer =
     (case drain i (buffer @ c_string buf) of
        (Some body, rest) \<Rightarrow> (Answer body, rest, es)
      | (None, rest) \<Rightarrow>
          if kMaxResponseBytes < length rest then (Failed ''response too large'', rest, es)
          else if late then (Failed ''timeout'', rest, es)
          else readResponse i es rest)"

section \<open>The client\<close>

record lsp_client =
  pid :: int
  stdin_fd :: int
  stdout_fd :: int
  req_id :: int
  client_error :: bytes
  read_buffer :: bytes

definition isRunning :: "lsp_client \<Rightarrow> bool" where
  "isRunning c \<longleftrightarrow> 0 < pid c"

text \<open>
  Writing to the pipe: a wait that ends with the deadline, a \<open>write\<close> that takes some bytes,
  is interrupted or fails.  An error of the first \<open>write\<close> is not looked at: the retry loop
  starts over with the whole message.  The first component is what the pipe received.
\<close>

datatype write_event = NotWritable | Wrote nat | Interrupted | WriteError

datatype send_outcome = Sent | SendFailed bytes | SendWaiting

fun write_rest :: "write_event list \<Rightarrow> bytes \<Rightarrow> bytes \<Rightarrow> bytes \<times> send_outcome" where
  "write_rest ws sent [] = (sent, Sent)"
| "write_rest [] sent (m # ms) = (sent, SendWaiting)"
| "write_rest (NotWritable # ws) sent (m # ms) = (sent, SendFailed ''timeout writing to LSP server'')"
| "write_rest (WriteError # ws) sent (m # ms) = (sent, SendFailed ''write to LSP server failed'')"
| "write_rest (Interrupted # ws) sent (m # ms) = write_rest ws sent (m # ms)"
| "write_rest (Wrote n # ws) sent (m # ms) = write_rest ws (sent @ take n (m # ms)) (drop n (m # ms))"

definition write_message :: "write_event list \<Rightarrow> bytes \<Rightarrow> bytes \<times> send_outcome" where
  "write_message ws msg =
     (case ws of
        [] \<Rightarrow> ([], SendWaiting)
      | NotWritable # _ \<Rightarrow> ([], SendFailed ''timeout writing to LSP server'')
      | Wrote n # ws' \<Rightarrow> write_rest ws' (take n msg) (drop n msg)
      | _ # ws' \<Rightarrow> write_rest ws' [] msg)"

definition sendMessage :: "bytes \<Rightarrow> write_event list \<Rightarrow> lsp_client \<Rightarrow> bool \<times> bytes \<times> lsp_client" where
  "sendMessage body ws c =
     (if stdin_fd c < 0 then (False, [], c\<lparr>client_error := ''stdin pipe not available''\<rparr>)
      else case write_message ws (wrapLspMessage body) of
        (sent, Sent) \<Rightarrow> (True, sent, c)
      | (sent, SendFailed e) \<Rightarrow> (False, sent, c\<lparr>client_error := e\<rparr>)
      | (sent, SendWaiting) \<Rightarrow> (False, sent, c))"

definition client_read :: "int \<Rightarrow> read_event list \<Rightarrow> lsp_client \<Rightarrow> bytes \<times> lsp_client" where
  "client_read i es c =
     (if stdout_fd c < 0 then ([], c)
      else case readResponse i es (read_buffer c) of
        (Answer body, rest, _) \<Rightarrow> (body, c\<lparr>read_buffer := rest\<rparr>)
      | (Failed e, rest, _) \<Rightarrow> ([], c\<lparr>read_buffer := rest, client_error := e\<rparr>)
      | (Waiting, rest, _) \<Rightarrow> ([], c\<lparr>read_buffer := rest\<rparr>))"

definition query ::
  "bytes \<Rightarrow> bytes \<Rightarrow> write_event list \<Rightarrow> read_event list \<Rightarrow> lsp_client \<Rightarrow> bytes \<times> lsp_client" where
  "query meth params ws es c =
     (if \<not> isRunning c then ([], c)
      else case sendMessage (buildJsonRpc meth params (req_id c)) ws c of
        (False, _, c') \<Rightarrow> ([], c')
      | (True, _, c') \<Rightarrow>
          (case client_read (req_id c') es c' of
             (resp, c'') \<Rightarrow> (resp, c''\<lparr>req_id := req_id c'' + 1\<rparr>)))"

definition queryDefinition ::
  "bytes option \<Rightarrow> int \<Rightarrow> int \<Rightarrow> write_event list \<Rightarrow> read_event list \<Rightarrow> lsp_client \<Rightarrow> bytes \<times> lsp_client" where
  "queryDefinition uri line column = query ''textDocument/definition'' (position_params uri line column)"

definition queryHover ::
  "bytes option \<Rightarrow> int \<Rightarrow> int \<Rightarrow> write_event list \<Rightarrow> read_event list \<Rightarrow> lsp_client \<Rightarrow> bytes \<times> lsp_client" where
  "queryHover uri line column = query ''textDocument/hover'' (position_params uri line column)"

definition queryDocumentSymbols ::
  "bytes option \<Rightarrow> write_event list \<Rightarrow> read_event list \<Rightarrow> lsp_client \<Rightarrow> bytes \<times> lsp_client" where
  "queryDocumentSymbols uri = query ''textDocument/documentSymbol'' (symbol_params uri)"

definition openDocument :: "bytes option \<Rightarrow> bytes option \<Rightarrow> write_event list \<Rightarrow> lsp_client \<Rightarrow> bool \<times> lsp_client" where
  "openDocument uri source_text ws c =
     (if \<not> isRunning c then (False, c\<lparr>client_error := ''server not running''\<rparr>)
      else case sendMessage (buildNotification ''textDocument/didOpen'' (open_params uri source_text)) ws c of
        (ok, _, c') \<Rightarrow> (ok, c'))"

section \<open>Reading responses\<close>

abbreviation field :: "bytes \<Rightarrow> bytes" where
  "field k \<equiv> quote_char # k @ [quote_char, CHR '':'']"

text \<open>The two symbol parsers share their walk: a name, and the text of the first field after
  it that the second argument names, up to a comma or a brace.  They differ in the field and
  in what they do with its text.\<close>

definition next_name :: "bytes \<Rightarrow> (bytes \<times> bytes) option" where
  "next_name s =
     (case str_find (field ''name'' @ [quote_char]) s of
        None \<Rightarrow> None
      | Some pos \<Rightarrow>
          (let r = drop (pos + 8) s; name = takeWhile (\<lambda>c. c \<noteq> quote_char) r in
           if name = r then None else Some (name, drop (length name) r)))"

definition field_text :: "bytes \<Rightarrow> bool \<Rightarrow> bytes \<Rightarrow> bytes option" where
  "field_text k skip_blanks s =
     (case str_find (field k) s of
        None \<Rightarrow> None
      | Some pos \<Rightarrow>
          (let r0 = drop (pos + length (field k)) s;
               r = (if skip_blanks then dropWhile (\<lambda>c. c = CHR '' '') r0 else r0);
               v = takeWhile (\<lambda>c. c \<noteq> CHR '','' \<and> c \<noteq> CHR ''}'') r
           in if v = r then None else Some v))"

lemma next_name_shrinks: "next_name s = Some (name, r) \<Longrightarrow> length r < length s"
proof -
  assume a: "next_name s = Some (name, r)"
  then obtain pos where p: "str_find (field ''name'' @ [quote_char]) s = Some pos"
    by (cases "str_find (field ''name'' @ [quote_char]) s") (auto simp: next_name_def)
  then have "prefix (field ''name'' @ [quote_char]) (drop pos s)" by (simp add: str_find_Some_iff)
  then have "s \<noteq> []" by auto
  with a p show ?thesis by (auto simp: next_name_def Let_def split: if_splits)
qed

function parseDocumentSymbols :: "bytes \<Rightarrow> (bytes \<Rightarrow> int option) \<Rightarrow> bytes \<Rightarrow> int option" where
  "parseDocumentSymbols s syms =
     (case next_name s of
        None \<Rightarrow> syms
      | Some (name, r) \<Rightarrow>
          (case field_text ''kind'' True r of
             None \<Rightarrow> syms
           | Some v \<Rightarrow> parseDocumentSymbols r (syms(name \<mapsto> atoi v))))"
  by pat_completeness auto
termination
  by (relation "measure (\<lambda>(s, syms). length s)") (auto dest: next_name_shrinks)

function parseSymbolLocations :: "bytes \<Rightarrow> (bytes \<Rightarrow> bytes option) \<Rightarrow> bytes \<Rightarrow> bytes option" where
  "parseSymbolLocations s locs =
     (case next_name s of
        None \<Rightarrow> locs
      | Some (name, r) \<Rightarrow>
          (case field_text ''line'' False r of
             None \<Rightarrow> locs
           | Some v \<Rightarrow> parseSymbolLocations r (locs(name \<mapsto> ''line:'' @ v))))"
  by pat_completeness auto
termination
  by (relation "measure (\<lambda>(s, locs). length s)") (auto dest: next_name_shrinks)

declare parseDocumentSymbols.simps [simp del] parseSymbolLocations.simps [simp del]

text \<open>A string value taken up to the next quote, escaped or not.\<close>

definition quoted_value :: "bytes \<Rightarrow> bytes \<Rightarrow> bytes option" where
  "quoted_value marker s =
     (case str_find marker s of
        None \<Rightarrow> None
      | Some pos \<Rightarrow>
          (let r = drop (pos + length marker) s; v = takeWhile (\<lambda>c. c \<noteq> quote_char) r in
           if v = r then None else Some v))"

definition extractTargetUri :: "bytes \<Rightarrow> bytes" where
  "extractTargetUri response_body =
     (if response_body = [] then []
      else if str_contains (field ''result'' @ ''null'') response_body then []
      else case quoted_value (field ''uri'' @ [quote_char]) response_body of
             None \<Rightarrow> []
           | Some uri \<Rightarrow> if take 7 uri = ''file://'' then drop 7 uri else uri)"

definition extractHoverContent :: "bytes \<Rightarrow> bytes" where
  "extractHoverContent response_body =
     (if response_body = [] then []
      else case quoted_value (field ''value'' @ [quote_char]) response_body of
             Some v \<Rightarrow> v
           | None \<Rightarrow>
               (case quoted_value (field ''contents'' @ [quote_char]) response_body of
                  Some v \<Rightarrow> v
                | None \<Rightarrow> []))"

text \<open>\<open>isAvailable\<close> on POSIX; \<open>accessible\<close> is \<open>access(path, X_OK) == 0\<close>, and the pieces of
  \<open>PATH\<close> are cut at every colon, an empty last one included.\<close>

definition isAvailable :: "(bytes \<Rightarrow> bool) \<Rightarrow> bytes option \<Rightarrow> bytes option \<Rightarrow> bool" where
  "isAvailable accessible path_env command =
     (case command of
        None \<Rightarrow> False
      | Some [] \<Rightarrow> False
      | Some (c # cs) \<Rightarrow>
          if c = CHR ''/'' then accessible (c # cs)
          else case path_env of
            None \<Rightarrow> False
          | Some p \<Rightarrow> list_ex (\<lambda>d. accessible (d @ CHR ''/'' # c # cs)) (split_all (CHR '':'') p))"

section \<open>One frame\<close>

lemma str_find_absent_head:
  assumes "sub = x # ys" and "x \<notin> set s"
  shows "str_find sub s = None"
  using assms(2) by (induction s) (auto simp: assms(1))

lemma str_find_append_head:
  assumes "sub = x # ys" and "x \<notin> set pre"
  shows "str_find sub (pre @ s) = map_option (\<lambda>i. i + length pre) (str_find sub s)"
  using assms(2)
proof (induction pre)
  case (Cons c pre)
  then have "\<not> prefix sub (c # pre @ s)" using assms(1) by auto
  then show ?case using Cons by (simp add: option.map_comp comp_def)
qed (simp add: option.map_ident)

lemma header_stop_Cons: "header_stop = cr # [lf, cr, lf]"
  by (simp add: header_stop_def)

definition frame_head :: "nat \<Rightarrow> bytes" where
  "frame_head n = ''Content-Length: '' @ to_string_nat n"

lemma frame_head_no_cr: "cr \<notin> set (frame_head n)"
  using nat_digits_isdigit [of cr n] by (auto simp: frame_head_def isdigit_c_def)

lemma wrap_frame: "wrapLspFramed body = frame_head (length body) @ header_stop @ body"
  by (simp add: wrapLspFramed_def frame_head_def)

lemma wrap_same: "wrapLspMessage body = wrapLspFramed body"
  by (simp add: wrapLspMessage_def wrapLspFramed_def header_stop_def)

lemma atoi_nat: "atoi (to_string_nat n) = int n"
proof -
  obtain c cs where n: "to_string_nat n = c # cs" by (metis nat_digits_nonempty neq_Nil_conv)
  then have "isdigit_c c" using nat_digits_isdigit [of c n] by simp
  then have c: "\<not> isspace_c c" "c \<noteq> CHR ''-''" "c \<noteq> CHR ''+''" by (auto simp: isdigit_c_def isspace_c_def)
  have "takeWhile isdigit_c (to_string_nat n) = to_string_nat n"
    using nat_digits_isdigit by (simp add: takeWhile_eq_all_conv)
  then show ?thesis using c by (simp add: atoi_def Let_def n) (simp flip: n)
qed

lemma takeNext_head:
  "takeNextLspMessage (frame_head n @ header_stop @ t) =
     (if n = 0 then (Skipped, t)
      else if length t < n then (NeedMore, frame_head n @ header_stop @ t)
      else (Message (take n t), drop n t))"
proof -
  let ?b = "frame_head n @ header_stop @ t"
  have find: "str_find header_stop ?b = Some (length (frame_head n))"
    by (subst str_find_append_head [OF header_stop_Cons frame_head_no_cr]) (simp add: header_stop_def)
  have field: "str_find length_field ?b = Some 0"
    by (simp add: frame_head_def length_field_def)
  obtain c cs where n: "to_string_nat n = c # cs" by (metis nat_digits_nonempty neq_Nil_conv)
  then have "isdigit_c c" using nat_digits_isdigit [of c n] by simp
  then have c: "c \<noteq> CHR '' ''" by (auto simp: isdigit_c_def)
  have v: "dropWhile (\<lambda>c. c = CHR '' '') (drop 15 ?b) = to_string_nat n @ header_stop @ t"
    using c by (simp add: frame_head_def n)
  have val: "takeWhile (\<lambda>c. c \<noteq> cr \<and> c \<noteq> lf) (to_string_nat n @ header_stop @ t) = to_string_nat n"
    by (rule takeWhile_append_stop)
      (auto dest: nat_digits_isdigit simp: isdigit_c_def header_stop_def)
  have drop: "drop (length (frame_head n) + 4 + k) ?b = drop k t" for k
    by (simp add: header_stop_def numeral_eq_Suc)
  have len: "length ?b = length (frame_head n) + 4 + length t"
    by (simp add: header_stop_def)
  have ne: "to_string_nat n \<noteq> to_string_nat n @ header_stop @ t"
    by (simp add: header_stop_def)
  have body: "drop (length (frame_head n) + 4) ?b = t" using drop [of 0] by simp
  show ?thesis
    unfolding takeNextLspMessage_def find option.case field Let_def add_0_left v val atoi_nat body drop len
    by (simp only: ne if_False less_nat_zero_code of_nat_le_0_iff nat_int add_less_cancel_left)
qed

lemma take_frame: "body \<noteq> [] \<Longrightarrow> takeNextLspMessage (wrapLspFramed body @ rest) = (Message body, rest)"
  using takeNext_head [of "length body" "body @ rest"] by (simp add: wrap_frame)

lemma take_partial:
  assumes "wrapLspFramed body = buffer @ missing" and "missing \<noteq> []"
  shows "takeNextLspMessage buffer = (NeedMore, buffer)"
proof -
  let ?h = "frame_head (length body)"
  have eq: "(?h @ header_stop) @ body = buffer @ missing" using assms(1) by (simp add: wrap_frame)
  consider (inside) t where "buffer = (?h @ header_stop) @ t" "body = t @ missing"
    | (head) us where "?h @ header_stop = buffer @ us" "us \<noteq> []"
  proof -
    obtain us where "(?h @ header_stop = buffer @ us \<and> us @ body = missing) \<or>
        ((?h @ header_stop) @ us = buffer \<and> body = us @ missing)"
      using eq unfolding append_eq_append_conv2 by blast
    then show ?thesis
      using that(1) [of us] that(1) [of "[]"] that(2) [of us] by (cases "us = []") auto
  qed
  then show ?thesis
  proof cases
    case inside
    then show ?thesis using takeNext_head [of "length body" t] assms(2) by auto
  next
    case head
    then consider ws where "?h = buffer @ ws" | ws where "buffer = ?h @ ws" "header_stop = ws @ us"
      unfolding append_eq_append_conv2 by blast
    then have "str_find header_stop buffer = None"
    proof cases
      case 1
      then have "cr \<notin> set buffer" using frame_head_no_cr by (metis in_set_conv_decomp append.assoc append_Cons)
      then show ?thesis by (rule str_find_absent_head [OF header_stop_Cons])
    next
      case 2
      have "length ws < length header_stop" unfolding 2(2) using head(2) by simp
      then have "str_find header_stop ws = None"
        by (cases ws rule: rev_cases) (auto simp: str_find_None_iff header_stop_def dest: prefix_length_le)
      then show ?thesis using 2 str_find_append_head [OF header_stop_Cons frame_head_no_cr] by simp
    qed
    then show ?thesis by (simp add: takeNextLspMessage_def)
  qed
qed

section \<open>The stream\<close>

definition stream :: "bytes list \<Rightarrow> bytes" where
  "stream bodies = concat (map wrapLspFramed bodies)"

lemma stream_simps [simp]: "stream [] = []" "stream (b # bs) = wrapLspFramed b @ stream bs"
  by (simp_all add: stream_def)

lemma drain_step:
  "b \<noteq> [] \<Longrightarrow> drain i (wrapLspFramed b @ r) = (if isResponseFor b i then (Some b, r) else drain i r)"
  by (subst drain.simps) (simp add: take_frame)

lemma drain_more: "takeNextLspMessage buffer = (NeedMore, buffer) \<Longrightarrow> drain i buffer = (None, buffer)"
  by (subst drain.simps) simp

text \<open>What is left of the stream when the loop stops: nothing that has not been answered or
  skipped is lost, and a loop that wants more bytes has taken every complete frame.\<close>

definition drained :: "int \<Rightarrow> bytes list \<Rightarrow> bytes option \<times> bytes \<Rightarrow> bytes \<Rightarrow> bool" where
  "drained i bs res rest \<longleftrightarrow>
     (case res of
        (Some b, r) \<Rightarrow> \<exists>pre post. bs = pre @ b # post \<and> isResponseFor b i \<and>
            list_all (\<lambda>x. \<not> isResponseFor x i) pre \<and> r @ rest = stream post
      | (None, r) \<Rightarrow> \<exists>pre post. bs = pre @ post \<and> list_all (\<lambda>x. \<not> isResponseFor x i) pre \<and>
            r @ rest = stream post \<and> (rest = [] \<longrightarrow> post = []))"

lemma drained_Cons: "\<not> isResponseFor b i \<Longrightarrow> drained i bs res rest \<Longrightarrow> drained i (b # bs) res rest"
  unfolding drained_def
  by (cases res; cases "fst res") (auto, (metis append_Cons list.pred_inject(2))+)

lemma drain_stream:
  assumes "buffer @ rest = stream bs" and "[] \<notin> set bs"
  shows "drained i bs (drain i buffer) rest"
  using assms
proof (induction bs arbitrary: buffer)
  case Nil
  then have "buffer = []" "rest = []" by auto
  moreover have "drain i [] = (None, [])"
    by (rule drain_more) (simp add: takeNextLspMessage_def header_stop_def)
  ultimately show ?case by (simp add: drained_def)
next
  case (Cons b bs)
  then have b: "b \<noteq> []" by auto
  from Cons.prems(1) have "buffer @ rest = wrapLspFramed b @ stream bs" by simp
  then consider (whole) r where "buffer = wrapLspFramed b @ r" "r @ rest = stream bs"
    | (part) missing where "wrapLspFramed b = buffer @ missing" "missing \<noteq> []" "rest = missing @ stream bs"
    unfolding append_eq_append_conv2 by (metis append_Nil append_Nil2)
  then show ?case
  proof cases
    case whole
    show ?thesis
    proof (cases "isResponseFor b i")
      case True
      have "[b] @ bs = [] @ b # bs" by simp
      with True show ?thesis
        using whole b by (auto simp: drain_step drained_def intro: exI [of _ "[]"])
    next
      case False
      then show ?thesis
        using whole b Cons by (simp add: drain_step drained_Cons)
    qed
  next
    case part
    then have more: "drain i buffer = (None, buffer)" by (intro drain_more take_partial)
    show ?thesis
      unfolding more drained_def prod.case option.case
      by (rule exI [of _ "[]"], rule exI [of _ "b # bs"]) (use part Cons.prems(1) in simp)
  qed
qed

definition clean_chunk :: "bytes \<Rightarrow> bool" where
  "clean_chunk c \<longleftrightarrow> CHR 0x00 \<notin> set c"

lemma c_string_clean: "clean_chunk c \<Longrightarrow> c_string c = c"
  by (auto simp: clean_chunk_def c_string_def takeWhile_eq_all_conv)

lemma read_stream:
  assumes "buffer @ concat cs = stream bs" and "[] \<notin> set bs" and "list_all clean_chunk cs"
    and "length (stream bs) \<le> kMaxResponseBytes"
    and "bs = pre @ b # post" and "isResponseFor b i" and "list_all (\<lambda>x. \<not> isResponseFor x i) pre"
    and "cs \<noteq> []"
  shows "\<exists>r cs'. readResponse i (map (\<lambda>c. Chunk c False) cs) buffer = (Answer b, r, map (\<lambda>c. Chunk c False) cs')
    \<and> r @ concat cs' = stream post"
  using assms
proof (induction cs arbitrary: buffer bs pre)
  case Nil
  then show ?case by simp
next
  case (Cons c cs)
  have c: "c_string c = c" using Cons.prems(3) by (simp add: c_string_clean)
  have d: "drained i bs (drain i (buffer @ c)) (concat cs)"
    using Cons.prems(1,2) by (intro drain_stream) simp_all
  obtain o1 r where res: "drain i (buffer @ c) = (o1, r)" by fastforce
  show ?case
  proof (cases o1)
    case (Some x)
    then obtain p q where pq: "bs = p @ x # q" "isResponseFor x i" "list_all (\<lambda>x. \<not> isResponseFor x i) p"
        "r @ concat cs = stream q"
      using d res by (auto simp: drained_def)
    have "p = pre \<and> x = b \<and> q = post"
      using pq(1-3) Cons.prems(5-7) by (auto simp: append_eq_append_conv2 append_eq_Cons_conv Cons_eq_append_conv)
    then show ?thesis using res Some c pq(4) by auto
  next
    case None
    then obtain p q where pq: "bs = p @ q" "list_all (\<lambda>x. \<not> isResponseFor x i) p"
        "r @ concat cs = stream q" "concat cs = [] \<longrightarrow> q = []"
      using d res by (auto simp: drained_def)
    then obtain us where q: "q = us @ b # post" "pre = p @ us"
      using Cons.prems(5-7) by (auto simp: append_eq_append_conv2 append_eq_Cons_conv Cons_eq_append_conv)
    then have "cs \<noteq> []" using pq(4) by auto
    have "length (stream q) \<le> length (stream bs)" by (simp add: pq(1) stream_def)
    then have len: "length (stream q) \<le> kMaxResponseBytes" using Cons.prems(4) by linarith
    have "length r \<le> length (stream q)" unfolding pq(3) [symmetric] by simp
    with len have small: "\<not> kMaxResponseBytes < length r" by linarith
    have "[] \<notin> set q" using Cons.prems(2) pq(1) by auto
    moreover have "list_all (\<lambda>x. \<not> isResponseFor x i) us" using Cons.prems(7) q(2) by simp
    ultimately show ?thesis
      using Cons.IH [of r q us] pq(3) Cons.prems(3,6) len q(1) \<open>cs \<noteq> []\<close> res None c small by simp
  qed
qed

section \<open>Writing\<close>

lemma write_rest_prefix:
  "case write_rest ws sent ms of (sent', res) \<Rightarrow>
     (res = Sent \<longrightarrow> sent' = sent @ ms) \<and> prefix sent' (sent @ ms)"
proof (induction ws sent ms rule: write_rest.induct)
  case (6 n ws sent m ms)
  have "sent @ take n (m # ms) @ drop n (m # ms) = sent @ m # ms" by simp
  with 6 show ?case by (simp add: split_beta)
qed (auto split: prod.splits)

lemma write_message_prefix:
  "case write_message ws msg of (sent', res) \<Rightarrow> (res = Sent \<longrightarrow> sent' = msg) \<and> prefix sent' msg"
proof (cases ws)
  case (Cons w ws')
  then show ?thesis
    using write_rest_prefix [where ws = ws' and sent = "take n msg" and ms = "drop n msg" for n]
      write_rest_prefix [where ws = ws' and sent = "[]" and ms = msg]
    by (cases w) (auto simp: write_message_def split_beta)
qed (simp add: write_message_def)

section \<open>Requests are JSON\<close>

lemma escape_ident: "list_all (\<lambda>c. esc_char c = [c]) s \<Longrightarrow> jsonEscapeString s = s"
  by (induction s) (simp_all add: jsonEscapeString_def)

lemma dq_quoted: "list_all (\<lambda>c. esc_char c = [c]) s \<Longrightarrow> dq s = quoted s"
  by (simp add: dq_def quoted_def escape_ident)

lemma dq_escaped: "dq (jsonEscapeLsp (Some s)) = quoted s"
  by (simp add: dq_def quoted_def jsonEscapeLsp_def)

lemma dq_render: "quoted s = render (JString s)"
  by simp

definition request_json :: "bytes \<Rightarrow> json \<Rightarrow> int \<Rightarrow> json" where
  "request_json meth params i = JObject
     [(''jsonrpc'', JString ''2.0''), (''id'', JNumber (of_int i)), (''method'', JString meth), (''params'', params)]"

definition position_json :: "bytes \<Rightarrow> int \<Rightarrow> int \<Rightarrow> json" where
  "position_json uri line column = JObject
     [(''textDocument'', JObject [(''uri'', JString uri)]),
      (''position'', JObject [(''line'', JNumber (of_int line)), (''character'', JNumber (of_int column))])]"

definition open_json :: "bytes \<Rightarrow> bytes \<Rightarrow> json" where
  "open_json uri source_text = JObject
     [(''textDocument'', JObject [(''uri'', JString uri), (''languageId'', JString ''python''),
        (''version'', JNumber 1), (''text'', JString source_text)])]"

lemmas plain_key = escape_ident [unfolded list_all_iff]

lemma request_render:
  "list_all (\<lambda>c. esc_char c = [c]) meth \<Longrightarrow>
   buildJsonRpc meth (render p) i = render (request_json meth p i)"
  by (simp add: buildJsonRpc_def request_json_def dq_def render_member_def quoted_def escape_ident)
    (simp add: jsonEscapeString_def esc_char_def)

lemma position_render: "position_params (Some uri) line column = render (position_json uri line column)"
  by (simp add: position_params_def position_json_def render_member_def dq_escaped)
    (simp add: dq_def quoted_def jsonEscapeString_def esc_char_def)

lemma to_string_one: "to_string_int 1 = ''1''"
  by code_simp

lemma open_render: "open_params (Some uri) (Some t) = render (open_json uri t)"
  by (simp add: open_params_def open_json_def render_member_def dq_escaped)
    (simp add: dq_def quoted_def jsonEscapeString_def esc_char_def to_string_one)

lemma position_json_ok:
  assumes "- (2 ^ 31) \<le> line \<and> line < 2 ^ 31" and "- (2 ^ 31) \<le> column \<and> column < 2 ^ 31"
    and "- (2 ^ 31) \<le> i \<and> i < 2 ^ 31"
  shows "parse_json (render (request_json meth (position_json uri line column) i)) =
    Inr (request_json meth (position_json uri line column) i)"
  by (rule parse_json_render)
    (use assms in \<open>auto simp: request_json_def position_json_def kMaxDepth_def intro!: exact_double_of_int32\<close>)

section \<open>Properties\<close>

text \<open>
  (C35) Responses survive any chunking of the stream: when the server's messages arrive cut
  into arbitrary chunks, notifications and answers to other requests interleaved,
  \<open>readResponse\<close> returns the first message that answers the request, and what it keeps in
  the buffer together with the chunks it did not read is exactly the rest of the stream.
\<close>

theorem read_response_any_chunking:
  assumes "concat cs = stream (pre @ b # post)" and "cs \<noteq> []" and "list_all clean_chunk cs"
    and "[] \<notin> set (pre @ b # post)" and "length (stream (pre @ b # post)) \<le> kMaxResponseBytes"
    and "isResponseFor b i" and "list_all (\<lambda>x. \<not> isResponseFor x i) pre"
  shows "\<exists>r cs'. readResponse i (map (\<lambda>c. Chunk c False) cs) [] = (Answer b, r, map (\<lambda>c. Chunk c False) cs')
    \<and> r @ concat cs' = stream post"
  using read_stream [of "[]" cs "pre @ b # post" pre b post i] assms by simp

definition sample_note :: bytes where
  "sample_note = ''{'' @ dq ''method'' @ '':'' @ dq ''log'' @ ''}''"

definition sample_reply :: bytes where
  "sample_reply = ''{'' @ dq ''id'' @ '':7}''"

theorem read_response_any_chunking_witness:
  "fst (readResponse 7 [Chunk (take 9 (wrapLspFramed sample_note)) False,
      Chunk (drop 9 (wrapLspFramed sample_note) @ wrapLspFramed sample_reply) False] []) = Answer sample_reply"
proof -
  let ?cs = "[take 9 (wrapLspFramed sample_note), drop 9 (wrapLspFramed sample_note) @ wrapLspFramed sample_reply]"
  have concat: "concat ?cs = stream ([sample_note] @ sample_reply # [])" by simp
  have clean: "list_all clean_chunk ?cs" by code_simp
  have len: "length (stream ([sample_note] @ sample_reply # [])) \<le> kMaxResponseBytes"
    by (simp add: wrap_frame frame_head_def header_stop_def sample_note_def sample_reply_def dq_def
        kMaxResponseBytes_def nat_digits.simps)
  have rest: "[] \<notin> set ([sample_note] @ sample_reply # [])" "isResponseFor sample_reply 7"
    "list_all (\<lambda>x. \<not> isResponseFor x 7) [sample_note]" by code_simp+
  show ?thesis using read_response_any_chunking [OF concat _ clean rest(1) len rest(2,3)] by auto
qed

text \<open>
  Framing round trip: a message wrapped by the client, followed by anything, is taken
  back whole, and exactly its bytes are consumed; cut short at any point it asks for more
  bytes and consumes nothing.
\<close>

theorem lsp_framing_roundtrip:
  assumes "body \<noteq> []"
  shows "takeNextLspMessage (wrapLspFramed body @ rest) = (Message body, rest) \<and>
    (\<forall>k < length (wrapLspFramed body).
       takeNextLspMessage (take k (wrapLspFramed body)) = (NeedMore, take k (wrapLspFramed body)))"
proof -
  have "takeNextLspMessage (take k (wrapLspFramed body)) = (NeedMore, take k (wrapLspFramed body))"
    if "k < length (wrapLspFramed body)" for k
    by (rule take_partial [of body _ "drop k (wrapLspFramed body)"]) (use that in simp_all)
  then show ?thesis using assms by (simp add: take_frame)
qed

theorem lsp_framing_roundtrip_witness:
  "takeNextLspMessage (wrapLspFramed ''{}'' @ ''tail'') = (Message ''{}'', ''tail'')"
  using lsp_framing_roundtrip [of "''{}''" "''tail''"] by simp

text \<open>
  Writing is all or nothing to the caller: whatever short writes, interruptions and errors
  occur, what the pipe received is a prefix of the framed message, and \<open>sendMessage\<close>
  reports success only when the server received the whole message.
\<close>

theorem send_message_complete:
  "case sendMessage body ws c of (ok, sent, c') \<Rightarrow>
     prefix sent (wrapLspFramed body) \<and> (ok \<longrightarrow> sent = wrapLspFramed body \<and> c' = c)"
  using write_message_prefix [where ws = ws and msg = "wrapLspMessage body"]
  by (auto simp: sendMessage_def wrap_same split: prod.splits send_outcome.splits)

theorem send_message_complete_witness:
  "case sendMessage ''{}'' [Wrote 5, Interrupted, Wrote 100] \<lparr>pid = 1, stdin_fd = 3, stdout_fd = 4, req_id = 1,
      client_error = [], read_buffer = []\<rparr> of (ok, sent, c') \<Rightarrow> ok \<and> sent = wrapLspFramed ''{}''"
proof -
  let ?c = "\<lparr>pid = 1, stdin_fd = 3, stdout_fd = 4, req_id = 1, client_error = [], read_buffer = []\<rparr>"
  have "fst (sendMessage ''{}'' [Wrote 5, Interrupted, Wrote 100] ?c)" by code_simp
  then show ?thesis
    using send_message_complete [where body = "''{}''" and ws = "[Wrote 5, Interrupted, Wrote 100]" and c = ?c] by (auto split: prod.splits)
qed

text \<open>
  The requests are valid JSON for every document: whatever bytes the URI holds, the text
  of a definition or hover request is read back as the JSON-RPC object with that URI, line,
  column and request id.
\<close>

theorem position_request_valid:
  assumes "- (2 ^ 31) \<le> line \<and> line < 2 ^ 31" and "- (2 ^ 31) \<le> column \<and> column < 2 ^ 31"
    and "- (2 ^ 31) \<le> i \<and> i < 2 ^ 31" and "meth \<in> {''textDocument/definition'', ''textDocument/hover''}"
  shows "parse_json (buildJsonRpc meth (position_params (Some uri) line column) i) =
    Inr (request_json meth (position_json uri line column) i)"
proof -
  have "list_all (\<lambda>c. esc_char c = [c]) meth" using assms(4) by (auto simp: esc_char_def)
  then show ?thesis
    using position_json_ok [OF assms(1-3)] by (simp only: position_render request_render)
qed

theorem position_request_valid_witness:
  "parse_json (buildJsonRpc ''textDocument/hover'' (position_params (Some [quote_char, lf]) 3 4) 1) =
    Inr (request_json ''textDocument/hover'' (position_json [quote_char, lf] 3 4) 1)"
  by (rule position_request_valid) simp_all

text \<open>
  A header block without a length field stalls the reader: with such a block in front,
  \<open>takeNextLspMessage\<close> asks for more bytes however many complete messages follow, instead of
  skipping the block.
\<close>

theorem lsp_headers_without_length_stall:
  "takeNextLspMessage (''X: 1'' @ header_stop @ later) = (NeedMore, ''X: 1'' @ header_stop @ later)"
proof -
  let ?b = "''X: 1'' @ header_stop @ later"
  have stop: "str_find header_stop ?b = Some 4"
    by (subst str_find_append_head [OF header_stop_Cons]) (simp_all add: header_stop_def)
  have "length_field = CHR ''C'' # ''ontent-Length:''" by (simp add: length_field_def)
  moreover have "CHR ''C'' \<notin> set (''X: 1'' @ header_stop)" by (simp add: header_stop_def)
  ultimately have "str_find length_field ((''X: 1'' @ header_stop) @ later) =
      map_option (\<lambda>i. i + length (''X: 1'' @ header_stop)) (str_find length_field later)"
    by (rule str_find_append_head)
  moreover have "length (''X: 1'' @ header_stop) = 8" by (simp add: header_stop_def)
  ultimately have "str_find length_field ?b = map_option (\<lambda>i. i + 8) (str_find length_field later)"
    by (simp only: append_assoc)
  then show ?thesis
    unfolding takeNextLspMessage_def stop option.case
    by (cases "str_find length_field later") (simp_all only: option.map option.case, simp)
qed

text \<open>
  A notification whose parameters hold an id is taken for a response: the match looks for
  the first \<open>"id"\<close> anywhere in the text, not for the member of the top-level object.
\<close>

theorem notification_matched_as_response:
  "isResponseFor (buildNotification ''m'' (''{'' @ dq ''id'' @ '':7}'')) 7"
  by code_simp

end
