(* ===== verification/Parse_Failures.thy ===== *)
theory Parse_Failures
  imports Lsp
begin

text \<open>
  The record of files that could not be parsed (\<open>store/store_parse_failure.cpp\<close>), the parse worker that
  fills and obeys it (\<open>engine_index_project_membulk.cpp\<close>), and a run of the indexer as far as both are
  concerned.

  The table is the list of its rows; its primary key is project and path.  Both text columns that may be
  null by the schema are texts here, since every row comes from the insertion below, which binds a text.
  Whether a statement can be prepared, a step succeeds and a connection opens is a field of \<open>failure_env\<close>.
  Rows with the same \<open>last_seen\<close> are reported in the order of the table, for which SQLite gives no promise.
  The file system, the grammars, the parser and the visitors are the fields of \<open>world\<close>: a file does not
  change during a run, at least one worker thread starts, and the metrics of a file are left out.
\<close>

section \<open>Reasons\<close>

datatype fail_reason =
  ParseNullTree | ReadEmpty | StatFailed | FileTooLarge | VisitorException | VisitorUnknownThrow | LanguageMissing

definition failReasonToString :: "fail_reason \<Rightarrow> bytes" where
  "failReasonToString r =
     (case r of ParseNullTree \<Rightarrow> ''parse_null_tree'' | ReadEmpty \<Rightarrow> ''read_empty'' | StatFailed \<Rightarrow> ''stat_failed''
      | FileTooLarge \<Rightarrow> ''file_too_large'' | VisitorException \<Rightarrow> ''exception'' | VisitorUnknownThrow \<Rightarrow> ''unknown_throw''
      | LanguageMissing \<Rightarrow> ''language_missing'')"

abbreviation language_missing :: bytes where "language_missing \<equiv> failReasonToString LanguageMissing"

lemma failReason_inj [simp]: "failReasonToString a = failReasonToString b \<longleftrightarrow> a = b"
  by (cases a; cases b) (simp_all add: failReasonToString_def)

lemma exception_counts [simp]: "failReasonToString VisitorException @ s \<noteq> language_missing"
  by (simp add: failReasonToString_def)

section \<open>The table\<close>

record failure_row =
  pf_project :: nat
  pf_file :: bytes
  pf_language :: bytes
  pf_reason :: bytes
  pf_count :: int
  pf_first :: int
  pf_last :: int

record pending_failure =
  pd_project :: nat
  pd_file :: bytes
  pd_language :: bytes
  pd_reason :: bytes

record failure_env =
  has_db :: bool
  can_prepare :: bool
  can_begin :: bool
  can_step :: "nat \<Rightarrow> bool"
  can_commit :: bool
  stops_at :: "nat option"
  clock :: "nat \<Rightarrow> int"

definition fine :: "failure_env \<Rightarrow> bool" where
  "fine env \<longleftrightarrow> has_db env \<and> can_prepare env \<and> can_begin env \<and> (\<forall>i. can_step env i) \<and> can_commit env \<and> stops_at env = None"

text \<open>The insertion with \<open>ON CONFLICT(project_id, file_path) DO UPDATE\<close>; the language of the first time stays.\<close>

fun upsert_failure :: "int \<Rightarrow> pending_failure \<Rightarrow> failure_row list \<Rightarrow> failure_row list" where
  "upsert_failure now d [] =
     [\<lparr>pf_project = pd_project d, pf_file = pd_file d, pf_language = pd_language d, pf_reason = pd_reason d,
       pf_count = 1, pf_first = now, pf_last = now\<rparr>]"
| "upsert_failure now d (r # t) =
     (if pf_project r = pd_project d \<and> pf_file r = pd_file d
      then r\<lparr>pf_count := pf_count r + 1, pf_last := now, pf_reason := pd_reason d\<rparr> # t
      else r # upsert_failure now d t)"

definition recordParseFailure :: "failure_env \<Rightarrow> pending_failure \<Rightarrow> failure_row list \<Rightarrow> failure_row list" where
  "recordParseFailure env d t =
     (if \<not> has_db env then t else if \<not> can_prepare env then t
      else if can_step env 0 then upsert_failure (clock env 0) d t else t)"

definition read_rows :: "failure_env \<Rightarrow> 'a list \<Rightarrow> 'a list" where
  "read_rows env rows = (case stops_at env of None \<Rightarrow> rows | Some k \<Rightarrow> take k rows)"

text \<open>\<open>sqlite3_column_int\<close> gives the low 32 bits.\<close>

definition column_int :: "int \<Rightarrow> int" where
  "column_int i = sint (word_of_int i :: 32 word)"

definition isKnownParseFailure :: "failure_env \<Rightarrow> nat \<Rightarrow> bytes \<Rightarrow> int \<Rightarrow> failure_row list \<Rightarrow> bool" where
  "isKnownParseFailure env project path retry_max t =
     (if \<not> has_db env then False else if \<not> can_prepare env then False
      else case read_rows env (filter (\<lambda>r. pf_project r = project \<and> pf_file r = path \<and> pf_reason r \<noteq> language_missing) t) of
             [] \<Rightarrow> False
           | r # _ \<Rightarrow> retry_max \<le> column_int (pf_count r))"

definition loadKnownParseFailures ::
  "failure_env \<Rightarrow> nat \<Rightarrow> int \<Rightarrow> failure_row list \<Rightarrow> bytes list \<Rightarrow> bool \<times> bytes list" where
  "loadKnownParseFailures env project retry_max t out_paths =
     (if \<not> has_db env then (False, out_paths) else if \<not> can_prepare env then (False, out_paths)
      else (True, out_paths @ map pf_file (read_rows env
              (filter (\<lambda>r. pf_project r = project \<and> retry_max \<le> pf_count r \<and> pf_reason r \<noteq> language_missing) t))))"

section \<open>The buffer\<close>

definition bufferParseFailure :: "pending_failure \<Rightarrow> pending_failure list \<Rightarrow> pending_failure list" where
  "bufferParseFailure d buf = buf @ [d]"

text \<open>The loop over the batch, from the \<open>i\<close>-th row: how many rows failed, and the table.\<close>

fun flush_rows :: "failure_env \<Rightarrow> nat \<Rightarrow> pending_failure list \<Rightarrow> failure_row list \<Rightarrow> nat \<times> failure_row list" where
  "flush_rows env i [] t = (0, t)"
| "flush_rows env i (d # ds) t =
     (if can_step env i then flush_rows env (Suc i) ds (upsert_failure (clock env i) d t)
      else (Suc (fst (flush_rows env (Suc i) ds t)), snd (flush_rows env (Suc i) ds t)))"

text \<open>The buffer is swapped out before anything can go wrong.  The result is the number of rows.\<close>

definition flushParseFailures ::
  "failure_env \<Rightarrow> pending_failure list \<Rightarrow> failure_row list \<Rightarrow> int \<times> pending_failure list \<times> failure_row list" where
  "flushParseFailures env buf t =
     (if buf = [] then (0, [], t)
      else if \<not> has_db env then (-1, [], t)
      else if \<not> can_prepare env then (-1, [], t)
      else if \<not> can_begin env then (-1, [], t)
      else if 0 < fst (flush_rows env 0 buf t) then (-1, [], t)
      else if \<not> can_commit env then (-1, [], t)
      else (int (length buf), [], snd (flush_rows env 0 buf t)))"

definition resetParseFailures :: "failure_env \<Rightarrow> nat \<Rightarrow> failure_row list \<Rightarrow> int \<times> failure_row list" where
  "resetParseFailures env project t =
     (if \<not> has_db env then (-1, t) else if \<not> can_prepare env then (-1, t)
      else if \<not> can_step env 0 then (-1, t)
      else (int (length (filter (\<lambda>r. pf_project r = project) t)), filter (\<lambda>r. pf_project r \<noteq> project) t))"

section \<open>Reports\<close>

definition failure_json :: "failure_row \<Rightarrow> json" where
  "failure_json r =
     JObject [(''file_path'', JString (pf_file r)), (''language'', JString (pf_language r)), (''fail_reason'', JString (pf_reason r)),
       (''fail_count'', json_int (column_int (pf_count r))), (''first_seen'', json_int (pf_first r)), (''last_seen'', json_int (pf_last r))]"

definition getParseFailuresJson :: "failure_env \<Rightarrow> nat \<Rightarrow> int \<Rightarrow> failure_row list \<Rightarrow> bytes" where
  "getParseFailuresJson env project limit t =
     (if \<not> has_db env then ''[]'' else if \<not> can_prepare env then ''[]''
      else let n = (if limit \<le> 0 then 100 else limit)
           in render (JArray (map failure_json (read_rows env (take (nat n)
                (sort_key (\<lambda>r. - pf_last r) (filter (\<lambda>r. pf_project r = project) t)))))))"

definition ffi_error :: "bytes \<Rightarrow> bytes" where
  "ffi_error msg = render (JObject [(''ok'', JBool False), (''error'', JString msg)])"

definition engine_get_parse_failures :: "bool \<Rightarrow> failure_env \<Rightarrow> nat \<Rightarrow> int \<Rightarrow> failure_row list \<Rightarrow> bytes" where
  "engine_get_parse_failures has_ctx env project limit t =
     (if \<not> has_ctx then ffi_error ''[module=ffi, method=engine_get_parse_failures] engine not initialized''
      else ''{'' @ quoted ''ok'' @ '':true,'' @ quoted ''parse_failures'' @ '':''
             @ getParseFailuresJson env project (if 0 < limit then limit else 100) t @ ''}'')"

definition engine_reset_parse_failures :: "bool \<Rightarrow> failure_env \<Rightarrow> nat \<Rightarrow> failure_row list \<Rightarrow> bytes \<times> failure_row list" where
  "engine_reset_parse_failures has_ctx env project t =
     (if \<not> has_ctx then (ffi_error ''[module=ffi, method=engine_reset_parse_failures] engine not initialized'', t)
      else (case resetParseFailures env project t of
              (removed, t') \<Rightarrow>
                (if removed < 0 then ffi_error ''[module=ffi, method=engine_reset_parse_failures] delete failed''
                 else render (JObject [(''ok'', JBool True), (''removed'', json_int removed)]), t')))"

section \<open>The worker\<close>

text \<open>The factories of \<open>ir/ir_translator.cpp\<close>.\<close>

datatype visitor_class =
  JsVisitor | TsVisitor | TsxVisitor | CVisitor | CppVisitor | GoVisitor | PythonVisitor | RustVisitor | JavaVisitor

datatype translator_class =
    PythonTranslator | CppTranslator | CTranslator | RustTranslator | JavascriptTranslator | TypescriptTranslator
  | GoTranslator | JavaTranslator | TsxTranslator

definition createTranslator :: "bytes \<Rightarrow> translator_class option" where
  "createTranslator language =
     (let lang = lower language
      in if lang = ''python'' \<or> lang = ''py'' then Some PythonTranslator
         else if lang = ''cpp'' \<or> lang = ''c++'' \<or> lang = ''cxx'' then Some CppTranslator
         else if lang = ''c'' then Some CTranslator
         else if lang = ''rust'' \<or> lang = ''rs'' then Some RustTranslator
         else if lang = ''javascript'' \<or> lang = ''js'' then Some JavascriptTranslator
         else if lang = ''typescript'' \<or> lang = ''ts'' then Some TypescriptTranslator
         else if lang = ''go'' \<or> lang = ''golang'' then Some GoTranslator
         else if lang = ''java'' then Some JavaTranslator
         else if lang = ''tsx'' then Some TsxTranslator
         else None)"

definition createJsVisitor :: "bytes \<Rightarrow> visitor_class option" where
  "createJsVisitor language =
     (let lang = lower language
      in if lang = ''javascript'' \<or> lang = ''js'' then Some JsVisitor
         else if lang = ''typescript'' \<or> lang = ''ts'' then Some TsVisitor
         else if lang = ''tsx'' then Some TsxVisitor
         else if lang = ''c'' then Some CVisitor
         else if lang = ''cpp'' \<or> lang = ''c++'' \<or> lang = ''cxx'' then Some CppVisitor
         else if lang = ''go'' \<or> lang = ''golang'' then Some GoVisitor
         else if lang = ''python'' \<or> lang = ''py'' then Some PythonVisitor
         else if lang = ''rust'' \<or> lang = ''rs'' then Some RustVisitor
         else if lang = ''java'' then Some JavaVisitor
         else None)"

datatype 'a answer = Returned 'a | Threw bytes | ThrewUnknown

record ('t, 'r) world =
  stat_size :: "bytes \<Rightarrow> nat option"
  stat_mtime :: "bytes \<Rightarrow> int"
  content :: "bytes \<Rightarrow> bytes"
  has_grammar :: "bytes \<Rightarrow> bool"
  syntax_tree :: "bytes \<Rightarrow> bytes \<Rightarrow> 't option"
  visit :: "visitor_class \<Rightarrow> 't \<Rightarrow> bytes \<Rightarrow> bytes \<Rightarrow> 'r list option answer"
  translate :: "translator_class \<Rightarrow> 't \<Rightarrow> bytes \<Rightarrow> bytes \<Rightarrow> 'r list option answer"

record 'r file_result =
  fr_path :: bytes
  fr_language :: bytes
  fr_mtime :: int
  fr_fsize :: nat
  fr_records :: "'r list"

datatype 'r job_outcome = KnownFailure | Oversize | Failed bytes | NoRecords | Parsed "'r file_result"

type_synonym job = "bytes \<times> bytes"

definition take_answer :: "('t, 'r) world \<Rightarrow> job \<Rightarrow> nat \<Rightarrow> 'r list option answer \<Rightarrow> 'r job_outcome" where
  "take_answer w j fsize a =
     (case a of
        Returned None \<Rightarrow> NoRecords
      | Returned (Some rs) \<Rightarrow>
          if rs = [] then NoRecords
          else Parsed \<lparr>fr_path = fst j, fr_language = snd j, fr_mtime = stat_mtime w (fst j), fr_fsize = fsize, fr_records = rs\<rparr>
      | Threw what \<Rightarrow> Failed (failReasonToString VisitorException @ '': '' @ what)
      | ThrewUnknown \<Rightarrow> Failed (failReasonToString VisitorUnknownThrow))"

text \<open>One turn of \<open>parse_worker_fn\<close>.  The parser is told the length of the source in 32 bits.\<close>

definition parse_job :: "('t, 'r) world \<Rightarrow> nat \<Rightarrow> bytes list \<Rightarrow> job \<Rightarrow> 'r job_outcome" where
  "parse_job w max_size known j =
     (let path = fst j; lang = snd j; source = content w path
      in if path \<in> set known then KnownFailure
         else case stat_size w path of
           None \<Rightarrow> Failed (failReasonToString StatFailed)
         | Some fsize \<Rightarrow>
             if max_size < fsize then Oversize
             else if \<not> has_grammar w lang then Failed (failReasonToString LanguageMissing)
             else if source = [] then Failed (failReasonToString ReadEmpty)
             else case syntax_tree w lang (take (length source mod 2 ^ 32) source) of
               None \<Rightarrow> Failed (failReasonToString ParseNullTree)
             | Some tree \<Rightarrow>
                 (case createJsVisitor lang of
                    Some v \<Rightarrow> take_answer w j fsize (visit w v tree source path)
                  | None \<Rightarrow>
                      (case createTranslator lang of
                         None \<Rightarrow> Failed (failReasonToString LanguageMissing)
                       | Some tr \<Rightarrow> take_answer w j fsize (translate w tr tree source path))))"

text \<open>Every language with a translator has a visitor, so the translators are never used here.\<close>

lemma translators_unused: "createJsVisitor lang = None \<Longrightarrow> createTranslator lang = None"
  by (simp add: createJsVisitor_def createTranslator_def Let_def split: if_splits)

section \<open>A run\<close>

text \<open>The order in which the workers get done with the jobs is given by \<open>job_order\<close>; \<open>agg_flush\<close> tells
  whether the results could be stored.\<close>

record ('t, 'r) parse_run =
  run_world :: "('t, 'r) world"
  max_file_size :: nat
  run_jobs :: "job list"
  job_order :: "job list \<Rightarrow> job list"
  agg_flush :: bool
  load_env :: failure_env
  flush_env :: failure_env

type_synonym failure_state = "pending_failure list \<times> failure_row list"

definition failures_of :: "nat \<Rightarrow> job \<Rightarrow> 'r job_outcome \<Rightarrow> pending_failure list" where
  "failures_of project j oc =
     (case oc of Failed reason \<Rightarrow> [\<lparr>pd_project = project, pd_file = fst j, pd_language = snd j, pd_reason = reason\<rparr>] | _ \<Rightarrow> [])"

definition results_of :: "'r job_outcome \<Rightarrow> 'r file_result list" where
  "results_of oc = (case oc of Parsed r \<Rightarrow> [r] | _ \<Rightarrow> [])"

definition run_worker :: "nat \<Rightarrow> bytes list \<Rightarrow> ('t, 'r) parse_run \<Rightarrow> pending_failure list" where
  "run_worker project known r =
     concat (map (\<lambda>j. failures_of project j (parse_job (run_world r) (max_file_size r) known j)) (job_order r (run_jobs r)))"

text \<open>The result is \<open>None\<close> when the results could not be stored; then the failures stay in the buffer.\<close>

definition engine_index_project_membulk ::
  "nat \<Rightarrow> bytes list \<Rightarrow> ('t, 'r) parse_run \<Rightarrow> failure_state \<Rightarrow> 'r file_result list option \<times> failure_state" where
  "engine_index_project_membulk project known r st =
     (if run_jobs r = [] then (Some [], st)
      else let buf = fold bufferParseFailure (run_worker project known r) (fst st);
               results = concat (map (\<lambda>j. results_of (parse_job (run_world r) (max_file_size r) known j)) (job_order r (run_jobs r)))
           in if \<not> agg_flush r then (None, (buf, snd st))
              else (Some results, snd (flushParseFailures (flush_env r) buf (snd st))))"

definition fail_retry_max :: "bytes option \<Rightarrow> int" where
  "fail_retry_max e = (case e of None \<Rightarrow> 1 | Some v \<Rightarrow> max 1 (atoi v))"

definition known_failures :: "nat \<Rightarrow> bytes option \<Rightarrow> failure_env \<Rightarrow> failure_row list \<Rightarrow> bytes list" where
  "known_failures project setting env t =
     (case loadKnownParseFailures env project (fail_retry_max setting) t [] of (ok, paths) \<Rightarrow> if ok then paths else [])"

definition index_run ::
  "nat \<Rightarrow> bytes option \<Rightarrow> ('t, 'r) parse_run \<Rightarrow> failure_state \<Rightarrow> 'r file_result list option \<times> failure_state" where
  "index_run project setting r st =
     engine_index_project_membulk project (known_failures project setting (load_env r) (snd st)) r st"

section \<open>The table counts\<close>

text \<open>What the table stands for: the list of the failures written and not reset since.\<close>

abbreviation row_key :: "failure_row \<Rightarrow> nat \<times> bytes" where "row_key r \<equiv> (pf_project r, pf_file r)"
abbreviation pending_key :: "pending_failure \<Rightarrow> nat \<times> bytes" where "pending_key d \<equiv> (pd_project d, pd_file d)"

definition row_of :: "failure_row list \<Rightarrow> nat \<times> bytes \<Rightarrow> failure_row option" where
  "row_of t k = List.find (\<lambda>r. row_key r = k) t"

definition log_of :: "pending_failure list \<Rightarrow> nat \<times> bytes \<Rightarrow> pending_failure list" where
  "log_of lg k = filter (\<lambda>d. pending_key d = k) lg"

definition summarises :: "failure_row option \<Rightarrow> pending_failure list \<Rightarrow> bool" where
  "summarises ro ds =
     (case ro of None \<Rightarrow> ds = []
      | Some r \<Rightarrow> ds \<noteq> [] \<and> pf_count r = int (length ds) \<and> pf_reason r = pd_reason (last ds) \<and> pf_language r = pd_language (hd ds))"

definition counts :: "failure_row list \<Rightarrow> pending_failure list \<Rightarrow> bool" where
  "counts t lg \<longleftrightarrow> distinct (map row_key t) \<and> (\<forall>k. summarises (row_of t k) (log_of lg k))"

lemma row_of_simps [simp]:
  "row_of [] k = None"
  "row_of (r # t) k = (if row_key r = k then Some r else row_of t k)"
  by (simp_all add: row_of_def)

lemma row_of_Some: "distinct (map row_key t) \<Longrightarrow> row_of t k = Some r \<longleftrightarrow> r \<in> set t \<and> row_key r = k"
  by (induction t) (auto simp: image_iff)

lemma row_of_None: "row_of t k = None \<longleftrightarrow> (\<forall>r \<in> set t. row_key r \<noteq> k)"
  by (induction t) auto

lemma keys_upsert:
  "set (map row_key (upsert_failure now d t)) = insert (pending_key d) (set (map row_key t))"
  by (induction t) auto

lemma distinct_upsert: "distinct (map row_key t) \<Longrightarrow> distinct (map row_key (upsert_failure now d t))"
proof (induction t)
  case (Cons r t)
  then show ?case using keys_upsert [of now d t] by (auto simp: image_iff)
qed simp

lemma row_of_upsert:
  "row_of (upsert_failure now d t) k =
     (if k \<noteq> pending_key d then row_of t k
      else Some (case row_of t k of
                   None \<Rightarrow> \<lparr>pf_project = pd_project d, pf_file = pd_file d, pf_language = pd_language d,
                            pf_reason = pd_reason d, pf_count = 1, pf_first = now, pf_last = now\<rparr>
                 | Some r \<Rightarrow> r\<lparr>pf_count := pf_count r + 1, pf_last := now, pf_reason := pd_reason d\<rparr>))"
  by (induction t) auto

lemma counts_upsert:
  assumes "counts t lg"
  shows "counts (upsert_failure now d t) (lg @ [d])"
proof -
  have "summarises (row_of (upsert_failure now d t) k) (log_of (lg @ [d]) k)" for k
  proof (cases "k = pending_key d")
    case True
    have "summarises (row_of t k) (log_of lg k)" using assms unfolding counts_def by blast
    then show ?thesis using True by (auto simp: summarises_def row_of_upsert log_of_def split: option.splits)
  next
    case False
    then have "log_of (lg @ [d]) k = log_of lg k" "row_of (upsert_failure now d t) k = row_of t k"
      by (auto simp: row_of_upsert log_of_def)
    moreover have "summarises (row_of t k) (log_of lg k)" using assms unfolding counts_def by blast
    ultimately show ?thesis by simp
  qed
  then show ?thesis using assms by (simp add: counts_def distinct_upsert)
qed

lemma row_of_filter:
  "row_of (filter (\<lambda>r. pf_project r \<noteq> p) t) k = (if fst k = p then None else row_of t k)"
  by (induction t) auto

lemma counts_reset:
  assumes "counts t lg"
  shows "counts (filter (\<lambda>r. pf_project r \<noteq> p) t) (filter (\<lambda>d. pd_project d \<noteq> p) lg)"
proof -
  have "summarises (row_of (filter (\<lambda>r. pf_project r \<noteq> p) t) k) (log_of (filter (\<lambda>d. pd_project d \<noteq> p) lg) k)" for k
  proof -
    have "log_of (filter (\<lambda>d. pd_project d \<noteq> p) lg) k = (if fst k = p then [] else log_of lg k)"
      by (induction lg) (auto simp: log_of_def)
    moreover have "summarises (row_of t k) (log_of lg k)" using assms unfolding counts_def by blast
    ultimately show ?thesis by (simp add: row_of_filter summarises_def)
  qed
  then show ?thesis using assms by (simp add: counts_def distinct_map_filter)
qed

lemma flush_rows_ok:
  "(\<forall>k < length ds. can_step env (i + k)) \<Longrightarrow> fst (flush_rows env i ds t) = 0"
proof (induction ds arbitrary: i t)
  case (Cons d ds)
  then have "can_step env i" and "\<forall>k < length ds. can_step env (Suc i + k)"
    by (metis add.right_neutral length_Cons zero_less_Suc, metis Suc_less_eq add_Suc_shift length_Cons)
  then show ?case using Cons.IH by simp
qed simp

lemma flush_rows_zero:
  "fst (flush_rows env i ds t) = 0 \<Longrightarrow> (\<forall>k < length ds. can_step env (i + k))"
proof (induction ds arbitrary: i t)
  case (Cons d ds)
  then have s: "can_step env i" by (simp split: if_splits)
  moreover have "\<forall>k < length ds. can_step env (Suc i + k)"
    using Cons.IH [of "Suc i" "upsert_failure (clock env i) d t"] Cons.prems s by simp
  ultimately show ?case using s by (auto simp: less_Suc_eq_0_disj)
qed simp

lemma counts_flush_rows:
  "fst (flush_rows env i ds t) = 0 \<Longrightarrow> counts t lg \<Longrightarrow> counts (snd (flush_rows env i ds t)) (lg @ ds)"
proof (induction ds arbitrary: i t lg)
  case (Cons d ds)
  then show ?case using Cons.IH [OF _ counts_upsert] by (simp split: if_splits)
qed simp

text \<open>A flush writes the whole buffer or nothing; either way the buffer is empty afterwards.\<close>

definition can_flush :: "failure_env \<Rightarrow> nat \<Rightarrow> bool" where
  "can_flush env n \<longleftrightarrow> has_db env \<and> can_prepare env \<and> can_begin env \<and> (\<forall>i < n. can_step env i) \<and> can_commit env"

lemma flush_all_or_nothing:
  "flushParseFailures env buf t =
     (if buf = [] then (0, [], t)
      else if can_flush env (length buf) then (int (length buf), [], snd (flush_rows env 0 buf t))
      else (-1, [], t))"
proof -
  have "fst (flush_rows env 0 buf t) = 0 \<longleftrightarrow> (\<forall>i < length buf. can_step env i)"
    using flush_rows_ok [of buf env 0 t] flush_rows_zero [of env 0 buf t] by auto
  then show ?thesis by (auto simp: flushParseFailures_def can_flush_def)
qed

text \<open>The operations, on the buffer and the table and on the buffer and the list of failures.\<close>

datatype failure_op = Record failure_env pending_failure | Buffer pending_failure | Flush failure_env | Reset failure_env nat

fun exec_op :: "failure_op \<Rightarrow> failure_state \<Rightarrow> failure_state" where
  "exec_op (Record env d) (buf, t) = (buf, recordParseFailure env d t)"
| "exec_op (Buffer d) (buf, t) = (bufferParseFailure d buf, t)"
| "exec_op (Flush env) (buf, t) = snd (flushParseFailures env buf t)"
| "exec_op (Reset env p) (buf, t) = (buf, snd (resetParseFailures env p t))"

fun log_op :: "failure_op \<Rightarrow> pending_failure list \<times> pending_failure list \<Rightarrow> pending_failure list \<times> pending_failure list" where
  "log_op (Record env d) (buf, lg) = (buf, if has_db env \<and> can_prepare env \<and> can_step env 0 then lg @ [d] else lg)"
| "log_op (Buffer d) (buf, lg) = (buf @ [d], lg)"
| "log_op (Flush env) (buf, lg) = ([], if can_flush env (length buf) then lg @ buf else lg)"
| "log_op (Reset env p) (buf, lg) =
     (buf, if has_db env \<and> can_prepare env \<and> can_step env 0 then filter (\<lambda>d. pd_project d \<noteq> p) lg else lg)"

definition related :: "failure_state \<Rightarrow> pending_failure list \<times> pending_failure list \<Rightarrow> bool" where
  "related st lg \<longleftrightarrow> fst st = fst lg \<and> counts (snd st) (snd lg)"

lemma related_step: "related st lg \<Longrightarrow> related (exec_op e st) (log_op e lg)"
  by (cases st; cases lg; cases e)
    (auto simp: related_def recordParseFailure_def bufferParseFailure_def resetParseFailures_def flush_all_or_nothing can_flush_def
      intro!: counts_upsert counts_reset counts_flush_rows flush_rows_ok)

lemma related_run: "related st lg \<Longrightarrow> related (fold exec_op es st) (fold log_op es lg)"
  by (induction es arbitrary: st lg) (simp_all add: related_step)

lemma related_start: "related ([], []) ([], [])"
  by (simp add: related_def counts_def summarises_def log_of_def)

lemma fine_load:
  "fine env \<Longrightarrow> set (snd (loadKnownParseFailures env p m t [])) =
     {pf_file r | r. r \<in> set t \<and> pf_project r = p \<and> m \<le> pf_count r \<and> pf_reason r \<noteq> language_missing}"
  by (auto simp: loadKnownParseFailures_def fine_def read_rows_def)

lemma column_int_small: "0 \<le> i \<Longrightarrow> i < 2 ^ 31 \<Longrightarrow> column_int i = i"
  by (simp add: column_int_def sint_sbintrunc' signed_take_bit_int_eq_self)

text \<open>
  The skip set holds a file exactly if it failed \<open>retry_max\<close> times since the last reset, counting all the
  failures that were written, and the last failure was not a missing grammar; the lookup of one file agrees
  with it.  This holds after any operations, with writes that fail and rolled back batches.
\<close>

theorem known_failure_exact:
  assumes "fine env" "st = fold exec_op es ([], [])" "ds = log_of (snd (fold log_op es ([], []))) (project, path)"
    "length ds < 2 ^ 31"
  shows "(path \<in> set (snd (loadKnownParseFailures env project retry_max (snd st) [])) \<longleftrightarrow>
            ds \<noteq> [] \<and> retry_max \<le> int (length ds) \<and> pd_reason (last ds) \<noteq> language_missing) \<and>
         (isKnownParseFailure env project path retry_max (snd st) \<longleftrightarrow>
            ds \<noteq> [] \<and> retry_max \<le> int (length ds) \<and> pd_reason (last ds) \<noteq> language_missing)"
proof -
  define t where "t = snd st"
  define known where "known \<longleftrightarrow> (\<exists>r. row_of t (project, path) = Some r \<and> retry_max \<le> pf_count r \<and> pf_reason r \<noteq> language_missing)"
  have c: "counts t (snd (fold log_op es ([], [])))"
    using related_run [OF related_start, of es] assms(2) by (simp add: related_def t_def)
  then have d: "distinct (map row_key t)" and s: "summarises (row_of t (project, path)) ds"
    using assms(3) by (simp_all add: counts_def)
  have "known \<longleftrightarrow> ds \<noteq> [] \<and> retry_max \<le> int (length ds) \<and> pd_reason (last ds) \<noteq> language_missing"
    using s by (auto simp: known_def summarises_def split: option.splits)
  moreover have "path \<in> set (snd (loadKnownParseFailures env project retry_max t [])) \<longleftrightarrow> known"
    using d by (auto simp: fine_load [OF assms(1)] known_def row_of_Some)
  moreover have "isKnownParseFailure env project path retry_max t \<longleftrightarrow> known"
  proof (cases "row_of t (project, path)")
    case None
    then have "filter (\<lambda>r. pf_project r = project \<and> pf_file r = path \<and> pf_reason r \<noteq> language_missing) t = []"
      by (auto simp: row_of_None filter_empty_conv)
    then show ?thesis using None by (simp add: isKnownParseFailure_def known_def read_rows_def split: option.splits)
  next
    case (Some r)
    have "filter (\<lambda>x. pf_project x = project \<and> pf_file x = path \<and> pf_reason x \<noteq> language_missing) t =
        (if pf_reason r \<noteq> language_missing then [r] else [])"
      using d Some by (induction t) (auto simp: filter_empty_conv image_iff split: if_splits)
    moreover have "column_int (pf_count r) = pf_count r"
      using s Some assms(4) by (intro column_int_small) (simp_all add: summarises_def)
    ultimately show ?thesis
      using Some assms(1) by (auto simp: isKnownParseFailure_def known_def read_rows_def fine_def)
  qed
  ultimately show ?thesis by (simp add: t_def)
qed

definition sample_failure :: "nat \<Rightarrow> bytes \<Rightarrow> fail_reason \<Rightarrow> pending_failure" where
  "sample_failure p path r = \<lparr>pd_project = p, pd_file = path, pd_language = ''python'', pd_reason = failReasonToString r\<rparr>"

definition sample_env :: failure_env where
  "sample_env = \<lparr>has_db = True, can_prepare = True, can_begin = True, can_step = (\<lambda>_. True), can_commit = True,
     stops_at = None, clock = (\<lambda>_. 1700000000)\<rparr>"

lemma fine_sample [simp]: "fine sample_env"
  by (simp add: fine_def sample_env_def)

definition sample_ops :: "failure_op list" where
  "sample_ops =
     [Buffer (sample_failure 1 ''a.py'' ReadEmpty), Buffer (sample_failure 1 ''b.py'' LanguageMissing), Flush sample_env,
      Buffer (sample_failure 1 ''a.py'' ParseNullTree), Flush (sample_env\<lparr>can_commit := False\<rparr>),
      Record sample_env (sample_failure 1 ''a.py'' ParseNullTree)]"

theorem known_failure_exact_witness:
  "''a.py'' \<in> set (snd (loadKnownParseFailures sample_env 1 2 (snd (fold exec_op sample_ops ([], []))) [])) \<and>
   \<not> isKnownParseFailure sample_env 1 ''b.py'' 1 (snd (fold exec_op sample_ops ([], [])))"
proof -
  have a: "log_of (snd (fold log_op sample_ops ([], []))) (1, ''a.py'') =
      [sample_failure 1 ''a.py'' ReadEmpty, sample_failure 1 ''a.py'' ParseNullTree]"
    and b: "log_of (snd (fold log_op sample_ops ([], []))) (1, ''b.py'') = [sample_failure 1 ''b.py'' LanguageMissing]"
    by (simp_all add: sample_ops_def log_of_def can_flush_def sample_env_def sample_failure_def)
  show ?thesis
    using known_failure_exact [OF fine_sample refl a [symmetric], of 2]
      known_failure_exact [OF fine_sample refl b [symmetric], of 1]
    by (simp add: sample_failure_def)
qed

section \<open>A known failure is final\<close>

fun index_runs ::
  "nat \<Rightarrow> bytes option \<Rightarrow> ('t, 'r) parse_run list \<Rightarrow> failure_state \<Rightarrow> 'r file_result list option list \<times> failure_state" where
  "index_runs project setting [] st = ([], st)"
| "index_runs project setting (r # rs) st =
     (fst (index_run project setting r st) # fst (index_runs project setting rs (snd (index_run project setting r st))),
      snd (index_runs project setting rs (snd (index_run project setting r st))))"

definition indexed_paths :: "'r file_result list option list \<Rightarrow> bytes set" where
  "indexed_paths results = {fr_path f | f fs. Some fs \<in> set results \<and> f \<in> set fs}"

definition given_up :: "nat \<Rightarrow> bytes option \<Rightarrow> bytes \<Rightarrow> failure_state \<Rightarrow> bool" where
  "given_up project setting path st \<longleftrightarrow>
     distinct (map row_key (snd st)) \<and> (\<forall>d \<in> set (fst st). pending_key d \<noteq> (project, path)) \<and>
     (\<exists>row. row_of (snd st) (project, path) = Some row \<and> fail_retry_max setting \<le> pf_count row \<and> pf_reason row \<noteq> language_missing)"

lemma given_up_known:
  assumes "given_up project setting path st" "fine env"
  shows "path \<in> set (known_failures project setting env (snd st))"
proof -
  obtain row where r: "row_of (snd st) (project, path) = Some row" "fail_retry_max setting \<le> pf_count row"
      "pf_reason row \<noteq> language_missing" and d: "distinct (map row_key (snd st))"
    using assms(1) by (auto simp: given_up_def)
  then have m: "row \<in> set (snd st)" "row_key row = (project, path)" by (simp_all add: row_of_Some)
  have "fst (loadKnownParseFailures env project (fail_retry_max setting) (snd st) [])"
    using assms(2) by (simp add: loadKnownParseFailures_def fine_def)
  moreover have "path \<in> set (snd (loadKnownParseFailures env project (fail_retry_max setting) (snd st) []))"
    using m r by (auto simp: fine_load [OF assms(2)])
  ultimately show ?thesis by (simp add: known_failures_def case_prod_beta)
qed

lemma row_of_flush_rows:
  "\<forall>d \<in> set ds. pending_key d \<noteq> k \<Longrightarrow> row_of (snd (flush_rows env i ds t)) k = row_of t k"
  by (induction ds arbitrary: i t) (auto simp: row_of_upsert)

lemma distinct_flush_rows:
  "distinct (map row_key t) \<Longrightarrow> distinct (map row_key (snd (flush_rows env i ds t)))"
  by (induction ds arbitrary: i t) (simp_all add: distinct_upsert)

lemma known_no_failure:
  assumes "path \<in> set known"
  shows "\<forall>d \<in> set (run_worker project known r). pending_key d \<noteq> (project, path)"
  using assms by (auto simp: run_worker_def failures_of_def parse_job_def Let_def split: job_outcome.splits)

lemma outcome_path: "parse_job w m known j = Parsed f \<Longrightarrow> fr_path f = fst j \<and> fst j \<notin> set known"
  by (auto simp: parse_job_def Let_def take_answer_def split: if_splits option.splits answer.splits)

lemma in_results_of [simp]: "f \<in> set (results_of oc) \<longleftrightarrow> oc = Parsed f"
  by (cases oc) (auto simp: results_of_def)

lemma in_failures_of [simp]:
  "d \<in> set (failures_of project j oc) \<longleftrightarrow>
     (\<exists>reason. oc = Failed reason \<and> d = \<lparr>pd_project = project, pd_file = fst j, pd_language = snd j, pd_reason = reason\<rparr>)"
  by (cases oc) (auto simp: failures_of_def)

lemma run_results:
  "f \<in> set fs \<Longrightarrow> fst (engine_index_project_membulk project known r st) = Some fs \<Longrightarrow>
     \<exists>j \<in> set (job_order r (run_jobs r)). parse_job (run_world r) (max_file_size r) known j = Parsed f"
  by (auto simp: engine_index_project_membulk_def Let_def split: if_splits)

lemma fold_buffer: "fold bufferParseFailure ds buf = buf @ ds"
  by (induction ds arbitrary: buf) (simp_all add: bufferParseFailure_def)

lemma given_up_run:
  assumes "given_up project setting path st" "fine (load_env r)"
  shows "path \<notin> indexed_paths [fst (index_run project setting r st)]"
    and "given_up project setting path (snd (index_run project setting r st))"
proof -
  define known where "known = known_failures project setting (load_env r) (snd st)"
  have k: "path \<in> set known" using given_up_known [OF assms] by (simp add: known_def)
  have run: "index_run project setting r st = engine_index_project_membulk project known r st"
    by (simp add: index_run_def known_def)
  show "path \<notin> indexed_paths [fst (index_run project setting r st)]"
    using k by (auto simp: run indexed_paths_def dest!: run_results outcome_path)
  define buf where "buf = fst st @ run_worker project known r"
  have buf: "\<forall>d \<in> set buf. pending_key d \<noteq> (project, path)"
    using assms(1) known_no_failure [OF k] unfolding buf_def given_up_def by auto
  have "snd (index_run project setting r st) \<in>
      {st, (buf, snd st), ([], snd st), ([], snd (flush_rows (flush_env r) 0 buf (snd st)))}"
    by (simp add: run engine_index_project_membulk_def Let_def fold_buffer buf_def flush_all_or_nothing)
  then show "given_up project setting path (snd (index_run project setting r st))"
    using assms(1) buf row_of_flush_rows [OF buf] distinct_flush_rows by (auto simp: given_up_def)
qed

lemma indexed_paths_Cons: "indexed_paths (x # xs) = indexed_paths [x] \<union> indexed_paths xs"
  by (auto simp: indexed_paths_def)

lemma given_up_runs:
  "given_up project setting path st \<Longrightarrow> \<forall>r \<in> set rs. fine (load_env r) \<Longrightarrow>
     path \<notin> indexed_paths (fst (index_runs project setting rs st))"
proof (induction rs arbitrary: st)
  case Nil
  then show ?case by (simp add: indexed_paths_def)
next
  case (Cons r rs)
  then show ?case using given_up_run [of project setting path st r] Cons.IH
    by (subst index_runs.simps, subst fst_conv, subst indexed_paths_Cons) auto
qed

text \<open>
  With the default setting a file that is empty when it is first indexed is recorded as a failure and no
  later run indexes it, whatever its content, size and time have become by then, as long as the table can be
  read and nobody resets it.
\<close>

theorem empty_file_never_indexed:
  assumes "(path, lang) \<in> set (run_jobs first_run)" "distinct (map fst (run_jobs first_run))"
    "set (job_order first_run (run_jobs first_run)) = set (run_jobs first_run)"
    "stat_size (run_world first_run) path = Some n" "n \<le> max_file_size first_run"
    "has_grammar (run_world first_run) lang" "content (run_world first_run) path = []"
    "agg_flush first_run" "fine (flush_env first_run)" "\<forall>r \<in> set later. fine (load_env r)"
  shows "path \<notin> indexed_paths (fst (index_runs project None (first_run # later) ([], [])))"
proof -
  define js where "js = job_order first_run (run_jobs first_run)"
  define empty_failure where "empty_failure = \<lparr>pd_project = project, pd_file = path, pd_language = lang, pd_reason = failReasonToString ReadEmpty\<rparr>"
  have known: "known_failures project None env [] = []" for env
    by (simp add: known_failures_def loadKnownParseFailures_def read_rows_def split: option.splits)
  define fs where "fs = run_worker project [] first_run"
  have oc: "parse_job (run_world first_run) (max_file_size first_run) [] (path, lang) = Failed (failReasonToString ReadEmpty)"
    using assms(4-7) by (simp add: parse_job_def)
  have lang: "snd j = lang" if "j \<in> set js" "fst j = path" for j
    using that assms(1-3) by (metis eq_key_imp_eq_value js_def prod.collapse)
  have all: "d = empty_failure" if "d \<in> set fs" "pending_key d = (project, path)" for d
  proof -
    have "\<exists>j \<in> set js. d \<in> set (failures_of project j (parse_job (run_world first_run) (max_file_size first_run) [] j))"
      using that(1) unfolding fs_def run_worker_def js_def set_concat set_map by blast
    then obtain j where "j \<in> set js" "d \<in> set (failures_of project j (parse_job (run_world first_run) (max_file_size first_run) [] j))"
      by blast
    then obtain reason where j: "j \<in> set js"
        "parse_job (run_world first_run) (max_file_size first_run) [] j = Failed reason"
        "d = \<lparr>pd_project = project, pd_file = fst j, pd_language = snd j, pd_reason = reason\<rparr>" by auto
    then have "j = (path, lang)" using that(2) lang [of j] by (simp add: prod_eq_iff)
    then show ?thesis using j oc by (simp add: empty_failure_def)
  qed
  have ex: "empty_failure \<in> set fs"
    using oc assms(1,3) unfolding fs_def run_worker_def js_def [symmetric]
    by (auto simp: empty_failure_def js_def intro!: bexI [of _ "(path, lang)"])
  have run: "index_run project None first_run ([], []) =
      (fst (index_run project None first_run ([], [])), ([], snd (flush_rows (flush_env first_run) 0 fs [])))"
    using assms(1,8,9) ex
    by (auto simp: index_run_def known engine_index_project_membulk_def Let_def fold_buffer fs_def [symmetric]
        flush_all_or_nothing can_flush_def fine_def)
  have c: "counts (snd (flush_rows (flush_env first_run) 0 fs [])) ([] @ fs)"
    using assms(9) by (intro counts_flush_rows flush_rows_ok) (simp_all add: fine_def counts_def summarises_def log_of_def)
  then have s: "summarises (row_of (snd (flush_rows (flush_env first_run) 0 fs [])) (project, path)) (log_of fs (project, path))"
    unfolding counts_def by simp
  have ne: "log_of fs (project, path) \<noteq> []" using ex by (force simp: log_of_def filter_empty_conv empty_failure_def)
  have "pd_reason (last (log_of fs (project, path))) = failReasonToString ReadEmpty"
  proof -
    have "last (log_of fs (project, path)) \<in> set fs" "pending_key (last (log_of fs (project, path))) = (project, path)"
      using last_in_set [OF ne] by (simp_all add: log_of_def)
    then have "last (log_of fs (project, path)) = empty_failure" by (rule all)
    then show ?thesis by (simp add: empty_failure_def)
  qed
  then have g: "given_up project None path (snd (index_run project None first_run ([], [])))"
  proof -
    obtain row where row: "row_of (snd (flush_rows (flush_env first_run) 0 fs [])) (project, path) = Some row"
        "pf_reason row = failReasonToString ReadEmpty" "pf_count row = int (length (log_of fs (project, path)))"
      using s ne \<open>pd_reason _ = _\<close> by (auto simp: summarises_def split: option.splits)
    moreover have "1 \<le> pf_count row" using ne row(3) by (simp add: Suc_le_eq)
    ultimately show ?thesis
      using c by (subst run) (auto simp: given_up_def counts_def fail_retry_max_def)
  qed
  have "path \<notin> indexed_paths [fst (index_run project None first_run ([], []))]"
  proof
    assume "path \<in> indexed_paths [fst (index_run project None first_run ([], []))]"
    then obtain f j where "j \<in> set js" "parse_job (run_world first_run) (max_file_size first_run) [] j = Parsed f" "fr_path f = path"
      by (auto simp: indexed_paths_def index_run_def known js_def dest!: run_results)
    moreover from this have "j = (path, lang)" using lang [of j] by (auto simp: prod_eq_iff dest!: outcome_path)
    ultimately show False using oc by simp
  qed
  then show ?thesis using given_up_runs [OF g assms(10)] indexed_paths_Cons by (metis Un_iff fst_conv index_runs.simps(2))
qed

definition init_world :: "bytes \<Rightarrow> (unit, nat) world" where
  "init_world source =
     \<lparr>stat_size = (\<lambda>_. Some (length source)), stat_mtime = (\<lambda>_. 0), content = (\<lambda>_. source), has_grammar = (\<lambda>_. True),
      syntax_tree = (\<lambda>_ _. Some ()), visit = (\<lambda>_ _ _ _. Returned (Some [7])), translate = (\<lambda>_ _ _ _. Returned None)\<rparr>"

definition init_run :: "bytes \<Rightarrow> (unit, nat) parse_run" where
  "init_run source =
     \<lparr>run_world = init_world source, max_file_size = 5242880, run_jobs = [(''__init__.py'', ''python'')], job_order = rev,
      agg_flush = True, load_env = sample_env, flush_env = sample_env\<rparr>"

theorem empty_file_never_indexed_witness:
  "''__init__.py'' \<notin> indexed_paths (fst (index_runs 1 None (init_run [] # [init_run ''from .core import run'']) ([], []))) \<and>
   ''__init__.py'' \<in> indexed_paths (fst (index_runs 1 None [init_run ''from .core import run''] ([], [])))"
proof
  show "''__init__.py'' \<notin> indexed_paths (fst (index_runs 1 None (init_run [] # [init_run ''from .core import run'']) ([], [])))"
    by (rule empty_file_never_indexed [of "''__init__.py''" "''python''" "init_run []" 0])
      (simp_all add: init_run_def init_world_def)
  show "''__init__.py'' \<in> indexed_paths (fst (index_runs 1 None [init_run ''from .core import run''] ([], [])))"
  proof -
    have v: "createJsVisitor ''python'' = Some PythonVisitor" by code_simp
    have k: "known_failures project None sample_env [] = []" for project
      by (simp add: known_failures_def loadKnownParseFailures_def read_rows_def sample_env_def)
    have "parse_job (init_world ''from .core import run'') 5242880 [] (''__init__.py'', ''python'') =
        Parsed \<lparr>fr_path = ''__init__.py'', fr_language = ''python'', fr_mtime = 0, fr_fsize = 21, fr_records = [7]\<rparr>"
      by (simp add: parse_job_def init_world_def v take_answer_def)
    then show ?thesis
      by (simp add: indexed_paths_def index_run_def engine_index_project_membulk_def init_run_def k results_of_def)
  qed
qed

end
