(* ===== verification/Resolver_Factors.thy ===== *)
theory Resolver_Factors
  imports Prelude
begin

text \<open>
  The scoring factors of the resolver: \<open>resolver/factors.h\<close> and \<open>resolver/factors.cpp\<close>.
  Weights and scores are rationals instead of doubles, so sums and comparisons are exact.

  The file also holds the in-memory replica of SQLite's \<open>LIKE\<close> (\<open>sqliteLikeMatch\<close>) and
  its equivalence with the recursive definition of the operator.
\<close>

section \<open>Languages\<close>

text \<open>The part of a path from its last dot, in lower case.\<close>

definition lowerExtension :: "bytes \<Rightarrow> bytes" where
  "lowerExtension file_path =
     (case str_rfind (CHR ''.'') file_path of None \<Rightarrow> [] | Some dot \<Rightarrow> lower (drop dot file_path))"

definition languageFromPath :: "bytes \<Rightarrow> bytes" where
  "languageFromPath file_path =
     (let ext = lowerExtension file_path in
      if ext \<in> {''.cpp'', ''.cc'', ''.cxx'', ''.c'', ''.h'', ''.hpp'', ''.hh'', ''.hxx''} then ''cpp''
      else if ext = ''.rs'' then ''rust''
      else if ext = ''.py'' then ''python''
      else if ext = ''.go'' then ''go''
      else if ext = ''.ts'' \<or> ext = ''.tsx'' then ''typescript''
      else if ext = ''.js'' \<or> ext = ''.jsx'' then ''javascript''
      else if ext = ''.java'' then ''java''
      else [])"

definition allowsDefaultArguments :: "bytes \<Rightarrow> bool" where
  "allowsDefaultArguments file_path \<longleftrightarrow>
     languageFromPath file_path \<in> {''cpp'', ''python'', ''javascript'', ''typescript'', ''java''}"

definition kCFamily :: "bytes set" where
  "kCFamily = {''c'', ''cpp'', ''c++'', ''cxx'', ''objc'', ''objective-c''}"

definition kJsFamily :: "bytes set" where
  "kJsFamily = {''javascript'', ''typescript'', ''tsx''}"

definition languagesCompatible :: "bytes \<Rightarrow> bytes \<Rightarrow> bool" where
  "languagesCompatible a b \<longleftrightarrow>
     a = [] \<or> b = [] \<or> a = b \<or> (a \<in> kCFamily \<and> b \<in> kCFamily) \<or> (a \<in> kJsFamily \<and> b \<in> kJsFamily)"

section \<open>Paths\<close>

text \<open>\<open>path.substr(0, path.rfind('/'))\<close>, empty when there is no slash.\<close>

definition dir_of :: "bytes \<Rightarrow> bytes" where
  "dir_of path = (case str_rfind (CHR ''/'') path of None \<Rightarrow> [] | Some i \<Rightarrow> take i path)"

text \<open>The token after the last slash of a directory, the whole of it when there is none.\<close>

definition last_token :: "bytes \<Rightarrow> bytes" where
  "last_token d = (case str_rfind (CHR ''/'') d of None \<Rightarrow> d | Some i \<Rightarrow> drop (Suc i) d)"

fun collapse :: "bytes list \<Rightarrow> bytes list \<Rightarrow> bytes list" where
  "collapse parts [] = parts"
| "collapse parts (seg # segs) =
     (if seg = ''..'' then collapse (butlast parts) segs
      else if seg = [] \<or> seg = ''.'' then collapse parts segs
      else collapse (parts @ [seg]) segs)"

fun join_slash :: "bytes list \<Rightarrow> bytes" where
  "join_slash [] = []"
| "join_slash [p] = p"
| "join_slash (p # q # ps) = p @ CHR ''/'' # join_slash (q # ps)"

definition strip_ext :: "bytes \<Rightarrow> bytes" where
  "strip_ext p =
     (case (str_rfind (CHR ''.'') p, str_rfind (CHR ''/'') p) of
        (Some dot, None) \<Rightarrow> take dot p
      | (Some dot, Some slash) \<Rightarrow> if slash < dot then take dot p else p
      | (None, _) \<Rightarrow> p)"

definition relativeImportMatchesFile :: "bytes \<Rightarrow> bytes \<Rightarrow> bytes \<Rightarrow> bool" where
  "relativeImportMatchesFile caller_dir spec candidate_file =
     (if spec = [] \<or> hd spec \<noteq> CHR ''.'' then False
      else let joined = (if caller_dir = [] then spec else caller_dir @ CHR ''/'' # spec);
               base0 = join_slash (collapse [] (split_all (CHR ''/'') joined))
           in if base0 = [] then False
              else let base = (if hd joined = CHR ''/'' then CHR ''/'' # base0 else base0)
                   in candidate_file = base \<or> strip_ext candidate_file = base \<or>
                      prefix (base @ ''/'') candidate_file)"

section \<open>LIKE\<close>

definition likeFold :: "char \<Rightarrow> char" where
  "likeFold ch = (if isupper_c ch then char_of (byte_of ch + 32) else ch)"

text \<open>
  The cursors \<open>p\<close> and \<open>t\<close> are the unread rests of the pattern and of the text; \<open>star\<close>
  holds the pattern after the last \<open>%\<close> and the text aligned with it.
\<close>

function like_loop :: "bytes \<Rightarrow> bytes \<Rightarrow> (bytes \<times> bytes) option \<Rightarrow> bool" where
  "like_loop p [] star = (dropWhile (\<lambda>c. c = CHR ''%'') p = [])"
| "like_loop [] (t # ts) star =
     (case star of Some (sp, s # st) \<Rightarrow> like_loop sp st (Some (sp, st)) | _ \<Rightarrow> False)"
| "like_loop (c # p) (t # ts) star =
     (if c = CHR ''%'' then like_loop p (t # ts) (Some (p, t # ts))
      else if c = CHR ''_'' \<or> likeFold c = likeFold t then like_loop p ts star
      else case star of Some (sp, s # st) \<Rightarrow> like_loop sp st (Some (sp, st)) | _ \<Rightarrow> False)"
  by pat_completeness auto
termination
  by (relation "measures [\<lambda>(p, t, star). max (length p) (case star of None \<Rightarrow> 0 | Some (sp, st) \<Rightarrow> length sp),
        \<lambda>(p, t, star). (case star of None \<Rightarrow> 0 | Some (sp, st) \<Rightarrow> length st),
        \<lambda>(p, t, star). length t]")
    (auto simp: less_max_iff_disj max_def split: option.split)

definition sqliteLikeMatch :: "bytes \<Rightarrow> bytes \<Rightarrow> bool" where
  "sqliteLikeMatch pattern txt = like_loop pattern txt None"

text \<open>The operator read byte by byte: \<open>%\<close> stands for any sequence, \<open>_\<close> for one byte.\<close>

fun like_spec :: "bytes \<Rightarrow> bytes \<Rightarrow> bool" where
  "like_spec [] t = (t = [])"
| "like_spec (c # p) [] = (c = CHR ''%'' \<and> like_spec p [])"
| "like_spec (c # p) (d # t) =
     (if c = CHR ''%'' then like_spec p (d # t) \<or> like_spec (c # p) t
      else (c = CHR ''_'' \<or> likeFold c = likeFold d) \<and> like_spec p t)"

declare like_loop.simps [simp del] like_spec.simps [simp del]

lemma likeFold_tolower: "likeFold = tolower_c"
  by (auto simp: fun_eq_iff likeFold_def tolower_c_def)

lemma like_spec_Nil [simp]: "like_spec [] t \<longleftrightarrow> t = []"
  by (simp add: like_spec.simps)

lemma like_spec_percent_Cons:
  "like_spec (CHR ''%'' # p) (d # t) \<longleftrightarrow> like_spec p (d # t) \<or> like_spec (CHR ''%'' # p) t"
  by (simp add: like_spec.simps)

lemma like_spec_percent: "like_spec (CHR ''%'' # p) t \<longleftrightarrow> (\<exists>u s. t = u @ s \<and> like_spec p s)"
proof (induction t)
  case Nil
  then show ?case by (simp add: like_spec.simps)
next
  case (Cons c t)
  show ?case unfolding like_spec_percent_Cons Cons by (auto simp: Cons_eq_append_conv)
qed

lemma like_spec_char:
  "c \<noteq> CHR ''%'' \<Longrightarrow> like_spec (c # p) t \<longleftrightarrow>
     (\<exists>d ts. t = d # ts \<and> (c = CHR ''_'' \<or> likeFold c = likeFold d) \<and> like_spec p ts)"
  by (cases t) (auto simp: like_spec.simps)

definition like_chars :: "bytes \<Rightarrow> bytes \<Rightarrow> bool" where
  "like_chars q u \<longleftrightarrow> list_all2 (\<lambda>c d. c \<noteq> CHR ''%'' \<and> (c = CHR ''_'' \<or> likeFold c = likeFold d)) q u"

lemma like_chars_length: "like_chars q u \<Longrightarrow> length u = length q"
  by (auto simp: like_chars_def dest: list_all2_lengthD)

lemma like_spec_append:
  "CHR ''%'' \<notin> set q \<Longrightarrow> like_spec (q @ p) t \<longleftrightarrow> (\<exists>u s. t = u @ s \<and> like_chars q u \<and> like_spec p s)"
proof (induction q arbitrary: t)
  case Nil
  then show ?case by (simp add: like_chars_def)
next
  case (Cons c q)
  then have c: "c \<noteq> CHR ''%''" and q: "CHR ''%'' \<notin> set q" by auto
  have "like_chars (c # q) u \<longleftrightarrow> (\<exists>d v. u = d # v \<and> (c = CHR ''_'' \<or> likeFold c = likeFold d) \<and> like_chars q v)" for u
    using c by (auto simp: like_chars_def list_all2_Cons1)
  note split = this
  show ?case
    unfolding append_Cons like_spec_char [OF c] Cons.IH [OF q] split
  proof (intro iffI; elim exE conjE)
    fix d ts u s assume a: "t = d # ts" "c = CHR ''_'' \<or> likeFold c = likeFold d" "ts = u @ s" "like_chars q u" "like_spec p s"
    then have "t = (d # u) @ s" by simp
    with a show "\<exists>u s. t = u @ s \<and> (\<exists>d v. u = d # v \<and> (c = CHR ''_'' \<or> likeFold c = likeFold d) \<and> like_chars q v) \<and> like_spec p s"
      by blast
  next
    fix u s d v assume a: "t = u @ s" "like_spec p s" "u = d # v" "c = CHR ''_'' \<or> likeFold c = likeFold d" "like_chars q v"
    then have "t = d # (v @ s)" by simp
    with a show "\<exists>d ts. t = d # ts \<and> (c = CHR ''_'' \<or> likeFold c = likeFold d) \<and> (\<exists>u s. ts = u @ s \<and> like_chars q u \<and> like_spec p s)"
      by blast
  qed
qed

lemma like_spec_all_percent: "like_spec p [] \<longleftrightarrow> dropWhile (\<lambda>c. c = CHR ''%'') p = []"
  by (induction p) (auto simp: like_spec.simps)

lemma like_spec_shift:
  assumes "like_spec (CHR ''%'' # q @ p) (tl (u @ t))" and "CHR ''%'' \<notin> set q" and "length u = length q"
    and "u @ t \<noteq> []"
  obtains w k where "w = drop (Suc k) t" "Suc k \<le> length t" "like_spec p w"
proof -
  obtain a s where s: "tl (u @ t) = a @ s" "like_spec (q @ p) s"
    using assms(1) by (auto simp: like_spec_percent)
  then obtain v w where vw: "s = v @ w" "like_chars q v" "like_spec p w"
    using assms(2) by (auto simp: like_spec_append)
  have "length v = length u" using vw(2) assms(3) by (simp add: like_chars_length)
  obtain x where x: "u @ t = x # a @ v @ w" using s(1) vw(1) assms(4) by (cases "u @ t") auto
  then have "w = drop (Suc (length a + length v)) (u @ t)" by simp
  then have "w = drop (Suc (length a)) t" using \<open>length v = length u\<close> by (simp add: add.commute)
  moreover have "length (u @ t) = Suc (length a + length v + length w)" using x by simp
  then have "Suc (length a) \<le> length t" using \<open>length v = length u\<close> by simp
  ultimately show ?thesis using that vw(3) by blast
qed

lemma backtrack_step:
  assumes "u @ t = s # st"
  shows "like_spec (q @ p) st \<or> (st \<noteq> [] \<and> like_spec (CHR ''%'' # q @ p) (tl st)) \<longleftrightarrow>
    like_spec (CHR ''%'' # q @ p) st"
  by (cases st) (auto simp: like_spec_percent_Cons like_spec.simps(2))

lemma like_loop_star:
  assumes "CHR ''%'' \<notin> set q" and "like_chars q u" and "star = Some (q @ p, u @ t)"
  shows "like_loop p t star \<longleftrightarrow>
     like_spec p t \<or> (u @ t \<noteq> [] \<and> like_spec (CHR ''%'' # q @ p) (tl (u @ t)))"
  using assms
proof (induction p t star arbitrary: q u rule: like_loop.induct)
  case (1 p star)
  have "\<not> (u \<noteq> [] \<and> like_spec (CHR ''%'' # q @ p) (tl (u @ [])))"
  proof
    assume "u \<noteq> [] \<and> like_spec (CHR ''%'' # q @ p) (tl (u @ []))"
    then obtain k where "Suc k \<le> length ([] :: bytes)"
      using like_spec_shift [of q p u "[]"] 1(1) like_chars_length [OF 1(2)] by (metis append_Nil2)
    then show False by simp
  qed
  then show ?case by (auto simp: like_loop.simps like_spec_all_percent)
next
  case (2 t ts star)
  obtain s st where st: "u @ t # ts = s # st" by (cases "u @ t # ts") auto
  have "like_loop [] (t # ts) star \<longleftrightarrow> like_loop (q @ []) st (Some (q @ [], st))"
    using 2(4) st by (simp add: like_loop.simps)
  also have "\<dots> \<longleftrightarrow> like_spec (q @ []) st \<or> (st \<noteq> [] \<and> like_spec (CHR ''%'' # q @ []) (tl st))"
    using 2(1) [of "(q, s # st)" q "s # st" s st "[]" "[]"] 2(4) st by (simp add: like_chars_def)
  finally show ?case using backtrack_step [OF st, of q "[]"] st by simp
next
  case (3 c p t ts star)
  have len: "length u = length q" using 3(5) by (rule like_chars_length)
  consider (star) "c = CHR ''%''" | (eq) "c \<noteq> CHR ''%''" "c = CHR ''_'' \<or> likeFold c = likeFold t"
    | (neq) "c \<noteq> CHR ''%''" "\<not> (c = CHR ''_'' \<or> likeFold c = likeFold t)" by blast
  then show ?case
  proof cases
    case star
    have "like_loop (c # p) (t # ts) star \<longleftrightarrow> like_loop p (t # ts) (Some (p, t # ts))"
      using star by (simp add: like_loop.simps)
    also have "\<dots> \<longleftrightarrow> like_spec p (t # ts) \<or> like_spec (CHR ''%'' # p) ts"
      using 3(1) [OF star, of "[]" "[]"] by (simp add: like_chars_def)
    finally have l: "like_loop (c # p) (t # ts) star \<longleftrightarrow> like_spec (c # p) (t # ts)"
      by (simp add: star like_spec_percent_Cons)
    have "like_spec (c # p) (t # ts)" if a: "like_spec (CHR ''%'' # q @ c # p) (tl (u @ t # ts))"
    proof -
      obtain w k where w: "w = drop (Suc k) (t # ts)" "like_spec (c # p) w"
        using like_spec_shift [OF a 3(4) len] by blast
      obtain a' s' where "w = a' @ s'" "like_spec p s'"
        using w(2) by (auto simp: star like_spec_percent)
      then have "t # ts = (take (Suc k) (t # ts) @ a') @ s'" using w(1)
        by (metis append.assoc append_take_drop_id)
      with \<open>like_spec p s'\<close> show ?thesis unfolding star like_spec_percent by blast
    qed
    with l show ?thesis by blast
  next
    case eq
    have "like_loop (c # p) (t # ts) star \<longleftrightarrow> like_loop p ts star"
      using eq by (simp add: like_loop.simps)
    also have "\<dots> \<longleftrightarrow> like_spec p ts \<or>
        ((u @ [t]) @ ts \<noteq> [] \<and> like_spec (CHR ''%'' # (q @ [c]) @ p) (tl ((u @ [t]) @ ts)))"
      using 3(2) [OF eq, of "q @ [c]" "u @ [t]"] 3(4-6) eq
      by (simp add: like_chars_def list_all2_appendI)
    also have "like_spec p ts \<longleftrightarrow> like_spec (c # p) (t # ts)" using eq by (simp add: like_spec_char)
    finally show ?thesis by simp
  next
    case neq
    obtain s st where st: "u @ t # ts = s # st" by (cases "u @ t # ts") auto
    have "like_loop (c # p) (t # ts) star \<longleftrightarrow> like_loop (q @ c # p) st (Some (q @ c # p, st))"
      using neq 3(6) st by (simp add: like_loop.simps)
    also have "\<dots> \<longleftrightarrow> like_spec (q @ c # p) st \<or> (st \<noteq> [] \<and> like_spec (CHR ''%'' # q @ c # p) (tl st))"
      using 3(3) [OF neq, of "(q @ c # p, s # st)" "q @ c # p" "s # st" s st "[]" "[]"] 3(6) st
      by (simp add: like_chars_def)
    finally show ?thesis using backtrack_step [OF st] st neq by (simp add: like_spec_char)
  qed
qed

lemma like_loop_none: "like_loop p t None \<longleftrightarrow> like_spec p t"
proof (induction p arbitrary: t)
  case Nil
  then show ?case by (cases t) (simp_all add: like_loop.simps)
next
  case (Cons c p)
  show ?case
  proof (cases t)
    case Nil
    then show ?thesis by (simp add: like_loop.simps like_spec_all_percent)
  next
    case t: (Cons d ds)
    show ?thesis
    proof (cases "c = CHR ''%''")
      case True
      have "like_loop (c # p) (d # ds) None \<longleftrightarrow> like_loop p (d # ds) (Some (p, d # ds))"
        using True by (simp add: like_loop.simps)
      also have "\<dots> \<longleftrightarrow> like_spec p (d # ds) \<or> like_spec (CHR ''%'' # p) ds"
        using like_loop_star [of "[]" "[]" _ p "d # ds"] by (simp add: like_chars_def)
      finally show ?thesis by (simp add: t True like_spec_percent_Cons)
    next
      case False
      then show ?thesis using Cons.IH [of ds] by (simp add: t like_loop.simps like_spec_char)
    qed
  qed
qed

section \<open>Weights and scores\<close>

definition kWeightModuleMatch :: rat where "kWeightModuleMatch = 15 / 100"
definition kWeightImportMatch :: rat where "kWeightImportMatch = 80 / 100"
definition kWeightImportModuleMatch :: rat where "kWeightImportModuleMatch = 90 / 100"
definition kWeightNamespaceMatch :: rat where "kWeightNamespaceMatch = 10 / 100"
definition kWeightSignatureMatch :: rat where "kWeightSignatureMatch = 10 / 100"
definition kWeightDistanceMatch :: rat where "kWeightDistanceMatch = 5 / 100"
definition kWeightConstructorMatch :: rat where "kWeightConstructorMatch = 10 / 100"
definition kWeightReceiverMatch :: rat where "kWeightReceiverMatch = 15 / 100"
definition kWeightCommonNamePenalty :: rat where "kWeightCommonNamePenalty = 10 / 100"
definition kWeightCallKindMatch :: rat where "kWeightCallKindMatch = 15 / 100"
definition kWeightDefinitionMatch :: rat where "kWeightDefinitionMatch = 20 / 100"

definition kCallKindDirect :: int where "kCallKindDirect = 0"
definition kCallKindMethod :: int where "kCallKindMethod = 1"
definition kCallKindInterface :: int where "kCallKindInterface = 2"
definition kCallKindConstructor :: int where "kCallKindConstructor = 3"

definition kScoreExactMatch :: rat where "kScoreExactMatch = 1"
definition kScorePartialMatch :: rat where "kScorePartialMatch = 1 / 2"
definition kScorePenalty :: rat where "kScorePenalty = - 1 / 2"
definition kScoreSiblingModule :: rat where "kScoreSiblingModule = 1 / 2"
definition kScoreSameDirectory :: rat where "kScoreSameDirectory = 3 / 10"
definition kScoreWeakFilenameMatch :: rat where "kScoreWeakFilenameMatch = 2 / 10"

definition kResolutionThreshold :: rat where "kResolutionThreshold = 40 / 100"
definition kAmbiguityMargin :: rat where "kAmbiguityMargin = 15 / 100"
definition kCommonNamePenaltyValue :: rat where "kCommonNamePenaltyValue = 25 / 100"

lemmas weight_defs = kWeightModuleMatch_def kWeightImportMatch_def kWeightImportModuleMatch_def
  kWeightNamespaceMatch_def kWeightSignatureMatch_def kWeightDistanceMatch_def
  kWeightConstructorMatch_def kWeightReceiverMatch_def kWeightCommonNamePenalty_def
  kWeightCallKindMatch_def kWeightDefinitionMatch_def

lemmas score_defs = kScoreExactMatch_def kScorePartialMatch_def kScorePenalty_def
  kScoreSiblingModule_def kScoreSameDirectory_def kScoreWeakFilenameMatch_def
  kCommonNamePenaltyValue_def

lemmas call_kind_defs = kCallKindDirect_def kCallKindMethod_def kCallKindInterface_def kCallKindConstructor_def

section \<open>The factors\<close>

datatype factor =
    ModuleMatch | ImportMatch | ImportModuleMatch | NamespaceMatch | SignatureMatch | DistanceMatch
  | ConstructorMatch | ReceiverMatch | CommonNamePenalty | CallKindMatch | DefinitionMatch

definition kFactors :: "factor list" where
  "kFactors = [ModuleMatch, ImportMatch, ImportModuleMatch, NamespaceMatch, SignatureMatch, DistanceMatch,
     ConstructorMatch, ReceiverMatch, CommonNamePenalty, CallKindMatch, DefinitionMatch]"

fun factor_name :: "factor \<Rightarrow> bytes" where
  "factor_name ModuleMatch = ''ModuleMatch''"
| "factor_name ImportMatch = ''ImportMatch''"
| "factor_name ImportModuleMatch = ''ImportModuleMatch''"
| "factor_name NamespaceMatch = ''NamespaceMatch''"
| "factor_name SignatureMatch = ''SignatureMatch''"
| "factor_name DistanceMatch = ''DistanceMatch''"
| "factor_name ConstructorMatch = ''ConstructorMatch''"
| "factor_name ReceiverMatch = ''ReceiverMatch''"
| "factor_name CommonNamePenalty = ''CommonNamePenalty''"
| "factor_name CallKindMatch = ''CallKindMatch''"
| "factor_name DefinitionMatch = ''DefinitionMatch''"

text \<open>The factor that the environment variable disables, if it names one.\<close>

definition disabledFactor :: "bytes option \<Rightarrow> factor option" where
  "disabledFactor raw =
     (case raw of None \<Rightarrow> None | Some s \<Rightarrow> List.find (\<lambda>f. factor_name f = s) kFactors)"

definition resolutionKindFromFactor :: "factor \<Rightarrow> bytes" where
  "resolutionKindFromFactor f =
     (case f of
        ReceiverMatch \<Rightarrow> ''receiver_type''
      | ImportMatch \<Rightarrow> ''imported''
      | ImportModuleMatch \<Rightarrow> ''import_module''
      | SignatureMatch \<Rightarrow> ''signature''
      | DefinitionMatch \<Rightarrow> ''definition''
      | ConstructorMatch \<Rightarrow> ''constructor''
      | CallKindMatch \<Rightarrow> ''call_kind''
      | DistanceMatch \<Rightarrow> ''distance''
      | NamespaceMatch \<Rightarrow> ''namespace''
      | ModuleMatch \<Rightarrow> ''module''
      | CommonNamePenalty \<Rightarrow> [])"

definition factorSignatureMatch :: "int \<Rightarrow> int \<Rightarrow> rat" where
  "factorSignatureMatch caller_arity candidate_arity =
     (if caller_arity = 0 \<and> candidate_arity = 0 then kScorePartialMatch
      else if caller_arity = candidate_arity then kScoreExactMatch
      else if candidate_arity = 0 then kScorePartialMatch
      else kScorePenalty)"

definition factorConstructorMatch :: "bytes \<Rightarrow> bytes \<Rightarrow> int \<Rightarrow> rat" where
  "factorConstructorMatch ref_name candidate_name candidate_kind =
     (if candidate_kind \<noteq> 2 \<and> candidate_kind \<noteq> 3 then 0
      else if ref_name = candidate_name then kScoreExactMatch
      else 0)"

text \<open>\<open>canonicalTypeName\<close>: the bare name of a type as a use site writes it.\<close>

definition is_sigil_or_space :: "char \<Rightarrow> bool" where
  "is_sigil_or_space ch \<longleftrightarrow> ch = CHR ''*'' \<or> ch = CHR ''&'' \<or> isspace_c ch"

definition canonicalTypeName :: "bytes \<Rightarrow> bytes" where
  "canonicalTypeName type_name =
     (let t = rev (dropWhile is_sigil_or_space (rev (dropWhile is_sigil_or_space type_name)));
          plain = list_all (\<lambda>ch. ch = CHR ''.'' \<or> ch = CHR '':'' \<or> isalnum_c ch \<or> ch = CHR ''_'') t
      in if \<not> plain then []
         else rev (takeWhile (\<lambda>ch. ch \<noteq> CHR ''.'' \<and> ch \<noteq> CHR '':'') (rev t)))"

record receiver_ctx =
  prefix1 :: bytes
  prefix2 :: bytes
  rtype_lower :: bytes
  ctx_empty :: bool

definition buildReceiverMatchContext :: "bytes \<Rightarrow> receiver_ctx" where
  "buildReceiverMatchContext receiver_type =
     (let canonical = canonicalTypeName receiver_type in
      if canonical = [] then \<lparr>prefix1 = [], prefix2 = [], rtype_lower = [], ctx_empty = True\<rparr>
      else \<lparr>prefix1 = canonical @ ''::'', prefix2 = canonical @ ''.'',
            rtype_lower = lower canonical, ctx_empty = False\<rparr>)"

definition factorReceiverTypeMatchPrecomp :: "receiver_ctx \<Rightarrow> bytes \<Rightarrow> bytes \<Rightarrow> rat" where
  "factorReceiverTypeMatchPrecomp ctx qname file =
     (if ctx_empty ctx then 1 / 2
      else if qname \<noteq> [] \<and> (str_find (prefix1 ctx) qname = Some 0 \<or> str_find (prefix2 ctx) qname = Some 0)
        then kScoreExactMatch
      else if qname \<noteq> [] \<and> (str_contains (prefix1 ctx) qname \<or> str_contains (prefix2 ctx) qname)
        then kScorePartialMatch
      else let fname_lower = lower (last_token file) in
        if rtype_lower ctx \<noteq> [] \<and> str_contains (rtype_lower ctx) fname_lower
        then kScoreWeakFilenameMatch
        else 0)"

definition kCommonNames :: "bytes list" where
  "kCommonNames =
     [''Len'', ''Init'', ''Run'', ''Stop'', ''Close'', ''Open'', ''Read'', ''Write'', ''Get'', ''Set'',
      ''Add'', ''Remove'', ''Update'', ''Delete'', ''Create'', ''New'', ''Process'', ''Handle'', ''Execute'', ''Start'',
      ''End'', ''Error'', ''String'', ''Format'', ''Marshal'', ''Unmarshal'', ''Equals'', ''Compare'', ''Hash'', ''Copy'',
      ''Clone'', ''Reset'', ''Clear'', ''IsEmpty'', ''IsValid'', ''HasNext'', ''Next'', ''Previous'', ''First'', ''Last'',
      ''Value'', ''Key'', ''Int'', ''Float'', ''Bool'', ''Bytes'', ''Size'', ''Cap'']"

definition factorCommonNamePenalty :: "bytes \<Rightarrow> rat" where
  "factorCommonNamePenalty name = (if name \<in> set kCommonNames then kCommonNamePenaltyValue else 0)"

definition factorVisibilityCheck :: "bytes \<Rightarrow> bytes \<Rightarrow> bytes \<Rightarrow> bytes \<Rightarrow> rat" where
  "factorVisibilityCheck language candidate_name caller_file candidate_file =
     (if candidate_name = [] then 1
      else let first = hd candidate_name in
        if language = ''go'' \<and> islower_c first then
          (if dir_of caller_file = dir_of candidate_file then 1 else 0)
        else if language = ''python'' \<and> first = CHR ''_'' then
          (if caller_file = candidate_file then 1 else 0)
        else if (language = ''java'' \<or> language = ''kotlin'' \<or> language = ''csharp'') \<and> islower_c first then 1 / 2
        else 1)"

definition isCppSourceFile :: "bytes \<Rightarrow> bool" where
  "isCppSourceFile file_path \<longleftrightarrow>
     lowerExtension file_path \<in> {''.c'', ''.cpp'', ''.cc'', ''.cxx'', ''.c++'', ''.m'', ''.mm''}"

definition isCppHeaderFile :: "bytes \<Rightarrow> bool" where
  "isCppHeaderFile file_path \<longleftrightarrow>
     lowerExtension file_path \<in>
       {''.h'', ''.hpp'', ''.hh'', ''.hxx'', ''.h++'', ''.inl'', ''.ipp'', ''.tpp'', ''.tcc''}"

definition factorDefinitionMatch :: "bytes \<Rightarrow> bytes \<Rightarrow> rat" where
  "factorDefinitionMatch language candidate_file =
     (if language \<noteq> ''cpp'' then 1
      else if isCppSourceFile candidate_file then kScoreExactMatch
      else if isCppHeaderFile candidate_file then kScorePenalty
      else 1)"

section \<open>Facts about the factors\<close>

lemma languages_compatible_sym: "languagesCompatible a b = languagesCompatible b a"
  by (auto simp: languagesCompatible_def)

lemma signature_range: "factorSignatureMatch a b \<in> {kScorePartialMatch, kScoreExactMatch, kScorePenalty}"
  by (simp add: factorSignatureMatch_def)

lemma receiver_range:
  "factorReceiverTypeMatchPrecomp ctx q f \<in> {1 / 2, kScoreExactMatch, kScoreWeakFilenameMatch, 0}"
  by (simp add: factorReceiverTypeMatchPrecomp_def Let_def kScorePartialMatch_def)

lemma definition_range: "factorDefinitionMatch l f \<in> {kScoreExactMatch, kScorePenalty}"
  by (simp add: factorDefinitionMatch_def kScoreExactMatch_def)

lemma common_name_range: "factorCommonNamePenalty n \<in> {kCommonNamePenaltyValue, 0}"
  by (simp add: factorCommonNamePenalty_def)

lemma constructor_range: "factorConstructorMatch r n k \<in> {kScoreExactMatch, 0}"
  by (simp add: factorConstructorMatch_def)

lemma source_header_disjoint: "\<not> (isCppSourceFile f \<and> isCppHeaderFile f)"
  by (auto simp: isCppSourceFile_def isCppHeaderFile_def)

end
