(* ===== verification/Resolver_Fuzzy.thy ===== *)
theory Resolver_Fuzzy
  imports Resolver_Factors "HOL-Library.List_Lexorder" "HOL-Library.Char_ord"
begin

text \<open>
  The fuzzy fallback of the resolver, \<open>resolver/fuzzy_resolver.cpp\<close>: three lookups by name
  over all entities of a project, by case-insensitive equality, by prefix and by suffix.
  They replaced SQL queries with \<open>LIKE\<close>; the sorted indexes give the rows that the in-memory
  replica of the operator accepts, and \<open>Resolver_Sql\<close> compares them with the queries.

  The rows of the \<open>entity\<close> table are a list of ids and names in the order the statement
  returns them.  \<open>std::sort\<close> by name is \<open>sort_key\<close>; it keeps the order of equal names, which
  the code does not rely on, since every result is sorted by id afterwards.  \<open>lower_bound\<close>
  on a sorted range drops the entries below the key.
\<close>

section \<open>The index\<close>

type_synonym entity_row = "nat \<times> bytes"

record fuzzy_index =
  entities :: "entity_row list"
  folded_index :: "bytes \<Rightarrow> nat list"
  prefix_sorted :: "(bytes \<times> nat) list"
  suffix_sorted :: "(bytes \<times> nat) list"

abbreviation fold_name :: "bytes \<Rightarrow> bytes" where
  "fold_name s \<equiv> map likeFold s"

definition loadEntities :: "entity_row list \<Rightarrow> fuzzy_index" where
  "loadEntities rows =
     (let es = filter (\<lambda>e. snd e \<noteq> []) rows in
      \<lparr>entities = es,
       folded_index = fold (\<lambda>e m. m(fold_name (snd e) := m (fold_name (snd e)) @ [fst e])) es (\<lambda>_. []),
       prefix_sorted = sort_key fst (map (\<lambda>e. (fold_name (snd e), fst e)) es),
       suffix_sorted = sort_key fst (map (\<lambda>e. (rev (fold_name (snd e)), fst e)) es)\<rparr>)"

section \<open>The three lookups\<close>

definition resolveCaseInsensitive :: "fuzzy_index \<Rightarrow> bytes \<Rightarrow> nat \<Rightarrow> nat list" where
  "resolveCaseInsensitive ix name limit =
     (if name = [] then [] else take limit (folded_index ix (fold_name name)))"

text \<open>The linear scan of a pattern with wildcards; the limit is looked at after a match is
  kept.\<close>

fun like_scan :: "bytes \<Rightarrow> nat \<Rightarrow> nat list \<Rightarrow> entity_row list \<Rightarrow> nat list" where
  "like_scan pattern limit acc [] = acc"
| "like_scan pattern limit acc (e # es) =
     (if sqliteLikeMatch pattern (snd e) then
        (if limit \<le> length (acc @ [fst e]) then acc @ [fst e]
         else like_scan pattern limit (acc @ [fst e]) es)
      else like_scan pattern limit acc es)"

definition has_wildcard :: "bytes \<Rightarrow> bool" where
  "has_wildcard s \<longleftrightarrow> CHR ''%'' \<in> set s \<or> CHR ''_'' \<in> set s"

definition index_range :: "bytes \<Rightarrow> (bytes \<times> nat) list \<Rightarrow> nat list" where
  "index_range k sorted_index =
     map snd (takeWhile (\<lambda>e. length k \<le> length (fst e) \<and> take (length k) (fst e) = k)
                (dropWhile (\<lambda>e. fst e < k) sorted_index))"

definition resolvePrefix :: "fuzzy_index \<Rightarrow> bytes \<Rightarrow> nat \<Rightarrow> nat list" where
  "resolvePrefix ix pre limit =
     (if length pre < 3 then []
      else if has_wildcard pre then like_scan (pre @ ''%'') limit [] (entities ix)
      else take limit (sort (index_range (fold_name pre) (prefix_sorted ix))))"

definition resolveSuffix :: "fuzzy_index \<Rightarrow> bytes \<Rightarrow> nat \<Rightarrow> nat list" where
  "resolveSuffix ix suf limit =
     (if length suf < 3 then []
      else if has_wildcard suf then like_scan (CHR ''%'' # suf) limit [] (entities ix)
      else take limit (sort (index_range (rev (fold_name suf)) (suffix_sorted ix))))"

definition fuzzy_resolve :: "fuzzy_index \<Rightarrow> bytes \<Rightarrow> nat \<Rightarrow> nat list" where
  "fuzzy_resolve ix callee_name limit =
     (if callee_name = [] \<or> entities ix = [] then []
      else let r1 = resolveCaseInsensitive ix callee_name limit in
        if r1 \<noteq> [] then r1
        else let r2 = resolvePrefix ix callee_name limit in
          if r2 \<noteq> [] then r2
          else resolveSuffix ix callee_name limit)"

section \<open>The interface of a lookup\<close>

text \<open>A lookup returns, cut at the limit, the rows whose name matches: in some order, and in the order of the ids
  if the rows came in that order.\<close>

definition ascending :: "entity_row list \<Rightarrow> bool" where
  "ascending rows \<longleftrightarrow> sorted_wrt (<) (map fst rows)"

locale name_lookup =
  fixes query :: "entity_row list \<Rightarrow> bytes \<Rightarrow> nat \<Rightarrow> nat list"
    and accepts :: "bytes \<Rightarrow> bool"
    and matches :: "bytes \<Rightarrow> bytes \<Rightarrow> bool"
  assumes refused: "\<not> accepts n \<Longrightarrow> query rows n k = []"
    and lookup: "ascending rows \<Longrightarrow> accepts n \<Longrightarrow> 0 < k \<Longrightarrow>
      query rows n k = take k (map fst (filter (\<lambda>e. snd e \<noteq> [] \<and> matches n (snd e)) rows))"
    and any_order: "accepts n \<Longrightarrow> 0 < k \<Longrightarrow> \<exists>order. mset order = mset (filter (\<lambda>e. snd e \<noteq> [] \<and> matches n (snd e)) rows) \<and>
      query rows n k = take k (map fst order)"
begin

lemma lookup_length: "ascending rows \<Longrightarrow> 0 < k \<Longrightarrow> length (query rows n k) \<le> k"
  using refused [of n rows k] lookup [of rows n k] by (cases "accepts n") simp_all

lemma lookup_sound:
  assumes "ascending rows" and "0 < k" and "i \<in> set (query rows n k)"
  obtains name where "(i, name) \<in> set rows" and "matches n name" and "accepts n"
proof -
  have a: "accepts n" using assms(3) refused by fastforce
  then have "i \<in> set (map fst (filter (\<lambda>e. snd e \<noteq> [] \<and> matches n (snd e)) rows))"
    using assms(3) lookup [OF assms(1) a assms(2)] by (auto dest: in_set_takeD)
  then show ?thesis using that a by auto
qed

lemma lookup_complete:
  assumes "ascending rows" and "0 < k" and "accepts n" and "(i, name) \<in> set rows" and "name \<noteq> []" and "matches n name"
  shows "query rows n k \<noteq> []"
proof -
  have "filter (\<lambda>e. snd e \<noteq> [] \<and> matches n (snd e)) rows \<noteq> []"
    using assms(4-6) by (force simp: filter_empty_conv)
  then show ?thesis using assms lookup by simp
qed

lemma lookup_sorted:
  assumes "ascending rows" and "0 < k"
  shows "sorted_wrt (<) (query rows n k)"
proof (cases "accepts n")
  case True
  have "sorted_wrt (<) (map fst (filter P rows))" for P
    using assms(1) by (simp add: ascending_def sorted_wrt_map sorted_wrt_filter)
  then show ?thesis using lookup [OF assms(1) True assms(2)] by (simp add: sorted_wrt_take)
next
  case False
  then show ?thesis by (simp add: refused)
qed

end

section \<open>Prefixes in a sorted range\<close>

lemma prefix_Cons_iff: "prefix (c # k) s \<longleftrightarrow> (\<exists>s'. s = c # s' \<and> prefix k s')"
  by (cases s) auto

lemma prefix_le: "prefix (k :: bytes) s \<Longrightarrow> k \<le> s"
  by (induction k arbitrary: s) (auto simp: prefix_Cons_iff)

lemma between_prefix: "k \<le> a \<Longrightarrow> a \<le> b \<Longrightarrow> prefix (k :: bytes) b \<Longrightarrow> prefix k a"
proof (induction k arbitrary: a b)
  case (Cons c k)
  obtain b' where b: "b = c # b'" "prefix k b'" using Cons.prems(3) by (auto simp: prefix_Cons_iff)
  obtain d a' where a: "a = d # a'" using Cons.prems(1) by (cases a) auto
  have "c \<le> d" "d \<le> c" using Cons.prems(1,2) a b by auto
  then have "d = c" by simp
  then show ?case using Cons.prems(1,2) Cons.IH [of a' b'] a b by simp
qed simp

lemma take_prefix: "(length k \<le> length s \<and> take (length k) s = k) \<longleftrightarrow> prefix k s"
  by (metis append_eq_conv_conj append_take_drop_id le_eq_less_or_eq prefix_def prefix_length_le)

lemma sorted_range:
  fixes k :: bytes
  shows "sorted (map fst es) \<Longrightarrow>
   takeWhile (\<lambda>e. prefix k (fst e)) (dropWhile (\<lambda>e. fst e < k) es) = filter (\<lambda>e. prefix k (fst e)) es"
proof (induction es)
  case (Cons e es)
  show ?case
  proof (cases "fst e < k")
    case True
    then have "\<not> prefix k (fst e)" using prefix_le [of k "fst e"] by auto
    with True Cons show ?thesis by simp
  next
    case False
    then have ge: "k \<le> fst e" by simp
    have le: "\<And>x. x \<in> set es \<Longrightarrow> fst e \<le> fst x" using Cons.prems by auto
    show ?thesis
    proof (cases "prefix k (fst e)")
      case True
      have "dropWhile (\<lambda>e. fst e < k) es = es"
        using le ge by (cases es) (auto dest: order.strict_trans1 leD)
      with True False Cons show ?thesis by simp
    next
      case no: False
      then have "\<not> prefix k (fst x)" if "x \<in> set es" for x
        using between_prefix [OF ge le [OF that]] by blast
      with no False show ?thesis by (simp add: filter_empty_conv)
    qed
  qed
qed simp

lemma index_range_filter:
  fixes k :: bytes
  shows "sorted (map fst es) \<Longrightarrow> index_range k es = map snd (filter (\<lambda>e. prefix k (fst e)) es)"
  unfolding index_range_def take_prefix by (simp add: sorted_range)

lemma range_of_rows:
  assumes "ascending rows"
  shows "sort (index_range k (sort_key fst (map (\<lambda>e. (f (snd e), fst e)) rows))) =
    map fst (filter (\<lambda>e. prefix k (f (snd e))) rows)"
proof (rule properties_for_sort)
  let ?es = "map (\<lambda>e. (f (snd e), fst e)) rows"
  have "mset (index_range k (sort_key fst ?es)) = mset (map snd (filter (\<lambda>e. prefix k (fst e)) ?es))"
    by (simp add: index_range_filter)
  then show "mset (map fst (filter (\<lambda>e. prefix k (f (snd e))) rows)) = mset (index_range k (sort_key fst ?es))"
    by (simp add: filter_map comp_def)
  show "sorted (map fst (filter (\<lambda>e. prefix k (f (snd e))) rows))"
    using assms by (auto simp: ascending_def sorted_wrt_map intro: sorted_wrt_filter
        sorted_wrt_mono_rel [of _ "\<lambda>x y. fst x < fst y"])
qed

lemma range_in_some_order:
  "\<exists>order. mset order = mset (filter (\<lambda>e. prefix k (f (snd e))) rows) \<and>
     sort (index_range k (sort_key fst (map (\<lambda>e. (f (snd e), fst e)) rows))) = map fst order"
proof (intro exI conjI)
  let ?es = "map (\<lambda>e. (f (snd e), fst e)) rows" and ?order = "sort_key fst (filter (\<lambda>e. prefix k (f (snd e))) rows)"
  show "mset ?order = mset (filter (\<lambda>e. prefix k (f (snd e))) rows)" by simp
  have "mset (index_range k (sort_key fst ?es)) = mset (map snd (filter (\<lambda>e. prefix k (fst e)) ?es))"
    by (simp add: index_range_filter)
  then have "mset (map fst ?order) = mset (index_range k (sort_key fst ?es))"
    by (simp add: filter_map comp_def)
  then show "sort (index_range k (sort_key fst ?es)) = map fst ?order"
    by (intro properties_for_sort) simp_all
qed

section \<open>The lookups meet the interface\<close>

lemma ascending_filter: "ascending rows \<Longrightarrow> ascending (filter P rows)"
  by (simp add: ascending_def sorted_wrt_map sorted_wrt_filter)

lemma folded_index_rows:
  "fold (\<lambda>e m. m(fold_name (snd e) := m (fold_name (snd e)) @ [fst e])) es m k =
     m k @ map fst (filter (\<lambda>e. fold_name (snd e) = k) es)"
  by (induction es arbitrary: m) auto

lemma like_scan_rows:
  "length acc < limit \<Longrightarrow> like_scan pattern limit acc es =
     acc @ take (limit - length acc) (map fst (filter (\<lambda>e. sqliteLikeMatch pattern (snd e)) es))"
proof (induction es arbitrary: acc)
  case (Cons e es)
  show ?case
  proof (cases "sqliteLikeMatch pattern (snd e)")
    case True
    show ?thesis
    proof (cases "limit \<le> length (acc @ [fst e])")
      case limit: True
      then have "limit - length acc = Suc 0" using Cons.prems by simp
      then show ?thesis using True limit by simp
    next
      case False
      then have "limit - length acc = Suc (limit - length (acc @ [fst e]))" by simp
      moreover have "like_scan pattern limit (acc @ [fst e]) es = (acc @ [fst e]) @
          take (limit - length (acc @ [fst e])) (map fst (filter (\<lambda>e. sqliteLikeMatch pattern (snd e)) es))"
        using False by (intro Cons.IH) simp
      ultimately show ?thesis using True False by simp
    qed
  next
    case False
    then show ?thesis using Cons by simp
  qed
qed simp

lemma like_chars_fold: "\<not> has_wildcard q \<Longrightarrow> like_chars q u \<longleftrightarrow> fold_name q = fold_name u"
proof (induction q arbitrary: u)
  case Nil
  then show ?case by (simp add: like_chars_def)
next
  case (Cons c q)
  then show ?case by (cases u) (auto simp: like_chars_def has_wildcard_def)
qed

lemma like_any: "like_spec ''%'' s"
  by (auto simp: like_spec_percent)

lemma like_prefix:
  assumes "\<not> has_wildcard q"
  shows "like_spec (q @ ''%'') name \<longleftrightarrow> prefix (fold_name q) (fold_name name)"
proof -
  have "like_spec (q @ ''%'') name \<longleftrightarrow> (\<exists>u s. name = u @ s \<and> fold_name q = fold_name u)"
    using assms by (subst like_spec_append) (auto simp: has_wildcard_def like_any like_chars_fold)
  also have "\<dots> \<longleftrightarrow> prefix (fold_name q) (fold_name name)"
    by (auto simp: prefix_def map_eq_append_conv)
  finally show ?thesis .
qed

lemma like_suffix:
  assumes "\<not> has_wildcard q"
  shows "like_spec (CHR ''%'' # q) name \<longleftrightarrow> prefix (rev (fold_name q)) (rev (fold_name name))"
proof -
  have "like_spec q s \<longleftrightarrow> fold_name q = fold_name s" for s
    using like_spec_append [of q "[]" s] assms by (auto simp: has_wildcard_def like_chars_fold)
  then have "like_spec (CHR ''%'' # q) name \<longleftrightarrow> (\<exists>u s. name = u @ s \<and> fold_name q = fold_name s)"
    by (simp add: like_spec_percent)
  also have "\<dots> \<longleftrightarrow> suffix (fold_name q) (fold_name name)"
    by (auto simp: suffix_def map_eq_append_conv)
  finally show ?thesis by (simp add: suffix_to_prefix)
qed

lemma exact_rows:
  "n \<noteq> [] \<Longrightarrow> resolveCaseInsensitive (loadEntities rows) n k =
     take k (map fst (filter (\<lambda>e. snd e \<noteq> [] \<and> fold_name (snd e) = fold_name n) rows))"
  by (simp add: resolveCaseInsensitive_def loadEntities_def Let_def folded_index_rows)

interpretation exact: name_lookup "\<lambda>rows. resolveCaseInsensitive (loadEntities rows)"
  "\<lambda>n. n \<noteq> []" "\<lambda>n name. fold_name name = fold_name n"
proof unfold_locales
  fix n :: bytes and rows :: "entity_row list" and k :: nat
  show "\<exists>order. mset order = mset (filter (\<lambda>e. snd e \<noteq> [] \<and> fold_name (snd e) = fold_name n) rows) \<and>
      resolveCaseInsensitive (loadEntities rows) n k = take k (map fst order)" if "n \<noteq> []"
    using exact_rows [OF that] by blast
qed (simp_all add: exact_rows, simp add: resolveCaseInsensitive_def)

lemma prefix_rows:
  assumes "3 \<le> length n" and "0 < k"
  shows "resolvePrefix (loadEntities rows) n k =
    (if has_wildcard n then take k (map fst (filter (\<lambda>e. snd e \<noteq> [] \<and> like_spec (n @ ''%'') (snd e)) rows))
     else take k (sort (index_range (fold_name n)
            (sort_key fst (map (\<lambda>e. (fold_name (snd e), fst e)) (filter (\<lambda>e. snd e \<noteq> []) rows))))))"
  using assms
  by (simp add: resolvePrefix_def loadEntities_def like_scan_rows sqliteLikeMatch_def like_loop_none Let_def conj_commute)

lemma suffix_rows:
  assumes "3 \<le> length n" and "0 < k"
  shows "resolveSuffix (loadEntities rows) n k =
    (if has_wildcard n then take k (map fst (filter (\<lambda>e. snd e \<noteq> [] \<and> like_spec (CHR ''%'' # n) (snd e)) rows))
     else take k (sort (index_range (rev (fold_name n))
            (sort_key fst (map (\<lambda>e. (rev (fold_name (snd e)), fst e)) (filter (\<lambda>e. snd e \<noteq> []) rows))))))"
  using assms
  by (simp add: resolveSuffix_def loadEntities_def like_scan_rows sqliteLikeMatch_def like_loop_none Let_def conj_commute)

interpretation by_prefix: name_lookup "\<lambda>rows. resolvePrefix (loadEntities rows)"
  "\<lambda>n. 3 \<le> length n" "\<lambda>n name. like_spec (n @ ''%'') name"
proof unfold_locales
  fix n :: bytes and rows :: "entity_row list" and k :: nat
  let ?es = "filter (\<lambda>e. snd e \<noteq> []) rows"
  show "\<not> 3 \<le> length n \<Longrightarrow> resolvePrefix (loadEntities rows) n k = []"
    by (simp add: resolvePrefix_def)
  assume n: "3 \<le> length n" and k: "0 < k"
  show "resolvePrefix (loadEntities rows) n k =
      take k (map fst (filter (\<lambda>e. snd e \<noteq> [] \<and> like_spec (n @ ''%'') (snd e)) rows))" if rows: "ascending rows"
    using range_of_rows [OF ascending_filter [OF rows], of "fold_name n" fold_name "\<lambda>e. snd e \<noteq> []"]
    unfolding prefix_rows [OF n k] by (simp add: like_prefix conj_commute)
  show "\<exists>order. mset order = mset (filter (\<lambda>e. snd e \<noteq> [] \<and> like_spec (n @ ''%'') (snd e)) rows) \<and>
      resolvePrefix (loadEntities rows) n k = take k (map fst order)"
  proof (cases "has_wildcard n")
    case True
    then show ?thesis unfolding prefix_rows [OF n k]
      by (intro exI [of _ "filter (\<lambda>e. snd e \<noteq> [] \<and> like_spec (n @ ''%'') (snd e)) rows"]) simp
  next
    case False
    then show ?thesis
      using range_in_some_order [of "fold_name n" fold_name ?es]
      unfolding prefix_rows [OF n k] by (auto simp: like_prefix conj_commute)
  qed
qed

interpretation by_suffix: name_lookup "\<lambda>rows. resolveSuffix (loadEntities rows)"
  "\<lambda>n. 3 \<le> length n" "\<lambda>n name. like_spec (CHR ''%'' # n) name"
proof unfold_locales
  fix n :: bytes and rows :: "entity_row list" and k :: nat
  let ?es = "filter (\<lambda>e. snd e \<noteq> []) rows"
  show "\<not> 3 \<le> length n \<Longrightarrow> resolveSuffix (loadEntities rows) n k = []"
    by (simp add: resolveSuffix_def)
  assume n: "3 \<le> length n" and k: "0 < k"
  show "resolveSuffix (loadEntities rows) n k =
      take k (map fst (filter (\<lambda>e. snd e \<noteq> [] \<and> like_spec (CHR ''%'' # n) (snd e)) rows))" if rows: "ascending rows"
    using range_of_rows [OF ascending_filter [OF rows], of "rev (fold_name n)" "\<lambda>s. rev (fold_name s)" "\<lambda>e. snd e \<noteq> []"]
    unfolding suffix_rows [OF n k] by (simp add: like_suffix conj_commute)
  show "\<exists>order. mset order = mset (filter (\<lambda>e. snd e \<noteq> [] \<and> like_spec (CHR ''%'' # n) (snd e)) rows) \<and>
      resolveSuffix (loadEntities rows) n k = take k (map fst order)"
  proof (cases "has_wildcard n")
    case True
    then show ?thesis unfolding suffix_rows [OF n k]
      by (intro exI [of _ "filter (\<lambda>e. snd e \<noteq> [] \<and> like_spec (CHR ''%'' # n) (snd e)) rows"]) simp
  next
    case False
    then show ?thesis
      using range_in_some_order [of "rev (fold_name n)" "\<lambda>s. rev (fold_name s)" ?es]
      unfolding suffix_rows [OF n k] by (auto simp: like_suffix conj_commute)
  qed
qed

lemma loaded_empty: "entities (loadEntities rows) = [] \<Longrightarrow> filter (\<lambda>e. snd e \<noteq> [] \<and> P e) rows = []"
  by (auto simp: loadEntities_def Let_def filter_empty_conv)

section \<open>Properties\<close>

text \<open>
  (C38) The replica of \<open>LIKE\<close> is the operator: the greedy matcher with one backtrack point
  accepts exactly the texts that the recursive reading of the pattern accepts, where \<open>%\<close>
  stands for any sequence of bytes and \<open>_\<close> for any one byte.
\<close>

theorem sqlite_like_match_spec: "sqliteLikeMatch pattern txt = like_spec pattern txt"
  by (simp add: sqliteLikeMatch_def like_loop_none)

end
