(* ===== verification/Resolver_Load.thy ===== *)
theory Resolver_Load
  imports Resolver_Fuzzy "HOL-Library.Product_Lexorder"
begin

text \<open>
  The tables the resolver loads before its loop: \<open>resolver/pipeline.h\<close> (\<open>Candidate\<close>,
  \<open>RefRow\<close>) and \<open>resolver/pipeline_load.cpp\<close> (\<open>loadEntityIndex\<close>, \<open>loadReferences\<close>,
  \<open>loadDispatchIndex\<close>).

  A table is the list of its rows in scan order; a nullable text column is an \<open>option\<close>.  The
  \<open>WHERE\<close> clauses are filters and \<open>ORDER BY\<close> is a stable sort by the named columns.  The
  order in which a hash map is walked is not fixed by the code: \<open>hash_order\<close>, an argument of
  \<open>loadDispatchIndex\<close>, gives the order of its keys.
\<close>

section \<open>Candidates and references\<close>

record candidate =
  entity_id :: nat
  cand_name :: bytes
  file_path :: bytes
  module_path :: bytes
  language :: bytes
  qualified_name :: bytes
  arity :: int
  kind :: int
  total_score :: rat
  deciding_factor :: "factor option"
  cand_dir :: bytes
  cand_parent :: bytes
  cand_module :: bytes
  receiver_score :: rat

record ref_row =
  ref_id :: nat
  ref_name :: bytes
  caller_id :: nat
  caller_file :: bytes
  call_kind :: int
  ref_arity :: int
  start_row :: int
  start_col :: int
  resolve_strategy :: bytes
  qualified_target :: bytes
  receiver_text :: bytes
  receiver_type :: bytes
  import_alias :: bytes
  call_site_file :: bytes

section \<open>loadEntityIndex\<close>

record entity_table_row =
  e_id :: nat
  e_project :: nat
  e_name :: "bytes option"
  e_file :: "bytes option"
  e_language :: "bytes option"
  e_arity :: int
  e_kind :: int
  e_qualified :: "bytes option"

abbreviation text_of :: "bytes option \<Rightarrow> bytes" where
  "text_of col \<equiv> (case col of None \<Rightarrow> [] | Some s \<Rightarrow> s)"

definition modulePath :: "bytes \<Rightarrow> bytes" where
  "modulePath path = dir_of path"

definition make_candidate :: "entity_table_row \<Rightarrow> candidate" where
  "make_candidate r =
     (let path = text_of (e_file r); d = dir_of path in
      \<lparr>entity_id = e_id r, cand_name = text_of (e_name r), file_path = path,
       module_path = modulePath path,
       language = (case e_language r of Some l \<Rightarrow> l | None \<Rightarrow> languageFromPath path),
       qualified_name = text_of (e_qualified r), arity = e_arity r, kind = e_kind r,
       total_score = 0, deciding_factor = None,
       cand_dir = d, cand_parent = dir_of d, cand_module = last_token d, receiver_score = 0\<rparr>)"

definition project_entities :: "nat \<Rightarrow> entity_table_row list \<Rightarrow> entity_table_row list" where
  "project_entities project rows =
     sort_key e_id (filter (\<lambda>r. e_project r = project \<and> e_name r \<noteq> None \<and> e_name r \<noteq> Some []) rows)"

definition entity_index :: "nat \<Rightarrow> entity_table_row list \<Rightarrow> bytes \<Rightarrow> candidate list" where
  "entity_index project rows name =
     filter (\<lambda>c. cand_name c = name) (map make_candidate (project_entities project rows))"

definition entity_by_id :: "nat \<Rightarrow> entity_table_row list \<Rightarrow> nat \<Rightarrow> candidate option" where
  "entity_by_id project rows i =
     List.find (\<lambda>c. entity_id c = i) (map make_candidate (project_entities project rows))"

record import_row =
  i_project :: nat
  i_file :: "bytes option"
  i_target :: "bytes option"

definition load_imports :: "nat \<Rightarrow> import_row list \<Rightarrow> bytes \<Rightarrow> bytes list option" where
  "load_imports project rows =
     fold (\<lambda>r m. m(text_of (i_file r) \<mapsto> (case m (text_of (i_file r)) of None \<Rightarrow> [] | Some ts \<Rightarrow> ts) @
                                       [text_of (i_target r)]))
       (filter (\<lambda>r. i_project r = project) rows) Map.empty"

section \<open>semantic_records\<close>

record sem_record =
  s_project :: nat
  s_kind :: int
  s_name :: bytes
  s_type_name :: bytes
  s_qualified :: bytes
  s_file :: bytes
  s_parent :: nat
  s_original :: nat

text \<open>The imported names of each file and the module each comes from; a later record of the
  same name overwrites an earlier one.\<close>

definition load_bindings :: "nat \<Rightarrow> sem_record list \<Rightarrow> bytes \<Rightarrow> bytes \<Rightarrow> bytes option" where
  "load_bindings project recs =
     fold (\<lambda>r m. m(s_file r := (m (s_file r))(s_name r \<mapsto> s_type_name r)))
       (filter (\<lambda>r. s_project r = project \<and> s_kind r = 21 \<and> s_name r \<noteq> [] \<and> s_type_name r \<noteq> [] \<and>
                    s_file r \<noteq> []) recs) (\<lambda>_. Map.empty)"

definition append_to :: "bytes \<Rightarrow> bytes \<Rightarrow> (bytes \<Rightarrow> bytes list) \<Rightarrow> bytes \<Rightarrow> bytes list" where
  "append_to k v m = m(k := m k @ [v])"

text \<open>Step 8.1: the implementations recorded by the visitors.\<close>

definition recorded_impls :: "nat \<Rightarrow> sem_record list \<Rightarrow> bytes \<Rightarrow> bytes list" where
  "recorded_impls project recs =
     fold (\<lambda>r. append_to (s_type_name r) (s_name r))
       (filter (\<lambda>r. s_project r = project \<and> s_kind r = 20 \<and> s_name r \<noteq> [] \<and> s_type_name r \<noteq> []) recs)
       (\<lambda>_. [])"

text \<open>Step 8.1b: methods by the type before the first dot of their qualified name.\<close>

definition split_method :: "bytes \<Rightarrow> (bytes \<times> bytes) option" where
  "split_method q =
     (case str_find ''.'' q of
        None \<Rightarrow> None
      | Some dot \<Rightarrow>
          (let t = take dot q; m = drop (Suc dot) q in if t = [] \<or> m = [] then None else Some (t, m)))"

definition type_methods :: "nat \<Rightarrow> sem_record list \<Rightarrow> (bytes \<times> bytes) list" where
  "type_methods project recs =
     List.map_filter (\<lambda>r. split_method (s_qualified r))
       (filter (\<lambda>r. s_project r = project \<and> s_kind r = 1 \<and> s_qualified r \<noteq> []) recs)"

definition interface_names :: "nat \<Rightarrow> sem_record list \<Rightarrow> bytes list" where
  "interface_names project recs =
     map s_name (filter (\<lambda>r. s_project r = project \<and> s_kind r = 3 \<and> s_name r \<noteq> []) recs)"

definition methods_of :: "(bytes \<times> bytes) list \<Rightarrow> bytes \<Rightarrow> bytes list" where
  "methods_of ms t = map snd (filter (\<lambda>m. fst m = t) ms)"

definition add_impl :: "bytes \<Rightarrow> bytes \<Rightarrow> (bytes \<Rightarrow> bytes list) \<Rightarrow> bytes \<Rightarrow> bytes list" where
  "add_impl iface stype m = (if stype \<in> set (m iface) then m else append_to iface stype m)"

definition matched_impls ::
  "(bytes list \<Rightarrow> bytes list) \<Rightarrow> nat \<Rightarrow> sem_record list \<Rightarrow> (bytes \<Rightarrow> bytes list) \<Rightarrow> bytes \<Rightarrow> bytes list" where
  "matched_impls hash_order project recs index =
     (let ms = type_methods project recs;
          names = interface_names project recs;
          ifaces = hash_order (remdups (filter (\<lambda>t. t \<in> set names) (map fst ms)));
          structs = hash_order (remdups (filter (\<lambda>t. t \<notin> set names) (map fst ms)))
      in fold (\<lambda>iface. fold (\<lambda>stype m.
             if stype = iface then m
             else if list_all (\<lambda>x. x \<in> set (methods_of ms stype)) (methods_of ms iface)
               then add_impl iface stype m
               else m) structs) ifaces index)"

text \<open>Step 8.1c: the field types of structs and the types of variables.  Both are joins of a
  record with its parent, ordered by content.\<close>

definition sem_join :: "nat \<Rightarrow> (int \<Rightarrow> bool) \<Rightarrow> sem_record list \<Rightarrow> (bytes \<times> bytes \<times> bytes) list" where
  "sem_join project parent_kind recs =
     concat (map (\<lambda>t. map (\<lambda>p. (s_name p, s_name t, s_type_name t))
         (filter (\<lambda>p. s_original p = s_parent t \<and> s_project p = s_project t \<and> s_file p = s_file t \<and>
                      parent_kind (s_kind p)) recs))
       (filter (\<lambda>t. s_project t = project \<and> s_kind t = 17 \<and> s_name t \<noteq> [] \<and> s_type_name t \<noteq> []) recs))"

definition load_struct_fields :: "nat \<Rightarrow> sem_record list \<Rightarrow> bytes \<Rightarrow> bytes \<Rightarrow> bytes option" where
  "load_struct_fields project recs =
     fold (\<lambda>(stype, fname, ftype) m. m(stype := (m stype)(fname \<mapsto> ftype)))
       (sort (sem_join project (\<lambda>k. k = 2) recs)) (\<lambda>_. Map.empty)"

definition load_var_types :: "nat \<Rightarrow> sem_record list \<Rightarrow> bytes \<Rightarrow> bytes list" where
  "load_var_types project recs =
     fold (\<lambda>(vname, vtype). append_to vname vtype)
       (sort (map snd (sem_join project (\<lambda>k. k = 0 \<or> k = 1) recs))) (\<lambda>_. [])"

section \<open>The loaded pipeline\<close>

record pipeline =
  index :: "bytes \<Rightarrow> candidate list"
  by_id :: "nat \<Rightarrow> candidate option"
  import_index :: "bytes \<Rightarrow> bytes list option"
  import_alias_index :: "bytes \<Rightarrow> bytes \<Rightarrow> bytes option"
  interface_impl_index :: "bytes \<Rightarrow> bytes list"
  global_struct_fields :: "bytes \<Rightarrow> bytes \<Rightarrow> bytes option"
  global_var_types :: "bytes \<Rightarrow> bytes list"
  fuzzy :: fuzzy_index
  disabled :: "factor option"

record tables =
  entity_table :: "entity_table_row list"
  import_table :: "import_row list"
  semantic_records :: "sem_record list"

definition loadEntityIndex :: "nat \<Rightarrow> tables \<Rightarrow> pipeline \<Rightarrow> pipeline" where
  "loadEntityIndex project db p =
     p\<lparr>index := entity_index project (entity_table db),
       by_id := entity_by_id project (entity_table db),
       import_index := load_imports project (import_table db),
       import_alias_index := load_bindings project (semantic_records db)\<rparr>"

definition loadDispatchIndex ::
  "(bytes list \<Rightarrow> bytes list) \<Rightarrow> nat \<Rightarrow> tables \<Rightarrow> pipeline \<Rightarrow> pipeline" where
  "loadDispatchIndex hash_order project db p =
     p\<lparr>interface_impl_index :=
         matched_impls hash_order project (semantic_records db) (recorded_impls project (semantic_records db)),
       global_struct_fields := load_struct_fields project (semantic_records db),
       global_var_types := load_var_types project (semantic_records db)\<rparr>"

definition fuzzy_rows :: "nat \<Rightarrow> entity_table_row list \<Rightarrow> entity_row list" where
  "fuzzy_rows project rows =
     map (\<lambda>r. (e_id r, text_of (e_name r))) (filter (\<lambda>r. e_project r = project \<and> text_of (e_name r) \<noteq> []) rows)"

definition empty_pipeline :: "fuzzy_index \<Rightarrow> factor option \<Rightarrow> pipeline" where
  "empty_pipeline ix off =
     \<lparr>index = (\<lambda>_. []), by_id = (\<lambda>_. None), import_index = (\<lambda>_. None), import_alias_index = (\<lambda>_ _. None),
      interface_impl_index = (\<lambda>_. []), global_struct_fields = (\<lambda>_ _. None), global_var_types = (\<lambda>_. []),
      fuzzy = ix, disabled = off\<rparr>"

definition load_pipeline ::
  "(bytes list \<Rightarrow> bytes list) \<Rightarrow> bytes option \<Rightarrow> nat \<Rightarrow> tables \<Rightarrow> pipeline" where
  "load_pipeline hash_order disable_env project db =
     loadDispatchIndex hash_order project db
       (loadEntityIndex project db
         (empty_pipeline (loadEntities (fuzzy_rows project (entity_table db))) (disabledFactor disable_env)))"

section \<open>loadReferences\<close>

record reference_table_row =
  r_id :: nat
  r_name :: "bytes option"
  r_caller :: nat
  r_arity :: int
  r_row :: int
  r_col :: int
  r_kind :: int
  r_strategy :: "bytes option"
  r_file :: "bytes option"
  r_qualified :: "bytes option"
  r_receiver_text :: "bytes option"
  r_receiver_type :: "bytes option"
  r_alias :: "bytes option"
  r_site :: "bytes option"

definition read_reference :: "reference_table_row \<Rightarrow> ref_row option" where
  "read_reference r =
     (case (r_name r, r_file r) of
        (Some name, Some path) \<Rightarrow>
          if name = [] then None
          else Some
            \<lparr>ref_id = r_id r, ref_name = name, caller_id = r_caller r, caller_file = path,
             call_kind = r_kind r, ref_arity = r_arity r, start_row = r_row r, start_col = r_col r,
             resolve_strategy = text_of (r_strategy r), qualified_target = text_of (r_qualified r),
             receiver_text = text_of (r_receiver_text r), receiver_type = text_of (r_receiver_type r),
             import_alias = text_of (r_alias r),
             call_site_file = (case r_site r of Some s \<Rightarrow> s | None \<Rightarrow> path)\<rparr>
      | _ \<Rightarrow> None)"

definition loadReferences :: "reference_table_row list \<Rightarrow> ref_row list" where
  "loadReferences rows = List.map_filter read_reference rows"

end
