(* ===== verification/Resolver_Score.thy ===== *)
theory Resolver_Score
  imports Resolver_Load
begin

text \<open>
  The scorer of the resolver, \<open>ResolverPipeline::applyConstraints\<close> of
  \<open>resolver/pipeline_apply.cpp\<close>: eleven weighted factors per candidate, their weighted
  average, the factor that decided it, and the order of the candidates.

  The values the code computes once per reference are the record \<open>ref_ctx\<close>.  The calls of
  the lambda \<open>acc\<close> are the list \<open>factor_terms\<close>, in the order of the code, and \<open>acc\<close> is one
  step of the fold over it.
\<close>

section \<open>Values computed once per reference\<close>

record ref_ctx =
  x_file :: bytes
  x_name :: bytes
  x_call_kind :: int
  x_arity :: int
  x_dir :: bytes
  x_parent :: bytes
  x_module :: bytes
  x_import_spec :: bytes
  x_common_penalty :: rat
  x_receiver_known :: bool
  x_receiver_ctx :: receiver_ctx
  x_fwd_joined :: bytes

text \<open>The import paths of the caller fused into one string, a NUL byte after each.\<close>

definition join_nul :: "bytes list \<Rightarrow> bytes" where
  "join_nul paths = concat (map (\<lambda>p. p @ [CHR 0x00]) paths)"

definition anyImportMatches :: "bytes list \<Rightarrow> bytes \<Rightarrow> bool" where
  "anyImportMatches paths m = list_ex (str_contains m) paths"

definition ref_context :: "pipeline \<Rightarrow> bytes \<Rightarrow> bytes \<Rightarrow> int \<Rightarrow> int \<Rightarrow> bytes \<Rightarrow> ref_ctx" where
  "ref_context pl file name ckind arity0 rtype =
     (let d = dir_of file in
      \<lparr>x_file = file, x_name = name, x_call_kind = ckind, x_arity = arity0,
       x_dir = d, x_parent = dir_of d, x_module = last_token d,
       x_import_spec = (case import_alias_index pl file name of
           Some (c # spec) \<Rightarrow> if c = CHR ''.'' then c # spec else []
         | _ \<Rightarrow> []),
       x_common_penalty = factorCommonNamePenalty name,
       x_receiver_known = (rtype \<noteq> []),
       x_receiver_ctx = buildReceiverMatchContext rtype,
       x_fwd_joined = (case import_index pl file of None \<Rightarrow> [] | Some paths \<Rightarrow> join_nul paths)\<rparr>)"

section \<open>The scores of one candidate\<close>

definition ns_score :: "ref_ctx \<Rightarrow> candidate \<Rightarrow> rat" where
  "ns_score x c =
     (if cand_dir c \<noteq> [] \<and> x_dir x \<noteq> [] then
        (if x_dir x = cand_dir c then kScoreExactMatch
         else if x_parent x = cand_parent c \<and> x_parent x \<noteq> [] then kScoreSiblingModule
         else 0)
      else 0)"

definition import_score :: "pipeline \<Rightarrow> ref_ctx \<Rightarrow> candidate \<Rightarrow> rat" where
  "import_score pl x c =
     (if cand_name c \<noteq> x_name x then 0
      else if x_dir x \<noteq> [] \<and> x_dir x = cand_dir c then 1
      else if x_fwd_joined x \<noteq> [] \<and> str_contains (cand_module c) (x_fwd_joined x) then 1
      else case import_index pl (file_path c) of
             Some paths \<Rightarrow> if anyImportMatches paths (x_module x) then 1 else 0
           | None \<Rightarrow> 0)"

definition signature_score :: "ref_ctx \<Rightarrow> candidate \<Rightarrow> rat" where
  "signature_score x c =
     (let s = factorSignatureMatch (x_arity x) (arity c) in
      if s = kScorePenalty \<and> x_arity x < arity c \<and> allowsDefaultArguments (file_path c)
      then kScorePartialMatch else s)"

definition dist_score :: "ref_ctx \<Rightarrow> candidate \<Rightarrow> rat" where
  "dist_score x c =
     (if x_file x = file_path c then kScoreExactMatch
      else if x_dir x \<noteq> [] \<and> x_dir x = cand_dir c then kScoreSameDirectory
      else 0)"

definition recv_score :: "ref_ctx \<Rightarrow> candidate \<Rightarrow> rat" where
  "recv_score x c =
     (if x_receiver_known x
      then factorReceiverTypeMatchPrecomp (x_receiver_ctx x) (qualified_name c) (file_path c)
      else 1 / 2)"

definition penalty_score :: "ref_ctx \<Rightarrow> candidate \<Rightarrow> rat" where
  "penalty_score x c = (if 0 < ns_score x c then 0 else - x_common_penalty x)"

definition call_kind_score :: "int \<Rightarrow> rat" where
  "call_kind_score k =
     (if k = kCallKindConstructor then 3 / 10
      else if k = kCallKindInterface then - 3 / 10
      else if k = kCallKindMethod then - 1 / 10
      else 0)"

definition factor_terms :: "pipeline \<Rightarrow> ref_ctx \<Rightarrow> candidate \<Rightarrow> (rat \<times> rat \<times> factor) list" where
  "factor_terms pl x c =
     [(kWeightModuleMatch, ns_score x c, ModuleMatch),
      (kWeightImportMatch, import_score pl x c, ImportMatch)] @
     (if x_import_spec x = [] then []
      else [(kWeightImportModuleMatch,
             if relativeImportMatchesFile (x_dir x) (x_import_spec x) (file_path c) then 1 else 0,
             ImportModuleMatch)]) @
     [(kWeightNamespaceMatch, ns_score x c, NamespaceMatch),
      (kWeightSignatureMatch, signature_score x c, SignatureMatch),
      (kWeightDistanceMatch, dist_score x c, DistanceMatch),
      (kWeightConstructorMatch, factorConstructorMatch (x_name x) (cand_name c) (kind c), ConstructorMatch),
      (kWeightReceiverMatch, recv_score x c, ReceiverMatch),
      (kWeightCommonNamePenalty, penalty_score x c, CommonNamePenalty)] @
     (if x_call_kind x = kCallKindDirect then []
      else [(kWeightCallKindMatch, call_kind_score (x_call_kind x), CallKindMatch)]) @
     [(kWeightDefinitionMatch, factorDefinitionMatch (language c) (file_path c), DefinitionMatch)]"

record accum =
  sum_weight :: rat
  sum_scored :: rat
  best_contribution :: rat
  deciding :: "factor option"

definition acc :: "factor option \<Rightarrow> rat \<times> rat \<times> factor \<Rightarrow> accum \<Rightarrow> accum" where
  "acc off term a =
     (case term of (weight, score, f) \<Rightarrow>
        if off = Some f then a
        else let contribution = weight * score;
                 a' = a\<lparr>sum_weight := sum_weight a + weight, sum_scored := sum_scored a + contribution\<rparr>
             in if best_contribution a < contribution
                then a'\<lparr>best_contribution := contribution, deciding := Some f\<rparr> else a')"

definition accumulate :: "factor option \<Rightarrow> (rat \<times> rat \<times> factor) list \<Rightarrow> accum" where
  "accumulate off terms =
     fold (acc off) terms \<lparr>sum_weight = 0, sum_scored = 0, best_contribution = 0, deciding = None\<rparr>"

definition score_candidate :: "pipeline \<Rightarrow> ref_ctx \<Rightarrow> candidate \<Rightarrow> candidate" where
  "score_candidate pl x c =
     (let a = accumulate (disabled pl) (factor_terms pl x c) in
      c\<lparr>receiver_score := recv_score x c, deciding_factor := deciding a,
        total_score := (if 0 < sum_weight a then sum_scored a / sum_weight a else 0)\<rparr>)"

text \<open>The comparator: the score descending, then the id ascending.\<close>

definition rank_key :: "candidate \<Rightarrow> rat \<times> nat" where
  "rank_key c = (- total_score c, entity_id c)"

definition applyConstraints ::
  "pipeline \<Rightarrow> candidate list \<Rightarrow> bytes \<Rightarrow> bytes \<Rightarrow> int \<Rightarrow> int \<Rightarrow> bytes \<Rightarrow> candidate list" where
  "applyConstraints pl cands file name ckind arity0 rtype =
     (let x = ref_context pl file name ckind arity0 rtype
      in sort_key rank_key (map (score_candidate pl x) cands))"

section \<open>The fused import string\<close>

lemma sublist_no_sep:
  assumes "sep \<notin> set m" and "sublist m (p @ sep # s)"
  shows "sublist m p \<or> sublist m s"
proof -
  obtain a b where ab: "p @ sep # s = a @ m @ b" using assms(2) by (auto simp: sublist_def)
  consider us where "p = a @ us" "us @ sep # s = m @ b" | us where "p @ us = a" "sep # s = us @ m @ b"
    using ab unfolding append_eq_append_conv2 by blast
  then show ?thesis
  proof cases
    case 1
    consider vs where "us = m @ vs" | vs where "us @ vs = m" "sep # s = vs @ b"
      using 1(2) unfolding append_eq_append_conv2 by blast
    then show ?thesis
    proof cases
      case (1 vs)
      with \<open>p = a @ us\<close> show ?thesis by (auto simp: sublist_def)
    next
      case (2 vs)
      then have "vs = []" using assms(1) by (cases vs) auto
      with 2 \<open>p = a @ us\<close> have "p = a @ m @ []" by simp
      then show ?thesis unfolding sublist_def by blast
    qed
  next
    case 2
    then show ?thesis using assms(1) by (cases us; cases m) (auto simp: sublist_def)
  qed
qed

lemma join_nul_contains:
  assumes "CHR 0x00 \<notin> set m" and "paths \<noteq> []"
  shows "str_contains m (join_nul paths) \<longleftrightarrow> anyImportMatches paths m"
  using assms(2)
proof (induction paths)
  case Nil
  then show ?case by simp
next
  case (Cons p ps)
  have cons: "join_nul (p # ps) = p @ CHR 0x00 # join_nul ps" by (simp add: join_nul_def)
  have "sublist m (p @ CHR 0x00 # join_nul ps) \<longleftrightarrow> sublist m p \<or> sublist m (join_nul ps)"
    using sublist_no_sep [OF assms(1)]
    by (metis append_Cons append_Nil sublist_appendI sublist_append_leftI sublist_append_rightI
        sublist_order.order.trans)
  moreover have "sublist m (join_nul ps) \<longleftrightarrow> anyImportMatches ps m" if "ps \<noteq> []"
    using Cons.IH that by (simp add: str_contains_iff)
  moreover have "sublist m (join_nul []) \<Longrightarrow> sublist m p"
    by (simp add: join_nul_def)
  ultimately show ?case
    using cons by (cases "ps = []") (auto simp: str_contains_iff anyImportMatches_def)
qed

section \<open>Ranking\<close>

lemma score_candidate_simps [simp]:
  "entity_id (score_candidate pl x c) = entity_id c" "cand_name (score_candidate pl x c) = cand_name c"
  "file_path (score_candidate pl x c) = file_path c" "language (score_candidate pl x c) = language c"
  "qualified_name (score_candidate pl x c) = qualified_name c"
  "receiver_score (score_candidate pl x c) = recv_score x c"
  by (simp_all add: score_candidate_def Let_def)

lemma applyConstraints_set:
  "set (applyConstraints pl cs file name ckind a rtype) =
     score_candidate pl (ref_context pl file name ckind a rtype) ` set cs"
  by (simp add: applyConstraints_def Let_def)

lemma applyConstraints_ids:
  "mset (map entity_id (applyConstraints pl cs file name ckind a rtype)) = mset (map entity_id cs)"
  by (simp add: applyConstraints_def Let_def image_mset.compositionality comp_def)

section \<open>The weighted sums\<close>

definition counted :: "factor option \<Rightarrow> (rat \<times> rat \<times> factor) list \<Rightarrow> (rat \<times> rat \<times> factor) list" where
  "counted off ts = filter (\<lambda>t. off \<noteq> Some (snd (snd t))) ts"

lemma fold_acc_sums:
  "sum_weight (fold (acc off) ts a) = sum_weight a + sum_list (map fst (counted off ts))"
  "sum_scored (fold (acc off) ts a) = sum_scored a + sum_list (map (\<lambda>t. fst t * fst (snd t)) (counted off ts))"
  by (induction ts arbitrary: a) (auto simp: acc_def counted_def Let_def split: prod.splits)

lemma accumulate_sums:
  "sum_weight (accumulate off ts) = sum_list (map fst (counted off ts))"
  "sum_scored (accumulate off ts) = sum_list (map (\<lambda>t. fst t * fst (snd t)) (counted off ts))"
  by (simp_all add: accumulate_def fold_acc_sums)

text \<open>What \<open>deciding\<close> holds: the first factor among the counted ones with the largest positive
  contribution.\<close>

definition decides :: "rat \<Rightarrow> factor option \<Rightarrow> (rat \<times> rat \<times> factor) list \<Rightarrow> bool" where
  "decides best d ts \<longleftrightarrow>
     (\<forall>t \<in> set ts. fst t * fst (snd t) \<le> best) \<and> 0 \<le> best \<and>
     (case d of None \<Rightarrow> best = 0
      | Some f \<Rightarrow> 0 < best \<and> (\<exists>t \<in> set ts. snd (snd t) = f \<and> fst t * fst (snd t) = best))"

lemma acc_decides:
  assumes "decides (best_contribution a) (deciding a) (counted off ts)"
  shows "decides (best_contribution (acc off t a)) (deciding (acc off t a)) (counted off (ts @ [t]))"
proof (cases t)
  case (fields w sc f)
  show ?thesis
  proof (cases "off = Some f")
    case True
    then show ?thesis using assms by (simp add: fields acc_def counted_def)
  next
    case False
    then show ?thesis
      using assms by (fastforce simp: fields acc_def counted_def decides_def Let_def split: option.splits)
  qed
qed

lemma accumulate_decides:
  "decides (best_contribution (accumulate off ts)) (deciding (accumulate off ts)) (counted off ts)"
proof (induction ts rule: rev_induct)
  case Nil
  then show ?case by (simp add: accumulate_def counted_def decides_def)
next
  case (snoc t ts)
  then show ?case using acc_decides [of "accumulate off ts" off ts t] by (simp add: accumulate_def)
qed

section \<open>The score of a candidate in the directory of the caller\<close>

lemma signature_score_ge: "- 1 / 2 \<le> signature_score x c"
  using signature_range [of "x_arity x" "arity c"] by (auto simp: signature_score_def score_defs Let_def)

lemma recv_score_ge: "0 \<le> recv_score x c"
  using receiver_range [of "x_receiver_ctx x" "qualified_name c" "file_path c"]
  by (auto simp: recv_score_def score_defs)

lemma constructor_ge: "0 \<le> factorConstructorMatch r n k"
  using constructor_range [of r n k] by (auto simp: score_defs)

lemma definition_ge: "- 1 / 2 \<le> factorDefinitionMatch l f"
  using definition_range [of l f] by (auto simp: score_defs)

lemma call_kind_ge: "- 3 / 10 \<le> call_kind_score k"
  by (simp add: call_kind_score_def)

lemma same_dir_scores:
  assumes "x_dir x \<noteq> []" and "cand_dir c = x_dir x" and "cand_name c = x_name x"
  shows "ns_score x c = 1" "import_score pl x c = 1" "3 / 10 \<le> dist_score x c" "penalty_score x c = 0"
  using assms by (simp_all add: ns_score_def import_score_def dist_score_def penalty_score_def score_defs)

lemma definition_other: "l \<noteq> ''cpp'' \<Longrightarrow> factorDefinitionMatch l f = 1"
  by (simp add: factorDefinitionMatch_def)

lemma same_dir_total:
  assumes "x_dir x \<noteq> []" and "cand_dir c = x_dir x" and "cand_name c = x_name x"
    and "disabled pl = None"
    and "x_import_spec x = [] \<or> language c \<noteq> ''cpp''"
  shows "117 / 280 \<le> total_score (score_candidate pl x c)"
proof -
  note same = same_dir_scores [OF assms(1-3)]
  note ge = same(3) signature_score_ge [of x c] recv_score_ge [of x c]
    constructor_ge [of "x_name x" "cand_name c" "kind c"] definition_ge [of "language c" "file_path c"]
    call_kind_ge [of "x_call_kind x"]
  let ?a = "accumulate None (factor_terms pl x c)"
  have total: "total_score (score_candidate pl x c) = (if 0 < sum_weight ?a then sum_scored ?a / sum_weight ?a else 0)"
    using assms(4) by (simp add: score_candidate_def Let_def)
  have "117 / 280 * sum_weight ?a \<le> sum_scored ?a \<and> 0 < sum_weight ?a"
  proof (cases "language c = ''cpp''")
    case True
    then show ?thesis
      using ge assms(5) by (auto simp: accumulate_sums counted_def factor_terms_def same weight_defs)
  next
    case False
    then show ?thesis
      using ge by (auto simp: accumulate_sums counted_def factor_terms_def same weight_defs definition_other)
  qed
  then show ?thesis
    by (simp add: total pos_le_divide_eq)
qed

section \<open>Properties\<close>

text \<open>
  (C15) Ranking is deterministic: the ranked list does not depend on the order in which the rows
  were loaded, each candidate ranks before those with a lower score, and equal scores are in
  the order of the ids.
\<close>

theorem ranking_deterministic:
  assumes "mset cs = mset cs'" and "distinct (map entity_id cs)"
  shows "applyConstraints pl cs file name ckind a rtype = applyConstraints pl cs' file name ckind a rtype \<and>
    sorted_wrt (\<lambda>b c. total_score c < total_score b \<or> (total_score b = total_score c \<and> entity_id b < entity_id c))
      (applyConstraints pl cs file name ckind a rtype)"
proof -
  let ?f = "score_candidate pl (ref_context pl file name ckind a rtype)"
  have ids: "distinct (map entity_id (map ?f cs))" using assms(2) by (simp add: comp_def)
  then have inj: "inj_on rank_key (set (map ?f cs))"
    by (auto simp: distinct_map rank_key_def inj_on_def)
  have "sort_key rank_key (map ?f cs) = sort_key rank_key (map ?f cs')"
    using assms(1) inj by (intro sort_key_perm) simp_all
  moreover have "sorted_wrt (<) (map rank_key (sort_key rank_key (map ?f cs)))"
  proof -
    have "distinct (map ?f cs)" using ids by (simp only: distinct_map simp_thms)
    then have "distinct (map rank_key (map ?f cs))" using inj by (simp only: distinct_map [of rank_key] simp_thms)
    then have "distinct (map rank_key (sort_key rank_key (map ?f cs)))"
      by (metis mset_eq_imp_distinct_iff mset_map mset_sort)
    then show ?thesis by (intro strict_sorted_iff [THEN iffD2] conjI) simp_all
  qed
  ultimately show ?thesis
    by (auto simp: applyConstraints_def Let_def sorted_wrt_map rank_key_def less_prod_def elim!: sorted_wrt_mono_rel [rotated])
qed

text \<open>
  The fused import string is equivalent to the scan of the paths: for module names without
  a NUL byte, one search in the joined string finds the module exactly when some path of a
  nonempty list contains it, so no match spans two paths.
\<close>

theorem fused_imports_equivalent:
  assumes "CHR 0x00 \<notin> set m"
  shows "join_nul paths \<noteq> [] \<and> str_contains m (join_nul paths) \<longleftrightarrow> anyImportMatches paths m"
proof (cases "paths = []")
  case True
  then show ?thesis by (simp add: join_nul_def anyImportMatches_def)
next
  case False
  then have "join_nul paths \<noteq> []" by (cases paths) (simp_all add: join_nul_def)
  then show ?thesis using join_nul_contains [OF assms False] by simp
qed

theorem fused_imports_equivalent_witness:
  "join_nul [''a/b'', ''c''] \<noteq> [] \<and> str_contains ''bc'' (join_nul [''a/b'', ''c'']) \<longleftrightarrow>
     anyImportMatches [''a/b'', ''c''] ''bc''"
  by (rule fused_imports_equivalent) simp

text \<open>
  The recorded factor is the evidence that decided: it is one of the counted factors, its
  contribution is positive and no other counted factor contributes more; none is recorded
  exactly when no factor contributes anything positive.
\<close>

theorem deciding_factor_is_largest:
  "case deciding_factor (score_candidate pl x c) of
     None \<Rightarrow> (\<forall>t \<in> set (counted (disabled pl) (factor_terms pl x c)). fst t * fst (snd t) \<le> 0)
   | Some f \<Rightarrow> (\<exists>t \<in> set (counted (disabled pl) (factor_terms pl x c)). snd (snd t) = f \<and> 0 < fst t * fst (snd t) \<and>
       (\<forall>u \<in> set (counted (disabled pl) (factor_terms pl x c)). fst u * fst (snd u) \<le> fst t * fst (snd t)))"
proof -
  have "deciding_factor (score_candidate pl x c) = deciding (accumulate (disabled pl) (factor_terms pl x c))"
    by (simp add: score_candidate_def Let_def)
  then show ?thesis
    using accumulate_decides [of "disabled pl" "factor_terms pl x c"]
    unfolding decides_def by (auto split: option.splits) (metis fst_conv snd_conv)
qed

end
