(* ===== verification/Resolver_Pipeline.thy ===== *)
theory Resolver_Pipeline
  imports Resolver_Score
begin

text \<open>
  The loop of the resolver, \<open>ResolverPipeline::run\<close> of \<open>resolver/pipeline.cpp\<close>, and the two
  tables its edges go to (\<open>resolver/pipeline_flush.cpp\<close>).

  \<open>run_state\<close> is what a turn of the loop reads and writes: the edges staged so far, the cache
  of fruitless fuzzy names, the memo of field chains, and the budget of the fuzzy path.
  The wall clock is an argument: \<open>over_budget n\<close> says whether the accumulated time exceeds
  \<open>kFuzzyBudgetMs\<close> after the \<open>n\<close>-th fuzzy lookup.  \<open>reason\<close> holds the parts the code prints
  into the text of the edge; the profiling counters are not modelled.
\<close>

section \<open>Edges and state\<close>

datatype edge_reason =
    SingleModule bool
  | DispatchOf bytes bytes bytes
  | QualifiedTarget bytes rat
  | DecidedBy factor bytes int rat
  | FieldPresent bytes bytes rat
  | NameArity bytes int rat

record resolved_edge =
  edge_caller :: nat
  target_id :: nat
  edge_type :: int
  edge_strategy :: bytes
  edge_confidence :: rat
  edge_resolver :: bytes
  resolution_kind :: bytes
  edge_reason :: edge_reason
  site_file :: bytes
  site_row :: int
  site_col :: int

record run_state =
  resolved_edges :: "resolved_edge list"
  fuzzy_miss_cache :: "bytes list"
  field_chain_cache :: "bytes \<Rightarrow> bytes option"
  fuzzy_calls :: nat
  fuzzy_budget_exhausted :: bool

definition kFuzzyCandidateLimit :: nat where "kFuzzyCandidateLimit = 5"
definition kMaxCandidatesToScore :: nat where "kMaxCandidatesToScore = 50"
definition kRelationTypeCall :: int where "kRelationTypeCall = 1"

definition skipFuzzyNames :: "bytes list" where
  "skipFuzzyNames =
     [''Error'', ''Len'', ''String'', ''Done'', ''Contains'', ''Errorf'', ''Sprintf'', ''Printf'', ''Print'', ''Println'',
      ''Panic'', ''Fatal'', ''Append'', ''Make'', ''Copy'', ''Delete'', ''Close'', ''Cap'', ''Range'', ''Value'']"

definition shouldSkipFuzzy :: "bytes \<Rightarrow> bool" where
  "shouldSkipFuzzy name \<longleftrightarrow> name \<in> set skipFuzzyNames"

definition make_edge :: "ref_row \<Rightarrow> nat \<Rightarrow> rat \<Rightarrow> bytes \<Rightarrow> edge_reason \<Rightarrow> resolved_edge" where
  "make_edge r target conf rkind why =
     \<lparr>edge_caller = caller_id r, target_id = target, edge_type = kRelationTypeCall,
      edge_strategy = resolve_strategy r, edge_confidence = conf, edge_resolver = ''pipeline'',
      resolution_kind = rkind, edge_reason = why,
      site_file = call_site_file r, site_row = start_row r, site_col = start_col r\<rparr>"

definition push_edges :: "resolved_edge list \<Rightarrow> run_state \<Rightarrow> run_state" where
  "push_edges es st = st\<lparr>resolved_edges := resolved_edges st @ es\<rparr>"

section \<open>Candidates of a reference\<close>

text \<open>The candidates and whether they come from the fuzzy fallback; \<open>None\<close> is a \<open>continue\<close>.\<close>

definition find_candidates ::
  "pipeline \<Rightarrow> (nat \<Rightarrow> bool) \<Rightarrow> ref_row \<Rightarrow> run_state \<Rightarrow> (candidate list \<times> bool) option \<times> run_state" where
  "find_candidates pl over_budget r st =
     (let cs = index pl (ref_name r) in
      if cs \<noteq> [] then (Some (cs, False), st)
      else if shouldSkipFuzzy (ref_name r) then (None, st)
      else if receiver_type r = [] \<and> qualified_target r = [] \<and> import_alias r = [] then (None, st)
      else if ref_name r \<in> set (fuzzy_miss_cache st) then (None, st)
      else if fuzzy_budget_exhausted st then (None, st)
      else let ids = fuzzy_resolve (fuzzy pl) (ref_name r) kFuzzyCandidateLimit;
               st1 = st\<lparr>fuzzy_calls := fuzzy_calls st + 1,
                        fuzzy_budget_exhausted := over_budget (fuzzy_calls st + 1)\<rparr>
           in if ids = [] then (None, st1\<lparr>fuzzy_miss_cache := ref_name r # fuzzy_miss_cache st\<rparr>)
              else (Some (List.map_filter (by_id pl) ids, True), st1))"

section \<open>The single-candidate fast path\<close>

text \<open>The two rules every edge of the resolver must pass.\<close>

definition eligible :: "ref_row \<Rightarrow> candidate \<Rightarrow> bool" where
  "eligible r c \<longleftrightarrow>
     entity_id c \<noteq> caller_id r \<and>
     languagesCompatible (languageFromPath (caller_file r)) (language c) \<and>
     1 / 2 \<le> factorVisibilityCheck (language c) (cand_name c) (caller_file r) (file_path c)"

definition same_dir_paths :: "bytes \<Rightarrow> bytes \<Rightarrow> bool" where
  "same_dir_paths a b \<longleftrightarrow>
     str_rfind (CHR ''/'') a \<noteq> None \<and> str_rfind (CHR ''/'') b \<noteq> None \<and> dir_of a = dir_of b"

datatype fast_outcome = FastSkip | FastEdge resolved_edge | NotFast

definition fast_path :: "ref_row \<Rightarrow> candidate list \<Rightarrow> bool \<Rightarrow> fast_outcome" where
  "fast_path r cands used_fuzzy =
     (case cands of
        [c] \<Rightarrow>
          if entity_id c = caller_id r then NotFast
          else if \<not> languagesCompatible (languageFromPath (caller_file r)) (language c) then FastSkip
          else if same_dir_paths (caller_file r) (file_path c) \<and> (\<not> used_fuzzy \<or> call_kind r = 0) \<and>
               1 / 2 \<le> factorVisibilityCheck (language c) (cand_name c) (caller_file r) (file_path c)
            then FastEdge (make_edge r (entity_id c) (85 / 100)
                   (if used_fuzzy then ''fuzzy_local'' else ''exact_local'') (SingleModule used_fuzzy))
          else NotFast
      | _ \<Rightarrow> NotFast)"

section \<open>Field chains\<close>

fun walk_chain :: "pipeline \<Rightarrow> bytes \<Rightarrow> bytes list \<Rightarrow> bytes option" where
  "walk_chain pl cur_type [] = Some cur_type"
| "walk_chain pl cur_type (fld # flds) =
     (case global_struct_fields pl cur_type fld of
        None \<Rightarrow> None
      | Some t \<Rightarrow> walk_chain pl (canonicalTypeName t) flds)"

text \<open>The type of the first candidate type of the variable whose whole chain resolves.\<close>

fun first_chain :: "pipeline \<Rightarrow> bytes list \<Rightarrow> bytes list \<Rightarrow> bytes" where
  "first_chain pl [] flds = []"
| "first_chain pl (t # ts) flds =
     (case walk_chain pl (canonicalTypeName t) flds of
        Some res \<Rightarrow> if res \<noteq> [] then res else first_chain pl ts flds
      | None \<Rightarrow> first_chain pl ts flds)"

definition chain_receiver :: "pipeline \<Rightarrow> bytes \<Rightarrow> bytes" where
  "chain_receiver pl txt =
     (let segs = split_all (CHR ''.'') txt in first_chain pl (global_var_types pl (hd segs)) (tl segs))"

definition resolve_receiver :: "pipeline \<Rightarrow> ref_row \<Rightarrow> run_state \<Rightarrow> bytes \<times> run_state" where
  "resolve_receiver pl r st =
     (if receiver_type r \<noteq> [] \<or> CHR ''.'' \<notin> set (receiver_text r) then (receiver_type r, st)
      else case field_chain_cache st (receiver_text r) of
        Some t \<Rightarrow> (t, st)
      | None \<Rightarrow>
          (let first = hd (split_all (CHR ''.'') (receiver_text r)); t = chain_receiver pl (receiver_text r) in
           if global_var_types pl first = [] then ([], st)
           else (t, st\<lparr>field_chain_cache := (field_chain_cache st)(receiver_text r \<mapsto> t)\<rparr>)))"

section \<open>Dispatch\<close>

definition impl_method :: "bytes \<Rightarrow> bytes \<Rightarrow> bool" where
  "impl_method impl_type qn \<longleftrightarrow>
     length impl_type < length qn \<and> take (length impl_type) qn = impl_type \<and>
     (qn ! length impl_type = CHR ''.'' \<or>
      (qn ! length impl_type = CHR '':'' \<and> length impl_type + 1 < length qn \<and>
       qn ! (length impl_type + 1) = CHR '':''))"

text \<open>The inner loop over the candidates, with the edges so far; \<open>True\<close> when both loops stop.\<close>

fun dispatch_cands ::
  "ref_row \<Rightarrow> nat \<Rightarrow> bytes \<Rightarrow> candidate list \<Rightarrow> resolved_edge list \<Rightarrow> resolved_edge list \<times> bool" where
  "dispatch_cands r limit impl_type [] es = (es, False)"
| "dispatch_cands r limit impl_type (c # cs) es =
     (if entity_id c = caller_id r \<or> \<not> impl_method impl_type (qualified_name c) \<or>
         \<not> languagesCompatible (languageFromPath (caller_file r)) (language c) \<or>
         factorVisibilityCheck (language c) (cand_name c) (caller_file r) (file_path c) < 1 / 2
      then dispatch_cands r limit impl_type cs es
      else let es' = es @ [make_edge r (entity_id c) (60 / 100) ''dispatch''
                             (DispatchOf (receiver_type r) impl_type (ref_name r))]
           in if limit \<le> length es' then (es', True) else dispatch_cands r limit impl_type cs es')"

fun dispatch_impls ::
  "ref_row \<Rightarrow> candidate list \<Rightarrow> bytes list \<Rightarrow> resolved_edge list \<Rightarrow> resolved_edge list" where
  "dispatch_impls r cands [] es = es"
| "dispatch_impls r cands (impl_type # impls) es =
     (case dispatch_cands r (length cands) impl_type cands es of
        (es', stop) \<Rightarrow> if stop then es' else dispatch_impls r cands impls es')"

definition dispatch_edges :: "pipeline \<Rightarrow> ref_row \<Rightarrow> bytes \<Rightarrow> candidate list \<Rightarrow> resolved_edge list" where
  "dispatch_edges pl r recv cands =
     (if recv = [] then [] else dispatch_impls r cands (interface_impl_index pl recv) [])"

section \<open>Selection on the scored path\<close>

text \<open>The best candidate and the id and score of the second; an id of 0 is "none".\<close>

record selection =
  best_cand :: "candidate option"
  best_id :: nat
  best_score :: rat
  second_id :: nat
  second_score :: rat

definition select_step :: "ref_row \<Rightarrow> candidate \<Rightarrow> selection \<Rightarrow> selection" where
  "select_step r c s =
     (if entity_id c = caller_id r then s
      else if factorVisibilityCheck (language c) (cand_name c) (caller_file r) (file_path c) < 1 / 2 then s
      else if \<not> languagesCompatible (languageFromPath (caller_file r)) (language c) then s
      else if best_score s < total_score c then
        \<lparr>best_cand = Some c, best_id = entity_id c, best_score = total_score c,
         second_id = best_id s, second_score = best_score s\<rparr>
      else if second_score s < total_score c then
        s\<lparr>second_id := entity_id c, second_score := total_score c\<rparr>
      else s)"

definition select_best :: "ref_row \<Rightarrow> candidate list \<Rightarrow> selection" where
  "select_best r cands =
     fold (select_step r) cands
       \<lparr>best_cand = None, best_id = 0, best_score = -1, second_id = 0, second_score = -1\<rparr>"

fun receiver_scores :: "ref_row \<Rightarrow> nat \<Rightarrow> candidate list \<Rightarrow> rat \<times> rat \<Rightarrow> rat \<times> rat" where
  "receiver_scores r best [] bo = bo"
| "receiver_scores r best (c # cs) (best_rec, other_rec) =
     (if entity_id c = caller_id r then receiver_scores r best cs (best_rec, other_rec)
      else if entity_id c = best then receiver_scores r best cs (receiver_score c, other_rec)
      else if other_rec < receiver_score c then receiver_scores r best cs (best_rec, receiver_score c)
      else receiver_scores r best cs (best_rec, other_rec))"

definition receiver_bypass :: "ref_row \<Rightarrow> nat \<Rightarrow> candidate list \<Rightarrow> bool" where
  "receiver_bypass r best cands \<longleftrightarrow>
     receiver_type r \<noteq> [] \<and>
     (case receiver_scores r best cands (0, 0) of
        (best_rec, other_rec) \<Rightarrow> kScoreExactMatch \<le> best_rec \<and> other_rec \<le> 0)"

definition label_edge :: "ref_row \<Rightarrow> candidate \<Rightarrow> rat \<Rightarrow> bytes \<times> edge_reason" where
  "label_edge r c score =
     (if qualified_target r \<noteq> [] \<and> qualified_name c = qualified_target r
      then (''qualified'', QualifiedTarget (qualified_target r) score)
      else case deciding_factor c of
        Some f \<Rightarrow>
          (let k = resolutionKindFromFactor f in
           (if k = [] then ''name_arity'' else k, DecidedBy f (ref_name r) (ref_arity r) score))
      | None \<Rightarrow>
          if receiver_type r \<noteq> [] then (''receiver_type'', FieldPresent ''receiver_type'' (receiver_type r) score)
          else if import_alias r \<noteq> [] then (''imported'', FieldPresent ''import_alias'' (import_alias r) score)
          else (''name_arity'', NameArity (ref_name r) (ref_arity r) score))"

definition scored_path :: "pipeline \<Rightarrow> ref_row \<Rightarrow> candidate list \<Rightarrow> resolved_edge option" where
  "scored_path pl r cands =
     (let ranked = applyConstraints pl cands (caller_file r) (ref_name r) (call_kind r) (ref_arity r) (receiver_type r);
          s = select_best r ranked
      in case best_cand s of
           None \<Rightarrow> None
         | Some c \<Rightarrow>
             if best_id s = 0 \<or> best_score s < kResolutionThreshold then None
             else if second_id s \<noteq> 0 \<and> best_score s - second_score s < kAmbiguityMargin \<and>
                  \<not> receiver_bypass r (best_id s) ranked then None
             else (case label_edge r c (best_score s) of
                     (rkind, why) \<Rightarrow> Some (make_edge r (best_id s) (best_score s) rkind why)))"

section \<open>One turn of the loop, and the loop\<close>

definition resolve_ref :: "pipeline \<Rightarrow> (nat \<Rightarrow> bool) \<Rightarrow> ref_row \<Rightarrow> run_state \<Rightarrow> run_state" where
  "resolve_ref pl over_budget r st =
     (case find_candidates pl over_budget r st of
        (None, st1) \<Rightarrow> st1
      | (Some (cands, used_fuzzy), st1) \<Rightarrow>
          if kMaxCandidatesToScore < length cands then st1
          else case fast_path r cands used_fuzzy of
            FastSkip \<Rightarrow> st1
          | FastEdge e \<Rightarrow> push_edges [e] st1
          | NotFast \<Rightarrow>
              (case resolve_receiver pl r st1 of
                 (recv, st2) \<Rightarrow>
                   (let es = dispatch_edges pl r recv cands in
                    if es \<noteq> [] then push_edges es st2
                    else case scored_path pl r cands of
                      None \<Rightarrow> st2
                    | Some e \<Rightarrow> push_edges [e] st2)))"

definition init_state :: "bytes list \<Rightarrow> run_state" where
  "init_state misses =
     \<lparr>resolved_edges = [], fuzzy_miss_cache = misses, field_chain_cache = Map.empty,
      fuzzy_calls = 0, fuzzy_budget_exhausted = False\<rparr>"

definition resolve_loop :: "pipeline \<Rightarrow> (nat \<Rightarrow> bool) \<Rightarrow> bytes list \<Rightarrow> ref_row list \<Rightarrow> run_state" where
  "resolve_loop pl over_budget misses refs = fold (resolve_ref pl over_budget) refs (init_state misses)"

text \<open>\<open>run\<close>: \<open>flush\<close> is what the database does with the staged edges, \<open>None\<close> for a failure.  The
  result is the count of resolved edges or -1, with the state the flush leaves.\<close>

definition run ::
  "(bytes list \<Rightarrow> bytes list) \<Rightarrow> bytes option \<Rightarrow> (nat \<Rightarrow> bool) \<Rightarrow> (resolved_edge list \<Rightarrow> 'db option) \<Rightarrow>
   nat \<Rightarrow> tables \<Rightarrow> reference_table_row list \<Rightarrow> int \<times> 'db option" where
  "run hash_order disable_env over_budget flush project db ref_rows =
     (let pl = load_pipeline hash_order disable_env project db;
          st = resolve_loop pl over_budget [] (loadReferences ref_rows);
          res = flush (resolved_edges st)
      in case res of
           None \<Rightarrow> (-1, None)
         | Some db' \<Rightarrow> (int (length (resolved_edges st)), Some db'))"

section \<open>The selection\<close>

lemma eligible_select:
  "select_step r c s =
     (if eligible r c then
        (if best_score s < total_score c then
           \<lparr>best_cand = Some c, best_id = entity_id c, best_score = total_score c,
            second_id = best_id s, second_score = best_score s\<rparr>
         else if second_score s < total_score c then s\<lparr>second_id := entity_id c, second_score := total_score c\<rparr>
         else s)
      else s)"
  by (auto simp: select_step_def eligible_def)

definition selected :: "ref_row \<Rightarrow> candidate list \<Rightarrow> selection \<Rightarrow> bool" where
  "selected r cs s \<longleftrightarrow>
     second_score s \<le> best_score s \<and> -1 \<le> second_score s \<and>
     (second_id s = 0 \<longrightarrow> second_score s = -1) \<and>
     (\<forall>c \<in> set cs. eligible r c \<longrightarrow> entity_id c \<noteq> best_id s \<longrightarrow> total_score c \<le> second_score s) \<and>
     (case best_cand s of
        None \<Rightarrow> best_id s = 0 \<and> best_score s = -1
      | Some c \<Rightarrow> c \<in> set cs \<and> eligible r c \<and> best_id s = entity_id c \<and> best_score s = total_score c)"

lemma select_best_selected:
  assumes "distinct (map entity_id cs)" and "0 \<notin> set (map entity_id cs)"
  shows "selected r cs (select_best r cs)"
  using assms
proof (induction cs rule: rev_induct)
  case Nil
  then show ?case by (simp add: selected_def select_best_def)
next
  case (snoc c cs)
  let ?s = "select_best r cs"
  have step: "select_best r (cs @ [c]) = select_step r c ?s" by (simp add: select_best_def)
  have IH: "selected r cs ?s" using snoc by simp
  have c0: "entity_id c \<noteq> 0" using snoc.prems(2) by auto
  have fresh: "entity_id c \<noteq> best_id ?s"
    using IH snoc.prems(1) c0 by (auto simp: selected_def split: option.splits)
  have init: "best_id ?s = 0 \<longrightarrow> best_score ?s = -1"
    using IH snoc.prems(2) by (auto simp: selected_def split: option.splits)
  consider (skip) "\<not> eligible r c" | (best) "eligible r c" "best_score ?s < total_score c"
    | (second) "eligible r c" "\<not> best_score ?s < total_score c" by blast
  then show ?case
  proof cases
    case skip
    then have "selected r (cs @ [c]) ?s" using IH by (auto simp: selected_def split: option.splits)
    then show ?thesis using skip unfolding step eligible_select by simp
  next
    case best
    have old: "total_score c' \<le> best_score ?s" if "c' \<in> set cs" "eligible r c'" for c'
    proof (cases "entity_id c' = best_id ?s")
      case same: True
      then have "best_id ?s \<noteq> 0" using that snoc.prems(2) by auto
      then obtain b where b: "best_cand ?s = Some b" "b \<in> set cs" "entity_id b = best_id ?s" "best_score ?s = total_score b"
        using IH by (auto simp: selected_def split: option.splits)
      have "inj_on entity_id (set cs)" using snoc.prems(1) by (simp add: distinct_map)
      then have "c' = b" using same b that by (metis inj_onD)
      then show ?thesis using b by simp
    next
      case False
      then have "total_score c' \<le> second_score ?s" using IH that by (simp add: selected_def)
      then show ?thesis using IH by (simp add: selected_def)
    qed
    have "-1 \<le> best_score ?s" using IH by (simp add: selected_def)
    then show ?thesis
      using best old init unfolding step eligible_select by (simp add: selected_def)
  next
    case second
    then have "selected r (cs @ [c]) (if second_score ?s < total_score c
        then ?s\<lparr>second_id := entity_id c, second_score := total_score c\<rparr> else ?s)"
      using IH c0 by (auto simp: selected_def split: option.splits)
    then show ?thesis using second unfolding step eligible_select by simp
  qed
qed

lemma select_best_cand:
  "best_cand (select_best r cs) = Some c \<Longrightarrow> c \<in> set cs \<and> eligible r c \<and>
     best_id (select_best r cs) = entity_id c \<and> best_score (select_best r cs) = total_score c"
proof (induction cs rule: rev_induct)
  case Nil
  then show ?case by (simp add: select_best_def)
next
  case (snoc d cs)
  have step: "select_best r (cs @ [d]) = select_step r d (select_best r cs)" by (simp add: select_best_def)
  show ?case using snoc unfolding step eligible_select by (auto split: if_splits)
qed

lemma eligible_score: "eligible r (score_candidate pl x c) = eligible r c"
  by (simp add: eligible_def)

lemma scored_path_target:
  assumes "scored_path pl r cs = Some e"
  obtains c where "c \<in> set cs" and "eligible r c" and "target_id e = entity_id c" and "edge_caller e = caller_id r"
proof -
  let ?x = "ref_context pl (caller_file r) (ref_name r) (call_kind r) (ref_arity r) (receiver_type r)"
  let ?ranked = "applyConstraints pl cs (caller_file r) (ref_name r) (call_kind r) (ref_arity r) (receiver_type r)"
  obtain b where b: "best_cand (select_best r ?ranked) = Some b"
    and e: "target_id e = best_id (select_best r ?ranked)" "edge_caller e = caller_id r"
    using assms by (auto simp: scored_path_def Let_def make_edge_def split: option.splits if_splits prod.splits)
  from select_best_cand [OF b] obtain c where c: "c \<in> set cs" "b = score_candidate pl ?x c"
    by (auto simp: applyConstraints_set)
  with select_best_cand [OF b] e show ?thesis
    by (intro that [of c]) (simp_all add: eligible_score)
qed

section \<open>Dispatch as a filter\<close>

definition dispatch_ok :: "ref_row \<Rightarrow> bytes \<Rightarrow> candidate \<Rightarrow> bool" where
  "dispatch_ok r impl_type c \<longleftrightarrow> impl_method impl_type (qualified_name c) \<and> eligible r c"

definition dispatch_edge :: "ref_row \<Rightarrow> bytes \<Rightarrow> candidate \<Rightarrow> resolved_edge" where
  "dispatch_edge r impl_type c =
     make_edge r (entity_id c) (60 / 100) ''dispatch'' (DispatchOf (receiver_type r) impl_type (ref_name r))"

definition impl_matches :: "ref_row \<Rightarrow> candidate list \<Rightarrow> bytes \<Rightarrow> resolved_edge list" where
  "impl_matches r cands impl_type = map (dispatch_edge r impl_type) (filter (dispatch_ok r impl_type) cands)"

lemma dispatch_cands_Cons:
  "dispatch_cands r limit impl_type (c # cs) es =
     (if dispatch_ok r impl_type c then
        (if limit \<le> length (es @ [dispatch_edge r impl_type c]) then (es @ [dispatch_edge r impl_type c], True)
         else dispatch_cands r limit impl_type cs (es @ [dispatch_edge r impl_type c]))
      else dispatch_cands r limit impl_type cs es)"
  by (auto simp: dispatch_ok_def eligible_def dispatch_edge_def Let_def not_le)

declare dispatch_cands.simps(2) [simp del]

lemma dispatch_cands_take:
  "length es < limit \<Longrightarrow> dispatch_cands r limit impl_type cs es =
     (take limit (es @ impl_matches r cs impl_type), limit \<le> length (es @ impl_matches r cs impl_type))"
proof (induction cs arbitrary: es)
  case Nil
  then show ?case by (simp add: impl_matches_def)
next
  case (Cons c cs)
  show ?case
  proof (cases "dispatch_ok r impl_type c")
    case True
    show ?thesis
    proof (cases "limit \<le> length (es @ [dispatch_edge r impl_type c])")
      case full: True
      then have "limit = length (es @ [dispatch_edge r impl_type c])" using Cons.prems by simp
      then show ?thesis using True full by (simp add: dispatch_cands_Cons impl_matches_def)
    next
      case False
      then show ?thesis
        using True Cons.IH [of "es @ [dispatch_edge r impl_type c]"]
        by (simp add: dispatch_cands_Cons impl_matches_def)
    qed
  next
    case False
    then show ?thesis using Cons by (simp add: dispatch_cands_Cons impl_matches_def)
  qed
qed

lemma dispatch_impls_take:
  "length es < length cands \<Longrightarrow> dispatch_impls r cands impls es =
     take (length cands) (es @ concat (map (impl_matches r cands) impls))"
proof (induction impls arbitrary: es)
  case (Cons i impls)
  let ?es = "es @ impl_matches r cands i"
  show ?case
  proof (cases "length cands \<le> length ?es")
    case True
    then show ?thesis using dispatch_cands_take [OF Cons.prems] by simp
  next
    case False
    then show ?thesis using dispatch_cands_take [OF Cons.prems] Cons.IH [of ?es] by simp
  qed
qed simp

lemma dispatch_edges_take:
  "recv \<noteq> [] \<Longrightarrow> dispatch_edges pl r recv cands =
     take (length cands) (concat (map (impl_matches r cands) (interface_impl_index pl recv)))"
proof (cases "cands = []")
  case True
  have "dispatch_impls r [] impls [] = []" for impls
    by (induction impls) simp_all
  then show ?thesis using True by (simp add: dispatch_edges_def)
next
  case False
  assume "recv \<noteq> []"
  then show ?thesis using False by (simp add: dispatch_edges_def dispatch_impls_take)
qed

lemma disjoint_matches_bound:
  assumes "\<And>c. c \<in> set cands \<Longrightarrow> length (filter (\<lambda>i. dispatch_ok r i c) impls) \<le> 1"
  shows "length (concat (map (impl_matches r cands) impls)) \<le> length cands"
  using assms
proof (induction cands)
  case Nil
  have "concat (map (impl_matches r []) impls) = []" by (simp add: impl_matches_def)
  then show ?case by simp
next
  case (Cons c cands)
  have "length (concat (map (impl_matches r (c # cands)) impls)) =
      length (filter (\<lambda>i. dispatch_ok r i c) impls) + length (concat (map (impl_matches r cands) impls))"
    by (induction impls) (simp_all add: impl_matches_def)
  also have "\<dots> \<le> 1 + length cands"
    using Cons.prems [of c] Cons.IH Cons.prems by (intro add_mono) simp_all
  finally show ?case by simp
qed

section \<open>Every edge of a turn\<close>

text \<open>A candidate of the index, found by the name of the reference or by its id.\<close>

definition known_candidate :: "pipeline \<Rightarrow> ref_row \<Rightarrow> candidate \<Rightarrow> bool" where
  "known_candidate pl r c \<longleftrightarrow> c \<in> set (index pl (ref_name r)) \<or> (\<exists>i. by_id pl i = Some c)"

definition edge_ok :: "pipeline \<Rightarrow> ref_row \<Rightarrow> resolved_edge \<Rightarrow> bool" where
  "edge_ok pl r e \<longleftrightarrow> edge_caller e = caller_id r \<and>
     (\<exists>c. known_candidate pl r c \<and> eligible r c \<and> target_id e = entity_id c)"

lemma find_candidates_known:
  "find_candidates pl ob r st = (Some (cands, f), st1) \<Longrightarrow> c \<in> set cands \<Longrightarrow> known_candidate pl r c"
  unfolding known_candidate_def
  by (auto simp: find_candidates_def Let_def set_map_filter split: if_splits)

lemma find_candidates_edges:
  "find_candidates pl ob r st = (res, st1) \<Longrightarrow> resolved_edges st1 = resolved_edges st \<and>
     field_chain_cache st1 = field_chain_cache st"
  by (auto simp: find_candidates_def Let_def split: if_splits)

lemma fast_path_edge:
  "fast_path r cands f = FastEdge e \<Longrightarrow>
     \<exists>c. cands = [c] \<and> eligible r c \<and> target_id e = entity_id c \<and> edge_caller e = caller_id r"
  by (auto simp: fast_path_def eligible_def make_edge_def split: list.splits if_splits)

lemma dispatch_edges_ok:
  assumes "e \<in> set (dispatch_edges pl r recv cands)"
  shows "\<exists>c i. c \<in> set cands \<and> i \<in> set (interface_impl_index pl recv) \<and> dispatch_ok r i c \<and>
    e = dispatch_edge r i c"
proof (cases "recv = []")
  case False
  then show ?thesis
    using assms unfolding dispatch_edges_take [OF False]
    by (auto simp: impl_matches_def dest!: in_set_takeD) blast
qed (use assms in \<open>simp add: dispatch_edges_def\<close>)

lemma resolve_receiver_edges:
  "resolve_receiver pl r st = (t, st1) \<Longrightarrow> resolved_edges st1 = resolved_edges st"
  by (auto simp: resolve_receiver_def Let_def split: if_splits option.splits)

lemma resolve_ref_edges:
  "\<exists>es. resolved_edges (resolve_ref pl ob r st) = resolved_edges st @ es \<and> (\<forall>e \<in> set es. edge_ok pl r e)"
proof -
  obtain res st1 where f: "find_candidates pl ob r st = (res, st1)" by fastforce
  note e1 = find_candidates_edges [OF f]
  show ?thesis
  proof (cases res)
    case None
    then show ?thesis using f e1 by (simp add: resolve_ref_def)
  next
    case (Some p)
    then obtain cands u where p: "res = Some (cands, u)" by (cases p) auto
    have known: "\<And>c. c \<in> set cands \<Longrightarrow> known_candidate pl r c"
      using find_candidates_known f p by blast
    obtain recv st2 where rr: "resolve_receiver pl r st1 = (recv, st2)" by fastforce
    note e2 = resolve_receiver_edges [OF rr]
    have fast: "edge_ok pl r e" if "fast_path r cands u = FastEdge e" for e
      using fast_path_edge [OF that] known by (auto simp: edge_ok_def)
    have disp: "\<forall>e \<in> set (dispatch_edges pl r recv cands). edge_ok pl r e"
      using dispatch_edges_ok known
      by (fastforce simp: edge_ok_def dispatch_ok_def dispatch_edge_def make_edge_def)
    have scored: "edge_ok pl r e" if "scored_path pl r cands = Some e" for e
      using that known by (elim scored_path_target) (auto simp: edge_ok_def)
    show ?thesis
      using f p rr e1 e2 fast disp scored
      by (auto simp: resolve_ref_def push_edges_def Let_def split: fast_outcome.split option.split)
  qed
qed

lemma resolve_fold_edges:
  "\<forall>e \<in> set (resolved_edges st). \<exists>r \<in> R. edge_ok pl r e \<Longrightarrow> set refs \<subseteq> R \<Longrightarrow>
   \<forall>e \<in> set (resolved_edges (fold (resolve_ref pl ob) refs st)). \<exists>r \<in> R. edge_ok pl r e"
proof (induction refs arbitrary: st)
  case (Cons r refs)
  obtain es where "resolved_edges (resolve_ref pl ob r st) = resolved_edges st @ es" "\<forall>e \<in> set es. edge_ok pl r e"
    using resolve_ref_edges by blast
  then have "\<forall>e \<in> set (resolved_edges (resolve_ref pl ob r st)). \<exists>r \<in> R. edge_ok pl r e"
    using Cons.prems by auto
  then show ?case using Cons by simp
qed simp

section \<open>The memo of field chains\<close>

definition receiver_direct :: "pipeline \<Rightarrow> ref_row \<Rightarrow> bytes" where
  "receiver_direct pl r =
     (if receiver_type r \<noteq> [] \<or> CHR ''.'' \<notin> set (receiver_text r) then receiver_type r
      else chain_receiver pl (receiver_text r))"

definition memo_ok :: "pipeline \<Rightarrow> run_state \<Rightarrow> bool" where
  "memo_ok pl st \<longleftrightarrow> (\<forall>k t. field_chain_cache st k = Some t \<longrightarrow> t = chain_receiver pl k)"

lemma resolve_receiver_memo:
  assumes "memo_ok pl st"
  shows "fst (resolve_receiver pl r st) = receiver_direct pl r \<and> memo_ok pl (snd (resolve_receiver pl r st))"
  using assms
  by (auto simp: resolve_receiver_def receiver_direct_def memo_ok_def chain_receiver_def Let_def split: option.split)

lemma resolve_ref_memo:
  assumes "memo_ok pl st"
  shows "memo_ok pl (resolve_ref pl ob r st)"
proof -
  obtain res st1 where f: "find_candidates pl ob r st = (res, st1)" by fastforce
  have m1: "memo_ok pl st1" using assms find_candidates_edges [OF f] by (simp add: memo_ok_def)
  have push: "memo_ok pl (push_edges es st') = memo_ok pl st'" for es st'
    by (simp add: push_edges_def memo_ok_def)
  obtain t st2 where rr: "resolve_receiver pl r st1 = (t, st2)" by fastforce
  have m2: "memo_ok pl st2" using resolve_receiver_memo [OF m1, of r] rr by simp
  show ?thesis
    using f rr m1 m2
    by (auto simp: resolve_ref_def push Let_def split: option.split prod.split fast_outcome.split)
qed

lemma resolve_loop_memo: "memo_ok pl (resolve_loop pl ob misses refs)"
proof -
  have step: "memo_ok pl st \<Longrightarrow> memo_ok pl (fold (resolve_ref pl ob) refs st)" for st
    by (induction refs arbitrary: st) (auto intro: resolve_ref_memo)
  have "memo_ok pl (init_state misses)" by (simp add: init_state_def memo_ok_def)
  then show ?thesis unfolding resolve_loop_def by (rule step)
qed

section \<open>A single candidate on the scored path\<close>

definition path_fields_ok :: "candidate \<Rightarrow> bool" where
  "path_fields_ok c \<longleftrightarrow> cand_dir c = dir_of (file_path c) \<and> cand_parent c = dir_of (cand_dir c) \<and>
     cand_module c = last_token (cand_dir c)"

lemma make_candidate_paths: "path_fields_ok (make_candidate r)"
  by (simp add: path_fields_ok_def make_candidate_def Let_def)

lemma scored_single:
  assumes "eligible r c" and "entity_id c \<noteq> 0"
  shows "scored_path pl r [c] =
    (let b = score_candidate pl (ref_context pl (caller_file r) (ref_name r) (call_kind r) (ref_arity r) (receiver_type r)) c
     in if -1 < total_score b \<and> kResolutionThreshold \<le> total_score b
        then (case label_edge r b (total_score b) of (k, why) \<Rightarrow> Some (make_edge r (entity_id c) (total_score b) k why))
        else None)"
  using assms
  by (simp add: scored_path_def applyConstraints_def select_best_def eligible_select eligible_score
      kResolutionThreshold_def Let_def)

lemma fast_path_scored:
  assumes "fast_path r [c] u = FastEdge e" and "cand_name c = ref_name r" and "path_fields_ok c"
    and "dir_of (caller_file r) \<noteq> []" and "entity_id c \<noteq> 0" and "disabled pl = None"
    and "import_alias_index pl (caller_file r) (ref_name r) \<noteq> None \<Longrightarrow>
      languageFromPath (caller_file r) \<in> {''javascript'', ''typescript''}"
  shows "\<exists>e'. scored_path pl r [c] = Some e' \<and> target_id e' = target_id e \<and> edge_caller e' = edge_caller e"
proof -
  let ?x = "ref_context pl (caller_file r) (ref_name r) (call_kind r) (ref_arity r) (receiver_type r)"
  have el: "eligible r c" and e: "target_id e = entity_id c" "edge_caller e = caller_id r"
    using fast_path_edge [OF assms(1)] by auto
  have dir: "cand_dir c = x_dir ?x" "x_dir ?x \<noteq> []"
    using assms(1,3,4) by (auto simp: fast_path_def same_dir_paths_def path_fields_ok_def ref_context_def
        Let_def split: if_splits)
  have "x_import_spec ?x = [] \<or> language c \<noteq> ''cpp''"
  proof (cases "import_alias_index pl (caller_file r) (ref_name r)")
    case None
    then show ?thesis by (simp add: ref_context_def Let_def)
  next
    case Some
    then show ?thesis
      using assms(7) el by (auto simp: eligible_def languagesCompatible_def kCFamily_def kJsFamily_def)
  qed
  then have "117 / 280 \<le> total_score (score_candidate pl ?x c)"
    using dir assms(2,6) by (intro same_dir_total) (simp_all add: ref_context_def Let_def)
  then show ?thesis
    using scored_single [OF el assms(5), of pl] e
    by (auto simp: kResolutionThreshold_def make_edge_def Let_def split: prod.split)
qed

section \<open>Properties\<close>

text \<open>
  (C1) Every call edge is legitimate: whatever the references and however the loop reaches the
  edge (fast path, dispatch, scored path, exact or fuzzy), its caller is the caller of some
  reference and its target is a loaded entity, different from the caller, of a compatible
  language and visible from the call site.
\<close>

theorem resolver_edges_eligible:
  assumes "e \<in> set (resolved_edges (resolve_loop pl over_budget misses refs))"
  shows "\<exists>r \<in> set refs. \<exists>c. edge_caller e = caller_id r \<and> target_id e = entity_id c \<and>
    entity_id c \<noteq> caller_id r \<and>
    (c \<in> set (index pl (ref_name r)) \<or> (\<exists>i. by_id pl i = Some c)) \<and>
    languagesCompatible (languageFromPath (caller_file r)) (language c) \<and>
    1 / 2 \<le> factorVisibilityCheck (language c) (cand_name c) (caller_file r) (file_path c)"
proof -
  have "\<forall>e \<in> set (resolved_edges (resolve_loop pl over_budget misses refs)). \<exists>r \<in> set refs. edge_ok pl r e"
    unfolding resolve_loop_def by (rule resolve_fold_edges) (simp_all add: init_state_def)
  then show ?thesis
    using assms unfolding edge_ok_def known_candidate_def eligible_def by blast
qed

definition sample_entity :: "nat \<Rightarrow> bytes \<Rightarrow> bytes \<Rightarrow> entity_table_row" where
  "sample_entity i name file =
     \<lparr>e_id = i, e_project = 1, e_name = Some name, e_file = Some file, e_language = None, e_arity = 0,
      e_kind = 0, e_qualified = None\<rparr>"

definition sample_tables :: "entity_table_row list \<Rightarrow> sem_record list \<Rightarrow> tables" where
  "sample_tables es recs = \<lparr>entity_table = es, import_table = [], semantic_records = recs\<rparr>"

definition sample_ref :: "bytes \<Rightarrow> nat \<Rightarrow> bytes \<Rightarrow> ref_row" where
  "sample_ref name caller file =
     \<lparr>ref_id = 1, ref_name = name, caller_id = caller, caller_file = file, call_kind = 0, ref_arity = 0,
      start_row = 3, start_col = 5, resolve_strategy = [], qualified_target = [], receiver_text = [],
      receiver_type = [], import_alias = [], call_site_file = file\<rparr>"

definition sample_pipeline :: pipeline where
  "sample_pipeline = load_pipeline id None 1
     (sample_tables [sample_entity 1 ''main'' ''src/a.go'', sample_entity 2 ''helper'' ''src/b.go''] [])"

lemma sample_fast:
  "fast_path (sample_ref ''helper'' 1 ''src/a.go'') (index sample_pipeline ''helper'') False =
     FastEdge (make_edge (sample_ref ''helper'' 1 ''src/a.go'') 2 (85 / 100) ''exact_local'' (SingleModule False))"
  by code_simp

lemma sample_edges:
  "resolved_edges (resolve_loop sample_pipeline (\<lambda>_. False) [] [sample_ref ''helper'' 1 ''src/a.go'']) =
     [make_edge (sample_ref ''helper'' 1 ''src/a.go'') 2 (85 / 100) ''exact_local'' (SingleModule False)]"
  by code_simp

theorem ranking_deterministic_witness:
  "applyConstraints sample_pipeline
     [make_candidate (sample_entity 3 ''helper'' ''lib/c.go''), make_candidate (sample_entity 2 ''helper'' ''src/b.go'')]
     ''src/a.go'' ''helper'' 0 0 [] =
   applyConstraints sample_pipeline
     [make_candidate (sample_entity 2 ''helper'' ''src/b.go''), make_candidate (sample_entity 3 ''helper'' ''lib/c.go'')]
     ''src/a.go'' ''helper'' 0 0 []"
  by (rule ranking_deterministic [THEN conjunct1])
    (simp_all add: make_candidate_def sample_entity_def add_mset_commute Let_def del: One_nat_def)

theorem deciding_factor_is_largest_witness:
  "\<exists>t \<in> set (counted (disabled sample_pipeline) (factor_terms sample_pipeline
       (ref_context sample_pipeline ''src/a.go'' ''helper'' 0 0 []) (make_candidate (sample_entity 2 ''helper'' ''src/b.go'')))).
     0 < fst t * fst (snd t)"
proof -
  let ?x = "ref_context sample_pipeline ''src/a.go'' ''helper'' 0 0 []"
  let ?c = "make_candidate (sample_entity 2 ''helper'' ''src/b.go'')"
  have "deciding_factor (score_candidate sample_pipeline ?x ?c) \<noteq> None" by code_simp
  then show ?thesis
    using deciding_factor_is_largest [of sample_pipeline ?x ?c] by (auto split: option.splits)
qed

theorem resolver_edges_eligible_witness:
  "\<exists>c. entity_id c = 2 \<and> c \<in> set (index sample_pipeline ''helper'') \<union> ran (by_id sample_pipeline) \<and>
     languagesCompatible ''go'' (language c)"
proof -
  have lang: "languageFromPath ''src/a.go'' = ''go''" by code_simp
  let ?r = "sample_ref ''helper'' 1 ''src/a.go''"
  have "make_edge ?r 2 (85 / 100) ''exact_local'' (SingleModule False) \<in>
      set (resolved_edges (resolve_loop sample_pipeline (\<lambda>_. False) [] [?r]))"
    by (simp add: sample_edges del: One_nat_def)
  from resolver_edges_eligible [OF this] show ?thesis
    by (auto simp: make_edge_def sample_ref_def lang ran_def simp del: One_nat_def)
qed

text \<open>
  (C14) The ambiguity gate holds: an edge of the scored path goes to a candidate whose score
  reaches the threshold, and every other admissible candidate scores at least the margin
  below it, unless the target is the one candidate with exact receiver-type evidence.
\<close>

theorem scored_edge_unambiguous:
  assumes "scored_path pl r cands = Some e"
    and "distinct (map entity_id cands)" and "0 \<notin> set (map entity_id cands)"
  shows "let ranked = applyConstraints pl cands (caller_file r) (ref_name r) (call_kind r) (ref_arity r)
        (receiver_type r)
    in \<exists>b \<in> set ranked. target_id e = entity_id b \<and> edge_confidence e = total_score b \<and>
       kResolutionThreshold \<le> total_score b \<and>
       (receiver_bypass r (entity_id b) ranked \<or>
        (\<forall>c \<in> set ranked. eligible r c \<longrightarrow> entity_id c \<noteq> entity_id b \<longrightarrow>
           total_score c \<le> total_score b - kAmbiguityMargin))"
proof -
  let ?ranked = "applyConstraints pl cands (caller_file r) (ref_name r) (call_kind r) (ref_arity r) (receiver_type r)"
  let ?s = "select_best r ?ranked"
  have ids: "mset (map entity_id ?ranked) = mset (map entity_id cands)" by (rule applyConstraints_ids)
  then have "distinct (map entity_id ?ranked)" "0 \<notin> set (map entity_id ?ranked)"
    using assms(2,3) by (metis mset_eq_imp_distinct_iff, metis mset_eq_setD)
  then have sel: "selected r ?ranked ?s" by (rule select_best_selected)
  obtain b where b: "best_cand ?s = Some b" "kResolutionThreshold \<le> best_score ?s"
    and gate: "second_id ?s = 0 \<or> kAmbiguityMargin \<le> best_score ?s - second_score ?s \<or>
      receiver_bypass r (best_id ?s) ?ranked"
    and e: "target_id e = best_id ?s" "edge_confidence e = best_score ?s"
    using assms(1) by (auto simp: scored_path_def Let_def make_edge_def split: option.splits if_splits prod.splits)
  note bs = select_best_cand [OF b(1)]
  have "total_score c \<le> total_score b - kAmbiguityMargin"
    if "\<not> receiver_bypass r (entity_id b) ?ranked" "c \<in> set ?ranked" "eligible r c" "entity_id c \<noteq> entity_id b" for c
  proof -
    have "total_score c \<le> second_score ?s" using sel that bs by (simp add: selected_def)
    moreover have "second_score ?s \<le> best_score ?s - kAmbiguityMargin"
    proof (cases "second_id ?s = 0")
      case True
      then have "second_score ?s = -1" using sel by (simp add: selected_def)
      then show ?thesis using b(2) by (simp add: kResolutionThreshold_def kAmbiguityMargin_def)
    next
      case False
      then show ?thesis using gate that(1) bs by simp
    qed
    ultimately show ?thesis using bs by simp
  qed
  then have "\<exists>b \<in> set ?ranked. target_id e = entity_id b \<and> edge_confidence e = total_score b \<and>
      kResolutionThreshold \<le> total_score b \<and>
      (receiver_bypass r (entity_id b) ?ranked \<or>
       (\<forall>c \<in> set ?ranked. eligible r c \<longrightarrow> entity_id c \<noteq> entity_id b \<longrightarrow>
          total_score c \<le> total_score b - kAmbiguityMargin))"
    using bs b(2) e by (intro bexI [of _ b]) auto
  then show ?thesis by (simp only: Let_def)
qed

definition sample_homonyms :: pipeline where
  "sample_homonyms = load_pipeline id None 1
     (sample_tables [sample_entity 1 ''main'' ''src/a.go'', sample_entity 2 ''helper'' ''src/b.go'',
        sample_entity 3 ''helper'' ''lib/c.go''] [])"

theorem scored_edge_unambiguous_witness:
  "map_option target_id (scored_path sample_homonyms (sample_ref ''helper'' 1 ''src/a.go'')
     (index sample_homonyms ''helper'')) = Some 2 \<and>
   kResolutionThreshold \<le> (case scored_path sample_homonyms (sample_ref ''helper'' 1 ''src/a.go'')
     (index sample_homonyms ''helper'') of Some e \<Rightarrow> edge_confidence e | None \<Rightarrow> 0)"
proof -
  let ?r = "sample_ref ''helper'' 1 ''src/a.go''" and ?cs = "index sample_homonyms ''helper''"
  have target: "map_option target_id (scored_path sample_homonyms ?r ?cs) = Some 2" by code_simp
  then obtain e where e: "scored_path sample_homonyms ?r ?cs = Some e" "target_id e = 2" by auto
  have "map entity_id ?cs = [2, 3]" by code_simp
  then have "distinct (map entity_id ?cs)" "0 \<notin> set (map entity_id ?cs)" by simp_all
  from scored_edge_unambiguous [OF e(1) this] obtain b :: candidate where
    "target_id e = entity_id b" "kResolutionThreshold \<le> total_score b" "edge_confidence e = total_score b"
    unfolding Let_def by blast
  then show ?thesis using target e by simp
qed

text \<open>
  (C18) What the fast path emits without scoring.  Its only candidate is admissible (not the
  caller, of a compatible language, visible from the call site) and in the directory of the
  caller.  If the candidate bears the name of the reference, the scored path accepts it too,
  whatever the call kind, the arities and the receiver; a candidate of the fuzzy fallback is
  taken without that check, for bare calls only, and its edge says so.  Provided that no factor
  is disabled, that the caller's file is in a directory, and that import bindings are recorded
  for JavaScript and TypeScript files only, as their visitors do.
\<close>

theorem fast_path_agrees:
  assumes "fast_path r [c] used_fuzzy = FastEdge e" and "path_fields_ok c"
    and "dir_of (caller_file r) \<noteq> []" and "entity_id c \<noteq> 0" and "disabled pl = None"
    and "import_alias_index pl (caller_file r) (ref_name r) \<noteq> None \<Longrightarrow>
      languageFromPath (caller_file r) \<in> {''javascript'', ''typescript''}"
  shows "target_id e = entity_id c \<and> eligible r c \<and> dir_of (file_path c) = dir_of (caller_file r) \<and>
    (cand_name c = ref_name r \<longrightarrow>
      (\<exists>e'. scored_path pl r [c] = Some e' \<and> target_id e' = target_id e \<and> edge_caller e' = edge_caller e)) \<and>
    (used_fuzzy \<longrightarrow> call_kind r = 0 \<and> resolution_kind e = ''fuzzy_local'')"
proof (intro conjI impI)
  show "target_id e = entity_id c" "eligible r c" using fast_path_edge [OF assms(1)] by auto
  show "dir_of (file_path c) = dir_of (caller_file r)"
    using assms(1) by (auto simp: fast_path_def same_dir_paths_def split: if_splits)
  show "\<exists>e'. scored_path pl r [c] = Some e' \<and> target_id e' = target_id e \<and> edge_caller e' = edge_caller e"
    if "cand_name c = ref_name r"
    using assms(1) that assms(2-) by (rule fast_path_scored)
  show "call_kind r = 0" "resolution_kind e = ''fuzzy_local''" if used_fuzzy
    using assms(1) that by (auto simp: fast_path_def make_edge_def split: if_splits)
qed

theorem fast_path_agrees_witness:
  "\<exists>e'. scored_path sample_pipeline (sample_ref ''helper'' 1 ''src/a.go'')
     [make_candidate (sample_entity 2 ''helper'' ''src/b.go'')] = Some e' \<and> target_id e' = 2"
proof -
  let ?r = "sample_ref ''helper'' 1 ''src/a.go''" and ?c = "make_candidate (sample_entity 2 ''helper'' ''src/b.go'')"
  let ?e = "make_edge ?r 2 (85 / 100) ''exact_local'' (SingleModule False)"
  have fast: "fast_path ?r [?c] False = FastEdge ?e" by code_simp
  have c: "dir_of (caller_file ?r) \<noteq> []" "entity_id ?c \<noteq> 0" "disabled sample_pipeline = None"
    and name: "cand_name ?c = ref_name ?r"
    and none: "import_alias_index sample_pipeline (caller_file ?r) (ref_name ?r) = None"
    by code_simp+
  have "import_alias_index sample_pipeline (caller_file ?r) (ref_name ?r) \<noteq> None \<Longrightarrow>
      languageFromPath (caller_file ?r) \<in> {''javascript'', ''typescript''}"
    using none by simp
  from fast_path_agrees [OF fast make_candidate_paths c this] name
  show ?thesis by (auto simp: make_edge_def simp del: One_nat_def)
qed

text \<open>
  A fuzzy candidate that the scored path rejects: the call of \<open>DeltaThi\<close> on a receiver, whose
  only candidate is \<open>DeltaThing\<close> in the same file, scores 11/35, below the threshold, and
  gets an edge of confidence 0.85.
\<close>

definition prefix_ref :: ref_row where
  "prefix_ref = (sample_ref ''DeltaThi'' 1 ''src/delta.cpp'')\<lparr>receiver_type := ''Whatever''\<rparr>"

definition prefix_candidate :: candidate where
  "prefix_candidate = make_candidate (sample_entity 2 ''DeltaThing'' ''src/delta.cpp'')"

theorem fuzzy_edge_below_threshold:
  "fast_path prefix_ref [prefix_candidate] True =
     FastEdge (make_edge prefix_ref 2 (85 / 100) ''fuzzy_local'' (SingleModule True)) \<and>
   scored_path sample_pipeline prefix_ref [prefix_candidate] = None \<and>
   total_score (score_candidate sample_pipeline
     (ref_context sample_pipeline ''src/delta.cpp'' ''DeltaThi'' 0 0 ''Whatever'') prefix_candidate) = 11 / 35"
  by code_simp

text \<open>
  The score behind the fixed confidence 0.85 of the fast path can be as low as 87/190: an
  interface call with one argument too many whose only candidate sits in a header of the
  same directory.
\<close>

definition header_candidate :: candidate where
  "header_candidate = make_candidate ((sample_entity 2 ''helper'' ''src/b.h'')\<lparr>e_arity := 1\<rparr>)"

definition interface_ref :: ref_row where
  "interface_ref = (sample_ref ''helper'' 1 ''src/a.cpp'')\<lparr>call_kind := 2, ref_arity := 2, receiver_type := ''Zed''\<rparr>"

lemma fast_path_low_score:
  "fast_path interface_ref [header_candidate] False =
     FastEdge (make_edge interface_ref 2 (85 / 100) ''exact_local'' (SingleModule False)) \<and>
   map_option edge_confidence (scored_path sample_pipeline interface_ref [header_candidate]) = Some (87 / 190)"
  by code_simp

text \<open>
  (C17) The edges of a dispatch site: the admissible methods of the implementing types, type by
  type and in the order of the candidates, the first ones up to the number of candidates; a
  reference without a receiver type has none.  So when no candidate is a method of two
  implementing types, the cut drops nothing and every admissible method gets its edge.
\<close>

theorem dispatch_exact:
  "dispatch_edges pl r recv cands =
     (if recv = [] then []
      else take (length cands) (concat (map (impl_matches r cands) (interface_impl_index pl recv)))) \<and>
   ((\<forall>c \<in> set cands. length (filter (\<lambda>i. dispatch_ok r i c) (interface_impl_index pl recv)) \<le> 1) \<longrightarrow>
     recv \<noteq> [] \<longrightarrow>
     dispatch_edges pl r recv cands = concat (map (impl_matches r cands) (interface_impl_index pl recv)))"
  using dispatch_edges_take [of recv pl r cands] disjoint_matches_bound [of cands r "interface_impl_index pl recv"]
  by (auto simp: dispatch_edges_def)

definition sample_method :: "nat \<Rightarrow> bytes \<Rightarrow> entity_table_row" where
  "sample_method i qn = (sample_entity i ''m'' ''src/b.go'')\<lparr>e_qualified := Some qn\<rparr>"

definition sample_impls :: "(bytes \<times> bytes) list \<Rightarrow> sem_record list" where
  "sample_impls ps = map (\<lambda>(impl, iface).
     \<lparr>s_project = 1, s_kind = 20, s_name = impl, s_type_name = iface, s_qualified = [], s_file = ''src/b.go'',
      s_parent = 0, s_original = 0\<rparr>) ps"

definition sample_dispatch :: "(bytes \<times> bytes) list \<Rightarrow> pipeline" where
  "sample_dispatch ps = load_pipeline id None 1
     (sample_tables [sample_method 2 ''A.m'', sample_method 3 ''C.m''] (sample_impls ps))"

theorem dispatch_exact_witness:
  "map target_id (dispatch_edges (sample_dispatch [(''A'', ''I''), (''C'', ''I'')]) (sample_ref ''m'' 1 ''src/a.go'') ''I''
     (index (sample_dispatch [(''A'', ''I''), (''C'', ''I'')]) ''m'')) = [2, 3]"
proof -
  let ?pl = "sample_dispatch [(''A'', ''I''), (''C'', ''I'')]" and ?r = "sample_ref ''m'' 1 ''src/a.go''"
  have "list_all (\<lambda>c. length (filter (\<lambda>i. dispatch_ok ?r i c) (interface_impl_index ?pl ''I'')) \<le> 1) (index ?pl ''m'')"
    by code_simp
  then have "dispatch_edges ?pl ?r ''I'' (index ?pl ''m'') =
      concat (map (impl_matches ?r (index ?pl ''m'')) (interface_impl_index ?pl ''I''))"
    using dispatch_exact [of ?pl ?r "''I''" "index ?pl ''m''", THEN conjunct2] by (simp add: list_all_iff)
  moreover have "map target_id (concat (map (impl_matches ?r (index ?pl ''m'')) (interface_impl_index ?pl ''I''))) = [2, 3]"
    by code_simp
  ultimately show ?thesis by simp
qed

text \<open>
  A repeated implementation hides another one: when the records name an implementing type
  twice, the count of edges reaches the number of candidates before the last implementation
  is tried, and its method gets no edge.
\<close>

theorem dispatch_duplicate_loses_target:
  "map target_id (dispatch_edges (sample_dispatch [(''A'', ''I''), (''A'', ''I''), (''C'', ''I'')])
     (sample_ref ''m'' 1 ''src/a.go'') ''I''
     (index (sample_dispatch [(''A'', ''I''), (''A'', ''I''), (''C'', ''I'')]) ''m'')) = [2, 2]"
  by code_simp

text \<open>
  The memo of field chains is transparent: at every point of the loop, the receiver type
  taken through the cache is the one a fresh walk of the chain gives.
\<close>

theorem field_chain_memo_transparent:
  "fst (resolve_receiver pl r (resolve_loop pl over_budget misses refs)) = receiver_direct pl r"
  using resolve_receiver_memo [OF resolve_loop_memo] by blast

end
