(* ===== verification/Facts.thy ===== *)
theory Facts
  imports Json_Roundtrip
begin

text \<open>
  What the verification layer works on (\<open>verify/claim.h\<close>, \<open>verify/registry.cpp\<close>): claims, verdicts and
  evidence records, the tables of canonical facts that the verifiers query, and the probe that tells
  whether there are any facts.

  A table is the list of its rows in the order a statement without \<open>ORDER BY\<close> delivers them.  SQLite
  itself is not modelled; what the statements use of it is: \<open>LOWER\<close> on ASCII, \<open>LIKE\<close> with and without
  \<open>ESCAPE\<close>, \<open>LENGTH\<close> in characters of UTF-8, \<open>REPLACE\<close>.  The record \<open>query_env\<close> says which statements
  cannot be prepared and after how many rows \<open>sqlite3_step\<close> answers an error instead of a row.
\<close>

section \<open>Claims and evidence\<close>

datatype claim_type = CapabilityExists | ContractHolds | ArchitectureFollows | FunctionImplements

datatype verdict = Supported | Contradicted | Unknown

record claim =
  claim_kind :: claim_type
  claim_subject :: bytes
  claim_predicate :: bytes
  claim_object :: bytes
  claim_scope :: bytes
  claim_source_kind :: bytes
  claim_source_ref :: bytes

definition new_claim :: claim where
  "new_claim = \<lparr>claim_kind = CapabilityExists, claim_subject = [], claim_predicate = [], claim_object = [],
     claim_scope = ''repository'', claim_source_kind = [], claim_source_ref = []\<rparr>"

definition kFactKindNode :: int where "kFactKindNode = 0"
definition kFactKindEdge :: int where "kFactKindEdge = 1"

record evidence_record =
  rec_claim_id :: int
  rec_verdict :: verdict
  rec_confidence :: rat
  rec_verifier :: bytes
  rec_detail :: bytes
  rec_facts :: "(int \<times> int) list"

fun claimTypeName :: "claim_type \<Rightarrow> bytes" where
  "claimTypeName CapabilityExists = ''CapabilityExists''"
| "claimTypeName ContractHolds = ''ContractHolds''"
| "claimTypeName ArchitectureFollows = ''ArchitectureFollows''"
| "claimTypeName FunctionImplements = ''FunctionImplements''"

fun verdictName :: "verdict \<Rightarrow> bytes" where
  "verdictName Supported = ''Supported''"
| "verdictName Contradicted = ''Contradicted''"
| "verdictName Unknown = ''Unknown''"

fun claimTypeWireName :: "claim_type \<Rightarrow> bytes" where
  "claimTypeWireName CapabilityExists = ''capability_exists''"
| "claimTypeWireName ContractHolds = ''contract_holds''"
| "claimTypeWireName ArchitectureFollows = ''architecture_follows''"
| "claimTypeWireName FunctionImplements = ''function_implements''"

definition all_public_claim_types :: "claim_type list" where
  "all_public_claim_types = [CapabilityExists, ContractHolds, ArchitectureFollows, FunctionImplements]"

text \<open>The enumerations are finite and their values are ordered as their numbers are, which is how they
  are stored.\<close>

fun claim_type_code :: "claim_type \<Rightarrow> nat" where
  "claim_type_code CapabilityExists = 0"
| "claim_type_code ContractHolds = 1"
| "claim_type_code ArchitectureFollows = 2"
| "claim_type_code FunctionImplements = 3"

fun verdict_code :: "verdict \<Rightarrow> nat" where
  "verdict_code Supported = 0"
| "verdict_code Contradicted = 1"
| "verdict_code Unknown = 2"

instantiation claim_type :: linorder
begin

definition less_eq_claim_type :: "claim_type \<Rightarrow> claim_type \<Rightarrow> bool" where
  "less_eq_claim_type a b \<longleftrightarrow> claim_type_code a \<le> claim_type_code b"

definition less_claim_type :: "claim_type \<Rightarrow> claim_type \<Rightarrow> bool" where
  "less_claim_type a b \<longleftrightarrow> claim_type_code a < claim_type_code b"

instance
proof
  fix a b :: claim_type
  assume "a \<le> b" "b \<le> a"
  then show "a = b" by (cases a; cases b) (simp_all add: less_eq_claim_type_def)
qed (auto simp: less_eq_claim_type_def less_claim_type_def)

end

lemma all_public_complete [simp]: "t \<in> set all_public_claim_types"
  by (cases t) (simp_all add: all_public_claim_types_def)

lemma wire_name_inj [simp]: "claimTypeWireName a = claimTypeWireName b \<longleftrightarrow> a = b"
  by (cases a; cases b) simp_all

section \<open>The tables\<close>

record fact_entity =
  fe_id :: int
  fe_project :: nat
  fe_kind :: int
  fe_name :: bytes
  fe_qualified :: bytes
  fe_file :: bytes
  fe_language :: bytes
  fe_visibility :: int

record fact_relation =
  fr_id :: int
  fr_project :: nat
  fr_source :: int
  fr_target :: int
  fr_type :: int

text \<open>A declared capability or contract: id, project, name.\<close>

type_synonym declared_row = "int \<times> nat \<times> bytes"

record fact_tables =
  entities :: "fact_entity list"
  relations :: "fact_relation list"
  capabilities :: "declared_row list"
  contracts :: "declared_row list"
  readmes :: "(nat \<times> bytes option) list"

definition kRelationTypeCalls :: int where "kRelationTypeCalls = 1"

section \<open>Statements that fail\<close>

datatype query =
    CountEntities | CountRelations
  | CapabilityLookup bytes | ImplementingLookup bytes
  | ContractLookup bytes | PatternLookup "bytes list"
  | LayerLookup bytes | ReverseCalls "int list" "int list" | ForwardCalls "int list" "int list"
  | FunctionLookup bytes | CallEdges "int list" | ObjectLookup bytes | ObjectCalls "int list" "int list"
  | ListCapabilities | ListContracts | ReadDocuments | CountLanguage bytes | ArchitectureEdges
  | MissingCapabilities | CountCapabilities
  | CountImports | OrphanModules | OrphanFunctions | ModuleCalls | ModuleCoupling | ComponentCalls
  | DeclaredContracts | ContractProbe "bytes list"

record query_env =
  has_store :: bool
  has_handle :: bool
  prepares :: "query \<Rightarrow> bool"
  stops_after :: "query \<Rightarrow> nat option"

definition healthy :: query_env where
  "healthy = \<lparr>has_store = True, has_handle = True, prepares = (\<lambda>_. True), stops_after = (\<lambda>_. None)\<rparr>"

text \<open>The rows a loop \<open>while (sqlite3_step(stmt) == SQLITE_ROW)\<close> sees.\<close>

definition rows_read :: "query_env \<Rightarrow> query \<Rightarrow> 'a list \<Rightarrow> 'a list" where
  "rows_read env q rows = (case stops_after env q of None \<Rightarrow> rows | Some k \<Rightarrow> take k rows)"

text \<open>A statement \<open>SELECT COUNT(*)\<close>: one row; 0 where it cannot be prepared or read.\<close>

definition count_read :: "query_env \<Rightarrow> query \<Rightarrow> nat \<Rightarrow> nat" where
  "count_read env q n =
     (if prepares env q then (case rows_read env q [n] of [] \<Rightarrow> 0 | k # _ \<Rightarrow> k) else 0)"

lemma rows_read_subset: "set (rows_read env q rows) \<subseteq> set rows"
  by (auto simp: rows_read_def dest: in_set_takeD split: option.splits)

lemma rows_read_healthy [simp]: "rows_read healthy q rows = rows"
  by (simp add: rows_read_def healthy_def)

lemma count_read_le: "count_read env q n \<le> n"
  by (auto simp: count_read_def rows_read_def take_Cons' split: option.splits list.splits)

lemma count_read_healthy [simp]: "count_read healthy q n = n"
  by (simp add: count_read_def) (simp add: healthy_def)

lemma healthy_simps [simp]:
  "has_store healthy" "has_handle healthy" "prepares healthy q" "stops_after healthy q = None"
  by (simp_all add: healthy_def)

definition project_entities :: "fact_tables \<Rightarrow> nat \<Rightarrow> fact_entity list" where
  "project_entities t project = filter (\<lambda>e. fe_project e = project) (entities t)"

definition project_relations :: "fact_tables \<Rightarrow> nat \<Rightarrow> fact_relation list" where
  "project_relations t project = filter (\<lambda>r. fr_project r = project) (relations t)"

definition calls_of :: "fact_tables \<Rightarrow> nat \<Rightarrow> fact_relation list" where
  "calls_of t project = filter (\<lambda>r. fr_type r = kRelationTypeCalls) (project_relations t project)"

text \<open>\<open>evidence_backend_ready\<close> with its two counters.\<close>

definition backend_counts :: "query_env \<Rightarrow> fact_tables \<Rightarrow> nat \<Rightarrow> nat \<times> nat" where
  "backend_counts env t project =
     (if \<not> has_store env \<or> \<not> has_handle env then (0, 0)
      else (count_read env CountEntities (length (project_entities t project)),
            count_read env CountRelations (length (project_relations t project))))"

definition evidence_backend_ready :: "query_env \<Rightarrow> fact_tables \<Rightarrow> nat \<Rightarrow> bool" where
  "evidence_backend_ready env t project =
     (case backend_counts env t project of (e, r) \<Rightarrow> 0 < e \<and> 0 < r)"

lemma ready_has_facts:
  assumes "evidence_backend_ready env t project"
  shows "project_entities t project \<noteq> []" "project_relations t project \<noteq> []"
  using assms count_read_le [of env CountEntities "length (project_entities t project)"]
    count_read_le [of env CountRelations "length (project_relations t project)"]
  by (auto simp: evidence_backend_ready_def backend_counts_def split: if_splits)

section \<open>Text functions of SQLite\<close>

definition is_continuation :: "char \<Rightarrow> bool" where
  [byte_simps]: "is_continuation c \<longleftrightarrow> 128 \<le> byte_of c \<and> byte_of c < 192"

text \<open>The text after its first character.\<close>

fun next_char :: "bytes \<Rightarrow> bytes" where
  "next_char [] = []"
| "next_char (c # s) = (if 192 \<le> byte_of c then dropWhile is_continuation s else s)"

lemma length_next_char: "s \<noteq> [] \<Longrightarrow> length (next_char s) < length s"
  by (cases s) (auto simp: le_imp_less_Suc length_dropWhile_le)

lemma length_next_char_le: "length (next_char s) \<le> length s"
  by (cases "s = []") (simp_all add: length_next_char less_imp_le)

function sql_length :: "bytes \<Rightarrow> nat" where
  "sql_length s = (if s = [] then 0 else Suc (sql_length (next_char s)))"
  by pat_completeness auto
termination by (relation "measure length") (auto simp: length_next_char)

declare sql_length.simps [simp del]

abbreviation percent :: char where "percent \<equiv> CHR ''%''"
abbreviation underscore :: char where "underscore \<equiv> CHR ''_''"

text \<open>\<open>text LIKE pattern\<close>; the first argument is the character of \<open>ESCAPE\<close>.\<close>

function like_match :: "char option \<Rightarrow> bytes \<Rightarrow> bytes \<Rightarrow> bool" where
  "like_match esc [] t = (t = [])"
| "like_match esc (c # p) t =
     (if c = percent \<and> esc \<noteq> Some c
      then like_match esc p t \<or> (if t = [] then False else like_match esc (c # p) (next_char t))
      else if esc = Some c
      then (case (p, t) of (d # q, e # ts) \<Rightarrow> tolower_c d = tolower_c e \<and> like_match esc q ts | _ \<Rightarrow> False)
      else if c = underscore then t \<noteq> [] \<and> like_match esc p (next_char t)
      else (case t of e # ts \<Rightarrow> tolower_c c = tolower_c e \<and> like_match esc p ts | [] \<Rightarrow> False))"
  by pat_completeness auto
termination
  by (relation "measure (\<lambda>(esc, p, t). length p + length t)")
    (auto simp: length_next_char le_imp_less_Suc length_next_char_le)

declare like_match.simps [simp del]

lemma like_match_Nil [simp]: "like_match esc [] t \<longleftrightarrow> t = []"
  by (simp add: like_match.simps)

definition sql_replace :: "char \<Rightarrow> bytes \<Rightarrow> bytes \<Rightarrow> bytes" where
  "sql_replace c r s = concat (map (\<lambda>d. if d = c then r else [d]) s)"

text \<open>The loop that puts a backslash before backslash, percent and underscore, and the three nested
  \<open>REPLACE\<close> that do the same.\<close>

definition escape_like :: "bytes \<Rightarrow> bytes" where
  "escape_like s = concat (map (\<lambda>c. if c = backslash \<or> c = percent \<or> c = underscore then [backslash, c] else [c]) s)"

definition replace_escape :: "bytes \<Rightarrow> bytes" where
  "replace_escape s =
     sql_replace underscore [backslash, underscore]
       (sql_replace percent [backslash, percent] (sql_replace backslash [backslash, backslash] s))"

lemma sql_replace_append: "sql_replace c r (s @ t) = sql_replace c r s @ sql_replace c r t"
  by (simp add: sql_replace_def)

lemma replace_escape: "replace_escape s = escape_like s"
  by (induction s) (auto simp: replace_escape_def escape_like_def sql_replace_def)

text \<open>An escaped text followed by a percent sign matches what starts with it, upper or lower case.\<close>

lemma tolower_special [simp]:
  "tolower_c backslash = backslash" "tolower_c percent = percent" "tolower_c underscore = underscore"
  by (simp_all add: tolower_c_def isupper_c_def )

lemma like_percent_all [simp]: "esc \<noteq> Some percent \<Longrightarrow> like_match esc [percent] t"
proof (induction "length t" arbitrary: t rule: less_induct)
  case less
  then show ?case using length_next_char [of t] by (subst like_match.simps) auto
qed

lemma like_escaped_prefix:
  "like_match (Some backslash) (escape_like s @ [percent]) t \<longleftrightarrow> prefix (lower s) (lower t)"
proof (induction s arbitrary: t)
  case Nil
  then show ?case by (simp add: escape_like_def)
next
  case (Cons c s)
  have e: "escape_like (c # s) = (if c = backslash \<or> c = percent \<or> c = underscore then [backslash, c] else [c]) @ escape_like s"
    by (simp add: escape_like_def)
  show ?case
  proof (cases t)
    case Nil
    then show ?thesis by (auto simp: e like_match.simps)
  next
    case (Cons d ts)
    then show ?thesis using Cons.IH [of ts] by (auto simp: e like_match.simps)
  qed
qed

text \<open>Patterns that only a text on a character boundary matches.\<close>

lemma like_percent_suffix:
  assumes "esc \<noteq> Some percent" and "\<And>v. like_match esc p v \<Longrightarrow> v = [] \<or> \<not> is_continuation (hd v)"
  shows "like_match esc (percent # p) t \<longleftrightarrow> (\<exists>u v. t = u @ v \<and> like_match esc p v)"
proof (induction "length t" arbitrary: t rule: less_induct)
  case less
  have unfold: "like_match esc (percent # p) t \<longleftrightarrow>
      like_match esc p t \<or> (t \<noteq> [] \<and> like_match esc (percent # p) (next_char t))"
    using assms(1) by (subst like_match.simps) auto
  show ?case
  proof (cases t)
    case Nil
    then show ?thesis using unfold by auto
  next
    case (Cons c s)
    have IH: "like_match esc (percent # p) (next_char t) \<longleftrightarrow> (\<exists>u v. next_char t = u @ v \<and> like_match esc p v)"
      using less [of "next_char t"] length_next_char [of t] Cons by simp
    have "suffix (next_char t) s" using Cons by (auto simp: suffix_dropWhile)
    then have down: "\<exists>u v. t = u @ v \<and> like_match esc p v" if "next_char t = u @ v" "like_match esc p v" for u v
      using that Cons by (metis append_Cons append_assoc suffix_def)
    have up: "\<exists>u. next_char t = u @ v" if "s = u @ v" "like_match esc p v" for u v
    proof -
      have "dropWhile is_continuation (u @ v) = dropWhile is_continuation u @ v"
        using assms(2) [OF that(2)] by (cases v) (auto simp: dropWhile_append)
      then show ?thesis using that Cons by auto
    qed
    show ?thesis
      unfolding unfold IH using Cons down up by (metis append_Cons append_Nil list.discI neq_Nil_conv list.inject)
  qed
qed

definition plain_text :: "bytes \<Rightarrow> bool" where
  "plain_text p \<longleftrightarrow> list_all (\<lambda>c. c \<notin> {percent, underscore, backslash}) p \<and> p \<noteq> [] \<and> \<not> is_continuation (hd p)"

lemma like_plain:
  assumes "list_all (\<lambda>c. c \<notin> {percent, underscore, backslash}) p" and "esc \<in> {None, Some backslash}"
  shows "like_match esc (p @ q) t \<longleftrightarrow> (\<exists>u v. t = u @ v \<and> lower u = lower p \<and> like_match esc q v)"
  using assms(1)
proof (induction p arbitrary: t)
  case (Cons c p)
  have c: "like_match esc (c # p @ q) t \<longleftrightarrow> (\<exists>e ts. t = e # ts \<and> tolower_c c = tolower_c e \<and> like_match esc (p @ q) ts)"
    using Cons.prems assms(2) by (subst like_match.simps) (auto split: list.splits)
  show ?case
    unfolding append_Cons c using Cons.IH Cons.prems by (auto simp: Cons_eq_append_conv map_eq_Cons_conv) metis+
qed auto

lemma is_continuation_tolower [simp]: "is_continuation (tolower_c c) \<longleftrightarrow> is_continuation c"
  by (auto simp: byte_simps byte_of_tolower)

lemma like_plain_start:
  assumes "plain_text p" and "esc \<in> {None, Some backslash}" and "like_match esc (p @ q) v"
  shows "v = [] \<or> \<not> is_continuation (hd v)"
proof -
  obtain u w where u: "v = u @ w" "lower u = lower p"
    using assms like_plain [of p esc q v] by (auto simp: plain_text_def)
  then have "tolower_c (hd u) = tolower_c (hd p)" "u \<noteq> []"
    using assms(1) by (metis list.map_sel(1) map_is_Nil_conv plain_text_def) (use u assms(1) in \<open>auto simp: plain_text_def\<close>)
  then show ?thesis using assms(1) u by (metis hd_append2 is_continuation_tolower plain_text_def)
qed

lemma like_contains:
  assumes "plain_text p" and "esc \<in> {None, Some backslash}"
  shows "like_match esc (percent # p @ q) t \<longleftrightarrow> (\<exists>u w v. t = u @ w @ v \<and> lower w = lower p \<and> like_match esc q v)"
proof -
  have "like_match esc (percent # p @ q) t \<longleftrightarrow> (\<exists>u v. t = u @ v \<and> like_match esc (p @ q) v)"
    using assms like_plain_start [OF assms] by (intro like_percent_suffix) auto
  then show ?thesis using assms like_plain [of p esc q] by (auto simp: plain_text_def)
qed

lemma lower_append_conv: "lower t = a @ b \<longleftrightarrow> (\<exists>u v. t = u @ v \<and> lower u = a \<and> lower v = b)"
  by (auto simp: map_eq_append_conv)

lemma like_contains_lower:
  assumes "plain_text p" and "esc \<in> {None, Some backslash}"
  shows "like_match esc (percent # p @ [percent]) t \<longleftrightarrow> sublist (lower p) (lower t)"
proof -
  have "esc \<noteq> Some percent" using assms(2) by auto
  then have "like_match esc (percent # p @ [percent]) t \<longleftrightarrow> (\<exists>u w v. t = u @ w @ v \<and> lower w = lower p)"
    unfolding like_contains [OF assms] by simp
  also have "\<dots> \<longleftrightarrow> sublist (lower p) (lower t)"
    unfolding sublist_def lower_append_conv by blast
  finally show ?thesis .
qed

lemma like_ends_lower:
  assumes "plain_text p" and "esc \<in> {None, Some backslash}"
  shows "like_match esc (percent # p) t \<longleftrightarrow> suffix (lower p) (lower t)"
proof -
  have "like_match esc (percent # p) t \<longleftrightarrow> (\<exists>u w. t = u @ w \<and> lower w = lower p)"
    using like_contains [OF assms, of "[]" t] by simp
  also have "\<dots> \<longleftrightarrow> suffix (lower p) (lower t)"
    unfolding suffix_def lower_append_conv by blast
  finally show ?thesis .
qed

lemma tolower_nonletter:
  assumes "\<not> isupper_c x" and "\<not> islower_c x"
  shows "tolower_c c = x \<longleftrightarrow> c = x"
proof (cases "isupper_c c")
  case True
  then have "islower_c (tolower_c c)" by (simp add: byte_simps byte_of_tolower)
  then show ?thesis using True assms by metis
qed (simp add: tolower_c_def)

lemma tolower_wildcards [simp]:
  "tolower_c c = backslash \<longleftrightarrow> c = backslash" "tolower_c c = percent \<longleftrightarrow> c = percent"
  "tolower_c c = underscore \<longleftrightarrow> c = underscore"
  by (rule tolower_nonletter; simp add: byte_simps)+

lemma plain_text_lower [simp]: "plain_text (lower p) \<longleftrightarrow> plain_text p"
  by (cases p) (simp_all add: plain_text_def list_all_iff)

lemma lower_escape_like: "lower (escape_like s) = escape_like (lower s)"
  by (induction s) (auto simp: escape_like_def)

end
