(* ===== verification/Resolver_Sql.thy ===== *)
theory Resolver_Sql
  imports Resolver_Fuzzy Facts
begin

text \<open>
  The three SQL queries that the index of \<open>resolver/fuzzy_resolver.cpp\<close> replaced, read with
  the \<open>LIKE\<close> of SQLite (\<open>Facts.like_match\<close>, where \<open>_\<close> is one UTF-8 character), and what the
  index answers compared with them.  A query without \<open>ORDER BY\<close> may deliver its rows in any
  order, so what it answers at a limit is a relation, \<open>sql_answer\<close>.
\<close>

section \<open>The queries\<close>

definition matching :: "(bytes \<Rightarrow> bool) \<Rightarrow> entity_row list \<Rightarrow> entity_row list" where
  "matching m rows = filter (\<lambda>e. snd e \<noteq> [] \<and> m (snd e)) rows"

definition sql_answer :: "(bytes \<Rightarrow> bool) \<Rightarrow> nat \<Rightarrow> entity_row list \<Rightarrow> nat list \<Rightarrow> bool" where
  "sql_answer m limit rows ids \<longleftrightarrow>
     (\<exists>order. mset order = mset (matching m rows) \<and> ids = take limit (map fst order))"






section \<open>The two readings of a pattern\<close>







section \<open>The lookups as answers of the queries\<close>

lemma sql_answer_empty: "0 < limit \<Longrightarrow> sql_answer m limit rows [] \<longleftrightarrow> matching m rows = []"
  by (auto simp: sql_answer_def)








section \<open>Properties\<close>



text \<open>
  Outside these names the replica is not \<open>LIKE\<close>: \<open>_\<close> takes one byte of a text where SQLite
  takes one character, so a name with an e acute is matched by the query and not by the index.
\<close>

theorem underscore_is_one_byte:
  "like_match None ''a_b%'' [CHR ''a'', CHR 0xC3, CHR 0xA9, CHR ''b'']"
  "\<not> sqliteLikeMatch ''a_b%'' [CHR ''a'', CHR 0xC3, CHR 0xA9, CHR ''b'']"
  by code_simp+

end
