(* ===== verification/Call_Graph.thy ===== *)
theory Call_Graph
  imports Prelude
begin

text \<open>
  The packed call adjacency of the store (\<open>store/store_graph_csr.cpp\<close>): \<open>buildCSR\<close> groups the
  call rows of the table \<open>relation\<close> by caller into the table \<open>adjacency\<close> and by callee into
  \<open>adjacency_rev\<close>, one BLOB of 64-bit ids per group; \<open>getCalleeIds\<close> and \<open>getCallerIds\<close> read
  a BLOB back.

  SQLite is not under \<open>src/\<close>.  A table is the list of its rows, keyed by the primary key the
  schema gives it; what each statement of the rebuild answers is a field of the argument
  \<open>csr_env\<close>: whether a savepoint, a deletion, the preparation of a statement or an insertion
  succeeds, and the rows a cursor delivers before \<open>sqlite3_step\<close> answers something else than
  \<open>SQLITE_ROW\<close>.  \<open>ROLLBACK TO\<close> restores the tables of the savepoint.  An \<open>INTEGER\<close> column is
  an \<open>int\<close>, an id in memory is a \<open>64 word\<close>, and a BLOB is a byte list in the order of a
  little-endian machine.  A group of \<open>2 ^ 28\<close> ids or more, whose length in bytes does not fit
  the \<open>int\<close> of \<open>sqlite3_bind_blob\<close>, is outside the model.

  The locale \<open>adjacency\<close> is the contract of the two lookups towards the traversals; the last
  section discharges it for the tables of a successful rebuild.
\<close>

section \<open>Packed ids\<close>

type_synonym node_id = "64 word"

fun nat_bytes :: "nat \<Rightarrow> nat \<Rightarrow> bytes" where
  "nat_bytes 0 n = []"
| "nat_bytes (Suc k) n = char_of (n mod 256) # nat_bytes k (n div 256)"

fun bytes_nat :: "bytes \<Rightarrow> nat" where
  "bytes_nat [] = 0"
| "bytes_nat (c # cs) = byte_of c + 256 * bytes_nat cs"

definition pack64 :: "node_id \<Rightarrow> bytes" where
  "pack64 w = nat_bytes 8 (unat w)"

definition unpack64 :: "bytes \<Rightarrow> node_id" where
  "unpack64 b = of_nat (bytes_nat b)"

text \<open>The memory of a \<open>std::vector<uint64_t>\<close>.\<close>

definition pack_ids :: "node_id list \<Rightarrow> bytes" where
  "pack_ids ids = concat (map pack64 ids)"

fun read_ids :: "nat \<Rightarrow> bytes \<Rightarrow> node_id list" where
  "read_ids 0 b = []"
| "read_ids (Suc n) b = unpack64 (take 8 b) # read_ids n (drop 8 b)"

definition decodeAdjacencyBlob :: "bytes \<Rightarrow> node_id list" where
  "decodeAdjacencyBlob b = read_ids (length b div 8) b"

lemma length_nat_bytes [simp]: "length (nat_bytes k n) = k"
  by (induction k arbitrary: n) auto

lemma bytes_nat_nat_bytes: "bytes_nat (nat_bytes k n) = n mod 256 ^ k"
proof (induction k arbitrary: n)
  case 0
  then show ?case by simp
next
  case (Suc k)
  have "bytes_nat (nat_bytes (Suc k) n) = n mod 256 + 256 * (n div 256 mod 256 ^ k)"
    by (simp add: Suc of_char_of)
  also have "\<dots> = n mod 256 ^ Suc k"
    by (simp add: mod_mult2_eq)
  finally show ?case .
qed

lemma length_pack64 [simp]: "length (pack64 w) = 8"
  by (simp add: pack64_def)

lemma unpack_pack64 [simp]: "unpack64 (pack64 w) = w"
proof -
  have "unat w < 256 ^ 8" using unsigned_less [of w] by simp
  then show ?thesis by (simp add: unpack64_def pack64_def bytes_nat_nat_bytes)
qed

lemma length_pack_ids [simp]: "length (pack_ids ids) = 8 * length ids"
  by (induction ids) (simp_all add: pack_ids_def)

lemma read_ids_pack: "read_ids (length ids) (pack_ids ids @ t) = ids"
  by (induction ids) (simp_all add: pack_ids_def)

lemma decode_pack [simp]: "decodeAdjacencyBlob (pack_ids ids) = ids"
  using read_ids_pack [of ids "[]"] by (simp add: decodeAdjacencyBlob_def)

lemma length_read_ids [simp]: "length (read_ids n b) = n"
  by (induction n arbitrary: b) auto

section \<open>The tables\<close>

record relation_row =
  rel_project :: nat
  rel_source :: int
  rel_target :: int
  rel_type :: int

record adj_row =
  adj_key :: int
  adj_project :: nat
  adj_blob :: bytes

record csr_tables =
  adjacency_tab :: "adj_row list"
  adjacency_rev_tab :: "adj_row list"

text \<open>The answers of SQLite to the statements of one rebuild, in the order they are run.\<close>

record csr_env =
  savepoint_ok :: bool
  delete_ok :: bool
  select_ok :: bool
  insert_prepare_ok :: bool
  forward_rows :: "(int \<times> int) list"
  forward_insert_ok :: "int \<Rightarrow> bool"
  delete_rev_ok :: bool
  select_rev_ok :: bool
  insert_rev_prepare_ok :: bool
  reverse_rows :: "(int \<times> int) list"
  reverse_insert_ok :: "int \<Rightarrow> bool"
  release_ok :: bool

definition call_pairs :: "relation_row list \<Rightarrow> nat \<Rightarrow> (int \<times> int) list" where
  "call_pairs rel project =
     map (\<lambda>r. (rel_source r, rel_target r)) (filter (\<lambda>r. rel_type r = 1 \<and> rel_project r = project) rel)"

definition delete_project :: "nat \<Rightarrow> adj_row list \<Rightarrow> adj_row list" where
  "delete_project project tab = filter (\<lambda>r. adj_project r \<noteq> project) tab"

text \<open>A plain \<open>INSERT\<close> fails when the primary key is taken.\<close>

definition insert_row :: "bool \<Rightarrow> adj_row \<Rightarrow> adj_row list \<Rightarrow> adj_row list option" where
  "insert_row ok r tab = (if ok \<and> adj_key r \<notin> set (map adj_key tab) then Some (tab @ [r]) else None)"

definition lookup_row :: "adj_row list \<Rightarrow> int \<Rightarrow> bytes option" where
  "lookup_row tab k = map_option adj_blob (find (\<lambda>r. adj_key r = k) tab)"

section \<open>The rebuild\<close>

record group_state =
  current_key :: int
  buf :: "node_id list"
  tab :: "adj_row list"
  failed_groups :: nat

definition flush_group :: "(int \<Rightarrow> bool) \<Rightarrow> nat \<Rightarrow> group_state \<Rightarrow> group_state" where
  "flush_group ins_ok project s =
     (if 0 \<le> current_key s \<and> buf s \<noteq> []
      then (case insert_row (ins_ok (current_key s))
                   \<lparr>adj_key = current_key s, adj_project = project, adj_blob = pack_ids (buf s)\<rparr> (tab s) of
              Some t \<Rightarrow> s\<lparr>tab := t\<rparr>
            | None \<Rightarrow> s\<lparr>failed_groups := Suc (failed_groups s)\<rparr>)
      else s)"

definition csr_group_step :: "(int \<Rightarrow> bool) \<Rightarrow> nat \<Rightarrow> int \<times> int \<Rightarrow> group_state \<Rightarrow> group_state" where
  "csr_group_step ins_ok project row s =
     (if fst row = snd row then s
      else
        let s1 = (if fst row \<noteq> current_key s
                  then (flush_group ins_ok project s)\<lparr>current_key := fst row, buf := []\<rparr>
                  else s)
        in s1\<lparr>buf := buf s1 @ [word_of_int (snd row)]\<rparr>)"

definition pack_groups :: "(int \<Rightarrow> bool) \<Rightarrow> nat \<Rightarrow> (int \<times> int) list \<Rightarrow> nat \<Rightarrow> adj_row list \<Rightarrow> group_state" where
  "pack_groups ins_ok project rows failed t =
     flush_group ins_ok project
       (fold (csr_group_step ins_ok project) rows
          \<lparr>current_key = -1, buf = [], tab = t, failed_groups = failed\<rparr>)"

definition buildCSR :: "csr_env \<Rightarrow> nat \<Rightarrow> csr_tables \<Rightarrow> bool \<times> csr_tables" where
  "buildCSR env project db =
     (if \<not> savepoint_ok env then (False, db)
      else
        let t0 = (if delete_ok env then delete_project project (adjacency_tab db) else adjacency_tab db)
        in if \<not> select_ok env then (False, db)
        else if \<not> insert_prepare_ok env then (False, db)
        else
          let fwd = pack_groups (forward_insert_ok env) project (forward_rows env) 0 t0;
              r0 = (if delete_rev_ok env then delete_project project (adjacency_rev_tab db)
                    else adjacency_rev_tab db)
          in if \<not> select_rev_ok env then (False, db)
          else if \<not> insert_rev_prepare_ok env then (False, db)
          else
            let rev = pack_groups (reverse_insert_ok env) project (reverse_rows env) (failed_groups fwd) r0
            in if 0 < failed_groups rev then (False, db)
            else if \<not> release_ok env then (False, db)
            else (True, \<lparr>adjacency_tab = tab fwd, adjacency_rev_tab = tab rev\<rparr>))"

section \<open>The lookups\<close>

definition getCalleeIds :: "csr_tables \<Rightarrow> node_id \<Rightarrow> node_id list" where
  "getCalleeIds db n =
     (case lookup_row (adjacency_tab db) (sint n) of
        Some b \<Rightarrow> decodeAdjacencyBlob b
      | None \<Rightarrow> [])"

text \<open>Without a row of \<open>adjacency_rev\<close>, every row of the node's project is scanned;
  \<open>entity_project\<close> is the column of the table \<open>entity\<close>.\<close>

definition getCallerIds :: "(int \<Rightarrow> nat option) \<Rightarrow> csr_tables \<Rightarrow> node_id \<Rightarrow> node_id list" where
  "getCallerIds entity_project db n =
     (case lookup_row (adjacency_rev_tab db) (sint n) of
        Some b \<Rightarrow> decodeAdjacencyBlob b
      | None \<Rightarrow>
          map (\<lambda>r. word_of_int (adj_key r))
            (filter (\<lambda>r. entity_project (sint n) = Some (adj_project r) \<and>
                         n \<in> set (decodeAdjacencyBlob (adj_blob r)))
               (adjacency_tab db)))"

section \<open>What a rebuild packs\<close>

definition group_of :: "(int \<times> int) list \<Rightarrow> int \<Rightarrow> node_id list" where
  "group_of rows k = map (\<lambda>r. word_of_int (snd r)) (filter (\<lambda>r. fst r = k \<and> fst r \<noteq> snd r) rows)"

lemma group_of_append: "group_of (xs @ ys) k = group_of xs k @ group_of ys k"
  by (simp add: group_of_def)

lemma group_of_single: "group_of [r] k = (if fst r = k \<and> fst r \<noteq> snd r then [word_of_int (snd r)] else [])"
  by (simp add: group_of_def)

lemma lookup_row_append:
  "lookup_row (t @ [r]) k =
     (case lookup_row t k of Some b \<Rightarrow> Some b | None \<Rightarrow> if adj_key r = k then Some (adj_blob r) else None)"
  by (induction t) (auto simp: lookup_row_def)

lemma lookup_row_None: "lookup_row t k = None \<longleftrightarrow> k \<notin> set (map adj_key t)"
  by (induction t) (auto simp: lookup_row_def)

lemma lookup_row_Some: "lookup_row t k = Some b \<Longrightarrow> \<exists>r \<in> set t. adj_key r = k \<and> adj_blob r = b"
  by (induction t) (auto simp: lookup_row_def split: if_splits)

text \<open>After the rows \<open>xs\<close> no insertion has failed, or the tables hold every group but the current
  one, which is in the buffer.\<close>

definition packing :: "nat \<Rightarrow> adj_row list \<Rightarrow> (int \<times> int) list \<Rightarrow> group_state \<Rightarrow> bool" where
  "packing project t0 xs s \<longleftrightarrow>
     (\<forall>r \<in> set xs. fst r \<noteq> snd r \<longrightarrow> fst r \<le> current_key s) \<and>
     (current_key s = -1 \<or> current_key s \<in> fst ` set xs) \<and>
     buf s = group_of xs (current_key s) \<and>
     (buf s = [] \<or> 0 \<le> current_key s) \<and>
     (failed_groups s = 0 \<longrightarrow>
       (\<forall>k. lookup_row (tab s) k =
          (if k \<noteq> current_key s \<and> group_of xs k \<noteq> [] then Some (pack_ids (group_of xs k)) else lookup_row t0 k)) \<and>
       (\<forall>r \<in> set (tab s). r \<in> set t0 \<or>
          adj_project r = project \<and> adj_key r < current_key s \<and> adj_blob r = pack_ids (group_of xs (adj_key r))))"

definition packed :: "nat \<Rightarrow> adj_row list \<Rightarrow> (int \<times> int) list \<Rightarrow> adj_row list \<Rightarrow> bool" where
  "packed project t0 rows t \<longleftrightarrow>
     (\<forall>k. lookup_row t k = (if group_of rows k \<noteq> [] then Some (pack_ids (group_of rows k)) else lookup_row t0 k)) \<and>
     (\<forall>r \<in> set t. r \<in> set t0 \<or> adj_project r = project \<and> adj_blob r = pack_ids (group_of rows (adj_key r)))"

lemma flush_group_simps [simp]:
  "current_key (flush_group ins_ok project s) = current_key s" "buf (flush_group ins_ok project s) = buf s"
  by (simp_all add: flush_group_def split: option.splits)

lemma flush_group_failed: "failed_groups s \<le> failed_groups (flush_group ins_ok project s)"
  by (simp add: flush_group_def split: option.splits)

lemma flush_packs:
  assumes "packing project t0 xs s" and "failed_groups (flush_group ins_ok project s) = 0"
  shows "packed project t0 xs (tab (flush_group ins_ok project s)) \<and>
    (\<forall>r \<in> set (tab (flush_group ins_ok project s)). r \<in> set t0 \<or> adj_key r \<le> current_key s)"
proof -
  have zero: "failed_groups s = 0"
    using flush_group_failed [of s ins_ok project] assms(2) by simp
  show ?thesis
  proof (cases "0 \<le> current_key s \<and> buf s \<noteq> []")
    case True
    let ?r = "\<lparr>adj_key = current_key s, adj_project = project, adj_blob = pack_ids (buf s)\<rparr>"
    have ok: "insert_row (ins_ok (current_key s)) ?r (tab s) = Some (tab s @ [?r])"
      and free: "current_key s \<notin> set (map adj_key (tab s))"
      using assms(2) True by (auto simp: flush_group_def insert_row_def split: if_splits)
    then have tab: "tab (flush_group ins_ok project s) = tab s @ [?r]"
      using True by (simp add: flush_group_def)
    have none: "lookup_row (tab s) (current_key s) = None"
      using free by (simp add: lookup_row_None)
    show ?thesis
      using assms(1) zero True none
      by (auto simp: tab packing_def packed_def lookup_row_append split: option.splits)
  next
    case False
    then have "tab (flush_group ins_ok project s) = tab s" by (auto simp: flush_group_def)
    then show ?thesis
      using assms(1) zero False by (fastforce simp: packing_def packed_def)
  qed
qed

lemma packing_step:
  assumes "packing project t0 xs s" and "0 \<le> fst r" and "\<forall>x \<in> set xs. fst x \<le> fst r"
  shows "packing project t0 (xs @ [r]) (csr_group_step ins_ok project r s)"
proof (cases "fst r = snd r")
  case True
  then show ?thesis
    using assms(1) by (auto simp: csr_group_step_def packing_def group_of_append group_of_single)
next
  case loop: False
  show ?thesis
  proof (cases "fst r = current_key s")
    case True
    then show ?thesis
      using assms loop by (auto simp: csr_group_step_def packing_def group_of_append group_of_single Let_def)
  next
    case False
    let ?f = "flush_group ins_ok project s"
    have cur: "current_key s < fst r"
      using assms False by (auto simp: packing_def)
    then have empty: "group_of xs (fst r) = []"
      using assms(1) by (fastforce simp: packing_def group_of_def filter_empty_conv)
    have step: "csr_group_step ins_ok project r s =
        ?f\<lparr>current_key := fst r, buf := [word_of_int (snd r)]\<rparr>"
      using loop False by (simp add: csr_group_step_def Let_def)
    have flushed: "packed project t0 xs (tab ?f)" "\<forall>q \<in> set (tab ?f). q \<in> set t0 \<or> adj_key q < fst r"
      if "failed_groups ?f = 0"
      using flush_packs [OF assms(1) that] cur by fastforce+
    show ?thesis
      unfolding packing_def step
      using flushed assms cur loop empty
      by (auto simp: packed_def group_of_append group_of_single packing_def split: if_splits)
  qed
qed

lemma packing_fold:
  assumes "sorted (map fst rows)" and "\<forall>r \<in> set rows. 0 \<le> fst r"
  shows "packing project t0 rows
    (fold (csr_group_step ins_ok project) rows \<lparr>current_key = -1, buf = [], tab = t0, failed_groups = n\<rparr>)"
  using assms
proof (induction rows rule: rev_induct)
  case Nil
  then show ?case by (simp add: packing_def group_of_def)
next
  case (snoc r rows)
  then show ?case by (auto simp: sorted_append intro!: packing_step)
qed

lemma pack_groups_packed:
  assumes "sorted (map fst rows)" and "\<forall>r \<in> set rows. 0 \<le> fst r"
    and "failed_groups (pack_groups ins_ok project rows n t0) = 0"
  shows "packed project t0 rows (tab (pack_groups ins_ok project rows n t0))"
  using flush_packs [OF packing_fold [OF assms(1,2)]] assms(3) by (simp add: pack_groups_def)

lemma fold_group_failed: "failed_groups s \<le> failed_groups (fold (csr_group_step ins_ok project) rows s)"
proof (induction rows arbitrary: s)
  case Nil
  then show ?case by simp
next
  case (Cons r rows)
  have "failed_groups s \<le> failed_groups (csr_group_step ins_ok project r s)"
    using flush_group_failed [of s ins_ok project] by (simp add: csr_group_step_def Let_def)
  with Cons [of "csr_group_step ins_ok project r s"] show ?case by simp
qed

lemma pack_groups_failed: "n \<le> failed_groups (pack_groups ins_ok project rows n t0)"
  using fold_group_failed [of "\<lparr>current_key = -1, buf = [], tab = t0, failed_groups = n\<rparr>" ins_ok project rows]
    flush_group_failed
  by (fastforce simp: pack_groups_def intro: le_trans)

text \<open>With free keys and insertions that succeed, no group fails.\<close>

lemma flush_succeeds:
  assumes "packing project t0 xs s" and "failed_groups s = 0" and "\<forall>k. ins_ok k"
    and "\<forall>r \<in> set xs. lookup_row t0 (fst r) = None"
  shows "failed_groups (flush_group ins_ok project s) = 0"
proof (cases "0 \<le> current_key s \<and> buf s \<noteq> []")
  case True
  then have "current_key s \<in> fst ` set xs" using assms(1) by (auto simp: packing_def)
  then have "lookup_row t0 (current_key s) = None" using assms(4) by auto
  then have "lookup_row (tab s) (current_key s) = None" using assms(1,2) by (simp add: packing_def)
  then show ?thesis
    using assms(2,3) by (auto simp: flush_group_def insert_row_def lookup_row_None split: option.splits)
next
  case False
  then show ?thesis using assms(2) by (auto simp: flush_group_def)
qed

lemma pack_groups_succeeds:
  assumes "sorted (map fst rows)" and "\<forall>r \<in> set rows. 0 \<le> fst r" and "\<forall>k. ins_ok k"
    and "\<forall>r \<in> set rows. lookup_row t0 (fst r) = None"
  shows "failed_groups (pack_groups ins_ok project rows 0 t0) = 0"
proof -
  let ?s0 = "\<lparr>current_key = -1, buf = [], tab = t0, failed_groups = 0\<rparr>"
  have "failed_groups (fold (csr_group_step ins_ok project) rows ?s0) = 0"
    using assms
  proof (induction rows rule: rev_induct)
    case Nil
    then show ?case by simp
  next
    case (snoc r rows)
    let ?s = "fold (csr_group_step ins_ok project) rows ?s0"
    have zero: "failed_groups ?s = 0"
      using snoc.prems by (intro snoc.IH) (simp_all add: sorted_append)
    have "packing project t0 rows ?s"
      using snoc.prems by (intro packing_fold) (auto simp: sorted_append)
    then have "failed_groups (flush_group ins_ok project ?s) = 0"
      using zero snoc.prems by (intro flush_succeeds) auto
    then show ?case using zero by (simp add: csr_group_step_def [of _ _ r] Let_def)
  qed
  then show ?thesis
    using assms packing_fold [OF assms(1,2)] unfolding pack_groups_def by (intro flush_succeeds) auto
qed

section \<open>The contract of the lookups\<close>

text \<open>The two directions of one call graph, on the nodes of a project.\<close>

locale adjacency =
  fixes callees :: "node_id \<Rightarrow> node_id list"
    and callers :: "node_id \<Rightarrow> node_id list"
    and nodes :: "node_id set"
    and edge :: "node_id \<Rightarrow> node_id \<Rightarrow> bool"
  assumes callees_edge: "s \<in> nodes \<Longrightarrow> t \<in> set (callees s) \<longleftrightarrow> edge s t"
    and callers_edge: "t \<in> nodes \<Longrightarrow> s \<in> set (callers t) \<longleftrightarrow> edge s t"
    and edge_nodes: "edge s t \<Longrightarrow> s \<in> nodes \<and> t \<in> nodes"
begin

lemma callers_mirror_callees: "s \<in> nodes \<Longrightarrow> t \<in> nodes \<Longrightarrow> t \<in> set (callees s) \<longleftrightarrow> s \<in> set (callers t)"
  by (simp add: callees_edge callers_edge)

lemma callee_walk:
  "s \<in> nodes \<Longrightarrow> ((\<lambda>u v. v \<in> set (callees u)) ^^ k) s t \<longleftrightarrow> (edge ^^ k) s t"
  by (rule relpowp_cong_on [where N = nodes]) (auto simp: callees_edge dest: edge_nodes)

lemma neighbour_walk:
  "s \<in> nodes \<Longrightarrow> ((\<lambda>u v. v \<in> set (callees u @ callers u)) ^^ k) s t \<longleftrightarrow> ((\<lambda>u v. edge u v \<or> edge v u) ^^ k) s t"
  by (rule relpowp_cong_on [where N = nodes]) (auto simp: callees_edge callers_edge dest: edge_nodes)

lemma caller_walk:
  "t \<in> nodes \<Longrightarrow> ((\<lambda>u v. v \<in> set (callers u)) ^^ k) t s \<longleftrightarrow> (edge ^^ k) s t"
proof -
  assume "t \<in> nodes"
  then have "((\<lambda>u v. v \<in> set (callers u)) ^^ k) t s \<longleftrightarrow> (edge\<inverse>\<inverse> ^^ k) t s"
    by (intro relpowp_cong_on [where N = nodes]) (auto simp: callers_edge dest: edge_nodes)
  also have "\<dots> \<longleftrightarrow> (edge ^^ k) s t"
  proof (induction k arbitrary: t)
    case 0
    then show ?case by auto
  next
    case (Suc k)
    have "(edge\<inverse>\<inverse> ^^ Suc k) t s \<longleftrightarrow> (\<exists>u. edge u t \<and> (edge\<inverse>\<inverse> ^^ k) u s)"
      by (simp only: relpowp_Suc_left OO_def conversep_iff)
    also have "\<dots> \<longleftrightarrow> (\<exists>u. edge u t \<and> (edge ^^ k) s u)" by (simp only: Suc)
    also have "\<dots> \<longleftrightarrow> (edge ^^ Suc k) s t" by (auto simp: OO_def)
    finally show ?case .
  qed
  finally show ?thesis .
qed

end

section \<open>The tables of a successful rebuild\<close>

definition calls :: "relation_row list \<Rightarrow> nat \<Rightarrow> node_id \<Rightarrow> node_id \<Rightarrow> bool" where
  "calls rel project s t \<longleftrightarrow> (sint s, sint t) \<in> set (call_pairs rel project) \<and> s \<noteq> t"

definition project_nodes :: "(int \<Rightarrow> nat option) \<Rightarrow> nat \<Rightarrow> node_id set" where
  "project_nodes entity_project project = {n. entity_project (sint n) = Some project}"

text \<open>The ids of a row that belongs to the project's entities: row ids of SQLite are positive and
  fit 63 bits.\<close>

definition own_pair :: "(int \<Rightarrow> nat option) \<Rightarrow> nat \<Rightarrow> int \<times> int \<Rightarrow> bool" where
  "own_pair entity_project project r \<longleftrightarrow>
     0 \<le> fst r \<and> fst r < 2 ^ 63 \<and> entity_project (fst r) = Some project \<and>
     0 \<le> snd r \<and> snd r < 2 ^ 63 \<and> entity_project (snd r) = Some project"

text \<open>The deletions succeed and the cursors deliver all the rows they select, in the order asked for.\<close>

definition complete_env :: "csr_env \<Rightarrow> relation_row list \<Rightarrow> nat \<Rightarrow> bool" where
  "complete_env env rel project \<longleftrightarrow>
     delete_ok env \<and> delete_rev_ok env \<and>
     sorted (map fst (forward_rows env)) \<and> mset (forward_rows env) = mset (call_pairs rel project) \<and>
     sorted (map fst (reverse_rows env)) \<and> mset (reverse_rows env) = mset (map prod.swap (call_pairs rel project))"

text \<open>The rows of other projects are keyed by entities of other projects.\<close>

definition foreign_keys_ok :: "(int \<Rightarrow> nat option) \<Rightarrow> nat \<Rightarrow> csr_tables \<Rightarrow> bool" where
  "foreign_keys_ok entity_project project db \<longleftrightarrow>
     list_all (\<lambda>r. adj_project r \<noteq> project \<longrightarrow> entity_project (adj_key r) \<noteq> Some project)
       (adjacency_tab db @ adjacency_rev_tab db)"

lemma sint_word_of_int63: "0 \<le> i \<Longrightarrow> i < 2 ^ 63 \<Longrightarrow> sint (word_of_int i :: node_id) = i"
  by (simp add: sint_sbintrunc' signed_take_bit_int_eq_self)

lemma group_of_calls:
  assumes "\<forall>r \<in> set rows. 0 \<le> snd r \<and> snd r < 2 ^ 63"
  shows "t \<in> set (group_of rows (sint s)) \<longleftrightarrow> (sint s, sint t) \<in> set rows \<and> s \<noteq> t"
proof
  assume "t \<in> set (group_of rows (sint s))"
  then obtain r where r: "r \<in> set rows" "fst r = sint s" "fst r \<noteq> snd r" "t = word_of_int (snd r)"
    by (auto simp: group_of_def)
  then have "sint t = snd r" using assms by (simp add: sint_word_of_int63)
  then show "(sint s, sint t) \<in> set rows \<and> s \<noteq> t" using r by (metis prod.collapse)
next
  assume "(sint s, sint t) \<in> set rows \<and> s \<noteq> t"
  moreover have "t = word_of_int (sint t)" by simp
  ultimately show "t \<in> set (group_of rows (sint s))"
    by (force simp: group_of_def signed_word_eqI)
qed

lemma lookup_foreign:
  assumes "list_all (\<lambda>r. adj_project r \<noteq> project \<longrightarrow> entity_project (adj_key r) \<noteq> Some project) t0"
    and "entity_project k = Some project"
  shows "lookup_row (delete_project project t0) k = None"
  using assms by (auto simp: lookup_row_None delete_project_def list_all_iff)

lemma buildCSR_True:
  assumes "buildCSR env project db = (True, db')"
  obtains fwd rev where
    "fwd = pack_groups (forward_insert_ok env) project (forward_rows env) 0
       (if delete_ok env then delete_project project (adjacency_tab db) else adjacency_tab db)"
    "rev = pack_groups (reverse_insert_ok env) project (reverse_rows env) (failed_groups fwd)
       (if delete_rev_ok env then delete_project project (adjacency_rev_tab db) else adjacency_rev_tab db)"
    "failed_groups rev = 0" "db' = \<lparr>adjacency_tab = tab fwd, adjacency_rev_tab = tab rev\<rparr>"
proof -
  show ?thesis
    using assms by (intro that [OF refl refl]) (simp_all add: buildCSR_def Let_def split: if_split_asm)
qed

lemma set_of_mset_swap: "mset rows = mset (map prod.swap ps) \<Longrightarrow> (a, b) \<in> set rows \<longleftrightarrow> (b, a) \<in> set ps"
  by (drule mset_eq_setD) (force simp: image_iff)

text \<open>A scan may end early, since every answer but \<open>SQLITE_ROW\<close> counts as the end of the rows: the cursors
  deliver some of the rows they select, in the order asked for.\<close>

definition cursor_env :: "csr_env \<Rightarrow> relation_row list \<Rightarrow> nat \<Rightarrow> bool" where
  "cursor_env env rel project \<longleftrightarrow>
     delete_ok env \<and> delete_rev_ok env \<and>
     sorted (map fst (forward_rows env)) \<and> mset (forward_rows env) \<subseteq># mset (call_pairs rel project) \<and>
     sorted (map fst (reverse_rows env)) \<and> mset (reverse_rows env) \<subseteq># mset (map prod.swap (call_pairs rel project))"

lemma complete_cursor: "complete_env env rel project \<Longrightarrow> cursor_env env rel project"
  by (simp add: complete_env_def cursor_env_def)

text \<open>The calls that each of the two scans delivered.\<close>

definition delivered :: "csr_env \<Rightarrow> node_id \<Rightarrow> node_id \<Rightarrow> bool" where
  "delivered env s t \<longleftrightarrow> (sint s, sint t) \<in> set (forward_rows env) \<and> s \<noteq> t"

definition delivered_back :: "csr_env \<Rightarrow> node_id \<Rightarrow> node_id \<Rightarrow> bool" where
  "delivered_back env s t \<longleftrightarrow> (sint t, sint s) \<in> set (reverse_rows env) \<and> s \<noteq> t"

lemma delivered_calls:
  assumes "cursor_env env rel project"
  shows "delivered env s t \<Longrightarrow> calls rel project s t" and "delivered_back env s t \<Longrightarrow> calls rel project s t"
proof -
  have "set (forward_rows env) \<subseteq> set (call_pairs rel project)"
    and "set (reverse_rows env) \<subseteq> prod.swap ` set (call_pairs rel project)"
    using assms set_mset_mono [of "mset (forward_rows env)" "mset (call_pairs rel project)"]
      set_mset_mono [of "mset (reverse_rows env)" "mset (map prod.swap (call_pairs rel project))"]
    by (simp_all add: cursor_env_def)
  then show "delivered env s t \<Longrightarrow> calls rel project s t" and "delivered_back env s t \<Longrightarrow> calls rel project s t"
    by (auto simp: delivered_def delivered_back_def calls_def)
qed

lemma complete_delivered:
  assumes "complete_env env rel project"
  shows "delivered env s t = calls rel project s t" and "delivered_back env s t = calls rel project s t"
  using assms set_of_mset_swap [of "reverse_rows env" "call_pairs rel project" "sint t" "sint s"]
    mset_eq_setD [of "forward_rows env" "call_pairs rel project"]
  by (auto simp: delivered_def delivered_back_def calls_def complete_env_def)

lemma csr_packs:
  assumes env: "cursor_env env rel project"
    and own: "list_all (own_pair ep project) (call_pairs rel project)"
    and foreign: "foreign_keys_ok ep project db"
    and build: "buildCSR env project db = (True, db')" and n: "n \<in> project_nodes ep project"
  shows "set (getCalleeIds db' n) = {t. delivered env n t}"
    and "set (getCallerIds ep db' n) =
      (if \<exists>s. delivered_back env s n then {s. delivered_back env s n} else {s. delivered env s n})"
proof -
  let ?F = "forward_rows env" and ?R = "reverse_rows env"
  let ?t0 = "delete_project project (adjacency_tab db)" and ?r0 = "delete_project project (adjacency_rev_tab db)"
  have sub: "set ?F \<subseteq> set (call_pairs rel project)" "set ?R \<subseteq> prod.swap ` set (call_pairs rel project)"
    using env set_mset_mono [of "mset ?F" "mset (call_pairs rel project)"]
      set_mset_mono [of "mset ?R" "mset (map prod.swap (call_pairs rel project))"]
    by (simp_all add: cursor_env_def)
  have pair: "own_pair ep project (fst r, snd r)" if "r \<in> set ?F" for r
    using that own sub(1) by (auto simp: list_all_iff)
  have pair_back: "own_pair ep project (snd r, fst r)" if "r \<in> set ?R" for r
    using that own sub(2) by (auto simp: list_all_iff)
  have range: "\<forall>r \<in> set ?F. 0 \<le> fst r \<and> 0 \<le> snd r \<and> snd r < 2 ^ 63" "\<forall>r \<in> set ?R. 0 \<le> fst r \<and> 0 \<le> snd r \<and> snd r < 2 ^ 63"
    using pair pair_back by (auto simp: own_pair_def)
  have del: "delete_ok env" "delete_rev_ok env" using env by (simp_all add: cursor_env_def)
  obtain fwd rev where fwd: "fwd = pack_groups (forward_insert_ok env) project ?F 0 ?t0"
    and rev: "rev = pack_groups (reverse_insert_ok env) project ?R (failed_groups fwd) ?r0"
    and zero: "failed_groups rev = 0" and db': "db' = \<lparr>adjacency_tab = tab fwd, adjacency_rev_tab = tab rev\<rparr>"
    by (rule buildCSR_True [OF build]) (simp only: del if_True)
  have "failed_groups fwd = 0"
    using pack_groups_failed [of "failed_groups fwd" "reverse_insert_ok env" project ?R ?r0] zero
    by (simp add: rev)
  then have packF: "packed project ?t0 ?F (tab fwd)"
    using env range(1) unfolding fwd by (intro pack_groups_packed) (auto simp: cursor_env_def)
  have packR: "packed project ?r0 ?R (tab rev)"
    using env range(2) zero unfolding rev by (intro pack_groups_packed) (auto simp: cursor_env_def)
  have none: "lookup_row ?t0 k = None" "lookup_row ?r0 k = None" if "ep k = Some project" for k
    using foreign that by (auto simp: foreign_keys_ok_def intro!: lookup_foreign)
  have groupF: "t \<in> set (group_of ?F (sint s)) \<longleftrightarrow> delivered env s t" for s t
    using range(1) by (auto simp: group_of_calls delivered_def)
  have groupR: "s \<in> set (group_of ?R (sint t)) \<longleftrightarrow> delivered_back env s t" for s t
    using range(2) by (auto simp: group_of_calls delivered_back_def)
  have ep_n: "ep (sint n) = Some project" using n by (simp add: project_nodes_def)
  have "t \<in> set (getCalleeIds db' n) \<longleftrightarrow> t \<in> set (group_of ?F (sint n))" for t
    using packF none(1) [OF ep_n] by (auto simp: getCalleeIds_def db' packed_def)
  then show "set (getCalleeIds db' n) = {t. delivered env n t}" by (auto simp: groupF)
  show "set (getCallerIds ep db' n) =
      (if \<exists>s. delivered_back env s n then {s. delivered_back env s n} else {s. delivered env s n})"
  proof (cases "group_of ?R (sint n) = []")
    case True
    then have no_back: "\<not> (\<exists>s. delivered_back env s n)" using groupR [of _ n] by simp
    have scan: "getCallerIds ep db' n = map (\<lambda>r. word_of_int (adj_key r))
        (filter (\<lambda>r. project = adj_project r \<and> n \<in> set (decodeAdjacencyBlob (adj_blob r))) (tab fwd))"
      using packR True none(2) [OF ep_n] ep_n by (auto simp: getCallerIds_def db' packed_def)
    have "s \<in> set (getCallerIds ep db' n) \<longleftrightarrow> delivered env s n" for s
    proof
      assume "s \<in> set (getCallerIds ep db' n)"
      then obtain q where q: "q \<in> set (tab fwd)" "adj_project q = project" "n \<in> set (decodeAdjacencyBlob (adj_blob q))"
          "s = word_of_int (adj_key q)"
        unfolding scan by auto
      then have "n \<in> set (group_of ?F (adj_key q))"
        using packF by (auto simp: packed_def delete_project_def)
      moreover from this obtain r where "r \<in> set ?F" "fst r = adj_key q" by (auto simp: group_of_def)
      then have "sint s = adj_key q" using pair [of r] q(4) by (auto simp: own_pair_def sint_word_of_int63)
      ultimately show "delivered env s n" using groupF [of n s] by simp
    next
      assume d: "delivered env s n"
      then have g: "n \<in> set (group_of ?F (sint s))" by (simp add: groupF)
      then have "lookup_row (tab fwd) (sint s) = Some (pack_ids (group_of ?F (sint s)))"
        using packF by (auto simp: packed_def)
      then obtain q where q: "q \<in> set (tab fwd)" "adj_key q = sint s" "adj_blob q = pack_ids (group_of ?F (sint s))"
        using lookup_row_Some by blast
      have "ep (sint s) = Some project" using pair [of "(sint s, sint n)"] d by (simp add: delivered_def own_pair_def)
      then have "q \<notin> set ?t0" using none(1) [of "sint s"] q(2) by (metis image_eqI list.set_map lookup_row_None)
      then have "adj_project q = project" using packF q(1) by (auto simp: packed_def)
      then show "s \<in> set (getCallerIds ep db' n)"
        using q g unfolding scan by (auto intro!: image_eqI [of _ _ q])
    qed
    then show ?thesis using no_back by auto
  next
    case False
    then obtain s where "s \<in> set (group_of ?R (sint n))" by (cases "group_of ?R (sint n)") auto
    then have some_back: "\<exists>s. delivered_back env s n" using groupR by blast
    have "getCallerIds ep db' n = group_of ?R (sint n)"
      using packR False by (simp add: getCallerIds_def db' packed_def)
    then show ?thesis using some_back groupR by auto
  qed
qed

lemma csr_publishes:
  assumes env: "complete_env env rel project"
    and own: "list_all (own_pair ep project) (call_pairs rel project)"
    and foreign: "foreign_keys_ok ep project db"
    and build: "buildCSR env project db = (True, db')"
  shows "adjacency (getCalleeIds db') (getCallerIds ep db') (project_nodes ep project) (calls rel project)"
proof
  fix s t
  note packs = csr_packs [OF complete_cursor [OF env] own foreign build]
  show "t \<in> set (getCalleeIds db' s) \<longleftrightarrow> calls rel project s t" if "s \<in> project_nodes ep project"
    using packs(1) [OF that] complete_delivered [OF env] by simp
  show "s \<in> set (getCallerIds ep db' t) \<longleftrightarrow> calls rel project s t" if "t \<in> project_nodes ep project"
    using packs(2) [OF that] complete_delivered [OF env] by auto
  show "s \<in> project_nodes ep project \<and> t \<in> project_nodes ep project" if "calls rel project s t"
    using own that by (fastforce simp: calls_def list_all_iff own_pair_def project_nodes_def)
qed

section \<open>The adjacency of a project\<close>

text \<open>The rebuild of an empty database on which every statement succeeds, over the rows that
  join two entities of the project.\<close>

definition own_rows :: "(int \<Rightarrow> nat option) \<Rightarrow> nat \<Rightarrow> relation_row list \<Rightarrow> relation_row list" where
  "own_rows ep project rel = filter (\<lambda>r. own_pair ep project (rel_source r, rel_target r)) rel"

definition ok_env :: "relation_row list \<Rightarrow> nat \<Rightarrow> csr_env" where
  "ok_env rel project =
     \<lparr>savepoint_ok = True, delete_ok = True, select_ok = True, insert_prepare_ok = True,
      forward_rows = sort_key fst (call_pairs rel project), forward_insert_ok = (\<lambda>_. True),
      delete_rev_ok = True, select_rev_ok = True, insert_rev_prepare_ok = True,
      reverse_rows = sort_key fst (map prod.swap (call_pairs rel project)), reverse_insert_ok = (\<lambda>_. True),
      release_ok = True\<rparr>"

definition no_csr :: csr_tables where
  "no_csr = \<lparr>adjacency_tab = [], adjacency_rev_tab = []\<rparr>"

definition csr_of :: "(int \<Rightarrow> nat option) \<Rightarrow> relation_row list \<Rightarrow> nat \<Rightarrow> csr_tables" where
  "csr_of ep rel project = snd (buildCSR (ok_env (own_rows ep project rel) project) project no_csr)"

lemma own_rows_own: "list_all (own_pair ep project) (call_pairs (own_rows ep project rel) project)"
  by (auto simp: call_pairs_def own_rows_def list_all_iff)

lemma complete_ok_env: "complete_env (ok_env rel project) rel project"
  by (simp add: complete_env_def ok_env_def)

lemma build_succeeds:
  assumes "complete_env env rel project" and "list_all (own_pair ep project) (call_pairs rel project)"
    and "foreign_keys_ok ep project db"
    and "savepoint_ok env" "select_ok env" "insert_prepare_ok env" "select_rev_ok env" "insert_rev_prepare_ok env"
      "release_ok env" "\<forall>k. forward_insert_ok env k" "\<forall>k. reverse_insert_ok env k"
  shows "fst (buildCSR env project db)"
proof -
  have own: "0 \<le> fst r \<and> ep (fst r) = Some project"
    if "r \<in> set (forward_rows env) \<union> set (reverse_rows env)" for r
    using that assms(1,2) set_of_mset_swap [of "reverse_rows env" "call_pairs rel project" "fst r" "snd r"]
    by (fastforce simp: complete_env_def list_all_iff own_pair_def dest!: mset_eq_setD)
  have fwd: "failed_groups (pack_groups (forward_insert_ok env) project (forward_rows env) 0
      (delete_project project (adjacency_tab db))) = 0"
    using assms own lookup_foreign [of project ep "adjacency_tab db"]
    by (intro pack_groups_succeeds) (auto simp: complete_env_def foreign_keys_ok_def)
  have "failed_groups (pack_groups (reverse_insert_ok env) project (reverse_rows env) 0
      (delete_project project (adjacency_rev_tab db))) = 0"
    using assms own lookup_foreign [of project ep "adjacency_rev_tab db"]
    by (intro pack_groups_succeeds) (auto simp: complete_env_def foreign_keys_ok_def)
  then show ?thesis
    using fwd assms by (simp add: buildCSR_def complete_env_def Let_def)
qed

lemma csr_of_build:
  "buildCSR (ok_env (own_rows ep project rel) project) project no_csr = (True, csr_of ep rel project)"
proof -
  have "fst (buildCSR (ok_env (own_rows ep project rel) project) project no_csr)"
    by (rule build_succeeds [OF complete_ok_env own_rows_own]) (simp_all add: ok_env_def foreign_keys_ok_def no_csr_def)
  then show ?thesis by (metis (full_types) csr_of_def prod.collapse)
qed

lemma csr_of_adjacency:
  "adjacency (getCalleeIds (csr_of ep rel project)) (getCallerIds ep (csr_of ep rel project))
     (project_nodes ep project) (calls (own_rows ep project rel) project)"
  by (rule csr_publishes [OF complete_ok_env own_rows_own _ csr_of_build])
    (simp add: foreign_keys_ok_def no_csr_def)

interpretation csr: adjacency "getCalleeIds (csr_of ep rel project)" "getCallerIds ep (csr_of ep rel project)"
    "project_nodes ep project" "calls (own_rows ep project rel) project" for ep rel project
  by (rule csr_of_adjacency)

section \<open>Properties\<close>

text \<open>
  (C6) What a rebuild publishes, for a project whose calls lie between its own entities: when it reports failure, at whichever statement, the tables are those of before.
  When it reports success and the deletions worked, the two lookups of every node of the project answer exactly
  the calls that the two scans delivered, read back through the packed ids; the callers come from the forward
  scan where the reverse one delivered none.  None of them is missing in the table \<open>relation\<close> or a self call, and
  if both scans ran to their end they are all the calls of the table, the same in both directions.
\<close>

theorem csr_rebuild_exact:
  assumes "cursor_env env rel project" and "list_all (own_pair ep project) (call_pairs rel project)"
    and "foreign_keys_ok ep project db" and "n \<in> project_nodes ep project"
  shows "case buildCSR env project db of (ok, db') \<Rightarrow>
    (if ok
     then set (getCalleeIds db' n) = {t. delivered env n t} \<and>
          set (getCallerIds ep db' n) =
            (if \<exists>s. delivered_back env s n then {s. delivered_back env s n} else {s. delivered env s n}) \<and>
          (\<forall>s t. delivered env s t \<or> delivered_back env s t \<longrightarrow> calls rel project s t) \<and>
          (complete_env env rel project \<longrightarrow>
             set (getCalleeIds db' n) = {t. calls rel project n t} \<and> set (getCallerIds ep db' n) = {s. calls rel project s n})
     else db' = db)"
proof (cases "fst (buildCSR env project db)")
  case True
  then obtain db' where build: "buildCSR env project db = (True, db')" by (cases "buildCSR env project db") auto
  note packs = csr_packs [OF assms(1-3) build assms(4)]
  have "set (getCalleeIds db' n) = {t. calls rel project n t} \<and> set (getCallerIds ep db' n) = {s. calls rel project s n}"
    if "complete_env env rel project"
    using packs complete_delivered [OF that] by simp
  then show ?thesis using packs delivered_calls [OF assms(1)] unfolding build by auto
next
  case False
  then show ?thesis by (auto simp: buildCSR_def Let_def)
qed

definition sample_entities :: "int \<Rightarrow> nat option" where
  "sample_entities i = (if 1 \<le> i \<and> i \<le> 5 then Some 1 else None)"

definition sample_call :: "int \<Rightarrow> int \<Rightarrow> relation_row" where
  "sample_call s t = \<lparr>rel_project = 1, rel_source = s, rel_target = t, rel_type = 1\<rparr>"

definition sample_relation :: "relation_row list" where
  "sample_relation = [sample_call 2 3, sample_call 1 2, sample_call 1 4, sample_call 4 3, sample_call 3 3, sample_call 3 5]"

lemma sample_own: "own_rows sample_entities 1 sample_relation = sample_relation"
  by (simp add: sample_relation_def sample_call_def own_rows_def own_pair_def sample_entities_def del: One_nat_def)

lemma sample_pairs: "list_all (own_pair sample_entities 1) (call_pairs sample_relation 1)"
  using own_rows_own [of sample_entities 1 sample_relation] unfolding sample_own .

lemma sample_build:
  "buildCSR (ok_env sample_relation 1) 1 no_csr = (True, csr_of sample_entities sample_relation 1)"
  using csr_of_build [of sample_entities 1 sample_relation] unfolding sample_own .

lemma sample_foreign: "foreign_keys_ok sample_entities 1 no_csr"
  by (simp add: foreign_keys_ok_def no_csr_def)

definition short_env :: csr_env where
  "short_env = (ok_env sample_relation 1)\<lparr>forward_rows := take 1 (sort_key fst (call_pairs sample_relation 1))\<rparr>"

theorem csr_rebuild_exact_witness:
  "set (getCallerIds sample_entities (csr_of sample_entities sample_relation 1) 3) = {s. calls sample_relation 1 s 3} \<and>
   set (getCalleeIds (snd (buildCSR short_env 1 no_csr)) 1) = {2}"
proof
  have n: "n \<in> project_nodes sample_entities 1" if "n \<in> {1, 3}" for n
    using that by (auto simp: project_nodes_def sample_entities_def simp del: One_nat_def)
  have "complete_env (ok_env sample_relation 1) sample_relation 1 \<longrightarrow>
      set (getCallerIds sample_entities (csr_of sample_entities sample_relation 1) 3) = {s. calls sample_relation 1 s 3}"
    using csr_rebuild_exact [OF complete_cursor [OF complete_ok_env] sample_pairs sample_foreign n, of 3]
    unfolding sample_build prod.case if_True by blast
  then show "set (getCallerIds sample_entities (csr_of sample_entities sample_relation 1) 3) = {s. calls sample_relation 1 s 3}"
    using complete_ok_env by blast
  have rows: "forward_rows short_env = [(1, 2)]" and ok: "fst (buildCSR short_env 1 no_csr)" by code_simp+
  have "cursor_env short_env sample_relation 1" by code_simp
  from csr_rebuild_exact [OF this sample_pairs sample_foreign n, of 1] ok
  have "set (getCalleeIds (snd (buildCSR short_env 1 no_csr)) 1) = {t. delivered short_env 1 t}"
    by (simp add: case_prod_beta)
  moreover have "delivered short_env 1 t \<longleftrightarrow> t = 2" for t
  proof -
    have "sint t = 2 \<longleftrightarrow> t = 2" using signed_word_eqI [of t 2] by auto
    then show ?thesis by (auto simp: delivered_def rows)
  qed
  ultimately show "set (getCalleeIds (snd (buildCSR short_env 1 no_csr)) 1) = {2}" by auto
qed

text \<open>
  A rebuild succeeds when SQLite does: if the cursors are complete, every statement and
  insertion succeeds and the rows of other projects do not use the project's keys, no group
  collides with another and the rebuild reports success.
\<close>

theorem csr_rebuild_succeeds:
  assumes "complete_env env rel project" and "list_all (own_pair ep project) (call_pairs rel project)"
    and "foreign_keys_ok ep project db"
    and "savepoint_ok env" "select_ok env" "insert_prepare_ok env" "select_rev_ok env" "insert_rev_prepare_ok env"
      "release_ok env" "\<forall>k. forward_insert_ok env k" "\<forall>k. reverse_insert_ok env k"
  shows "fst (buildCSR env project db)"
  using assms by (rule build_succeeds)

theorem csr_rebuild_succeeds_witness:
  "fst (buildCSR (ok_env sample_relation 1) 1
     \<lparr>adjacency_tab = [\<lparr>adj_key = 1, adj_project = 1, adj_blob = [CHR ''x'']\<rparr>, \<lparr>adj_key = 9, adj_project = 2, adj_blob = []\<rparr>],
      adjacency_rev_tab = []\<rparr>)"
  by (rule csr_rebuild_succeeds [OF complete_ok_env sample_pairs])
    (simp_all add: ok_env_def foreign_keys_ok_def sample_entities_def del: One_nat_def)

text \<open>
  An interrupted scan is published: \<open>sqlite3_step\<close> answering an error ends the loop like the
  last row does, so a forward cursor that stops after its first row gives a rebuild that
  reports success while callees are missing and the two directions disagree.
\<close>

theorem csr_interrupted_scan:
  "\<exists>db'. buildCSR ((ok_env sample_relation 1)\<lparr>forward_rows := take 1 (sort_key fst (call_pairs sample_relation 1))\<rparr>) 1
       no_csr = (True, db') \<and>
     getCalleeIds db' 1 = [2] \<and> calls sample_relation 1 1 4 \<and> getCallerIds sample_entities db' 4 = [1]"
proof -
  let ?r = "buildCSR ((ok_env sample_relation 1)\<lparr>forward_rows := take 1 (sort_key fst (call_pairs sample_relation 1))\<rparr>) 1 no_csr"
  have "fst ?r" by code_simp
  moreover have "getCalleeIds (snd ?r) 1 = [2]" "getCallerIds sample_entities (snd ?r) 4 = [1]" by code_simp+
  moreover have "calls sample_relation 1 1 4"
    by (simp add: calls_def call_pairs_def sample_relation_def sample_call_def)
  ultimately show ?thesis by (intro exI [of _ "snd ?r"]) (simp add: prod_eq_iff)
qed

text \<open>
  The answers of the two deletions are not looked at: when one fails, the rows of functions that have no calls
  any more stay, and the rebuild reports success.
\<close>

theorem csr_failed_delete_keeps_rows:
  "fst (buildCSR ((ok_env [] 1)\<lparr>delete_ok := False\<rparr>) 1 (csr_of sample_entities sample_relation 1)) \<and>
   getCalleeIds (snd (buildCSR ((ok_env [] 1)\<lparr>delete_ok := False\<rparr>) 1 (csr_of sample_entities sample_relation 1))) 1 = [2, 4]"
  by code_simp

end
