(* ===== verification/Traversal.thy ===== *)
theory Traversal
  imports Call_Graph Json_Roundtrip
begin

text \<open>
  The walks over the call graph: \<open>QueryEngine::findShortestPath\<close> and
  \<open>QueryEngine::getSubgraph\<close> (\<open>query/query_engine_traverse.cpp\<close>).  A walk takes the lookup of
  the neighbours as its argument, the store's \<open>getCalleeIds\<close> and \<open>getCallerIds\<close>, and the
  properties are first proved for any lookup and then, inside the locale \<open>adjacency\<close>, for the
  call graph it stands for.

  The maps \<open>parent\<close> and \<open>depth_map\<close> of the search are maps; the \<open>depth_map\<close> of
  \<open>getSubgraph\<close>, which the code iterates over, is the list of its entries in the order of
  insertion, and the order in which an \<open>unordered_map\<close> is iterated is an argument.  A breadth
  first search ends because each turn either enlarges the set of discovered nodes, of which
  there are at most \<open>2 ^ 64\<close>, or shortens the queue; the walk along the parents is a partial
  function, and \<open>found_path\<close> shows that it returns.
\<close>

section \<open>Walks\<close>

text \<open>\<open>hops nbrs k s t\<close>: some walk of exactly \<open>k\<close> edges leads from \<open>s\<close> to \<open>t\<close>.\<close>

abbreviation hops :: "(node_id \<Rightarrow> node_id list) \<Rightarrow> nat \<Rightarrow> node_id \<Rightarrow> node_id \<Rightarrow> bool" where
  "hops nbrs k \<equiv> (\<lambda>u v. v \<in> set (nbrs u)) ^^ k"

fun is_walk :: "(node_id \<Rightarrow> node_id list) \<Rightarrow> node_id list \<Rightarrow> bool" where
  "is_walk nbrs [] = False"
| "is_walk nbrs [v] = True"
| "is_walk nbrs (u # v # vs) = (v \<in> set (nbrs u) \<and> is_walk nbrs (v # vs))"

lemma is_walk_hops: "is_walk nbrs p \<Longrightarrow> hops nbrs (length p - 1) (hd p) (last p)"
proof (induction nbrs p rule: is_walk.induct)
  case (3 nbrs u v vs)
  then have "hops nbrs (length vs) v (last (v # vs))" "v \<in> set (nbrs u)" by simp_all
  then have "hops nbrs (Suc (length vs)) u (last (v # vs))"
    by (metis (mono_tags, lifting) relpowp_Suc_I2)
  then show ?case by simp
qed simp_all

section \<open>The shortest path\<close>

definition kShortestPathMaxDepth :: nat where
  "kShortestPathMaxDepth = 10"

record bfs_state =
  parent :: "node_id \<rightharpoonup> node_id"
  depth_map :: "node_id \<rightharpoonup> nat"
  bfs_queue :: "node_id list"

definition depth_at :: "(node_id \<rightharpoonup> nat) \<Rightarrow> node_id \<Rightarrow> nat" where
  "depth_at m v = (case m v of Some d \<Rightarrow> d | None \<Rightarrow> 0)"

text \<open>The loop over the neighbours of \<open>cur\<close>; the flag is \<open>found\<close>.\<close>

fun visit_neighbors :: "node_id \<Rightarrow> node_id \<Rightarrow> nat \<Rightarrow> node_id list \<Rightarrow> bfs_state \<Rightarrow> bool \<times> bfs_state" where
  "visit_neighbors target cur d [] s = (False, s)"
| "visit_neighbors target cur d (nb # nbs) s =
     (if parent s nb \<noteq> None then visit_neighbors target cur d nbs s
      else
        let s1 = s\<lparr>parent := (parent s)(nb \<mapsto> cur), depth_map := (depth_map s)(nb \<mapsto> d + 1)\<rparr>
        in if nb = target then (True, s1)
           else visit_neighbors target cur d nbs (s1\<lparr>bfs_queue := bfs_queue s1 @ [nb]\<rparr>))"

lemma visit_neighbors_parent: "dom (parent s) \<subseteq> dom (parent (snd (visit_neighbors target cur d nbs s)))"
proof (induction target cur d nbs s rule: visit_neighbors.induct)
  case (1 target cur d s)
  then show ?case by simp
next
  case (2 target cur d nb nbs s)
  show ?case
  proof (cases "parent s nb \<noteq> None \<or> nb = target")
    case True
    then show ?thesis using 2(1) by (auto simp: Let_def)
  next
    case False
    let ?s1 = "s\<lparr>parent := (parent s)(nb \<mapsto> cur), depth_map := (depth_map s)(nb \<mapsto> d + 1)\<rparr>"
    have "dom (parent s) \<subseteq> dom ((parent s)(nb \<mapsto> cur))" by auto
    also have "\<dots> = dom (parent (?s1\<lparr>bfs_queue := bfs_queue ?s1 @ [nb]\<rparr>))" by simp
    also have "\<dots> \<subseteq> dom (parent (snd (visit_neighbors target cur d nbs (?s1\<lparr>bfs_queue := bfs_queue ?s1 @ [nb]\<rparr>))))"
      using False by (intro 2(2)) simp_all
    finally show ?thesis using False by (simp add: Let_def)
  qed
qed

lemma visit_neighbors_queue:
  "dom (parent (snd (visit_neighbors target cur d nbs s))) = dom (parent s) \<Longrightarrow>
     bfs_queue (snd (visit_neighbors target cur d nbs s)) = bfs_queue s"
proof (induction target cur d nbs s rule: visit_neighbors.induct)
  case (1 target cur d s)
  then show ?case by simp
next
  case (2 target cur d nb nbs s)
  show ?case
  proof (cases "parent s nb = None")
    case True
    let ?s1 = "s\<lparr>parent := (parent s)(nb \<mapsto> cur), depth_map := (depth_map s)(nb \<mapsto> d + 1)\<rparr>"
    have "nb \<in> dom (parent (snd (visit_neighbors target cur d (nb # nbs) s)))"
      using True visit_neighbors_parent [of "?s1\<lparr>bfs_queue := bfs_queue ?s1 @ [nb]\<rparr>" target cur d nbs]
      by (auto simp: Let_def)
    with 2(3) True show ?thesis by auto
  next
    case False
    with 2 show ?thesis by simp
  qed
qed

lemma undiscovered_decreases:
  fixes m m' :: "node_id \<rightharpoonup> 'a"
  shows "dom m \<subseteq> dom m' \<Longrightarrow> dom m' \<noteq> dom m \<Longrightarrow> card (- dom m') < card (- dom m)"
  by (intro psubset_card_mono) auto

function bfs_loop :: "(node_id \<Rightarrow> node_id list) \<Rightarrow> node_id \<Rightarrow> bfs_state \<Rightarrow> bool \<times> bfs_state" where
  "bfs_loop nbrs target s =
     (case bfs_queue s of
        [] \<Rightarrow> (False, s)
      | cur # q \<Rightarrow>
          let s1 = s\<lparr>bfs_queue := q\<rparr>; d = depth_at (depth_map s) cur
          in if kShortestPathMaxDepth \<le> d then bfs_loop nbrs target s1
             else let r = visit_neighbors target cur d (nbrs cur) s1
                  in if fst r then r else bfs_loop nbrs target (snd r))"
  by pat_completeness auto

termination
proof (relation "measures [\<lambda>(_, _, s). card (- dom (parent s)), \<lambda>(_, _, s). length (bfs_queue s)]", goal_cases)
  case 1
  then show ?case by simp
next
  case (2 nbrs target s cur q s1 d)
  then show ?case by simp
next
  case (3 nbrs target s cur q s1 d r)
  then show ?case
    using visit_neighbors_parent [of s1 target cur d "nbrs cur"]
      visit_neighbors_queue [of target cur d "nbrs cur" s1]
      undiscovered_decreases [of "parent s1" "parent (snd r)"]
    by (cases "dom (parent (snd r)) = dom (parent s1)") auto
qed

declare bfs_loop.simps [simp del]

text \<open>The walk back along the parents; an entry that is missing clears the path.\<close>

partial_function (option) reconstruct ::
  "(node_id \<rightharpoonup> node_id) \<Rightarrow> node_id \<Rightarrow> node_id \<Rightarrow> node_id list \<Rightarrow> node_id list option" where
  "reconstruct par source_id node path =
     (if node = source_id then Some (path @ [node])
      else case par node of
             None \<Rightarrow> Some []
           | Some p \<Rightarrow> reconstruct par source_id p (path @ [node]))"

declare reconstruct.simps [code]

text \<open>The outcome: \<open>Some (Some path)\<close> for a path, \<open>Some None\<close> for none; \<open>None\<close> would be a walk
  along the parents that never ends.\<close>

definition bfs_start :: "node_id \<Rightarrow> bfs_state" where
  "bfs_start source_id =
     \<lparr>parent = [source_id \<mapsto> source_id], depth_map = [source_id \<mapsto> 0], bfs_queue = [source_id]\<rparr>"

definition search_path :: "(node_id \<Rightarrow> node_id list) \<Rightarrow> node_id \<Rightarrow> node_id \<Rightarrow> node_id list option option" where
  "search_path nbrs source_id target_id =
     (if source_id = target_id then Some (Some [source_id])
      else
        let r = bfs_loop nbrs target_id (bfs_start source_id)
        in if \<not> fst r then Some None
           else case reconstruct (parent (snd r)) source_id target_id [] of
                  None \<Rightarrow> None
                | Some [] \<Rightarrow> Some None
                | Some path \<Rightarrow> Some (Some (rev path)))"

section \<open>The search finds shortest paths\<close>

text \<open>The discovered nodes carry their exact distance, and the parents lead back along edges.\<close>

definition bfs_tree :: "(node_id \<Rightarrow> node_id list) \<Rightarrow> node_id \<Rightarrow> bfs_state \<Rightarrow> bool" where
  "bfs_tree nbrs src s \<longleftrightarrow>
     dom (parent s) = dom (depth_map s) \<and> depth_map s src = Some 0 \<and>
     (\<forall>v d. depth_map s v = Some d \<longrightarrow> hops nbrs d src v \<and> (\<forall>m<d. \<not> hops nbrs m src v)) \<and>
     (\<forall>v u. parent s v = Some u \<longrightarrow> v \<noteq> src \<longrightarrow>
        v \<in> set (nbrs u) \<and> (\<exists>d. depth_map s u = Some d \<and> depth_map s v = Some (Suc d)))"

text \<open>Outside the frontier \<open>F\<close>, whose nodes are at depth \<open>d\<close> or deeper, every node above the bound
  has all its neighbours discovered.\<close>

definition bfs_front ::
  "(node_id \<Rightarrow> node_id list) \<Rightarrow> node_id \<Rightarrow> nat \<Rightarrow> node_id set \<Rightarrow> bfs_state \<Rightarrow> bool" where
  "bfs_front nbrs target d F s \<longleftrightarrow>
     depth_map s target = None \<and>
     (\<forall>v e. depth_map s v = Some e \<longrightarrow> e \<le> Suc d) \<and>
     (\<forall>f \<in> F. \<exists>e. depth_map s f = Some e \<and> d \<le> e) \<and>
     (\<forall>v e. depth_map s v = Some e \<longrightarrow> v \<notin> F \<longrightarrow> e < kShortestPathMaxDepth \<longrightarrow>
        (\<forall>w \<in> set (nbrs v). \<exists>k. depth_map s w = Some k \<and> k \<le> Suc e))"

definition queue_sorted :: "bfs_state \<Rightarrow> bool" where
  "queue_sorted s \<longleftrightarrow> sorted (map (depth_at (depth_map s)) (bfs_queue s))"

lemma undiscovered_far:
  assumes "bfs_tree nbrs src s" and "bfs_front nbrs target d F s" and "hops nbrs m src v"
  shows "(\<exists>e. depth_map s v = Some e \<and> e \<le> m) \<or> min d kShortestPathMaxDepth < m"
  using assms(3)
proof (induction m arbitrary: v)
  case 0
  then show ?case using assms(1) by (auto simp: bfs_tree_def)
next
  case (Suc m)
  from Suc.prems obtain u where u: "hops nbrs m src u" "v \<in> set (nbrs u)" by auto
  show ?case
  proof (cases "min d kShortestPathMaxDepth < Suc m")
    case False
    then obtain e where e: "depth_map s u = Some e" "e \<le> m" using Suc.IH [OF u(1)] by auto
    then have "e < d" "e < kShortestPathMaxDepth" using False by auto
    then have "u \<notin> F" using assms(2) e by (fastforce simp: bfs_front_def)
    then show ?thesis
      using assms(2) e u(2) \<open>e < kShortestPathMaxDepth\<close> unfolding bfs_front_def by (meson Suc_le_mono le_trans)
  qed simp
qed

lemma discover_tree:
  assumes "bfs_tree nbrs src s" and "bfs_front nbrs target d F s" and "depth_map s cur = Some d"
    and "d < kShortestPathMaxDepth" and "nb \<in> set (nbrs cur)" and "parent s nb = None"
  shows "bfs_tree nbrs src
    (s\<lparr>parent := (parent s)(nb \<mapsto> cur), depth_map := (depth_map s)(nb \<mapsto> d + 1), bfs_queue := q\<rparr>)"
proof -
  have new: "depth_map s nb = None"
    using assms(1,6) unfolding bfs_tree_def by (metis domIff)
  have exact: "hops nbrs (Suc d) src nb"
    using assms(1,3,5) by (auto simp: bfs_tree_def)
  have far: "\<not> hops nbrs m src nb" if "m < Suc d" for m
    using undiscovered_far [OF assms(1,2), of m nb] that new assms(4) by auto
  have leaf: "parent s v \<noteq> Some nb" if "v \<noteq> src" for v
    using assms(1) that new by (fastforce simp: bfs_tree_def)
  show ?thesis
    using assms new exact far leaf by (auto simp: bfs_tree_def simp del: relpowp.simps)
qed

lemma discover_front:
  assumes "bfs_front nbrs target d (insert cur (set (bfs_queue s))) s" and "depth_map s nb = None" and "nb \<noteq> target"
    and "depth_map s cur = Some d"
  shows "bfs_front nbrs target d (insert cur (set (bfs_queue s @ [nb])))
    (s\<lparr>parent := (parent s)(nb \<mapsto> cur), depth_map := (depth_map s)(nb \<mapsto> d + 1), bfs_queue := bfs_queue s @ [nb]\<rparr>)"
proof -
  let ?m = "(depth_map s)(nb \<mapsto> d + 1)"
  have old: "?m v = Some e" if "depth_map s v = Some e" for v e using that assms(2) by auto
  have "\<exists>k. ?m w = Some k \<and> k \<le> Suc e"
    if v: "?m v = Some e" "v \<notin> insert cur (set (bfs_queue s @ [nb]))" "e < kShortestPathMaxDepth" "w \<in> set (nbrs v)"
    for v e w
  proof -
    have "depth_map s v = Some e" "v \<notin> insert cur (set (bfs_queue s))" using v(1,2) by auto
    then obtain k where "depth_map s w = Some k" "k \<le> Suc e"
      using assms(1) v(3,4) unfolding bfs_front_def by blast
    then show ?thesis using old by blast
  qed
  moreover have "\<exists>e. ?m f = Some e \<and> d \<le> e" if "f \<in> insert cur (set (bfs_queue s @ [nb]))" for f
    using assms(1) that unfolding bfs_front_def by (cases "f = nb") auto
  moreover have "e \<le> Suc d" if "?m v = Some e" for v e
    using assms(1) that unfolding bfs_front_def by (cases "v = nb") auto
  moreover have "?m target = None" using assms(1,3) by (simp add: bfs_front_def)
  ultimately show ?thesis unfolding bfs_front_def by simp
qed

lemma discover_sorted:
  assumes "queue_sorted s" and "bfs_front nbrs target d (insert cur (set (bfs_queue s))) s" and "depth_map s nb = None"
  shows "queue_sorted
    (s\<lparr>parent := p, depth_map := (depth_map s)(nb \<mapsto> d + 1), bfs_queue := bfs_queue s @ [nb]\<rparr>)"
proof -
  have other: "v \<noteq> nb \<and> depth_at (depth_map s) v \<le> d + 1" if "v \<in> set (bfs_queue s)" for v
    using assms(2,3) that by (fastforce simp: bfs_front_def depth_at_def)
  then have "map (depth_at ((depth_map s)(nb \<mapsto> d + 1))) (bfs_queue s) = map (depth_at (depth_map s)) (bfs_queue s)"
    by (auto simp: depth_at_def)
  moreover have "\<forall>x \<in> set (bfs_queue s). depth_at (depth_map s) x \<le> d + 1" using other by blast
  moreover have "depth_at ((depth_map s)(nb \<mapsto> d + 1)) nb = d + 1" by (simp add: depth_at_def)
  ultimately show ?thesis
    using assms(1) by (simp add: queue_sorted_def sorted_append del: map_eq_conv)
qed

lemma visit_neighbors_correct:
  assumes "bfs_tree nbrs src s" and "bfs_front nbrs target d (insert cur (set (bfs_queue s))) s"
    and "queue_sorted s" and "depth_map s cur = Some d" and "d < kShortestPathMaxDepth"
    and "set nbs \<subseteq> set (nbrs cur)" and "visit_neighbors target cur d nbs s = (found, s')"
  shows "bfs_tree nbrs src s' \<and>
    (if found then depth_map s' target = Some (Suc d)
     else bfs_front nbrs target d (insert cur (set (bfs_queue s'))) s' \<and> queue_sorted s' \<and>
       depth_map s' cur = Some d \<and> set nbs \<subseteq> dom (depth_map s') \<and> dom (depth_map s) \<subseteq> dom (depth_map s'))"
  using assms
proof (induction target cur d nbs s rule: visit_neighbors.induct)
  case (1 target cur d s)
  then show ?case by auto
next
  case (2 target cur d nb nbs s)
  show ?case
  proof (cases "parent s nb = None")
    case False
    then have "nb \<in> dom (depth_map s)" using 2(3) by (auto simp: bfs_tree_def)
    moreover have "visit_neighbors target cur d nbs s = (found, s')" "set nbs \<subseteq> set (nbrs cur)"
      using 2(8,9) False by simp_all
    ultimately show ?thesis using 2(1) [OF _ 2(3-7)] False by (cases found) (simp_all, blast)
  next
    case True
    then have new: "depth_map s nb = None" using 2(3) unfolding bfs_tree_def by (metis domIff)
    let ?s1 = "s\<lparr>parent := (parent s)(nb \<mapsto> cur), depth_map := (depth_map s)(nb \<mapsto> d + 1)\<rparr>"
    have tree: "bfs_tree nbrs src (?s1\<lparr>bfs_queue := q\<rparr>)" for q
      using discover_tree [OF 2(3,4,6,7) _ True] 2(8) by simp
    show ?thesis
    proof (cases "nb = target")
      case True
      then show ?thesis
        using 2(9) \<open>parent s nb = None\<close> tree [of "bfs_queue s"] by (auto simp: Let_def)
    next
      case False
      let ?s2 = "?s1\<lparr>bfs_queue := bfs_queue ?s1 @ [nb]\<rparr>"
      have run: "visit_neighbors target cur d nbs ?s2 = (found, s')"
        using 2(9) True False by (simp add: Let_def)
      have cur: "depth_map ?s2 cur = Some d" using 2(6) new by auto
      have front: "bfs_front nbrs target d (insert cur (set (bfs_queue ?s2))) ?s2"
        using discover_front [OF 2(4) new False 2(6)] by simp
      have sorted: "queue_sorted ?s2" using discover_sorted [OF 2(5,4) new] by simp
      have "bfs_tree nbrs src s' \<and>
        (if found then depth_map s' target = Some (Suc d)
         else bfs_front nbrs target d (insert cur (set (bfs_queue s'))) s' \<and> queue_sorted s' \<and>
           depth_map s' cur = Some d \<and> set nbs \<subseteq> dom (depth_map s') \<and> dom (depth_map ?s2) \<subseteq> dom (depth_map s'))"
        using True 2(8) by (intro 2(2) [OF _ refl False tree front sorted cur 2(7) _ run]) simp_all
      moreover have "dom (depth_map ?s2) = insert nb (dom (depth_map s))" by auto
      ultimately show ?thesis by (cases found) simp_all
    qed
  qed
qed

text \<open>Between two turns of the loop: the frontier is the queue, and \<open>d\<close> is the depth of its head.\<close>

definition bfs_inv :: "(node_id \<Rightarrow> node_id list) \<Rightarrow> node_id \<Rightarrow> node_id \<Rightarrow> bfs_state \<Rightarrow> bool" where
  "bfs_inv nbrs src target s \<longleftrightarrow>
     bfs_tree nbrs src s \<and> queue_sorted s \<and>
     (\<exists>d. bfs_front nbrs target d (set (bfs_queue s)) s \<and>
          (bfs_queue s \<noteq> [] \<longrightarrow> depth_map s (hd (bfs_queue s)) = Some d))"

lemma bfs_inv_start: "src \<noteq> target \<Longrightarrow> bfs_inv nbrs src target (bfs_start src)"
  by (auto simp: bfs_inv_def bfs_tree_def bfs_front_def queue_sorted_def bfs_start_def)

text \<open>The head of the queue leaves the frontier once its neighbours are discovered, or when it is
  at the bound.\<close>

lemma bfs_inv_pop:
  assumes "bfs_tree nbrs src s" and "bfs_front nbrs target d (insert cur (set (bfs_queue s))) s" and "queue_sorted s"
    and "depth_map s cur = Some d" and "kShortestPathMaxDepth \<le> d \<or> set (nbrs cur) \<subseteq> dom (depth_map s)"
  shows "bfs_inv nbrs src target s"
proof -
  have depth: "\<exists>e. depth_map s v = Some e \<and> d \<le> e \<and> e \<le> Suc d" if "v \<in> set (bfs_queue s)" for v
    using assms(2) that unfolding bfs_front_def by blast
  have closed: "\<exists>k. depth_map s w = Some k \<and> k \<le> Suc e"
    if v: "depth_map s v = Some e" "v \<notin> set (bfs_queue s)" "e < kShortestPathMaxDepth" "w \<in> set (nbrs v)" for v e w
  proof (cases "v = cur")
    case True
    then have "e = d" "w \<in> dom (depth_map s)" using v assms(4,5) by auto
    then show ?thesis using assms(2) unfolding bfs_front_def by blast
  next
    case False
    then show ?thesis using v assms(2) unfolding bfs_front_def by blast
  qed
  show ?thesis
  proof (cases "bfs_queue s")
    case Nil
    then show ?thesis
      using assms(1-3) closed unfolding bfs_inv_def bfs_front_def by (intro conjI exI [of _ d]) simp_all
  next
    case (Cons h q)
    obtain e where e: "depth_map s h = Some e" "d \<le> e" using depth [of h] Cons by auto
    have "\<exists>k. depth_map s v = Some k \<and> e \<le> k" if v: "v \<in> set (bfs_queue s)" for v
    proof -
      obtain k where k: "depth_map s v = Some k" using depth [OF v] by blast
      have "depth_at (depth_map s) h \<le> depth_at (depth_map s) v"
        using assms(3) v Cons by (auto simp: queue_sorted_def)
      then show ?thesis using k e by (simp add: depth_at_def)
    qed
    then have "bfs_front nbrs target e (set (bfs_queue s)) s"
      using assms(2) closed e(2) unfolding bfs_front_def by (meson Suc_le_mono le_trans)
    then show ?thesis
      using assms(1,3) Cons e(1) unfolding bfs_inv_def by (intro conjI exI [of _ e]) simp_all
  qed
qed

lemma bfs_loop_correct:
  assumes "bfs_inv nbrs src target s" and "bfs_loop nbrs target s = (found, s')"
  shows "bfs_tree nbrs src s' \<and>
    (if found then \<exists>d \<le> kShortestPathMaxDepth. depth_map s' target = Some d
     else \<forall>m \<le> kShortestPathMaxDepth. \<not> hops nbrs m src target)"
  using assms
proof (induction nbrs target s rule: bfs_loop.induct)
  case (1 nbrs target s)
  from 1(3) obtain d where inv: "bfs_tree nbrs src s" "queue_sorted s" "bfs_front nbrs target d (set (bfs_queue s)) s"
      "bfs_queue s \<noteq> [] \<longrightarrow> depth_map s (hd (bfs_queue s)) = Some d"
    by (auto simp: bfs_inv_def)
  show ?case
  proof (cases "bfs_queue s")
    case Nil
    then have result: "found = False" "s' = s" using 1(4) by (simp_all add: bfs_loop.simps)
    have front: "bfs_front nbrs target kShortestPathMaxDepth {} s"
      if "d < kShortestPathMaxDepth"
      using inv(3) that Nil unfolding bfs_front_def by fastforce
    have "\<not> hops nbrs m src target" if "m \<le> kShortestPathMaxDepth" for m
    proof -
      have "depth_map s target = None" using inv(3) by (simp add: bfs_front_def)
      then show ?thesis
        using that undiscovered_far [OF inv(1) front, of m target] undiscovered_far [OF inv(1,3), of m target]
        by (cases "d < kShortestPathMaxDepth") auto
    qed
    then show ?thesis using inv(1) result by simp
  next
    case (Cons cur q)
    let ?s1 = "s\<lparr>bfs_queue := q\<rparr>"
    have cur: "depth_map s cur = Some d" "depth_at (depth_map s) cur = d" using inv(4) Cons by (simp_all add: depth_at_def)
    have s1: "bfs_tree nbrs src ?s1" "bfs_front nbrs target d (insert cur (set (bfs_queue ?s1))) ?s1" "queue_sorted ?s1"
      using inv(1-3) Cons by (simp_all add: bfs_tree_def bfs_front_def queue_sorted_def)
    show ?thesis
    proof (cases "kShortestPathMaxDepth \<le> d")
      case True
      then have "bfs_inv nbrs src target ?s1"
        using cur(1) by (intro bfs_inv_pop [OF s1 _ disjI1]) simp_all
      moreover have "bfs_loop nbrs target ?s1 = (found, s')"
        using 1(4) True Cons cur(2) by (simp add: bfs_loop.simps [of nbrs target s])
      ultimately show ?thesis using 1(1) [OF Cons refl refl] True cur(2) by simp
    next
      case False
      let ?r = "visit_neighbors target cur d (nbrs cur) ?s1"
      have r: "bfs_loop nbrs target s = (if fst ?r then ?r else bfs_loop nbrs target (snd ?r))"
        using False Cons cur(2) by (simp add: bfs_loop.simps [of nbrs target s] Let_def)
      have visited: "bfs_tree nbrs src (snd ?r) \<and>
        (if fst ?r then depth_map (snd ?r) target = Some (Suc d)
         else bfs_front nbrs target d (insert cur (set (bfs_queue (snd ?r)))) (snd ?r) \<and> queue_sorted (snd ?r) \<and>
           depth_map (snd ?r) cur = Some d \<and> set (nbrs cur) \<subseteq> dom (depth_map (snd ?r)) \<and>
           dom (depth_map ?s1) \<subseteq> dom (depth_map (snd ?r)))"
        using False s1 cur(1) by (intro visit_neighbors_correct) simp_all
      show ?thesis
      proof (cases "fst ?r")
        case True
        then have "found = True" "s' = snd ?r" using 1(4) r by (metis prod.collapse prod.inject)+
        then show ?thesis using visited True False by (intro conjI) auto
      next
        case False2: False
        then have "bfs_inv nbrs src target (snd ?r)" using visited by (intro bfs_inv_pop) auto
        then show ?thesis
          using 1(2) [OF Cons refl refl _ refl] False False2 1(4) r cur(2) by simp
      qed
    qed
  qed
qed

lemma is_walk_snoc: "is_walk nbrs p \<Longrightarrow> v \<in> set (nbrs (last p)) \<Longrightarrow> is_walk nbrs (p @ [v])"
  by (induction nbrs p rule: is_walk.induct) auto

lemma reconstruct_walk:
  assumes "bfs_tree nbrs src s" and "depth_map s v = Some d"
  shows "\<exists>c. reconstruct (parent s) src v path = Some (path @ c) \<and> is_walk nbrs (rev c) \<and>
    hd (rev c) = src \<and> last (rev c) = v \<and> length c = Suc d"
  using assms(2)
proof (induction d arbitrary: v path)
  case 0
  then have "v = src" using assms(1) unfolding bfs_tree_def by (metis relpowp_0_E)
  then show ?case by (intro exI [of _ "[src]"]) (simp add: reconstruct.simps)
next
  case (Suc d)
  then have v: "v \<noteq> src" using assms(1) by (auto simp: bfs_tree_def)
  have "v \<in> dom (parent s)" using assms(1) Suc.prems by (auto simp: bfs_tree_def)
  then obtain u where u: "parent s v = Some u" by blast
  then have "v \<in> set (nbrs u) \<and> (\<exists>k. depth_map s u = Some k \<and> depth_map s v = Some (Suc k))"
    using assms(1) v unfolding bfs_tree_def by blast
  then have "v \<in> set (nbrs u)" "depth_map s u = Some d" using Suc.prems by auto
  then obtain c where c: "reconstruct (parent s) src u (path @ [v]) = Some ((path @ [v]) @ c)" "is_walk nbrs (rev c)"
      "hd (rev c) = src" "last (rev c) = u" "length c = Suc d"
    using Suc.IH by blast
  then have "is_walk nbrs (rev (v # c))"
    using \<open>v \<in> set (nbrs u)\<close> by (simp add: is_walk_snoc)
  moreover have "reconstruct (parent s) src v path = Some (path @ (v # c))"
    using c(1) u v by (simp add: reconstruct.simps [of _ _ v])
  moreover have "hd (rev (v # c)) = src" using c(3,5) by (cases "rev c") auto
  ultimately show ?case using c(5) by (intro exI [of _ "v # c"]) simp
qed

text \<open>What the search returns: a walk with the fewest edges, or nothing when every walk is longer
  than the bound.\<close>

lemma search_path_correct:
  "case search_path nbrs src target of
     None \<Rightarrow> False
   | Some None \<Rightarrow> \<forall>m \<le> kShortestPathMaxDepth. \<not> hops nbrs m src target
   | Some (Some p) \<Rightarrow> is_walk nbrs p \<and> hd p = src \<and> last p = target \<and>
       length p - 1 \<le> kShortestPathMaxDepth \<and> (\<forall>m < length p - 1. \<not> hops nbrs m src target)"
proof (cases "src = target")
  case True
  then show ?thesis by (simp add: search_path_def)
next
  case False
  let ?r = "bfs_loop nbrs target (bfs_start src)"
  have loop: "bfs_tree nbrs src (snd ?r) \<and>
    (if fst ?r then \<exists>d \<le> kShortestPathMaxDepth. depth_map (snd ?r) target = Some d
     else \<forall>m \<le> kShortestPathMaxDepth. \<not> hops nbrs m src target)"
    by (intro bfs_loop_correct [OF bfs_inv_start [OF False]]) simp
  show ?thesis
  proof (cases "fst ?r")
    case True
    then obtain d where d: "depth_map (snd ?r) target = Some d" "d \<le> kShortestPathMaxDepth" using loop by auto
    then obtain c where c: "reconstruct (parent (snd ?r)) src target [] = Some c" "is_walk nbrs (rev c)"
        "hd (rev c) = src" "last (rev c) = target" "length c = Suc d"
      using loop reconstruct_walk [of nbrs src "snd ?r" target d "[]"] by auto
    then have "search_path nbrs src target = Some (Some (rev c))"
      using False True by (cases c) (simp_all add: search_path_def Let_def)
    then show ?thesis using c d loop by (auto simp: bfs_tree_def)
  next
    case False
    then show ?thesis using loop \<open>src \<noteq> target\<close> by (simp add: search_path_def Let_def)
  qed
qed

section \<open>The report of the search\<close>

definition kShortestPathNote :: bytes where
  "kShortestPathNote =
     ''Call graph edges are resolved by name matching; indirect calls (virtual/pointer) may be missing.''"

definition path_node :: "node_id \<Rightarrow> bytes" where
  "path_node n = ''{\"node_id\":'' @ to_string_nat (unat n) @ ''}''"

definition path_tail :: "nat \<Rightarrow> bytes" where
  "path_tail h = ''\"approximation\":\"heuristic\",\"note\":\"'' @ kShortestPathNote @ ''\",\"hops\":'' @ to_string_nat h"

definition no_path_report :: "node_id \<Rightarrow> bytes" where
  "no_path_report source_id =
     ''{\"path\":['' @ path_node source_id @ ''],\"found\":false,'' @ path_tail 0 @ ''}''"

definition path_report :: "node_id list \<Rightarrow> bytes" where
  "path_report path =
     ''{\"path\":['' @ join '','' (map path_node path) @ ''],\"found\":true,'' @ path_tail (length path - 1) @ ''}''"

text \<open>\<open>ready\<close>: the store and its handle are there.\<close>

definition findShortestPath :: "bool \<Rightarrow> (node_id \<Rightarrow> node_id list) \<Rightarrow> node_id \<Rightarrow> node_id \<Rightarrow> bytes option" where
  "findShortestPath ready callees source_id target_id =
     (if \<not> ready
      then Some (''{\"path\":[],\"found\":false,'' @ path_tail 0 @
                 '',\"error\":\"graph not ready [module=query, method=findShortestPath]\"}'')
      else map_option (\<lambda>r. case r of None \<Rightarrow> no_path_report source_id | Some p \<Rightarrow> path_report p)
             (search_path callees source_id target_id))"

text \<open>The same as JSON values.\<close>

definition path_value :: "bool \<Rightarrow> node_id list \<Rightarrow> json" where
  "path_value found path =
     JObject [(''path'', JArray (map (\<lambda>n. JObject [(''node_id'', json_nat (unat n))]) path)),
              (''found'', JBool found), (''approximation'', JString ''heuristic''),
              (''note'', JString kShortestPathNote), (''hops'', json_nat (length path - 1))]"

lemma path_node_render: "path_node n = render (JObject [(''node_id'', json_nat (unat n))])"
  by (simp add: path_node_def render_member_def quoted_def jsonEscapeString_def esc_char_def)

lemma note_plain: "jsonEscapeString kShortestPathNote = kShortestPathNote"
  by (simp add: kShortestPathNote_def jsonEscapeString_def esc_char_def)

lemma path_report_render: "path_report path = render (path_value True path)"
  by (simp add: path_report_def path_value_def path_tail_def render_member_def quoted_def note_plain comp_def
      path_node_render [abs_def])
    (simp add: jsonEscapeString_def esc_char_def)

lemma no_path_report_render: "no_path_report src = render (path_value False [src])"
  by (simp add: no_path_report_def path_value_def path_tail_def render_member_def quoted_def note_plain
      path_node_render)
    (simp add: jsonEscapeString_def esc_char_def)

context adjacency
begin

lemma shortest_path:
  assumes "src \<in> nodes"
  shows "case search_path callees src target of
     None \<Rightarrow> False
   | Some None \<Rightarrow> \<forall>m \<le> kShortestPathMaxDepth. \<not> (edge ^^ m) src target
   | Some (Some p) \<Rightarrow> is_walk callees p \<and> hd p = src \<and> last p = target \<and>
       length p - 1 \<le> kShortestPathMaxDepth \<and> (edge ^^ (length p - 1)) src target \<and>
       (\<forall>m < length p - 1. \<not> (edge ^^ m) src target)"
proof -
  have walk: "is_walk callees p \<Longrightarrow> hd p = src \<Longrightarrow> last p = target \<Longrightarrow> (edge ^^ (length p - 1)) src target" for p
    using is_walk_hops [of callees p] callee_walk [OF assms] by auto
  show ?thesis
    using search_path_correct [of callees src target] walk
    by (auto simp: callee_walk [OF assms] split: option.splits)
qed

end

section \<open>Properties\<close>

text \<open>
  (C2) The shortest path is one: over the tables of a successful rebuild, from any node of the
  project, the search always returns, its report is the text of a JSON object, a reported path
  follows calls from the source to the target with the fewest edges any call chain has, and
  no path is reported only when every chain has more than ten edges.
\<close>

theorem shortest_path_in_calls:
  assumes "complete_env env rel project" and "list_all (own_pair ep project) (call_pairs rel project)"
    and "foreign_keys_ok ep project db" and "buildCSR env project db = (True, db')"
    and "src \<in> project_nodes ep project"
  shows "case search_path (getCalleeIds db') src target of
     None \<Rightarrow> False
   | Some None \<Rightarrow> (\<forall>m \<le> 10. \<not> (calls rel project ^^ m) src target) \<and>
       findShortestPath True (getCalleeIds db') src target = Some (render (path_value False [src]))
   | Some (Some p) \<Rightarrow> is_walk (getCalleeIds db') p \<and> hd p = src \<and> last p = target \<and> length p - 1 \<le> 10 \<and>
       (calls rel project ^^ (length p - 1)) src target \<and>
       (\<forall>m < length p - 1. \<not> (calls rel project ^^ m) src target) \<and>
       findShortestPath True (getCalleeIds db') src target = Some (render (path_value True p))"
  using adjacency.shortest_path [OF csr_publishes [OF assms(1-4)] assms(5), of target]
  by (auto simp: findShortestPath_def path_report_render no_path_report_render kShortestPathMaxDepth_def
      split: option.splits)

theorem shortest_path_in_calls_witness:
  "search_path (getCalleeIds (csr_of sample_entities sample_relation 1)) 1 3 = Some (Some [1, 2, 3]) \<and>
   \<not> (calls sample_relation 1 ^^ 1) 1 3 \<and> (calls sample_relation 1 ^^ 2) 1 3"
proof -
  let ?f = "getCalleeIds (csr_of sample_entities sample_relation 1)"
  have path: "search_path ?f 1 3 = Some (Some [1, 2, 3])" by code_simp
  have "(1 :: node_id) \<in> project_nodes sample_entities 1"
    by (simp add: project_nodes_def sample_entities_def)
  note shortest = shortest_path_in_calls [OF complete_ok_env sample_pairs sample_foreign sample_build this, of 3]
  have "(calls sample_relation 1 ^^ 2) 1 3" "\<forall>m < 2. \<not> (calls sample_relation 1 ^^ m) 1 3"
    using shortest unfolding path by (simp_all add: numeral_2_eq_2 del: relpowp.simps One_nat_def)
  moreover have "(1 :: nat) < 2" by simp
  ultimately show ?thesis using path by blast
qed

end
