(* ===== verification/Subgraph.thy ===== *)
theory Subgraph
  imports Traversal
begin

text \<open>
  \<open>QueryEngine::getSubgraph\<close> (\<open>query/query_engine_traverse.cpp\<close>): a breadth-first search in both
  directions, level by level, and the list of the nodes it met, filtered by kind.

  \<open>depth_map\<close> is the list of its entries in the order of insertion.  The code emits the nodes
  in the order in which it iterates over an \<open>unordered_map\<close>, which is the argument
  \<open>hash_order\<close>.  The table \<open>entity\<close> is a function of the project and the row id.
\<close>

section \<open>The kind filter\<close>

text \<open>\<open>std::stoi\<close>: leading white space, a sign and the longest run of digits; no digits and a value
  outside 32 bits are the two exceptions.\<close>

definition stoi :: "bytes \<Rightarrow> int option" where
  "stoi s =
     (let (neg, r) = strip_sign (dropWhile isspace_c s);
          ds = takeWhile isdigit_c r;
          v = (if neg then - int (digits_val ds) else int (digits_val ds))
      in if ds = [] \<or> v < - (2 ^ 31) \<or> 2 ^ 31 \<le> v then None else Some v)"

text \<open>The tokens between commas, without leading white space; a malformed one is skipped.\<close>

definition parse_kind_filter :: "bytes option \<Rightarrow> int list" where
  "parse_kind_filter filter_arg =
     (case filter_arg of
        None \<Rightarrow> []
      | Some fs \<Rightarrow>
          List.map_filter (\<lambda>tok. let t = dropWhile isspace_c tok in if t = [] then None else stoi t)
            (getline_split (CHR '','') fs))"

section \<open>The levels\<close>

type_synonym depth_list = "(node_id \<times> nat) list"

definition discover :: "nat \<Rightarrow> node_id list \<Rightarrow> depth_list \<times> node_id list \<Rightarrow> depth_list \<times> node_id list" where
  "discover d nbs st =
     fold (\<lambda>nb (dm, next_level).
             if map_of dm nb = None then (dm @ [(nb, d + 1)], next_level @ [nb]) else (dm, next_level))
       nbs st"

definition expand_level ::
  "(node_id \<Rightarrow> node_id list) \<Rightarrow> (node_id \<Rightarrow> node_id list) \<Rightarrow> node_id list \<Rightarrow> depth_list \<Rightarrow>
   depth_list \<times> node_id list" where
  "expand_level callees callers frontier dm =
     fold (\<lambda>n st. let d = depth_at (map_of (fst st)) n
                  in discover d (callers n) (discover d (callees n) st))
       frontier (dm, [])"

text \<open>The first argument counts the levels left, \<open>hops - cur_depth\<close>.\<close>

fun levels ::
  "nat \<Rightarrow> (node_id \<Rightarrow> node_id list) \<Rightarrow> (node_id \<Rightarrow> node_id list) \<Rightarrow> node_id list \<Rightarrow> depth_list \<Rightarrow> depth_list" where
  "levels 0 callees callers frontier dm = dm"
| "levels (Suc k) callees callers frontier dm =
     (if frontier = [] then dm
      else let (dm', next_level) = expand_level callees callers frontier dm
           in levels k callees callers next_level dm')"

definition subgraph_hops :: "int \<Rightarrow> nat" where
  "subgraph_hops radius = (let h = (if 0 < radius then radius else 1) in if 8 < h then 8 else nat h)"

definition subgraph_depths ::
  "(node_id \<Rightarrow> node_id list) \<Rightarrow> (node_id \<Rightarrow> node_id list) \<Rightarrow> node_id \<Rightarrow> int \<Rightarrow> depth_list" where
  "subgraph_depths callees callers center radius =
     levels (subgraph_hops radius) callees callers [center] [(center, 0)]"

section \<open>The report\<close>

record entity_meta =
  meta_name :: "bytes option"
  meta_kind :: int
  meta_file :: "bytes option"
  meta_language :: "bytes option"

definition column_text :: "bytes option \<Rightarrow> bytes" where
  "column_text t = (case t of Some s \<Rightarrow> s | None \<Rightarrow> [])"

definition emitNode :: "node_id \<Rightarrow> entity_meta \<Rightarrow> bytes" where
  "emitNode n e =
     out (run_writer
       [BeginObject, Key ''id'', ValueInt (sint n), Key ''name'', ValueString (column_text (meta_name e)),
        Key ''node_type'', ValueInt (meta_kind e), Key ''file_path'', ValueString (column_text (meta_file e)),
        Key ''language'', ValueString (column_text (meta_language e)), EndObject] new_writer)"

definition subgraph_nodes ::
  "(nat \<Rightarrow> int \<Rightarrow> entity_meta option) \<Rightarrow> nat \<Rightarrow> int list \<Rightarrow> node_id list \<Rightarrow> (node_id \<times> entity_meta) list" where
  "subgraph_nodes entity project kind_filter ordered =
     List.map_filter
       (\<lambda>n. case entity project (sint n) of
              Some e \<Rightarrow> if kind_filter = [] \<or> meta_kind e \<in> set kind_filter then Some (n, e) else None
            | None \<Rightarrow> None) ordered"

definition getSubgraph ::
  "(node_id list \<Rightarrow> node_id list) \<Rightarrow> (nat \<Rightarrow> int \<Rightarrow> entity_meta option) \<Rightarrow> bool \<Rightarrow>
   (node_id \<Rightarrow> node_id list) \<Rightarrow> (node_id \<Rightarrow> node_id list) \<Rightarrow>
   nat \<Rightarrow> node_id \<Rightarrow> int \<Rightarrow> bytes option \<Rightarrow> bytes option \<Rightarrow> bytes" where
  "getSubgraph hash_order entity ready callees callers project center radius node_type_filter edge_type_filter =
     (if \<not> ready
      then ''{\"total\":0,\"nodes\":[],\"error\":\"graph not ready [module=query, method=getSubgraph]\"}''
      else
        let kinds = parse_kind_filter node_type_filter;
            ordered = hash_order (map fst (subgraph_depths callees callers center radius));
            nodes = subgraph_nodes entity project kinds ordered
        in ''{\"nodes\":['' @ join '','' (map (\<lambda>(n, e). emitNode n e) nodes) @ ''],\"total\":'' @
           to_string_nat (length nodes) @ ''}'')"

section \<open>The levels are the exact distances\<close>

lemma discover_append: "discover d (xs @ ys) st = discover d ys (discover d xs st)"
  by (simp add: discover_def)

lemma map_of_snoc: "map_of dm w = None \<Longrightarrow> map_of (dm @ [(w, e)]) = (map_of dm)(w \<mapsto> e)"
  by (auto simp: fun_eq_iff map_add_def split: option.splits)

lemma discover_spec:
  "discover d nbs (dm, nx) = (dm', nx') \<Longrightarrow>
     map_of dm' v = (if map_of dm v = None \<and> v \<in> set nbs then Some (d + 1) else map_of dm v) \<and>
     set nx' = set nx \<union> {w \<in> set nbs. map_of dm w = None} \<and>
     (distinct (map fst dm) \<longrightarrow> distinct (map fst dm'))"
proof (induction nbs arbitrary: dm nx)
  case Nil
  then show ?case by (simp add: discover_def)
next
  case (Cons nb nbs)
  show ?case
  proof (cases "map_of dm nb")
    case (Some e)
    then have "discover d nbs (dm, nx) = (dm', nx')" using Cons.prems by (simp add: discover_def)
    note IH = Cons.IH [OF this]
    have "{w \<in> set (nb # nbs). map_of dm w = None} = {w \<in> set nbs. map_of dm w = None}" using Some by auto
    moreover have "map_of dm v = None \<and> v \<in> set (nb # nbs) \<longleftrightarrow> map_of dm v = None \<and> v \<in> set nbs" using Some by auto
    ultimately show ?thesis using IH by (simp only: simp_thms) blast
  next
    case None
    then have "discover d nbs (dm @ [(nb, d + 1)], nx @ [nb]) = (dm', nx')"
      using Cons.prems by (simp add: discover_def)
    from Cons.IH [OF this]
    have IH: "map_of dm' v = (if ((map_of dm)(nb \<mapsto> d + 1)) v = None \<and> v \<in> set nbs then Some (d + 1)
          else ((map_of dm)(nb \<mapsto> d + 1)) v)"
        "set nx' = set (nx @ [nb]) \<union> {w \<in> set nbs. ((map_of dm)(nb \<mapsto> d + 1)) w = None}"
        "distinct (map fst (dm @ [(nb, d + 1)])) \<longrightarrow> distinct (map fst dm')"
      unfolding map_of_snoc [OF None] by blast+
    moreover have "nb \<notin> fst ` set dm" using None by (simp add: map_of_eq_None_iff)
    ultimately show ?thesis using None by auto
  qed
qed

definition both :: "(node_id \<Rightarrow> node_id list) \<Rightarrow> (node_id \<Rightarrow> node_id list) \<Rightarrow> node_id \<Rightarrow> node_id list" where
  "both callees callers n = callees n @ callers n"

lemma expand_level_spec:
  assumes "expand_level callees callers frontier dm = (dm', nx')" and "\<forall>n \<in> set frontier. map_of dm n = Some c"
  shows "(\<forall>v. map_of dm' v = (if map_of dm v = None \<and> (\<exists>n \<in> set frontier. v \<in> set (both callees callers n))
      then Some (c + 1) else map_of dm v)) \<and>
    set nx' = {w. map_of dm w = None \<and> (\<exists>n \<in> set frontier. w \<in> set (both callees callers n))} \<and>
    (distinct (map fst dm) \<longrightarrow> distinct (map fst dm'))"
  using assms
proof (induction frontier arbitrary: dm' nx' rule: rev_induct)
  case Nil
  then show ?case by (simp add: expand_level_def)
next
  case (snoc n frontier)
  obtain dm1 nx1 where l1: "expand_level callees callers frontier dm = (dm1, nx1)" by fastforce
  have IH: "map_of dm1 v = (if map_of dm v = None \<and> (\<exists>n \<in> set frontier. v \<in> set (both callees callers n))
        then Some (c + 1) else map_of dm v)"
      "set nx1 = {w. map_of dm w = None \<and> (\<exists>n \<in> set frontier. w \<in> set (both callees callers n))}"
      "distinct (map fst dm) \<longrightarrow> distinct (map fst dm1)" for v
    using snoc.IH [OF l1] snoc.prems(2) by simp_all
  have "map_of dm1 n = Some c" using IH(1) [of n] snoc.prems(2) by simp
  then have "discover c (both callees callers n) (dm1, nx1) = (dm', nx')"
    using snoc.prems(1) l1 by (simp add: expand_level_def Let_def discover_append both_def depth_at_def)
  note new = discover_spec [OF this]
  have "map_of dm' v = (if map_of dm v = None \<and> (\<exists>n \<in> set (frontier @ [n]). v \<in> set (both callees callers n))
      then Some (c + 1) else map_of dm v)" for v
    using new [of v] IH(1) [of v] by (auto split: if_splits)
  moreover have "set nx' = {w. map_of dm w = None \<and> (\<exists>n \<in> set (frontier @ [n]). w \<in> set (both callees callers n))}"
    using new IH(1,2) by (auto split: if_splits)
  ultimately show ?case using new IH(3) by blast
qed

text \<open>After \<open>c\<close> levels the list holds the nodes within \<open>c\<close> steps, each with its distance, and the
  frontier the nodes at distance \<open>c\<close>.\<close>

definition level_ok :: "(node_id \<Rightarrow> node_id list) \<Rightarrow> node_id \<Rightarrow> nat \<Rightarrow> depth_list \<Rightarrow> node_id list \<Rightarrow> bool" where
  "level_ok nbrs center c dm frontier \<longleftrightarrow>
     distinct (map fst dm) \<and> set frontier = {v. map_of dm v = Some c} \<and>
     (\<forall>v e. map_of dm v = Some e \<longleftrightarrow> e \<le> c \<and> hops nbrs e center v \<and> (\<forall>m<e. \<not> hops nbrs m center v))"

lemma least_hops: "hops nbrs k s t \<Longrightarrow> \<exists>e \<le> k. hops nbrs e s t \<and> (\<forall>m<e. \<not> hops nbrs m s t)"
  using ex_least_nat_le [of "\<lambda>m. hops nbrs m s t" k] by blast

lemma level_unknown:
  assumes "level_ok nbrs center c dm frontier"
  shows "map_of dm v = None \<longleftrightarrow> (\<forall>m \<le> c. \<not> hops nbrs m center v)"
proof
  assume none: "map_of dm v = None"
  show "\<forall>m \<le> c. \<not> hops nbrs m center v"
  proof (intro allI impI notI)
    fix m assume m: "m \<le> c" "hops nbrs m center v"
    obtain e where "e \<le> m" "hops nbrs e center v" "\<forall>k<e. \<not> hops nbrs k center v"
      using least_hops [OF m(2)] by blast
    then have "map_of dm v = Some e" using assms m(1) by (simp add: level_ok_def)
    with none show False by simp
  qed
next
  assume "\<forall>m \<le> c. \<not> hops nbrs m center v"
  then show "map_of dm v = None"
    using assms by (cases "map_of dm v") (auto simp: level_ok_def)
qed

lemma level_step:
  assumes ok: "level_ok (both callees callers) center c dm frontier"
    and step: "expand_level callees callers frontier dm = (dm', nx')"
  shows "level_ok (both callees callers) center (Suc c) dm' nx'"
proof -
  let ?nbrs = "both callees callers"
  have known: "\<forall>n \<in> set frontier. map_of dm n = Some c" using ok by (simp add: level_ok_def)
  note spec = expand_level_spec [OF step known]
  have reach: "(\<exists>n \<in> set frontier. v \<in> set (?nbrs n)) \<longleftrightarrow> hops ?nbrs (Suc c) center v"
    if new: "map_of dm v = None" for v
  proof
    assume "\<exists>n \<in> set frontier. v \<in> set (?nbrs n)"
    then show "hops ?nbrs (Suc c) center v" using ok by (auto simp: level_ok_def)
  next
    assume "hops ?nbrs (Suc c) center v"
    then obtain u where u: "hops ?nbrs c center u" "v \<in> set (?nbrs u)" by auto
    have "\<not> hops ?nbrs m center u" if "m < c" for m
    proof
      assume "hops ?nbrs m center u"
      then have "hops ?nbrs (Suc m) center v" using u(2) by auto
      moreover have "\<not> hops ?nbrs (Suc m) center v" using that new level_unknown [OF ok, of v] Suc_leI by blast
      ultimately show False by blast
    qed
    then have "map_of dm u = Some c" using ok u(1) by (simp add: level_ok_def)
    then show "\<exists>n \<in> set frontier. v \<in> set (?nbrs n)" using ok u(2) by (auto simp: level_ok_def)
  qed
  have dm': "map_of dm' v = (if map_of dm v = None \<and> hops ?nbrs (Suc c) center v then Some (Suc c) else map_of dm v)" for v
    using spec reach [of v] by (cases "map_of dm v") (simp_all del: relpowp.simps)
  have "map_of dm' v = Some e \<longleftrightarrow>
      e \<le> Suc c \<and> hops ?nbrs e center v \<and> (\<forall>m<e. \<not> hops ?nbrs m center v)" for v e
  proof (cases "map_of dm v")
    case None
    then have "\<forall>m \<le> c. \<not> hops ?nbrs m center v" using level_unknown [OF ok] by blast
    then show ?thesis using None dm' [of v] le_Suc_eq less_Suc_eq_le by (auto simp del: relpowp.simps)
  next
    case (Some k)
    then have "k \<le> c" "hops ?nbrs k center v" "\<forall>m<k. \<not> hops ?nbrs m center v" using ok by (auto simp: level_ok_def)
    then show ?thesis using Some dm' [of v] linorder_less_linear [of k e] by (auto simp del: relpowp.simps)
  qed
  moreover have "set nx' = {v. map_of dm' v = Some (Suc c)}"
  proof -
    have "map_of dm v \<noteq> Some (Suc c)" for v using ok by (auto simp: level_ok_def)
    then show ?thesis using spec by (auto split: if_splits)
  qed
  moreover have "distinct (map fst dm')" using spec ok by (simp add: level_ok_def)
  ultimately show ?thesis unfolding level_ok_def by blast
qed

lemma levels_ok:
  assumes "level_ok (both callees callers) center c dm frontier"
  shows "\<exists>f. level_ok (both callees callers) center (c + k) (levels k callees callers frontier dm) f"
  using assms
proof (induction k arbitrary: c dm frontier)
  case 0
  then show ?case by auto
next
  case (Suc k)
  obtain dm' nx where l: "expand_level callees callers frontier dm = (dm', nx)" by fastforce
  have "level_ok (both callees callers) center (Suc c) dm' nx"
    by (rule level_step [OF Suc.prems l])
  from Suc.IH [OF this] obtain f where
    f: "level_ok (both callees callers) center (c + Suc k) (levels k callees callers nx dm') f"
    by auto
  have "levels k callees callers nx dm' = levels (Suc k) callees callers frontier dm"
  proof (cases "frontier = []")
    case True
    then have "dm' = dm" "nx = []" using l by (simp_all add: expand_level_def)
    then show ?thesis using True by (cases k) simp_all
  qed (simp add: l)
  then show ?case using f by auto
qed

lemma subgraph_depths_exact:
  "distinct (map fst (subgraph_depths callees callers center radius)) \<and>
   (map_of (subgraph_depths callees callers center radius) v = Some e \<longleftrightarrow>
      e \<le> subgraph_hops radius \<and> hops (both callees callers) e center v \<and>
      (\<forall>m<e. \<not> hops (both callees callers) m center v))"
proof -
  have "level_ok (both callees callers) center 0 [(center, 0)] [center]"
    by (auto simp: level_ok_def)
  from levels_ok [OF this, of "subgraph_hops radius"] show ?thesis
    by (auto simp: subgraph_depths_def level_ok_def)
qed

context adjacency
begin

lemma subgraph_levels:
  assumes "center \<in> nodes"
  shows "map_of (subgraph_depths callees callers center radius) v = Some e \<longleftrightarrow>
    e \<le> subgraph_hops radius \<and> ((\<lambda>u v. edge u v \<or> edge v u) ^^ e) center v \<and>
    (\<forall>m<e. \<not> ((\<lambda>u v. edge u v \<or> edge v u) ^^ m) center v)"
  using subgraph_depths_exact [of callees callers center radius v e] neighbour_walk [OF assms]
  by (simp add: both_def)

end

section \<open>Properties\<close>

lemma set_subgraph_nodes:
  "(n, e) \<in> set (subgraph_nodes entity project kinds ordered) \<longleftrightarrow>
     n \<in> set ordered \<and> entity project (sint n) = Some e \<and> (kinds = [] \<or> meta_kind e \<in> set kinds)"
  by (auto simp: subgraph_nodes_def set_map_filter split: option.splits if_splits)

text \<open>
  (C9) A subgraph holds exactly the nodes within the radius: over the tables of a successful
  rebuild, whatever order the hash map is iterated in, the reported nodes are those entities of
  the project of an admitted kind that are joined to the center by at most as many calls, in
  either direction, as the radius clamped to 1 through 8 allows, and each node's depth is its
  distance.
\<close>

theorem subgraph_within_radius:
  assumes "complete_env env rel project" and "list_all (own_pair ep project) (call_pairs rel project)"
    and "foreign_keys_ok ep project db" and "buildCSR env project db = (True, db')"
    and "center \<in> project_nodes ep project" and "\<forall>ns. set (hash_order ns) = set ns"
  shows "(map_of (subgraph_depths (getCalleeIds db') (getCallerIds ep db') center radius) n = Some d \<longleftrightarrow>
      d \<le> subgraph_hops radius \<and> ((\<lambda>u v. calls rel project u v \<or> calls rel project v u) ^^ d) center n \<and>
      (\<forall>m<d. \<not> ((\<lambda>u v. calls rel project u v \<or> calls rel project v u) ^^ m) center n)) \<and>
    ((n, e) \<in> set (subgraph_nodes entity project kinds
        (hash_order (map fst (subgraph_depths (getCalleeIds db') (getCallerIds ep db') center radius)))) \<longleftrightarrow>
      entity project (sint n) = Some e \<and> (kinds = [] \<or> meta_kind e \<in> set kinds) \<and>
      (\<exists>k \<le> subgraph_hops radius. ((\<lambda>u v. calls rel project u v \<or> calls rel project v u) ^^ k) center n))"
proof -
  let ?R = "\<lambda>u v. calls rel project u v \<or> calls rel project v u"
  let ?dm = "subgraph_depths (getCalleeIds db') (getCallerIds ep db') center radius"
  note levels = adjacency.subgraph_levels [OF csr_publishes [OF assms(1-4)] assms(5), of radius]
  have "n \<in> set (map fst ?dm) \<longleftrightarrow> (\<exists>k \<le> subgraph_hops radius. (?R ^^ k) center n)"
  proof
    assume "n \<in> set (map fst ?dm)"
    then obtain k where "map_of ?dm n = Some k" by (metis map_of_eq_None_iff not_None_eq set_map)
    then show "\<exists>k \<le> subgraph_hops radius. (?R ^^ k) center n" using levels by blast
  next
    assume "\<exists>k \<le> subgraph_hops radius. (?R ^^ k) center n"
    then obtain k where k: "k \<le> subgraph_hops radius" "(?R ^^ k) center n" by blast
    obtain j where "j \<le> k" "(?R ^^ j) center n" "\<forall>m<j. \<not> (?R ^^ m) center n"
      using ex_least_nat_le [of "\<lambda>m. (?R ^^ m) center n" k] k(2) by blast
    then have "map_of ?dm n = Some j" using levels k(1) by simp
    then show "n \<in> set (map fst ?dm)" by (metis image_eqI fst_conv map_of_SomeD set_map)
  qed
  then show ?thesis using levels assms(6) by (simp add: set_subgraph_nodes) blast
qed

theorem subgraph_within_radius_witness:
  "map_of (subgraph_depths (getCalleeIds (csr_of sample_entities sample_relation 1))
      (getCallerIds sample_entities (csr_of sample_entities sample_relation 1)) 2 1) 4 = None \<and>
   \<not> ((\<lambda>u v. calls sample_relation 1 u v \<or> calls sample_relation 1 v u) ^^ 1) 2 4"
proof -
  let ?dm = "subgraph_depths (getCalleeIds (csr_of sample_entities sample_relation 1))
      (getCallerIds sample_entities (csr_of sample_entities sample_relation 1)) 2 1"
  have none: "map_of ?dm 4 = None" by code_simp
  have "(2 :: node_id) \<in> project_nodes sample_entities 1" "\<forall>ns :: node_id list. set (id ns) = set ns"
    by (simp_all add: project_nodes_def sample_entities_def)
  from subgraph_within_radius [OF complete_ok_env sample_pairs sample_foreign sample_build this, of 1 4 1]
  show ?thesis using none by (simp add: subgraph_hops_def)
qed

end
