(* ===== verification/Impact.thy ===== *)
theory Impact
  imports Subgraph "HOL-Library.AList" "HOL-Library.Product_Lexorder"
begin

text \<open>
  The analysis of a change (\<open>query/impact_analysis.cpp\<close>, with \<open>resolvePath\<close> of
  \<open>util/path_util.h\<close>): the list of modified files is read from a JSON array, its functions
  are the seeds, and a bounded depth-first search over the reverse and the forward adjacency
  gives the callers and callees within three steps, each with its distance and the seed it is
  reached from.

  \<open>std::filesystem::weakly_canonical\<close> is an argument, \<open>None\<close> for an error code; so are the
  order in which the set of seeds is iterated over and the rows of the table \<open>entity\<close>.  The map
  \<open>min_depth\<close>, which the code iterates over, is an association list; the sort that follows
  makes its order irrelevant.  The stack has its top at the head.  The search ends because each
  push lowers the recorded depth of a node, a number of at most 3 once it is set.
\<close>

section \<open>The list of files\<close>

fun read_path :: "bytes \<Rightarrow> bytes \<Rightarrow> bytes \<times> bytes" where
  "read_path path [] = (path, [])"
| "read_path path (c # r) =
     (if c = quote_char then (path, c # r)
      else if c = backslash \<and> r \<noteq> [] then read_path (path @ [hd r]) (tl r)
      else read_path (path @ [c]) r)"

lemma read_path_length: "length (snd (read_path path s)) \<le> length s"
proof (induction "length s" arbitrary: path s rule: less_induct)
  case less
  show ?case
  proof (cases s)
    case (Cons c r)
    have "length (tl r) < length s" "length r < length s" using Cons by simp_all
    with less.hyps [of "tl r" "path @ [hd r]"] less.hyps [of r "path @ [c]"] Cons show ?thesis
      by (auto simp: less_imp_le intro: le_SucI le_trans)
  qed simp
qed

definition skip_separators :: "bytes \<Rightarrow> bytes" where
  "skip_separators s = dropWhile (\<lambda>c. is_json_ws c \<or> c = CHR '','') s"

function file_items :: "bytes list \<Rightarrow> bytes \<Rightarrow> bytes list" where
  "file_items files s =
     (case skip_separators s of
        [] \<Rightarrow> files
      | c # r \<Rightarrow>
          if c = CHR '']'' then files
          else if c \<noteq> quote_char then files
          else (case read_path [] r of
                  (path, []) \<Rightarrow> files
                | (path, _ # rest) \<Rightarrow> file_items (if path \<noteq> [] then files @ [path] else files) rest))"
  by pat_completeness auto
termination
proof (relation "measure (\<lambda>(_, s). length s)", goal_cases)
  case (2 files s c r path list q rest)
  have "length (skip_separators s) \<le> length s" by (simp add: skip_separators_def length_dropWhile_le)
  moreover have "length (q # rest) \<le> length r"
    using read_path_length [of "[]" r] 2 by (metis snd_conv)
  ultimately show ?case using 2 by simp
qed simp

declare file_items.simps [simp del]

definition parseFileList :: "bytes option \<Rightarrow> bytes list" where
  "parseFileList json_arg =
     (case json_arg of
        None \<Rightarrow> []
      | Some s \<Rightarrow>
          (case skipWhitespace s of
             [] \<Rightarrow> []
           | c # r \<Rightarrow> if c \<noteq> CHR ''['' then [] else file_items [] r))"

section \<open>The spellings of a path\<close>

definition resolvePath :: "(bytes \<Rightarrow> bytes option) \<Rightarrow> bytes \<Rightarrow> bytes" where
  "resolvePath weakly_canonical path = (case weakly_canonical path of None \<Rightarrow> path | Some r \<Rightarrow> r)"

definition is_absolute :: "bytes \<Rightarrow> bool" where
  "is_absolute p \<longleftrightarrow> p \<noteq> [] \<and> hd p = CHR ''/''"

text \<open>\<open>std::filesystem::path::operator/\<close> for a relative right-hand side.\<close>

definition path_append :: "bytes \<Rightarrow> bytes \<Rightarrow> bytes" where
  "path_append root_dir p = (if root_dir = [] \<or> last root_dir = CHR ''/'' then root_dir @ p else root_dir @ ''/'' @ p)"

definition add_path :: "bytes \<Rightarrow> bytes list \<Rightarrow> bytes list" where
  "add_path candidate resolved =
     (if candidate = [] \<or> candidate \<in> set resolved then resolved else resolved @ [candidate])"

definition file_spellings :: "(bytes \<Rightarrow> bytes option) \<Rightarrow> bytes \<Rightarrow> bytes list \<Rightarrow> bytes list" where
  "file_spellings weakly_canonical root_path files =
     fold (\<lambda>given resolved.
             let r1 = add_path given resolved;
                 p = (if \<not> is_absolute given \<and> root_path \<noteq> [] then path_append root_path given else given)
             in if is_absolute p then add_path (resolvePath weakly_canonical p) r1 else r1)
       files []"

section \<open>The modified functions\<close>

record impact_entity =
  row_id :: int
  row_project :: nat
  row_kind :: int
  row_name :: "bytes option"
  row_file :: "bytes option"

definition modified_nodes :: "impact_entity list \<Rightarrow> nat \<Rightarrow> bytes list \<Rightarrow> (node_id \<times> bytes) list" where
  "modified_nodes rows project files =
     map (\<lambda>r. (word_of_int (row_id r), column_text (row_name r)))
       (filter (\<lambda>r. row_project r = project \<and> row_kind r \<in> {0, 1} \<and>
                    (case row_file r of None \<Rightarrow> False | Some f \<Rightarrow> f \<in> set files)) rows)"

section \<open>The search\<close>

definition kImpactMaxDepth :: nat where
  "kImpactMaxDepth = 3"

record impact_state =
  min_depth :: "(node_id \<times> nat) list"
  seed_of :: "node_id \<rightharpoonup> node_id"
  dfs_stack :: "(node_id \<times> nat) list"

definition seed_at :: "(node_id \<rightharpoonup> node_id) \<Rightarrow> node_id \<Rightarrow> node_id" where
  "seed_at m n = (case m n of Some s \<Rightarrow> s | None \<Rightarrow> 0)"

definition impact_start :: "node_id list \<Rightarrow> impact_state" where
  "impact_start seeds =
     fold (\<lambda>seed st.
             \<lparr>min_depth = AList.update seed 0 (min_depth st), seed_of = (seed_of st)(seed \<mapsto> seed),
              dfs_stack = (seed, 0) # dfs_stack st\<rparr>)
       seeds \<lparr>min_depth = [], seed_of = Map.empty, dfs_stack = []\<rparr>"

definition improve :: "node_id \<Rightarrow> nat \<Rightarrow> node_id \<Rightarrow> impact_state \<Rightarrow> impact_state" where
  "improve node depth nb st =
     (let nd = depth + 1
      in if (case map_of (min_depth st) nb of Some d \<Rightarrow> d \<le> nd | None \<Rightarrow> False) then st
         else \<lparr>min_depth = AList.update nb nd (min_depth st),
               seed_of = (seed_of st)(nb \<mapsto> seed_at (seed_of st) node),
               dfs_stack = (nb, nd) # dfs_stack st\<rparr>)"

text \<open>The sum that a push lowers: 4 stands for a node without a depth.\<close>

definition depth_sum :: "impact_state \<Rightarrow> nat" where
  "depth_sum st = (\<Sum>v \<in> UNIV. case map_of (min_depth st) v of Some d \<Rightarrow> d | None \<Rightarrow> Suc kImpactMaxDepth)"

lemma improve_measure:
  assumes "depth < kImpactMaxDepth"
  shows "improve node depth nb st = st \<or> depth_sum (improve node depth nb st) < depth_sum st"
proof (cases "improve node depth nb st = st")
  case False
  let ?f = "\<lambda>v. case map_of (min_depth st) v of Some d \<Rightarrow> d | None \<Rightarrow> Suc kImpactMaxDepth"
  let ?g = "\<lambda>v. case map_of (min_depth (improve node depth nb st)) v of Some d \<Rightarrow> d | None \<Rightarrow> Suc kImpactMaxDepth"
  have g: "?g v = (if v = nb then depth + 1 else ?f v)" for v
    using False by (auto simp: improve_def Let_def update_conv' split: if_splits)
  have less: "depth + 1 < ?f nb"
    using False assms by (auto simp: improve_def Let_def split: option.splits if_splits)
  have "sum ?g UNIV < sum ?f UNIV"
    using g less by (intro sum_strict_mono_ex1) auto
  then show ?thesis by (simp add: depth_sum_def)
qed simp

lemma improve_fold_measure:
  assumes "depth < kImpactMaxDepth"
  shows "fold (improve node depth) nbs st = st \<or> depth_sum (fold (improve node depth) nbs st) < depth_sum st"
proof (induction nbs arbitrary: st)
  case Nil
  then show ?case by simp
next
  case (Cons nb nbs)
  show ?case
    using Cons [of "improve node depth nb st"] improve_measure [OF assms, of node nb st] by auto
qed

function impact_loop :: "(node_id \<Rightarrow> node_id list) \<Rightarrow> impact_state \<Rightarrow> impact_state" where
  "impact_loop nbrs st =
     (case dfs_stack st of
        [] \<Rightarrow> st
      | (node, depth) # rest \<Rightarrow>
          let st1 = st\<lparr>dfs_stack := rest\<rparr>
          in if kImpactMaxDepth \<le> depth then impact_loop nbrs st1
             else impact_loop nbrs (fold (improve node depth) (nbrs node) st1))"
  by pat_completeness auto
termination
proof (relation "measures [\<lambda>(_, st). depth_sum st, \<lambda>(_, st). length (dfs_stack st)]", goal_cases)
  case (3 nbrs st p rest node depth st1)
  then have "fold (improve node depth) (nbrs node) st1 = st1 \<or>
      depth_sum (fold (improve node depth) (nbrs node) st1) < depth_sum st1"
    by (intro improve_fold_measure) simp
  then show ?case using 3 by (auto simp: depth_sum_def)
qed (auto simp: depth_sum_def)

declare impact_loop.simps [simp del]

record impact_entry =
  entry_node :: node_id
  via_seed :: node_id
  entry_depth :: nat

definition dfsImpact :: "(node_id \<Rightarrow> node_id list) \<Rightarrow> node_id list \<Rightarrow> impact_entry list" where
  "dfsImpact nbrs seeds =
     (let st = impact_loop nbrs (impact_start seeds)
      in sort_key (\<lambda>e. (entry_node e, entry_depth e))
           (map (\<lambda>(n, d). \<lparr>entry_node = n, via_seed = seed_at (seed_of st) n, entry_depth = d\<rparr>)
              (filter (\<lambda>(n, d). n \<notin> set seeds) (min_depth st))))"

section \<open>The search records exact distances\<close>

declare map_of_eq_Some_iff [simp del] Some_eq_map_of_iff [simp del]

text \<open>The entries of \<open>P\<close> are still to be expanded.\<close>

definition impact_inv ::
  "(node_id \<Rightarrow> node_id list) \<Rightarrow> node_id set \<Rightarrow> (node_id \<times> nat) set \<Rightarrow> impact_state \<Rightarrow> bool" where
  "impact_inv nbrs S P st \<longleftrightarrow>
     distinct (map fst (min_depth st)) \<and>
     (\<forall>s \<in> S. map_of (min_depth st) s = Some 0) \<and>
     (\<forall>v d. map_of (min_depth st) v = Some d \<longrightarrow>
        d \<le> kImpactMaxDepth \<and> seed_at (seed_of st) v \<in> S \<and> (\<exists>k \<le> d. hops nbrs k (seed_at (seed_of st) v) v)) \<and>
     (\<forall>(v, e) \<in> P. \<exists>d \<le> e. map_of (min_depth st) v = Some d) \<and>
     (\<forall>v d. map_of (min_depth st) v = Some d \<longrightarrow> d < kImpactMaxDepth \<longrightarrow> (v, d) \<notin> P \<longrightarrow>
        (\<forall>w \<in> set (nbrs v). \<exists>e \<le> Suc d. map_of (min_depth st) w = Some e))"

lemma improve_cases:
  obtains "improve node depth nb st = st" "\<exists>e \<le> Suc depth. map_of (min_depth st) nb = Some e"
  | "improve node depth nb st =
       \<lparr>min_depth = AList.update nb (Suc depth) (min_depth st),
        seed_of = (seed_of st)(nb \<mapsto> seed_at (seed_of st) node), dfs_stack = (nb, Suc depth) # dfs_stack st\<rparr>"
    "\<forall>e. map_of (min_depth st) nb = Some e \<longrightarrow> Suc depth < e"
proof (cases "map_of (min_depth st) nb")
  case None
  then show ?thesis by (intro that(2)) (simp_all add: improve_def)
next
  case (Some e)
  then show ?thesis
    by (cases "e \<le> Suc depth") (auto simp: improve_def intro: that)
qed

lemma improve_inv:
  assumes "impact_inv nbrs S (insert (node, depth) (set (dfs_stack st))) st"
    and "depth < kImpactMaxDepth" and "nb \<in> set (nbrs node)"
  shows "impact_inv nbrs S (insert (node, depth) (set (dfs_stack (improve node depth nb st)))) (improve node depth nb st) \<and>
    (\<forall>v d. map_of (min_depth st) v = Some d \<longrightarrow> (\<exists>e \<le> d. map_of (min_depth (improve node depth nb st)) v = Some e)) \<and>
    (\<exists>e \<le> Suc depth. map_of (min_depth (improve node depth nb st)) nb = Some e)"
proof (cases rule: improve_cases [of node depth nb st])
  case 1
  then show ?thesis using assms(1) by auto
next
  case 2
  let ?m = "map_of (min_depth st)" and ?m' = "(map_of (min_depth st))(nb \<mapsto> Suc depth)"
  let ?P = "insert (node, depth) (set (dfs_stack st))"
  note inv = assms(1) [unfolded impact_inv_def]
  have pending: "\<forall>(v, e) \<in> ?P. \<exists>d \<le> e. ?m v = Some d" using inv by (elim conjE) assumption
  have expanded: "\<forall>v d. ?m v = Some d \<longrightarrow> d < kImpactMaxDepth \<longrightarrow> (v, d) \<notin> ?P \<longrightarrow>
      (\<forall>w \<in> set (nbrs v). \<exists>e \<le> Suc d. ?m w = Some e)"
    using inv by (elim conjE) assumption
  obtain d0 where d0: "?m node = Some d0" "d0 \<le> depth" using pending by auto
  then have other: "node \<noteq> nb" using 2(2) by fastforce
  obtain k0 where k0: "k0 \<le> d0" "hops nbrs k0 (seed_at (seed_of st) node) node"
    and seed: "seed_at (seed_of st) node \<in> S"
    using inv d0 by blast
  have lower: "\<exists>e \<le> d. ?m' v = Some e" if "?m v = Some d" for v d
    using that 2(2) by (cases "v = nb") (auto intro: less_imp_le)
  have m': "map_of (min_depth (improve node depth nb st)) = ?m'" by (simp add: 2 update_conv')
  have seeds: "seed_at (seed_of (improve node depth nb st)) v =
      (if v = nb then seed_at (seed_of st) node else seed_at (seed_of st) v)" for v
    by (simp add: 2 seed_at_def)
  have "distinct (map fst (min_depth (improve node depth nb st)))"
    using inv by (simp add: 2 distinct_update)
  moreover have "?m' s = Some 0" if "s \<in> S" for s
    using that inv 2(2) by (metis fun_upd_other not_less_zero)
  moreover have "d \<le> kImpactMaxDepth \<and> seed_at (seed_of (improve node depth nb st)) v \<in> S \<and>
      (\<exists>k \<le> d. hops nbrs k (seed_at (seed_of (improve node depth nb st)) v) v)" if v: "?m' v = Some d" for v d
  proof (cases "v = nb")
    case True
    have "hops nbrs (Suc k0) (seed_at (seed_of st) node) nb" using k0(2) assms(3) by auto
    moreover have "Suc k0 \<le> d" "d \<le> kImpactMaxDepth" using v True k0(1) d0(2) assms(2) by auto
    ultimately show ?thesis using True seed seeds by metis
  next
    case False
    then show ?thesis using v inv seeds [of v] by simp
  qed
  moreover have "\<forall>(v, e) \<in> insert (node, depth) (set (dfs_stack (improve node depth nb st))). \<exists>d \<le> e. ?m' v = Some d"
  proof -
    have old: "\<exists>d \<le> e. ?m' v = Some d" if P: "(v, e) \<in> ?P" for v e
    proof -
      obtain d where "d \<le> e" "?m v = Some d" using bspec [OF pending P] by auto
      then show ?thesis using lower [of v d] le_trans by blast
    qed
    have "insert (node, depth) (set (dfs_stack (improve node depth nb st))) = insert (nb, Suc depth) ?P"
      by (simp add: 2 insert_commute)
    moreover have "\<exists>d \<le> Suc depth. ?m' nb = Some d" by simp
    ultimately show ?thesis using old by blast
  qed
  moreover have closed: "\<exists>e \<le> Suc d. ?m' w = Some e"
    if v: "?m' v = Some d" "d < kImpactMaxDepth"
      "(v, d) \<notin> insert (node, depth) (set (dfs_stack (improve node depth nb st)))" "w \<in> set (nbrs v)" for v d w
  proof -
    have "v \<noteq> nb" "(v, d) \<notin> ?P" using v(1,3) by (auto simp: 2)
    moreover have "?m v = Some d" using v(1) \<open>v \<noteq> nb\<close> by simp
    ultimately obtain e where "?m w = Some e" "e \<le> Suc d" using expanded v(2,4) by blast
    then show ?thesis using lower [of w e] by (meson le_trans)
  qed
  ultimately have "impact_inv nbrs S (insert (node, depth) (set (dfs_stack (improve node depth nb st)))) (improve node depth nb st)"
    unfolding impact_inv_def m' by blast
  moreover have "\<exists>e \<le> Suc depth. ?m' nb = Some e" by simp
  ultimately show ?thesis using lower unfolding m' by blast
qed

lemma improve_fold_inv:
  assumes "impact_inv nbrs S (insert (node, depth) (set (dfs_stack st))) st"
    and "depth < kImpactMaxDepth" and "set ws \<subseteq> set (nbrs node)"
  shows "impact_inv nbrs S (insert (node, depth) (set (dfs_stack (fold (improve node depth) ws st))))
      (fold (improve node depth) ws st) \<and>
    (\<forall>v d. map_of (min_depth st) v = Some d \<longrightarrow>
       (\<exists>e \<le> d. map_of (min_depth (fold (improve node depth) ws st)) v = Some e)) \<and>
    (\<forall>w \<in> set ws. \<exists>e \<le> Suc depth. map_of (min_depth (fold (improve node depth) ws st)) w = Some e)"
  using assms(1,3)
proof (induction ws arbitrary: st)
  case Nil
  then show ?case by auto
next
  case (Cons w ws)
  have step: "impact_inv nbrs S (insert (node, depth) (set (dfs_stack (improve node depth w st)))) (improve node depth w st) \<and>
    (\<forall>v d. map_of (min_depth st) v = Some d \<longrightarrow> (\<exists>e \<le> d. map_of (min_depth (improve node depth w st)) v = Some e)) \<and>
    (\<exists>e \<le> Suc depth. map_of (min_depth (improve node depth w st)) w = Some e)"
    using Cons.prems assms(2) by (intro improve_inv) simp_all
  have rest: "set ws \<subseteq> set (nbrs node)" using Cons.prems by simp
  note IH = Cons.IH [OF conjunct1 [OF step] rest]
  have mono: "\<exists>e \<le> d. map_of (min_depth (fold (improve node depth) (w # ws) st)) v = Some e"
    if "map_of (min_depth st) v = Some d" for v d
    using that step IH by simp (meson le_trans)
  have first: "\<exists>e \<le> Suc depth. map_of (min_depth (fold (improve node depth) (w # ws) st)) w = Some e"
    using step IH by simp (meson le_trans)
  show ?case using IH mono first by simp
qed

lemma impact_loop_inv:
  assumes "impact_inv nbrs S (set (dfs_stack st)) st"
  shows "impact_inv nbrs S {} (impact_loop nbrs st)"
  using assms
proof (induction nbrs st rule: impact_loop.induct)
  case (1 nbrs st)
  show ?case
  proof (cases "dfs_stack st")
    case Nil
    then show ?thesis using 1(3) by (simp add: impact_loop.simps [of nbrs st])
  next
    case (Cons p rest)
    obtain node depth where p: "p = (node, depth)" by fastforce
    let ?st1 = "st\<lparr>dfs_stack := rest\<rparr>"
    have popped: "impact_inv nbrs S (insert (node, depth) (set (dfs_stack ?st1))) ?st1"
      using 1(3) Cons p by (simp add: impact_inv_def)
    show ?thesis
    proof (cases "kImpactMaxDepth \<le> depth")
      case True
      then have "impact_inv nbrs S (set (dfs_stack ?st1)) ?st1"
        using popped by (fastforce simp: impact_inv_def)
      then have "impact_inv nbrs S {} (impact_loop nbrs ?st1)"
        by (rule 1(1) [OF Cons p [symmetric] refl True])
      then show ?thesis using Cons p True by (simp add: impact_loop.simps [of nbrs st])
    next
      case False
      let ?st2 = "fold (improve node depth) (nbrs node) ?st1"
      have folded: "impact_inv nbrs S (insert (node, depth) (set (dfs_stack ?st2))) ?st2"
        "\<forall>w \<in> set (nbrs node). \<exists>e \<le> Suc depth. map_of (min_depth ?st2) w = Some e"
        using improve_fold_inv [OF popped, of "nbrs node"] False by auto
      then have "impact_inv nbrs S (set (dfs_stack ?st2)) ?st2"
        unfolding impact_inv_def by blast
      then have "impact_inv nbrs S {} (impact_loop nbrs ?st2)"
        by (rule 1(2) [OF Cons p [symmetric] refl False])
      then show ?thesis using Cons p False by (simp add: impact_loop.simps [of nbrs st] Let_def)
    qed
  qed
qed

lemma impact_start_spec:
  "distinct (map fst (min_depth (impact_start seeds))) \<and>
   map_of (min_depth (impact_start seeds)) v = (if v \<in> set seeds then Some 0 else None) \<and>
   seed_of (impact_start seeds) v = (if v \<in> set seeds then Some v else None) \<and>
   set (dfs_stack (impact_start seeds)) = (\<lambda>s. (s, 0)) ` set seeds"
proof (induction seeds rule: rev_induct)
  case Nil
  then show ?case by (simp add: impact_start_def)
next
  case (snoc s seeds)
  then show ?case by (simp add: impact_start_def distinct_update update_conv')
qed

lemma impact_start_inv: "impact_inv nbrs (set seeds) (set (dfs_stack (impact_start seeds))) (impact_start seeds)"
  using impact_start_spec [of seeds]
  by (auto simp: impact_inv_def seed_at_def kImpactMaxDepth_def split: if_splits)

lemma impact_result:
  fixes seeds nbrs
  defines "m \<equiv> map_of (min_depth (impact_loop nbrs (impact_start seeds)))"
  shows "distinct (map fst (min_depth (impact_loop nbrs (impact_start seeds))))"
    and "m v = Some d \<Longrightarrow> d \<le> kImpactMaxDepth \<and>
      seed_at (seed_of (impact_loop nbrs (impact_start seeds))) v \<in> set seeds \<and>
      hops nbrs d (seed_at (seed_of (impact_loop nbrs (impact_start seeds))) v) v \<and>
      (\<forall>s \<in> set seeds. \<forall>k<d. \<not> hops nbrs k s v)"
    and "s \<in> set seeds \<Longrightarrow> hops nbrs k s v \<Longrightarrow> k \<le> kImpactMaxDepth \<Longrightarrow> \<exists>d \<le> k. m v = Some d"
proof -
  let ?st = "impact_loop nbrs (impact_start seeds)"
  note inv = impact_loop_inv [OF impact_start_inv, of nbrs seeds, unfolded impact_inv_def, folded m_def]
  show "distinct (map fst (min_depth ?st))" using inv by blast
  have seeds: "\<forall>s \<in> set seeds. m s = Some 0" using inv by (elim conjE) assumption
  have walks: "\<forall>v d. m v = Some d \<longrightarrow> d \<le> kImpactMaxDepth \<and> seed_at (seed_of ?st) v \<in> set seeds \<and>
      (\<exists>k \<le> d. hops nbrs k (seed_at (seed_of ?st) v) v)"
    using inv by (elim conjE) assumption
  have closed: "\<exists>e \<le> Suc d. m w = Some e" if "m v = Some d" "d < kImpactMaxDepth" "w \<in> set (nbrs v)" for v d w
    using inv that by blast
  have reach: "\<exists>d \<le> k. m v = Some d" if "s \<in> set seeds" "hops nbrs k s v" "k \<le> kImpactMaxDepth" for s k v
    using that(2,3)
  proof (induction k arbitrary: v)
    case 0
    then show ?case using seeds that(1) by auto
  next
    case (Suc k)
    then obtain u where u: "hops nbrs k s u" "v \<in> set (nbrs u)" by auto
    then obtain d where "d \<le> k" "m u = Some d" using Suc by auto
    moreover from this have "d < kImpactMaxDepth" using Suc.prems(2) by simp
    ultimately show ?case using closed [of u d v] u(2) by (meson Suc_le_mono le_trans)
  qed
  then show "s \<in> set seeds \<Longrightarrow> hops nbrs k s v \<Longrightarrow> k \<le> kImpactMaxDepth \<Longrightarrow> \<exists>d \<le> k. m v = Some d" .
  assume d: "m v = Some d"
  then obtain k where k: "k \<le> d" "hops nbrs k (seed_at (seed_of ?st) v) v" and bound: "d \<le> kImpactMaxDepth"
    and seed: "seed_at (seed_of ?st) v \<in> set seeds"
    using walks by blast
  have least: "\<not> hops nbrs j s v" if "s \<in> set seeds" "j < d" for s j
    using reach [of s j v] that d bound by fastforce
  then have "k = d" using k seed by (meson le_neq_implies_less)
  then show "d \<le> kImpactMaxDepth \<and> seed_at (seed_of ?st) v \<in> set seeds \<and>
      hops nbrs d (seed_at (seed_of ?st) v) v \<and> (\<forall>s \<in> set seeds. \<forall>k<d. \<not> hops nbrs k s v)"
    using least k bound seed by blast
qed

lemma dfsImpact_set:
  "e \<in> set (dfsImpact nbrs seeds) \<longleftrightarrow>
     entry_node e \<notin> set seeds \<and>
     map_of (min_depth (impact_loop nbrs (impact_start seeds))) (entry_node e) = Some (entry_depth e) \<and>
     via_seed e = seed_at (seed_of (impact_loop nbrs (impact_start seeds))) (entry_node e)"
proof -
  have "distinct (map fst (min_depth (impact_loop nbrs (impact_start seeds))))" by (rule impact_result(1))
  then show ?thesis
    by (cases e) (auto simp: dfsImpact_def Let_def map_of_eq_Some_iff image_iff)
qed

lemma sorted_map_mono: "sorted (map k xs) \<Longrightarrow> (\<And>x y. k x \<le> k y \<Longrightarrow> f x \<le> f y) \<Longrightarrow> sorted (map f xs)"
  by (induction xs) auto

lemma dfsImpact_sorted: "sorted_wrt (<) (map entry_node (dfsImpact nbrs seeds))"
proof -
  let ?st = "impact_loop nbrs (impact_start seeds)"
  let ?es = "map (\<lambda>(n, d). \<lparr>entry_node = n, via_seed = seed_at (seed_of ?st) n, entry_depth = d\<rparr>)
     (filter (\<lambda>(n, d). n \<notin> set seeds) (min_depth ?st))"
  let ?k = "\<lambda>e. (entry_node e, entry_depth e)"
  have "map entry_node ?es = map fst (filter (\<lambda>(n, d). n \<notin> set seeds) (min_depth ?st))"
    by (simp add: comp_def case_prod_beta)
  then have distinct: "distinct (map entry_node ?es)"
    by (simp only: distinct_map_filter [OF impact_result(1)])
  have mono: "?k x \<le> ?k y \<Longrightarrow> entry_node x \<le> entry_node y" for x y :: impact_entry
    by (auto simp: less_eq_prod_def)
  have "sorted (map entry_node (sort_key ?k ?es))"
    by (rule sorted_map_mono [OF sorted_sort_key mono])
  moreover have "distinct (map entry_node (sort_key ?k ?es))"
  proof -
    have "mset (map entry_node (sort_key ?k ?es)) = mset (map entry_node ?es)" by (simp only: mset_map mset_sort)
    from mset_eq_imp_distinct_iff [OF this] distinct show ?thesis by (rule iffD2)
  qed
  ultimately show ?thesis
    unfolding dfsImpact_def Let_def by (intro strict_sorted_iff [THEN iffD2] conjI)
qed

section \<open>The report\<close>

definition kImpactNote :: bytes where
  "kImpactNote = ''Transitive impact via name-matched call edges. Virtual dispatch and function pointers are not tracked.''"

definition report_tail :: "nat \<Rightarrow> writer_op list" where
  "report_tail n =
     [Key ''total_impacted'', ValueInt (int n), Key ''max_depth'', ValueInt (int kImpactMaxDepth),
      Key ''approximation'', ValueString ''heuristic'', Key ''note'', ValueString kImpactNote, EndObject]"

definition makeErrorJson :: "bytes \<Rightarrow> bytes" where
  "makeErrorJson msg =
     out (run_writer
       ([BeginObject, Key ''error'', ValueString msg, Key ''modified'', BeginArray, EndArray,
         Key ''callers'', BeginArray, EndArray, Key ''callees'', BeginArray, EndArray] @ report_tail 0) new_writer)"

text \<open>\<open>lookupMeta\<close>: the name and the file of the first row with the id; a node without a row reads
  the empty strings that \<open>operator[]\<close> inserts.\<close>

definition lookup_meta :: "impact_entity list \<Rightarrow> node_id \<Rightarrow> bytes \<times> bytes" where
  "lookup_meta rows n =
     (case find (\<lambda>r. row_id r = sint n) rows of
        None \<Rightarrow> ([], [])
      | Some r \<Rightarrow> (column_text (row_name r), column_text (row_file r)))"

definition modified_ops :: "node_id \<times> bytes \<Rightarrow> writer_op list" where
  "modified_ops m = [BeginObject, Key ''id'', ValueInt (uint (fst m)), Key ''name'', ValueString (snd m), EndObject]"

definition entry_ops :: "impact_entity list \<Rightarrow> bytes \<Rightarrow> impact_entry \<Rightarrow> writer_op list" where
  "entry_ops rows via_key e =
     [BeginObject, Key ''id'', ValueInt (uint (entry_node e)),
      Key ''name'', ValueString (fst (lookup_meta rows (entry_node e))),
      Key ''file'', ValueString (snd (lookup_meta rows (entry_node e))),
      Key ''depth'', ValueInt (int (entry_depth e)),
      Key via_key, ValueString (fst (lookup_meta rows (via_seed e))), EndObject]"

definition impact_report ::
  "impact_entity list \<Rightarrow> (node_id \<times> bytes) list \<Rightarrow> impact_entry list \<Rightarrow> impact_entry list \<Rightarrow> bytes" where
  "impact_report rows modified callers callees =
     out (run_writer
       ([BeginObject, Key ''error'', NullValue, Key ''modified'', BeginArray] @ concat (map modified_ops modified) @
        [EndArray, Key ''callers'', BeginArray] @ concat (map (entry_ops rows ''caller_of'') callers) @
        [EndArray, Key ''callees'', BeginArray] @ concat (map (entry_ops rows ''callee_of'') callees) @
        [EndArray] @
        report_tail (length (remdups (map fst modified @ map entry_node callers @ map entry_node callees))))
       new_writer)"

definition analyzeChangeImpact ::
  "(bytes \<Rightarrow> bytes option) \<Rightarrow> (node_id list \<Rightarrow> node_id list) \<Rightarrow> bool \<Rightarrow> bytes \<Rightarrow> impact_entity list \<Rightarrow>
   (node_id \<Rightarrow> node_id list) \<Rightarrow> (node_id \<Rightarrow> node_id list) \<Rightarrow> nat \<Rightarrow> bytes option \<Rightarrow> bytes" where
  "analyzeChangeImpact weakly_canonical hash_order ready root_path rows callees callers project files_json =
     (let files = parseFileList files_json
      in if \<not> ready then makeErrorJson ''[module=impact, method=analyzeChangeImpact] graph not ready''
         else
           let modified = modified_nodes rows project (file_spellings weakly_canonical root_path files);
               seeds = hash_order (remdups (map fst modified))
           in impact_report rows modified (dfsImpact callers seeds) (dfsImpact callees seeds))"

section \<open>The report as a JSON value\<close>

definition tail_members :: "nat \<Rightarrow> (bytes \<times> json) list" where
  "tail_members n =
     [(''total_impacted'', json_int (int n)), (''max_depth'', json_int (int kImpactMaxDepth)),
      (''approximation'', JString ''heuristic''), (''note'', JString kImpactNote)]"

definition modified_json :: "node_id \<times> bytes \<Rightarrow> json" where
  "modified_json m = JObject [(''id'', json_int (uint (fst m))), (''name'', JString (snd m))]"

definition entry_json :: "impact_entity list \<Rightarrow> bytes \<Rightarrow> impact_entry \<Rightarrow> json" where
  "entry_json rows via_key e =
     JObject [(''id'', json_int (uint (entry_node e))), (''name'', JString (fst (lookup_meta rows (entry_node e)))),
              (''file'', JString (snd (lookup_meta rows (entry_node e)))), (''depth'', json_int (int (entry_depth e))),
              (via_key, JString (fst (lookup_meta rows (via_seed e))))]"

definition impact_json ::
  "impact_entity list \<Rightarrow> (node_id \<times> bytes) list \<Rightarrow> impact_entry list \<Rightarrow> impact_entry list \<Rightarrow> json" where
  "impact_json rows modified callers callees =
     JObject ([(''error'', JNull), (''modified'', JArray (map modified_json modified)),
        (''callers'', JArray (map (entry_json rows ''caller_of'') callers)),
        (''callees'', JArray (map (entry_json rows ''callee_of'') callees))] @
        tail_members (card (fst ` set modified \<union> entry_node ` set callers \<union> entry_node ` set callees)))"

lemma value_ops_simps:
  "value_ops (modified_json m) = modified_ops m"
  "value_ops (entry_json rows via_key e) = entry_ops rows via_key e"
  by (simp_all add: modified_json_def modified_ops_def entry_json_def entry_ops_def)

lemma impact_report_render: "impact_report rows modified callers callees = render (impact_json rows modified callers callees)"
proof -
  let ?v = "impact_json rows modified callers callees"
  have total: "length (remdups (map fst modified @ map entry_node callers @ map entry_node callees)) =
      card (fst ` set modified \<union> entry_node ` set callers \<union> entry_node ` set callees)"
    by (simp only: length_remdups_card_conv set_append set_map Un_assoc)
  have "whole_numbers ?v"
    by (simp add: impact_json_def tail_members_def modified_json_def entry_json_def list_all_iff)
  moreover have "impact_report rows modified callers callees = out (run_writer (value_ops ?v) new_writer)"
    unfolding impact_report_def total
    by (simp add: impact_json_def tail_members_def report_tail_def value_ops_simps comp_def
        del: run_writer_simps)
  ultimately show ?thesis by (simp only: write_render)
qed

lemma makeErrorJson_render:
  "makeErrorJson msg = render (JObject ([(''error'', JString msg), (''modified'', JArray []), (''callers'', JArray []),
     (''callees'', JArray [])] @ tail_members 0))" (is "_ = render ?v")
proof -
  have "whole_numbers ?v" by (simp add: tail_members_def)
  moreover have "makeErrorJson msg = out (run_writer (value_ops ?v) new_writer)"
    by (simp add: makeErrorJson_def tail_members_def report_tail_def del: run_writer_simps)
  ultimately show ?thesis by (simp only: write_render)
qed

section \<open>The reader of the list of files\<close>

lemma read_path_escaped:
  assumes "\<forall>c \<in> set p. 32 \<le> byte_of c"
  shows "read_path acc (jsonEscapeString p @ quote_char # r) = (acc @ p, quote_char # r)"
  using assms
proof (induction p arbitrary: acc)
  case Nil
  then show ?case by simp
next
  case (Cons c p)
  then have "32 \<le> byte_of c" by simp
  then have "c \<noteq> CHR 0x0A" "c \<noteq> CHR 0x0D" "c \<noteq> CHR 0x09" by auto
  then show ?case using Cons by (simp add: esc_char_def)
qed

lemma skip_separators_simps [simp]:
  "skip_separators (CHR '','' # s) = skip_separators s"
  "skip_separators (quote_char # s) = quote_char # s"
  "skip_separators (CHR '']'' # s) = CHR '']'' # s"
  by (simp_all add: skip_separators_def is_json_ws_def)

lemma file_items_render:
  assumes "\<forall>p \<in> set ps. p \<noteq> [] \<and> (\<forall>c \<in> set p. 32 \<le> byte_of c)"
  shows "file_items files (join '','' (map quoted ps) @ CHR '']'' # r) = files @ ps"
  using assms
proof (induction ps arbitrary: files)
  case Nil
  then show ?case by (simp add: file_items.simps)
next
  case (Cons p ps)
  have head: "file_items files (quoted p @ s) = file_items (files @ [p]) s" for s
    using Cons.prems by (simp add: file_items.simps [of files] quoted_def read_path_escaped)
  show ?case
  proof (cases ps)
    case Nil
    then show ?thesis using head by (simp add: file_items.simps)
  next
    case (Cons q qs)
    have comma: "file_items fs (CHR '','' # s) = file_items fs s" for fs s
      by (simp add: file_items.simps [of fs "CHR '','' # s"] file_items.simps [of fs s])
    show ?thesis
      using Cons.IH [of "files @ [p]"] Cons.prems head \<open>ps = q # qs\<close> by (simp add: comma)
  qed
qed

text \<open>A path, its recorded depth and its seed in one statement.\<close>

lemma dfsImpact_exact:
  "(\<exists>e \<in> set (dfsImpact nbrs seeds). entry_node e = n \<and> entry_depth e = d) \<longleftrightarrow>
     n \<notin> set seeds \<and> d \<le> kImpactMaxDepth \<and> (\<exists>s \<in> set seeds. hops nbrs d s n) \<and>
     (\<forall>s \<in> set seeds. \<forall>k<d. \<not> hops nbrs k s n)" (is "?L \<longleftrightarrow> ?R")
proof
  assume ?L
  then show ?R using impact_result(2) [where nbrs = nbrs and seeds = seeds] by (auto simp: dfsImpact_set) blast
next
  assume R: ?R
  then obtain k where "k \<le> d" "map_of (min_depth (impact_loop nbrs (impact_start seeds))) n = Some k"
    using impact_result(3) [where nbrs = nbrs and seeds = seeds and k = d and v = n] by blast
  moreover from this R have "k = d" using impact_result(2) [where nbrs = nbrs and seeds = seeds and v = n and d = k] by (meson le_neq_implies_less)
  ultimately show ?L
    using R by (intro bexI [of _ "\<lparr>entry_node = n, via_seed = seed_at (seed_of (impact_loop nbrs (impact_start seeds))) n,
        entry_depth = d\<rparr>"]) (simp_all add: dfsImpact_set)
qed

lemma dfsImpact_seed:
  "e \<in> set (dfsImpact nbrs seeds) \<Longrightarrow> via_seed e \<in> set seeds \<and> hops nbrs (entry_depth e) (via_seed e) (entry_node e)"
  using impact_result(2) [where nbrs = nbrs and seeds = seeds and v = "entry_node e" and d = "entry_depth e"] by (simp add: dfsImpact_set)

text \<open>The reported nodes and depths depend on the set of the seeds only.\<close>

lemma dfsImpact_order:
  assumes "set seeds = set seeds'"
  shows "map (\<lambda>e. (entry_node e, entry_depth e)) (dfsImpact nbrs seeds) =
    map (\<lambda>e. (entry_node e, entry_depth e)) (dfsImpact nbrs seeds')"
proof -
  let ?k = "\<lambda>e. (entry_node e, entry_depth e)"
  have strict: "sorted_wrt (<) (map ?k (dfsImpact nbrs S))" for S
    using dfsImpact_sorted [of nbrs S]
    by (simp add: sorted_wrt_map less_prod_def) (auto elim!: sorted_wrt_mono_rel [rotated])
  have member: "(n, d) \<in> set (map ?k (dfsImpact nbrs seeds)) \<longleftrightarrow> (n, d) \<in> set (map ?k (dfsImpact nbrs seeds'))" for n d
  proof -
    have "(n, d) \<in> set (map ?k (dfsImpact nbrs S)) \<longleftrightarrow>
        (\<exists>e \<in> set (dfsImpact nbrs S). entry_node e = n \<and> entry_depth e = d)" for S
      by auto
    then show ?thesis by (simp only: dfsImpact_exact assms)
  qed
  have "set (map ?k (dfsImpact nbrs seeds)) = set (map ?k (dfsImpact nbrs seeds'))"
  proof (rule set_eqI)
    fix p
    show "p \<in> set (map ?k (dfsImpact nbrs seeds)) \<longleftrightarrow> p \<in> set (map ?k (dfsImpact nbrs seeds'))"
      using member [of "fst p" "snd p"] unfolding prod.collapse .
  qed
  from strict_sorted_equal [OF strict strict this [symmetric]] show ?thesis by simp
qed

context adjacency
begin

lemma impact_callers:
  assumes "set seeds \<subseteq> nodes"
  shows "(\<exists>e \<in> set (dfsImpact callers seeds). entry_node e = n \<and> entry_depth e = d) \<longleftrightarrow>
     n \<notin> set seeds \<and> d \<le> kImpactMaxDepth \<and> (\<exists>s \<in> set seeds. (edge ^^ d) n s) \<and>
     (\<forall>s \<in> set seeds. \<forall>k<d. \<not> (edge ^^ k) n s)"
  using assms by (auto simp: dfsImpact_exact caller_walk subset_iff)

lemma impact_callees:
  assumes "set seeds \<subseteq> nodes"
  shows "(\<exists>e \<in> set (dfsImpact callees seeds). entry_node e = n \<and> entry_depth e = d) \<longleftrightarrow>
     n \<notin> set seeds \<and> d \<le> kImpactMaxDepth \<and> (\<exists>s \<in> set seeds. (edge ^^ d) s n) \<and>
     (\<forall>s \<in> set seeds. \<forall>k<d. \<not> (edge ^^ k) s n)"
  using assms by (auto simp: dfsImpact_exact callee_walk subset_iff)

lemma impact_seeds:
  assumes "set seeds \<subseteq> nodes"
  shows "e \<in> set (dfsImpact callers seeds) \<Longrightarrow> via_seed e \<in> set seeds \<and> (edge ^^ entry_depth e) (entry_node e) (via_seed e)"
    and "e \<in> set (dfsImpact callees seeds) \<Longrightarrow> via_seed e \<in> set seeds \<and> (edge ^^ entry_depth e) (via_seed e) (entry_node e)"
proof -
  show "e \<in> set (dfsImpact callers seeds) \<Longrightarrow> via_seed e \<in> set seeds \<and> (edge ^^ entry_depth e) (entry_node e) (via_seed e)"
    using dfsImpact_seed [of e callers seeds] caller_walk [of "via_seed e"] assms by blast
  show "e \<in> set (dfsImpact callees seeds) \<Longrightarrow> via_seed e \<in> set seeds \<and> (edge ^^ entry_depth e) (via_seed e) (entry_node e)"
    using dfsImpact_seed [of e callees seeds] callee_walk [of "via_seed e"] assms by blast
qed

end

section \<open>Properties\<close>

text \<open>
  (C3) The impact of a change is exact: over the tables of a successful rebuild a function is
  reported as an affected caller at depth \<open>d\<close> exactly when it is not itself modified and its
  shortest call chain to any modified function has \<open>d\<close> edges, at most 3, and likewise for the
  callees; and the seed an entry names is a modified function at exactly that distance.
\<close>

theorem impact_exact:
  assumes "complete_env env rel project" and "list_all (own_pair ep project) (call_pairs rel project)"
    and "foreign_keys_ok ep project db" and "buildCSR env project db = (True, db')"
    and "set seeds \<subseteq> project_nodes ep project"
  shows "((\<exists>e \<in> set (dfsImpact (getCallerIds ep db') seeds). entry_node e = n \<and> entry_depth e = d) \<longleftrightarrow>
      n \<notin> set seeds \<and> d \<le> 3 \<and> (\<exists>s \<in> set seeds. (calls rel project ^^ d) n s) \<and>
      (\<forall>s \<in> set seeds. \<forall>k<d. \<not> (calls rel project ^^ k) n s)) \<and>
    ((\<exists>e \<in> set (dfsImpact (getCalleeIds db') seeds). entry_node e = n \<and> entry_depth e = d) \<longleftrightarrow>
      n \<notin> set seeds \<and> d \<le> 3 \<and> (\<exists>s \<in> set seeds. (calls rel project ^^ d) s n) \<and>
      (\<forall>s \<in> set seeds. \<forall>k<d. \<not> (calls rel project ^^ k) s n)) \<and>
    (\<forall>e \<in> set (dfsImpact (getCallerIds ep db') seeds).
      via_seed e \<in> set seeds \<and> (calls rel project ^^ entry_depth e) (entry_node e) (via_seed e)) \<and>
    (\<forall>e \<in> set (dfsImpact (getCalleeIds db') seeds).
      via_seed e \<in> set seeds \<and> (calls rel project ^^ entry_depth e) (via_seed e) (entry_node e))"
proof -
  note laws = csr_publishes [OF assms(1-4)]
  show ?thesis
    using adjacency.impact_callers [OF laws assms(5)] adjacency.impact_callees [OF laws assms(5)]
      adjacency.impact_seeds [OF laws assms(5)]
    unfolding kImpactMaxDepth_def by blast
qed

theorem impact_exact_witness:
  "dfsImpact (getCallerIds sample_entities (csr_of sample_entities sample_relation 1)) [3] =
     [\<lparr>entry_node = 1, via_seed = 3, entry_depth = 2\<rparr>, \<lparr>entry_node = 2, via_seed = 3, entry_depth = 1\<rparr>,
      \<lparr>entry_node = 4, via_seed = 3, entry_depth = 1\<rparr>] \<and>
   (calls sample_relation 1 ^^ 2) 1 3"
proof -
  let ?es = "dfsImpact (getCallerIds sample_entities (csr_of sample_entities sample_relation 1)) [3]"
  have es: "?es = [\<lparr>entry_node = 1, via_seed = 3, entry_depth = 2\<rparr>, \<lparr>entry_node = 2, via_seed = 3, entry_depth = 1\<rparr>,
      \<lparr>entry_node = 4, via_seed = 3, entry_depth = 1\<rparr>]"
    by code_simp
  have "set [3 :: node_id] \<subseteq> project_nodes sample_entities 1"
    by (simp add: project_nodes_def sample_entities_def)
  note exact = impact_exact [OF complete_ok_env sample_pairs sample_foreign sample_build this, of 1 2]
  have "\<exists>e \<in> set ?es. entry_node e = 1 \<and> entry_depth e = 2" unfolding es by simp
  then have "(calls sample_relation 1 ^^ 2) 1 3" using exact by (simp del: relpowp.simps One_nat_def)
  then show ?thesis using es by blast
qed

text \<open>
  The change report is the text of one JSON value, the modified functions are those of the
  entity rows in the given files (in either spelling), and the reported callers, callees and
  depths do not depend on the order in which the set of seeds is iterated.
\<close>

theorem change_report:
  assumes "\<forall>ns. set (hash_order ns) = set ns"
  shows "let files = file_spellings canon root_path (parseFileList files_json);
      modified = modified_nodes rows project files;
      seeds = hash_order (remdups (map fst modified))
    in analyzeChangeImpact canon hash_order True root_path rows callees callers project files_json =
         render (impact_json rows modified (dfsImpact callers seeds) (dfsImpact callees seeds)) \<and>
       map (\<lambda>e. (entry_node e, entry_depth e)) (dfsImpact callers seeds) =
         map (\<lambda>e. (entry_node e, entry_depth e)) (dfsImpact callers (map fst modified)) \<and>
       map (\<lambda>e. (entry_node e, entry_depth e)) (dfsImpact callees seeds) =
         map (\<lambda>e. (entry_node e, entry_depth e)) (dfsImpact callees (map fst modified))"
  unfolding Let_def
  by (intro conjI dfsImpact_order)
    (simp_all add: analyzeChangeImpact_def Let_def impact_report_render assms)

definition sample_rows :: "impact_entity list" where
  "sample_rows =
     map (\<lambda>i. \<lparr>row_id = i, row_project = 1, row_kind = 0, row_name = Some (CHR ''f'' # to_string_int i),
               row_file = Some ''/p/a.go''\<rparr>) [3]"

theorem change_report_witness:
  "analyzeChangeImpact Some rev True ''/p'' sample_rows (\<lambda>_. []) (\<lambda>n. if n = 3 then [1] else []) 1 (Some ''[\"a.go\"]'') =
     render (impact_json sample_rows [(3, ''f3'')] [\<lparr>entry_node = 1, via_seed = 3, entry_depth = 1\<rparr>] [])"
proof -
  let ?up = "\<lambda>n :: node_id. if n = 3 then [1 :: node_id] else []" and ?down = "\<lambda>_ :: node_id. [] :: node_id list"
  let ?m = "modified_nodes sample_rows 1 (file_spellings Some ''/p'' (parseFileList (Some ''[\"a.go\"]'')))"
  have m: "?m = [(3, ''f3'')]" by code_simp
  have callers: "dfsImpact ?up (rev (remdups [3])) = [\<lparr>entry_node = 1, via_seed = 3, entry_depth = 1\<rparr>]"
    and callees: "dfsImpact ?down (rev (remdups [3])) = []"
    by code_simp+
  have "\<forall>ns :: node_id list. set (rev ns) = set ns" by simp
  from change_report [OF this, of Some "''/p''" "Some ''[\"a.go\"]''" sample_rows 1 ?down ?up]
  show ?thesis using callers callees unfolding Let_def m by simp
qed

text \<open>
  The list of files reads back what the writer writes: for paths that are not empty and
  hold no control bytes, quotes and backslashes included, reading the JSON array of the paths
  returns exactly the paths.
\<close>

theorem file_list_roundtrip:
  assumes "list_all (\<lambda>p. p \<noteq> [] \<and> list_all (\<lambda>c. 32 \<le> byte_of c) p) ps"
  shows "parseFileList (Some (out (run_writer (value_ops (JArray (map JString ps))) new_writer))) = ps"
proof -
  have "out (run_writer (value_ops (JArray (map JString ps))) new_writer) = render (JArray (map JString ps))"
    by (rule write_render) (simp add: list_all_iff)
  moreover have "parseFileList (Some (render (JArray (map JString ps)))) = [] @ ps"
    using file_items_render [of ps "[]" "[]"] assms
    by (simp add: parseFileList_def skipWhitespace_def is_json_ws_def list_all_iff comp_def)
  ultimately show ?thesis by simp
qed

theorem file_list_roundtrip_witness:
  "parseFileList (Some (out (run_writer (value_ops (JArray (map JString [''a.go'', [quote_char, backslash]]))) new_writer)))
     = [''a.go'', [quote_char, backslash]]"
  by (rule file_list_roundtrip) simp

text \<open>
  A malformed list is not refused: the paths before the malformed place are kept and
  analysed, where the comment of the parser promises an empty result on any parse failure.
\<close>

theorem file_list_keeps_prefix:
  assumes "p \<noteq> []" and "list_all (\<lambda>c. 32 \<le> byte_of c) p" and "\<not> is_json_ws c" and "c \<notin> {CHR '','', quote_char, CHR '']''}"
  shows "parseFileList (Some (''['' @ quoted p @ [CHR '','', c] @ r)) = [p]"
proof -
  have stop: "skip_separators (c # r) = c # r" using assms(3,4) by (simp add: skip_separators_def)
  have "file_items [] (quoted p @ CHR '','' # c # r) = file_items [p] (CHR '','' # c # r)"
    using assms(1,2) by (simp add: file_items.simps [of "[]"] quoted_def read_path_escaped list_all_iff)
  also have "\<dots> = [p]" using assms(4) stop by (simp add: file_items.simps [of "[p]"])
  finally show ?thesis by (simp add: parseFileList_def skipWhitespace_def is_json_ws_def)
qed

theorem file_list_keeps_prefix_witness: "parseFileList (Some (''['' @ quoted ''a.go'' @ [CHR '','', CHR ''5''] @ []))
  = [''a.go'']"
  by (rule file_list_keeps_prefix) (simp_all add: is_json_ws_def)

end
