(* ===== verification/Communities.thy ===== *)
theory Communities
  imports Impact
begin

text \<open>
  The communities of the call graph (\<open>query_communities.cpp\<close>, \<open>QueryEngine::getCommunities\<close>):
  synchronous label propagation over the undirected call edges, the groups of equal labels, their
  representatives and order, and the report with its limits.

  Node indices and labels are the positions in the sorted list of node ids; the code keeps them in
  32 bits, which is no restriction below \<open>2 ^ 32\<close> nodes.  The order in which the hash map of the groups
  is walked is an argument, and so are the rows of the table \<open>entity\<close>.
\<close>

section \<open>Limits\<close>

definition kMaxLpaIterations :: nat where "kMaxLpaIterations = 20"
definition kDefaultMaxCommunities :: int where "kDefaultMaxCommunities = 20"
definition kMaxCommunitiesCap :: int where "kMaxCommunitiesCap = 500"
definition kDefaultMaxMembers :: int where "kDefaultMaxMembers = 10"
definition kMaxMembersCap :: int where "kMaxMembersCap = 200"
definition kMaxTotalMembersEmitted :: nat where "kMaxTotalMembersEmitted = 5000"

definition clamp_limit :: "int \<Rightarrow> int \<Rightarrow> int \<Rightarrow> nat" where
  "clamp_limit default_value cap n =
     (let m = (if n \<le> 0 then default_value else n) in nat (if cap < m then cap else m))"

section \<open>The graph\<close>

text \<open>The rows of the statement, \<open>ORDER BY source_id, target_id\<close>, and the loop that reads them.\<close>

definition ordered_calls :: "relation_row list \<Rightarrow> nat \<Rightarrow> (int \<times> int) list" where
  "ordered_calls rel project = sort (call_pairs rel project)"

definition read_edges :: "(int \<times> int) list \<Rightarrow> (node_id \<times> node_id) list" where
  "read_edges rows =
     filter (\<lambda>(src, tgt). \<not> (src = 0 \<or> tgt = 0 \<or> src = tgt))
       (map (\<lambda>(a, b). (word_of_int a, word_of_int b)) rows)"

definition sort_unique :: "'a :: linorder list \<Rightarrow> 'a list" where
  "sort_unique xs = remdups_adj (sort xs)"

definition node_ids :: "(node_id \<times> node_id) list \<Rightarrow> node_id list" where
  "node_ids edges = sort_unique (concat (map (\<lambda>(a, b). [a, b]) edges))"

definition index_of :: "node_id list \<Rightarrow> node_id \<Rightarrow> nat" where
  "index_of ids v = (case map_of (zip ids [0..<length ids]) v of Some i \<Rightarrow> i | None \<Rightarrow> 0)"

definition push_at :: "nat \<Rightarrow> nat \<Rightarrow> nat list list \<Rightarrow> nat list list" where
  "push_at i x adj = adj[i := adj ! i @ [x]]"

definition adjacency_lists :: "node_id list \<Rightarrow> (node_id \<times> node_id) list \<Rightarrow> nat list list" where
  "adjacency_lists ids edges =
     map sort_unique
       (fold (\<lambda>(s, t) adj. push_at (index_of ids t) (index_of ids s) (push_at (index_of ids s) (index_of ids t) adj))
         edges (replicate (length ids) []))"

section \<open>Label propagation\<close>

text \<open>The label that a node takes from the labels of its neighbours: the most frequent one, its own if
  that is among the most frequent, otherwise the smallest of them.\<close>

definition best_label :: "nat list list \<Rightarrow> nat list \<Rightarrow> nat \<Rightarrow> nat" where
  "best_label adj label i =
     (if adj ! i = [] then label ! i
      else
        let labels = map (\<lambda>nb. label ! nb) (adj ! i);
            touched = remdups labels;
            best_count = foldl (\<lambda>m c. max m (count_list labels c)) 0 touched;
            winners = filter (\<lambda>c. count_list labels c = best_count) touched
        in if label ! i \<in> set winners then label ! i
           else (case winners of [] \<Rightarrow> label ! i | w # ws \<Rightarrow> foldl min w ws))"

definition lpa_round :: "nat list list \<Rightarrow> nat list \<Rightarrow> nat list" where
  "lpa_round adj label = map (best_label adj label) [0..<length adj]"

fun lpa_loop :: "nat \<Rightarrow> nat list list \<Rightarrow> nat list \<Rightarrow> nat list" where
  "lpa_loop 0 adj label = label"
| "lpa_loop (Suc k) adj label =
     (let next_label = lpa_round adj label
      in if next_label = label then next_label else lpa_loop k adj next_label)"

definition propagate :: "nat list list \<Rightarrow> nat list" where
  "propagate adj = lpa_loop kMaxLpaIterations adj [0..<length adj]"

section \<open>Communities\<close>

record community =
  representative :: nat
  members :: "nat list"

definition group_members :: "nat list \<Rightarrow> nat \<Rightarrow> nat list" where
  "group_members label l = filter (\<lambda>i. label ! i = l) [0..<length label]"

definition pick_representative :: "nat list list \<Rightarrow> nat list \<Rightarrow> nat" where
  "pick_representative adj ms =
     foldl (\<lambda>rep m. if length (adj ! rep) < length (adj ! m) \<or> (length (adj ! m) = length (adj ! rep) \<and> m < rep)
                    then m else rep) (hd ms) ms"

text \<open>\<open>hash_order\<close> is the list of the labels in the order of the hash map.  The sort puts the larger
  communities first and breaks ties by the id of the representative.\<close>

definition find_communities :: "node_id list \<Rightarrow> nat list list \<Rightarrow> nat list \<Rightarrow> nat list \<Rightarrow> community list" where
  "find_communities ids adj label hash_order =
     sort_key (\<lambda>c. (- int (length (members c)), ids ! representative c))
       (map (\<lambda>l. \<lparr>representative = pick_representative adj (group_members label l), members = group_members label l\<rparr>)
         hash_order)"

definition inter_community_edges :: "node_id list \<Rightarrow> nat list \<Rightarrow> (node_id \<times> node_id) list \<Rightarrow> nat" where
  "inter_community_edges ids label edges =
     length (filter (\<lambda>(a, b). label ! index_of ids a \<noteq> label ! index_of ids b) edges)"

section \<open>The report\<close>

definition kCommunityNote :: bytes where
  "kCommunityNote = ''Communities inferred by label propagation over CALLS edges, which are resolved by name matching; indirect calls (virtual/pointer) may be missing.''"

definition empty_result :: "bytes option \<Rightarrow> bytes" where
  "empty_result err =
     ''{\"communities\":[],\"total_communities\":0,\"returned_communities\":0,\"inter_community_edges\":0,\"truncated\":false,\"approximation\":\"heuristic\",\"note\":\"'' @
     kCommunityNote @ [quote_char] @
     (case err of None \<Rightarrow> [] | Some e \<Rightarrow> '',\"error\":\"'' @ jsonEscapeString e @ [quote_char]) @ ''}''"

definition member_ops :: "node_id \<Rightarrow> bytes \<times> bytes \<Rightarrow> writer_op list" where
  "member_ops n meta =
     [BeginObject, Key ''id'', ValueInt (uint n), Key ''name'', ValueString (fst meta),
      Key ''file_path'', ValueString (snd meta), EndObject]"

text \<open>How many members of a community are emitted when some were emitted before it.\<close>

definition emit_count :: "nat \<Rightarrow> nat \<Rightarrow> nat \<Rightarrow> nat" where
  "emit_count max_members emitted size_of = min (min size_of max_members) (kMaxTotalMembersEmitted - emitted)"

definition community_text ::
  "(node_id \<Rightarrow> bytes \<times> bytes) \<Rightarrow> node_id list \<Rightarrow> bool \<Rightarrow> community \<Rightarrow> nat \<Rightarrow> bytes" where
  "community_text meta ids include_members c n =
     ''{\"id\":'' @ to_string_nat (unat (ids ! representative c)) @ '',\"label\":\"'' @
     jsonEscapeString (fst (meta (ids ! representative c))) @ ''\",\"member_count\":'' @
     to_string_nat (length (members c)) @
     (if include_members
      then '',\"members\":['' @
        join '','' (map (\<lambda>i. out (run_writer (member_ops (ids ! i) (meta (ids ! i))) new_writer)) (take n (members c))) @ '']''
      else []) @ ''}''"

text \<open>The loop over the returned communities; its state is the list of texts, the number of members
  emitted and the truncation flag.\<close>

fun emit_communities ::
  "(node_id \<Rightarrow> bytes \<times> bytes) \<Rightarrow> node_id list \<Rightarrow> bool \<Rightarrow> nat \<Rightarrow> nat \<Rightarrow> community list \<Rightarrow> bytes list \<times> nat \<times> bool" where
  "emit_communities meta ids include_members max_members emitted [] = ([], emitted, False)"
| "emit_communities meta ids include_members max_members emitted (c # cs) =
     (let n = (if include_members then emit_count max_members emitted (length (members c)) else 0);
          (texts, total_emitted, cut) = emit_communities meta ids include_members max_members (emitted + n) cs
      in (community_text meta ids include_members c n # texts, total_emitted,
          (include_members \<and> n < length (members c)) \<or> cut))"

definition community_meta :: "impact_entity list \<Rightarrow> nat \<Rightarrow> node_id \<Rightarrow> bytes \<times> bytes" where
  "community_meta rows project n = lookup_meta (filter (\<lambda>r. row_project r = project) rows) n"

definition getCommunities ::
  "(nat list \<Rightarrow> nat list) \<Rightarrow> bool \<Rightarrow> bool \<Rightarrow> relation_row list \<Rightarrow> impact_entity list \<Rightarrow> nat \<Rightarrow> int \<Rightarrow> int \<Rightarrow> bool \<Rightarrow> bytes" where
  "getCommunities hash_order ready calls_ok rel rows project max_members max_communities include_members =
     (let max_c = clamp_limit kDefaultMaxCommunities kMaxCommunitiesCap max_communities;
          max_m = clamp_limit kDefaultMaxMembers kMaxMembersCap max_members
      in if \<not> ready then empty_result (Some ''graph not ready [module=query, method=getCommunities]'')
      else if \<not> calls_ok
      then empty_result (Some ''failed to read call edges [module=query, method=getCommunities]'')
      else
        let edges = read_edges (ordered_calls rel project)
        in if edges = [] then empty_result None
        else
          let ids = node_ids edges; adj = adjacency_lists ids edges; label = propagate adj;
              cs = find_communities ids adj label (hash_order (remdups label));
              returned = take max_c cs;
              (texts, _, cut) = emit_communities (community_meta rows project) ids include_members max_m 0 returned
          in ''{\"communities\":['' @ join '','' texts @ ''],\"total_communities\":'' @ to_string_nat (length cs) @
             '',\"returned_communities\":'' @ to_string_nat (length returned) @ '',\"inter_community_edges\":'' @
             to_string_nat (inter_community_edges ids label edges) @ '',\"truncated\":'' @
             (if length returned < length cs \<or> cut then ''true'' else ''false'') @
             '',\"approximation\":\"heuristic\",\"note\":\"'' @ kCommunityNote @ ''\"}'')"

section \<open>The undirected graph\<close>

definition linked :: "(node_id \<times> node_id) list \<Rightarrow> node_id \<Rightarrow> node_id \<Rightarrow> bool" where
  "linked edges u v \<longleftrightarrow> (u, v) \<in> set edges \<or> (v, u) \<in> set edges"

lemma linked_sym: "linked edges u v \<Longrightarrow> linked edges v u"
  by (auto simp: linked_def)

lemma linked_star_sym: "(linked edges)\<^sup>*\<^sup>* u v \<Longrightarrow> (linked edges)\<^sup>*\<^sup>* v u"
  by (induction rule: rtranclp_induct) (auto intro: converse_rtranclp_into_rtranclp linked_sym)

lemma distinct_remdups_adj_sorted: "sorted xs \<Longrightarrow> distinct (remdups_adj xs)"
  by (induction xs rule: remdups_adj.induct) auto

lemma sort_unique_props [simp]: "set (sort_unique xs) = set xs" "sorted (sort_unique xs)" "distinct (sort_unique xs)"
  by (auto simp: sort_unique_def distinct_remdups_adj_sorted sorted_remdups_adj)

lemma node_ids_props:
  "set (node_ids edges) = fst ` set edges \<union> snd ` set edges" "distinct (node_ids edges)"
  by (force simp: node_ids_def)+

lemma index_of_nth:
  assumes "v \<in> set ids" and "distinct ids"
  shows "index_of ids v < length ids \<and> ids ! index_of ids v = v"
proof -
  obtain i where i: "i < length ids" "ids ! i = v" using assms(1) by (auto simp: in_set_conv_nth)
  then have "(v, i) \<in> set (zip ids [0..<length ids])" by (auto simp: set_zip intro: exI [of _ i])
  then have "map_of (zip ids [0..<length ids]) v = Some i" using assms(2) by simp
  then show ?thesis using i by (simp add: index_of_def)
qed

lemma push_at_nth: "i < length adj \<Longrightarrow> push_at i x adj ! j = (if j = i then adj ! i @ [x] else adj ! j)"
  by (simp add: push_at_def nth_list_update)

lemma length_push_at [simp]: "length (push_at i x adj) = length adj"
  by (simp add: push_at_def)

lemma pushed_edges:
  assumes "\<forall>(s, t) \<in> set edges. ix s < length adj \<and> ix t < length adj" and "i < length adj"
  shows "length (fold (\<lambda>(s, t) adj. push_at (ix t) (ix s) (push_at (ix s) (ix t) adj)) edges adj) = length adj
     \<and> set (fold (\<lambda>(s, t) adj. push_at (ix t) (ix s) (push_at (ix s) (ix t) adj)) edges adj ! i)
        = set (adj ! i) \<union> {j. \<exists>(s, t) \<in> set edges. (i = ix s \<and> j = ix t) \<or> (i = ix t \<and> j = ix s)}"
  using assms
proof (induction edges arbitrary: adj)
  case Nil
  then show ?case by simp
next
  case (Cons e edges)
  obtain s t where e: "e = (s, t)" by (cases e)
  let ?adj = "push_at (ix t) (ix s) (push_at (ix s) (ix t) adj)"
  have "set (?adj ! i) = set (adj ! i) \<union> {j. (i = ix s \<and> j = ix t) \<or> (i = ix t \<and> j = ix s)}"
    using Cons.prems e by (auto simp: push_at_nth)
  then show ?case using Cons.IH [of ?adj] Cons.prems e by auto
qed

lemma adjacency_lists_props:
  assumes "ids = node_ids edges"
  shows "length (adjacency_lists ids edges) = length ids"
    and "i < length ids \<Longrightarrow> j \<in> set (adjacency_lists ids edges ! i) \<Longrightarrow> j < length ids \<and> linked edges (ids ! i) (ids ! j)"
proof -
  have ix: "index_of ids s < length ids \<and> ids ! index_of ids s = s"
      "index_of ids t < length ids \<and> ids ! index_of ids t = t" if "(s, t) \<in> set edges" for s t
    using that assms node_ids_props [of edges] by (force intro!: index_of_nth)+
  have all: "\<forall>(s, t) \<in> set edges. index_of ids s < length (replicate (length ids) ([] :: nat list)) \<and>
      index_of ids t < length (replicate (length ids) ([] :: nat list))"
    using ix by auto
  show len: "length (adjacency_lists ids edges) = length ids"
  proof (cases "ids = []")
    case True
    then have "edges = []" using assms node_ids_props(1) [of edges] by simp
    then show ?thesis using True by (simp add: adjacency_lists_def)
  next
    case False
    then show ?thesis using pushed_edges [OF all, of 0] by (simp add: adjacency_lists_def)
  qed
  assume i: "i < length ids" and j: "j \<in> set (adjacency_lists ids edges ! i)"
  from pushed_edges [OF all, of i] i j len
  obtain s t where "(s, t) \<in> set edges" "(i = index_of ids s \<and> j = index_of ids t) \<or> (i = index_of ids t \<and> j = index_of ids s)"
    by (auto simp: adjacency_lists_def)
  then show "j < length ids \<and> linked edges (ids ! i) (ids ! j)" using ix by (auto simp: linked_def)
qed

section \<open>Labels stay inside a connected part\<close>

lemma foldl_min_in: "foldl min w ws \<in> set (w # ws)" for w :: nat
proof (induction ws arbitrary: w)
  case (Cons x ws)
  then show ?case using Cons [of "min w x"] by (auto simp: min_def split: if_splits)
qed simp

lemma best_label_from: "best_label adj label i = label ! i \<or> (\<exists>nb \<in> set (adj ! i). best_label adj label i = label ! nb)"
proof (cases "adj ! i = []")
  case False
  define labels where "labels = map (\<lambda>nb. label ! nb) (adj ! i)"
  define winners where "winners = filter (\<lambda>c. count_list labels c =
      foldl (\<lambda>m c. max m (count_list labels c)) 0 (remdups labels)) (remdups labels)"
  have best: "best_label adj label i =
      (if label ! i \<in> set winners then label ! i else (case winners of [] \<Rightarrow> label ! i | w # ws \<Rightarrow> foldl min w ws))"
    using False by (simp add: best_label_def labels_def winners_def Let_def)
  have sub: "set winners \<subseteq> set labels" by (auto simp: winners_def)
  show ?thesis
  proof (cases winners)
    case (Cons w ws)
    then have "foldl min w ws \<in> set labels" using foldl_min_in [of w ws] sub by auto
    then show ?thesis using best Cons by (auto simp: labels_def)
  qed (simp add: best)
qed (simp add: best_label_def)

definition labels_ok :: "node_id list \<Rightarrow> (node_id \<times> node_id) list \<Rightarrow> nat list \<Rightarrow> bool" where
  "labels_ok ids edges label \<longleftrightarrow> length label = length ids \<and>
     (\<forall>i < length ids. label ! i < length ids \<and> (linked edges)\<^sup>*\<^sup>* (ids ! i) (ids ! (label ! i)))"

lemma lpa_round_ok:
  assumes "ids = node_ids edges" and "labels_ok ids edges label"
  shows "labels_ok ids edges (lpa_round (adjacency_lists ids edges) label)"
proof -
  let ?adj = "adjacency_lists ids edges"
  have "best_label ?adj label i < length ids \<and> (linked edges)\<^sup>*\<^sup>* (ids ! i) (ids ! best_label ?adj label i)"
    if i: "i < length ids" for i
    using best_label_from [of ?adj label i]
  proof
    assume "best_label ?adj label i = label ! i"
    then show ?thesis using assms(2) i by (simp add: labels_ok_def)
  next
    assume "\<exists>nb \<in> set (?adj ! i). best_label ?adj label i = label ! nb"
    then obtain nb where nb: "nb \<in> set (?adj ! i)" "best_label ?adj label i = label ! nb" by blast
    then have "nb < length ids" "linked edges (ids ! i) (ids ! nb)"
      using adjacency_lists_props(2) [OF assms(1) i] by auto
    then show ?thesis using assms(2) nb(2) by (auto simp: labels_ok_def intro: converse_rtranclp_into_rtranclp)
  qed
  then show ?thesis using adjacency_lists_props(1) [OF assms(1)] by (simp add: labels_ok_def lpa_round_def)
qed

lemma lpa_loop_ok:
  "ids = node_ids edges \<Longrightarrow> labels_ok ids edges label \<Longrightarrow> labels_ok ids edges (lpa_loop k (adjacency_lists ids edges) label)"
  by (induction k arbitrary: label) (auto simp: Let_def intro: lpa_round_ok)

lemma propagate_ok:
  assumes "ids = node_ids edges"
  shows "labels_ok ids edges (propagate (adjacency_lists ids edges))"
proof -
  have "labels_ok ids edges [0..<length ids]" by (simp add: labels_ok_def)
  then show ?thesis using lpa_loop_ok [OF assms] adjacency_lists_props(1) [OF assms] by (simp add: propagate_def)
qed

section \<open>Communities partition the graph\<close>

lemma set_group_members: "i \<in> set (group_members label l) \<longleftrightarrow> i < length label \<and> label ! i = l"
  by (auto simp: group_members_def)

lemma members_partition:
  assumes "distinct ls" and "set ls = set label"
  shows "mset (concat (map (group_members label) ls)) = mset [0..<length label]"
proof (rule multiset_eqI)
  fix i
  have one: "count (mset (group_members label l)) i = (if i < length label \<and> label ! i = l then 1 else 0)" for l
    using distinct_count_atmost_1 [of "group_members label l"] set_group_members [of i label l]
    by (auto simp: group_members_def)
  have "count (mset (concat (map (group_members label) ls))) i =
      sum_list (map (\<lambda>l. if i < length label \<and> label ! i = l then 1 else 0) ls)"
    by (induction ls) (simp_all add: one)
  also have "\<dots> = (if i < length label then 1 else 0)"
  proof (cases "i < length label")
    case True
    then have "label ! i \<in> set ls" using assms(2) by simp
    then have "sum_list (map (\<lambda>l. if label ! i = l then 1 else 0) ls) = (1 :: nat)"
      using assms(1) by (simp add: sum_list_distinct_conv_sum_set)
    then show ?thesis using True by simp
  qed simp
  also have "\<dots> = count (mset [0..<length label]) i"
    using distinct_count_atmost_1 [of "[0..<length label]"] by simp
  finally show "count (mset (concat (map (group_members label) ls))) i = count (mset [0..<length label]) i" .
qed

lemma find_communities_members:
  "mset (map members (find_communities ids adj label ls)) = mset (map (group_members label) ls)"
proof -
  have "mset (find_communities ids adj label ls) =
      mset (map (\<lambda>l. \<lparr>representative = pick_representative adj (group_members label l), members = group_members label l\<rparr>) ls)"
    by (simp add: find_communities_def)
  then have "image_mset members (mset (find_communities ids adj label ls)) = mset (map (group_members label) ls)"
    by (simp add: multiset.map_comp comp_def)
  then show ?thesis by simp
qed

lemma communities_partition:
  assumes "distinct ls" and "set ls = set label"
  shows "mset (concat (map members (find_communities ids adj label ls))) = mset [0..<length label]"
proof -
  have "mset (concat xs) = mset (concat ys)" if "mset xs = mset ys" for xs ys :: "nat list list"
    using that by (simp add: mset_concat flip: sum_mset_sum_list)
  from this [OF find_communities_members] show ?thesis using members_partition [OF assms] by simp
qed

lemma community_group:
  assumes "c \<in> set (find_communities ids adj label ls)"
  obtains l where "l \<in> set ls" "members c = group_members label l"
    "representative c = pick_representative adj (group_members label l)"
  using assms by (auto simp: find_communities_def)

lemma community_linked:
  assumes "ids = node_ids edges" and "label = propagate (adjacency_lists ids edges)"
    and "c \<in> set (find_communities ids adj label ls)" and "i \<in> set (members c)" and "j \<in> set (members c)"
  shows "(linked edges)\<^sup>*\<^sup>* (ids ! i) (ids ! j)"
proof -
  obtain l where l: "members c = group_members label l" using assms(3) by (rule community_group)
  have ok: "labels_ok ids edges label" using propagate_ok [OF assms(1)] assms(2) by simp
  have "(linked edges)\<^sup>*\<^sup>* (ids ! k) (ids ! l)" if "k \<in> set (members c)" for k
    using that l ok by (auto simp: set_group_members labels_ok_def)
  then show ?thesis using assms(4,5) linked_star_sym by (meson rtranclp_trans)
qed

definition stored_ids :: "relation_row list \<Rightarrow> nat \<Rightarrow> bool" where
  "stored_ids rel project \<longleftrightarrow>
     list_all (\<lambda>(a, b). 0 \<le> a \<and> a < 2 ^ 63 \<and> 0 \<le> b \<and> b < 2 ^ 63) (call_pairs rel project)"

lemma read_edge_calls:
  assumes "stored_ids rel project" and that: "(u, v) \<in> set (read_edges (ordered_calls rel project))"
  shows "calls rel project u v"
proof -
  have im: "(u, v) \<in> (\<lambda>(a, b). (word_of_int a, word_of_int b)) ` set (call_pairs rel project)"
    and uv: "u \<noteq> v"
    using that by (auto simp: read_edges_def ordered_calls_def)
  from im obtain p where p: "p \<in> set (call_pairs rel project)" "(u, v) = (word_of_int (fst p), word_of_int (snd p))"
    by (auto split: prod.splits)
  define a b where "a = fst p" and "b = snd p"
  then have ab: "(a, b) \<in> set (call_pairs rel project)" "u = word_of_int a" "v = word_of_int b" "u \<noteq> v"
    using p uv by auto
  then have "sint u = a" "sint v = b"
    using assms(1) by (auto simp: stored_ids_def list_all_iff intro!: sint_word_of_int63)
  then show ?thesis using ab by (simp add: calls_def)
qed

lemma linked_calls:
  assumes "stored_ids rel project" and "linked (read_edges (ordered_calls rel project)) u v"
  shows "calls rel project u v \<or> calls rel project v u"
  using assms read_edge_calls by (auto simp: linked_def)

section \<open>The order of the hash map has no influence\<close>

lemma pick_representative_in: "ms \<noteq> [] \<Longrightarrow> pick_representative adj ms \<in> set ms"
proof -
  have in_insert: "foldl (\<lambda>rep m. if P rep m then m else rep) r xs \<in> insert r (set xs)" for P and r :: nat and xs
  proof (induction xs arbitrary: r)
    case (Cons x xs)
    then show ?case using Cons [of "if P r x then x else r"] by (auto split: if_splits)
  qed simp
  then show "ms \<noteq> [] \<Longrightarrow> ?thesis" 
    using in_insert [of _ "hd ms" ms] unfolding pick_representative_def by (simp add: insert_absorb)
qed

lemma find_communities_order:
  assumes "ids = node_ids edges" and "length label = length ids" and "set ls \<subseteq> set label" and "mset ls = mset ls'"
  shows "find_communities ids adj label ls = find_communities ids adj label ls'"
proof -
  let ?c = "\<lambda>l. \<lparr>representative = pick_representative adj (group_members label l), members = group_members label l\<rparr>"
  have in_group: "pick_representative adj (group_members label l) \<in> set (group_members label l)" if "l \<in> set ls" for l
  proof -
    have "l \<in> set label" using that assms(3) by blast
    then have "group_members label l \<noteq> []" by (auto simp: group_members_def in_set_conv_nth filter_empty_conv)
    then show ?thesis by (rule pick_representative_in)
  qed
  have "inj_on (\<lambda>c. (- int (length (members c)), ids ! representative c)) (set (map ?c ls))"
  proof (rule inj_onI)
    fix x y
    assume "x \<in> set (map ?c ls)" "y \<in> set (map ?c ls)"
      and eq: "(- int (length (members x)), ids ! representative x) = (- int (length (members y)), ids ! representative y)"
    then obtain l m where l: "l \<in> set ls" "x = ?c l" and m: "m \<in> set ls" "y = ?c m" by auto
    have "representative x < length ids" "label ! representative x = l"
      using in_group [OF l(1)] l assms(2) by (auto simp: set_group_members)
    moreover have "representative y < length ids" "label ! representative y = m"
      using in_group [OF m(1)] m assms(2) by (auto simp: set_group_members)
    moreover have "distinct ids" using assms(1) node_ids_props by simp
    ultimately have "l = m" using eq by (metis nth_eq_iff_index_eq prod.inject)
    then show "x = y" using l m by simp
  qed
  moreover have "mset (map ?c ls) = mset (map ?c ls')" using assms(4) by simp
  ultimately show ?thesis unfolding find_communities_def by (intro sort_key_perm)
qed

section \<open>The report as a JSON value\<close>

definition member_json :: "(node_id \<Rightarrow> bytes \<times> bytes) \<Rightarrow> node_id \<Rightarrow> json" where
  "member_json meta n =
     JObject [(''id'', json_int (uint n)), (''name'', JString (fst (meta n))), (''file_path'', JString (snd (meta n)))]"

definition community_json ::
  "(node_id \<Rightarrow> bytes \<times> bytes) \<Rightarrow> node_id list \<Rightarrow> bool \<Rightarrow> community \<Rightarrow> nat \<Rightarrow> json" where
  "community_json meta ids include_members c n =
     JObject ([(''id'', json_nat (unat (ids ! representative c))),
               (''label'', JString (fst (meta (ids ! representative c)))),
               (''member_count'', json_nat (length (members c)))] @
       (if include_members
        then [(''members'', JArray (map (\<lambda>i. member_json meta (ids ! i)) (take n (members c))))] else []))"

definition communities_json :: "json list \<Rightarrow> nat \<Rightarrow> nat \<Rightarrow> bool \<Rightarrow> json" where
  "communities_json cs found crossing truncated =
     JObject [(''communities'', JArray cs), (''total_communities'', json_nat found),
              (''returned_communities'', json_nat (length cs)), (''inter_community_edges'', json_nat crossing),
              (''truncated'', JBool truncated), (''approximation'', JString ''heuristic''),
              (''note'', JString kCommunityNote)]"

text \<open>The number of members emitted for each of the communities.\<close>

fun emit_counts :: "bool \<Rightarrow> nat \<Rightarrow> nat \<Rightarrow> nat list \<Rightarrow> nat list" where
  "emit_counts include_members max_members emitted [] = []"
| "emit_counts include_members max_members emitted (k # ks) =
     (let n = (if include_members then emit_count max_members emitted k else 0)
      in n # emit_counts include_members max_members (emitted + n) ks)"

lemma length_emit_counts [simp]: "length (emit_counts i m e ks) = length ks"
  by (induction ks arbitrary: e) (simp_all add: Let_def)

lemma emit_counts_bound:
  "e \<le> kMaxTotalMembersEmitted \<Longrightarrow> e + sum_list (emit_counts i m e ks) \<le> kMaxTotalMembersEmitted"
proof (induction ks arbitrary: e)
  case (Cons k ks)
  define n where "n = (if i then emit_count m e k else 0)"
  have "e + n \<le> kMaxTotalMembersEmitted" 
    using Cons.prems by (cases i) (auto simp: n_def emit_count_def min_def)
  from Cons.IH [OF this] show ?case by (simp add: Let_def n_def [symmetric] add.assoc)
qed simp

lemma emit_counts_each: "list_all2 (\<lambda>n k. n \<le> k \<and> n \<le> m) (emit_counts i m e ks) ks"
  by (induction ks arbitrary: e) (auto simp: Let_def emit_count_def)

text \<open>The flag is set exactly when some member is left out.\<close>

lemma emit_communities_eq:
  "emit_communities meta ids i m e cs =
     (let ns = emit_counts i m e (map (\<lambda>c. length (members c)) cs)
      in (map2 (community_text meta ids i) cs ns, e + sum_list ns,
          i \<and> ns \<noteq> map (\<lambda>c. length (members c)) cs))"
proof (induction cs arbitrary: e)
  case (Cons c cs)
  have "n < length (members c) \<longleftrightarrow> n \<noteq> length (members c)"
    if "n = (if i then emit_count m e (length (members c)) else 0)" and i for n
    using that by (auto simp: emit_count_def)
  then show ?case using Cons by (auto simp: Let_def)
qed simp

lemma community_note_plain: "jsonEscapeString kCommunityNote = kCommunityNote"
  by (simp add: kCommunityNote_def jsonEscapeString_def esc_char_def)

lemma member_render: "out (run_writer (member_ops n (meta n)) new_writer) = render (member_json meta n)"
proof -
  have "value_ops (member_json meta n) = member_ops n (meta n)" by (simp add: member_json_def member_ops_def)
  moreover have "whole_numbers (member_json meta n)" by (simp add: member_json_def)
  ultimately show ?thesis by (metis write_render)
qed

lemma community_text_render: "community_text meta ids i c n = render (community_json meta ids i c n)"
  unfolding community_text_def member_render
  by (simp add: community_json_def render_member_def quoted_def comp_def)
    (simp add: jsonEscapeString_def esc_char_def)

lemma communities_text:
  "''{\"communities\":['' @ join '','' (map render cs) @ ''],\"total_communities\":'' @ to_string_nat found @
    '',\"returned_communities\":'' @ to_string_nat (length cs) @ '',\"inter_community_edges\":'' @
    to_string_nat crossing @ '',\"truncated\":'' @ (if truncated then ''true'' else ''false'') @
    '',\"approximation\":\"heuristic\",\"note\":\"'' @ kCommunityNote @ ''\"}'' =
   render (communities_json cs found crossing truncated)"
  by (simp add: communities_json_def render_member_def quoted_def community_note_plain)
    (simp add: jsonEscapeString_def esc_char_def)

section \<open>What the communities are\<close>

text \<open>The communities as lists of node ids, in the order of the report.\<close>

definition community_nodes :: "(nat list \<Rightarrow> nat list) \<Rightarrow> relation_row list \<Rightarrow> nat \<Rightarrow> node_id list list" where
  "community_nodes hash_order rel project =
     (let edges = read_edges (ordered_calls rel project); ids = node_ids edges;
          adj = adjacency_lists ids edges; label = propagate adj
      in map (\<lambda>c. map ((!) ids) (members c)) (find_communities ids adj label (hash_order (remdups label))))"

lemma set_read_edges:
  assumes "stored_ids rel project"
  shows "(u, v) \<in> set (read_edges (ordered_calls rel project)) \<longleftrightarrow> calls rel project u v \<and> u \<noteq> 0 \<and> v \<noteq> 0"
proof
  assume L: "(u, v) \<in> set (read_edges (ordered_calls rel project))"
  then have "u \<noteq> 0" "v \<noteq> 0" by (auto simp: read_edges_def)
  then show "calls rel project u v \<and> u \<noteq> 0 \<and> v \<noteq> 0" using read_edge_calls [OF assms L] by simp
next
  assume R: "calls rel project u v \<and> u \<noteq> 0 \<and> v \<noteq> 0"
  then have "(sint u, sint v) \<in> set (call_pairs rel project)" by (simp add: calls_def)
  moreover have "(u, v) = (\<lambda>(a, b). (word_of_int a, word_of_int b)) (sint u, sint v)" by simp
  ultimately have "(u, v) \<in> set (map (\<lambda>(a, b). (word_of_int a, word_of_int b)) (ordered_calls rel project))"
    unfolding set_map ordered_calls_def set_sort by (rule image_eqI [rotated])
  then show "(u, v) \<in> set (read_edges (ordered_calls rel project))"
    using R by (simp add: read_edges_def calls_def)
qed

lemma find_communities_sizes:
  "sorted_wrt (\<ge>) (map (\<lambda>c. length (members c)) (find_communities ids adj label ls))"
proof -
  let ?k = "\<lambda>c. (- int (length (members c)), ids ! representative c)"
  have "sorted_wrt (\<lambda>x y. ?k x \<le> ?k y) (find_communities ids adj label ls)"
    using sorted_sort_key [of ?k] unfolding find_communities_def sorted_map by simp
  then show ?thesis
    unfolding sorted_wrt_map by (rule sorted_wrt_mono_rel [rotated]) (auto simp: less_eq_prod_def)
qed

section \<open>Label propagation on functions\<close>

text \<open>What the code announces, stated on functions instead of indices: a labelling maps functions to functions; a
  function takes the label that most of its neighbours have, its own if that is among the most frequent ones,
  otherwise the smallest of them.\<close>

definition neighbours :: "(node_id \<Rightarrow> node_id \<Rightarrow> bool) \<Rightarrow> node_id \<Rightarrow> node_id set" where
  "neighbours R n = {m. R n m}"

definition votes :: "(node_id \<Rightarrow> node_id \<Rightarrow> bool) \<Rightarrow> (node_id \<Rightarrow> node_id) \<Rightarrow> node_id \<Rightarrow> node_id \<Rightarrow> nat" where
  "votes R L n c = card {m \<in> neighbours R n. L m = c}"

definition most_frequent :: "(node_id \<Rightarrow> node_id \<Rightarrow> bool) \<Rightarrow> (node_id \<Rightarrow> node_id) \<Rightarrow> node_id \<Rightarrow> node_id set" where
  "most_frequent R L n = {c \<in> L ` neighbours R n. \<forall>d. votes R L n d \<le> votes R L n c}"

definition next_labels :: "(node_id \<Rightarrow> node_id \<Rightarrow> bool) \<Rightarrow> (node_id \<Rightarrow> node_id) \<Rightarrow> node_id \<Rightarrow> node_id" where
  "next_labels R L n =
     (if L n \<in> most_frequent R L n \<or> most_frequent R L n = {} then L n else Min (most_frequent R L n))"

text \<open>The labelling after \<open>k\<close> rounds, in which all functions change at the same time.\<close>

definition labels_after :: "(node_id \<Rightarrow> node_id \<Rightarrow> bool) \<Rightarrow> nat \<Rightarrow> node_id \<Rightarrow> node_id" where
  "labels_after R k = (next_labels R ^^ k) id"

lemma finite_neighbours [simp]: "finite (neighbours (linked edges) n)"
proof (rule finite_subset)
  show "neighbours (linked edges) n \<subseteq> fst ` set edges \<union> snd ` set edges"
    by (force simp: neighbours_def linked_def)
qed simp

lemma sorted_node_ids: "sorted (node_ids edges)"
  by (simp add: node_ids_def)

lemma adjacency_lists_exact:
  assumes "ids = node_ids edges" and "i < length ids"
  shows "distinct (adjacency_lists ids edges ! i)"
    and "(!) ids ` set (adjacency_lists ids edges ! i) = neighbours (linked edges) (ids ! i)"
    and "inj_on ((!) ids) (set (adjacency_lists ids edges ! i))"
proof -
  note props = adjacency_lists_props [OF assms(1)]
  have ix: "index_of ids s < length ids \<and> ids ! index_of ids s = s"
      "index_of ids t < length ids \<and> ids ! index_of ids t = t" if "(s, t) \<in> set edges" for s t
    using that assms(1) node_ids_props [of edges] by (force intro!: index_of_nth)+
  have ids: "distinct ids" using assms(1) node_ids_props(2) by simp
  have all: "\<forall>(s, t) \<in> set edges. index_of ids s < length (replicate (length ids) ([] :: nat list)) \<and>
      index_of ids t < length (replicate (length ids) ([] :: nat list))"
    using ix by auto
  from pushed_edges [OF all, of i] assms(2) props(1)
  have set_adj: "set (adjacency_lists ids edges ! i) =
      {j. \<exists>(s, t) \<in> set edges. (i = index_of ids s \<and> j = index_of ids t) \<or> (i = index_of ids t \<and> j = index_of ids s)}"
    by (auto simp: adjacency_lists_def)
  show "distinct (adjacency_lists ids edges ! i)"
    using assms(2) props(1) by (simp add: adjacency_lists_def)
  show "inj_on ((!) ids) (set (adjacency_lists ids edges ! i))"
    using props(2) [OF assms(2)] ids by (intro inj_onI) (metis nth_eq_iff_index_eq)
  show "(!) ids ` set (adjacency_lists ids edges ! i) = neighbours (linked edges) (ids ! i)"
  proof (intro equalityI subsetI)
    fix m assume "m \<in> (!) ids ` set (adjacency_lists ids edges ! i)"
    then show "m \<in> neighbours (linked edges) (ids ! i)" using props(2) [OF assms(2)] by (auto simp: neighbours_def)
  next
    fix m assume "m \<in> neighbours (linked edges) (ids ! i)"
    then consider "(ids ! i, m) \<in> set edges" | "(m, ids ! i) \<in> set edges" by (auto simp: neighbours_def linked_def)
    then show "m \<in> (!) ids ` set (adjacency_lists ids edges ! i)"
    proof cases
      case 1
      have "index_of ids (ids ! i) = i" using ix(1) [OF 1] ids assms(2) by (metis nth_eq_iff_index_eq)
      then have "index_of ids m \<in> set (adjacency_lists ids edges ! i)" unfolding set_adj mem_Collect_eq
        using 1 by (intro bexI [of _ "(ids ! i, m)"]) simp_all
      then show ?thesis using ix(2) [OF 1] by (metis image_eqI)
    next
      case 2
      have "index_of ids (ids ! i) = i" using ix(2) [OF 2] ids assms(2) by (metis nth_eq_iff_index_eq)
      then have "index_of ids m \<in> set (adjacency_lists ids edges ! i)" unfolding set_adj mem_Collect_eq
        using 2 by (intro bexI [of _ "(m, ids ! i)"]) simp_all
      then show ?thesis using ix(1) [OF 2] by (metis image_eqI)
    qed
  qed
qed

text \<open>The labels of the code are indices; they stand for the functions at those indices.\<close>

definition stands_for :: "node_id list \<Rightarrow> nat list \<Rightarrow> (node_id \<Rightarrow> node_id) \<Rightarrow> bool" where
  "stands_for ids label L \<longleftrightarrow>
     length label = length ids \<and> (\<forall>i < length ids. label ! i < length ids \<and> L (ids ! i) = ids ! (label ! i))"

lemma foldl_max_count: "foldl (\<lambda>m c. max m (f c)) a xs = Max (insert a (f ` set xs))" for f :: "'a \<Rightarrow> nat"
proof (induction xs arbitrary: a)
  case (Cons x xs)
  then show ?case by (cases "xs = []") (simp_all add: max.assoc)
qed simp

lemma foldl_min_Min: "foldl min w ws = Min (set (w # ws))" for w :: nat
proof (induction ws arbitrary: w)
  case (Cons x ws)
  then show ?case by (cases "ws = []") (simp_all add: min.assoc)
qed simp

text \<open>The label of the code in terms of counts.\<close>

definition index_votes :: "nat list list \<Rightarrow> nat list \<Rightarrow> nat \<Rightarrow> nat \<Rightarrow> nat" where
  "index_votes adj label i c = card {j \<in> set (adj ! i). label ! j = c}"

definition index_winners :: "nat list list \<Rightarrow> nat list \<Rightarrow> nat \<Rightarrow> nat set" where
  "index_winners adj label i = {c \<in> (!) label ` set (adj ! i). \<forall>d. index_votes adj label i d \<le> index_votes adj label i c}"

lemma count_labels:
  assumes "distinct ns"
  shows "count_list (map f ns) c = card {j \<in> set ns. f j = c}"
  using assms
proof (induction ns)
  case (Cons n ns)
  have "{j \<in> set (n # ns). f j = c} = (if f n = c then insert n {j \<in> set ns. f j = c} else {j \<in> set ns. f j = c})"
    by auto
  then show ?case using Cons by simp
qed simp

lemma best_label_votes:
  assumes "distinct (adj ! i)"
  shows "best_label adj label i =
    (if label ! i \<in> index_winners adj label i \<or> index_winners adj label i = {} then label ! i
     else Min (index_winners adj label i))"
proof (cases "adj ! i = []")
  case True
  then show ?thesis by (simp add: best_label_def index_winners_def)
next
  case False
  define labels where "labels = map (\<lambda>nb. label ! nb) (adj ! i)"
  define best where "best = foldl (\<lambda>m c. max m (count_list labels c)) 0 (remdups labels)"
  define winners where "winners = filter (\<lambda>c. count_list labels c = best) (remdups labels)"
  have code: "best_label adj label i =
      (if label ! i \<in> set winners then label ! i else (case winners of [] \<Rightarrow> label ! i | w # ws \<Rightarrow> foldl min w ws))"
    using False by (simp add: best_label_def labels_def winners_def best_def Let_def)
  have votes: "count_list labels c = index_votes adj label i c" for c
    using count_labels [OF assms] by (simp add: labels_def index_votes_def)
  have best: "best = Max (insert 0 (count_list labels ` set labels))"
    by (simp add: best_def foldl_max_count)
  have "count_list labels c = best \<longleftrightarrow> (\<forall>d. count_list labels d \<le> count_list labels c)" if "c \<in> set labels" for c
  proof
    assume eq: "count_list labels c = best"
    have "count_list labels d \<le> best" for d
      using that by (cases "d \<in> set labels") (auto simp: best count_list_0_iff)
    then show "\<forall>d. count_list labels d \<le> count_list labels c" using eq by simp
  next
    assume "\<forall>d. count_list labels d \<le> count_list labels c"
    then show "count_list labels c = best" using that unfolding best by (intro Max_eqI [symmetric]) auto
  qed
  moreover have "set labels = (!) label ` set (adj ! i)" by (simp add: labels_def)
  ultimately have set_winners: "set winners = index_winners adj label i"
    unfolding winners_def index_winners_def votes [symmetric] by auto
  show ?thesis
  proof (cases winners)
    case Nil
    then show ?thesis using code set_winners by simp
  next
    case (Cons w ws)
    then show ?thesis using code set_winners foldl_min_Min [of w ws] by auto
  qed
qed

lemma round_stands_for:
  assumes "ids = node_ids edges" and "stands_for ids label L"
  shows "stands_for ids (lpa_round (adjacency_lists ids edges) label) (next_labels (linked edges) L)"
proof -
  define adj where "adj = adjacency_lists ids edges"
  have len: "length adj = length ids" unfolding adj_def by (rule adjacency_lists_props(1) [OF assms(1)])
  have ids: "distinct ids" "sorted ids" using assms(1) node_ids_props(2) sorted_node_ids by simp_all
  have L: "label ! j < length ids" "L (ids ! j) = ids ! (label ! j)" if "j < length ids" for j
    using assms(2) that by (simp_all add: stands_for_def)
  have nth_eq: "ids ! a = ids ! b \<longleftrightarrow> a = b" if "a < length ids" "b < length ids" for a b
    using ids(1) that by (rule nth_eq_iff_index_eq)
  have "best_label adj label i < length ids \<and> next_labels (linked edges) L (ids ! i) = ids ! best_label adj label i"
    if i: "i < length ids" for i
  proof -
    note adj = adjacency_lists_exact [OF assms(1) i, folded adj_def]
    have below: "j < length ids" if "j \<in> set (adj ! i)" for j
      using adjacency_lists_props(2) [OF assms(1) i] that by (simp add: adj_def)
    have image: "L ` neighbours (linked edges) (ids ! i) = (!) ids ` (!) label ` set (adj ! i)"
      unfolding adj(2) [symmetric] image_image using L(2) below by (intro image_cong) auto
    have "{m \<in> neighbours (linked edges) (ids ! i). L m = ids ! c} = (!) ids ` {j \<in> set (adj ! i). label ! j = c}"
      if "c < length ids" for c
      unfolding adj(2) [symmetric] using L below nth_eq that by auto
    then have votes: "votes (linked edges) L (ids ! i) (ids ! c) = index_votes adj label i c" if "c < length ids" for c
      using that adj(3) unfolding votes_def index_votes_def
      by (simp add: card_image inj_on_subset [of _ _ "{j \<in> set (adj ! i). label ! j = c}"])
    have none: "votes (linked edges) L (ids ! i) d = 0" if "d \<notin> (!) ids ` (!) label ` set (adj ! i)" for d
      using that unfolding votes_def image [symmetric] by auto
    have none': "index_votes adj label i d = 0" if "d \<notin> (!) label ` set (adj ! i)" for d
      using that unfolding index_votes_def by auto
    have label_below: "c < length ids" if "c \<in> (!) label ` set (adj ! i)" for c using that L(1) below by auto
    have win: "ids ! c \<in> most_frequent (linked edges) L (ids ! i) \<longleftrightarrow> c \<in> index_winners adj label i" if c: "c < length ids" for c
    proof -
      have "ids ! c \<in> (!) ids ` (!) label ` set (adj ! i) \<longleftrightarrow> c \<in> (!) label ` set (adj ! i)"
        using nth_eq [OF c] label_below by auto
      moreover have "(\<forall>d. votes (linked edges) L (ids ! i) d \<le> votes (linked edges) L (ids ! i) (ids ! c)) \<longleftrightarrow>
          (\<forall>d. index_votes adj label i d \<le> index_votes adj label i c)"
      proof
        assume all: "\<forall>d. votes (linked edges) L (ids ! i) d \<le> votes (linked edges) L (ids ! i) (ids ! c)"
        have "index_votes adj label i d \<le> index_votes adj label i c" for d
        proof (cases "d \<in> (!) label ` set (adj ! i)")
          case True
          then show ?thesis using all votes [OF c] votes [of d] label_below [of d] by metis
        qed (simp add: none')
        then show "\<forall>d. index_votes adj label i d \<le> index_votes adj label i c" by blast
      next
        assume all: "\<forall>d. index_votes adj label i d \<le> index_votes adj label i c"
        have "votes (linked edges) L (ids ! i) d \<le> votes (linked edges) L (ids ! i) (ids ! c)" for d
        proof (cases "d \<in> (!) ids ` (!) label ` set (adj ! i)")
          case True
          then obtain k where "k \<in> (!) label ` set (adj ! i)" "d = ids ! k" by blast
          then show ?thesis using all votes [OF c] votes [of k] label_below [of k] by simp
        qed (simp add: none)
        then show "\<forall>d. votes (linked edges) L (ids ! i) d \<le> votes (linked edges) L (ids ! i) (ids ! c)" by blast
      qed
      ultimately show ?thesis unfolding most_frequent_def index_winners_def image by blast
    qed
    have winners_below: "index_winners adj label i \<subseteq> {..< length ids}"
      using label_below by (auto simp: index_winners_def)
    have most: "most_frequent (linked edges) L (ids ! i) = (!) ids ` index_winners adj label i"
    proof (intro equalityI subsetI)
      fix m assume m: "m \<in> most_frequent (linked edges) L (ids ! i)"
      then obtain c where "c < length ids" "m = ids ! c" using label_below unfolding most_frequent_def image by blast
      then show "m \<in> (!) ids ` index_winners adj label i" using m win by blast
    qed (use win winners_below in auto)
    have fin: "finite (index_winners adj label i)" using winners_below by (rule finite_subset) simp
    have "Min ((!) ids ` index_winners adj label i) = ids ! Min (index_winners adj label i)"
      if ne: "index_winners adj label i \<noteq> {}"
    proof (rule Min_eqI)
      fix y assume "y \<in> (!) ids ` index_winners adj label i"
      then obtain c where "c \<in> index_winners adj label i" "y = ids ! c" by blast
      then show "ids ! Min (index_winners adj label i) \<le> y"
        using fin winners_below by (auto intro!: sorted_nth_mono [OF ids(2)] Min_le)
    qed (use fin ne in auto)
    moreover have "Min (index_winners adj label i) < length ids" if "index_winners adj label i \<noteq> {}"
      using Min_in [OF fin that] winners_below by blast
    ultimately show ?thesis
      using L [OF i] win [OF L(1) [OF i]] unfolding best_label_votes [OF adj(1)] next_labels_def most by auto
  qed
  then show ?thesis
    using len unfolding adj_def [symmetric] stands_for_def lpa_round_def by simp
qed

lemma stands_for_unique: "distinct ids \<Longrightarrow> stands_for ids label L \<Longrightarrow> stands_for ids label' L \<Longrightarrow> label = label'"
  unfolding stands_for_def by (intro nth_equalityI) (metis nth_eq_iff_index_eq)+

text \<open>The loop stops after the last of its rounds or when a round changes nothing.\<close>

lemma loop_stands_for:
  assumes "ids = node_ids edges" and "stands_for ids label (labels_after (linked edges) m)"
  shows "\<exists>k \<le> n. stands_for ids (lpa_loop n (adjacency_lists ids edges) label) (labels_after (linked edges) (m + k)) \<and>
    (k = n \<or> stands_for ids (lpa_loop n (adjacency_lists ids edges) label) (labels_after (linked edges) (m + Suc k)))"
  using assms(2)
proof (induction n arbitrary: label m)
  case 0
  then show ?case by simp
next
  case (Suc n)
  let ?next = "lpa_round (adjacency_lists ids edges) label"
  have next_ok: "stands_for ids ?next (labels_after (linked edges) (Suc m))"
    using round_stands_for [OF assms(1) Suc.prems] by (simp add: labels_after_def)
  show ?case
  proof (cases "?next = label")
    case True
    then show ?thesis using Suc.prems next_ok by (intro exI [of _ 0]) simp
  next
    case False
    from Suc.IH [OF next_ok] obtain k where "k \<le> n"
      "stands_for ids (lpa_loop n (adjacency_lists ids edges) ?next) (labels_after (linked edges) (Suc m + k))"
      "k = n \<or> stands_for ids (lpa_loop n (adjacency_lists ids edges) ?next) (labels_after (linked edges) (Suc m + Suc k))"
      by blast
    then show ?thesis using False by (intro exI [of _ "Suc k"]) (simp add: Let_def)
  qed
qed

definition joined :: "relation_row list \<Rightarrow> nat \<Rightarrow> node_id \<Rightarrow> node_id \<Rightarrow> bool" where
  "joined rel project n m \<longleftrightarrow> n \<noteq> 0 \<and> m \<noteq> 0 \<and> (calls rel project n m \<or> calls rel project m n)"

lemma linked_joined: "stored_ids rel project \<Longrightarrow> linked (read_edges (ordered_calls rel project)) = joined rel project"
  by (intro ext) (auto simp: linked_def joined_def set_read_edges)

lemma labels_outside: "neighbours R n = {} \<Longrightarrow> next_labels R L n = L n"
  by (simp add: next_labels_def most_frequent_def)

lemma propagated_labels:
  assumes "ids = node_ids edges"
  obtains k where "k \<le> 20" and "stands_for ids (propagate (adjacency_lists ids edges)) (labels_after (linked edges) k)"
    and "k = 20 \<or> labels_after (linked edges) (Suc k) = labels_after (linked edges) k"
proof -
  have "stands_for ids [0..<length (adjacency_lists ids edges)] (labels_after (linked edges) 0)"
    using adjacency_lists_props(1) [OF assms] by (simp add: stands_for_def labels_after_def)
  from loop_stands_for [OF assms this, of kMaxLpaIterations] obtain k
    where k: "k \<le> 20" "stands_for ids (propagate (adjacency_lists ids edges)) (labels_after (linked edges) k)"
      "k = 20 \<or> stands_for ids (propagate (adjacency_lists ids edges)) (labels_after (linked edges) (Suc k))"
    by (auto simp: propagate_def kMaxLpaIterations_def)
  have "labels_after (linked edges) (Suc k) n = labels_after (linked edges) k n"
    if "stands_for ids (propagate (adjacency_lists ids edges)) (labels_after (linked edges) (Suc k))" for n
  proof (cases "n \<in> set ids")
    case True
    then obtain i where "i < length ids" "n = ids ! i" by (metis in_set_conv_nth)
    then show ?thesis using k(2) that by (simp add: stands_for_def)
  next
    case False
    then have "neighbours (linked edges) n = {}"
      using assms node_ids_props(1) [of edges] by (force simp: neighbours_def linked_def)
    then show ?thesis by (simp add: labels_after_def labels_outside)
  qed
  then have "k = 20 \<or> labels_after (linked edges) (Suc k) = labels_after (linked edges) k" using k(3) by blast
  then show ?thesis using that k by blast
qed

text \<open>
  (C10) The communities are the classes of equal labels after synchronous label propagation: every function
  with a call to or from another one starts with a label of its own; in each round all functions take the label
  most frequent among those they call or are called by (their own if it is among the most frequent, else the
  smallest); the rounds end when nothing changes, or after 20.  Two functions are in the same community exactly
  if they have the same label then, every function with a call is in exactly one, no other id is in any, and
  larger communities come first.  The functions of a community are joined by calls in the call graph, though
  not always within the community.
\<close>

theorem communities_are_final_labels:
  assumes "\<forall>ls. mset (hash_order ls) = mset ls" and "stored_ids rel project"
  shows "\<exists>k \<le> 20. (k = 20 \<or> labels_after (joined rel project) (Suc k) = labels_after (joined rel project) k) \<and>
    distinct (concat (community_nodes hash_order rel project)) \<and>
    (\<forall>n. n \<in> set (concat (community_nodes hash_order rel project)) \<longleftrightarrow> (\<exists>m. joined rel project n m)) \<and>
    (\<forall>ns \<in> set (community_nodes hash_order rel project). \<forall>u \<in> set ns. \<forall>v.
      v \<in> set ns \<longleftrightarrow> (\<exists>m. joined rel project v m) \<and>
        labels_after (joined rel project) k u = labels_after (joined rel project) k v) \<and>
    (\<forall>ns \<in> set (community_nodes hash_order rel project). \<forall>u \<in> set ns. \<forall>v \<in> set ns. (joined rel project)\<^sup>*\<^sup>* u v) \<and>
    sorted_wrt (\<ge>) (map length (community_nodes hash_order rel project))"
proof -
  define edges where "edges = read_edges (ordered_calls rel project)"
  define ids where "ids = node_ids edges"
  define label where "label = propagate (adjacency_lists ids edges)"
  define cs where "cs = find_communities ids (adjacency_lists ids edges) label (hash_order (remdups label))"
  have linked: "linked edges = joined rel project" unfolding edges_def by (rule linked_joined [OF assms(2)])
  obtain k where k: "k \<le> 20" "stands_for ids label (labels_after (joined rel project) k)"
    "k = 20 \<or> labels_after (joined rel project) (Suc k) = labels_after (joined rel project) k"
    using propagated_labels [OF ids_def] unfolding label_def [symmetric] linked by blast
  have nodes: "community_nodes hash_order rel project = map (\<lambda>c. map ((!) ids) (members c)) cs"
    by (simp add: community_nodes_def Let_def cs_def label_def ids_def edges_def)
  have ls: "distinct (hash_order (remdups label))" "set (hash_order (remdups label)) = set label"
    using assms(1) by (metis distinct_remdups mset_eq_imp_distinct_iff) (metis assms(1) mset_eq_setD set_remdups)
  have len: "length label = length ids"
    using propagate_ok [OF ids_def] by (simp add: label_def labels_ok_def)
  have part: "mset (concat (map members cs)) = mset [0..<length ids]"
    using communities_partition [OF ls, of ids "adjacency_lists ids edges"] by (simp add: cs_def len)
  have flat: "concat (community_nodes hash_order rel project) = map ((!) ids) (concat (map members cs))"
    by (simp add: nodes map_concat comp_def)
  have flat_mset: "mset (concat (community_nodes hash_order rel project)) = mset ids"
    using arg_cong [OF part, of "image_mset ((!) ids)"] unfolding flat by (simp only: mset_map [symmetric] map_nth)
  have ids: "distinct ids" "set ids = fst ` set edges \<union> snd ` set edges"
    unfolding ids_def by (rule node_ids_props)+
  have in_ids: "n \<in> set ids \<longleftrightarrow> (\<exists>m. joined rel project n m)" for n
    unfolding ids(2) linked [symmetric] linked_def by force
  have all: "set (concat (community_nodes hash_order rel project)) = set ids" by (rule mset_eq_setD [OF flat_mset])
  have one: "distinct (concat (community_nodes hash_order rel project))"
    using mset_eq_imp_distinct_iff [OF flat_mset] ids(1) by blast
  have same: "v \<in> set ns \<longleftrightarrow> v \<in> set ids \<and> labels_after (joined rel project) k u = labels_after (joined rel project) k v"
    if ns: "ns \<in> set (community_nodes hash_order rel project)" "u \<in> set ns" for ns u v
  proof -
    obtain c i where c: "c \<in> set cs" "ns = map ((!) ids) (members c)" "i \<in> set (members c)" "u = ids ! i"
      using ns unfolding nodes by auto
    obtain l where l: "members c = group_members label l" using c(1) unfolding cs_def by (rule community_group)
    have L: "label ! j < length ids" "labels_after (joined rel project) k (ids ! j) = ids ! (label ! j)" if "j < length ids" for j
      using k(2) that by (simp_all add: stands_for_def)
    have i: "i < length ids" "label ! i = l" using c(3) l len by (auto simp: set_group_members)
    have group: "j \<in> set (members c) \<longleftrightarrow>
        labels_after (joined rel project) k u = labels_after (joined rel project) k (ids ! j)" if j: "j < length ids" for j
      unfolding l set_group_members len c(4)
      using L [OF i(1)] L [OF j] i(2) j nth_eq_iff_index_eq [OF ids(1) L(1) [OF i(1)] L(1) [OF j]] by auto
    have sub: "\<forall>j \<in> set (members c). j < length ids" using l len by (auto simp: set_group_members)
    show ?thesis
    proof
      assume "v \<in> set ns"
      then show "v \<in> set ids \<and> labels_after (joined rel project) k u = labels_after (joined rel project) k v"
        using c(2) group sub by auto
    next
      assume "v \<in> set ids \<and> labels_after (joined rel project) k u = labels_after (joined rel project) k v"
      then obtain j where "j < length ids" "v = ids ! j" "j \<in> set (members c)"
        using group by (metis in_set_conv_nth)
      then show "v \<in> set ns" using c(2) by auto
    qed
  qed
  have chain: "(joined rel project)\<^sup>*\<^sup>* u v"
    if ns: "ns \<in> set (community_nodes hash_order rel project)" "u \<in> set ns" "v \<in> set ns" for ns u v
  proof -
    obtain c i j where c: "c \<in> set cs" "i \<in> set (members c)" "j \<in> set (members c)" "u = ids ! i" "v = ids ! j"
      using ns unfolding nodes by auto
    show ?thesis
      unfolding c(4,5) linked [symmetric] using community_linked [OF ids_def label_def] c(1-3) unfolding cs_def by blast
  qed
  have sizes: "sorted_wrt (\<ge>) (map length (community_nodes hash_order rel project))"
    using find_communities_sizes unfolding nodes by (simp add: comp_def cs_def)
  show ?thesis
    using k(1,3) one all in_ids same chain sizes by (intro exI [of _ k]) auto
qed

definition two_clusters :: "relation_row list" where
  "two_clusters = map (\<lambda>(a, b). sample_call a b)
     [(1, 2), (2, 3), (1, 3), (4, 5), (5, 6), (4, 6), (3, 4), (7, 7)]"

theorem communities_are_final_labels_witness:
  "community_nodes rev two_clusters 1 = [[1, 2, 3], [4, 5, 6]] \<and>
   (\<exists>k \<le> 20. labels_after (joined two_clusters 1) k 3 = labels_after (joined two_clusters 1) k 1 \<and>
      labels_after (joined two_clusters 1) k 3 \<noteq> labels_after (joined two_clusters 1) k 4)"
proof -
  have nodes: "community_nodes rev two_clusters 1 = [[1, 2, 3], [4, 5, 6]]" by code_simp
  have "\<forall>ls :: nat list. mset (rev ls) = mset ls" by simp
  moreover have "stored_ids two_clusters 1" by code_simp
  ultimately obtain k where k: "k \<le> 20"
    "\<forall>n. n \<in> set (concat [[1, 2, 3], [4, 5, 6]]) \<longleftrightarrow> (\<exists>m. joined two_clusters 1 n m)"
    "\<forall>ns \<in> set [[1, 2, 3], [4, 5, 6]]. \<forall>u \<in> set ns. \<forall>v. v \<in> set ns \<longleftrightarrow>
       (\<exists>m. joined two_clusters 1 v m) \<and> labels_after (joined two_clusters 1) k u = labels_after (joined two_clusters 1) k v"
    using communities_are_final_labels [of rev two_clusters 1] unfolding nodes by blast
  have "labels_after (joined two_clusters 1) k 3 = labels_after (joined two_clusters 1) k 1"
    using k(2) [rule_format, of 1] k(3) [rule_format, of "[1, 2, 3]" 3 1] by simp
  moreover have "labels_after (joined two_clusters 1) k 3 \<noteq> labels_after (joined two_clusters 1) k 4"
    using k(2) [rule_format, of 4] k(3) [rule_format, of "[1, 2, 3]" 3 4] by simp
  ultimately show ?thesis using nodes k(1) by blast
qed

text \<open>
  A community need not hang together: when a function calls two others and nothing else is called, the labels
  of the caller and the callees change places in every round, and after the last one the two callees form a
  community without their only link.
\<close>

theorem star_community_disconnected:
  "community_nodes rev [sample_call 2 1, sample_call 2 3] 1 = [[1, 3], [2]] \<and>
   \<not> calls [sample_call 2 1, sample_call 2 3] 1 1 3 \<and> \<not> calls [sample_call 2 1, sample_call 2 3] 1 3 1"
proof -
  have "community_nodes rev [sample_call 2 1, sample_call 2 3] 1 = [[1, 3], [2]]" by code_simp
  moreover have "\<not> calls [sample_call 2 1, sample_call 2 3] 1 u v" if "u \<in> {1, 3}" for u v
    using that by (auto simp: calls_def call_pairs_def sample_call_def)
  ultimately show ?thesis by simp
qed

text \<open>
  The answer is a function of the stored calls: neither the order in which the hash map
  is walked nor the order of the rows in the table changes a byte of it.
\<close>

theorem communities_deterministic:
  assumes "\<forall>ls. mset (hash_order ls) = mset ls" and "\<forall>ls. mset (hash_order' ls) = mset ls"
    and "mset rel = mset rel'"
  shows "getCommunities hash_order ready calls_ok rel rows project max_members max_communities include_members =
    getCommunities hash_order' ready calls_ok rel' rows project max_members max_communities include_members"
proof -
  have "mset (call_pairs rel project) = mset (call_pairs rel' project)"
    using assms(3) by (simp add: call_pairs_def mset_filter)
  then have rows: "ordered_calls rel project = ordered_calls rel' project"
    unfolding ordered_calls_def by (intro properties_for_sort) simp_all
  have "find_communities (node_ids edges) (adjacency_lists (node_ids edges) edges) label (hash_order (remdups label)) =
      find_communities (node_ids edges) (adjacency_lists (node_ids edges) edges) label (hash_order' (remdups label))"
    if "label = propagate (adjacency_lists (node_ids edges) edges)" for edges label
  proof (rule find_communities_order [OF refl])
    show "length label = length (node_ids edges)"
      using propagate_ok [OF refl, of edges] that by (simp add: labels_ok_def)
    show "set (hash_order (remdups label)) \<subseteq> set label"
      using assms(1) by (metis mset_eq_setD set_remdups subset_refl)
    show "mset (hash_order (remdups label)) = mset (hash_order' (remdups label))" using assms(1,2) by simp
  qed
  then show ?thesis unfolding getCommunities_def Let_def rows by simp
qed

theorem communities_deterministic_witness:
  "getCommunities rev True True two_clusters [] 1 2 0 True =
   getCommunities id True True (rev two_clusters) [] 1 2 0 True"
  by (rule communities_deterministic) simp_all

lemma clamp_limit_le: "0 < d \<Longrightarrow> d \<le> cap \<Longrightarrow> 0 < clamp_limit d cap n \<and> int (clamp_limit d cap n) \<le> cap"
  by (auto simp: clamp_limit_def Let_def)

text \<open>
  (C11) The answer is bounded and is one JSON value: whatever limits the caller asks for, at most
  500 communities are listed, each with at most 200 members and not more than it has, and at
  most 5000 members in all; \<open>truncated\<close> says exactly that something was left out.
\<close>

theorem communities_bounded:
  assumes "read_edges (ordered_calls rel project) \<noteq> []"
  shows "\<exists>cs listed ns crossing.
    map (\<lambda>c. map ((!) (node_ids (read_edges (ordered_calls rel project)))) (members c)) cs =
      community_nodes hash_order rel project \<and>
    listed = take (clamp_limit kDefaultMaxCommunities kMaxCommunitiesCap max_communities) cs \<and>
    getCommunities hash_order True True rel rows project max_members max_communities include_members =
      render (communities_json
        (map2 (community_json (community_meta rows project) (node_ids (read_edges (ordered_calls rel project))) include_members)
          listed ns) (length cs) crossing
        (length listed < length cs \<or> include_members \<and> ns \<noteq> map (\<lambda>c. length (members c)) listed)) \<and>
    length listed \<le> 500 \<and> list_all2 (\<lambda>n c. n \<le> length (members c) \<and> n \<le> 200) ns listed \<and> sum_list ns \<le> 5000"
proof -
  define edges where "edges = read_edges (ordered_calls rel project)"
  define ids where "ids = node_ids edges"
  define label where "label = propagate (adjacency_lists ids edges)"
  define cs where "cs = find_communities ids (adjacency_lists ids edges) label (hash_order (remdups label))"
  define k where "k = clamp_limit kDefaultMaxCommunities kMaxCommunitiesCap max_communities"
  define m where "m = clamp_limit kDefaultMaxMembers kMaxMembersCap max_members"
  define ns where "ns = emit_counts include_members m 0 (map (\<lambda>c. length (members c)) (take k cs))"
  let ?meta = "community_meta rows project"
  have k: "k \<le> 500" and m: "m \<le> 200"
    unfolding k_def m_def
    using clamp_limit_le [of kDefaultMaxCommunities kMaxCommunitiesCap max_communities]
      clamp_limit_le [of kDefaultMaxMembers kMaxMembersCap max_members]
    by (simp_all add: kDefaultMaxCommunities_def kMaxCommunitiesCap_def kDefaultMaxMembers_def kMaxMembersCap_def)
  have len: "length ns = length (take k cs)" by (simp add: ns_def)
  have texts: "map2 (community_text ?meta ids include_members) (take k cs) ns =
      map render (map2 (community_json ?meta ids include_members) (take k cs) ns)"
    by (simp add: community_text_render comp_def case_prod_beta)
  have sizes: "length (map2 (community_json ?meta ids include_members) (take k cs) ns) = length (take k cs)"
    using len by simp
  have "getCommunities hash_order True True rel rows project max_members max_communities include_members =
      render (communities_json (map2 (community_json ?meta ids include_members) (take k cs) ns) (length cs)
        (inter_community_edges ids label edges)
        (length (take k cs) < length cs \<or> include_members \<and> ns \<noteq> map (\<lambda>c. length (members c)) (take k cs)))"
    using assms unfolding communities_text [symmetric] sizes texts [symmetric]
    by (simp only: getCommunities_def Let_def emit_communities_eq prod.case edges_def [symmetric] ids_def [symmetric]
        label_def [symmetric] cs_def [symmetric] k_def [symmetric] m_def [symmetric] ns_def [symmetric] if_False simp_thms)
  moreover have "list_all2 (\<lambda>n c. n \<le> length (members c) \<and> n \<le> 200) ns (take k cs)"
  proof (rule list_all2_mono)
    show "list_all2 (\<lambda>n c. n \<le> length (members c) \<and> n \<le> m) ns (take k cs)"
      using emit_counts_each [of m include_members 0 "map (\<lambda>c. length (members c)) (take k cs)"]
      unfolding ns_def list_all2_map2 .
  qed (use m in auto)
  moreover have "sum_list ns \<le> 5000"
    using emit_counts_bound [of 0 include_members m] by (simp add: ns_def kMaxTotalMembersEmitted_def)
  moreover have "map (\<lambda>c. map ((!) ids) (members c)) cs = community_nodes hash_order rel project"
    by (simp add: community_nodes_def Let_def cs_def label_def ids_def edges_def)
  moreover have "length (take k cs) \<le> 500" using k by simp
  ultimately show ?thesis unfolding edges_def [symmetric] ids_def [symmetric] k_def [symmetric] by blast
qed

theorem communities_bounded_witness:
  "\<exists>cs listed ns crossing.
    map (\<lambda>c. map ((!) (node_ids (read_edges (ordered_calls two_clusters 1)))) (members c)) cs = [[1, 2, 3], [4, 5, 6]] \<and>
    listed = take (clamp_limit kDefaultMaxCommunities kMaxCommunitiesCap 1) cs \<and>
    getCommunities rev True True two_clusters [] 1 0 1 True =
      render (communities_json
        (map2 (community_json (community_meta [] 1) (node_ids (read_edges (ordered_calls two_clusters 1))) True)
          listed ns) (length cs) crossing
        (length listed < length cs \<or> True \<and> ns \<noteq> map (\<lambda>c. length (members c)) listed)) \<and>
    length listed \<le> 500 \<and> list_all2 (\<lambda>n c. n \<le> length (members c) \<and> n \<le> 200) ns listed \<and> sum_list ns \<le> 5000"
proof -
  have nodes: "community_nodes rev two_clusters 1 = [[1, 2, 3], [4, 5, 6]]" by code_simp
  have "read_edges (ordered_calls two_clusters 1) \<noteq> []" by code_simp
  from communities_bounded [OF this, of rev 1 "[]" 0 True] show ?thesis unfolding nodes .
qed

end
