(* ===== verification/Glob.thy ===== *)
theory Glob
  imports Prelude
begin

text \<open>
  The pattern matching of the file filter (\<open>filter_policy_ignore.cpp\<close>): the glob matcher with its
  cap on \<open>**\<close>, the rules of a \<open>.gitignore\<close> file and the parsing of both sources of patterns.

  \<open>globImpl\<close> advances two iterators; here it takes the rests of the pattern and of the text.  A
  loop over the positions of the text is a disjunction over the list of the rests it visits, in
  the order of the loop.  Every call shortens the pattern, so the recursion ends on its length.
  The meaning of a pattern is the inductive relation \<open>glob_denotes\<close> over its tokens.

  The lines of a file and the value of an environment variable are arguments.
\<close>

section \<open>The glob matcher\<close>

abbreviation star :: char where "star \<equiv> CHR ''*''"
abbreviation slash :: char where "slash \<equiv> CHR ''/''"

definition kGlobDoubleStarMaxDepth :: nat where
  "kGlobDoubleStarMaxDepth = 8"

fun tails :: "bytes \<Rightarrow> bytes list" where
  "tails [] = [[]]"
| "tails (c # s) = (c # s) # tails s"

fun segment_tails :: "bytes \<Rightarrow> bytes list" where
  "segment_tails [] = [[]]"
| "segment_tails (c # s) = (if c = slash then [c # s] else (c # s) # segment_tails s)"

definition skip_slash :: "bytes \<Rightarrow> bytes" where
  "skip_slash p = (if p \<noteq> [] \<and> hd p = slash then tl p else p)"

lemma skip_slash_length: "length (skip_slash p) \<le> length p"
  by (simp add: skip_slash_def)

function globImpl :: "bytes \<Rightarrow> bytes \<Rightarrow> nat \<Rightarrow> bool" where
  "globImpl [] s d = (s = [])"
| "globImpl (c # p) s d =
     (if c = star then
        (if p \<noteq> [] \<and> hd p = star then
           (if kGlobDoubleStarMaxDepth \<le> d then False
            else list_ex (\<lambda>t. globImpl (skip_slash (tl p)) t (d + 1)) (tails s))
         else list_ex (\<lambda>t. globImpl p t d) (segment_tails s))
      else
        (case s of
           [] \<Rightarrow> False
         | x # s' \<Rightarrow> (c = x \<or> c = CHR ''?'') \<and> globImpl p s' d))"
  by pat_completeness auto
termination
proof (relation "measure (\<lambda>(p, _, _). length p)", goal_cases)
  case (2 c p s d t)
  then show ?case using skip_slash_length [of "tl p"] by (cases p) auto
qed auto

definition globMatch :: "bytes \<Rightarrow> bytes \<Rightarrow> bool" where
  "globMatch pattern str = globImpl pattern str 0"

section \<open>The meaning of a pattern\<close>

datatype token = AnyPath | AnySegment | OneByte | Byte char

fun tokens :: "bytes \<Rightarrow> token list" where
  "tokens [] = []"
| "tokens [c] = [if c = star then AnySegment else if c = CHR ''?'' then OneByte else Byte c]"
| "tokens (c # e # p) =
     (if c = star then
        (if e = star then AnyPath # (if p \<noteq> [] \<and> hd p = slash then tokens (tl p) else tokens p)
         else AnySegment # tokens (e # p))
      else (if c = CHR ''?'' then OneByte else Byte c) # tokens (e # p))"

inductive glob_denotes :: "token list \<Rightarrow> bytes \<Rightarrow> bool" where
  Done: "glob_denotes [] []"
| ByteI: "glob_denotes ts s \<Longrightarrow> glob_denotes (Byte c # ts) (c # s)"
| OneI: "glob_denotes ts s \<Longrightarrow> glob_denotes (OneByte # ts) (c # s)"
| SegmentI: "glob_denotes ts s \<Longrightarrow> slash \<notin> set u \<Longrightarrow> glob_denotes (AnySegment # ts) (u @ s)"
| PathI: "glob_denotes ts s \<Longrightarrow> glob_denotes (AnyPath # ts) (u @ s)"

inductive_simps denotes_Nil [simp]: "glob_denotes [] s"
inductive_simps denotes_Byte: "glob_denotes (Byte c # ts) s"
inductive_simps denotes_One: "glob_denotes (OneByte # ts) s"
inductive_simps denotes_Segment: "glob_denotes (AnySegment # ts) s"
inductive_simps denotes_Path: "glob_denotes (AnyPath # ts) s"

lemmas denotes_simps = denotes_Byte denotes_One denotes_Segment denotes_Path

definition any_paths :: "token list \<Rightarrow> nat" where
  "any_paths ts = length (filter (\<lambda>t. t = AnyPath) ts)"

lemma any_paths_simps [simp]:
  "any_paths [] = 0" "any_paths (t # ts) = (if t = AnyPath then Suc (any_paths ts) else any_paths ts)"
  by (simp_all add: any_paths_def)

lemma set_tails: "t \<in> set (tails s) \<longleftrightarrow> (\<exists>u. s = u @ t)"
  by (induction s) (auto simp: Cons_eq_append_conv)

lemma set_segment_tails: "t \<in> set (segment_tails s) \<longleftrightarrow> (\<exists>u. s = u @ t \<and> slash \<notin> set u)"
  by (induction s) (auto simp: Cons_eq_append_conv)

lemma bex_tails: "(\<exists>t \<in> set (tails s). P t) \<longleftrightarrow> (\<exists>u t. s = u @ t \<and> P t)"
  unfolding Bex_def set_tails by blast

lemma bex_segment_tails:
  "(\<exists>t \<in> set (segment_tails s). P t) \<longleftrightarrow> (\<exists>u t. s = u @ t \<and> slash \<notin> set u \<and> P t)"
  unfolding Bex_def set_segment_tails by blast

lemma tokens_star_star:
  "tokens (star # star # p) = AnyPath # tokens (skip_slash p)"
  by (simp add: skip_slash_def)

lemma tokens_star: "\<not> (p \<noteq> [] \<and> hd p = star) \<Longrightarrow> tokens (star # p) = AnySegment # tokens p"
  by (cases p) auto

lemma tokens_other: "c \<noteq> star \<Longrightarrow> tokens (c # p) = (if c = CHR ''?'' then OneByte else Byte c) # tokens p"
  by (cases p) auto

lemma globImpl_star_star:
  "globImpl (star # star # q) s d \<longleftrightarrow>
     d < kGlobDoubleStarMaxDepth \<and> (\<exists>t \<in> set (tails s). globImpl (skip_slash q) t (d + 1))"
  by (auto simp: list_ex_iff)

lemma globImpl_star:
  "\<not> (p \<noteq> [] \<and> hd p = star) \<Longrightarrow>
     globImpl (star # p) s d \<longleftrightarrow> (\<exists>t \<in> set (segment_tails s). globImpl p t d)"
  by (auto simp: list_ex_iff)

declare globImpl.simps(2) [simp del] tokens.simps(3) [simp del]

lemma globImpl_iff:
  "d \<le> kGlobDoubleStarMaxDepth \<Longrightarrow>
     globImpl p s d \<longleftrightarrow> d + any_paths (tokens p) \<le> kGlobDoubleStarMaxDepth \<and> glob_denotes (tokens p) s"
proof (induction p s d rule: globImpl.induct)
  case (1 s d)
  then show ?case by simp
next
  case (2 c p s d)
  consider (path) q where "c = star" "p = star # q" | (segment) "c = star" "\<not> (p \<noteq> [] \<and> hd p = star)" | (other) "c \<noteq> star"
    by (metis list.collapse)
  then show ?case
  proof cases
    case path
    have IH: "globImpl (skip_slash q) t (d + 1) \<longleftrightarrow>
          d + 1 + any_paths (tokens (skip_slash q)) \<le> kGlobDoubleStarMaxDepth \<and> glob_denotes (tokens (skip_slash q)) t"
      if "t \<in> set (tails s)" "d < kGlobDoubleStarMaxDepth" for t
      using 2(1) [of t] that path by simp
    have "(\<exists>t \<in> set (tails s). d < kGlobDoubleStarMaxDepth \<and> globImpl (skip_slash q) t (d + 1)) \<longleftrightarrow>
        (\<exists>t \<in> set (tails s). d + 1 + any_paths (tokens (skip_slash q)) \<le> kGlobDoubleStarMaxDepth
            \<and> glob_denotes (tokens (skip_slash q)) t)"
      using IH by (intro bex_cong refl) auto
    then show ?thesis
      unfolding path globImpl_star_star tokens_star_star bex_tails by (auto simp: denotes_Path)
  next
    case segment
    then have IH: "globImpl p t d \<longleftrightarrow> d + any_paths (tokens p) \<le> kGlobDoubleStarMaxDepth \<and> glob_denotes (tokens p) t"
      if "t \<in> set (segment_tails s)" for t
      using 2(2) [of t] that 2(4) by auto
    have "(\<exists>t \<in> set (segment_tails s). globImpl p t d) \<longleftrightarrow>
        (\<exists>t \<in> set (segment_tails s). d + any_paths (tokens p) \<le> kGlobDoubleStarMaxDepth \<and> glob_denotes (tokens p) t)"
      by (intro bex_cong refl IH)
    then show ?thesis
      using segment(1) globImpl_star [OF segment(2), of s d] tokens_star [OF segment(2)]
      unfolding bex_segment_tails by (auto simp: denotes_Segment)
  next
    case other
    then show ?thesis
      using 2(3,4) by (cases s) (auto simp: globImpl.simps(2) tokens_other denotes_Byte denotes_One)
  qed
qed

lemma globMatch_iff:
  "globMatch p s \<longleftrightarrow> any_paths (tokens p) \<le> kGlobDoubleStarMaxDepth \<and> glob_denotes (tokens p) s"
  by (simp add: globMatch_def globImpl_iff)

text \<open>
  (C39) The matcher decides the meaning of the pattern, as long as the pattern has at most
  eight \<open>**\<close>; a pattern with more of them matches nothing at all, so the cap never makes an entry
  match that the pattern does not denote.\<close>

theorem glob_match_spec:
  "globMatch pattern s \<longleftrightarrow>
     any_paths (tokens pattern) \<le> kGlobDoubleStarMaxDepth \<and> glob_denotes (tokens pattern) s"
  by (rule globMatch_iff)

lemma denotes_bytes: "glob_denotes (map Byte n) s \<longleftrightarrow> s = n"
  by (induction n arbitrary: s) (auto simp: denotes_Byte)

lemma any_paths_bytes: "any_paths (map Byte n) = 0"
  by (induction n) auto

lemma tokens_literal: "star \<notin> set n \<Longrightarrow> CHR ''?'' \<notin> set n \<Longrightarrow> tokens n = map Byte n"
  by (induction n) (auto simp: tokens_other)

text \<open>
  \<open>**/\<close> before a literal name accepts every text that ends in the name, also one where
  the name begins in the middle of a component: \<open>**/foo.cpp\<close> matches \<open>src/myfoo.cpp\<close>.\<close>

theorem double_star_slash_is_suffix:
  assumes "star \<notin> set name" and "CHR ''?'' \<notin> set name"
  shows "globMatch (star # star # slash # name) s \<longleftrightarrow> suffix name s"
  using tokens_literal [OF assms]
  by (auto simp: globMatch_iff tokens_star_star skip_slash_def kGlobDoubleStarMaxDepth_def
      any_paths_bytes denotes_Path denotes_bytes suffix_def)

theorem double_star_slash_is_suffix_witness:
  "globMatch ''**/foo.cpp'' ''src/myfoo.cpp'' \<and> \<not> globMatch ''**/foo.cpp'' ''src/foo.cc''"
  using double_star_slash_is_suffix [of "''foo.cpp''" "''src/myfoo.cpp''"]
    double_star_slash_is_suffix [of "''foo.cpp''" "''src/foo.cc''"]
  by (simp add: suffix_def Cons_eq_append_conv)

section \<open>The rules of a .gitignore file\<close>

record gitignore_rule =
  rule_pattern :: bytes
  negate :: bool
  dir_only :: bool
  anchored :: bool
  has_star :: bool

definition trim_with :: "(char \<Rightarrow> bool) \<Rightarrow> bytes \<Rightarrow> bytes" where
  "trim_with blank s = rev (dropWhile blank (rev (dropWhile blank s)))"

definition parse_gitignore_line :: "bytes \<Rightarrow> gitignore_rule option" where
  "parse_gitignore_line raw_line =
     (let l0 = trim_with (\<lambda>c. c = CHR '' '' \<or> c = CHR 0x09 \<or> c = CHR 0x0D) raw_line
      in if l0 = [] \<or> hd l0 = CHR ''#'' then None
      else
        let neg = hd l0 = CHR ''!'';
            l1 = (if neg then tl l0 else l0);
            dir = l1 \<noteq> [] \<and> last l1 = slash;
            l2 = (if dir then butlast l1 else l1);
            anc = l2 \<noteq> [] \<and> hd l2 = slash;
            l3 = (if anc then tl l2 else l2)
        in if l3 = [] then None
           else Some \<lparr>rule_pattern = l3, negate = neg, dir_only = dir, anchored = anc, has_star = star \<in> set l3\<rparr>)"

text \<open>\<open>loadGitignore\<close>; \<open>None\<close> for a file that does not open.  The result is the returned flag and the
  rules.\<close>

definition loadGitignore ::
  "bytes list option \<Rightarrow> bool \<Rightarrow> gitignore_rule list \<Rightarrow> bool \<times> gitignore_rule list" where
  "loadGitignore file_lines append_rules rules =
     (case file_lines of
        None \<Rightarrow> (False, rules)
      | Some ls \<Rightarrow>
          let rules' = (if append_rules then rules else []) @ List.map_filter parse_gitignore_line ls
          in (rules' \<noteq> [], rules'))"

definition basename :: "bytes \<Rightarrow> bytes" where
  "basename path = (case str_rfind slash path of None \<Rightarrow> path | Some i \<Rightarrow> drop (Suc i) path)"

text \<open>The loop over the occurrences of a literal; \<open>find\<close> from beyond the end answers \<open>npos\<close>.\<close>

function literal_loop :: "bytes \<Rightarrow> bytes \<Rightarrow> nat \<Rightarrow> bool" where
  "literal_loop pat candidate from_pos =
     (if length candidate < from_pos then False
      else case str_find pat (drop from_pos candidate) of
             None \<Rightarrow> False
           | Some k \<Rightarrow>
               let pos = from_pos + k; after = pos + length pat
               in if (pos = 0 \<or> candidate ! (pos - 1) = slash) \<and> (after = length candidate \<or> candidate ! after = slash)
                  then True else literal_loop pat candidate (pos + 1))"
  by pat_completeness auto
termination
  by (relation "measure (\<lambda>(_, candidate, from_pos). Suc (length candidate) - from_pos)") auto

declare literal_loop.simps [simp del]

definition matches_one :: "gitignore_rule \<Rightarrow> bytes \<Rightarrow> bool" where
  "matches_one r candidate =
     (if has_star r then
        (if \<not> anchored r \<and> slash \<notin> set (rule_pattern r) then globMatch (rule_pattern r) (basename candidate)
         else globMatch (rule_pattern r) candidate)
      else if anchored r then candidate = rule_pattern r
      else literal_loop (rule_pattern r) candidate 0)"

text \<open>The ancestor directories, from the outermost: the prefixes before each slash.\<close>

definition ancestors :: "bytes \<Rightarrow> bytes list" where
  "ancestors path = map (\<lambda>i. take i path) (filter (\<lambda>i. path ! i = slash) [0..<length path])"

definition rule_matches :: "gitignore_rule \<Rightarrow> bytes \<Rightarrow> bool \<Rightarrow> bool" where
  "rule_matches r rel_path is_dir =
     (if dir_only r \<and> \<not> is_dir then list_ex (matches_one r) (ancestors rel_path)
      else matches_one r rel_path \<or> (dir_only r \<and> list_ex (matches_one r) (ancestors rel_path)))"

fun gitignore_loop :: "bool \<Rightarrow> gitignore_rule list \<Rightarrow> bytes \<Rightarrow> bool \<Rightarrow> bool" where
  "gitignore_loop ignored [] rel_path is_dir = ignored"
| "gitignore_loop ignored (r # rs) rel_path is_dir =
     (if rule_matches r rel_path is_dir
      then (if \<not> negate r then True else gitignore_loop False rs rel_path is_dir)
      else gitignore_loop ignored rs rel_path is_dir)"

definition gitignoreMatches :: "gitignore_rule list \<Rightarrow> bytes \<Rightarrow> bool \<Rightarrow> bool" where
  "gitignoreMatches rules rel_path is_dir = gitignore_loop False rules rel_path is_dir"

text \<open>The only value of \<open>ignored\<close> that reaches the next rule is false: a positive match leaves the
  loop.\<close>

lemma gitignore_loop_iff:
  "gitignore_loop False rules p d \<longleftrightarrow> list_ex (\<lambda>r. \<not> negate r \<and> rule_matches r p d) rules"
  by (induction rules) auto

lemma gitignoreMatches_iff:
  "gitignoreMatches rules p d \<longleftrightarrow> (\<exists>r \<in> set rules. \<not> negate r \<and> rule_matches r p d)"
  by (simp add: gitignoreMatches_def gitignore_loop_iff list_ex_iff)

text \<open>
  A negated rule has no effect, wherever it stands: a path is ignored exactly
  when some positive rule matches it.\<close>

theorem gitignore_negation_dead:
  "gitignoreMatches rules p d \<longleftrightarrow> gitignoreMatches (filter (\<lambda>r. \<not> negate r) rules) p d"
  by (auto simp: gitignoreMatches_iff)

text \<open>What the search of a literal finds: an occurrence bounded by slashes or the ends.\<close>

definition bounded_at :: "bytes \<Rightarrow> bytes \<Rightarrow> nat \<Rightarrow> bool" where
  "bounded_at pat s i \<longleftrightarrow> i \<le> length s \<and> prefix pat (drop i s) \<and> (i = 0 \<or> s ! (i - 1) = slash)
     \<and> (i + length pat = length s \<or> s ! (i + length pat) = slash)"

lemma literal_loop_iff: "literal_loop pat s k \<longleftrightarrow> (\<exists>i \<ge> k. bounded_at pat s i)"
proof (induction pat s k rule: literal_loop.induct)
  case (1 pat s k)
  show ?case
  proof (cases "length s < k \<or> str_find pat (drop k s) = None")
    case True
    then have "\<not> prefix pat (drop i s)" if "i \<ge> k" "i \<le> length s" for i
    proof -
      have "str_find pat (drop k s) = None" using True that by auto
      then have "\<not> prefix pat (drop (i - k) (drop k s))"
        using that by (simp add: str_find_None_iff del: drop_drop)
      then show ?thesis using that by simp
    qed
    then have "\<not> (\<exists>i \<ge> k. bounded_at pat s i)" by (auto simp: bounded_at_def)
    then show ?thesis using True by (subst literal_loop.simps) auto
  next
    case False
    then obtain j where k: "k \<le> length s" and find: "str_find pat (drop k s) = Some j" by auto
    have pos: "k + j \<le> length s" "prefix pat (drop (k + j) s)"
      using find k by (auto simp: str_find_Some_iff add.commute)
    have first: "\<not> bounded_at pat s i" if "k \<le> i" "i < k + j" for i
    proof -
      have "\<not> prefix pat (drop (i - k) (drop k s))"
        using find that by (auto simp: str_find_Some_iff simp del: drop_drop)
      then show ?thesis using that by (simp add: bounded_at_def)
    qed
    let ?B = "(k + j = 0 \<or> s ! (k + j - 1) = slash) \<and> (k + j + length pat = length s \<or> s ! (k + j + length pat) = slash)"
    have here: "bounded_at pat s (k + j) \<longleftrightarrow> ?B"
      using pos by (simp add: bounded_at_def)
    have step: "literal_loop pat s k \<longleftrightarrow> ?B \<or> literal_loop pat s (k + j + 1)"
      using k find by (subst literal_loop.simps) (auto simp: Let_def)
    show ?thesis
    proof (cases ?B)
      case True
      then show ?thesis using step here by (metis le_add1)
    next
      case no: False
      have "literal_loop pat s (k + j + 1) \<longleftrightarrow> (\<exists>i \<ge> k + j + 1. bounded_at pat s i)"
        using 1 k find no by simp
      moreover have "bounded_at pat s i \<Longrightarrow> k \<le> i \<Longrightarrow> k + j + 1 \<le> i" for i
        using first [of i] here no by (metis Suc_eq_plus1 not_less not_less_eq_eq le_antisym)
      ultimately show ?thesis using step no by (metis add.assoc add_leD1)
    qed
  qed
qed

text \<open>A literal without a slash is compared with the components of the path.\<close>

lemma bounded_at_split:
  "bounded_at pat s i \<longleftrightarrow>
     (\<exists>u v. s = u @ pat @ v \<and> length u = i \<and> (u = [] \<or> last u = slash) \<and> (v = [] \<or> hd v = slash))"
proof
  assume b: "bounded_at pat s i"
  then obtain v where v: "drop i s = pat @ v" and i: "i \<le> length s" by (auto simp: bounded_at_def prefix_def)
  have s: "s = take i s @ pat @ v" by (metis append_take_drop_id v)
  have lv: "i + length pat + length v = length s" using s i by (metis length_append length_take min_absorb2 add.assoc)
  have "v = [] \<or> hd v = slash"
  proof (cases v)
    case (Cons c w)
    then have "s ! (i + length pat) = c" using i v by (metis nth_append_length nth_drop le_add1 append_Nil2 add.commute)
    then show ?thesis using b Cons lv by (auto simp: bounded_at_def)
  qed simp
  moreover have "take i s = [] \<or> last (take i s) = slash"
  proof (cases i)
    case (Suc n)
    then have "take i s = take n s @ [s ! n]" using i by (simp add: take_Suc_conv_app_nth)
    then show ?thesis using b Suc by (auto simp: bounded_at_def)
  qed simp
  ultimately show "\<exists>u v. s = u @ pat @ v \<and> length u = i \<and> (u = [] \<or> last u = slash) \<and> (v = [] \<or> hd v = slash)"
    using s i by (intro exI [of _ "take i s"] exI [of _ v]) simp
next
  assume "\<exists>u v. s = u @ pat @ v \<and> length u = i \<and> (u = [] \<or> last u = slash) \<and> (v = [] \<or> hd v = slash)"
  then obtain u v where s: "s = u @ pat @ v" "length u = i" "u = [] \<or> last u = slash" "v = [] \<or> hd v = slash" by blast
  show "bounded_at pat s i"
    using s(3,4) unfolding bounded_at_def s(1) s(2) [symmetric]
    by (cases v; cases u rule: rev_cases) (auto simp: nth_append)
qed

lemma first_separator:
  assumes "u @ sep # w = p @ sep # r" and "sep \<notin> set p"
  shows "(u = p \<and> w = r) \<or> (\<exists>u'. u = p @ sep # u' \<and> r = u' @ sep # w)"
  using assms by (auto simp: append_eq_append_conv2 Cons_eq_append_conv append_eq_Cons_conv)

lemma set_split_all:
  assumes x: "sep \<notin> set x"
  shows "x \<in> set (split_all sep s) \<longleftrightarrow>
     (\<exists>u v. s = u @ x @ v \<and> (u = [] \<or> last u = sep) \<and> (v = [] \<or> hd v = sep))" (is "_ \<longleftrightarrow> ?R s")
proof (induction "length s" arbitrary: s rule: less_induct)
  case less
  show ?case
  proof (cases "sep \<in> set s")
    case False
    have "u = [] \<and> v = []" if "s = u @ x @ v" "u = [] \<or> last u = sep" "v = [] \<or> hd v = sep" for u v
      using False that by (metis Un_iff last_in_set hd_in_set set_append)
    then have "?R s \<longleftrightarrow> s = x" by (metis append.left_neutral append_Nil2)
    then show ?thesis using False by (auto simp: split_all_single)
  next
    case True
    then obtain p r where s: "s = p @ sep # r" and p: "sep \<notin> set p" by (meson split_list_first)
    have "?R s \<longleftrightarrow> x = p \<or> ?R r"
    proof
      assume "?R s"
      then obtain u v where e: "s = u @ x @ v" "u = [] \<or> last u = sep" "v = [] \<or> hd v = sep" by blast
      show "x = p \<or> ?R r"
      proof (cases u rule: rev_cases)
        case Nil
        then obtain v' where "v = sep # v'" using e s x by (cases v) auto
        then have "x @ sep # v' = p @ sep # r" using e(1) s Nil by simp
        then show ?thesis using first_separator [OF _ p, of x v' r] x by auto
      next
        case (snoc u' c)
        then have "u' @ sep # (x @ v) = p @ sep # r" using e s by simp
        from first_separator [OF this p] show ?thesis
        proof (elim disjE exE conjE)
          assume "x @ v = r"
          then show ?thesis using e(3) by (intro disjI2 exI [of _ "[]"] exI [of _ v]) simp
        next
          fix u'' assume "r = u'' @ sep # x @ v"
          then show ?thesis using e(3) by (intro disjI2 exI [of _ "u'' @ [sep]"] exI [of _ v]) simp
        qed
      qed
    next
      assume "x = p \<or> ?R r"
      then show "?R s"
      proof
        assume "x = p"
        then show ?thesis using s by (intro exI [of _ "[]"] exI [of _ "sep # r"]) simp
      next
        assume "?R r"
        then obtain u v where "r = u @ x @ v" "u = [] \<or> last u = sep" "v = [] \<or> hd v = sep" by blast
        then show ?thesis using s by (intro exI [of _ "p @ sep # u"] exI [of _ v]) auto
      qed
    qed
    then show ?thesis using less [of r] s p by (simp add: split_all_append)
  qed
qed

lemma literal_is_component:
  "slash \<notin> set pat \<Longrightarrow> literal_loop pat s 0 \<longleftrightarrow> pat \<in> set (split_all slash s)"
  by (simp add: literal_loop_iff bounded_at_split set_split_all)

text \<open>
  A pattern of a \<open>.gitignore\<close> file that is a bare name (no star, no slash inside, no
  leading slash) matches a path exactly when the name is one of the components of the path.\<close>

lemma gitignore_name_is_component:
  assumes "\<not> has_star r" and "\<not> anchored r"
    and "slash \<notin> set (rule_pattern r)"
  shows "matches_one r path \<longleftrightarrow> rule_pattern r \<in> set (split_all slash path)"
  using assms by (simp add: matches_one_def literal_is_component)

text \<open>A path below a directory has the ancestors of the directory, and the directory itself.\<close>

lemma set_ancestors: "a \<in> set (ancestors path) \<longleftrightarrow> (\<exists>v. path = a @ slash # v)"
proof
  assume "a \<in> set (ancestors path)"
  then obtain i where i: "i < length path" "path ! i = slash" "a = take i path" by (auto simp: ancestors_def)
  then have "path = a @ slash # drop (Suc i) path" by (metis id_take_nth_drop)
  then show "\<exists>v. path = a @ slash # v" by blast
next
  assume "\<exists>v. path = a @ slash # v"
  then obtain v where path: "path = a @ slash # v" by blast
  then have "length a < length path" "path ! length a = slash" "a = take (length a) path"
    by simp_all
  then have "length a \<in> set (filter (\<lambda>i. path ! i = slash) [0..<length path])" by simp
  then show "a \<in> set (ancestors path)"
    unfolding ancestors_def set_map by (intro image_eqI [of _ _ "length a"]) (simp_all add: path)
qed

lemma dir_rule_below:
  assumes "dir_only r" and "rule_matches r dir True"
  shows "rule_matches r (dir @ slash # rest) b"
proof -
  have "\<exists>a \<in> set (ancestors (dir @ slash # rest)). matches_one r a"
    using assms by (force simp: rule_matches_def list_ex_iff set_ancestors)
  then show ?thesis using assms(1) by (auto simp: rule_matches_def list_ex_iff)
qed

text \<open>
  A directory that rules for directories ignore takes everything below it with it,
  files and directories at any depth; the walk that prunes it loses nothing that the rules keep.\<close>

theorem ignored_directory_is_closed:
  assumes "gitignoreMatches (filter dir_only rules) dir True"
  shows "gitignoreMatches rules (dir @ slash # rest) is_dir"
  using assms dir_rule_below by (auto simp: gitignoreMatches_iff)

theorem ignored_directory_is_closed_witness:
  "gitignoreMatches (snd (loadGitignore (Some [''*.log'', ''# trees'', ''**/build-*/'']) False []))
     ''src/build-x/a/b.c'' False"
  by (rule ignored_directory_is_closed [of _ "''src/build-x''" "''a/b.c''" False, simplified]) code_simp

section \<open>The exclude patterns of the environment\<close>

text \<open>\<open>loadExcludeEnv\<close>: a comma ends a pattern, a backslash before a comma or a backslash stands for
  that byte.  \<open>flush\<close> trims the blanks around a pattern; a pattern of blanks only has no first
  byte to keep and stays as it is.\<close>

definition blank :: "char \<Rightarrow> bool" where
  "blank c \<longleftrightarrow> c = CHR '' '' \<or> c = CHR 0x09"

definition flush_pattern :: "bytes \<Rightarrow> bytes list \<Rightarrow> bytes list" where
  "flush_pattern pat patterns =
     (let p = (if list_all blank pat then pat else trim_with blank pat)
      in if p \<noteq> [] then patterns @ [p] else patterns)"

fun exclude_scan :: "bytes \<Rightarrow> bytes \<Rightarrow> bytes list \<Rightarrow> bytes list" where
  "exclude_scan [] pat patterns = flush_pattern pat patterns"
| "exclude_scan (ch # raw) pat patterns =
     (if ch = CHR 0x5C \<and> raw \<noteq> [] \<and> (hd raw = CHR '','' \<or> hd raw = CHR 0x5C)
      then exclude_scan (tl raw) (pat @ [hd raw]) patterns
      else if ch = CHR '','' then exclude_scan raw [] (flush_pattern pat patterns)
      else exclude_scan raw (pat @ [ch]) patterns)"

definition loadExcludeEnv :: "bytes option \<Rightarrow> bytes list \<Rightarrow> bool \<times> bytes list" where
  "loadExcludeEnv env patterns =
     (case env of
        None \<Rightarrow> (False, patterns)
      | Some raw \<Rightarrow>
          if raw = [] then (False, patterns)
          else let ps = exclude_scan raw [] patterns in (ps \<noteq> [], ps))"

text \<open>The producer of the variable, in \<open>server/src/scheduler/worker.rs\<close>; its characters are the bytes of
  the UTF-8 text, where the two escaped characters are one byte each.\<close>

definition escape_exclude_pattern :: "bytes \<Rightarrow> bytes" where
  "escape_exclude_pattern pattern =
     concat (map (\<lambda>ch. if ch = CHR 0x5C \<or> ch = CHR '','' then [CHR 0x5C, ch] else [ch]) pattern)"

fun join_exclude_patterns :: "bytes list \<Rightarrow> bytes" where
  "join_exclude_patterns [] = []"
| "join_exclude_patterns [p] = escape_exclude_pattern p"
| "join_exclude_patterns (p # q # ps) = escape_exclude_pattern p @ CHR '','' # join_exclude_patterns (q # ps)"

definition trimmed :: "bytes \<Rightarrow> bool" where
  "trimmed p \<longleftrightarrow> p \<noteq> [] \<and> \<not> blank (hd p) \<and> \<not> blank (last p)"

lemma escape_simps [simp]:
  "escape_exclude_pattern [] = []"
  "escape_exclude_pattern (c # p) =
     (if c = CHR 0x5C \<or> c = CHR '','' then [CHR 0x5C, c] else [c]) @ escape_exclude_pattern p"
  by (simp_all add: escape_exclude_pattern_def)

lemma exclude_scan_escaped:
  "exclude_scan (escape_exclude_pattern p @ rest) pat patterns = exclude_scan rest (pat @ p) patterns"
  by (induction p arbitrary: pat) auto

lemma flush_trimmed: "trimmed p \<Longrightarrow> flush_pattern p ps = ps @ [p]"
proof -
  assume t: "trimmed p"
  then have "dropWhile blank p = p" by (cases p) (auto simp: trimmed_def)
  moreover have "dropWhile blank (rev p) = rev p" using t by (cases p rule: rev_cases) (auto simp: trimmed_def)
  ultimately have "trim_with blank p = p" by (simp add: trim_with_def)
  moreover have "\<not> list_all blank p" using t by (cases p) (auto simp: trimmed_def)
  ultimately show ?thesis using t by (simp add: flush_pattern_def trimmed_def)
qed

lemma exclude_scan_join:
  "ps \<noteq> [] \<Longrightarrow> list_all trimmed ps \<Longrightarrow> exclude_scan (join_exclude_patterns ps) [] qs = qs @ ps"
proof (induction ps arbitrary: qs rule: join_exclude_patterns.induct)
  case (2 p)
  then show ?case using exclude_scan_escaped [of p "[]" "[]"] by (simp add: flush_trimmed)
next
  case (3 p q ps)
  then show ?case by (simp add: exclude_scan_escaped flush_trimmed)
qed simp

text \<open>
  The exclude list that the scheduler hands to a worker arrives unchanged: whatever
  commas and backslashes the patterns contain, the engine reads back the same patterns in the same
  order, after the ones it already had.\<close>

theorem exclude_list_roundtrip:
  assumes "ps \<noteq> []" and "list_all trimmed ps"
  shows "loadExcludeEnv (Some (join_exclude_patterns ps)) loaded = (True, loaded @ ps)"
proof -
  have "join_exclude_patterns ps \<noteq> []"
    using assms by (cases ps rule: join_exclude_patterns.cases) (auto simp: trimmed_def neq_Nil_conv)
  then show ?thesis using exclude_scan_join [OF assms] assms(1) by (simp add: loadExcludeEnv_def)
qed

theorem exclude_list_roundtrip_witness:
  "loadExcludeEnv (Some (''a'' @ [CHR 0x5C] @ '',b/**,c:'' @ [CHR 0x5C, CHR 0x5C] @ ''d'')) [''x/**'']
     = (True, [''x/**'', ''a,b/**'', ''c:'' @ [CHR 0x5C] @ ''d''])"
  using exclude_list_roundtrip [of "[''a,b/**'', ''c:'' @ [CHR 0x5C] @ ''d'']" "[''x/**'']"]
  by (simp add: trimmed_def blank_def)

end
