(* ===== verification/Filter_Policy.thy ===== *)
theory Filter_Policy
  imports Glob
begin

text \<open>
  The file filter of the indexer (\<open>filter_policy.h\<close>, \<open>filter_policy.cpp\<close>, \<open>filter_policy_detect.cpp\<close>): the
  skip lists, the language filter, the checks on directories, files, suffixes, paths and entries, and
  the detection of the language of a file.

  An unordered set of strings is a list, whose order and duplicates the code never observes; the sets that the constructor
  fills and nothing changes afterwards are constants, the rest of the object is the record
  \<open>filter_policy\<close>.  The content of a file that \<open>detectLanguage\<close> probes is an argument: the first line of
  the file at a path, \<open>None\<close> when it does not open.  Paths hold no NUL byte.
\<close>

section \<open>The skip lists\<close>

definition lowercaseAll :: "bytes list \<Rightarrow> bytes list" where
  "lowercaseAll s = map lower s"

definition normal_skip_dirs :: "bytes list" where
  "normal_skip_dirs = lowercaseAll [
    ''.git'', ''.svn'', ''.hg'', ''.worktrees'', ''.claude-worktrees'', ''.vscode'', ''.idea'',
    ''.eclipse'', ''.claude'', ''Antigravity'', ''.clangd'', ''.ccls-cache'', ''.cache'',
    ''.cpcache'', ''.vs'', ''.shadow-cljs'', ''.metals'', ''.bloop'', ''.bsp'', ''.mypy_cache'',
    ''.pytest_cache'', ''.ruff_cache'', ''.nox'', ''.tox'', ''.eggs'', ''.cargo'', ''.stack-work'',
    ''.dart_tool'', ''zig-cache'', ''zig-out'', ''elm-stuff'', ''_opam'', ''.swiftpm'',
    ''.tscache'', ''.awcache'', ''.npm'', ''.nyc_output'', ''.pnpm-store'', ''.yarn'', ''.pnp'',
    ''.next'', ''.nuxt'', ''.svelte-kit'', ''.angular'', ''.turbo'', ''.parcel-cache'',
    ''.docusaurus'', ''.expo'', ''.nx'', ''node_modules'', ''bower_components'', ''jspm_packages'',
    ''.deno'', ''.bun'', ''.venv'', ''venv'', ''env'', ''.env'', ''__pycache__'', ''site-packages'',
    ''.virtualenv'', ''.virtualenvs'', ''build'', ''.build'', ''dist'', ''.dist'', ''out'',
    ''.out'', ''target'', ''Pods'', ''Carthage'', ''DerivedData'', ''bazel-bin'', ''bazel-out'',
    ''bazel-testlogs'', ''.gradle'', ''.buck'', ''.buck-out'', ''obj'', ''Debug'', ''Release'',
    ''_build'', ''.mvn'', ''cmake-build-debug'', ''cmake-build-release'', ''coverage'', ''htmlcov'',
    ''.terraform'', ''.terragrunt-cache'', ''.serverless'', ''.vercel'', ''.netlify'',
    ''.codescope'', ''.codegraph'', ''.qdrant_code_embeddings'', ''temp'', ''tmp'', ''.tmp'',
    ''.ssh'', ''.atomcode'', ''.workbuddy'', ''.gemini'', ''.opencode'', ''.cursh'', ''.github'',
    ''.circleci'', ''.gitlab-ci'', ''.bitbucket'', ''.azure-pipelines'', ''plan'', ''changelogs'',
    ''infra'', ''deploy'', ''deployment'', ''docker'', ''kubernetes'', ''k8s'', ''helm'',
    ''.devcontainer'', ''Runtimelog'', ''runtimelog'', ''llvm_ir'', ''_deps'', ''generated'',
    ''gen'', ''auto-generated'', ''fixtures'', ''testdata'', ''test_data'', ''__tests__'',
    ''__mocks__'', ''__snapshots__'', ''__fixtures__'', ''__test__'', ''bin'', ''third_party'',
    ''thirdparty'', ''3rdparty'', ''vendor'', ''vendored'', ''bench'', ''benchmark'',
    ''benchmarks'', ''test'', ''tests'', ''docs'', ''doc'', ''documentation'', ''examples'',
    ''example'', ''samples'', ''sample'', ''e2e'']"

definition fast_extra_skip_dirs :: "bytes list" where
  "fast_extra_skip_dirs = lowercaseAll [
    ''.output'', ''storybook-static'', ''__generated__'', ''playwright-report'', ''test-results'',
    ''allure-results'', ''allure-report'', ''.sass-cache'', ''.scss-cache'', ''logs'', ''.logs'']"

definition skip_dir_prefixes :: "bytes list" where
  "skip_dir_prefixes = lowercaseAll [
    ''build_'', ''cmake-build-'', ''_build'', ''tools-'', ''tools_'']"

definition skip_suffixes :: "bytes list" where
  "skip_suffixes = lowercaseAll [
    ''.o'', ''.obj'', ''.a'', ''.lib'', ''.so'', ''.dll'', ''.dylib'', ''.lo'', ''.la'', ''.slo'',
    ''.exe'', ''.bin'', ''.app'', ''.msi'', ''.scr'', ''.cpl'', ''.drv'', ''.ocx'', ''.efi'',
    ''.com'', ''.bat'', ''.cmd'', ''.ps1'', ''.deb'', ''.rpm'', ''.dmg'', ''.pkg'', ''.snap'',
    ''.flatpak'', ''.appimage'', ''.apk'', ''.aab'', ''.aar'', ''.ipa'', ''.xpi'', ''.crx'',
    ''.ko'', ''.kext'', ''.class'', ''.wasm'', ''.node'', ''.pyc'', ''.pyo'', ''.pyd'', ''.beam'',
    ''.elc'', ''.rlib'', ''.cmo'', ''.cma'', ''.cmi'', ''.cmx'', ''.hi'', ''.native'', ''.run'',
    ''.pdb'', ''.dbg'', ''.dwarf'', ''.dwo'', ''.sym'', ''.ilk'', ''.idb'', ''.exp'', ''.tlog'',
    ''.lastbuildstate'', ''.unsuccessfulbuild'', ''.png'', ''.jpg'', ''.jpeg'', ''.gif'', ''.ico'',
    ''.bmp'', ''.tiff'', ''.webp'', ''.svg'', ''.heic'', ''.heif'', ''.avif'', ''.raw'', ''.woff'',
    ''.woff2'', ''.ttf'', ''.eot'', ''.otf'', ''.mp3'', ''.mp4'', ''.avi'', ''.mov'', ''.wav'',
    ''.flac'', ''.ogg'', ''.mkv'', ''.webm'', ''.m4a'', ''.aac'', ''.m4v'', ''.wmv'', ''.pdf'',
    ''.doc'', ''.docx'', ''.xls'', ''.xlsx'', ''.ppt'', ''.pptx'', ''.odt'', ''.ods'', ''.odp'',
    ''.epub'', ''.zip'', ''.tar'', ''.gz'', ''.tgz'', ''.bz2'', ''.xz'', ''.rar'', ''.7z'', ''.lz'',
    ''.lzma'', ''.zst'', ''.cab'', ''.cpio'', ''.jar'', ''.war'', ''.ear'', ''.map'', ''.pem'',
    ''.crt'', ''.key'', ''.p12'', ''.pfx'', ''.jks'', ''.keystore'', ''.pb'', ''.avro'',
    ''.parquet'', ''.feather'', ''.orc'', ''.h5'', ''.hdf5'', ''.npy'', ''.npz'', ''.pkl'',
    ''.pickle'', ''.db'', ''.sqlite'', ''.sqlite3'', ''.mdb'', ''.accdb'', ''.log'', ''.tmp'',
    ''.swp'', ''.swo'', ''.bak'', ''.orig'', ''.rej'', ''.coverage'', ''.prof'', ''.profraw'',
    ''.gcda'', ''.gcno'', ''.gcov'', ''.iml'', ''.lock'', ''~'', ''.toml'', ''.yaml'', ''.yml'',
    ''.json'', ''.xml'', ''.ini'', ''.cfg'', ''.conf'', ''.properties'', ''.gradle'', ''.md'',
    ''.markdown'', ''.rst'', ''.adoc'', ''.tex'', ''.cmake'', ''.make'', ''.txt'', ''.csv'',
    ''.tsv'', ''.ll'', ''.bc'', ''.rmeta'', ''.d'', ''.graphql'', ''.gql'', ''.proto'',
    ''.dockerfile'', ''.service'', ''.socket'']"

definition fast_extra_suffixes :: "bytes list" where
  "fast_extra_suffixes = lowercaseAll [
    ''.min.js'', ''.min.css'']"

definition fast_extra_filenames :: "bytes list" where
  "fast_extra_filenames = lowercaseAll [
    ''.eslintcache'', ''.stylelintcache'', ''.prettiercache'', ''tsconfig.tsbuildinfo'']"

definition fast_extra_filename_prefixes :: "bytes list" where
  "fast_extra_filename_prefixes = lowercaseAll []"

definition skip_dir_suffixes :: "bytes list" where
  "skip_dir_suffixes = lowercaseAll [
    ''.app'', ''.framework'', ''.bundle'', ''.plugin'', ''.kext'', ''.xcodeproj'', ''.xcworkspace'',
    ''.xcdatamodeld'', ''.scnassets'', ''.xcassets'', ''.playground'', ''.playgroundpackage'',
    ''.docc'', ''.assetscatalog'']"

definition skip_filenames :: "bytes list" where
  "skip_filenames = lowercaseAll [
    ''package-lock.json'', ''yarn.lock'', ''pnpm-lock.yaml'', ''Gemfile.lock'', ''Cargo.lock'',
    ''composer.lock'', ''go.sum'', ''poetry.lock'', ''Pipfile.lock'', ''gradle.lockfile'',
    ''gradle.properties'', ''.DS_Store'', ''Thumbs.db'', ''desktop.ini'', ''.lsyncd.cfg'', ''.env'',
    ''.env.local'', ''.env.production'', ''.env.development'', ''.env.staging'', ''.env.test'',
    ''.env.example'', ''.npmrc'', ''.yarnrc'', ''.pypirc'', ''.netrc'', ''.p12'', ''.gitkeep'',
    ''.gitattributes'', ''.editorconfig'', ''yarn-error.log'', ''config.toml'', ''setup.cfg'',
    ''pyproject.toml'', ''docker-compose.yml'', ''docker-compose.yaml'', ''Dockerfile'',
    ''.gitconfig'', ''.npmignore'', ''.eslintignore'', ''.prettierignore'', ''.stylelintignore'',
    ''tsconfig.json'', ''jsconfig.json'', ''.babelrc'', ''.browserslistrc'', ''.node-version'',
    ''.python-version'', ''.tool-versions'', ''Makefile'', ''CMakeLists.txt'', ''GNUMakefile'']"

definition skip_filename_prefixes :: "bytes list" where
  "skip_filename_prefixes = lowercaseAll [
    ''.env.'', ''docker-compose.'']"

definition top_only_skip_dirs :: "bytes list" where
  "top_only_skip_dirs = lowercaseAll [
    ''scripts'', ''hack'', ''migrations'', ''seeds'', ''integration'', ''locale'', ''locales'',
    ''i18n'', ''l10n'', ''assets'', ''static'', ''public'', ''media'', ''external'']"

definition java_protected_skip_dirs :: "bytes list" where
  "java_protected_skip_dirs = lowercaseAll [
    ''test'', ''tests'', ''docs'', ''doc'', ''documentation'', ''examples'', ''example'',
    ''samples'', ''sample'', ''scripts'', ''hack'', ''migrations'', ''seeds'', ''e2e'',
    ''integration'', ''locale'', ''locales'', ''i18n'', ''l10n'', ''assets'', ''static'',
    ''public'', ''media'', ''external'', ''vendor'', ''vendored'', ''bench'', ''benchmarks'']"

section \<open>The policy object\<close>

datatype mode = NORMAL | FAST | STRICT

record filter_policy =
  filter_mode :: mode
  lang_filter_set :: "bytes list"
  has_lang_filter :: bool
  lang_context :: bytes
  active_skip_dirs :: "bytes list"
  ignore_patterns :: "bytes list"
  scan_prefix :: bytes
  gitignore_rules :: "gitignore_rule list"
  exclude_patterns :: "bytes list"

definition buildActiveSets :: "filter_policy \<Rightarrow> filter_policy" where
  "buildActiveSets f =
     f\<lparr>active_skip_dirs :=
        (if filter_mode f = FAST then normal_skip_dirs @ fast_extra_skip_dirs else normal_skip_dirs)\<rparr>"

definition new_policy :: filter_policy where
  "new_policy = buildActiveSets
     \<lparr>filter_mode = NORMAL, lang_filter_set = [], has_lang_filter = False, lang_context = [],
      active_skip_dirs = [], ignore_patterns = [], scan_prefix = [], gitignore_rules = [],
      exclude_patterns = []\<rparr>"

definition setMode :: "mode \<Rightarrow> filter_policy \<Rightarrow> filter_policy" where
  "setMode m f = buildActiveSets (f\<lparr>filter_mode := m\<rparr>)"

definition setLangContext :: "bytes \<Rightarrow> filter_policy \<Rightarrow> filter_policy" where
  "setLangContext lang f = f\<lparr>lang_context := lang\<rparr>"

definition setScanPrefix :: "bytes \<Rightarrow> filter_policy \<Rightarrow> filter_policy" where
  "setScanPrefix p f = f\<lparr>scan_prefix := p\<rparr>"

definition canonicalLang :: "bytes \<Rightarrow> bytes" where
  "canonicalLang s0 =
     (let s = lower (trim_with isspace_c s0)
      in if s = ''c'' \<or> s = ''c++'' \<or> s = ''cpp'' then ''cpp''
         else if s = ''js'' \<or> s = ''node'' \<or> s = ''javascript'' then ''javascript''
         else if s = ''ts'' \<or> s = ''typescript'' then ''typescript''
         else if s = ''py'' \<or> s = ''python'' then ''python''
         else if s = ''golang'' \<or> s = ''go'' then ''go''
         else if s = ''kt'' \<or> s = ''kts'' \<or> s = ''kotlin'' then ''kotlin''
         else if s = ''rb'' \<or> s = ''ruby'' then ''ruby''
         else if s = ''rs'' \<or> s = ''rust'' then ''rust''
         else s)"

definition setLanguageFilter :: "bytes \<Rightarrow> filter_policy \<Rightarrow> filter_policy" where
  "setLanguageFilter text f =
     (if text = [] then f\<lparr>has_lang_filter := False\<rparr>
      else f\<lparr>has_lang_filter := True,
             lang_filter_set := fold (\<lambda>lang s. if lang \<noteq> [] then List.insert lang s else s)
                                  (map canonicalLang (split_all CHR '','' text)) []\<rparr>)"

definition isLanguageAccepted :: "filter_policy \<Rightarrow> bytes \<Rightarrow> bool" where
  "isLanguageAccepted f lang \<longleftrightarrow> \<not> has_lang_filter f \<or> canonicalLang lang \<in> set (lang_filter_set f)"

text \<open>\<open>loadIgnoreFile\<close>; \<open>None\<close> for a file that does not open.\<close>

definition ignore_line :: "bytes \<Rightarrow> bytes option" where
  "ignore_line raw_line =
     (let l = rev (dropWhile (\<lambda>c. c = CHR 0x0D \<or> c = CHR 0x0A) (rev raw_line))
      in if l = [] \<or> hd l = CHR ''#'' then None else Some l)"

definition loadIgnoreFile :: "bytes list option \<Rightarrow> bool \<Rightarrow> filter_policy \<Rightarrow> bool \<times> filter_policy" where
  "loadIgnoreFile file_lines append_rules f =
     (case file_lines of
        None \<Rightarrow> (False, f)
      | Some ls \<Rightarrow>
          let ps = (if append_rules then ignore_patterns f else []) @ List.map_filter ignore_line ls
          in (ps \<noteq> [], f\<lparr>ignore_patterns := ps\<rparr>))"

definition policy_gitignore :: "bytes list option \<Rightarrow> bool \<Rightarrow> filter_policy \<Rightarrow> bool \<times> filter_policy" where
  "policy_gitignore file_lines append_rules f =
     (let (ok, rules) = loadGitignore file_lines append_rules (gitignore_rules f)
      in (ok, f\<lparr>gitignore_rules := rules\<rparr>))"

definition policy_exclude_env :: "bytes option \<Rightarrow> filter_policy \<Rightarrow> bool \<times> filter_policy" where
  "policy_exclude_env env f =
     (let (ok, ps) = loadExcludeEnv env (exclude_patterns f) in (ok, f\<lparr>exclude_patterns := ps\<rparr>))"

section \<open>Names and suffixes\<close>

definition shouldSkipDirPrefix :: "bytes \<Rightarrow> bool" where
  "shouldSkipDirPrefix dir_name = list_ex (\<lambda>pfx. prefix pfx dir_name) skip_dir_prefixes"

definition isJavaProtectedDir :: "bytes \<Rightarrow> bool" where
  "isJavaProtectedDir dir_name \<longleftrightarrow> lower dir_name \<in> set java_protected_skip_dirs"

definition shouldSkipDir :: "filter_policy \<Rightarrow> bytes \<Rightarrow> bool" where
  "shouldSkipDir f dir_name =
     (if lower dir_name \<in> set (active_skip_dirs f) then
        (if lang_context f = ''java'' \<and> lower dir_name \<in> set java_protected_skip_dirs then False else True)
      else shouldSkipDirPrefix (lower dir_name))"

definition shouldSkipFile :: "filter_policy \<Rightarrow> bytes \<Rightarrow> bool" where
  "shouldSkipFile f filename =
     (let l = lower filename
      in if l \<in> set skip_filenames then True
         else if filter_mode f = FAST \<and>
            (l \<in> set fast_extra_filenames \<or> list_ex (\<lambda>pfx. prefix pfx l) fast_extra_filename_prefixes) then True
         else if list_ex (\<lambda>pfx. prefix pfx l) skip_filename_prefixes then True
         else l \<noteq> [] \<and> last l = CHR ''~'')"

definition shouldSkipSuffix :: "filter_policy \<Rightarrow> bytes \<Rightarrow> bool" where
  "shouldSkipSuffix f ext =
     (if lower ext \<in> set skip_suffixes then True
      else filter_mode f = FAST \<and> lower ext \<in> set fast_extra_suffixes)"

definition shouldSkipDirSuffix :: "bytes \<Rightarrow> bool" where
  "shouldSkipDirSuffix dir_name =
     list_ex (\<lambda>sfx. length sfx \<le> length dir_name \<and> lower (drop (length dir_name - length sfx) dir_name) = sfx)
       skip_dir_suffixes"

definition isSourceFile :: "filter_policy \<Rightarrow> bytes \<Rightarrow> bool" where
  "isSourceFile f path =
     (case str_rfind CHR ''.'' path of
        None \<Rightarrow> False
      | Some dot \<Rightarrow>
          if shouldSkipSuffix f (drop dot path) then False
          else \<not> shouldSkipFile f (basename path))"

section \<open>The language of a file\<close>

definition shebang_language :: "bytes \<Rightarrow> bytes option" where
  "shebang_language first_line =
     (if 2 \<le> length first_line \<and> first_line ! 0 = CHR ''#'' \<and> first_line ! 1 = CHR ''!'' then
        let tail = (case str_rfind slash first_line of Some sp \<Rightarrow> drop (Suc sp) first_line | None \<Rightarrow> drop 2 first_line);
            interp = lower (takeWhile (\<lambda>c. c \<noteq> CHR '' '' \<and> c \<noteq> CHR 0x09 \<and> c \<noteq> CHR 0x0D \<and> c \<noteq> CHR 0x0A) tail)
        in if prefix ''python'' interp then Some ''python''
           else if interp = ''node'' \<or> interp = ''nodejs'' \<or> interp = ''deno'' then Some ''javascript''
           else if interp = ''bash'' \<or> interp = ''sh'' \<or> interp = ''zsh'' \<or> interp = ''ksh'' \<or> interp = ''fish''
             then Some ''bash''
           else if interp = ''ruby'' \<or> interp = ''rb'' then Some ''ruby''
           else if interp = ''perl'' \<or> interp = ''perl5'' then Some ''perl''
           else if interp = ''php'' then Some ''php''
           else if interp = ''lua'' then Some ''lua''
           else if interp = ''rscript'' \<or> interp = ''r'' then Some ''r''
           else if interp = ''awk'' \<or> interp = ''gawk'' \<or> interp = ''mawk'' then Some ''awk''
           else None
      else None)"

definition extension_language :: "bytes \<Rightarrow> bytes option" where
  "extension_language lext =
     (if lext = ''.py'' then Some ''python''
      else if lext = ''.cpp'' \<or> lext = ''.cc'' \<or> lext = ''.cxx'' then Some ''cpp''
      else if lext = ''.c'' then Some ''c''
      else if lext = ''.h'' \<or> lext = ''.hpp'' \<or> lext = ''.hxx'' \<or> lext = ''.hh'' then Some ''cpp''
      else if lext = ''.rs'' then Some ''rust''
      else if lext = ''.swift'' then Some ''swift''
      else if lext = ''.js'' \<or> lext = ''.mjs'' \<or> lext = ''.cjs'' then Some ''javascript''
      else if lext = ''.ts'' then Some ''typescript''
      else if lext = ''.tsx'' then Some ''tsx''
      else if lext = ''.go'' then Some ''go''
      else if lext = ''.java'' then Some ''java''
      else if lext = ''.kt'' \<or> lext = ''.kts'' then Some ''kotlin''
      else if lext = ''.rb'' then Some ''ruby''
      else if lext = ''.scala'' then Some ''scala''
      else None)"

text \<open>The name after the last separator of either kind.\<close>

definition file_name :: "bytes \<Rightarrow> bytes" where
  "file_name path =
     (case (str_rfind slash path, str_rfind CHR 0x5C path) of
        (None, None) \<Rightarrow> path
      | (Some i, None) \<Rightarrow> drop (Suc i) path
      | (None, Some j) \<Rightarrow> drop (Suc j) path
      | (Some i, Some j) \<Rightarrow> drop (Suc (max i j)) path)"

definition detectLanguage :: "(bytes \<Rightarrow> bytes option) \<Rightarrow> bytes \<Rightarrow> bytes option" where
  "detectLanguage first_line_of file_path =
     (if file_path = [] then None
      else case str_rfind CHR ''.'' file_path of
        None \<Rightarrow>
          (case first_line_of file_path of None \<Rightarrow> None | Some first_line \<Rightarrow> shebang_language first_line)
      | Some dot \<Rightarrow>
          let fname = file_name file_path
          in if 7 < length fname \<and> lower (drop (length fname - 7) fname) = ''.min.js'' then None
             else if 10 < length fname \<and> str_contains ''.bundle.js'' fname then None
             else if fname = ''vendor.js'' then None
             else extension_language (lower (drop dot file_path)))"

section \<open>Paths and entries\<close>

text \<open>The leading components that step 1b looks at: the text before the third slash, or the whole path
  when there are fewer.\<close>

fun head_loop :: "nat \<Rightarrow> bytes \<Rightarrow> nat \<Rightarrow> bytes" where
  "head_loop 0 rel_path off = take off rel_path"
| "head_loop (Suc n) rel_path off =
     (case str_find [slash] (drop off rel_path) of
        None \<Rightarrow> rel_path
      | Some k \<Rightarrow> head_loop n rel_path (off + k + 1))"

definition shallow_skip :: "filter_policy \<Rightarrow> bytes \<Rightarrow> bool" where
  "shallow_skip f rel_path =
     list_ex (\<lambda>comp. comp \<noteq> [] \<and>
         (comp \<in> set top_only_skip_dirs
          \<or> (lang_context f = ''java'' \<and> comp \<in> set java_protected_skip_dirs)))
       (getline_split slash (lower (head_loop 3 rel_path 0)))"

definition ignore_pattern_matches :: "bytes \<Rightarrow> bytes \<Rightarrow> bool" where
  "ignore_pattern_matches rule_path pat =
     (let dir = pat \<noteq> [] \<and> last pat = slash;
          anch = pat \<noteq> [] \<and> hd pat = slash;
          normalized = (if dir then butlast pat else pat)
      in if dir \<and> length pat \<le> 1 then False
         else if anch then
           rule_path = tl normalized \<or>
           (length normalized - 1 < length rule_path
            \<and> take (length normalized - 1) rule_path = tl normalized
            \<and> rule_path ! (length normalized - 1) = slash)
         else normalized \<in> set (getline_split slash rule_path))"

definition shouldSkipPath :: "filter_policy \<Rightarrow> bytes \<Rightarrow> bool \<Rightarrow> bool" where
  "shouldSkipPath f rel_path is_dir =
     (if rel_path = [] then False
      else if list_ex (shouldSkipDir f) (getline_split slash rel_path) then True
      else if shallow_skip f rel_path then True
      else
        let rule_path = (if scan_prefix f = [] then rel_path else scan_prefix f @ rel_path)
        in if gitignore_rules f \<noteq> [] \<and> gitignoreMatches (gitignore_rules f) rule_path is_dir then True
           else list_ex (ignore_pattern_matches rule_path) (ignore_patterns f))"

definition shouldSkipEntry :: "(bytes \<Rightarrow> bytes option) \<Rightarrow> filter_policy \<Rightarrow> bytes \<Rightarrow> bool \<Rightarrow> bool" where
  "shouldSkipEntry first_line_of f rel_path is_dir =
     (if rel_path = [] then False
      else
        let normalized = map (\<lambda>c. if c = CHR 0x5C then slash else c) rel_path;
            base = basename normalized
        in if shouldSkipPath f normalized is_dir then True
           else if is_dir \<and> shouldSkipDirSuffix base then True
           else if \<not> is_dir \<and> shouldSkipFile f base then True
           else if \<not> is_dir \<and>
               (case str_rfind CHR ''.'' base of None \<Rightarrow> False | Some dot \<Rightarrow> shouldSkipSuffix f (drop dot base)) then True
           else if \<not> is_dir \<and> filter_mode f = STRICT \<and> detectLanguage first_line_of normalized = None then True
           else list_ex (\<lambda>pat. globMatch pat normalized) (exclude_patterns f))"

section \<open>Components of a path\<close>

text \<open>\<open>std::getline\<close> drops only the empty piece after a trailing separator.\<close>

lemma split_all_below: "split_all sep (s @ sep # t) = split_all sep s @ split_all sep t"
  by (induction s) auto

lemma getline_split_Nil [simp]: "getline_split sep [] = []"
  by (simp add: getline_split.simps)

lemma getline_split_first:
  assumes "sep \<notin> set p"
  shows "getline_split sep (p @ sep # r) = p # getline_split sep r"
proof -
  have "takeWhile (\<lambda>c. c \<noteq> sep) (p @ sep # r) = p"
    using assms by (intro takeWhile_append_stop) auto
  then show ?thesis by (simp add: getline_split.simps [of sep "p @ sep # r"])
qed

lemma getline_split_single:
  assumes "sep \<notin> set s" and "s \<noteq> []"
  shows "getline_split sep s = [s]"
proof -
  have tw: "takeWhile (\<lambda>c. c \<noteq> sep) s = s" using assms(1) by (auto simp: takeWhile_eq_all_conv)
  show ?thesis unfolding getline_split.simps [of sep s] tw using assms(2) by simp
qed

lemma split_first_cases:
  obtains (single) "sep \<notin> set s" | (more) p r where "s = p @ sep # r" "sep \<notin> set p"
  by (meson split_list_first)

lemma getline_split_below:
  "getline_split sep (s @ sep # t) = split_all sep s @ getline_split sep t"
proof (induction "length s" arbitrary: s rule: less_induct)
  case less
  show ?case
  proof (cases rule: split_first_cases [of sep s])
    case single
    then show ?thesis by (simp add: getline_split_first split_all_single)
  next
    case (more p r)
    then show ?thesis using less [of r] by (simp add: getline_split_first split_all_append)
  qed
qed

lemma set_getline_split: "set (split_all sep s) = (if s = [] \<or> last s = sep then {[]} else {}) \<union> set (getline_split sep s)"
proof (induction "length s" arbitrary: s rule: less_induct)
  case less
  show ?case
  proof (cases rule: split_first_cases [of sep s])
    case single
    then show ?thesis using last_in_set [of s] by (cases "s = []") (auto simp: getline_split_single split_all_single)
  next
    case (more p r)
    then show ?thesis using less [of r] by (auto simp: getline_split_first split_all_append)
  qed
qed

lemma getline_split_subset: "set (getline_split sep s) \<subseteq> set (split_all sep s)"
  by (simp add: set_getline_split)

lemma set_getline_nonempty: "c \<noteq> [] \<Longrightarrow> c \<in> set (getline_split sep s) \<longleftrightarrow> c \<in> set (split_all sep s)"
  by (simp add: set_getline_split)

abbreviation components :: "bytes \<Rightarrow> bytes list" where
  "components \<equiv> split_all slash"

lemma tolower_slash [simp]: "tolower_c c = slash \<longleftrightarrow> c = slash"
proof -
  have "byte_of (tolower_c c) = 47 \<longleftrightarrow> byte_of c = 47"
    by (simp add: byte_of_tolower isupper_c_def)
  moreover have "byte_of slash = 47" by simp
  ultimately show ?thesis by (metis byte_of_eq_iff)
qed

lemma components_lower: "components (lower s) = map lower (components s)"
  by (induction s) (auto simp: hd_map simp flip: map_tl)

text \<open>The head of a path and its first components.\<close>

fun head_text :: "nat \<Rightarrow> bytes \<Rightarrow> bytes" where
  "head_text 0 s = []"
| "head_text (Suc n) s =
     (case str_find [slash] s of None \<Rightarrow> s | Some k \<Rightarrow> take (k + 1) s @ head_text n (drop (k + 1) s))"

lemma head_loop_text: "off \<le> length s \<Longrightarrow> head_loop n s off = take off s @ head_text n (drop off s)"
proof (induction n arbitrary: off)
  case (Suc n)
  show ?case
  proof (cases "str_find [slash] (drop off s)")
    case (Some k)
    then have k: "k < length s - off" by (auto simp: str_find_Some_iff prefix_def drop_eq_Nil2 simp flip: drop_drop)
       (metis append_Cons drop_all drop_drop list.discI not_less add.commute less_diff_conv)
    then have "off + k + 1 \<le> length s" by simp
    moreover have "take (off + (k + 1)) s = take off s @ take (k + 1) (drop off s)" by (rule take_add)
    ultimately show ?thesis using Some Suc.IH [of "off + k + 1"] by (simp add: add.assoc add.commute)
  qed simp
qed simp

lemma str_find_slash: "slash \<notin> set p \<Longrightarrow> str_find [slash] (p @ slash # r) = Some (length p)"
  by (induction p) auto

lemma str_find_no_slash: "slash \<notin> set s \<Longrightarrow> str_find [slash] s = None"
  by (induction s) auto

lemma head_components:
  "filter (\<lambda>c. c \<noteq> []) (components (head_text n s)) = filter (\<lambda>c. c \<noteq> []) (take n (components s))"
proof (induction n arbitrary: s)
  case (Suc n)
  show ?case
  proof (cases rule: split_first_cases [of slash s])
    case single
    then show ?thesis by (simp add: str_find_no_slash split_all_single)
  next
    case (more p r)
    then show ?thesis using Suc.IH [of r] by (simp add: str_find_slash split_all_append)
  qed
qed simp

lemma shallow_skip_iff:
  "shallow_skip f path \<longleftrightarrow>
     (\<exists>c \<in> set (take 3 (components path)). c \<noteq> [] \<and>
        (lower c \<in> set top_only_skip_dirs
         \<or> (lang_context f = ''java'' \<and> lower c \<in> set java_protected_skip_dirs)))"
proof -
  let ?Q = "\<lambda>c. lower c \<in> set top_only_skip_dirs \<or> (lang_context f = ''java'' \<and> lower c \<in> set java_protected_skip_dirs)"
  have "shallow_skip f path \<longleftrightarrow> (\<exists>c \<in> set (components (head_text 3 path)). c \<noteq> [] \<and> ?Q c)"
  proof -
    let ?h = "head_text 3 path"
    have "(\<exists>c \<in> set (getline_split slash (lower ?h)). c \<noteq> [] \<and> P c) \<longleftrightarrow>
        (\<exists>c \<in> set (components (lower ?h)). c \<noteq> [] \<and> P c)" for P
      using set_getline_nonempty [where s = "lower ?h" and sep = slash] by blast
    moreover have "(\<exists>c \<in> set (components (lower ?h)). c \<noteq> [] \<and> P c) \<longleftrightarrow>
        (\<exists>c \<in> set (components ?h). c \<noteq> [] \<and> P (lower c))" for P
      unfolding components_lower by simp
    moreover have "head_loop 3 path 0 = ?h" using head_loop_text [of 0 path 3] by simp
    ultimately show ?thesis unfolding shallow_skip_def list_ex_iff by simp
  qed
  also have "\<dots> \<longleftrightarrow> (\<exists>c \<in> set (filter (\<lambda>c. c \<noteq> []) (components (head_text 3 path))). ?Q c)" by auto
  also have "\<dots> \<longleftrightarrow> (\<exists>c \<in> set (take 3 (components path)). c \<noteq> [] \<and> ?Q c)"
    unfolding head_components by auto
  finally show ?thesis .
qed

section \<open>The policy object stays consistent\<close>

text \<open>The active set is the one the mode asks for, and no set of names contains the empty name.\<close>

definition policy_ok :: "filter_policy \<Rightarrow> bool" where
  "policy_ok f \<longleftrightarrow> f = buildActiveSets f"

lemma policy_ok_active:
  "policy_ok f \<longleftrightarrow>
     active_skip_dirs f =
       (if filter_mode f = FAST then normal_skip_dirs @ fast_extra_skip_dirs else normal_skip_dirs)"
proof
  assume "policy_ok f"
  then have "active_skip_dirs f = active_skip_dirs (buildActiveSets f)" by (simp add: policy_ok_def)
  then show "active_skip_dirs f =
       (if filter_mode f = FAST then normal_skip_dirs @ fast_extra_skip_dirs else normal_skip_dirs)"
    by (simp add: buildActiveSets_def)
qed (simp add: policy_ok_def buildActiveSets_def)

text \<open>The operations of the class that change the object.\<close>

datatype policy_call =
  SetMode mode
| SetLanguageFilter bytes
| SetLangContext bytes
| SetScanPrefix bytes
| LoadIgnoreFile "bytes list option" bool
| LoadGitignore "bytes list option" bool
| LoadExcludeEnv "bytes option"

fun run_policy_call :: "policy_call \<Rightarrow> filter_policy \<Rightarrow> filter_policy" where
  "run_policy_call (SetMode m) f = setMode m f"
| "run_policy_call (SetLanguageFilter t) f = setLanguageFilter t f"
| "run_policy_call (SetLangContext l) f = setLangContext l f"
| "run_policy_call (SetScanPrefix p) f = setScanPrefix p f"
| "run_policy_call (LoadIgnoreFile ls a) f = snd (loadIgnoreFile ls a f)"
| "run_policy_call (LoadGitignore ls a) f = snd (policy_gitignore ls a f)"
| "run_policy_call (LoadExcludeEnv e) f = snd (policy_exclude_env e f)"

definition policy_after :: "policy_call list \<Rightarrow> filter_policy" where
  "policy_after calls = fold run_policy_call calls new_policy"

lemma policy_call_ok: "policy_ok f \<Longrightarrow> policy_ok (run_policy_call c f)"
  by (cases c)
    (auto simp: policy_ok_active setMode_def buildActiveSets_def setLanguageFilter_def setLangContext_def
      setScanPrefix_def loadIgnoreFile_def policy_gitignore_def policy_exclude_env_def Let_def
      split: option.splits prod.splits)

lemma policy_after_ok: "policy_ok (policy_after calls)"
proof -
  have "policy_ok f \<Longrightarrow> policy_ok (fold run_policy_call calls f)" for f
    by (induction calls arbitrary: f) (auto intro: policy_call_ok)
  moreover have "policy_ok new_policy" by (simp add: new_policy_def policy_ok_active buildActiveSets_def)
  ultimately show ?thesis by (simp add: policy_after_def)
qed

lemma no_empty_names: "[] \<notin> set normal_skip_dirs" "[] \<notin> set fast_extra_skip_dirs" "\<not> shouldSkipDirPrefix []"
  by code_simp+

lemma empty_component: "policy_ok f \<Longrightarrow> \<not> shouldSkipDir f []"
  using no_empty_names by (auto simp: shouldSkipDir_def policy_ok_active)

section \<open>What the path check decides\<close>

lemma shouldSkipDir_iff:
  "shouldSkipDir f c \<longleftrightarrow>
     (lower c \<in> set (active_skip_dirs f) \<and> \<not> (lang_context f = ''java'' \<and> isJavaProtectedDir c))
     \<or> (lower c \<notin> set (active_skip_dirs f) \<and> (\<exists>p \<in> set skip_dir_prefixes. prefix p (lower c)))"
  by (simp add: shouldSkipDir_def shouldSkipDirPrefix_def isJavaProtectedDir_def list_ex_iff)

lemma skip_component_iff:
  assumes "policy_ok f"
  shows "list_ex (shouldSkipDir f) (getline_split slash path) \<longleftrightarrow>
     (\<exists>c \<in> set (components path).
        (lower c \<in> set (active_skip_dirs f) \<and> \<not> (lang_context f = ''java'' \<and> isJavaProtectedDir c))
        \<or> (lower c \<notin> set (active_skip_dirs f) \<and> (\<exists>p \<in> set skip_dir_prefixes. prefix p (lower c))))"
proof -
  have "list_ex (shouldSkipDir f) (getline_split slash path) \<longleftrightarrow> (\<exists>c \<in> set (components path). shouldSkipDir f c)"
    using empty_component [OF assms] set_getline_nonempty getline_split_subset by (metis list_ex_iff subsetD)
  then show ?thesis unfolding shouldSkipDir_iff .
qed

definition ignored_below :: "filter_policy \<Rightarrow> bytes \<Rightarrow> bool \<Rightarrow> bool" where
  "ignored_below f path d \<longleftrightarrow>
     gitignoreMatches (gitignore_rules f) (scan_prefix f @ path) d
     \<or> list_ex (ignore_pattern_matches (scan_prefix f @ path)) (ignore_patterns f)"

lemma shouldSkipPath_cases:
  "shouldSkipPath f path d \<longleftrightarrow>
     path \<noteq> [] \<and> (list_ex (shouldSkipDir f) (getline_split slash path) \<or> shallow_skip f path \<or> ignored_below f path d)"
  by (auto simp: shouldSkipPath_def ignored_below_def Let_def gitignoreMatches_def)

text \<open>
  (C13) A path is skipped exactly when one of its components at any depth is a skip
  directory of the mode and the language context, or one of its first three components is on the
  shallow list, or an ignore file matches the path under the scan prefix.  In a Java project the
  names that collide with packages are on the shallow list only.\<close>

theorem skip_path_exact:
  assumes "f = policy_after calls"
  shows "shouldSkipPath f path d \<longleftrightarrow> path \<noteq> [] \<and>
     ((\<exists>c \<in> set (components path).
         (lower c \<in> set (active_skip_dirs f) \<and> \<not> (lang_context f = ''java'' \<and> isJavaProtectedDir c))
         \<or> (lower c \<notin> set (active_skip_dirs f) \<and> (\<exists>p \<in> set skip_dir_prefixes. prefix p (lower c))))
      \<or> (\<exists>c \<in> set (take 3 (components path)). c \<noteq> [] \<and>
           (lower c \<in> set top_only_skip_dirs \<or> (lang_context f = ''java'' \<and> isJavaProtectedDir c)))
      \<or> gitignoreMatches (gitignore_rules f) (scan_prefix f @ path) d
      \<or> (\<exists>pat \<in> set (ignore_patterns f). ignore_pattern_matches (scan_prefix f @ path) pat))"
proof -
  have ok: "policy_ok f" using assms policy_after_ok by simp
  show ?thesis
    unfolding shouldSkipPath_cases skip_component_iff [OF ok] shallow_skip_iff ignored_below_def
    by (simp only: isJavaProtectedDir_def list_ex_iff)
qed

theorem skip_path_exact_witness:
  "\<not> shouldSkipPath (policy_after [SetLangContext ''java'']) ''a/b/c/samples'' True"
  unfolding skip_path_exact [OF refl] by code_simp

text \<open>An ignore pattern that names a directory holds for what is below it.\<close>

lemma ignore_pattern_below:
  assumes "ignore_pattern_matches rp pat"
  shows "ignore_pattern_matches (rp @ slash # rest) pat"
proof -
  define n where "n = (if pat \<noteq> [] \<and> last pat = slash then butlast pat else pat)"
  show ?thesis
  proof (cases "pat \<noteq> [] \<and> hd pat = slash")
    case True
    have "length n - 1 \<le> length rp \<and> take (length n - 1) rp = tl n"
      and "length rp = length n - 1 \<or> rp ! (length n - 1) = slash"
      using assms True unfolding ignore_pattern_matches_def Let_def n_def [symmetric]
      by (auto split: if_splits)
    then have "take (length n - 1) (rp @ slash # rest) = tl n \<and> (rp @ slash # rest) ! (length n - 1) = slash"
      by (cases "length rp = length n - 1") (auto simp: nth_append)
    moreover have "length n - 1 < length (rp @ slash # rest)"
      using \<open>length n - 1 \<le> length rp \<and> take (length n - 1) rp = tl n\<close> by simp
    ultimately show ?thesis using assms True unfolding ignore_pattern_matches_def Let_def n_def [symmetric]
      by (auto split: if_splits)
  next
    case False
    then have "n \<in> set (getline_split slash rp)"
      using assms unfolding ignore_pattern_matches_def Let_def n_def [symmetric] by (auto split: if_splits)
    then have "n \<in> set (getline_split slash (rp @ slash # rest))"
      using getline_split_subset by (auto simp: getline_split_below)
    then show ?thesis using assms False unfolding ignore_pattern_matches_def Let_def n_def [symmetric]
      by (auto split: if_splits)
  qed
qed

text \<open>A positive rule without a trailing slash that is a pattern or anchored and matches the path itself:
  the ancestors of a path are only tried for rules for directories.\<close>

definition only_itself :: "filter_policy \<Rightarrow> bytes \<Rightarrow> bool" where
  "only_itself f path \<longleftrightarrow>
     list_ex (\<lambda>r. \<not> negate r \<and> \<not> dir_only r \<and> (has_star r \<or> anchored r) \<and> matches_one r (scan_prefix f @ path)) (gitignore_rules f)"

definition normal_path :: "bytes \<Rightarrow> bytes" where
  "normal_path path = map (\<lambda>c. if c = CHR 0x5C then slash else c) path"

lemma normal_path_below: "normal_path (dir @ slash # rest) = normal_path dir @ slash # normal_path rest"
  by (simp add: normal_path_def)

lemma literal_rule_below:
  assumes "\<not> has_star r" "\<not> anchored r" "matches_one r p"
  shows "matches_one r (p @ slash # rest)"
proof -
  obtain i where i: "bounded_at (rule_pattern r) p i" using assms by (auto simp: matches_one_def literal_loop_iff)
  have "bounded_at (rule_pattern r) (p @ slash # rest) i"
  proof -
    have len: "i + length (rule_pattern r) \<le> length p"
      using i prefix_length_le [of "rule_pattern r" "drop i p"] by (simp add: bounded_at_def) linarith
    then show ?thesis using i by (auto simp: bounded_at_def nth_append)
  qed
  then show ?thesis using assms(1,2) by (auto simp: matches_one_def literal_loop_iff)
qed

lemma ignored_below_closed:
  assumes "ignored_below f dir True"
  shows "ignored_below f (dir @ slash # rest) d \<or> only_itself f dir"
proof (cases "gitignoreMatches (gitignore_rules f) (scan_prefix f @ dir) True")
  case True
  then obtain r where r: "r \<in> set (gitignore_rules f)" "\<not> negate r" "rule_matches r (scan_prefix f @ dir) True"
    by (auto simp: gitignoreMatches_iff)
  consider (directory) "dir_only r" | (name) "\<not> dir_only r" "\<not> has_star r" "\<not> anchored r"
    | (itself) "\<not> dir_only r" "has_star r \<or> anchored r" by blast
  then show ?thesis
  proof cases
    case directory
    then have "rule_matches r (scan_prefix f @ dir @ slash # rest) d"
      using dir_rule_below [OF directory r(3)] by simp
    then show ?thesis using r by (auto simp: ignored_below_def gitignoreMatches_iff)
  next
    case name
    then have "matches_one r (scan_prefix f @ dir @ slash # rest)"
      using literal_rule_below [OF name(2,3), of "scan_prefix f @ dir" rest] r(3) by (simp add: rule_matches_def)
    then have "rule_matches r (scan_prefix f @ dir @ slash # rest) d" using name(1) by (simp add: rule_matches_def)
    then show ?thesis using r by (auto simp: ignored_below_def gitignoreMatches_iff)
  next
    case itself
    then have "matches_one r (scan_prefix f @ dir)" using r(3) by (simp add: rule_matches_def)
    then show ?thesis using r itself by (auto simp: only_itself_def list_ex_iff)
  qed
next
  case False
  then show ?thesis
    using assms ignore_pattern_below [of "scan_prefix f @ dir" _ rest] by (auto simp: ignored_below_def list_ex_iff)
qed

lemma path_closed:
  assumes "shouldSkipPath f dir True"
  shows "shouldSkipPath f (dir @ slash # rest) d \<or> only_itself f dir"
proof -
  have "list_ex (shouldSkipDir f) (getline_split slash dir) \<Longrightarrow>
      list_ex (shouldSkipDir f) (getline_split slash (dir @ slash # rest))"
    using getline_split_subset by (fastforce simp: list_ex_iff getline_split_below)
  moreover have "set (take 3 (components dir)) \<subseteq> set (take 3 (components (dir @ slash # rest)))"
    by (auto simp: split_all_below)
  then have "shallow_skip f dir \<Longrightarrow> shallow_skip f (dir @ slash # rest)"
    unfolding shallow_skip_iff by blast
  ultimately show ?thesis using assms ignored_below_closed [of f dir rest d] by (auto simp: shouldSkipPath_cases)
qed

text \<open>
  (C12) What the pruning of a directory may lose against a check of the single paths: a directory skipped by
  the path check skips every path below it, unless it is ignored only by a rule of \<open>.gitignore\<close> that is a
  pattern or anchored and has no trailing slash; and a directory that the entry check of the walk prunes skips
  every entry below it, with the further exceptions of a skipped suffix of its name and of an exclude pattern
  that matches the directory itself.
\<close>

theorem skipped_directory_is_closed:
  "(shouldSkipPath f dir True \<longrightarrow> shouldSkipPath f (dir @ slash # rest) d \<or> only_itself f dir) \<and>
   (shouldSkipEntry fl f dir True \<longrightarrow>
      shouldSkipEntry fl f (dir @ slash # rest) d \<or> only_itself f (normal_path dir) \<or>
      shouldSkipDirSuffix (basename (normal_path dir)) \<or> list_ex (\<lambda>pat. globMatch pat (normal_path dir)) (exclude_patterns f))"
proof -
  have "shouldSkipEntry fl f (dir @ slash # rest) d" if "shouldSkipPath f (normal_path (dir @ slash # rest)) d"
    using that by (simp add: shouldSkipEntry_def Let_def normal_path_def)
  then show ?thesis
    using path_closed [of f dir rest d] path_closed [of f "normal_path dir" "normal_path rest" d]
    by (auto simp: shouldSkipEntry_def Let_def normal_path_def split: if_splits)
qed

theorem skipped_directory_is_closed_witness:
  "shouldSkipPath (policy_after [LoadGitignore (Some [''build-*/'']) False, LoadIgnoreFile (Some [''/core'']) False])
     ''core/api/x.c'' False"
proof -
  let ?f = "policy_after [LoadGitignore (Some [''build-*/'']) False, LoadIgnoreFile (Some [''/core'']) False]"
  have "shouldSkipPath ?f ''core'' True" "\<not> only_itself ?f ''core''" by code_simp+
  then show ?thesis using skipped_directory_is_closed [of ?f "''core''" "''api/x.c''" False] by simp
qed

text \<open>
  The exceptions are real: the rules \<open>*.d\<close> and \<open>/core\<close> of a \<open>.gitignore\<close> file ignore the directory, and git
  everything below it, but a check of a path below it keeps the path.
\<close>

theorem pattern_rule_not_closed:
  "shouldSkipPath (policy_after [LoadGitignore (Some [''*.d'']) False]) ''conf.d'' True \<and>
   \<not> shouldSkipPath (policy_after [LoadGitignore (Some [''*.d'']) False]) ''conf.d/x.c'' False \<and>
   shouldSkipPath (policy_after [LoadGitignore (Some [''/core'']) False]) ''core'' True \<and>
   \<not> shouldSkipPath (policy_after [LoadGitignore (Some [''/core'']) False]) ''core/x.c'' False"
  by code_simp

section \<open>The language filter and the detection of languages\<close>

lemma fold_insert_nonempty:
  "set (fold (\<lambda>lang s. if lang \<noteq> [] then List.insert lang s else s) xs acc) = set acc \<union> (set xs - {[]})"
  by (induction xs arbitrary: acc) auto

text \<open>
  A language passes the filter exactly when some non-blank entry of the comma-separated
  list names it up to case, surrounding white space and the aliases; an empty text accepts every
  language and a text of blank entries none.\<close>

theorem language_filter_spec:
  "isLanguageAccepted (setLanguageFilter text f) lang \<longleftrightarrow>
     text = [] \<or> (canonicalLang lang \<noteq> [] \<and> canonicalLang lang \<in> canonicalLang ` set (split_all CHR '','' text))"
  by (auto simp: isLanguageAccepted_def setLanguageFilter_def fold_insert_nonempty)

text \<open>
  A script that names its interpreter through \<open>env\<close> has no language: what is compared
  is the first word after the last slash of the line, and that is \<open>env\<close> itself, whatever interpreter
  follows.\<close>

theorem env_shebang_undetected:
  assumes "CHR ''.'' \<notin> set path" and "slash \<notin> set args"
  shows "detectLanguage (\<lambda>_. Some (''#!/usr/bin/env '' @ args)) path = None"
proof -
  have r: "str_rfind slash args = None" using assms(2) by (simp add: str_rfind_None_iff)
  have "shebang_language (''#!/usr/bin/env '' @ args) = None"
    by (simp add: shebang_language_def r tolower_c_code)
  moreover have "str_rfind CHR ''.'' path = None" using assms(1) by (simp add: str_rfind_None_iff)
  ultimately show ?thesis by (simp add: detectLanguage_def)
qed

theorem env_shebang_undetected_witness:
  "detectLanguage (\<lambda>_. Some ''#!/usr/bin/env python3'') ''/srv/tools/deploy'' = None"
  using env_shebang_undetected [of "''/srv/tools/deploy''" "''python3''"] by simp

text \<open>
  The mode never changes what the suffix check answers for the suffix that the callers
  hand to it.  They cut a name at its last dot, and every suffix that only the fast mode has contains
  two.\<close>

theorem fast_suffixes_unreachable:
  assumes "str_rfind CHR ''.'' base = Some dot"
  shows "shouldSkipSuffix (setMode m f) (drop dot base) = shouldSkipSuffix f (drop dot base)"
proof -
  have dot: "dot < length base" "base ! dot = CHR ''.''" and rest: "CHR ''.'' \<notin> set (drop (Suc dot) base)"
    using assms str_rfind_bound str_rfind_last by blast+
  have "CHR ''.'' \<notin> set (lower (drop (Suc dot) base))"
  proof
    assume "CHR ''.'' \<in> set (lower (drop (Suc dot) base))"
    then obtain c where "c \<in> set (drop (Suc dot) base)" "tolower_c c = CHR ''.''" by auto
    moreover have "byte_of (tolower_c c) = 46 \<Longrightarrow> byte_of c = 46"
      by (auto simp: byte_of_tolower isupper_c_def split: if_splits)
    ultimately have "c = CHR ''.''" by (simp add: byte_of_eq_iff [of c])
    then show False using rest \<open>c \<in> set (drop (Suc dot) base)\<close> by simp
  qed
  then have "CHR ''.'' \<notin> set (tl (lower (drop dot base)))"
    using dot by (simp add: Cons_nth_drop_Suc [symmetric])
  moreover have "CHR ''.'' \<in> set (tl x)" if "x \<in> set fast_extra_suffixes" for x
    using that by (auto simp: fast_extra_suffixes_def lowercaseAll_def tolower_c_code)
  ultimately have "lower (drop dot base) \<notin> set fast_extra_suffixes" by blast
  then show ?thesis by (simp add: shouldSkipSuffix_def setMode_def buildActiveSets_def)
qed

theorem fast_suffixes_unreachable_witness:
  "shouldSkipSuffix (setMode FAST new_policy) (drop 7 ''app.min.js'') = shouldSkipSuffix new_policy ''.js''"
  using fast_suffixes_unreachable [of "''app.min.js''" 7 FAST new_policy] by simp

text \<open>
  The exclude list is matched against the path inside the scanned directory; the scan
  prefix, which the ignore files are matched with, changes nothing for it.\<close>

theorem exclude_list_without_prefix:
  assumes "gitignore_rules f = []" and "ignore_patterns f = []"
  shows "shouldSkipEntry r (setScanPrefix p f) path d = shouldSkipEntry r f path d"
proof -
  have "shouldSkipDir (setScanPrefix p f) = shouldSkipDir f"
    by (intro ext) (simp add: shouldSkipDir_def setScanPrefix_def)
  then have "shouldSkipPath (setScanPrefix p f) path d = shouldSkipPath f path d" for path
    using assms by (simp add: shouldSkipPath_cases ignored_below_def shallow_skip_iff setScanPrefix_def gitignoreMatches_iff)
  moreover have "shouldSkipFile (setScanPrefix p f) b = shouldSkipFile f b"
    "shouldSkipSuffix (setScanPrefix p f) b = shouldSkipSuffix f b" for b
    by (simp_all add: shouldSkipFile_def shouldSkipSuffix_def setScanPrefix_def)
  moreover have "filter_mode (setScanPrefix p f) = filter_mode f" "exclude_patterns (setScanPrefix p f) = exclude_patterns f"
    by (simp_all add: setScanPrefix_def)
  ultimately show ?thesis by (simp only: shouldSkipEntry_def)
qed

theorem exclude_list_without_prefix_witness:
  "shouldSkipEntry r (setScanPrefix ''mod/'' (policy_after [LoadExcludeEnv (Some ''mod/*.c'')])) ''x.c'' False
     = shouldSkipEntry r (policy_after [LoadExcludeEnv (Some ''mod/*.c'')]) ''x.c'' False"
  by (rule exclude_list_without_prefix)
    (simp_all add: policy_after_def new_policy_def buildActiveSets_def policy_exclude_env_def split: prod.splits)

end
