(* ===== verification/Discovery.thy ===== *)
theory Discovery
  imports Filter_Policy Json_Writer
begin

text \<open>
  The discovery walk of the indexer (\<open>engine_index_discover.cpp\<close>, and \<open>applyProjectLanguageContext\<close> of
  \<open>filter_policy.cpp\<close>): the directory tree is walked in the order of the file system, the file filter
  prunes directories and drops files, and what is left becomes the list of jobs.

  The file system is a tree of entries in the order in which \<open>recursive_directory_iterator\<close> yields
  them; a \<open>Fault\<close> stands where the iterator or a question about the entry throws.  An entry that is no
  regular file and that the iterator does not enter (a socket, a link to a directory) is a
  \<open>Special\<close>.  The store is an argument: the walk only hands it the README files of the root.
\<close>

section \<open>The tree and the state\<close>

record file_info =
  stat_ok :: bool
  mtime :: int
  fsize :: nat
  content_hash :: bytes

datatype entry =
  File bytes file_info
| Dir bytes "entry list"
| Special bytes bool
| Fault bytes

record file_job =
  job_path :: bytes
  job_lang :: bytes
  job_size :: nat

record stats =
  seen_dirs :: nat
  seen_files :: nat
  skipped_dirs :: nat
  skipped_files :: nat
  skipped_lang :: nat
  candidate_files :: nat

record walk_state =
  policy :: filter_policy
  counters :: stats
  jobs :: "file_job list"
  is_reindex :: bool
  documents :: "bytes list"

section \<open>README files\<close>

definition kReadmeNames :: "bytes list" where
  "kReadmeNames = [''readme.md'', ''readme.markdown'', ''readme'']"

definition isReadmeName :: "bytes \<Rightarrow> bool" where
  "isReadmeName name \<longleftrightarrow> lower name \<in> set kReadmeNames"

text \<open>\<open>find_last_of\<close> with both separators, for the base name and the parent directory.\<close>

definition last_separator :: "bytes \<Rightarrow> nat option" where
  "last_separator path =
     (case (str_rfind slash path, str_rfind CHR 0x5C path) of
        (None, None) \<Rightarrow> None
      | (Some i, None) \<Rightarrow> Some i
      | (None, Some j) \<Rightarrow> Some j
      | (Some i, Some j) \<Rightarrow> Some (max i j))"

definition baseName :: "bytes \<Rightarrow> bytes" where
  "baseName path = (case last_separator path of None \<Rightarrow> path | Some i \<Rightarrow> drop (Suc i) path)"

definition parentDir :: "bytes \<Rightarrow> bytes" where
  "parentDir path = (case last_separator path of None \<Rightarrow> [] | Some i \<Rightarrow> take i path)"

section \<open>The language context\<close>

text \<open>\<open>std::filesystem::path::extension\<close> of a file name.\<close>

definition extension :: "bytes \<Rightarrow> bytes" where
  "extension name =
     (if name = ''.'' \<or> name = ''..'' then []
      else case str_rfind CHR ''.'' name of
             None \<Rightarrow> []
           | Some i \<Rightarrow> if i = 0 then [] else drop i name)"

text \<open>The scan for a \<open>.java\<close> file: \<open>Some True\<close> when one was found, \<open>None\<close> when the iterator failed.\<close>

fun java_entry :: "entry \<Rightarrow> bool option" and java_entries :: "entry list \<Rightarrow> bool option" where
  "java_entry (File name info) = Some (extension name = ''.java'')"
| "java_entry (Dir name es) = java_entries es"
| "java_entry (Special name d) = Some False"
| "java_entry (Fault msg) = None"
| "java_entries [] = Some False"
| "java_entries (e # es) = (if java_entry e = Some False then java_entries es else java_entry e)"

definition applyProjectLanguageContext :: "filter_policy \<Rightarrow> bytes \<Rightarrow> entry list \<Rightarrow> filter_policy" where
  "applyProjectLanguageContext f dir tree =
     (if dir = [] \<or> lang_context f = ''java'' then f
      else if java_entries tree = Some True then setLangContext ''java'' f else f)"

section \<open>The walk\<close>

text \<open>The gate of the incremental scan: the key of a file without and with the hash of its content.\<close>

definition scan_key :: "bytes \<Rightarrow> file_info \<Rightarrow> bytes" where
  "scan_key path info = path @ ''|'' @ to_string_int (mtime info) @ ''|'' @ to_string_nat (fsize info)"

definition file_unchanged :: "bytes set \<Rightarrow> bytes \<Rightarrow> file_info \<Rightarrow> bool" where
  "file_unchanged scan_state path info =
     (if stat_ok info \<and> scan_key path info \<in> scan_state
      then (if content_hash info \<noteq> [] then scan_key path info @ ''|'' @ content_hash info \<in> scan_state else True)
      else False)"

definition consider_file ::
  "(bytes \<Rightarrow> bytes option) \<Rightarrow> bytes set \<Rightarrow> bytes \<Rightarrow> file_info \<Rightarrow> walk_state \<Rightarrow> walk_state" where
  "consider_file first_line_of scan_state path info s0 =
     (let s = s0\<lparr>counters := (counters s0)\<lparr>seen_files := seen_files (counters s0) + 1\<rparr>\<rparr>
      in if file_unchanged scan_state path info
         then s\<lparr>is_reindex := True, counters := (counters s)\<lparr>skipped_files := skipped_files (counters s) + 1\<rparr>\<rparr>
         else
           (case detectLanguage first_line_of path of
              None \<Rightarrow> s\<lparr>counters := (counters s)\<lparr>skipped_lang := skipped_lang (counters s) + 1\<rparr>\<rparr>
            | Some lang \<Rightarrow>
                let s1 = (if lang = ''java'' \<and> lang_context (policy s) \<noteq> ''java''
                          then s\<lparr>policy := setLangContext ''java'' (policy s)\<rparr> else s)
                in if \<not> isLanguageAccepted (policy s1) lang
                   then s1\<lparr>counters := (counters s1)\<lparr>skipped_lang := skipped_lang (counters s1) + 1\<rparr>\<rparr>
                   else s1\<lparr>counters := (counters s1)\<lparr>candidate_files := candidate_files (counters s1) + 1\<rparr>,
                           jobs := jobs s1 @ [\<lparr>job_path = path, job_lang = lang, job_size = fsize info\<rparr>]\<rparr>))"

fun entry_is_dir :: "entry \<Rightarrow> bool" where
  "entry_is_dir (File name info) = False"
| "entry_is_dir (Dir name es) = True"
| "entry_is_dir (Special name d) = d"
| "entry_is_dir (Fault msg) = False"

fun entry_name :: "entry \<Rightarrow> bytes" where
  "entry_name (File name info) = name"
| "entry_name (Dir name es) = name"
| "entry_name (Special name d) = name"
| "entry_name (Fault msg) = []"

definition relative_to :: "bytes \<Rightarrow> bytes \<Rightarrow> bytes" where
  "relative_to dir path = (if length dir + 1 < length path then drop (length dir + 1) path else [])"

text \<open>One turn of the loop; the flag says that the recursion into the entry is disabled.\<close>

definition visit ::
  "(bytes \<Rightarrow> bytes option) \<Rightarrow> bytes set \<Rightarrow> bytes \<Rightarrow> bytes \<Rightarrow> entry \<Rightarrow> walk_state \<Rightarrow> bool \<times> walk_state" where
  "visit first_line_of scan_state dir path e s0 =
     (let s = (if entry_is_dir e
               then s0\<lparr>counters := (counters s0)\<lparr>seen_dirs := seen_dirs (counters s0) + 1\<rparr>\<rparr> else s0);
          rel = relative_to dir path;
          regular = (case e of File name info \<Rightarrow> True | _ \<Rightarrow> False)
      in if regular \<and> isReadmeName (baseName path) \<and> parentDir path = dir
         then (False, s\<lparr>documents := documents s @ [path]\<rparr>)
         else if rel \<noteq> [] \<and> shouldSkipEntry first_line_of (policy s) rel (entry_is_dir e)
         then (if entry_is_dir e
               then (True, s\<lparr>counters := (counters s)\<lparr>skipped_dirs := skipped_dirs (counters s) + 1\<rparr>\<rparr>)
               else (False, s\<lparr>counters := (counters s)\<lparr>skipped_files := skipped_files (counters s) + 1\<rparr>\<rparr>))
         else
           (case e of
              File name info \<Rightarrow> (False, consider_file first_line_of scan_state path info s)
            | _ \<Rightarrow> (False, s)))"

fun walk_entry ::
    "(bytes \<Rightarrow> bytes option) \<Rightarrow> bytes set \<Rightarrow> bytes \<Rightarrow> bytes \<Rightarrow> entry \<Rightarrow> walk_state \<Rightarrow> bytes option \<times> walk_state"
and walk_entries ::
    "(bytes \<Rightarrow> bytes option) \<Rightarrow> bytes set \<Rightarrow> bytes \<Rightarrow> bytes \<Rightarrow> entry list \<Rightarrow> walk_state \<Rightarrow> bytes option \<times> walk_state"
where
  "walk_entry fl sc dir parent_path (Fault msg) s = (Some msg, s)"
| "walk_entry fl sc dir parent_path (File name info) s =
     (None, snd (visit fl sc dir (parent_path @ slash # name) (File name info) s))"
| "walk_entry fl sc dir parent_path (Special name d) s =
     (None, snd (visit fl sc dir (parent_path @ slash # name) (Special name d) s))"
| "walk_entry fl sc dir parent_path (Dir name es) s =
     (let (pruned, s1) = visit fl sc dir (parent_path @ slash # name) (Dir name es) s
      in if pruned then (None, s1)
         else walk_entries fl sc dir (parent_path @ slash # name) es s1)"
| "walk_entries fl sc dir parent_path [] s = (None, s)"
| "walk_entries fl sc dir parent_path (e # es) s =
     (case walk_entry fl sc dir parent_path e s of
        (Some msg, s1) \<Rightarrow> (Some msg, s1)
      | (None, s1) \<Rightarrow> walk_entries fl sc dir parent_path es s1)"

text \<open>\<open>collectFileJobs\<close>: the returned code, the error report and the state.\<close>

definition collectFileJobs ::
  "(bytes \<Rightarrow> bytes option) \<Rightarrow> bytes set \<Rightarrow> bytes \<Rightarrow> entry list \<Rightarrow> walk_state \<Rightarrow> int \<times> bytes option \<times> walk_state" where
  "collectFileJobs first_line_of scan_state dir tree s0 =
     (let s = s0\<lparr>policy := applyProjectLanguageContext (policy s0) dir tree\<rparr>
      in case walk_entries first_line_of scan_state dir dir tree s of
           (None, s1) \<Rightarrow> (0, None, s1)
         | (Some msg, s1) \<Rightarrow>
             (-1, Some (okFalseEnvelope (Some ''ffi'') (Some ''engine_index_discover'') (''scan error: '' @ msg)), s1))"

section \<open>What the walk collects\<close>

text \<open>All files of a tree, pruned or not: the directories above the file, its path, name and data.\<close>

type_synonym tree_file = "bytes list \<times> bytes \<times> bytes \<times> file_info"

fun entry_files :: "bytes \<Rightarrow> bytes list \<Rightarrow> entry \<Rightarrow> tree_file list"
and entries_files :: "bytes \<Rightarrow> bytes list \<Rightarrow> entry list \<Rightarrow> tree_file list" where
  "entry_files p ds (File name info) = [(ds, p @ slash # name, name, info)]"
| "entry_files p ds (Dir name es) = entries_files (p @ slash # name) (ds @ [p @ slash # name]) es"
| "entry_files p ds (Special name d) = []"
| "entry_files p ds (Fault msg) = []"
| "entries_files p ds [] = []"
| "entries_files p ds (e # es) = entry_files p ds e @ entries_files p ds es"

fun entry_sound :: "entry \<Rightarrow> bool" and entries_sound :: "entry list \<Rightarrow> bool" where
  "entry_sound (File name info) = True"
| "entry_sound (Dir name es) = entries_sound es"
| "entry_sound (Special name d) = True"
| "entry_sound (Fault msg) = False"
| "entries_sound [] = True"
| "entries_sound (e # es) = (entry_sound e \<and> entries_sound es)"

definition root_readme :: "bytes \<Rightarrow> bytes \<Rightarrow> bool" where
  "root_readme dir path \<longleftrightarrow> isReadmeName (baseName path) \<and> parentDir path = dir"

definition wanted :: "(bytes \<Rightarrow> bytes option) \<Rightarrow> bytes set \<Rightarrow> bytes \<Rightarrow> filter_policy \<Rightarrow> tree_file \<Rightarrow> bool" where
  "wanted fl sc dir f x =
     (case x of (ds, path, name, info) \<Rightarrow>
        list_all (\<lambda>d. \<not> shouldSkipEntry fl f (relative_to dir d) True) ds
        \<and> \<not> root_readme dir path
        \<and> \<not> shouldSkipEntry fl f (relative_to dir path) False
        \<and> \<not> file_unchanged sc path info
        \<and> (case detectLanguage fl path of None \<Rightarrow> False | Some lang \<Rightarrow> isLanguageAccepted f lang))"

definition job_of :: "(bytes \<Rightarrow> bytes option) \<Rightarrow> tree_file \<Rightarrow> file_job" where
  "job_of fl x =
     (case x of (ds, path, name, info) \<Rightarrow>
        \<lparr>job_path = path, job_lang = the (detectLanguage fl path), job_size = fsize info\<rparr>)"

text \<open>The language context is settled: no file can change it any more.\<close>

definition settled :: "(bytes \<Rightarrow> bytes option) \<Rightarrow> filter_policy \<Rightarrow> tree_file list \<Rightarrow> bool" where
  "settled fl f xs \<longleftrightarrow>
     lang_context f = ''java'' \<or> list_all (\<lambda>(ds, path, name, info). detectLanguage fl path \<noteq> Some ''java'') xs"

lemma settled_simps [simp]:
  "settled fl f []" "settled fl f (xs @ ys) \<longleftrightarrow> settled fl f xs \<and> settled fl f ys"
  by (auto simp: settled_def)

lemma files_below:
  "x \<in> set (entry_files p ds e) \<Longrightarrow> set ds \<subseteq> set (fst x)"
  "x \<in> set (entries_files p ds es) \<Longrightarrow> set ds \<subseteq> set (fst x)"
  by (induction p ds e and p ds es rule: entry_files_entries_files.induct) auto

lemma skip_entry_root [simp]: "\<not> shouldSkipEntry fl f [] d"
  by (simp add: shouldSkipEntry_def)

lemma visit_dir:
  obtains s1 where
    "visit fl sc dir path (Dir name es) s = (shouldSkipEntry fl (policy s) (relative_to dir path) True, s1)"
    "policy s1 = policy s" "jobs s1 = jobs s"
  by (cases "visit fl sc dir path (Dir name es) s") (auto simp: visit_def Let_def split: if_splits)

lemma visit_special:
  "policy (snd (visit fl sc dir path (Special name d) s)) = policy s"
  "jobs (snd (visit fl sc dir path (Special name d) s)) = jobs s"
  by (auto simp: visit_def Let_def)

lemma visit_file:
  assumes "settled fl (policy s) [(ds, path, name, info)]"
    and "list_all (\<lambda>d. \<not> shouldSkipEntry fl (policy s) (relative_to dir d) True) ds"
  shows "policy (snd (visit fl sc dir path (File name info) s)) = policy s"
    and "jobs (snd (visit fl sc dir path (File name info) s)) =
           jobs s @ (if wanted fl sc dir (policy s) (ds, path, name, info) then [job_of fl (ds, path, name, info)] else [])"
  using assms
  by (auto simp: visit_def consider_file_def Let_def wanted_def job_of_def root_readme_def settled_def
      split: option.splits)

lemma walk_collects:
  "entry_sound e \<Longrightarrow> settled fl (policy s) (entry_files p ds e) \<Longrightarrow>
     list_all (\<lambda>d. \<not> shouldSkipEntry fl (policy s) (relative_to dir d) True) ds \<Longrightarrow>
     \<exists>s'. walk_entry fl sc dir p e s = (None, s') \<and> policy s' = policy s
       \<and> jobs s' = jobs s @ map (job_of fl) (filter (wanted fl sc dir (policy s)) (entry_files p ds e))"
  "entries_sound es \<Longrightarrow> settled fl (policy s) (entries_files p ds es) \<Longrightarrow>
     list_all (\<lambda>d. \<not> shouldSkipEntry fl (policy s) (relative_to dir d) True) ds \<Longrightarrow>
     \<exists>s'. walk_entries fl sc dir p es s = (None, s') \<and> policy s' = policy s
       \<and> jobs s' = jobs s @ map (job_of fl) (filter (wanted fl sc dir (policy s)) (entries_files p ds es))"
proof (induction fl sc dir p e s and fl sc dir p es s arbitrary: ds and ds rule: walk_entry_walk_entries.induct)
  case (1 fl sc dir p msg s)
  then show ?case by simp
next
  case (2 fl sc dir p name info s)
  then show ?case using visit_file [of fl s ds "p @ slash # name" name info dir sc] by simp
next
  case (3 fl sc dir p name d s)
  then show ?case by (simp add: visit_special)
next
  case (4 fl sc dir p name es s)
  let ?path = "p @ slash # name"
  obtain s1 where v: "visit fl sc dir ?path (Dir name es) s
        = (shouldSkipEntry fl (policy s) (relative_to dir ?path) True, s1)"
    and s1: "policy s1 = policy s" "jobs s1 = jobs s"
    by (rule visit_dir)
  show ?case
  proof (cases "shouldSkipEntry fl (policy s) (relative_to dir ?path) True")
    case True
    have "\<not> wanted fl sc dir (policy s) x" if "x \<in> set (entries_files ?path (ds @ [?path]) es)" for x
      using files_below(2) [OF that] True by (cases x) (auto simp: wanted_def list_all_iff)
    then have "filter (wanted fl sc dir (policy s)) (entries_files ?path (ds @ [?path]) es) = []" by simp
    then show ?thesis using True v s1 by simp
  next
    case False
    have "\<exists>s'. walk_entries fl sc dir ?path es s1 = (None, s') \<and> policy s' = policy s1
       \<and> jobs s' = jobs s1 @ map (job_of fl) (filter (wanted fl sc dir (policy s1)) (entries_files ?path (ds @ [?path]) es))"
      using 4(1) [of "(False, s1)" False s1 "ds @ [?path]"] 4(2-4) False v s1 by simp
    then show ?thesis using False v s1 by simp
  qed
next
  case (5 fl sc dir p s)
  then show ?case by simp
next
  case (6 fl sc dir p e es s)
  obtain s1 where s1: "walk_entry fl sc dir p e s = (None, s1)" "policy s1 = policy s"
    "jobs s1 = jobs s @ map (job_of fl) (filter (wanted fl sc dir (policy s)) (entry_files p ds e))"
    using 6(1) [of ds] 6(3-5) by auto
  then show ?case using 6(2) [OF s1(1) [symmetric] refl, of ds] s1 6(3-5) by auto
qed

text \<open>The pre-scan settles the context: when the files whose language is Java are the \<open>.java\<close> files, either
  one exists and the context is Java, or none does.\<close>

lemma java_scan:
  "entry_sound e \<Longrightarrow> java_entry e = Some (list_ex (\<lambda>(ds, path, name, info). extension name = ''.java'') (entry_files p ds e))"
  "entries_sound es \<Longrightarrow> java_entries es = Some (list_ex (\<lambda>(ds, path, name, info). extension name = ''.java'') (entries_files p ds es))"
  by (induction p ds e and p ds es rule: entry_files_entries_files.induct) auto

definition java_by_extension :: "(bytes \<Rightarrow> bytes option) \<Rightarrow> tree_file list \<Rightarrow> bool" where
  "java_by_extension fl xs \<longleftrightarrow>
     list_all (\<lambda>(ds, path, name, info). detectLanguage fl path = Some ''java'' \<longrightarrow> extension name = ''.java'') xs"

lemma context_settled:
  assumes "entries_sound tree" and "dir \<noteq> []" and "java_by_extension fl (entries_files dir [] tree)"
  shows "settled fl (applyProjectLanguageContext f dir tree) (entries_files dir [] tree)"
proof (cases "lang_context (applyProjectLanguageContext f dir tree) = ''java''")
  case False
  then have "\<not> list_ex (\<lambda>(ds, path, name, info). extension name = ''.java'') (entries_files dir [] tree)"
    using java_scan(2) [OF assms(1), of dir "[]"] assms(2)
    by (auto simp: applyProjectLanguageContext_def setLangContext_def split: if_splits)
  then show ?thesis
    using assms(3) by (fastforce simp: settled_def java_by_extension_def list_all_iff list_ex_iff)
qed (simp add: settled_def)

text \<open>
  (C7) The walk collects exactly the files it should: over a tree that the file system reports
  without an error, the jobs are, in the order of the tree, the files none of whose directories the
  filter skips, that the filter does not skip themselves, that are not the README of the root, that
  changed since the last scan and whose language is known and accepted.  The language context is that
  of the scan before the walk, and the walk does not change it, whatever the order of the entries.\<close>

theorem discovery_exact:
  assumes "entries_sound tree" and "dir \<noteq> []"
    and "java_by_extension first_line_of (entries_files dir [] tree)"
    and "f = applyProjectLanguageContext (policy s0) dir tree"
  shows "\<exists>s1. collectFileJobs first_line_of scan_state dir tree s0 = (0, None, s1) \<and> policy s1 = f
     \<and> jobs s1 = jobs s0 @ map (job_of first_line_of)
                   (filter (wanted first_line_of scan_state dir f) (entries_files dir [] tree))"
proof -
  let ?s = "s0\<lparr>policy := f\<rparr>"
  have "settled first_line_of (policy ?s) (entries_files dir [] tree)"
    using context_settled [OF assms(1-3)] assms(4) by simp
  from walk_collects(2) [OF assms(1) this, of dir scan_state]
  show ?thesis using assms(4) by (auto simp: collectFileJobs_def)
qed

definition sample_info :: file_info where
  "sample_info = \<lparr>stat_ok = True, mtime = 5, fsize = 7, content_hash = ''ab''\<rparr>"

definition sample_tree :: "entry list" where
  "sample_tree = [Dir ''build'' [File ''a.c'' sample_info], File ''README'' sample_info, File ''m.py'' sample_info]"

definition start_walk :: walk_state where
  "start_walk = \<lparr>policy = new_policy, counters = \<lparr>seen_dirs = 0, seen_files = 0, skipped_dirs = 0,
     skipped_files = 0, skipped_lang = 0, candidate_files = 0\<rparr>, jobs = [], is_reindex = False, documents = []\<rparr>"

theorem discovery_exact_witness:
  "jobs (snd (snd (collectFileJobs (\<lambda>_. None) {} ''/p'' sample_tree start_walk)))
     = [\<lparr>job_path = ''/p/m.py'', job_lang = ''python'', job_size = 7\<rparr>]"
proof -
  have "java_by_extension (\<lambda>_. None) (entries_files ''/p'' [] sample_tree)" by code_simp
  moreover have "filter (wanted (\<lambda>_. None) {} ''/p'' (applyProjectLanguageContext (policy start_walk) ''/p'' sample_tree))
      (entries_files ''/p'' [] sample_tree) = [([], ''/p/m.py'', ''m.py'', sample_info)]" by code_simp
  moreover have "job_of (\<lambda>_. None) ([], ''/p/m.py'', ''m.py'', sample_info)
      = \<lparr>job_path = ''/p/m.py'', job_lang = ''python'', job_size = 7\<rparr>" by code_simp
  moreover have "entries_sound sample_tree" by code_simp
  ultimately show ?thesis
    using discovery_exact [of sample_tree "''/p''" "\<lambda>_. None" _ start_walk "{}"]
    by (auto simp: start_walk_def)
qed

end
