(* ===== verification/Sched.thy ===== *)
theory Sched
  imports Prelude
begin

text \<open>
  The pool of processor cores that the indexing processes share (\<open>engine_index_sched.cpp\<close>) and the
  monitor thread of a parse phase that borrows cores from it (\<open>engine_index_project.cpp\<close>).

  \<open>available_cores\<close> is a 32-bit word in shared memory.  Every atomic operation on it, and on the
  counter of parse threads of a process, is one step; a thread between two operations is at the
  value of its program counter.  A weak compare-and-swap may fail although the word did not change.
  The processes are the indices of a finite set; what the scheduler of the server has claimed is
  the field \<open>outside\<close>.
\<close>

section \<open>State\<close>

type_synonym u32 = "32 word"

datatype monitor_pc =
  Polling
| Wanting
| Loaded u32
| Holding
| Counted
| Returned
| Stopped

record process =
  monitor :: monitor_pc
  active_parse_threads :: u32
  temps_running :: nat
  temps_leaving :: nat
  parse_done :: bool
  initial_cores :: u32

record machine =
  available_cores :: u32
  outside :: u32
  processes :: "nat \<Rightarrow> process"

text \<open>The number of cores one call takes, and the calls in one piece, as they are when no other process
  interferes.\<close>

definition grab_take :: "u32 \<Rightarrow> u32 \<Rightarrow> u32" where
  "grab_take max_want avail = min max_want avail"

definition grab_cores :: "u32 \<Rightarrow> u32 \<Rightarrow> u32 \<times> u32" where
  "grab_cores max_want avail =
     (if max_want = 0 then (0, avail)
      else if avail = 0 then (0, avail)
      else (grab_take max_want avail, avail - grab_take max_want avail))"

definition return_cores :: "u32 \<Rightarrow> u32 \<Rightarrow> u32" where
  "return_cores n avail = (if n = 0 then avail else avail + n)"

text \<open>The number of parse workers that a phase starts with.\<close>

definition kDefaultParseWorkers :: int where
  "kDefaultParseWorkers = 8"

definition num_workers :: "int \<Rightarrow> int \<Rightarrow> int option \<Rightarrow> int" where
  "num_workers job_count hardware env =
     (let n0 = min job_count hardware;
          n1 = (case env of
                  Some requested \<Rightarrow> if 0 < requested then min requested n0 else n0
                | None \<Rightarrow> min n0 kDefaultParseWorkers)
      in if n1 < 1 then 1 else n1)"

section \<open>Steps\<close>

definition set_process :: "nat \<Rightarrow> process \<Rightarrow> machine \<Rightarrow> machine" where
  "set_process p x s = s\<lparr>processes := (processes s)(p := x)\<rparr>"

text \<open>What one process does in one step: the word before and after, the process before and after.\<close>

inductive process_step :: "u32 \<Rightarrow> process \<Rightarrow> u32 \<Rightarrow> process \<Rightarrow> bool" where
  Poll: "\<not> parse_done x \<Longrightarrow> active_parse_threads x < initial_cores x * 2 \<Longrightarrow> monitor x = Polling \<Longrightarrow>
    process_step a x a (x\<lparr>monitor := Wanting\<rparr>)"
| Load_None: "monitor x = Wanting \<Longrightarrow> a = 0 \<Longrightarrow> process_step a x a (x\<lparr>monitor := Polling\<rparr>)"
| Load: "monitor x = Wanting \<Longrightarrow> a \<noteq> 0 \<Longrightarrow> process_step a x a (x\<lparr>monitor := Loaded a\<rparr>)"
| Swap: "monitor x = Loaded avail \<Longrightarrow> a = avail \<Longrightarrow>
    process_step a x (avail - grab_take 1 avail) (x\<lparr>monitor := Holding\<rparr>)"
| Swap_Fails: "monitor x = Loaded avail \<Longrightarrow> process_step a x a (x\<lparr>monitor := Wanting\<rparr>)"
| Count_Thread: "monitor x = Holding \<Longrightarrow>
    process_step a x a (x\<lparr>monitor := Counted, active_parse_threads := active_parse_threads x + 1\<rparr>)"
| Spawn: "monitor x = Counted \<Longrightarrow>
    process_step a x a (x\<lparr>monitor := Polling, temps_running := temps_running x + 1\<rparr>)"
| Spawn_Fails: "monitor x = Counted \<Longrightarrow>
    process_step a x (return_cores 1 a) (x\<lparr>monitor := Returned\<rparr>)"
| Uncount: "monitor x = Returned \<Longrightarrow>
    process_step a x a (x\<lparr>monitor := Polling, active_parse_threads := active_parse_threads x - 1\<rparr>)"
| Temp_Returns: "0 < temps_running x \<Longrightarrow>
    process_step a x (return_cores 1 a)
      (x\<lparr>temps_running := temps_running x - 1, temps_leaving := temps_leaving x + 1\<rparr>)"
| Temp_Leaves: "0 < temps_leaving x \<Longrightarrow>
    process_step a x a
      (x\<lparr>temps_leaving := temps_leaving x - 1, active_parse_threads := active_parse_threads x - 1\<rparr>)"
| Finish: "process_step a x a (x\<lparr>parse_done := True\<rparr>)"
| Stop: "parse_done x \<Longrightarrow> monitor x = Polling \<Longrightarrow> process_step a x a (x\<lparr>monitor := Stopped\<rparr>)"

inductive machine_step :: "nat set \<Rightarrow> machine \<Rightarrow> machine \<Rightarrow> bool" for P where
  Process: "p \<in> P \<Longrightarrow> process_step (available_cores s) (processes s p) a x \<Longrightarrow>
    machine_step P s (s\<lparr>available_cores := a, processes := (processes s)(p := x)\<rparr>)"
| Claim: "n \<le> available_cores s \<Longrightarrow>
    machine_step P s (s\<lparr>available_cores := available_cores s - n, outside := outside s + n\<rparr>)"
| Release: "n \<le> outside s \<Longrightarrow>
    machine_step P s (s\<lparr>available_cores := available_cores s + n, outside := outside s - n\<rparr>)"

definition fresh_process :: "process \<Rightarrow> bool" where
  "fresh_process x \<longleftrightarrow> monitor x = Polling \<and> active_parse_threads x = 0 \<and> temps_running x = 0
     \<and> temps_leaving x = 0 \<and> \<not> parse_done x \<and> unat (initial_cores x) * 2 < 2 ^ 32"

definition starts :: "nat set \<Rightarrow> nat \<Rightarrow> machine \<Rightarrow> bool" where
  "starts P total_cores s \<longleftrightarrow>
     unat (available_cores s) + unat (outside s) = total_cores \<and> (\<forall>p \<in> P. fresh_process (processes s p))"

definition reachable :: "nat set \<Rightarrow> nat \<Rightarrow> machine \<Rightarrow> bool" where
  "reachable P total_cores s \<longleftrightarrow> (\<exists>s0. starts P total_cores s0 \<and> (machine_step P)\<^sup>*\<^sup>* s0 s)"

section \<open>Invariant\<close>

text \<open>The cores a process holds, and the threads its counter stands for.\<close>

definition cores_of :: "process \<Rightarrow> nat" where
  "cores_of x = temps_running x + (if monitor x = Holding \<or> monitor x = Counted then 1 else 0)"

definition threads_of :: "process \<Rightarrow> nat" where
  "threads_of x =
     temps_running x + temps_leaving x + (if monitor x = Counted \<or> monitor x = Returned then 1 else 0)"

definition about_to_count :: "monitor_pc \<Rightarrow> bool" where
  "about_to_count m \<longleftrightarrow> m = Wanting \<or> m = Holding \<or> (\<exists>a. m = Loaded a)"

definition process_ok :: "process \<Rightarrow> bool" where
  "process_ok x \<longleftrightarrow>
     unat (initial_cores x) * 2 < 2 ^ 32 \<and> unat (active_parse_threads x) = threads_of x
     \<and> threads_of x \<le> unat (initial_cores x) * 2
     \<and> (about_to_count (monitor x) \<longrightarrow> threads_of x < unat (initial_cores x) * 2)
     \<and> (\<forall>a. monitor x = Loaded a \<longrightarrow> a \<noteq> 0)"

definition machine_ok :: "nat set \<Rightarrow> nat \<Rightarrow> machine \<Rightarrow> bool" where
  "machine_ok P total_cores s \<longleftrightarrow>
     unat (available_cores s) + unat (outside s) + (\<Sum>p \<in> P. cores_of (processes s p)) = total_cores
     \<and> (\<forall>p \<in> P. process_ok (processes s p))"

lemma unat_inc: "unat (a :: u32) + 1 < 2 ^ 32 \<Longrightarrow> unat (a + 1) = unat a + 1"
  by (simp add: unat_word_ariths)

lemma unat_dec: "0 < unat (a :: u32) \<Longrightarrow> unat (a - 1) = unat a - 1"
  by (metis unat_minus_one unat_0 less_numeral_extra(3))

lemma unat_move_up: "unat (a :: u32) + unat n < 2 ^ 32 \<Longrightarrow> unat (a + n) = unat a + unat n"
  by (simp add: unat_word_ariths)

lemma unat_move_down: "(n :: u32) \<le> a \<Longrightarrow> unat (a - n) = unat a - unat n"
  by (rule unat_sub)

lemma unat_twice: "unat (a :: u32) * 2 < 2 ^ 32 \<Longrightarrow> unat (a * 2) = unat a * 2"
  by (simp add: unat_word_ariths)

lemma grab_one: "(a :: u32) \<noteq> 0 \<Longrightarrow> grab_take 1 a = 1"
  by (simp add: grab_take_def min_def word_le_nat_alt) (metis One_nat_def less_one not_le unat_eq_zero)

text \<open>One step of a process moves cores between the word and the process, and keeps its counter.\<close>

lemma process_step_ok:
  assumes "process_step a x b y" and "process_ok x" and "unat a + cores_of x \<le> total_cores" and "total_cores < 2 ^ 32"
  shows "process_ok y \<and> unat b + cores_of y = unat a + cores_of x"
  using assms
proof (induction rule: process_step.induct)
  case (Poll x a)
  then have "threads_of x < unat (initial_cores x) * 2"
    by (simp add: process_ok_def word_less_nat_alt unat_twice)
  then show ?case using Poll by (simp add: process_ok_def threads_of_def cores_of_def about_to_count_def)
next
  case (Swap x avail a)
  then have "avail \<noteq> 0" by (simp add: process_ok_def)
  then have "unat (avail - grab_take 1 avail) = unat avail - 1" "0 < unat avail"
    by (simp_all add: grab_one unat_dec unat_gt_0)
  then show ?case using Swap by (auto simp: process_ok_def threads_of_def cores_of_def about_to_count_def)
next
  case (Count_Thread x a)
  then have "unat (active_parse_threads x + 1) = unat (active_parse_threads x) + 1"
    by (intro unat_inc) (auto simp: process_ok_def about_to_count_def)
  then show ?case
    using Count_Thread by (auto simp: process_ok_def threads_of_def cores_of_def about_to_count_def)
next
  case (Spawn_Fails x a)
  then have "unat (a + 1) = unat a + 1"
    by (intro unat_inc) (auto simp: cores_of_def)
  then show ?case
    using Spawn_Fails by (auto simp: process_ok_def threads_of_def cores_of_def about_to_count_def return_cores_def)
next
  case (Uncount x a)
  then have "unat (active_parse_threads x - 1) = unat (active_parse_threads x) - 1"
    by (intro unat_dec) (auto simp: process_ok_def threads_of_def)
  then show ?case
    using Uncount by (auto simp: process_ok_def threads_of_def cores_of_def about_to_count_def)
next
  case (Temp_Returns x a)
  then have "unat (a + 1) = unat a + 1"
    by (intro unat_inc) (auto simp: cores_of_def)
  then show ?case
    using Temp_Returns by (auto simp: process_ok_def threads_of_def cores_of_def about_to_count_def return_cores_def)
next
  case (Temp_Leaves x a)
  then have "unat (active_parse_threads x - 1) = unat (active_parse_threads x) - 1"
    by (intro unat_dec) (auto simp: process_ok_def threads_of_def)
  then show ?case
    using Temp_Leaves by (auto simp: process_ok_def threads_of_def cores_of_def about_to_count_def)
qed (auto simp: process_ok_def threads_of_def cores_of_def about_to_count_def)

lemma sum_update:
  assumes "finite P" and "p \<in> P"
  shows "(\<Sum>q \<in> P. (f :: process \<Rightarrow> nat) ((g(p := x)) q)) + f (g p) = (\<Sum>q \<in> P. f (g q)) + f x"
proof -
  have "(\<Sum>q \<in> P. f ((g(p := x)) q)) = f x + (\<Sum>q \<in> P - {p}. f (g q))"
    using assms by (simp add: sum.remove)
  moreover have "(\<Sum>q \<in> P. f (g q)) = f (g p) + (\<Sum>q \<in> P - {p}. f (g q))"
    using assms by (simp add: sum.remove)
  ultimately show ?thesis by simp
qed

lemma machine_step_ok:
  assumes "machine_step P s t" and "finite P" and "total_cores < 2 ^ 32" and "machine_ok P total_cores s"
  shows "machine_ok P total_cores t"
  using assms
proof (induction rule: machine_step.induct)
  case (Process p s a x)
  have "cores_of (processes s p) \<le> (\<Sum>q \<in> P. cores_of (processes s q))"
    using Process by (intro member_le_sum) auto
  then have le: "unat (available_cores s) + cores_of (processes s p) \<le> total_cores"
    using Process(5) by (simp add: machine_ok_def)
  have "process_ok (processes s p)" using Process by (simp add: machine_ok_def)
  from process_step_ok [OF Process(2) this le Process(4)]
  have x: "process_ok x" "unat a + cores_of x = unat (available_cores s) + cores_of (processes s p)" by auto
  then show ?case
    using Process(5) sum_update [OF Process(3,1), of cores_of "processes s" x]
    by (auto simp: machine_ok_def)
next
  case (Claim n s)
  then have n: "unat (available_cores s - n) = unat (available_cores s) - unat n" "unat n \<le> unat (available_cores s)"
    by (simp_all add: unat_move_down word_le_nat_alt)
  then have "unat (outside s + n) = unat (outside s) + unat n"
    using Claim by (intro unat_move_up) (auto simp: machine_ok_def)
  then show ?case using n Claim by (simp add: machine_ok_def)
next
  case (Release n s)
  then have n: "unat (outside s - n) = unat (outside s) - unat n" "unat n \<le> unat (outside s)"
    by (simp_all add: unat_move_down word_le_nat_alt)
  then have "unat (available_cores s + n) = unat (available_cores s) + unat n"
    using Release by (intro unat_move_up) (auto simp: machine_ok_def)
  then show ?case using n Release by (simp add: machine_ok_def)
qed

lemma reachable_ok:
  assumes "reachable P total_cores s" and "finite P" and "total_cores < 2 ^ 32"
  shows "machine_ok P total_cores s"
proof -
  obtain s0 where s0: "starts P total_cores s0" "(machine_step P)\<^sup>*\<^sup>* s0 s"
    using assms(1) by (auto simp: reachable_def)
  have "machine_ok P total_cores s0"
    using s0(1) by (auto simp: starts_def machine_ok_def fresh_process_def process_ok_def threads_of_def
        cores_of_def about_to_count_def)
  with s0(2) show ?thesis
    by (induction rule: rtranclp_induct) (auto intro: machine_step_ok [OF _ assms(2,3)])
qed

section \<open>Properties\<close>

text \<open>
  (C30) No core is lost or handed out twice: however the steps of the processes and of the scheduler
  interleave, the cores in the pool, those the scheduler holds and those the processes hold add up
  to the number at the start, so the word never wraps; and no process runs more temporary threads
  than twice its initial cores.\<close>

theorem cores_conserved:
  assumes "reachable P total_cores s" and "finite P" and "total_cores < 2 ^ 32"
  shows "unat (available_cores s) + unat (outside s) + (\<Sum>p \<in> P. cores_of (processes s p)) = total_cores
     \<and> (\<forall>p \<in> P. temps_running (processes s p) \<le> 2 * unat (initial_cores (processes s p)))"
  using reachable_ok [OF assms] by (auto simp: machine_ok_def process_ok_def threads_of_def)

text \<open>A run of one process: it borrows one of two cores, its phase is told to finish and ends.\<close>

definition sample_process :: "monitor_pc \<Rightarrow> u32 \<Rightarrow> nat \<Rightarrow> nat \<Rightarrow> bool \<Rightarrow> process" where
  "sample_process m act running leaving fin =
     \<lparr>monitor = m, active_parse_threads = act, temps_running = running, temps_leaving = leaving,
      parse_done = fin, initial_cores = 1\<rparr>"

definition sample_machine :: "u32 \<Rightarrow> process \<Rightarrow> machine" where
  "sample_machine a x =
     \<lparr>available_cores = a, outside = 0, processes = (\<lambda>_. sample_process Polling 0 0 0 False)(0 := x)\<rparr>"

lemma sample_start: "reachable {0} 2 (sample_machine 2 (sample_process Polling 0 0 0 False))"
  unfolding reachable_def
  by (intro exI conjI, rule_tac [2] rtranclp.rtrancl_refl)
    (simp add: starts_def sample_machine_def sample_process_def fresh_process_def)

lemma sample_step:
  assumes "reachable {0} 2 (sample_machine a x)" and "process_step a x b y"
  shows "reachable {0} 2 (sample_machine b y)"
proof -
  have "machine_step {0} (sample_machine a x) (sample_machine b y)"
    using Process [of 0 "{0}" "sample_machine a x" b y] assms(2) by (simp add: sample_machine_def)
  then show ?thesis using assms(1) unfolding reachable_def by (meson rtranclp.rtrancl_into_rtrancl)
qed

lemma sample_borrowed: "reachable {0} 2 (sample_machine 1 (sample_process Holding 0 0 0 False))"
proof -
  have "reachable {0} 2 (sample_machine 2 (sample_process Wanting 0 0 0 False))"
    by (rule sample_step [OF sample_start])
      (use Poll [of "sample_process Polling 0 0 0 False" 2] in \<open>simp add: sample_process_def\<close>)
  then have "reachable {0} 2 (sample_machine 2 (sample_process (Loaded 2) 0 0 0 False))"
    by (rule sample_step)
      (use Load [of "sample_process Wanting 0 0 0 False" 2] in \<open>simp add: sample_process_def\<close>)
  then show ?thesis
    by (rule sample_step)
      (use Swap [of "sample_process (Loaded 2) 0 0 0 False" 2 2] in \<open>simp add: sample_process_def grab_take_def\<close>)
qed

lemma sample_told: "reachable {0} 2 (sample_machine 1 (sample_process Polling 1 1 0 True))"
proof -
  have "reachable {0} 2 (sample_machine 1 (sample_process Counted 1 0 0 False))"
    by (rule sample_step [OF sample_borrowed])
      (use Count_Thread [of "sample_process Holding 0 0 0 False" 1] in \<open>simp add: sample_process_def\<close>)
  then have "reachable {0} 2 (sample_machine 1 (sample_process Polling 1 1 0 False))"
    by (rule sample_step)
      (use Spawn [of "sample_process Counted 1 0 0 False" 1] in \<open>simp add: sample_process_def\<close>)
  then show ?thesis
    by (rule sample_step)
      (use Finish [of 1 "sample_process Polling 1 1 0 False"] in \<open>simp add: sample_process_def\<close>)
qed

lemma sample_ended: "reachable {0} 2 (sample_machine 2 (sample_process Stopped 0 0 0 True))"
proof -
  have "reachable {0} 2 (sample_machine 2 (sample_process Polling 1 0 1 True))"
    by (rule sample_step [OF sample_told])
      (use Temp_Returns [of "sample_process Polling 1 1 0 True" 1] in \<open>simp add: sample_process_def return_cores_def\<close>)
  then have "reachable {0} 2 (sample_machine 2 (sample_process Polling 0 0 0 True))"
    by (rule sample_step)
      (use Temp_Leaves [of "sample_process Polling 1 0 1 True" 2] in \<open>simp add: sample_process_def\<close>)
  then show ?thesis
    by (rule sample_step)
      (use Stop [of "sample_process Polling 0 0 0 True" 2] in \<open>simp add: sample_process_def\<close>)
qed

theorem cores_conserved_witness:
  "unat (1 :: u32) + cores_of (sample_process Holding 0 0 0 False) = 2"
  using cores_conserved [OF sample_borrowed] by (simp add: sample_machine_def)

text \<open>
  (C31) When a parse phase ends, its cores are back: once the monitor has stopped and the counter of
  parse threads reads zero, which is what the main thread waits for, the process holds no core and
  no temporary thread is left.\<close>

theorem parse_phase_returns_cores:
  assumes "reachable P total_cores s" and "finite P" and "total_cores < 2 ^ 32" and "p \<in> P"
    and "monitor (processes s p) = Stopped" and "active_parse_threads (processes s p) = 0"
  shows "cores_of (processes s p) = 0 \<and> threads_of (processes s p) = 0"
proof -
  have "process_ok (processes s p)" using reachable_ok [OF assms(1-3)] assms(4) by (simp add: machine_ok_def)
  then have "threads_of (processes s p) = 0" using assms(6) by (simp add: process_ok_def)
  then show ?thesis using assms(5) by (simp add: threads_of_def cores_of_def)
qed

theorem parse_phase_returns_cores_witness: "cores_of (sample_process Stopped 0 0 0 True) = 0"
  using parse_phase_returns_cores [OF sample_ended, of 0] by (simp add: sample_machine_def sample_process_def)

text \<open>The steps a process has left after the signal to finish, when no other process interferes.\<close>

definition steps_left :: "u32 \<Rightarrow> process \<Rightarrow> nat" where
  "steps_left a x =
     temps_running x * 8 + temps_leaving x * 4 +
     (case monitor x of Stopped \<Rightarrow> 0 | Polling \<Rightarrow> 1 | Returned \<Rightarrow> 2 | Counted \<Rightarrow> 3 | Holding \<Rightarrow> 4
        | Loaded b \<Rightarrow> if a = b then 5 else 7 | Wanting \<Rightarrow> 6)"

lemma finishing_step:
  assumes "parse_done x" and "process_ok x" and "\<not> (monitor x = Stopped \<and> active_parse_threads x = 0)"
  shows "\<exists>b y. process_step a x b y \<and> parse_done y \<and> steps_left b y < steps_left a x"
proof (cases "temps_running x = 0 \<and> temps_leaving x = 0")
  case False
  show ?thesis
  proof (cases "temps_running x = 0")
    case True
    then have "process_step a x a
        (x\<lparr>temps_leaving := temps_leaving x - 1, active_parse_threads := active_parse_threads x - 1\<rparr>)"
      using False by (intro Temp_Leaves) simp
    then show ?thesis using assms(1) True False
      by (intro exI conjI) (assumption, simp, simp add: steps_left_def split: monitor_pc.splits)
  next
    case running: False
    then have "process_step a x (return_cores 1 a)
        (x\<lparr>temps_running := temps_running x - 1, temps_leaving := temps_leaving x + 1\<rparr>)"
      by (intro Temp_Returns) simp
    then show ?thesis using assms(1) running
      by (intro exI conjI) (assumption, simp, cases "temps_running x", simp, simp add: steps_left_def split: monitor_pc.splits)
  qed
next
  case True
  show ?thesis
  proof (cases "monitor x")
    case Stopped
    then show ?thesis using assms True by (auto simp: process_ok_def threads_of_def unat_eq_0)
  next
    case Polling
    then have "process_step a x a (x\<lparr>monitor := Stopped\<rparr>)" using assms(1) by (intro Stop)
    then show ?thesis using assms(1) Polling by (intro exI conjI) (assumption, simp, simp add: steps_left_def)
  next
    case Returned
    then have "process_step a x a (x\<lparr>monitor := Polling, active_parse_threads := active_parse_threads x - 1\<rparr>)"
      by (intro Uncount)
    then show ?thesis using assms(1) Returned by (intro exI conjI) (assumption, simp, simp add: steps_left_def)
  next
    case Counted
    then have "process_step a x (return_cores 1 a) (x\<lparr>monitor := Returned\<rparr>)" by (intro Spawn_Fails)
    then show ?thesis using assms(1) Counted by (intro exI conjI) (assumption, simp, simp add: steps_left_def)
  next
    case Holding
    then have "process_step a x a (x\<lparr>monitor := Counted, active_parse_threads := active_parse_threads x + 1\<rparr>)"
      by (intro Count_Thread)
    then show ?thesis using assms(1) Holding by (intro exI conjI) (assumption, simp, simp add: steps_left_def)
  next
    case (Loaded avail)
    show ?thesis
    proof (cases "a = avail")
      case True
      then have "process_step a x (avail - grab_take 1 avail) (x\<lparr>monitor := Holding\<rparr>)"
        using Loaded by (intro Swap)
      then show ?thesis using assms(1) Loaded True by (intro exI conjI) (assumption, simp, simp add: steps_left_def)
    next
      case False
      have "process_step a x a (x\<lparr>monitor := Wanting\<rparr>)" using Loaded by (rule Swap_Fails)
      then show ?thesis using assms(1) Loaded False by (intro exI conjI) (assumption, simp, simp add: steps_left_def)
    qed
  next
    case Wanting
    show ?thesis
    proof (cases "a = 0")
      case True
      then have "process_step a x a (x\<lparr>monitor := Polling\<rparr>)" using Wanting by (intro Load_None)
      then show ?thesis using assms(1) Wanting by (intro exI conjI) (assumption, simp, simp add: steps_left_def)
    next
      case False
      then have "process_step a x a (x\<lparr>monitor := Loaded a\<rparr>)" using Wanting by (intro Load)
      then show ?thesis using assms(1) Wanting by (intro exI conjI) (assumption, simp, simp add: steps_left_def)
    qed
  qed
qed

text \<open>
  A parse phase can always end: from every reachable state after the signal to finish, steps of
  the process alone lead to the state the main thread waits for; no interleaving leaves it stuck.\<close>

theorem parse_phase_can_end:
  assumes "reachable P total_cores s" and "finite P" and "total_cores < 2 ^ 32" and "p \<in> P"
    and "parse_done (processes s p)"
  shows "\<exists>t. (machine_step P)\<^sup>*\<^sup>* s t \<and> monitor (processes t p) = Stopped
     \<and> active_parse_threads (processes t p) = 0"
proof -
  have "machine_ok P total_cores s" by (rule reachable_ok [OF assms(1-3)])
  then show ?thesis using assms(5)
  proof (induction "steps_left (available_cores s) (processes s p)" arbitrary: s rule: less_induct)
    case less
    show ?case
    proof (cases "monitor (processes s p) = Stopped \<and> active_parse_threads (processes s p) = 0")
      case False
      have "process_ok (processes s p)" using less(2) assms(4) by (simp add: machine_ok_def)
      from finishing_step [OF less(3) this False]
      obtain b y where y: "process_step (available_cores s) (processes s p) b y" "parse_done y"
        "steps_left b y < steps_left (available_cores s) (processes s p)" by blast
      let ?t = "s\<lparr>available_cores := b, processes := (processes s)(p := y)\<rparr>"
      have st: "machine_step P s ?t" using y(1) assms(4) by (rule Process [rotated])
      have "machine_ok P total_cores ?t" by (rule machine_step_ok [OF st assms(2,3) less(2)])
      then obtain t where "(machine_step P)\<^sup>*\<^sup>* ?t t" "monitor (processes t p) = Stopped"
          "active_parse_threads (processes t p) = 0"
        using less(1) [of ?t] y by auto
      then show ?thesis using st by (meson converse_rtranclp_into_rtranclp)
    qed blast
  qed
qed

theorem parse_phase_can_end_witness:
  "\<exists>t. (machine_step {0})\<^sup>*\<^sup>* (sample_machine 1 (sample_process Polling 1 1 0 True)) t
     \<and> monitor (processes t 0) = Stopped \<and> active_parse_threads (processes t 0) = 0"
  by (rule parse_phase_can_end [OF sample_told]) (simp_all add: sample_machine_def sample_process_def)

end
