(* ===== verification/Readme_Scan.thy ===== *)
theory Readme_Scan
  imports Facts
begin

text \<open>
  Which languages a README claims for the project (\<open>verify/documentation_drift.cpp\<close>): the lines with
  their headings and tables, the contexts in which a mention is no claim, the three ways a name is
  searched, the masking of diagrams, and \<open>extractLanguageClaims\<close>.

  Positions are natural numbers, \<open>std::string::npos\<close> and -1 are \<open>None\<close>.  The Chinese cues are given by
  their bytes.
\<close>

section \<open>Search without case\<close>

definition findCaseInsensitive :: "bytes \<Rightarrow> bytes \<Rightarrow> nat \<Rightarrow> nat option" where
  "findCaseInsensitive haystack needle start =
     (if needle = [] \<or> length haystack \<le> start then None
      else map_option ((+) start) (str_find (lower needle) (lower (drop start haystack))))"

definition isWordBoundary :: "bytes \<Rightarrow> nat \<Rightarrow> bool" where
  "isWordBoundary txt pos \<longleftrightarrow> pos = 0 \<or> \<not> isalnum_c (txt ! (pos - 1))"

definition isWordBoundaryAfter :: "bytes \<Rightarrow> nat \<Rightarrow> bool" where
  "isWordBoundaryAfter txt end_pos \<longleftrightarrow> length txt \<le> end_pos \<or> \<not> isalnum_c (txt ! end_pos)"

section \<open>The lines of the README\<close>

abbreviation newline :: char where "newline \<equiv> CHR 0x0A"

definition slice :: "bytes \<Rightarrow> nat \<Rightarrow> nat \<Rightarrow> bytes" where
  "slice txt a b = take (b - a) (drop a txt)"

record readme_line =
  line_start :: nat
  line_end :: nat
  is_table :: bool
  heading_of :: "nat option"
  table_header_of :: "nat option"

text \<open>The first loop: where the lines begin and end.  A text that ends in a newline has an empty last line.\<close>

fun line_spans :: "nat \<Rightarrow> bytes \<Rightarrow> (nat \<times> nat) list" where
  "line_spans pos s =
     (let n = length (takeWhile (\<lambda>c. c \<noteq> newline) s)
      in (pos, pos + n) # (if n < length s then line_spans (pos + n + 1) (drop (Suc n) s) else []))"

declare line_spans.simps [simp del]

text \<open>The first character of a line that is no white space, if any.\<close>

definition line_mark :: "bytes \<Rightarrow> nat \<times> nat \<Rightarrow> char option" where
  "line_mark txt sp =
     (case dropWhile isspace_c (slice txt (fst sp) (snd sp)) of [] \<Rightarrow> None | c # _ \<Rightarrow> Some c)"

text \<open>The second loop: the nearest heading at or above each line, the first row of each table.\<close>

fun headings :: "nat option \<Rightarrow> nat \<Rightarrow> bool list \<Rightarrow> nat option list" where
  "headings last_heading i [] = []"
| "headings last_heading i (h # hs) =
     (let l = (if h then Some i else last_heading) in l # headings l (Suc i) hs)"

fun table_top :: "bool list \<Rightarrow> nat \<Rightarrow> nat" where
  "table_top tables 0 = 0"
| "table_top tables (Suc i) = (if tables ! i then table_top tables i else Suc i)"

definition annotateReadmeLines :: "bytes \<Rightarrow> readme_line list" where
  "annotateReadmeLines txt =
     (let spans = line_spans 0 txt; marks = map (line_mark txt) spans;
          tables = map (\<lambda>c. c = Some (CHR ''|'')) marks; hs = headings None 0 (map (\<lambda>c. c = Some (CHR ''#'')) marks)
      in map (\<lambda>i. \<lparr>line_start = fst (spans ! i), line_end = snd (spans ! i), is_table = tables ! i,
            heading_of = hs ! i, table_header_of = (if tables ! i then Some (table_top tables i) else None)\<rparr>)
          [0..<length spans])"

definition lineOfMention :: "readme_line list \<Rightarrow> nat \<Rightarrow> nat option" where
  "lineOfMention lines pos = find (\<lambda>i. line_start (lines ! i) \<le> pos \<and> pos \<le> line_end (lines ! i)) [0..<length lines]"

definition line_text :: "bytes \<Rightarrow> readme_line \<Rightarrow> bytes" where
  "line_text txt l = slice txt (line_start l) (line_end l)"

section \<open>Contexts that make no claim\<close>

definition containsAnyCue :: "bytes \<Rightarrow> bytes list \<Rightarrow> bool" where
  "containsAnyCue haystack cues = list_ex (\<lambda>c. findCaseInsensitive haystack c 0 \<noteq> None) cues"

definition zh_support :: bytes where "zh_support = [CHR 0xE6, CHR 0x94, CHR 0xAF, CHR 0xE6, CHR 0x8C, CHR 0x81]"
definition zh_parse :: bytes where "zh_parse = [CHR 0xE8, CHR 0xA7, CHR 0xA3, CHR 0xE6, CHR 0x9E, CHR 0x90]"
definition zh_compatible :: bytes where "zh_compatible = [CHR 0xE5, CHR 0x85, CHR 0xBC, CHR 0xE5, CHR 0xAE, CHR 0xB9]"

definition kCapabilityProseCues :: "bytes list" where
  "kCapabilityProseCues =
     [''supports'', ''supported'', ''supporting'', ''support'', ''can parse'', ''parses'', ''parsed'', ''handles'',
      zh_support, zh_parse, zh_compatible]"

definition kCapabilityHeaderCues :: "bytes list" where
  "kCapabilityHeaderCues =
     [''support'', ''parse'', ''parser'', ''handle'', ''recogni'', ''verified'', zh_support, zh_parse, zh_compatible]"

definition kThirdPartyHeaderCues :: "bytes list" where
  "kThirdPartyHeaderCues = [''project'']"

definition kHandlingCues :: "bytes list" where
  "kHandlingCues =
     [''skip'', ''exclude'', ''filter'', ''reject'', ''top-only'', ''handled'', ''handles'', ''namespace'',
      ''convention'', ''parses'', ''parsed'', ''parsing'', ''can parse'', zh_support, zh_parse, zh_compatible]"

definition blank_line :: "bytes \<Rightarrow> readme_line \<Rightarrow> bool" where
  "blank_line txt l = list_all isspace_c (line_text txt l)"

fun paragraph_lo :: "bool list \<Rightarrow> nat \<Rightarrow> nat" where
  "paragraph_lo blank 0 = 0"
| "paragraph_lo blank (Suc i) = (if \<not> blank ! i then paragraph_lo blank i else Suc i)"

function paragraph_hi :: "bool list \<Rightarrow> nat \<Rightarrow> nat" where
  "paragraph_hi blank i = (if i + 1 < length blank \<and> \<not> blank ! (i + 1) then paragraph_hi blank (i + 1) else i)"
  by pat_completeness auto
termination by (relation "measure (\<lambda>(blank, i). length blank - i)") auto

declare paragraph_hi.simps [simp del]

definition paragraphAround :: "bytes \<Rightarrow> readme_line list \<Rightarrow> nat \<Rightarrow> bytes" where
  "paragraphAround txt lines idx =
     (let blank = map (blank_line txt) lines
      in concat (map (\<lambda>i. line_text txt (lines ! i) @ [newline]) [paragraph_lo blank idx..<Suc (paragraph_hi blank idx)]))"

definition isNonProjectContext :: "bytes \<Rightarrow> readme_line list \<Rightarrow> nat \<Rightarrow> bool" where
  "isNonProjectContext txt lines pos =
     (case lineOfMention lines pos of
        None \<Rightarrow> False
      | Some idx \<Rightarrow>
          let l = lines ! idx
          in containsAnyCue (line_text txt l) kCapabilityProseCues \<or>
             containsAnyCue (paragraphAround txt lines idx) kHandlingCues \<or>
             (case heading_of l of None \<Rightarrow> False
              | Some h \<Rightarrow> containsAnyCue (line_text txt (lines ! h)) kCapabilityHeaderCues) \<or>
             (case table_header_of l of None \<Rightarrow> False
              | Some t \<Rightarrow> containsAnyCue (line_text txt (lines ! t)) kCapabilityHeaderCues \<or>
                          containsAnyCue (line_text txt (lines ! t)) kThirdPartyHeaderCues))"

section \<open>Mentions\<close>

datatype match_mode = Substring | Word | WordCaseSensitive

text \<open>The next occurrence, and all occurrences one after the other without overlap.\<close>

definition find_mention :: "match_mode \<Rightarrow> bytes \<Rightarrow> bytes \<Rightarrow> nat \<Rightarrow> nat option" where
  "find_mention mode txt needle pos =
     (if needle = [] \<or> length txt \<le> pos then None
      else if mode = WordCaseSensitive then map_option ((+) pos) (str_find needle (drop pos txt))
      else findCaseInsensitive txt needle pos)"

lemma find_mention_bounds:
  assumes "find_mention mode txt needle pos = Some p"
  shows "needle \<noteq> []" "pos \<le> p" "pos < length txt"
  using assms by (auto simp: find_mention_def findCaseInsensitive_def split: if_splits)

function occurrences :: "match_mode \<Rightarrow> bytes \<Rightarrow> bytes \<Rightarrow> nat \<Rightarrow> nat list" where
  "occurrences mode txt needle pos =
     (case find_mention mode txt needle pos of None \<Rightarrow> [] | Some p \<Rightarrow> p # occurrences mode txt needle (p + length needle))"
  by pat_completeness auto
termination
proof (relation "measure (\<lambda>(mode, txt, needle, pos). length txt - pos)")
  fix md t needle pos p
  assume "find_mention md t needle pos = Some p"
  from find_mention_bounds [OF this]
  show "((md, t, needle, p + length needle), (md, t, needle, pos)) \<in> measure (\<lambda>(mode, t, needle, pos). length t - pos)"
    by (cases needle) auto
qed simp

declare occurrences.simps [simp del]

definition spelling_suffix :: "bytes \<Rightarrow> nat \<Rightarrow> bool" where
  "spelling_suffix txt abs_end \<longleftrightarrow> abs_end < length txt \<and> (txt ! abs_end = CHR ''+'' \<or> txt ! abs_end = CHR ''#'')"

definition is_mention :: "match_mode \<Rightarrow> bytes \<Rightarrow> bytes \<Rightarrow> nat \<Rightarrow> bool" where
  "is_mention mode txt needle p \<longleftrightarrow>
     mode = Substring \<or>
     (\<not> spelling_suffix txt (p + length needle) \<and> isWordBoundary txt p \<and> isWordBoundaryAfter txt (p + length needle))"

definition countClaimMentions :: "bytes \<Rightarrow> readme_line list \<Rightarrow> bytes \<Rightarrow> match_mode \<Rightarrow> nat" where
  "countClaimMentions txt lines needle mode =
     length (filter (\<lambda>p. is_mention mode txt needle p \<and> \<not> isNonProjectContext txt lines p) (occurrences mode txt needle 0))"

section \<open>Diagrams\<close>

definition fence :: bytes where "fence = replicate 3 (CHR 0x60)"

definition blank_out :: "char \<Rightarrow> char" where
  "blank_out c = (if c = newline \<or> c = CHR 0x0D then c else CHR '' '')"

lemma str_find_length: "str_find sub s = Some i \<Longrightarrow> i + length sub \<le> length s"
proof (induction s arbitrary: i)
  case (Cons c s)
  show ?case
  proof (cases "prefix sub (c # s)")
    case True
    then show ?thesis using Cons.prems prefix_length_le [OF True] by simp
  next
    case False
    then show ?thesis using Cons by auto
  qed
qed (auto split: if_splits)

text \<open>The loop over the fences, on the text from \<open>pos\<close> on: the text before the opening fence, white space,
  the tag, the contents up to the closing fence.\<close>

function mask_mermaid :: "bytes \<Rightarrow> bytes" where
  "mask_mermaid s =
     (case str_find fence s of None \<Rightarrow> s
      | Some o1 \<Rightarrow>
          let after = drop (o1 + 3) s; space = takeWhile isspace_c after; rest = dropWhile isspace_c after;
              lang = takeWhile (\<lambda>c. \<not> isspace_c c) rest; body = dropWhile (\<lambda>c. \<not> isspace_c c) rest
          in (case str_find fence body of None \<Rightarrow> s
              | Some n \<Rightarrow>
                  take (o1 + 3) s @ space @ lang @
                  (if lang = ''mermaid'' then map blank_out (take n body) else take n body) @ fence @
                  mask_mermaid (drop (n + 3) body)))"
  by pat_completeness auto

termination
proof (relation "measure length")
  fix s o1 after space rest lang body n
  assume o1: "str_find fence s = Some o1" and d: "after = drop (o1 + 3) s" "rest = dropWhile isspace_c after"
      "body = dropWhile (\<lambda>c. \<not> isspace_c c) rest" and n: "str_find fence body = Some n"
  have "length body \<le> length rest" "length rest \<le> length after"
    unfolding d(2,3) using length_dropWhile_le by blast+
  then have "length body \<le> length s" by (simp add: d(1))
  moreover have "n + 3 \<le> length body" using str_find_length [OF n] by (simp add: fence_def)
  ultimately show "(drop (n + 3) body, s) \<in> measure length" by simp
qed simp

declare mask_mermaid.simps [simp del]

section \<open>Claims\<close>

record language_claim =
  canonical :: bytes
  display :: bytes
  mention_count :: nat

definition kLanguagePatterns :: "(bytes \<times> bytes \<times> bytes) list" where
  "kLanguagePatterns =
     [(''c++'', ''cpp'', ''C++''), (''cpp'', ''cpp'', ''C++''), (''cxx'', ''cpp'', ''C++''), (''c language'', ''cpp'', ''C''),
      (''python'', ''python'', ''Python''), (''typescript'', ''typescript'', ''TypeScript''),
      (''javascript'', ''javascript'', ''JavaScript''), (''rust'', ''rust'', ''Rust''), (''golang'', ''go'', ''Go'')]"

text \<open>Adding \<open>n\<close> mentions: to the claim with the canonical name if there is one, else a new claim.\<close>

fun add_mentions :: "bytes \<Rightarrow> bytes \<Rightarrow> nat \<Rightarrow> language_claim list \<Rightarrow> language_claim list" where
  "add_mentions can disp n [] = [\<lparr>canonical = can, display = disp, mention_count = n\<rparr>]"
| "add_mentions can disp n (c # cs) =
     (if canonical c = can then c\<lparr>mention_count := mention_count c + n\<rparr> # cs else c # add_mentions can disp n cs)"

definition claim_mentions ::
  "bytes \<Rightarrow> readme_line list \<Rightarrow> bytes \<times> bytes \<times> bytes \<Rightarrow> match_mode \<Rightarrow> language_claim list \<Rightarrow> language_claim list" where
  "claim_mentions txt lines pat mode cs =
     (let n = countClaimMentions txt lines (fst pat) mode
      in if n = 0 then cs else add_mentions (fst (snd pat)) (snd (snd pat)) n cs)"

definition extractLanguageClaims :: "bytes \<Rightarrow> language_claim list" where
  "extractLanguageClaims readme_text =
     (if readme_text = [] then []
      else
        let masked = mask_mermaid readme_text; lines = annotateReadmeLines masked;
            named = fold (\<lambda>pat. claim_mentions masked lines pat Substring) kLanguagePatterns [];
            go = claim_mentions masked lines (''go'', ''go'', ''Go'') Word named;
            java = claim_mentions masked lines (''java'', ''java'', ''Java'') Word go
        in claim_mentions masked lines (''C'', ''cpp'', ''C'') WordCaseSensitive java)"

section \<open>Every place is on a line\<close>

lemma line_spans_nonempty: "line_spans pos s \<noteq> []"
  by (subst line_spans.simps) (simp add: Let_def)

lemma line_spans_cover:
  "pos \<le> q \<Longrightarrow> q \<le> pos + length s \<Longrightarrow> \<exists>sp \<in> set (line_spans pos s). fst sp \<le> q \<and> q \<le> snd sp"
proof (induction pos s rule: line_spans.induct)
  case (1 pos s)
  define n where "n = length (takeWhile (\<lambda>c. c \<noteq> newline) s)"
  have n: "n \<le> length s" by (simp add: n_def length_takeWhile_le)
  have u: "line_spans pos s = (pos, pos + n) # (if n < length s then line_spans (pos + n + 1) (drop (Suc n) s) else [])"
    by (subst line_spans.simps) (simp add: Let_def n_def)
  show ?case
  proof (cases "q \<le> pos + n")
    case True
    then show ?thesis using 1(2) by (simp add: u)
  next
    case False
    then have lt: "n < length s" "pos + n + 1 \<le> q" "q \<le> pos + n + 1 + length (drop (Suc n) s)" using 1(3) n by auto
    from 1(1) [OF n_def lt(1,2,3)] lt(1) show ?thesis by (simp add: u)
  qed
qed

text \<open>The lines with a newline after each but the last are the text.\<close>

lemma line_spans_text:
  "pos = length pre \<Longrightarrow> join [newline] (map (\<lambda>sp. slice (pre @ s) (fst sp) (snd sp)) (line_spans pos s)) = s"
proof (induction pos s arbitrary: pre rule: line_spans.induct)
  case (1 pos s)
  define l where "l = takeWhile (\<lambda>c. c \<noteq> newline) s"
  have u: "line_spans pos s =
      (pos, pos + length l) # (if length l < length s then line_spans (pos + length l + 1) (drop (Suc (length l)) s) else [])"
    by (subst line_spans.simps) (simp add: Let_def l_def)
  have l: "take (length l) s = l" unfolding l_def by (rule takeWhile_eq_take [symmetric])
  show ?case
  proof (cases "length l < length s")
    case True
    have nl: "drop (length l) s = newline # drop (Suc (length l)) s"
      using nth_length_takeWhile [of "\<lambda>c. c \<noteq> newline" s] True
      by (simp add: l_def [symmetric] Cons_nth_drop_Suc [symmetric])
    have s: "s = l @ newline # drop (Suc (length l)) s"
      using append_take_drop_id [of "length l" s, symmetric] unfolding l nl .
    have IH: "join [newline] (map (\<lambda>sp. slice ((pre @ l @ [newline]) @ drop (Suc (length l)) s) (fst sp) (snd sp))
        (line_spans (pos + length l + 1) (drop (Suc (length l)) s))) = drop (Suc (length l)) s"
      using 1(1) [OF l_def [THEN arg_cong [where f = length]] True, of "pre @ l @ [newline]"] 1(2) by simp
    have p: "(pre @ l @ [newline]) @ drop (Suc (length l)) s = pre @ s" using s by simp
    obtain sp sps where sps: "line_spans (pos + length l + 1) (drop (Suc (length l)) s) = sp # sps"
      using line_spans_nonempty by (meson neq_Nil_conv)
    have "slice (pre @ s) pos (pos + length l) = l" using 1(2) l by (simp add: slice_def)
    then show ?thesis using IH True s unfolding u p sps by simp
  next
    case False
    then have "s = l" using l by simp
    then show ?thesis using 1(2) False unfolding u by (simp add: slice_def)
  qed
qed

lemma length_headings [simp]: "length (headings l i hs) = length hs"
  by (induction l i hs rule: headings.induct) (simp_all add: Let_def)

lemma annotate_spans:
  "map (\<lambda>l. (line_start l, line_end l)) (annotateReadmeLines txt) = line_spans 0 txt"
  by (simp add: annotateReadmeLines_def Let_def comp_def map_nth)

text \<open>
  The split into lines loses nothing: the lines joined by newlines are the text, and every place of
  the text is found on a line, so the answer -1 of the lookup never occurs.
\<close>

theorem readme_lines_cover:
  "join [newline] (map (line_text txt) (annotateReadmeLines txt)) = txt \<and>
   (pos \<le> length txt \<longrightarrow>
     (case lineOfMention (annotateReadmeLines txt) pos of None \<Rightarrow> False
      | Some i \<Rightarrow> i < length (annotateReadmeLines txt) \<and> line_start (annotateReadmeLines txt ! i) \<le> pos \<and>
                  pos \<le> line_end (annotateReadmeLines txt ! i)))"
proof (intro conjI impI)
  have "map (line_text txt) (annotateReadmeLines txt) =
      map (\<lambda>sp. slice txt (fst sp) (snd sp)) (map (\<lambda>l. (line_start l, line_end l)) (annotateReadmeLines txt))"
    by (simp add: line_text_def)
  then show "join [newline] (map (line_text txt) (annotateReadmeLines txt)) = txt"
    using line_spans_text [of 0 "[]"] by (simp add: annotate_spans)
  assume "pos \<le> length txt"
  then obtain sp where "sp \<in> set (line_spans 0 txt)" "fst sp \<le> pos" "pos \<le> snd sp"
    using line_spans_cover [of 0 pos "txt"] by auto
  then obtain l where "l \<in> set (annotateReadmeLines txt)" "line_start l \<le> pos" "pos \<le> line_end l"
    unfolding annotate_spans [symmetric] by auto
  then have "lineOfMention (annotateReadmeLines txt) pos \<noteq> None"
    unfolding lineOfMention_def find_None_iff by (auto simp: in_set_conv_nth)
  then show "case lineOfMention (annotateReadmeLines txt) pos of None \<Rightarrow> False
      | Some i \<Rightarrow> i < length (annotateReadmeLines txt) \<and> line_start (annotateReadmeLines txt ! i) \<le> pos \<and>
                  pos \<le> line_end (annotateReadmeLines txt ! i)"
    by (auto simp: lineOfMention_def find_Some_iff split: option.splits)
qed

definition sample_readme :: bytes where
  "sample_readme = ''# Engine'' @ [newline] @ ''Written in Rust.'' @ [newline, newline] @ ''| Project | Language |'' @ [newline] @
     ''| other | Python |'' @ [newline]"

theorem readme_lines_cover_witness:
  "lineOfMention (annotateReadmeLines sample_readme) 20 = Some 1"
proof -
  have "(20 :: nat) \<le> length sample_readme" by (simp add: sample_readme_def)
  then have "lineOfMention (annotateReadmeLines sample_readme) 20 \<noteq> None"
    using readme_lines_cover [of sample_readme 20] by (auto split: option.splits)
  moreover have "lineOfMention (annotateReadmeLines sample_readme) 20 = Some 1" by code_simp
  ultimately show ?thesis by simp
qed

section \<open>What is found\<close>

definition folded_as :: "match_mode \<Rightarrow> bytes \<Rightarrow> bytes" where
  "folded_as mode s = (if mode = WordCaseSensitive then s else lower s)"

text \<open>The name stands at a place of the text.\<close>

definition occurs_at :: "match_mode \<Rightarrow> bytes \<Rightarrow> bytes \<Rightarrow> nat \<Rightarrow> bool" where
  "occurs_at mode txt needle p \<longleftrightarrow> needle \<noteq> [] \<and> prefix (folded_as mode needle) (drop p (folded_as mode txt))"

lemma length_folded [simp]: "length (folded_as mode s) = length s" "folded_as mode s = [] \<longleftrightarrow> s = []"
  by (simp_all add: folded_as_def)

lemma drop_folded [simp]: "folded_as mode (drop n s) = drop n (folded_as mode s)"
  by (simp add: folded_as_def drop_map)

lemma find_mention_iff:
  "find_mention mode txt needle pos = Some p \<longleftrightarrow>
     pos \<le> p \<and> occurs_at mode txt needle p \<and> (\<forall>q. pos \<le> q \<and> q < p \<longrightarrow> \<not> occurs_at mode txt needle q)"
proof -
  have f: "find_mention mode txt needle pos =
      (if needle = [] \<or> length txt \<le> pos then None
       else map_option ((+) pos) (str_find (folded_as mode needle) (drop pos (folded_as mode txt))))"
    by (simp add: find_mention_def findCaseInsensitive_def folded_as_def drop_map)
  have none: "\<not> occurs_at mode txt needle q" if "length txt \<le> q" for q
    using that by (auto simp: occurs_at_def)
  show ?thesis
  proof (cases "needle = [] \<or> length txt \<le> pos")
    case True
    then show ?thesis using none [of p] unfolding f by (auto simp: occurs_at_def)
  next
    case False
    let ?P = "\<lambda>q. occurs_at mode txt needle q"
    have "find_mention mode txt needle pos = Some p \<longleftrightarrow>
        (\<exists>i. p = pos + i \<and> i \<le> length txt - pos \<and> ?P (pos + i) \<and> (\<forall>j<i. \<not> ?P (pos + j)))"
      unfolding f using False by (auto simp: str_find_Some_iff occurs_at_def add.commute)
    also have "\<dots> \<longleftrightarrow> pos \<le> p \<and> ?P p \<and> (\<forall>q. pos \<le> q \<and> q < p \<longrightarrow> \<not> ?P q)"
    proof
      assume "\<exists>i. p = pos + i \<and> i \<le> length txt - pos \<and> ?P (pos + i) \<and> (\<forall>j<i. \<not> ?P (pos + j))"
      then obtain i where i: "p = pos + i" "?P (pos + i)" "\<And>j. j < i \<Longrightarrow> \<not> ?P (pos + j)" by blast
      have "\<not> ?P q" if "pos \<le> q" "q < p" for q using i(3) [of "q - pos"] that i(1) by simp
      then show "pos \<le> p \<and> ?P p \<and> (\<forall>q. pos \<le> q \<and> q < p \<longrightarrow> \<not> ?P q)" using i by simp
    next
      assume p: "pos \<le> p \<and> ?P p \<and> (\<forall>q. pos \<le> q \<and> q < p \<longrightarrow> \<not> ?P q)"
      then have "p < length txt" using none [of p] by (meson not_le)
      then have "p = pos + (p - pos)" "p - pos \<le> length txt - pos" "?P (pos + (p - pos))"
          "\<forall>j<p - pos. \<not> ?P (pos + j)" using p by auto
      then show "\<exists>i. p = pos + i \<and> i \<le> length txt - pos \<and> ?P (pos + i) \<and> (\<forall>j<i. \<not> ?P (pos + j))" by blast
    qed
    finally show ?thesis .
  qed
qed

lemma find_mention_None:
  "find_mention mode txt needle pos = None \<longleftrightarrow> (\<forall>q \<ge> pos. \<not> occurs_at mode txt needle q)"
proof
  assume n: "find_mention mode txt needle pos = None"
  show "\<forall>q \<ge> pos. \<not> occurs_at mode txt needle q"
  proof (rule ccontr)
    assume "\<not> (\<forall>q \<ge> pos. \<not> occurs_at mode txt needle q)"
    then have ex: "\<exists>q. pos \<le> q \<and> occurs_at mode txt needle q" by blast
    define p where "p = (LEAST q. pos \<le> q \<and> occurs_at mode txt needle q)"
    have "pos \<le> p \<and> occurs_at mode txt needle p" unfolding p_def using LeastI_ex [OF ex] .
    moreover have "\<not> occurs_at mode txt needle q" if "pos \<le> q" "q < p" for q
      using not_less_Least [of q "\<lambda>q. pos \<le> q \<and> occurs_at mode txt needle q"] that by (simp add: p_def)
    ultimately have "find_mention mode txt needle pos = Some p" using find_mention_iff by blast
    then show False using n by simp
  qed
next
  assume "\<forall>q \<ge> pos. \<not> occurs_at mode txt needle q"
  then show "find_mention mode txt needle pos = None"
    using find_mention_iff by (metis not_None_eq)
qed

lemma occurrences_sound: "p \<in> set (occurrences mode txt needle pos) \<Longrightarrow> pos \<le> p \<and> occurs_at mode txt needle p"
proof (induction "mode" "txt" needle pos rule: occurrences.induct)
  case (1 md t needle pos)
  show ?case
  proof (cases "find_mention md t needle pos")
    case None
    then show ?thesis using 1(2) by (simp add: occurrences.simps [of md t needle pos])
  next
    case (Some p0)
    then have p0: "pos \<le> p0" "occurs_at md t needle p0" by (simp_all add: find_mention_iff)
    from 1(2) Some have "p = p0 \<or> p \<in> set (occurrences md t needle (p0 + length needle))"
      by (simp add: occurrences.simps [of md t needle pos])
    then show ?thesis using p0 1(1) [OF Some] by auto
  qed
qed

text \<open>A name no beginning of which is also its end cannot overlap itself.\<close>

definition no_border :: "bytes \<Rightarrow> bool" where
  "no_border n \<longleftrightarrow> list_all (\<lambda>k. take (length n - k) n \<noteq> drop k n) [1..<length n]"

lemma no_overlap:
  assumes "no_border (folded_as mode needle)" and p: "occurs_at mode txt needle p" and q: "occurs_at mode txt needle q" and "p < q"
  shows "p + length needle \<le> q"
proof (rule ccontr)
  assume "\<not> p + length needle \<le> q"
  define k where "k = q - p"
  define n where "n = folded_as mode needle"
  have k: "1 \<le> k" "k < length n" "q = p + k" using assms(4) \<open>\<not> p + length needle \<le> q\<close> by (simp_all add: k_def n_def)
  obtain u where u: "drop p (folded_as mode txt) = n @ u" using p by (auto simp: occurs_at_def n_def prefix_def)
  obtain v where v: "drop q (folded_as mode txt) = n @ v" using q by (auto simp: occurs_at_def n_def prefix_def)
  have "drop k (n @ u) = n @ v" using v unfolding k(3) u [symmetric] by (simp add: add.commute)
  then have "take (length n - k) (drop k n @ u) = take (length n - k) (n @ v)" using k(2) by simp
  then have "drop k n = take (length n - k) n" by simp
  moreover have "take (length n - k) n \<noteq> drop k n"
    using assms(1) k unfolding no_border_def n_def [symmetric] list_all_iff by (metis atLeastLessThan_iff set_upt)
  ultimately show False by simp
qed

lemma occurrences_complete:
  assumes "no_border (folded_as mode needle)"
  shows "pos \<le> p \<Longrightarrow> occurs_at mode txt needle p \<Longrightarrow> p \<in> set (occurrences mode txt needle pos)"
  using assms
proof (induction "mode" "txt" "needle" pos rule: occurrences.induct)
  case (1 md t needle pos)
  then obtain p0 where f: "find_mention md t needle pos = Some p0"
    using find_mention_None by (metis not_None_eq)
  then have p0: "pos \<le> p0" "occurs_at md t needle p0" "p0 \<le> p"
    using find_mention_iff 1(2,3) by (auto simp: not_less [symmetric])
  show ?case
  proof (cases "p = p0")
    case True
    then show ?thesis by (simp add: occurrences.simps [of md t needle pos] f)
  next
    case False
    then have "p0 + length needle \<le> p" using no_overlap [OF 1(4) p0(2) 1(3)] p0(3) by simp
    from 1(1) [OF f this 1(3,4)] show ?thesis by (simp add: occurrences.simps [of md t needle pos] f)
  qed
qed

lemma occurrences_all:
  assumes "no_border (folded_as mode needle)"
  shows "set (occurrences mode txt needle 0) = {p. occurs_at mode txt needle p}"
  using occurrences_sound occurrences_complete [OF assms] by blast

section \<open>What a README claims\<close>

text \<open>A place where the README names the language as one of the project.\<close>

definition mentions :: "bytes \<Rightarrow> bytes \<Rightarrow> match_mode \<Rightarrow> nat \<Rightarrow> bool" where
  "mentions txt needle mode p \<longleftrightarrow>
     occurs_at mode txt needle p \<and> is_mention mode txt needle p \<and> \<not> isNonProjectContext txt (annotateReadmeLines txt) p"

text \<open>The names under which a language is searched.\<close>

definition search_terms :: "(bytes \<times> bytes \<times> match_mode) list" where
  "search_terms =
     [(''c++'', ''cpp'', Substring), (''cpp'', ''cpp'', Substring), (''cxx'', ''cpp'', Substring),
      (''c language'', ''cpp'', Substring), (''python'', ''python'', Substring), (''typescript'', ''typescript'', Substring),
      (''javascript'', ''javascript'', Substring), (''rust'', ''rust'', Substring), (''golang'', ''go'', Substring),
      (''go'', ''go'', Word), (''java'', ''java'', Word), (''C'', ''cpp'', WordCaseSensitive)]"

text \<open>The same searches with the name that is displayed, and the loop over all of them.\<close>

definition all_patterns :: "((bytes \<times> bytes \<times> bytes) \<times> match_mode) list" where
  "all_patterns = map (\<lambda>pat. (pat, Substring)) kLanguagePatterns @
     [((''go'', ''go'', ''Go''), Word), ((''java'', ''java'', ''Java''), Word), ((''C'', ''cpp'', ''C''), WordCaseSensitive)]"

lemma extract_fold:
  "readme_text \<noteq> [] \<Longrightarrow> extractLanguageClaims readme_text =
     fold (\<lambda>(pat, mode). claim_mentions (mask_mermaid readme_text) (annotateReadmeLines (mask_mermaid readme_text)) pat mode)
       all_patterns []"
  by (simp add: extractLanguageClaims_def Let_def all_patterns_def fold_map comp_def)

lemma add_mentions_canonical:
  "map canonical (add_mentions can disp n cs) =
     (if can \<in> set (map canonical cs) then map canonical cs else map canonical cs @ [can])"
  by (induction cs) auto

lemma claim_mentions_canonical:
  "set (map canonical (claim_mentions txt lines pat mode cs)) =
     set (map canonical cs) \<union> (if countClaimMentions txt lines (fst pat) mode = 0 then {} else {fst (snd pat)})"
proof -
  have "set (map canonical (add_mentions can disp n cs)) = insert can (set (map canonical cs))" for can disp n
    unfolding add_mentions_canonical by auto
  then show ?thesis by (simp add: claim_mentions_def Let_def)
qed

lemma fold_claims_canonical:
  "set (map canonical (fold (\<lambda>(pat, mode). claim_mentions txt lines pat mode) ps cs)) =
     set (map canonical cs) \<union> {can. \<exists>needle disp mode. ((needle, can, disp), mode) \<in> set ps \<and> countClaimMentions txt lines needle mode \<noteq> 0}"
proof (induction ps arbitrary: cs)
  case (Cons p ps)
  obtain needle can disp mode where p: "p = ((needle, can, disp), mode)" by (metis prod.exhaust)
  show ?case unfolding fold.simps comp_def Cons.IH unfolding p prod.case claim_mentions_canonical by auto
qed simp

lemma fold_claims_distinct:
  "distinct (map canonical cs) \<Longrightarrow> distinct (map canonical (fold (\<lambda>(pat, mode). claim_mentions txt lines pat mode) ps cs))"
proof (induction ps arbitrary: cs)
  case (Cons p ps)
  have "distinct (map canonical ((\<lambda>(pat, mode). claim_mentions txt lines pat mode) p cs))"
    using Cons.prems by (auto simp: claim_mentions_def Let_def add_mentions_canonical split: prod.splits)
  then show ?case using Cons.IH by simp
qed simp

lemma counted_iff:
  assumes "no_border (folded_as mode needle)"
  shows "countClaimMentions txt (annotateReadmeLines txt) needle mode \<noteq> 0 \<longleftrightarrow> (\<exists>p. mentions txt needle mode p)"
  using occurrences_all [OF assms, of "txt"]
  by (auto simp: countClaimMentions_def mentions_def filter_empty_conv)

lemma counted_sound:
  "countClaimMentions txt (annotateReadmeLines txt) needle mode \<noteq> 0 \<Longrightarrow> \<exists>p. mentions txt needle mode p"
  using occurrences_sound [of _ mode "txt" needle 0]
  by (auto simp: countClaimMentions_def mentions_def filter_empty_conv)

lemma pattern_terms: "search_terms = map (\<lambda>((needle, can, disp), mode). (needle, can, mode)) all_patterns"
  by (simp add: all_patterns_def search_terms_def kLanguagePatterns_def)

lemma claimed_counted:
  assumes "readme_text \<noteq> []"
  shows "can \<in> set (map canonical (extractLanguageClaims readme_text)) \<longleftrightarrow>
    (\<exists>needle mode. (needle, can, mode) \<in> set search_terms \<and>
      countClaimMentions (mask_mermaid readme_text) (annotateReadmeLines (mask_mermaid readme_text)) needle mode \<noteq> 0)"
  unfolding extract_fold [OF assms] fold_claims_canonical pattern_terms by force

text \<open>
  The claimed languages of a README are its mentions of them: no language is listed twice; a listed
  language is named at some place of the text without its diagrams, at a word boundary where the name
  is a word, and not in a context about other projects or about what the tool handles; and for C++, C,
  Python, JavaScript, Rust and Java every such place makes the language listed.
\<close>

theorem claimed_languages_mentioned:
  assumes "readme_text \<noteq> []"
  shows "distinct (map canonical (extractLanguageClaims readme_text)) \<and>
    (can \<in> set (map canonical (extractLanguageClaims readme_text)) \<longrightarrow>
      (\<exists>needle mode p. (needle, can, mode) \<in> set search_terms \<and> mentions (mask_mermaid readme_text) needle mode p)) \<and>
    (can \<notin> {''go'', ''typescript''} \<longrightarrow> (needle, can, mode) \<in> set search_terms \<longrightarrow>
      mentions (mask_mermaid readme_text) needle mode p \<longrightarrow> can \<in> set (map canonical (extractLanguageClaims readme_text)))"
proof (intro conjI impI)
  show "distinct (map canonical (extractLanguageClaims readme_text))"
    unfolding extract_fold [OF assms] by (rule fold_claims_distinct) simp
  assume "can \<in> set (map canonical (extractLanguageClaims readme_text))"
  then show "\<exists>needle mode p. (needle, can, mode) \<in> set search_terms \<and> mentions (mask_mermaid readme_text) needle mode p"
    unfolding claimed_counted [OF assms] using counted_sound by blast
next
  assume c: "can \<notin> {''go'', ''typescript''}" and s: "(needle, can, mode) \<in> set search_terms"
    and m: "mentions (mask_mermaid readme_text) needle mode p"
  have "list_all (\<lambda>(n, c, md). c = ''go'' \<or> c = ''typescript'' \<or> no_border (folded_as md n)) search_terms" by code_simp
  then have "no_border (folded_as mode needle)" using c s unfolding list_all_iff by force
  then show "can \<in> set (map canonical (extractLanguageClaims readme_text))"
    unfolding claimed_counted [OF assms] using counted_iff m s by blast
qed

theorem claimed_languages_mentioned_witness:
  "map display (extractLanguageClaims sample_readme) = [''Rust''] \<and> \<not> mentions (mask_mermaid sample_readme) ''python'' Substring 54"
proof -
  have r: "map display (extractLanguageClaims sample_readme) = [''Rust'']" by code_simp
  have c: "map canonical (extractLanguageClaims sample_readme) = [''rust'']" by code_simp
  have "sample_readme \<noteq> []" by (simp add: sample_readme_def)
  from claimed_languages_mentioned [OF this, of "''python''" "''python''" Substring 54]
  have "\<not> mentions (mask_mermaid sample_readme) ''python'' Substring 54"
    unfolding c by (auto simp: search_terms_def)
  then show ?thesis using r by blast
qed

text \<open>
  A word that contains the name of a language is taken for a claim: a README that speaks of trust
  claims Rust.
\<close>

theorem trust_claims_rust:
  "map display (extractLanguageClaims ''Every answer has a trust score'') = [''Rust'']"
  by code_simp

section \<open>Diagrams\<close>

lemma length_mask: "length (mask_mermaid s) = length s"
proof (induction s rule: mask_mermaid.induct)
  case (1 s)
  show ?case
  proof (cases "str_find fence s")
    case None
    then show ?thesis by (simp add: mask_mermaid.simps [of s])
  next
    case (Some o1)
    define rest where "rest = dropWhile isspace_c (drop (o1 + 3) s)"
    define body where "body = dropWhile (\<lambda>c. \<not> isspace_c c) rest"
    have split: "takeWhile isspace_c (drop (o1 + 3) s) @ takeWhile (\<lambda>c. \<not> isspace_c c) rest @ body = drop (o1 + 3) s"
      by (simp add: rest_def body_def)
    have o1: "o1 + 3 \<le> length s" using str_find_length [OF Some] by (simp add: fence_def)
    show ?thesis
    proof (cases "str_find fence body")
      case None
      then show ?thesis using Some by (simp add: mask_mermaid.simps [of s] Let_def rest_def body_def)
    next
      case n: (Some n)
      have n3: "n + 3 \<le> length body" using str_find_length [OF n] by (simp add: fence_def)
      have IH: "length (mask_mermaid (drop (n + 3) body)) = length body - (n + 3)"
        using 1 [OF Some refl refl rest_def refl body_def n] by simp
      have "length (mask_mermaid s) =
          o1 + 3 + (length (takeWhile isspace_c (drop (o1 + 3) s)) + length (takeWhile (\<lambda>c. \<not> isspace_c c) rest) + length body)"
        using Some n n3 IH o1 by (simp add: mask_mermaid.simps [of s] Let_def rest_def [symmetric] body_def [symmetric] fence_def)
      then show ?thesis using arg_cong [OF split, of length] o1 by simp
    qed
  qed
qed

text \<open>
  A diagram is blanked and nothing else: when the text before the first fence has none and the fence
  is tagged mermaid, the contents up to the closing fence become blanks and line ends, the places of
  all other characters stay, and the text after it is treated in the same way.
\<close>

theorem mermaid_masked:
  assumes "str_find fence (pre @ fence @ ''mermaid'' @ newline # diagram @ fence @ post) = Some (length pre)"
    and "str_find fence (newline # diagram @ fence @ post) = Some (length (newline # diagram))"
  shows "mask_mermaid (pre @ fence @ ''mermaid'' @ newline # diagram @ fence @ post) =
      pre @ fence @ ''mermaid'' @ newline # map blank_out diagram @ fence @ mask_mermaid post \<and>
    length (mask_mermaid post) = length post"
proof -
  have l: "length fence = 3" by (simp add: fence_def)
  have m: "takeWhile isspace_c (''mermaid'' @ r) = []" "dropWhile isspace_c (''mermaid'' @ r) = ''mermaid'' @ r" for r
    by (simp_all add: isspace_c_def)
  have t: "takeWhile (\<lambda>c. \<not> isspace_c c) (''mermaid'' @ newline # r) = ''mermaid''"
      "dropWhile (\<lambda>c. \<not> isspace_c c) (''mermaid'' @ newline # r) = newline # r" for r
    by (simp_all add: isspace_c_def)
  have d: "drop (length u + 3) (u @ fence @ r) = r" "take (length u + 3) (u @ fence @ r) = u @ fence" for u r
    by (simp_all add: fence_def numeral_3_eq_3)
  have e: "drop (length (newline # diagram) + 3) (newline # diagram @ fence @ post) = post"
    using d(1) [of "newline # diagram" post] by (simp only: append_Cons)
  have "mask_mermaid (pre @ fence @ ''mermaid'' @ newline # diagram @ fence @ post) =
      pre @ fence @ ''mermaid'' @ newline # map blank_out diagram @ fence @ mask_mermaid post"
    unfolding mask_mermaid.simps [of "pre @ fence @ ''mermaid'' @ newline # diagram @ fence @ post"] assms(1) option.case Let_def
      d m t assms(2) e
    by (simp add: l blank_out_def fence_def)
  then show ?thesis using length_mask by simp
qed

theorem mermaid_masked_witness:
  "mask_mermaid (''Written in Rust.'' @ fence @ ''mermaid'' @ newline # ''C ->> B'' @ fence @ '' End'') =
   ''Written in Rust.'' @ fence @ ''mermaid'' @ newline # ''       '' @ fence @ '' End''"
proof -
  have "str_find fence (''Written in Rust.'' @ fence @ ''mermaid'' @ newline # ''C ->> B'' @ fence @ '' End'') =
      Some (length ''Written in Rust.'')"
    and "str_find fence (newline # ''C ->> B'' @ fence @ '' End'') = Some (length (newline # ''C ->> B''))"
    by code_simp+
  from mermaid_masked [OF this] have "mask_mermaid (''Written in Rust.'' @ fence @ ''mermaid'' @ newline # ''C ->> B'' @ fence @ '' End'') =
      ''Written in Rust.'' @ fence @ ''mermaid'' @ newline # map blank_out ''C ->> B'' @ fence @ mask_mermaid '' End''" ..
  moreover have "mask_mermaid '' End'' = '' End''" by code_simp
  ultimately show ?thesis by (simp add: blank_out_def)
qed

end
