(* ===== verification/Verifiers.thy ===== *)
theory Verifiers
  imports Facts
begin

text \<open>
  The four claim verifiers (\<open>verify/architecture_verifier.cpp\<close>, \<open>capability_verifier.cpp\<close>,
  \<open>contract_verifier.cpp\<close>, \<open>function_implements_verifier.cpp\<close>) and the interface they implement
  (\<open>verify/verifier.h\<close>).  The locale \<open>claim_verifier\<close> states what a caller may rely on: nothing is decided
  without facts, and a decision refers only to rows of the project.

  Each \<open>verify\<close> is a definition of the store's tables, the project and the claim, with every early
  return of the code as a branch.  The text of an \<open>IN (...)\<close> list is the list of ids itself.
\<close>

section \<open>The interface\<close>

definition not_ready_detail :: "bytes \<Rightarrow> query_env \<Rightarrow> fact_tables \<Rightarrow> nat \<Rightarrow> bytes" where
  "not_ready_detail name env t project =
     name @ '': evidence backend not ready (entity='' @ to_string_nat (fst (backend_counts env t project)) @
     '', relation='' @ to_string_nat (snd (backend_counts env t project)) @ '')''"

definition verdict_record :: "bytes \<Rightarrow> verdict \<Rightarrow> rat \<Rightarrow> bytes \<Rightarrow> (int \<times> int) list \<Rightarrow> evidence_record" where
  "verdict_record name v conf detail facts =
     \<lparr>rec_claim_id = 0, rec_verdict = v, rec_confidence = conf, rec_verifier = name, rec_detail = detail,
      rec_facts = facts\<rparr>"

lemma verdict_record_simps [simp]:
  "rec_verdict (verdict_record name v conf detail facts) = v"
  "rec_facts (verdict_record name v conf detail facts) = facts"
  "rec_confidence (verdict_record name v conf detail facts) = conf"
  "rec_verifier (verdict_record name v conf detail facts) = name"
  "rec_detail (verdict_record name v conf detail facts) = detail"
  by (simp_all add: verdict_record_def)

definition entity_facts :: "int list \<Rightarrow> (int \<times> int) list" where
  "entity_facts ids = map (\<lambda>i. (kFactKindNode, i)) ids"

definition edge_facts :: "int list \<Rightarrow> (int \<times> int) list" where
  "edge_facts ids = map (\<lambda>i. (kFactKindEdge, i)) ids"

text \<open>A fact that refers to a row of the project.\<close>

definition fact_of_project :: "fact_tables \<Rightarrow> nat \<Rightarrow> int \<times> int \<Rightarrow> bool" where
  "fact_of_project t project f \<longleftrightarrow>
     (fst f = kFactKindNode \<and> snd f \<in> fe_id ` set (project_entities t project)) \<or>
     (fst f = kFactKindEdge \<and> snd f \<in> fr_id ` set (calls_of t project))"

locale claim_verifier =
  fixes name :: bytes
    and verify :: "query_env \<Rightarrow> fact_tables \<Rightarrow> nat \<Rightarrow> claim \<Rightarrow> evidence_record"
  assumes named: "rec_verifier (verify env t project c) = name"
    and no_store: "\<not> has_store env \<Longrightarrow> rec_verdict (verify env t project c) = Unknown"
    and not_ready: "has_store env \<Longrightarrow> \<not> evidence_backend_ready env t project \<Longrightarrow>
      verify env t project c = verdict_record name Unknown (2 / 10) (not_ready_detail name env t project) []"
    and decided_facts: "rec_verdict (verify env t project c) = Supported \<Longrightarrow> rec_facts (verify env t project c) \<noteq> []"
    and facts_of_project: "f \<in> set (rec_facts (verify env t project c)) \<Longrightarrow> fact_of_project t project f"
    and confidence: "0 \<le> rec_confidence (verify env t project c) \<and> rec_confidence (verify env t project c) < 1"
begin

lemma decided_ready:
  assumes "rec_verdict (verify env t project c) \<noteq> Unknown"
  shows "has_store env \<and> evidence_backend_ready env t project"
proof (rule ccontr)
  assume "\<not> (has_store env \<and> evidence_backend_ready env t project)"
  then have "rec_verdict (verify env t project c) = Unknown" using no_store not_ready by (metis verdict_record_simps(1))
  then show False using assms by simp
qed

lemma decided_rows:
  "rec_verdict (verify env t project c) \<noteq> Unknown \<Longrightarrow>
     project_entities t project \<noteq> [] \<and> project_relations t project \<noteq> []"
  using decided_ready ready_has_facts by blast

lemma supported_fact:
  assumes "rec_verdict (verify env t project c) = Supported"
  shows "\<exists>f \<in> set (rec_facts (verify env t project c)). fact_of_project t project f"
  using decided_facts [OF assms] facts_of_project by (meson list.set_sel(1))

end

lemma entity_facts_project:
  "set ids \<subseteq> fe_id ` set (project_entities t project) \<Longrightarrow> f \<in> set (entity_facts ids) \<Longrightarrow> fact_of_project t project f"
  by (auto simp: entity_facts_def fact_of_project_def)

lemma edge_facts_project:
  "set ids \<subseteq> fr_id ` set (calls_of t project) \<Longrightarrow> f \<in> set (edge_facts ids) \<Longrightarrow> fact_of_project t project f"
  by (auto simp: edge_facts_def fact_of_project_def)

section \<open>ArchitectureVerifier\<close>

text \<open>The name suffixes and the path patterns of a layer.\<close>

definition layer_patterns :: "bytes \<Rightarrow> bytes list \<times> bytes list" where
  "layer_patterns layer_name =
     (let l = lower layer_name in
      if l = ''controller'' then ([layer_name], [''%/controllers/%'', ''%/api/%''])
      else if l = ''service'' then ([layer_name], [''%/services/%''])
      else if l = ''repository''
      then ([''Repository'', ''Repo'', ''Store'', ''DAO''], [''%/repository/%'', ''%/data/%''])
      else ([layer_name], [''%/'' @ l @ ''s/%'']))"

definition in_layer :: "bytes \<Rightarrow> fact_entity \<Rightarrow> bool" where
  "in_layer layer_name e \<longleftrightarrow>
     (case layer_patterns layer_name of (sufs, paths) \<Rightarrow>
        list_ex (\<lambda>s. like_match (Some backslash) (percent # lower s) (lower (fe_name e))) sufs \<or>
        list_ex (\<lambda>p. like_match None p (fe_file e)) paths)"

definition collectLayerNodes :: "query_env \<Rightarrow> fact_tables \<Rightarrow> nat \<Rightarrow> bytes \<Rightarrow> int list" where
  "collectLayerNodes env t project layer_name =
     (if layer_name = [] \<or> \<not> prepares env (LayerLookup layer_name) then []
      else rows_read env (LayerLookup layer_name)
        (map fe_id (filter (in_layer layer_name) (project_entities t project))))"

definition findReverseCalls :: "query_env \<Rightarrow> fact_tables \<Rightarrow> nat \<Rightarrow> int list \<Rightarrow> int list \<Rightarrow> int list" where
  "findReverseCalls env t project source_ids sink_ids =
     (if source_ids = [] \<or> sink_ids = [] \<or> \<not> prepares env (ReverseCalls source_ids sink_ids) then []
      else rows_read env (ReverseCalls source_ids sink_ids)
        (map fr_id (filter (\<lambda>r. fr_source r \<in> set sink_ids \<and> fr_target r \<in> set source_ids) (calls_of t project))))"

definition countForwardCalls :: "query_env \<Rightarrow> fact_tables \<Rightarrow> nat \<Rightarrow> int list \<Rightarrow> int list \<Rightarrow> nat" where
  "countForwardCalls env t project upper_ids lower_ids =
     (if upper_ids = [] \<or> lower_ids = [] then 0
      else count_read env (ForwardCalls upper_ids lower_ids)
        (length (filter (\<lambda>r. fr_source r \<in> set upper_ids \<and> fr_target r \<in> set lower_ids) (calls_of t project))))"

definition architecture_name :: bytes where "architecture_name = ''ArchitectureVerifier''"

definition layer_missing :: "bytes \<Rightarrow> evidence_record" where
  "layer_missing layer_name =
     verdict_record architecture_name Unknown (4 / 10) (''Layer '' @ CHR 0x27 # layer_name @ CHR 0x27 # '' not detected in codebase'') []"

text \<open>The decision, once the layers, the violating calls and the numbers of forward calls are known.\<close>

definition architecture_judge ::
  "claim \<Rightarrow> int list \<Rightarrow> int list \<Rightarrow> int list \<Rightarrow> int list \<Rightarrow> nat \<Rightarrow> nat \<Rightarrow> evidence_record" where
  "architecture_judge c layer1 layer2 layer3 violations forward1 forward2 =
     (if layer1 = [] then layer_missing (claim_subject c)
      else if layer2 = [] then layer_missing (claim_object c)
      else if layer3 = [] then layer_missing (claim_scope c)
      else if violations \<noteq> []
      then verdict_record architecture_name Contradicted (75 / 100)
             (''Found '' @ to_string_nat (length violations) @ '' reverse call(s) violating the layered flow'')
             (edge_facts violations)
      else if forward1 = 0 \<and> forward2 = 0
      then verdict_record architecture_name Unknown (5 / 10)
             ''No forward calls between layers; claim is vacuously true'' []
      else verdict_record architecture_name Supported (8 / 10)
             (''Layered flow verified: '' @ claim_subject c @ '' -> '' @ claim_object c @ '' -> '' @ claim_scope c @
              '' ('' @ to_string_nat (forward1 + forward2) @ '' forward calls)'')
             (entity_facts [hd layer1, hd layer2, hd layer3]))"

definition architecture_verify :: "query_env \<Rightarrow> fact_tables \<Rightarrow> nat \<Rightarrow> claim \<Rightarrow> evidence_record" where
  "architecture_verify env t project c =
     (if \<not> has_store env
      then verdict_record architecture_name Unknown 0 ''ArchitectureVerifier: store unavailable'' []
      else if \<not> evidence_backend_ready env t project
      then verdict_record architecture_name Unknown (2 / 10) (not_ready_detail architecture_name env t project) []
      else
        let layer1 = collectLayerNodes env t project (claim_subject c);
            layer2 = collectLayerNodes env t project (claim_object c);
            layer3 = collectLayerNodes env t project (claim_scope c);
            violations = findReverseCalls env t project layer1 layer3 @
              findReverseCalls env t project layer2 layer3 @ findReverseCalls env t project layer1 layer2
        in architecture_judge c layer1 layer2 layer3 violations
             (countForwardCalls env t project layer1 layer2) (countForwardCalls env t project layer2 layer3))"

lemma collectLayerNodes_ids: "set (collectLayerNodes env t project l) \<subseteq> fe_id ` set (project_entities t project)"
  using rows_read_subset [of env "LayerLookup l" "map fe_id (filter (in_layer l) (project_entities t project))"]
  by (auto simp: collectLayerNodes_def)

lemma findReverseCalls_ids: "set (findReverseCalls env t project xs ys) \<subseteq> fr_id ` set (calls_of t project)"
  using rows_read_subset [of env "ReverseCalls xs ys"
      "map fr_id (filter (\<lambda>r. fr_source r \<in> set ys \<and> fr_target r \<in> set xs) (calls_of t project))"]
  by (auto simp: findReverseCalls_def)

text \<open>A decision on lists of ids of the project has the properties of the interface.\<close>

definition sound_record :: "bytes \<Rightarrow> fact_tables \<Rightarrow> nat \<Rightarrow> evidence_record \<Rightarrow> bool" where
  "sound_record name t project r \<longleftrightarrow> rec_verifier r = name \<and> (rec_verdict r = Supported \<longrightarrow> rec_facts r \<noteq> []) \<and>
     (\<forall>f \<in> set (rec_facts r). fact_of_project t project f) \<and> 0 \<le> rec_confidence r \<and> rec_confidence r < 1"

lemma sound_no_facts [simp]:
  "sound_record name t project (verdict_record name v conf detail []) \<longleftrightarrow> v \<noteq> Supported \<and> 0 \<le> conf \<and> conf < 1"
  by (auto simp: sound_record_def)

lemma sound_facts:
  assumes "fs \<noteq> []" and "\<And>f. f \<in> set fs \<Longrightarrow> fact_of_project t project f" and "0 \<le> conf" and "conf < 1"
  shows "sound_record name t project (verdict_record name v conf detail fs)"
  using assms by (simp add: sound_record_def)

text \<open>A verifier of the common shape meets the interface as soon as its decision is sound.\<close>

lemma claim_verifierI:
  assumes "\<And>env t project c. \<not> has_store env \<Longrightarrow>
      verify env t project c = verdict_record name Unknown 0 (no_store_detail c) []"
    and "\<And>env t project c. has_store env \<Longrightarrow> \<not> evidence_backend_ready env t project \<Longrightarrow>
      verify env t project c = verdict_record name Unknown (2 / 10) (not_ready_detail name env t project) []"
    and "\<And>env t project c. has_store env \<Longrightarrow> evidence_backend_ready env t project \<Longrightarrow>
      sound_record name t project (verify env t project c)"
  shows "claim_verifier name verify"
proof -
  have sound: "sound_record name t project (verify env t project c)" for env t project c
    using assms(1) [of env t project c] assms(2) [of env t project c] assms(3) [of env t project c]
    by (cases "has_store env"; cases "evidence_backend_ready env t project") auto
  show ?thesis
    by unfold_locales (use sound assms(1,2) in \<open>auto simp: sound_record_def\<close>)
qed

lemma architecture_judge_sound:
  assumes "set layer1 \<union> set layer2 \<union> set layer3 \<subseteq> fe_id ` set (project_entities t project)"
    and "set violations \<subseteq> fr_id ` set (calls_of t project)"
  shows "sound_record architecture_name t project (architecture_judge c layer1 layer2 layer3 violations f1 f2)"
proof -
  have "set [hd layer1, hd layer2, hd layer3] \<subseteq> fe_id ` set (project_entities t project)"
    if "layer1 \<noteq> []" "layer2 \<noteq> []" "layer3 \<noteq> []"
    using assms(1) hd_in_set [OF that(1)] hd_in_set [OF that(2)] hd_in_set [OF that(3)] by auto
  then show ?thesis
    using entity_facts_project [of "[hd layer1, hd layer2, hd layer3]"] edge_facts_project [OF assms(2)]
    unfolding architecture_judge_def layer_missing_def
    by (auto intro!: sound_facts simp: edge_facts_def entity_facts_def)
qed

interpretation architecture: claim_verifier architecture_name architecture_verify
proof (rule claim_verifierI)
  fix env t project c
  assume "has_store env" "evidence_backend_ready env t project"
  then show "sound_record architecture_name t project (architecture_verify env t project c)"
    unfolding architecture_verify_def Let_def
    using collectLayerNodes_ids findReverseCalls_ids
    by (simp only: if_True if_False not_True_eq_False simp_thms) (intro architecture_judge_sound; simp)
qed (simp_all add: architecture_verify_def)

section \<open>CapabilityVerifier\<close>

definition kMinCapabilityPrefixLen :: nat where "kMinCapabilityPrefixLen = 4"

definition capability_name :: bytes where "capability_name = ''CapabilityVerifier''"

text \<open>\<open>None\<close> is the answer -1 of the code: the statement could not be prepared.\<close>

definition capability_row_matches :: "bytes \<Rightarrow> bytes \<Rightarrow> bool" where
  "capability_row_matches subject cap \<longleftrightarrow>
     like_match (Some backslash) (lower (escape_like subject @ [percent])) (lower cap)"

definition capabilityDeclared :: "query_env \<Rightarrow> fact_tables \<Rightarrow> nat \<Rightarrow> bytes \<Rightarrow> bool option" where
  "capabilityDeclared env t project subject =
     (if \<not> prepares env (CapabilityLookup subject) then None
      else Some (rows_read env (CapabilityLookup subject)
        (take 1 (filter (\<lambda>(i, p, n). p = project \<and> capability_row_matches subject n) (capabilities t))) \<noteq> []))"

text \<open>The name test of the statement of \<open>implementingEntitiesFor\<close>.\<close>

definition either_prefix :: "bytes \<Rightarrow> bytes \<Rightarrow> bool" where
  "either_prefix n s \<longleftrightarrow>
     like_match None (lower s @ [percent]) (lower n) \<or> like_match None (lower n @ [percent]) (lower s)"

definition name_implements :: "bytes \<Rightarrow> bytes \<Rightarrow> bool" where
  "name_implements subject n \<longleftrightarrow>
     lower n = lower subject \<or>
     (kMinCapabilityPrefixLen \<le> sql_length subject \<and> kMinCapabilityPrefixLen \<le> sql_length n \<and>
      (like_match None (lower subject @ [percent]) (lower n) \<or>
       like_match (Some backslash) (lower (replace_escape n) @ [percent]) (lower subject) \<or>
       (kMinCapabilityPrefixLen \<le> sql_length (sql_replace underscore [] n) \<and>
        either_prefix (sql_replace underscore [] n) (sql_replace underscore [] subject)) \<or>
       (underscore \<in> set n \<and>
        kMinCapabilityPrefixLen \<le> sql_length (sql_replace underscore [] (tl (dropWhile (\<lambda>c. c \<noteq> underscore) n))) \<and>
        either_prefix (sql_replace underscore [] (tl (dropWhile (\<lambda>c. c \<noteq> underscore) n))) (sql_replace underscore [] subject))))"

definition implements_row :: "fact_tables \<Rightarrow> nat \<Rightarrow> bytes \<Rightarrow> fact_entity \<Rightarrow> bool" where
  "implements_row t project subject e \<longleftrightarrow>
     name_implements subject (fe_name e) \<and>
     (list_ex (\<lambda>r. fr_target r = fe_id e) (calls_of t project) \<or> fe_visibility e = 1)"

definition implementingEntitiesFor :: "query_env \<Rightarrow> fact_tables \<Rightarrow> nat \<Rightarrow> bytes \<Rightarrow> int list option" where
  "implementingEntitiesFor env t project subject =
     (if \<not> prepares env (ImplementingLookup subject) then None
      else Some (rows_read env (ImplementingLookup subject)
        (map fe_id (filter (implements_row t project subject) (project_entities t project)))))"

definition in_quotes :: "bytes \<Rightarrow> bytes" where
  "in_quotes s = CHR 0x27 # s @ [CHR 0x27]"

definition capability_judge :: "claim \<Rightarrow> bool option \<Rightarrow> int list option \<Rightarrow> evidence_record" where
  "capability_judge c declared implementing =
     (case declared of
        None \<Rightarrow> verdict_record capability_name Unknown (2 / 10)
          ''CapabilityVerifier: capability lookup failed [module=verify, method=CapabilityVerifier::verify]'' []
      | Some False \<Rightarrow> verdict_record capability_name Contradicted (9 / 10)
          (''Capability '' @ in_quotes (claim_subject c) @ '' not declared in knowledge layer'') []
      | Some True \<Rightarrow>
         (case implementing of
            None \<Rightarrow> verdict_record capability_name Unknown (2 / 10)
              ''CapabilityVerifier: entity lookup failed [module=verify, method=CapabilityVerifier::verify]'' []
          | Some ids \<Rightarrow>
              if ids = []
              then verdict_record capability_name Contradicted (7 / 10)
                (''Capability '' @ in_quotes (claim_subject c) @
                 '' declared but no implementing entity (nothing calls it and it is not exported)'') []
              else verdict_record capability_name Supported (85 / 100)
                (''Capability '' @ in_quotes (claim_subject c) @ '' supported by '' @ to_string_nat (length ids) @
                 '' implementing entit'' @ (if length ids = 1 then ''y'' else ''ies''))
                (entity_facts ids)))"

definition capability_verify :: "query_env \<Rightarrow> fact_tables \<Rightarrow> nat \<Rightarrow> claim \<Rightarrow> evidence_record" where
  "capability_verify env t project c =
     (if \<not> has_store env
      then verdict_record capability_name Unknown 0 ''CapabilityVerifier: store unavailable'' []
      else if \<not> evidence_backend_ready env t project
      then verdict_record capability_name Unknown (2 / 10) (not_ready_detail capability_name env t project) []
      else capability_judge c (capabilityDeclared env t project (claim_subject c))
             (implementingEntitiesFor env t project (claim_subject c)))"

lemma implementing_ids:
  "implementingEntitiesFor env t project subject = Some ids \<Longrightarrow> set ids \<subseteq> fe_id ` set (project_entities t project)"
  using rows_read_subset [of env "ImplementingLookup subject"
      "map fe_id (filter (implements_row t project subject) (project_entities t project))"]
  by (auto simp: implementingEntitiesFor_def split: if_splits)

interpretation capability: claim_verifier capability_name capability_verify
proof (rule claim_verifierI)
  fix env t project c
  assume "has_store env" "evidence_backend_ready env t project"
  moreover have "sound_record capability_name t project (capability_judge c d ids)"
    if "\<And>i. ids = Some i \<Longrightarrow> set i \<subseteq> fe_id ` set (project_entities t project)" for d ids
    using that by (auto simp: capability_judge_def entity_facts_def fact_of_project_def
        split: option.splits bool.splits intro!: sound_facts)
  ultimately show "sound_record capability_name t project (capability_verify env t project c)"
    using implementing_ids by (simp add: capability_verify_def)
qed (simp_all add: capability_verify_def)

section \<open>ContractVerifier\<close>

definition contract_name :: bytes where "contract_name = ''ContractVerifier''"

definition normalizeContractName :: "bytes \<Rightarrow> bytes" where
  "normalizeContractName s =
     map (\<lambda>c. if isupper_c c then char_of (byte_of c - byte_of (CHR ''A'') + byte_of (CHR ''a'')) else c)
       (filter (\<lambda>c. \<not> (c = CHR ''-'' \<or> c = CHR '' '' \<or> c = CHR 0x09)) s)"

definition contractDeclared :: "query_env \<Rightarrow> fact_tables \<Rightarrow> nat \<Rightarrow> bytes \<Rightarrow> bool" where
  "contractDeclared env t project subject =
     (let canonical = normalizeContractName subject in
      prepares env (ContractLookup canonical) \<and>
      rows_read env (ContractLookup canonical)
        (take 1 (filter (\<lambda>(i, p, n). p = project \<and> n = canonical) (contracts t))) \<noteq> [])"

definition escape_underscore :: "bytes \<Rightarrow> bytes" where
  "escape_underscore s = concat (map (\<lambda>c. if c = backslash \<or> c = underscore then [backslash, c] else [c]) s)"

definition name_matches :: "bytes list \<Rightarrow> bytes \<Rightarrow> bool" where
  "name_matches patterns n \<longleftrightarrow>
     list_ex (\<lambda>p. like_match (Some backslash) (lower (escape_underscore p)) (lower n)) patterns"

definition entitiesMatchingAny :: "query_env \<Rightarrow> fact_tables \<Rightarrow> nat \<Rightarrow> bytes list \<Rightarrow> int list" where
  "entitiesMatchingAny env t project patterns =
     (if patterns = [] \<or> \<not> prepares env (PatternLookup patterns) then []
      else rows_read env (PatternLookup patterns)
        (map fe_id (filter (\<lambda>e. name_matches patterns (fe_name e)) (project_entities t project))))"

definition makeRecord :: "verdict \<Rightarrow> rat \<Rightarrow> bytes \<Rightarrow> int list \<Rightarrow> evidence_record" where
  "makeRecord v conf detail ids = verdict_record contract_name v conf detail (entity_facts ids)"

definition kSyncEvidencePatterns :: "bytes list" where
  "kSyncEvidencePatterns =
     [''%mutex%'', ''%atomic%'', ''%spinlock%'', ''%rwlock%'', ''%semaphore%'', ''%condition_variable%'',
      ''%.lock'', ''%.unlock'', ''%.rlock'', ''%.wlock'', ''%_lock'', ''%_unlock'', ''%lock_guard%'', ''%lockguard%'',
      ''%unique_lock%'', ''%shared_lock%'', ''%uniquelock%'', ''%sharedlock%'']"

definition verifyThreadSafe :: "query_env \<Rightarrow> fact_tables \<Rightarrow> nat \<Rightarrow> evidence_record" where
  "verifyThreadSafe env t project =
     (let ids = entitiesMatchingAny env t project kSyncEvidencePatterns in
      if ids \<noteq> []
      then makeRecord Supported (7 / 10) ''ThreadSafe: found mutex/atomic/lock entities'' ids
      else makeRecord Unknown (4 / 10) ''ThreadSafe: no synchronisation primitive matched (mutex/atomic/lock guard); a name pattern not matching is not evidence that the code is unsafe'' [])"

definition verifyMemorySafe :: "query_env \<Rightarrow> fact_tables \<Rightarrow> nat \<Rightarrow> evidence_record" where
  "verifyMemorySafe env t project =
     (let ids = entitiesMatchingAny env t project [''%free%'', ''%alloc%'', ''%unique_ptr%'', ''%shared_ptr%''] in
      if ids \<noteq> []
      then makeRecord Supported (6 / 10) ''MemorySafe: found memory-management entities'' ids
      else makeRecord Unknown (4 / 10) ''MemorySafe: no free/alloc/unique_ptr/shared_ptr entities found'' [])"

definition verifyZeroCopy :: "query_env \<Rightarrow> fact_tables \<Rightarrow> nat \<Rightarrow> evidence_record" where
  "verifyZeroCopy env t project =
     (let ids = entitiesMatchingAny env t project [''%span%'', ''%slice%'', ''view%'', ''%.view'', ''%_view''] in
      if ids \<noteq> []
      then makeRecord Supported (6 / 10) ''ZeroCopy: found view/span/slice entities'' ids
      else makeRecord Unknown (3 / 10) ''ZeroCopy: no view/span/slice entities found'' [])"

definition no_rule :: "claim \<Rightarrow> evidence_record" where
  "no_rule c = makeRecord Unknown (3 / 10) (''No verifier rule for contract '' @ in_quotes (claim_subject c)) []"

definition contract_verify :: "query_env \<Rightarrow> fact_tables \<Rightarrow> nat \<Rightarrow> claim \<Rightarrow> evidence_record" where
  "contract_verify env t project c =
     (if \<not> has_store env then makeRecord Unknown 0 ''ContractVerifier: store unavailable'' []
      else if \<not> evidence_backend_ready env t project
      then makeRecord Unknown (2 / 10) (not_ready_detail contract_name env t project) []
      else if \<not> contractDeclared env t project (claim_subject c)
      then makeRecord Unknown (5 / 10) ''No contract declared'' []
      else
        let subject = normalizeContractName (claim_subject c) in
        if subject = ''threadsafe'' then verifyThreadSafe env t project
        else if subject = ''memorysafe'' then verifyMemorySafe env t project
        else if subject = ''zerocopy'' then verifyZeroCopy env t project
        else no_rule c)"

lemma entity_facts_Nil [simp]: "entity_facts [] = []" "entity_facts ids = [] \<longleftrightarrow> ids = []"
  by (simp_all add: entity_facts_def)

lemma makeRecord_simps [simp]:
  "rec_verdict (makeRecord v conf detail ids) = v" "rec_facts (makeRecord v conf detail ids) = entity_facts ids"
  "rec_detail (makeRecord v conf detail ids) = detail"
  by (simp_all add: makeRecord_def)

lemma makeRecord_sound:
  "(v = Supported \<longrightarrow> ids \<noteq> []) \<Longrightarrow> set ids \<subseteq> fe_id ` set (project_entities t project) \<Longrightarrow> 0 \<le> conf \<Longrightarrow> conf < 1 \<Longrightarrow>
   sound_record contract_name t project (makeRecord v conf detail ids)"
  using entity_facts_project by (auto simp: makeRecord_def sound_record_def)

lemma matching_ids: "set (entitiesMatchingAny env t project ps) \<subseteq> fe_id ` set (project_entities t project)"
  using rows_read_subset [of env "PatternLookup ps"
      "map fe_id (filter (\<lambda>e. name_matches ps (fe_name e)) (project_entities t project))"]
  by (auto simp: entitiesMatchingAny_def)

lemmas contract_rules = verifyThreadSafe_def verifyMemorySafe_def verifyZeroCopy_def no_rule_def

interpretation contract: claim_verifier contract_name contract_verify
proof (rule claim_verifierI)
  fix env t project c
  assume "has_store env" "evidence_backend_ready env t project"
  moreover have "sound_record contract_name t project (verifyThreadSafe env t project)"
      "sound_record contract_name t project (verifyMemorySafe env t project)"
      "sound_record contract_name t project (verifyZeroCopy env t project)"
      "sound_record contract_name t project (no_rule c)"
    unfolding contract_rules Let_def by (simp_all add: makeRecord_sound matching_ids)
  moreover have "sound_record contract_name t project (makeRecord Unknown (5 / 10) ''No contract declared'' [])"
    by (rule makeRecord_sound) simp_all
  ultimately show "sound_record contract_name t project (contract_verify env t project c)"
    by (simp add: contract_verify_def Let_def)
qed (simp_all add: contract_verify_def makeRecord_def)

section \<open>FunctionImplementsVerifier\<close>

definition function_name :: bytes where "function_name = ''FunctionImplementsVerifier''"

definition kEntityKindFunction :: int where "kEntityKindFunction = 0"
definition kEntityKindMethod :: int where "kEntityKindMethod = 1"

definition named_function :: "bytes \<Rightarrow> fact_entity \<Rightarrow> bool" where
  "named_function subject e \<longleftrightarrow>
     (fe_kind e = kEntityKindFunction \<or> fe_kind e = kEntityKindMethod) \<and> lower (fe_name e) = lower subject"

definition findFunctionEntities :: "query_env \<Rightarrow> fact_tables \<Rightarrow> nat \<Rightarrow> bytes \<Rightarrow> int list option" where
  "findFunctionEntities env t project subject =
     (if \<not> has_store env \<or> \<not> has_handle env \<or> subject = [] then Some []
      else if \<not> prepares env (FunctionLookup subject) then None
      else Some (rows_read env (FunctionLookup subject)
        (map fe_id (filter (named_function subject) (project_entities t project)))))"

definition collectCallEdges :: "query_env \<Rightarrow> fact_tables \<Rightarrow> nat \<Rightarrow> int list \<Rightarrow> int list" where
  "collectCallEdges env t project ids =
     (if \<not> has_store env \<or> \<not> has_handle env \<or> ids = [] \<or> \<not> prepares env (CallEdges ids) then []
      else rows_read env (CallEdges ids)
        (take 20 (map fr_id (filter (\<lambda>r. fr_source r \<in> set ids \<or> fr_target r \<in> set ids) (calls_of t project)))))"

definition object_pattern :: "bytes \<Rightarrow> bytes" where
  "object_pattern object = map tolower_c (filter isalnum_c object)"

definition squeezed :: "bytes \<Rightarrow> bytes" where
  "squeezed n = lower (sql_replace (CHR '' '') [] (sql_replace underscore [] n))"

definition names_object :: "bytes \<Rightarrow> fact_entity \<Rightarrow> bool" where
  "names_object object e \<longleftrightarrow>
     like_match None (percent # object_pattern object @ [percent]) (squeezed (fe_name e)) \<or>
     like_match None (percent # object_pattern object @ [percent]) (squeezed (fe_qualified e))"

definition findObjectEntities :: "query_env \<Rightarrow> fact_tables \<Rightarrow> nat \<Rightarrow> bytes \<Rightarrow> int list" where
  "findObjectEntities env t project object =
     (if \<not> has_store env \<or> \<not> has_handle env \<or> object = [] \<or> object_pattern object = [] \<or>
         \<not> prepares env (ObjectLookup object) then []
      else rows_read env (ObjectLookup object)
        (take 50 (map fe_id (filter (names_object object) (project_entities t project)))))"

definition subjectCallsObject :: "query_env \<Rightarrow> fact_tables \<Rightarrow> nat \<Rightarrow> int list \<Rightarrow> int list \<Rightarrow> int list" where
  "subjectCallsObject env t project subject_ids object_ids =
     (if \<not> has_store env \<or> \<not> has_handle env \<or> subject_ids = [] \<or> object_ids = [] \<or>
         \<not> prepares env (ObjectCalls subject_ids object_ids) then []
      else rows_read env (ObjectCalls subject_ids object_ids)
        (take 50 (map fr_id
          (filter (\<lambda>r. fr_source r \<in> set subject_ids \<and> fr_target r \<in> set object_ids) (calls_of t project)))))"

definition structural_detail :: "claim \<Rightarrow> nat \<Rightarrow> nat \<Rightarrow> bytes" where
  "structural_detail c fns edges =
     ''Function '' @ in_quotes (claim_subject c) @
     '' exists and participates in the call graph (structural check only); semantic implementation of '' @
     in_quotes (claim_object c) @ '' is not verified '' @ [char_of (226 :: nat), char_of (128 :: nat), char_of (148 :: nat)] @
     '' '' @ to_string_nat fns @ '' entit(y/ies) and '' @ to_string_nat edges @ '' call edge(s) found in canonical facts''"

definition linked_detail :: "claim \<Rightarrow> nat \<Rightarrow> nat \<Rightarrow> bytes" where
  "linked_detail c objects links =
     ''Function '' @ in_quotes (claim_subject c) @ '' exists, participates in the call graph, and invokes '' @
     to_string_nat objects @ '' entit(y/ies) matching claimed object '' @ in_quotes (claim_object c) @ '' via '' @
     to_string_nat links @ '' call relation(s) '' @
     [char_of (226 :: nat), char_of (128 :: nat), char_of (148 :: nat)] @
     '' call-chain evidence for the implementation claim''"

text \<open>The facts of a linked claim: the linking calls that are not listed yet are appended.\<close>

definition append_known :: "int list \<Rightarrow> int list \<Rightarrow> int list" where
  "append_known edges links = fold (\<lambda>x known. if x \<in> set known then known else known @ [x]) links edges"

definition function_judge :: "claim \<Rightarrow> int list option \<Rightarrow> int list \<Rightarrow> int list \<Rightarrow> int list \<Rightarrow> evidence_record" where
  "function_judge c found edges object_ids links =
     (case found of
        None \<Rightarrow> verdict_record function_name Unknown (2 / 10)
          ''FunctionImplementsVerifier: function lookup failed [module=verify, method=FunctionImplementsVerifier::verify]'' []
      | Some fns \<Rightarrow>
          if fns = []
          then verdict_record function_name Contradicted (85 / 100)
            (''Function '' @ in_quotes (claim_subject c) @ '' not found in canonical entity table'') []
          else if edges = []
          then verdict_record function_name Unknown (55 / 100)
            (''Function '' @ in_quotes (claim_subject c) @ '' exists but has no callers/callees '' @
             [char_of (226 :: nat), char_of (128 :: nat), char_of (148 :: nat)] @
             '' isolated, cannot confirm it implements the claimed behavior'')
            (entity_facts fns)
          else if object_ids \<noteq> [] \<and> links \<noteq> []
          then verdict_record function_name Supported (75 / 100) (linked_detail c (length object_ids) (length links))
            (entity_facts fns @ edge_facts (append_known edges links))
          else verdict_record function_name Supported (55 / 100)
            (structural_detail c (length fns) (length edges) @
             (if object_ids \<noteq> []
              then ''; claimed object '' @ in_quotes (claim_object c) @ '' has '' @ to_string_nat (length object_ids) @
                '' entit(y/ies) in the graph, but the function does not call them (no call-chain link found)''
              else ''; claimed object '' @ in_quotes (claim_object c) @ '' has no matching entity in the graph '' @
                [char_of (226 :: nat), char_of (128 :: nat), char_of (148 :: nat)] @
                '' call-chain confirmation unavailable''))
            (entity_facts fns @ edge_facts edges))"

definition function_verify :: "query_env \<Rightarrow> fact_tables \<Rightarrow> nat \<Rightarrow> claim \<Rightarrow> evidence_record" where
  "function_verify env t project c =
     (if \<not> has_store env
      then verdict_record function_name Unknown 0 ''FunctionImplementsVerifier: store unavailable'' []
      else if \<not> evidence_backend_ready env t project
      then verdict_record function_name Unknown (2 / 10) (not_ready_detail function_name env t project) []
      else
        let found = findFunctionEntities env t project (claim_subject c);
            fns = (case found of None \<Rightarrow> [] | Some ids \<Rightarrow> ids);
            object_ids = findObjectEntities env t project (claim_object c)
        in function_judge c found (collectCallEdges env t project fns) object_ids
             (subjectCallsObject env t project fns object_ids))"

lemma found_ids:
  "findFunctionEntities env t project subject = Some ids \<Longrightarrow> set ids \<subseteq> fe_id ` set (project_entities t project)"
  using rows_read_subset [of env "FunctionLookup subject"
      "map fe_id (filter (named_function subject) (project_entities t project))"]
  by (auto simp: findFunctionEntities_def split: if_splits)

lemma edge_rows_ids:
  "set (rows_read env q (take k (map fr_id (filter P (calls_of t project))))) \<subseteq> fr_id ` set (calls_of t project)"
  using rows_read_subset [of env q "take k (map fr_id (filter P (calls_of t project)))"]
    set_take_subset [of k "map fr_id (filter P (calls_of t project))"]
  by (fastforce dest!: subsetD)

lemma call_edge_ids:
  "set (collectCallEdges env t project ids) \<subseteq> fr_id ` set (calls_of t project)"
  "set (subjectCallsObject env t project ids objs) \<subseteq> fr_id ` set (calls_of t project)"
  using edge_rows_ids by (simp_all add: collectCallEdges_def subjectCallsObject_def)

lemma set_append_known: "set (append_known edges links) = set edges \<union> set links"
  by (induction links arbitrary: edges) (auto simp: append_known_def)

lemma function_judge_sound:
  assumes "\<And>ids. found = Some ids \<Longrightarrow> set ids \<subseteq> fe_id ` set (project_entities t project)"
    and "set edges \<union> set links \<subseteq> fr_id ` set (calls_of t project)"
  shows "sound_record function_name t project (function_judge c found edges object_ids links)"
proof (cases found)
  case (Some fns)
  have nodes: "f \<in> set (entity_facts fns) \<Longrightarrow> fact_of_project t project f" for f
    by (rule entity_facts_project [OF assms(1) [OF Some]])
  have "set (append_known edges links) \<subseteq> fr_id ` set (calls_of t project)" "set edges \<subseteq> fr_id ` set (calls_of t project)"
    using assms(2) by (simp_all add: set_append_known)
  note edges = this [THEN edge_facts_project]
  show ?thesis
    unfolding function_judge_def Some using nodes edges by (auto intro!: sound_facts)
qed (simp add: function_judge_def)

interpretation function_claims: claim_verifier function_name function_verify
proof (rule claim_verifierI)
  fix env t project c
  assume "has_store env" "evidence_backend_ready env t project"
  then show "sound_record function_name t project (function_verify env t project c)"
    using found_ids call_edge_ids by (simp add: function_verify_def Let_def function_judge_sound)
qed (simp_all add: function_verify_def)

section \<open>Dispatch\<close>

text \<open>\<open>makeVerifierForClaim\<close> and the call of \<open>verify\<close> on the result.\<close>

definition verify_fresh :: "query_env \<Rightarrow> fact_tables \<Rightarrow> nat \<Rightarrow> claim \<Rightarrow> evidence_record" where
  "verify_fresh env t project c =
     (case claim_kind c of
        CapabilityExists \<Rightarrow> capability_verify env t project c
      | ContractHolds \<Rightarrow> contract_verify env t project c
      | ArchitectureFollows \<Rightarrow> architecture_verify env t project c
      | FunctionImplements \<Rightarrow> function_verify env t project c)"

definition verifier_of :: "claim_type \<Rightarrow> bytes" where
  "verifier_of k =
     (case k of CapabilityExists \<Rightarrow> capability_name | ContractHolds \<Rightarrow> contract_name
      | ArchitectureFollows \<Rightarrow> architecture_name | FunctionImplements \<Rightarrow> function_name)"

end
