(* ===== verification/Verdicts.thy ===== *)
theory Verdicts
  imports Verifiers
begin

text \<open>
  What a verdict of each verifier means: in a healthy store every verdict is characterised by the stored
  facts, and with statements that fail or are interrupted it is shown what is still guaranteed.
\<close>

section \<open>What each verdict means\<close>

text \<open>In a healthy store the lookups answer for the whole tables.\<close>

lemma filter_nonempty_iff: "filter P xs \<noteq> [] \<longleftrightarrow> (\<exists>x \<in> set xs. P x)"
  by (simp add: filter_empty_conv)

definition declares :: "fact_tables \<Rightarrow> nat \<Rightarrow> bytes \<Rightarrow> bool" where
  "declares t project s \<longleftrightarrow> (\<exists>i n. (i, project, n) \<in> set (capabilities t) \<and> prefix (lower s) (lower n))"

definition implementing :: "fact_tables \<Rightarrow> nat \<Rightarrow> bytes \<Rightarrow> fact_entity set" where
  "implementing t project s =
     {e \<in> set (entities t). fe_project e = project \<and> name_implements s (fe_name e) \<and>
        ((\<exists>x \<in> set (relations t). fr_project x = project \<and> fr_type x = 1 \<and> fr_target x = fe_id e) \<or> fe_visibility e = 1)}"

lemma capability_declared_healthy: "capabilityDeclared healthy t project subject = Some (declares t project subject)"
proof -
  have m: "capability_row_matches subject n \<longleftrightarrow> prefix (lower subject) (lower n)" for n
    using like_escaped_prefix [of "lower subject" "lower n"]
    by (simp add: capability_row_matches_def lower_escape_like comp_def)
  show ?thesis
    by (auto simp: capabilityDeclared_def declares_def m take_eq_Nil filter_empty_conv split: prod.splits)
qed

text \<open>
  (C19) A capability claim is judged by the stored facts: with a healthy store that has facts it is
  Supported exactly if a declared capability begins with the subject (upper and lower case alike) and an
  entity of the project with a matching name is called or exported, and Contradicted otherwise; its
  facts are exactly those entities.
\<close>

theorem capability_verdict_exact:
  assumes "evidence_backend_ready healthy t project"
  shows "rec_verdict (capability_verify healthy t project c) =
      (if declares t project (claim_subject c) \<and> implementing t project (claim_subject c) \<noteq> {}
       then Supported else Contradicted) \<and>
    set (rec_facts (capability_verify healthy t project c)) =
      (if declares t project (claim_subject c) then Pair 0 ` fe_id ` implementing t project (claim_subject c) else {})"
proof -
  let ?s = "claim_subject c"
  have rows: "set (filter (implements_row t project ?s) (project_entities t project)) = implementing t project ?s"
    by (auto simp: implementing_def implements_row_def project_entities_def calls_of_def project_relations_def
        kRelationTypeCalls_def list_ex_iff)
  then have ids: "implementingEntitiesFor healthy t project ?s =
      Some (map fe_id (filter (implements_row t project ?s) (project_entities t project)))"
    by (simp add: implementingEntitiesFor_def)
  have verify: "capability_verify healthy t project c =
      capability_judge c (capabilityDeclared healthy t project ?s) (implementingEntitiesFor healthy t project ?s)"
    using assms by (simp add: capability_verify_def)
  have empty: "filter (implements_row t project ?s) (project_entities t project) = [] \<longleftrightarrow> implementing t project ?s = {}"
    using rows by (metis set_empty)
  have facts: "set (entity_facts (map fe_id (filter (implements_row t project ?s) (project_entities t project)))) =
      Pair 0 ` fe_id ` implementing t project ?s"
    unfolding rows [symmetric] by (simp add: entity_facts_def kFactKindNode_def image_image)
  show ?thesis
    unfolding verify capability_declared_healthy ids
    using empty facts by (simp add: capability_judge_def split: bool.splits)
qed

definition demo_entity :: "int \<Rightarrow> bytes \<Rightarrow> bytes \<Rightarrow> fact_entity" where
  "demo_entity i n f = \<lparr>fe_id = i, fe_project = 1, fe_kind = 0, fe_name = n, fe_qualified = n, fe_file = f,
     fe_language = ''cpp'', fe_visibility = 0\<rparr>"

definition demo_call :: "int \<Rightarrow> int \<Rightarrow> int \<Rightarrow> fact_relation" where
  "demo_call i a b = \<lparr>fr_id = i, fr_project = 1, fr_source = a, fr_target = b, fr_type = 1\<rparr>"

definition demo_tables :: fact_tables where
  "demo_tables =
     \<lparr>entities = [demo_entity 1 ''UserController'' ''/p/a.cpp'', demo_entity 2 ''UserService'' ''/p/b.cpp'',
        demo_entity 3 ''UserRepo'' ''/p/c.cpp'', demo_entity 4 ''incremental_index'' ''/p/d.cpp''],
      relations = [demo_call 10 1 2, demo_call 11 2 3, demo_call 12 3 4],
      capabilities = [(5, 1, ''IncrementalIndex'')], contracts = [(6, 1, ''threadsafe'')], readmes = []\<rparr>"

definition subject_claim :: "claim_type \<Rightarrow> bytes \<Rightarrow> claim" where
  "subject_claim k s = new_claim\<lparr>claim_kind := k, claim_subject := s\<rparr>"

lemma demo_ready [simp]: "evidence_backend_ready healthy demo_tables 1"
  by (simp add: evidence_backend_ready_def backend_counts_def project_entities_def project_relations_def demo_tables_def
      demo_entity_def demo_call_def)

lemma subject_claim_simps [simp]: "claim_subject (subject_claim k s) = s" "claim_kind (subject_claim k s) = k"
  by (simp_all add: subject_claim_def)

lemma demo_declared:
  "declares demo_tables 1 ''IncrementalIndex''"
  "demo_entity 4 ''incremental_index'' ''/p/d.cpp'' \<in> implementing demo_tables 1 ''IncrementalIndex''"
proof -
  show "declares demo_tables 1 ''IncrementalIndex''" by (auto simp: declares_def demo_tables_def)
  have "name_implements ''IncrementalIndex'' ''incremental_index''" by code_simp
  then show "demo_entity 4 ''incremental_index'' ''/p/d.cpp'' \<in> implementing demo_tables 1 ''IncrementalIndex''"
    by (simp add: implementing_def demo_tables_def demo_entity_def demo_call_def)
qed

theorem capability_verdict_exact_witness:
  "rec_verdict (capability_verify healthy demo_tables 1 (subject_claim CapabilityExists ''IncrementalIndex'')) = Supported \<and>
   (0, 4) \<in> set (rec_facts (capability_verify healthy demo_tables 1 (subject_claim CapabilityExists ''IncrementalIndex'')))"
proof -
  let ?I = "implementing demo_tables 1 ''IncrementalIndex''"
  have "(0, fe_id (demo_entity 4 ''incremental_index'' ''/p/d.cpp'')) \<in> Pair 0 ` fe_id ` ?I"
    using demo_declared(2) by blast
  then have "(0, 4) \<in> Pair (0 :: int) ` fe_id ` ?I" by (simp add: demo_entity_def)
  moreover have "?I \<noteq> {}" using demo_declared(2) by blast
  ultimately show ?thesis
    using capability_verdict_exact [OF demo_ready, of "subject_claim CapabilityExists ''IncrementalIndex''"] demo_declared(1)
    unfolding subject_claim_simps by presburger
qed

text \<open>
  A subject longer than every declared name is always refused: the lookup asks for a name that
  begins with the subject, so the stored short form \<open>IncrementalIndex\<close> does not declare the subject
  \<open>IncrementalIndexing\<close> that the comment of the lookup takes for a match.
\<close>

theorem long_subject_contradicted:
  assumes "evidence_backend_ready healthy t project"
    and "list_all (\<lambda>(i, p, n). length n < length (claim_subject c)) (capabilities t)"
  shows "rec_verdict (capability_verify healthy t project c) = Contradicted \<and>
    rec_confidence (capability_verify healthy t project c) = 9 / 10"
proof -
  have "\<not> declares t project (claim_subject c)"
    using assms(2) by (fastforce simp: declares_def list_all_iff dest: prefix_length_le)
  then have "capabilityDeclared healthy t project (claim_subject c) = Some False"
    unfolding capability_declared_healthy by blast
  then show ?thesis using assms(1) by (simp add: capability_verify_def capability_judge_def)
qed

theorem long_subject_contradicted_witness:
  "rec_verdict (capability_verify healthy demo_tables 1 (subject_claim CapabilityExists ''IncrementalIndexing'')) = Contradicted \<and>
   name_implements ''IncrementalIndexing'' ''incremental_index''"
proof
  have "list_all (\<lambda>(i, p, n). length n < length (claim_subject (subject_claim CapabilityExists ''IncrementalIndexing'')))
      (capabilities demo_tables)"
    by (simp add: demo_tables_def)
  from long_subject_contradicted [OF demo_ready this]
  show "rec_verdict (capability_verify healthy demo_tables 1 (subject_claim CapabilityExists ''IncrementalIndexing'')) = Contradicted"
    by simp
  show "name_implements ''IncrementalIndexing'' ''incremental_index''" by code_simp
qed

text \<open>The members of a layer, and the calls from one set of entities to another.\<close>

definition layer :: "fact_tables \<Rightarrow> nat \<Rightarrow> bytes \<Rightarrow> int set" where
  "layer t project l = (if l = [] then {} else {fe_id e | e. e \<in> set (entities t) \<and> fe_project e = project \<and> in_layer l e})"

definition call_between :: "fact_tables \<Rightarrow> nat \<Rightarrow> int set \<Rightarrow> int set \<Rightarrow> bool" where
  "call_between t project A B \<longleftrightarrow>
     (\<exists>r \<in> set (relations t). fr_project r = project \<and> fr_type r = 1 \<and> fr_source r \<in> A \<and> fr_target r \<in> B)"

lemma set_calls_of: "set (calls_of t project) = {r \<in> set (relations t). fr_project r = project \<and> fr_type r = 1}"
  by (auto simp: calls_of_def project_relations_def kRelationTypeCalls_def)

lemma collectLayerNodes_healthy: "set (collectLayerNodes healthy t project l) = layer t project l"
  by (auto simp: collectLayerNodes_def layer_def project_entities_def)

lemma findReverseCalls_healthy:
  "findReverseCalls healthy t project xs ys \<noteq> [] \<longleftrightarrow> call_between t project (set ys) (set xs)"
  by (auto simp: findReverseCalls_def call_between_def set_calls_of filter_empty_conv)

lemma countForwardCalls_healthy:
  "countForwardCalls healthy t project xs ys \<noteq> 0 \<longleftrightarrow> call_between t project (set xs) (set ys)"
  by (auto simp: countForwardCalls_def call_between_def set_calls_of filter_empty_conv)

lemma architecture_judge_verdict:
  "rec_verdict (architecture_judge c l1 l2 l3 v f1 f2) =
     (if l1 = [] \<or> l2 = [] \<or> l3 = [] then Unknown
      else if v \<noteq> [] then Contradicted
      else if f1 \<noteq> 0 \<or> f2 \<noteq> 0 then Supported else Unknown)"
  by (auto simp: architecture_judge_def layer_missing_def)

text \<open>
  (C20) A layered flow is judged by the stored calls: with a healthy store that has facts the claim is
  Unknown if one of the three layers has no member, Contradicted if a member of a lower layer calls a
  member of a higher one, Supported if there is no such call and one from a layer to the next, and
  Unknown otherwise.
\<close>

theorem architecture_verdict_exact:
  assumes "evidence_backend_ready healthy t project"
  shows "rec_verdict (architecture_verify healthy t project c) =
    (let A = layer t project (claim_subject c); B = layer t project (claim_object c); C = layer t project (claim_scope c)
     in if A = {} \<or> B = {} \<or> C = {} then Unknown
        else if call_between t project C A \<or> call_between t project C B \<or> call_between t project B A then Contradicted
        else if call_between t project A B \<or> call_between t project B C then Supported else Unknown)"
proof -
  let ?l = "collectLayerNodes healthy t project"
  have empty: "?l l = [] \<longleftrightarrow> layer t project l = {}" for l
    unfolding collectLayerNodes_healthy [symmetric] by simp
  have verify: "architecture_verify healthy t project c =
      architecture_judge c (?l (claim_subject c)) (?l (claim_object c)) (?l (claim_scope c))
        (findReverseCalls healthy t project (?l (claim_subject c)) (?l (claim_scope c)) @
         findReverseCalls healthy t project (?l (claim_object c)) (?l (claim_scope c)) @
         findReverseCalls healthy t project (?l (claim_subject c)) (?l (claim_object c)))
        (countForwardCalls healthy t project (?l (claim_subject c)) (?l (claim_object c)))
        (countForwardCalls healthy t project (?l (claim_object c)) (?l (claim_scope c)))"
    using assms by (simp add: architecture_verify_def Let_def)
  show ?thesis
    unfolding verify architecture_judge_verdict empty append_is_Nil_conv de_Morgan_conj findReverseCalls_healthy
      countForwardCalls_healthy collectLayerNodes_healthy Let_def
    by simp
qed

definition layered_claim :: claim where
  "layered_claim = new_claim\<lparr>claim_kind := ArchitectureFollows, claim_subject := ''Controller'', claim_object := ''Service'',
     claim_scope := ''Repository''\<rparr>"

lemma demo_layers:
  "layer demo_tables 1 ''Controller'' = {1}" "layer demo_tables 1 ''Service'' = {2}" "layer demo_tables 1 ''Repository'' = {3}"
proof -
  have "map (\<lambda>l. map fe_id (filter (\<lambda>e. fe_project e = 1 \<and> in_layer l e) (entities demo_tables)))
      [''Controller'', ''Service'', ''Repository''] = [[1], [2], [3]]" by code_simp
  then have lists: "set (map fe_id (filter (\<lambda>e. fe_project e = 1 \<and> in_layer ''Controller'' e) (entities demo_tables))) = {1}"
      "set (map fe_id (filter (\<lambda>e. fe_project e = 1 \<and> in_layer ''Service'' e) (entities demo_tables))) = {2}"
      "set (map fe_id (filter (\<lambda>e. fe_project e = 1 \<and> in_layer ''Repository'' e) (entities demo_tables))) = {3}"
    by (simp_all del: set_map)
  have "layer demo_tables 1 l = set (map fe_id (filter (\<lambda>e. fe_project e = 1 \<and> in_layer l e) (entities demo_tables)))"
    if "l \<noteq> []" for l
    using that by (auto simp: layer_def)
  then show "layer demo_tables 1 ''Controller'' = {1}" "layer demo_tables 1 ''Service'' = {2}"
      "layer demo_tables 1 ''Repository'' = {3}"
    using lists by simp_all
qed

theorem architecture_verdict_exact_witness:
  "rec_verdict (architecture_verify healthy demo_tables 1 layered_claim) = Supported"
proof -
  have c: "claim_subject layered_claim = ''Controller''" "claim_object layered_claim = ''Service''"
      "claim_scope layered_claim = ''Repository''"
    by (simp_all add: layered_claim_def)
  show ?thesis
    using architecture_verdict_exact [OF demo_ready, of layered_claim]
    unfolding c demo_layers by (simp add: call_between_def demo_tables_def demo_call_def)
qed

text \<open>
  One entity that belongs to two layers refutes a flow by calling itself: a recursive function whose
  name ends in Service and whose file lies under \<open>/api/\<close> is a member of the controller layer and of the
  service layer, so its call of itself counts as a call of a lower layer to a higher one.
\<close>

theorem recursive_member_contradicts:
  assumes "evidence_backend_ready healthy t project"
    and "layer t project (claim_scope c) \<noteq> {}"
    and "x \<in> layer t project (claim_subject c)" and "x \<in> layer t project (claim_object c)"
    and "call_between t project {x} {x}"
  shows "rec_verdict (architecture_verify healthy t project c) = Contradicted"
proof -
  have "call_between t project (layer t project (claim_object c)) (layer t project (claim_subject c))"
    using assms(3-5) by (auto simp: call_between_def)
  then show ?thesis
    using architecture_verdict_exact [OF assms(1), of c] assms(2-4) by (auto simp: Let_def)
qed

definition recursive_tables :: fact_tables where
  "recursive_tables =
     \<lparr>entities = [demo_entity 1 ''UserService'' ''/p/api/a.cpp'', demo_entity 3 ''UserRepo'' ''/p/c.cpp''],
      relations = [demo_call 10 1 3, demo_call 11 1 1], capabilities = [], contracts = [], readmes = []\<rparr>"

theorem recursive_member_contradicts_witness:
  "rec_verdict (architecture_verify healthy recursive_tables 1 layered_claim) = Contradicted"
proof -
  have r: "evidence_backend_ready healthy recursive_tables 1"
    by (simp add: evidence_backend_ready_def backend_counts_def project_entities_def project_relations_def
        recursive_tables_def demo_entity_def demo_call_def)
  have l: "in_layer ''Controller'' (demo_entity 1 ''UserService'' ''/p/api/a.cpp'')"
      "in_layer ''Service'' (demo_entity 1 ''UserService'' ''/p/api/a.cpp'')"
      "in_layer ''Repository'' (demo_entity 3 ''UserRepo'' ''/p/c.cpp'')"
    by code_simp+
  have member: "fe_id e \<in> layer recursive_tables 1 l" if "e \<in> set (entities recursive_tables)" "fe_project e = 1" "in_layer l e" "l \<noteq> []"
    for e l
    using that by (auto simp: layer_def)
  have "1 \<in> layer recursive_tables 1 ''Controller''" "1 \<in> layer recursive_tables 1 ''Service''"
      "3 \<in> layer recursive_tables 1 ''Repository''"
    using member [OF _ _ l(1)] member [OF _ _ l(2)] member [OF _ _ l(3)]
    by (simp_all add: recursive_tables_def demo_entity_def)
  moreover have "call_between recursive_tables 1 {1} {1}"
    by (simp add: call_between_def recursive_tables_def demo_call_def)
  ultimately show ?thesis
    using recursive_member_contradicts [OF r, of layered_claim 1] by (auto simp: layered_claim_def)
qed

text \<open>The name patterns behind each contract that has a rule.\<close>

definition contract_patterns :: "bytes \<Rightarrow> bytes list option" where
  "contract_patterns canonical =
     (if canonical = ''threadsafe'' then Some kSyncEvidencePatterns
      else if canonical = ''memorysafe'' then Some [''%free%'', ''%alloc%'', ''%unique_ptr%'', ''%shared_ptr%'']
      else if canonical = ''zerocopy'' then Some [''%span%'', ''%slice%'', ''view%'', ''%.view'', ''%_view'']
      else None)"

definition matching_entities :: "fact_tables \<Rightarrow> nat \<Rightarrow> bytes list \<Rightarrow> int set" where
  "matching_entities t project ps = {fe_id e | e. e \<in> set (entities t) \<and> fe_project e = project \<and> name_matches ps (fe_name e)}"

lemma entitiesMatchingAny_healthy:
  "ps \<noteq> [] \<Longrightarrow> set (entitiesMatchingAny healthy t project ps) = matching_entities t project ps"
  by (auto simp: entitiesMatchingAny_def matching_entities_def project_entities_def)

text \<open>
  A contract is never contradicted: whatever the store answers, the verdict is Supported or Unknown.
  With a healthy store that has facts it is Supported exactly if the contract is declared, has a rule,
  and an entity of the project has a name one of the patterns of the rule matches.
\<close>

theorem contract_verdict_exact:
  "rec_verdict (contract_verify env t project c) \<noteq> Contradicted \<and>
   (evidence_backend_ready healthy t project \<longrightarrow>
      rec_verdict (contract_verify healthy t project c) =
        (if (\<exists>i. (i, project, normalizeContractName (claim_subject c)) \<in> set (contracts t)) \<and>
            (\<exists>ps. contract_patterns (normalizeContractName (claim_subject c)) = Some ps \<and> matching_entities t project ps \<noteq> {})
         then Supported else Unknown))"
proof
  show "rec_verdict (contract_verify env t project c) \<noteq> Contradicted"
    by (simp add: contract_verify_def contract_rules Let_def)
  have declared: "contractDeclared healthy t project s \<longleftrightarrow> (\<exists>i. (i, project, normalizeContractName s) \<in> set (contracts t))" for s
    by (auto simp: contractDeclared_def Let_def take_eq_Nil filter_empty_conv)
  have found: "entitiesMatchingAny healthy t project ps \<noteq> [] \<longleftrightarrow> matching_entities t project ps \<noteq> {}" if "ps \<noteq> []" for ps
    unfolding entitiesMatchingAny_healthy [OF that, symmetric] by simp
  have sync: "kSyncEvidencePatterns \<noteq> []" by (simp add: kSyncEvidencePatterns_def)
  have rules: "rec_verdict (verifyThreadSafe healthy t project) =
        (if matching_entities t project kSyncEvidencePatterns \<noteq> {} then Supported else Unknown)"
      "rec_verdict (verifyMemorySafe healthy t project) =
        (if matching_entities t project [''%free%'', ''%alloc%'', ''%unique_ptr%'', ''%shared_ptr%''] \<noteq> {} then Supported else Unknown)"
      "rec_verdict (verifyZeroCopy healthy t project) =
        (if matching_entities t project [''%span%'', ''%slice%'', ''view%'', ''%.view'', ''%_view''] \<noteq> {} then Supported else Unknown)"
      "rec_verdict (no_rule c) = Unknown"
    unfolding contract_rules Let_def
    by (subst found [symmetric], simp add: sync, simp)+ simp
  show "evidence_backend_ready healthy t project \<longrightarrow>
      rec_verdict (contract_verify healthy t project c) =
        (if (\<exists>i. (i, project, normalizeContractName (claim_subject c)) \<in> set (contracts t)) \<and>
            (\<exists>ps. contract_patterns (normalizeContractName (claim_subject c)) = Some ps \<and> matching_entities t project ps \<noteq> {})
         then Supported else Unknown)"
  proof
    assume ready: "evidence_backend_ready healthy t project"
    define n where "n = normalizeContractName (claim_subject c)"
    have "contract_verify healthy t project c =
        (if \<not> (\<exists>i. (i, project, n) \<in> set (contracts t)) then makeRecord Unknown (5 / 10) ''No contract declared'' []
         else if n = ''threadsafe'' then verifyThreadSafe healthy t project
         else if n = ''memorysafe'' then verifyMemorySafe healthy t project
         else if n = ''zerocopy'' then verifyZeroCopy healthy t project else no_rule c)"
      unfolding contract_verify_def Let_def declared n_def [symmetric] using ready by simp
    then show "rec_verdict (contract_verify healthy t project c) =
        (if (\<exists>i. (i, project, normalizeContractName (claim_subject c)) \<in> set (contracts t)) \<and>
            (\<exists>ps. contract_patterns (normalizeContractName (claim_subject c)) = Some ps \<and> matching_entities t project ps \<noteq> {})
         then Supported else Unknown)"
      unfolding n_def [symmetric] contract_patterns_def by (simp add: rules)
  qed
qed

theorem contract_verdict_exact_witness:
  "rec_verdict (contract_verify healthy demo_tables 1 (subject_claim ContractHolds ''thread-safe'')) = Unknown \<and>
   evidence_backend_ready healthy demo_tables 1"
proof -
  have n: "normalizeContractName (claim_subject (subject_claim ContractHolds ''thread-safe'')) = ''threadsafe''" by code_simp
  have "list_ex (\<lambda>e. name_matches kSyncEvidencePatterns (fe_name e)) (entities demo_tables) = False" by code_simp
  then have "matching_entities demo_tables 1 kSyncEvidencePatterns = {}"
    by (auto simp: matching_entities_def list_ex_iff)
  then show ?thesis
    using contract_verdict_exact [of healthy demo_tables 1 "subject_claim ContractHolds ''thread-safe''"]
    unfolding n using demo_ready by (simp add: contract_patterns_def del: One_nat_def)
qed

text \<open>The functions a claim names, and the entities its object names.\<close>

definition functions_named :: "fact_tables \<Rightarrow> nat \<Rightarrow> bytes \<Rightarrow> int set" where
  "functions_named t project s =
     (if s = [] then {} else {fe_id e | e. e \<in> set (entities t) \<and> fe_project e = project \<and> named_function s e})"

definition objects_named :: "fact_tables \<Rightarrow> nat \<Rightarrow> bytes \<Rightarrow> int set" where
  "objects_named t project s = {fe_id e | e. e \<in> set (entities t) \<and> fe_project e = project \<and> names_object s e}"

lemma function_judge_verdict:
  "rec_verdict (function_judge c found edges objs links) =
     (case found of None \<Rightarrow> Unknown
      | Some fns \<Rightarrow> if fns = [] then Contradicted else if edges = [] then Unknown else Supported)"
  "rec_confidence (function_judge c found edges objs links) = 75 / 100 \<Longrightarrow> objs \<noteq> [] \<and> links \<noteq> []"
  by (auto simp: function_judge_def split: option.splits if_splits)

lemma take_map_filter_empty: "0 < k \<Longrightarrow> take k (map f (filter P xs)) \<noteq> [] \<longleftrightarrow> (\<exists>x \<in> set xs. P x)"
  by (auto simp: take_eq_Nil filter_empty_conv)

text \<open>
  A claim about a function is judged by the stored facts: with a healthy store that has facts it is
  Contradicted if no function or method of the project has the name (upper and lower case alike),
  Supported if one has it and takes part in a call, Unknown if none of them does; and the higher
  confidence is only given when such a function calls an entity whose name contains the object.
\<close>

theorem function_verdict_exact:
  assumes "evidence_backend_ready healthy t project"
  shows "rec_verdict (function_verify healthy t project c) =
      (let F = functions_named t project (claim_subject c)
       in if F = {} then Contradicted
          else if call_between t project F UNIV \<or> call_between t project UNIV F then Supported else Unknown) \<and>
    (rec_confidence (function_verify healthy t project c) = 75 / 100 \<longrightarrow>
      call_between t project (functions_named t project (claim_subject c)) (objects_named t project (claim_object c)))"
proof -
  let ?F = "functions_named t project (claim_subject c)"
  obtain fns where fns: "findFunctionEntities healthy t project (claim_subject c) = Some fns" "set fns = ?F"
    by (cases "claim_subject c = []")
      (auto simp: findFunctionEntities_def functions_named_def project_entities_def)
  define objs where "objs = findObjectEntities healthy t project (claim_object c)"
  have objs: "set objs \<subseteq> objects_named t project (claim_object c)"
    unfolding objs_def findObjectEntities_def objects_named_def
    by (auto simp: project_entities_def dest!: in_set_takeD)
  have verify: "function_verify healthy t project c =
      function_judge c (Some fns) (collectCallEdges healthy t project fns) objs (subjectCallsObject healthy t project fns objs)"
    using assms fns(1) by (simp add: function_verify_def Let_def objs_def)
  have edges: "collectCallEdges healthy t project fns \<noteq> [] \<longleftrightarrow>
      call_between t project ?F UNIV \<or> call_between t project UNIV ?F" if "fns \<noteq> []"
  proof -
    have "collectCallEdges healthy t project fns =
        take 20 (map fr_id (filter (\<lambda>r. fr_source r \<in> set fns \<or> fr_target r \<in> set fns) (calls_of t project)))"
      using that by (simp add: collectCallEdges_def)
    then show ?thesis
      unfolding fns(2) [symmetric] call_between_def
      by (auto simp: take_map_filter_empty set_calls_of simp del: take_eq_Nil take_eq_Nil2)
  qed
  have links: "call_between t project ?F (objects_named t project (claim_object c))"
    if "subjectCallsObject healthy t project fns objs \<noteq> []"
  proof -
    have "take 50 (map fr_id (filter (\<lambda>r. fr_source r \<in> set fns \<and> fr_target r \<in> set objs) (calls_of t project))) \<noteq> []"
      using that by (simp add: subjectCallsObject_def split: if_splits)
    then obtain r where "r \<in> set (calls_of t project)" "fr_source r \<in> set fns" "fr_target r \<in> set objs"
      by (auto simp: filter_empty_conv)
    then show ?thesis using fns(2) objs by (auto simp: call_between_def set_calls_of)
  qed
  have "fns = [] \<longleftrightarrow> ?F = {}" using fns(2) by (metis set_empty)
  then show ?thesis
    unfolding verify function_judge_verdict Let_def option.case
    using edges links function_judge_verdict(2) by auto
qed

theorem function_verdict_exact_witness:
  "rec_verdict (function_verify healthy demo_tables 1 (subject_claim FunctionImplements ''userservice'')) = Supported"
proof -
  have "functions_named demo_tables 1 ''userservice'' =
      set (map fe_id (filter (\<lambda>e. fe_project e = 1 \<and> named_function ''userservice'' e) (entities demo_tables)))"
    by (auto simp: functions_named_def)
  also have "\<dots> = {2}"
  proof -
    have "map fe_id (filter (\<lambda>e. fe_project e = 1 \<and> named_function ''userservice'' e) (entities demo_tables)) = [2]"
      by code_simp
    then show ?thesis by (simp only: list.set)
  qed
  finally have F: "functions_named demo_tables 1 ''userservice'' = {2}" .
  show ?thesis
    using function_verdict_exact [OF demo_ready, of "subject_claim FunctionImplements ''userservice''"]
    unfolding subject_claim_simps F by (simp add: call_between_def demo_tables_def demo_call_def)
qed

section \<open>Lookups that fail\<close>

text \<open>
  A lookup that cannot be prepared decides nothing: if the statement that looks for the capability,
  for the implementing entities of a declared capability, or for the function fails, the verdict is
  Unknown, never Contradicted.
\<close>

theorem failed_lookup_unknown:
  "(\<not> prepares env (CapabilityLookup (claim_subject c)) \<longrightarrow> rec_verdict (capability_verify env t project c) = Unknown) \<and>
   (\<not> prepares env (ImplementingLookup (claim_subject c)) \<longrightarrow> capabilityDeclared env t project (claim_subject c) = Some True \<longrightarrow>
      rec_verdict (capability_verify env t project c) = Unknown) \<and>
   (\<not> prepares env (FunctionLookup (claim_subject c)) \<longrightarrow> claim_subject c \<noteq> [] \<longrightarrow>
      rec_verdict (function_verify env t project c) = Unknown)"
proof (intro conjI impI)
  assume "\<not> prepares env (CapabilityLookup (claim_subject c))"
  then show "rec_verdict (capability_verify env t project c) = Unknown"
    by (simp add: capability_verify_def capabilityDeclared_def capability_judge_def)
next
  assume "\<not> prepares env (ImplementingLookup (claim_subject c))" "capabilityDeclared env t project (claim_subject c) = Some True"
  then show "rec_verdict (capability_verify env t project c) = Unknown"
    by (simp add: capability_verify_def implementingEntitiesFor_def capability_judge_def)
next
  assume "\<not> prepares env (FunctionLookup (claim_subject c))" "claim_subject c \<noteq> []"
  moreover have "has_handle env" if "has_store env" "evidence_backend_ready env t project"
    using that by (auto simp: evidence_backend_ready_def backend_counts_def split: if_splits)
  ultimately show "rec_verdict (function_verify env t project c) = Unknown"
    by (simp add: function_verify_def findFunctionEntities_def Let_def function_judge_def)
qed

definition interrupted_at :: "query \<Rightarrow> query_env" where
  "interrupted_at q = healthy\<lparr>stops_after := (\<lambda>x. if x = q then Some 0 else None)\<rparr>"

definition unprepared :: "query \<Rightarrow> query_env" where
  "unprepared q = healthy\<lparr>prepares := (\<lambda>x. x \<noteq> q)\<rparr>"

theorem failed_lookup_unknown_witness:
  "rec_verdict (function_verify (unprepared (FunctionLookup ''userservice'')) demo_tables 1
     (subject_claim FunctionImplements ''userservice'')) = Unknown"
  using failed_lookup_unknown [of "unprepared (FunctionLookup ''userservice'')"
      "subject_claim FunctionImplements ''userservice''" demo_tables 1]
  by (simp add: unprepared_def)

text \<open>
  A lookup that is interrupted decides all the same: when \<open>sqlite3_step\<close> answers an error instead
  of the first row (the query deadline, for instance), the capability is taken for undeclared and the
  function for missing, and the verdict is Contradicted whatever the tables hold.
\<close>

theorem interrupted_lookup_contradicts:
  assumes "evidence_backend_ready healthy t project" and "claim_subject c \<noteq> []"
  shows "rec_verdict (capability_verify (interrupted_at (CapabilityLookup (claim_subject c))) t project c) = Contradicted \<and>
    rec_verdict (function_verify (interrupted_at (FunctionLookup (claim_subject c))) t project c) = Contradicted"
proof -
  have ready: "evidence_backend_ready (interrupted_at q) t project" "has_store (interrupted_at q)" "has_handle (interrupted_at q)"
      "prepares (interrupted_at q) x" "rows_read (interrupted_at q) q rows = []"
    if "q \<noteq> CountEntities" "q \<noteq> CountRelations" for q x and rows :: "'a list"
    using assms(1) that
    by (simp_all add: interrupted_at_def evidence_backend_ready_def backend_counts_def count_read_def rows_read_def)
  show ?thesis
    by (simp add: capability_verify_def function_verify_def ready capabilityDeclared_def findFunctionEntities_def
        capability_judge_def function_judge_def Let_def assms(2))
qed

theorem interrupted_lookup_contradicts_witness:
  "rec_verdict (function_verify (interrupted_at (FunctionLookup ''userservice'')) demo_tables 1
     (subject_claim FunctionImplements ''userservice'')) = Contradicted"
  using interrupted_lookup_contradicts [OF demo_ready, of "subject_claim FunctionImplements ''userservice''"] by simp

section \<open>All verifiers\<close>

text \<open>
  (C4) No verdict without evidence.  Whatever the claim and whichever statements fail, a verdict other
  than Unknown is only given when the project has entity and relation rows, the record names the
  verifier of the claim's type, every fact it lists is a row of the project (an entity, or a call), a
  Supported verdict lists at least one, and the confidence is in the range from 0 to 1.
\<close>

theorem no_verdict_without_evidence:
  "rec_verifier (verify_fresh env t project c) = verifier_of (claim_kind c) \<and>
   (rec_verdict (verify_fresh env t project c) \<noteq> Unknown \<longrightarrow>
      evidence_backend_ready env t project \<and> project_entities t project \<noteq> [] \<and> project_relations t project \<noteq> []) \<and>
   (rec_verdict (verify_fresh env t project c) = Supported \<longrightarrow> rec_facts (verify_fresh env t project c) \<noteq> []) \<and>
   (\<forall>f \<in> set (rec_facts (verify_fresh env t project c)). fact_of_project t project f) \<and>
   0 \<le> rec_confidence (verify_fresh env t project c) \<and> rec_confidence (verify_fresh env t project c) < 1"
proof (cases "claim_kind c")
  case CapabilityExists
  then show ?thesis
    unfolding verify_fresh_def verifier_of_def
    using capability.named capability.decided_ready capability.decided_rows capability.decided_facts
      capability.facts_of_project capability.confidence by simp
next
  case ContractHolds
  then show ?thesis
    unfolding verify_fresh_def verifier_of_def
    using contract.named contract.decided_ready contract.decided_rows contract.decided_facts
      contract.facts_of_project contract.confidence by simp
next
  case ArchitectureFollows
  then show ?thesis
    unfolding verify_fresh_def verifier_of_def
    using architecture.named architecture.decided_ready architecture.decided_rows architecture.decided_facts
      architecture.facts_of_project architecture.confidence by simp
next
  case FunctionImplements
  then show ?thesis
    unfolding verify_fresh_def verifier_of_def
    using function_claims.named function_claims.decided_ready function_claims.decided_rows function_claims.decided_facts
      function_claims.facts_of_project function_claims.confidence by simp
qed

theorem no_verdict_without_evidence_witness:
  "rec_facts (verify_fresh healthy demo_tables 1 (subject_claim CapabilityExists ''IncrementalIndex'')) \<noteq> []"
proof -
  let ?c = "subject_claim CapabilityExists ''IncrementalIndex''"
  have "rec_verdict (capability_verify healthy demo_tables 1 ?c) = Supported" by code_simp
  then have "rec_verdict (verify_fresh healthy demo_tables 1 ?c) = Supported" by (simp add: verify_fresh_def)
  then show ?thesis using no_verdict_without_evidence [of healthy demo_tables 1 ?c] by simp
qed

end
