(* ===== verification/Regex.thy ===== *)
theory Regex
  imports Json_Text
begin

text \<open>
  The part of \<open>std::regex\<close> (ECMAScript grammar) that the engine uses: character classes, greedy
  repetition of a class, sequence, alternative, optional group, capture, word boundary and end of text,
  with \<open>std::regex_search\<close> and \<open>std::sregex_iterator\<close>.

  A matcher answers all ways in which an expression can match at a place, in the order in which the
  backtracking of the standard tries them, so the first is the match the library reports.  A place is the
  character before it, if there is one, and the text after it.
\<close>

section \<open>Expressions\<close>

type_synonym cursor = "char option \<times> bytes"

datatype re =
    One "char \<Rightarrow> bool"
  | Many "char \<Rightarrow> bool" nat nat
  | Many1 "char \<Rightarrow> bool"
  | Many0 "char \<Rightarrow> bool"
  | Seq re re
  | Alt re re
  | Opt re
  | Group re
  | Boundary
  | AtEnd

definition is_word :: "char \<Rightarrow> bool" where
  "is_word c \<longleftrightarrow> isalnum_c c \<or> c = CHR ''_''"

definition advance :: "nat \<Rightarrow> cursor \<Rightarrow> cursor" where
  "advance n cur = (if n = 0 then cur else (Some (snd cur ! (n - 1)), drop n (snd cur)))"

text \<open>A greedy repetition of between \<open>lo\<close> and \<open>run\<close> characters, the longest first.\<close>

definition repeated :: "nat \<Rightarrow> nat \<Rightarrow> cursor \<Rightarrow> (cursor \<times> bytes list) list" where
  "repeated lo run cur = map (\<lambda>n. (advance n cur, [])) (rev [lo..<Suc run])"

fun re_match :: "re \<Rightarrow> cursor \<Rightarrow> (cursor \<times> bytes list) list" where
  "re_match (One P) cur =
     (case snd cur of [] \<Rightarrow> [] | c # r \<Rightarrow> if P c then [((Some c, r), [])] else [])"
| "re_match (Many P lo hi) cur = repeated lo (min hi (length (takeWhile P (snd cur)))) cur"
| "re_match (Many1 P) cur = repeated 1 (length (takeWhile P (snd cur))) cur"
| "re_match (Many0 P) cur = repeated 0 (length (takeWhile P (snd cur))) cur"
| "re_match (Seq a b) cur =
     concat (map (\<lambda>(cur1, g1). map (\<lambda>(cur2, g2). (cur2, g1 @ g2)) (re_match b cur1)) (re_match a cur))"
| "re_match (Alt a b) cur = re_match a cur @ re_match b cur"
| "re_match (Opt a) cur = re_match a cur @ [(cur, [])]"
| "re_match (Group a) cur =
     map (\<lambda>(cur1, g). (cur1, take (length (snd cur) - length (snd cur1)) (snd cur) # g)) (re_match a cur)"
| "re_match Boundary cur =
     (if (case fst cur of None \<Rightarrow> False | Some c \<Rightarrow> is_word c) \<noteq> (snd cur \<noteq> [] \<and> is_word (hd (snd cur)))
      then [(cur, [])] else [])"
| "re_match AtEnd cur = (if snd cur = [] then [(cur, [])] else [])"

text \<open>A literal with \<open>std::regex::icase\<close>.\<close>

fun literal :: "bytes \<Rightarrow> re" where
  "literal [] = Opt (One (\<lambda>_. False))"
| "literal [c] = One (\<lambda>d. tolower_c d = tolower_c c)"
| "literal (c # cs) = Seq (One (\<lambda>d. tolower_c d = tolower_c c)) (literal cs)"

section \<open>Searching\<close>

record match_result =
  match_before :: bytes
  match_groups :: "bytes list"
  match_after :: cursor

text \<open>\<open>std::regex_search\<close> from a place; \<open>pre\<close> is the text before it.\<close>

fun search_from :: "re \<Rightarrow> bytes \<Rightarrow> char option \<Rightarrow> bytes \<Rightarrow> match_result option" where
  "search_from r pre prev [] =
     (case re_match r (prev, []) of [] \<Rightarrow> None
      | (cur, gs) # _ \<Rightarrow> Some \<lparr>match_before = pre, match_groups = gs, match_after = cur\<rparr>)"
| "search_from r pre prev (c # s) =
     (case re_match r (prev, c # s) of
        [] \<Rightarrow> search_from r (pre @ [c]) (Some c) s
      | (cur, gs) # _ \<Rightarrow> Some \<lparr>match_before = pre, match_groups = gs, match_after = cur\<rparr>)"

definition regex_search :: "re \<Rightarrow> bytes \<Rightarrow> match_result option" where
  "regex_search r s = search_from r [] None s"

text \<open>\<open>std::sregex_iterator\<close>: the next search begins where the last match ended.  The iteration stops
  at a match that consumes nothing; none of the engine's expressions has one.\<close>

function iterate_matches :: "re \<Rightarrow> bytes \<Rightarrow> cursor \<Rightarrow> match_result list" where
  "iterate_matches r pre cur =
     (case search_from r pre (fst cur) (snd cur) of
        None \<Rightarrow> []
      | Some m \<Rightarrow>
          if length (snd (match_after m)) < length (snd cur)
          then m # iterate_matches r (pre @ take (length (snd cur) - length (snd (match_after m))) (snd cur)) (match_after m)
          else [m])"
  by pat_completeness auto
termination by (relation "measure (\<lambda>(r, pre, cur). length (snd cur))") auto

declare iterate_matches.simps [simp del]

definition all_matches :: "re \<Rightarrow> bytes \<Rightarrow> match_result list" where
  "all_matches r s = iterate_matches r [] (None, s)"

section \<open>What a match is\<close>

lemma repeated_mem:
  "(cur', gs) \<in> set (repeated lo run cur) \<longleftrightarrow> gs = [] \<and> (\<exists>n. lo \<le> n \<and> n \<le> run \<and> cur' = advance n cur)"
  by (auto simp: repeated_def)

lemma snd_advance [simp]: "snd (advance n cur) = drop n (snd cur)"
  by (simp add: advance_def)

text \<open>A match consumes a beginning of the text.\<close>

lemma re_match_suffix: "(cur', gs) \<in> set (re_match r cur) \<Longrightarrow> suffix (snd cur') (snd cur)"
proof (induction r cur arbitrary: cur' gs rule: re_match.induct)
  case (5 a b cur)
  from 5(3) obtain cur1 g1 g2 where ab: "(cur1, g1) \<in> set (re_match a cur)" "(cur', g2) \<in> set (re_match b cur1)"
    by auto
  show ?case using 5(1) [OF ab(1)] 5(2) [OF ab(1) refl ab(2)] by (meson suffix_order.trans)
qed (auto simp: repeated_mem suffix_drop suffix_ConsI split: list.splits if_splits)

text \<open>The place after \<open>u\<close>, when the text began at the place of \<open>prev\<close>.\<close>

definition place_after :: "char option \<Rightarrow> bytes \<Rightarrow> bytes \<Rightarrow> cursor" where
  "place_after prev u v = (if u = [] then (prev, v) else (Some (last u), v))"

lemma place_after_Nil [simp]: "place_after prev [] v = (prev, v)"
  by (simp add: place_after_def)

lemma place_after_Cons: "place_after prev (c # u) v = place_after (Some c) u v"
  by (simp add: place_after_def)

lemma search_from_Some:
  "search_from r pre prev s = Some m \<Longrightarrow>
     \<exists>u v. s = u @ v \<and> match_before m = pre @ u \<and> (match_after m, match_groups m) \<in> set (re_match r (place_after prev u v))"
proof (induction r pre prev s rule: search_from.induct)
  case (1 r pre prev)
  then show ?case by (auto split: list.splits prod.splits)
next
  case (2 r pre prev c s)
  show ?case
  proof (cases "re_match r (prev, c # s)")
    case Nil
    then have "search_from r (pre @ [c]) (Some c) s = Some m" using 2(2) by simp
    then obtain u v where "s = u @ v" "match_before m = (pre @ [c]) @ u"
        "(match_after m, match_groups m) \<in> set (re_match r (place_after (Some c) u v))"
      using 2(1) [OF Nil] by blast
    then show ?thesis by (intro exI [of _ "c # u"] exI [of _ v]) (simp add: place_after_Cons)
  next
    case (Cons x xs)
    then show ?thesis
      using 2(2) by (cases x) (intro exI [of _ "[]"] exI [of _ "c # s"], auto)
  qed
qed

lemma search_from_None: "search_from r pre prev (u @ v) = None \<Longrightarrow> re_match r (place_after prev u v) = []"
proof (induction u arbitrary: pre prev)
  case Nil
  then show ?case by (cases v) (auto split: list.splits prod.splits)
next
  case (Cons c u)
  then show ?case by (auto simp: place_after_Cons split: list.splits prod.splits)
qed

lemma regex_search_iff: "regex_search r s \<noteq> None \<longleftrightarrow> (\<exists>u v. s = u @ v \<and> re_match r (place_after None u v) \<noteq> [])"
proof
  assume "regex_search r s \<noteq> None"
  then obtain m where "search_from r [] None s = Some m" by (auto simp: regex_search_def)
  from search_from_Some [OF this] show "\<exists>u v. s = u @ v \<and> re_match r (place_after None u v) \<noteq> []"
    by (metis empty_iff empty_set)
next
  assume "\<exists>u v. s = u @ v \<and> re_match r (place_after None u v) \<noteq> []"
  then show "regex_search r s \<noteq> None" unfolding regex_search_def using search_from_None by blast
qed

text \<open>The groups of all matches are groups of the expression at some place of the text.\<close>

definition has_groups :: "re \<Rightarrow> bytes list \<Rightarrow> bool" where
  "has_groups r gs \<longleftrightarrow> (\<exists>cur cur'. (cur', gs) \<in> set (re_match r cur))"

lemma search_has_groups: "search_from r pre prev s = Some m \<Longrightarrow> has_groups r (match_groups m)"
  unfolding has_groups_def by (blast dest: search_from_Some)

lemma iterate_has_groups: "m \<in> set (iterate_matches r pre cur) \<Longrightarrow> has_groups r (match_groups m)"
proof (induction r pre cur rule: iterate_matches.induct)
  case (1 r pre cur)
  show ?case
  proof (cases "search_from r pre (fst cur) (snd cur)")
    case None
    then show ?thesis using "1.prems" by (simp add: iterate_matches.simps [of r pre cur])
  next
    case (Some k)
    then show ?thesis
      using "1.prems" "1.IH" [OF Some] search_has_groups [OF Some]
      by (auto simp: iterate_matches.simps [of r pre cur] split: if_splits)
  qed
qed

lemma has_groups_simps:
  "has_groups (Seq a b) gs \<Longrightarrow> \<exists>g1 g2. gs = g1 @ g2 \<and> has_groups a g1 \<and> has_groups b g2"
  "has_groups (Alt a b) gs \<Longrightarrow> has_groups a gs \<or> has_groups b gs"
  "has_groups (Opt a) gs \<Longrightarrow> has_groups a gs \<or> gs = []"
  "has_groups (One P) gs \<Longrightarrow> gs = []"
  "has_groups (Many P lo hi) gs \<Longrightarrow> gs = []"
  "has_groups (Many1 P) gs \<Longrightarrow> gs = []"
  "has_groups (Many0 P) gs \<Longrightarrow> gs = []"
  "has_groups Boundary gs \<Longrightarrow> gs = []"
  "has_groups AtEnd gs \<Longrightarrow> gs = []"
  unfolding has_groups_def by (auto simp: repeated_mem split: list.splits if_splits) blast+

lemma group_mem:
  "(cur', gs) \<in> set (re_match (Group a) cur) \<longleftrightarrow>
     (\<exists>g. (cur', g) \<in> set (re_match a cur) \<and> gs = take (length (snd cur) - length (snd cur')) (snd cur) # g)"
  by (force simp: image_iff)

lemma seq_mem:
  "(cur', gs) \<in> set (re_match (Seq a b) cur) \<longleftrightarrow>
     (\<exists>cur1 g1 g2. (cur1, g1) \<in> set (re_match a cur) \<and> (cur', g2) \<in> set (re_match b cur1) \<and> gs = g1 @ g2)"
  by (force simp: image_iff)

lemma one_mem:
  "(cur', gs) \<in> set (re_match (One P) cur) \<longleftrightarrow> gs = [] \<and> (\<exists>c r. snd cur = c # r \<and> P c \<and> cur' = (Some c, r))"
  by (auto split: list.splits)

lemma take_run: "n \<le> length (takeWhile P s) \<Longrightarrow> list_all P (take n s)"
proof -
  assume "n \<le> length (takeWhile P s)"
  then have "take n s = take n (takeWhile P s)" by (metis min.absorb1 take_take takeWhile_eq_take)
  then show ?thesis by (auto simp: list_all_iff dest!: in_set_takeD set_takeWhileD)
qed

text \<open>What a group of one character and a repetition of a class holds.\<close>

lemma has_groups_word:
  assumes "has_groups (Group (Seq (One P) (Many Q lo hi))) gs"
  shows "\<exists>c w. gs = [c # w] \<and> P c \<and> list_all Q w \<and> lo \<le> length w \<and> length w \<le> hi"
proof -
  obtain cur cur' where "(cur', gs) \<in> set (re_match (Group (Seq (One P) (Many Q lo hi))) cur)"
    using assms unfolding has_groups_def by blast
  then obtain c r n where c: "snd cur = c # r" "P c" "lo \<le> n" "n \<le> min hi (length (takeWhile Q r))"
    "cur' = advance n (Some c, r)" "gs = [take (length (snd cur) - length (snd cur')) (snd cur)]"
    unfolding group_mem seq_mem one_mem re_match.simps(2) repeated_mem by auto
  then have cr: "snd cur = c # r" "P c" "lo \<le> n" "n \<le> hi" "n \<le> length (takeWhile Q r)"
    "cur' = advance n (Some c, r)" "gs = [take (length (snd cur) - length (snd cur')) (snd cur)]"
    using c by auto
  have le: "n \<le> length r" using cr(5) length_takeWhile_le [of Q r] by linarith
  have "gs = [c # take n r]" using cr(1,6,7) le by (simp add: Suc_diff_le)
  moreover have "list_all Q (take n r)" by (rule take_run [OF cr(5)])
  ultimately show ?thesis using cr le by auto
qed

lemma has_groups_run:
  assumes "has_groups (Group (Many1 P)) gs"
  shows "\<exists>w. gs = [w] \<and> w \<noteq> [] \<and> list_all P w"
proof -
  obtain cur cur' where mem: "(cur', gs) \<in> set (re_match (Group (Many1 P)) cur)"
    using assms unfolding has_groups_def by blast
  then obtain n where n: "1 \<le> n" "n \<le> length (takeWhile P (snd cur))"
    "gs = [take (length (snd cur) - (length (snd cur) - n)) (snd cur)]"
    unfolding group_mem re_match.simps(3) repeated_mem by auto
  have le: "n \<le> length (snd cur)" using n(2) length_takeWhile_le [of P "snd cur"] by linarith
  show ?thesis using n le take_run [OF n(2)] by (auto intro!: exI [of _ "take n (snd cur)"])
qed

lemma literal_mem:
  assumes "cs \<noteq> []"
  shows "(cur', gs) \<in> set (re_match (literal cs) cur) \<longleftrightarrow>
    gs = [] \<and> (\<exists>w r. snd cur = w @ r \<and> lower w = lower cs \<and> cur' = (Some (last w), r))"
  using assms
proof (induction cs arbitrary: cur rule: literal.induct)
  case (2 c)
  show ?case unfolding literal.simps one_mem by (auto simp: map_eq_Cons_conv)
next
  case (3 c d cs)
  have "(cur', gs) \<in> set (re_match (literal (c # d # cs)) cur) \<longleftrightarrow>
      (\<exists>cur1 g1 g2. (cur1, g1) \<in> set (re_match (One (\<lambda>x. tolower_c x = tolower_c c)) cur) \<and>
        (cur', g2) \<in> set (re_match (literal (d # cs)) cur1) \<and> gs = g1 @ g2)"
    unfolding literal.simps seq_mem by simp
  also have "\<dots> \<longleftrightarrow> gs = [] \<and> (\<exists>e s w r. snd cur = e # s \<and> tolower_c e = tolower_c c \<and> s = w @ r \<and>
      lower w = lower (d # cs) \<and> cur' = (Some (last w), r))"
    unfolding one_mem using 3 by auto
  also have "\<dots> \<longleftrightarrow> gs = [] \<and> (\<exists>w r. snd cur = w @ r \<and> lower w = lower (c # d # cs) \<and> cur' = (Some (last w), r))"
  proof -
    have each: "(snd cur = (e # w) @ r \<and> tolower_c e = tolower_c c \<and> lower w = lower (d # cs) \<and> cur' = (Some (last w), r)) \<longleftrightarrow>
        (snd cur = (e # w) @ r \<and> lower (e # w) = lower (c # d # cs) \<and> cur' = (Some (last (e # w)), r))" for e w r
      by (cases w) auto
    have "(\<exists>e s w r. snd cur = e # s \<and> tolower_c e = tolower_c c \<and> s = w @ r \<and> lower w = lower (d # cs) \<and>
        cur' = (Some (last w), r)) \<longleftrightarrow>
      (\<exists>e w r. snd cur = (e # w) @ r \<and> tolower_c e = tolower_c c \<and> lower w = lower (d # cs) \<and> cur' = (Some (last w), r))"
      by auto
    also have "\<dots> \<longleftrightarrow>
      (\<exists>e w r. snd cur = (e # w) @ r \<and> lower (e # w) = lower (c # d # cs) \<and> cur' = (Some (last (e # w)), r))"
      by (simp only: each)
    also have "\<dots> \<longleftrightarrow> (\<exists>w r. snd cur = w @ r \<and> lower w = lower (c # d # cs) \<and> cur' = (Some (last w), r))"
      by (metis list.map_disc_iff list.discI neq_Nil_conv)
    finally show ?thesis by blast
  qed
  finally show ?case .
qed simp

lemma re_match_nonempty: "re_match r cur \<noteq> [] \<longleftrightarrow> (\<exists>cur' gs. (cur', gs) \<in> set (re_match r cur))"
  by (cases "re_match r cur") auto

lemma boundary_mem:
  "(cur', gs) \<in> set (re_match Boundary cur) \<longleftrightarrow> cur' = cur \<and> gs = [] \<and>
     (case fst cur of None \<Rightarrow> False | Some c \<Rightarrow> is_word c) \<noteq> (snd cur \<noteq> [] \<and> is_word (hd (snd cur)))"
  by (auto split: if_splits)

lemma rest_spaces_mem:
  "(\<exists>cur' gs. (cur', gs) \<in> set (re_match (Seq (Many0 P) AtEnd) cur)) \<longleftrightarrow> list_all P (snd cur)"
proof
  assume "\<exists>cur' gs. (cur', gs) \<in> set (re_match (Seq (Many0 P) AtEnd) cur)"
  then obtain n where "n \<le> length (takeWhile P (snd cur))" "drop n (snd cur) = []"
  proof -
    assume 1: "\<And>n. n \<le> length (takeWhile P (snd cur)) \<Longrightarrow> drop n (snd cur) = [] \<Longrightarrow> thesis"
    obtain cur' gs cur1 g1 g2 where "(cur1, g1) \<in> set (re_match (Many0 P) cur)" "(cur', g2) \<in> set (re_match AtEnd cur1)"
      using \<open>\<exists>cur' gs. _\<close> unfolding seq_mem by blast
    then obtain n where "n \<le> length (takeWhile P (snd cur))" "cur1 = advance n cur" "snd cur1 = []"
      unfolding re_match.simps(4) repeated_mem by (auto split: if_splits)
    then show thesis using 1 [of n] by (metis snd_advance)
  qed
  then show "list_all P (snd cur)" using take_run [of n P "snd cur"] by simp
next
  assume "list_all P (snd cur)"
  then have "takeWhile P (snd cur) = snd cur" by (simp add: takeWhile_eq_all_conv list_all_iff)
  then have len: "length (takeWhile P (snd cur)) = length (snd cur)" by (rule arg_cong)
  have "(advance (length (snd cur)) cur, []) \<in> set (re_match (Many0 P) cur)"
    unfolding re_match.simps(4) repeated_mem len by auto
  moreover have "(advance (length (snd cur)) cur, []) \<in> set (re_match AtEnd (advance (length (snd cur)) cur))" by simp
  ultimately show "\<exists>cur' gs. (cur', gs) \<in> set (re_match (Seq (Many0 P) AtEnd) cur)" unfolding seq_mem by blast
qed

end
