(* ===== verification/Claim_Parser.thy ===== *)
theory Claim_Parser
  imports Regex Facts
begin

text \<open>
  The parser of claims (\<open>verify/claim_parser.cpp\<close>, \<open>ClaimParser::parse\<close>): the nine patterns in their
  order, the cutting of a captured phrase to a subject, and the guards against denials.
\<close>

section \<open>From a phrase to a subject\<close>

definition isalpha_c :: "char \<Rightarrow> bool" where
  "isalpha_c c \<longleftrightarrow> isupper_c c \<or> islower_c c"

definition toupper_c :: "char \<Rightarrow> char" where
  "toupper_c c = (if islower_c c then char_of (byte_of c - 32) else c)"

definition is_blank :: "char \<Rightarrow> bool" where
  "is_blank c \<longleftrightarrow> c = CHR '' '' \<or> c = CHR 0x09"

definition rstrip :: "(char \<Rightarrow> bool) \<Rightarrow> bytes \<Rightarrow> bytes" where
  "rstrip P s = rev (dropWhile P (rev s))"

definition kBoundaries :: "bytes list" where
  "kBoundaries =
     ['' and '', '' is '', '' but '', '' or '', '' are '', '' was '', '' were '', '' in '', ''.'', '','', '';'', ''!'', [CHR 0x0A]]"

definition truncateAtBoundary :: "bytes \<Rightarrow> bytes" where
  "truncateAtBoundary captured =
     (let min_pos = fold (\<lambda>b m. case str_find b captured of Some p \<Rightarrow> min p m | None \<Rightarrow> m) kBoundaries (length captured)
      in rstrip is_blank (take min_pos captured))"

definition kGenericNouns :: "bytes list" where
  "kGenericNouns =
     [''class'', ''function'', ''method'', ''module'', ''struct'', ''interface'', ''type'', ''component'', ''service'',
      ''endpoint'', ''route'', ''handler'', ''capability'', ''feature'', ''table'', ''column'', ''field'', ''variable'',
      ''constant'', ''file'', ''package'', ''library'', ''dependency'', ''test'', ''tests'', ''support'', ''handler'',
      ''controller'', ''manager'']"

definition stripTrailingNoun :: "bytes \<Rightarrow> bytes" where
  "stripTrailingNoun captured =
     (let trimmed = rstrip is_blank captured;
          start = length (rstrip (\<lambda>c. \<not> is_blank c) trimmed);
          last_word = drop start trimmed
      in if trimmed = [] then captured
         else if lower last_word \<in> set kGenericNouns then rstrip is_blank (take start captured) else captured)"

fun pascal :: "bool \<Rightarrow> bytes \<Rightarrow> bytes" where
  "pascal capitalize_next [] = []"
| "pascal capitalize_next (c # s) =
     (if isspace_c c then pascal True s
      else (if capitalize_next then toupper_c c else c) # pascal False s)"

definition toPascalCase :: "bytes \<Rightarrow> bytes" where
  "toPascalCase s = pascal True s"

definition layerWhitelist :: "bytes list" where
  "layerWhitelist =
     [''controller'', ''service'', ''repository'', ''view'', ''model'', ''api'', ''domain'', ''data'', ''presentation'',
      ''business'', ''infrastructure'', ''adapter'', ''usecase'', ''entity'', ''handler'', ''router'', ''manager'',
      ''factory'', ''provider'', ''dao'', ''store'', ''viewmodel'', ''presenter'', ''interactor'', ''facade'', ''proxy'',
      ''command'', ''query'', ''endpoint'', ''resource'']"

definition isLayerName :: "bytes \<Rightarrow> bool" where
  "isLayerName token \<longleftrightarrow> lower token \<in> set layerWhitelist"

section \<open>The patterns\<close>

definition phrase_char :: "char \<Rightarrow> bool" where
  "phrase_char c \<longleftrightarrow> isalnum_c c \<or> c = CHR ''_'' \<or> c = CHR ''-'' \<or> c = CHR '' ''"

definition phrase :: re where
  "phrase = Group (Seq (One isalpha_c) (Many phrase_char 1 50))"

definition kSupports :: re where
  "kSupports = Seq (literal ''support'') (Seq (Opt (literal ''s'')) (Seq (Many1 isspace_c) phrase))"

definition kImplements :: re where
  "kImplements = Seq (literal ''implement'') (Seq (Opt (literal ''s'')) (Seq (Many1 isspace_c) phrase))"

definition kHas :: re where
  "kHas =
     Seq Boundary
       (Seq (Alt (literal ''has'') (Seq (literal ''contain'') (Opt (literal ''s''))))
         (Seq (Many1 isspace_c)
           (Seq (Opt (Alt (Seq (literal ''a'') (Seq (Opt (literal ''n'')) (Many1 isspace_c)))
                          (Seq (literal ''the'') (Many1 isspace_c))))
             phrase)))"

definition kShould :: re where
  "kShould =
     Seq Boundary
       (Seq (Group (Seq (One (\<lambda>c. isalpha_c c \<or> c = CHR ''_'')) (Many is_word 0 60)))
         (Seq (Many1 isspace_c)
           (Seq (literal ''should'')
             (Seq (Many1 isspace_c)
               (Group (Seq (One isalpha_c) (Many (\<lambda>c. phrase_char c \<or> c = CHR '','') 0 80)))))))"

definition apostrophe :: char where "apostrophe = CHR 0x27"

definition kNegation :: re where
  "kNegation =
     Seq (Group (Alt (Seq Boundary (literal ''not''))
            (Alt (literal [CHR ''i'', CHR ''s'', CHR ''n'', apostrophe, CHR ''t''])
              (Alt (literal ''is not'') (Alt (literal ''never'') (literal [CHR ''n'', apostrophe, CHR ''t'']))))))
       (Seq (Many0 isspace_c) AtEnd)"

definition denied :: "bytes \<Rightarrow> bool" where
  "denied pre \<longleftrightarrow> regex_search kNegation pre \<noteq> None"

definition two_words :: "bytes \<Rightarrow> bytes \<Rightarrow> re" where
  "two_words a b = Seq (literal a) (Seq (Opt (One (\<lambda>c. c = CHR ''-'' \<or> isspace_c c))) (literal b))"

definition kKeywords :: "(re \<times> bytes) list" where
  "kKeywords =
     [(two_words ''thread'' ''safe'', ''ThreadSafe''), (two_words ''memory'' ''safe'', ''MemorySafe''),
      (two_words ''zero'' ''copy'', ''ZeroCopy''), (two_words ''lock'' ''free'', ''LockFree'')]"

definition kArrow :: re where
  "kArrow =
     Seq (Group (Many1 isalpha_c))
       (Seq (Many0 isspace_c) (Seq (literal ''->'') (Seq (Many0 isspace_c)
         (Seq (Group (Many1 isalpha_c))
           (Seq (Many0 isspace_c) (Seq (literal ''->'') (Seq (Many0 isspace_c) (Group (Many1 isalpha_c)))))))))"

section \<open>parse\<close>

definition parsed_claim :: "bytes \<Rightarrow> bytes \<Rightarrow> claim_type \<Rightarrow> bytes \<Rightarrow> bytes \<Rightarrow> bytes \<Rightarrow> bytes \<Rightarrow> claim" where
  "parsed_claim source_kind source_ref k subject predicate object scope =
     \<lparr>claim_kind = k, claim_subject = subject, claim_predicate = predicate, claim_object = object, claim_scope = scope,
      claim_source_kind = source_kind, claim_source_ref = source_ref\<rparr>"

definition repository :: bytes where "repository = ''repository''"

type_synonym claim_maker = "claim_type \<Rightarrow> bytes \<Rightarrow> bytes \<Rightarrow> bytes \<Rightarrow> bytes \<Rightarrow> claim"

text \<open>Patterns 1 and 2.\<close>

definition capability_match :: "claim_maker \<Rightarrow> bytes \<Rightarrow> match_result \<Rightarrow> claim option" where
  "capability_match mk predicate m =
     (let subject = toPascalCase (truncateAtBoundary (match_groups m ! 0))
      in if subject = [] then None else Some (mk CapabilityExists subject predicate [] repository))"

text \<open>Pattern 2b.\<close>

definition has_match :: "claim_maker \<Rightarrow> match_result \<Rightarrow> claim option" where
  "has_match mk m =
     (let captured = match_groups m ! 0; lower_raw = lower captured; subject = toPascalCase (stripTrailingNoun (truncateAtBoundary captured))
      in if denied (match_before m) then None
         else if prefix ''no '' lower_raw \<or> prefix ''not '' lower_raw \<or> prefix ''never '' lower_raw then None
         else if subject = [] then None else Some (mk CapabilityExists subject ''has'' [] repository))"

text \<open>Pattern 2c.\<close>

definition should_match :: "claim_maker \<Rightarrow> match_result \<Rightarrow> claim option" where
  "should_match mk m =
     (let subject = match_groups m ! 0; behavior = truncateAtBoundary (match_groups m ! 1); lower_beh = lower behavior
      in if denied (match_before m) then None
         else if prefix ''not '' lower_beh \<or> prefix ''never '' lower_beh \<or> prefix [CHR ''n'', apostrophe, CHR ''t''] lower_beh then None
         else if subject = [] \<or> behavior = [] then None
         else Some (mk FunctionImplements subject ''should'' behavior repository))"

text \<open>Patterns 3 to 6: one search each.\<close>

definition keyword_match :: "claim_maker \<Rightarrow> bytes \<Rightarrow> re \<times> bytes \<Rightarrow> claim option" where
  "keyword_match mk txt kc =
     (case regex_search (fst kc) txt of
        None \<Rightarrow> None
      | Some m \<Rightarrow> if denied (match_before m) then None else Some (mk ContractHolds (snd kc) ''holds'' [] repository))"

text \<open>Pattern 7.\<close>

definition arrow_match :: "claim_maker \<Rightarrow> match_result \<Rightarrow> claim option" where
  "arrow_match mk m =
     (let a = match_groups m ! 0; b = match_groups m ! 1; c = match_groups m ! 2
      in if \<not> isLayerName a \<or> \<not> isLayerName b \<or> \<not> isLayerName c then None
         else Some (mk ArchitectureFollows a ''flows_to'' b c))"

definition parse :: "bytes \<Rightarrow> bytes \<Rightarrow> bytes \<Rightarrow> claim list" where
  "parse txt source_kind source_ref =
     (let mk = parsed_claim source_kind source_ref
      in if txt = [] then []
         else List.map_filter (capability_match mk ''supported_by'') (all_matches kSupports txt) @
              List.map_filter (capability_match mk ''implemented_by'') (all_matches kImplements txt) @
              List.map_filter (has_match mk) (all_matches kHas txt) @
              List.map_filter (should_match mk) (all_matches kShould txt) @
              List.map_filter (keyword_match mk txt) kKeywords @
              List.map_filter (arrow_match mk) (all_matches kArrow txt))"

section \<open>The guard against denials\<close>

text \<open>What the expression \<open>kNegation\<close> says of the text before a mention: without the white space at its
  end, it ends in a contraction, in \<open>never\<close>, or in the word \<open>not\<close>.\<close>

definition ends_in_denial :: "bytes \<Rightarrow> bool" where
  "ends_in_denial pre =
     (let b = rstrip isspace_c (lower pre)
      in suffix [CHR ''n'', apostrophe, CHR ''t''] b \<or> suffix ''never'' b \<or>
         (suffix ''not'' b \<and> (length b = 3 \<or> \<not> is_word (b ! (length b - 4)))))"

lemma rstrip_append: "list_all P sp \<Longrightarrow> w \<noteq> [] \<Longrightarrow> \<not> P (last w) \<Longrightarrow> rstrip P (w @ sp) = w"
  by (cases w rule: rev_cases) (simp_all add: rstrip_def dropWhile_append list_all_iff)

lemma rstrip_split: "\<exists>sp. s = rstrip P s @ sp \<and> list_all P sp"
proof -
  have "s = rev (dropWhile P (rev s)) @ rev (takeWhile P (rev s))"
    by (metis rev_append rev_rev_ident takeWhile_dropWhile_id)
  then show ?thesis unfolding rstrip_def by (auto simp: list_all_iff dest: set_takeWhileD intro!: exI [of _ "rev (takeWhile P (rev s))"])
qed

lemma isspace_tolower [simp]: "isspace_c (tolower_c c) = isspace_c c"
  by (auto simp: byte_simps byte_of_tolower)

lemma is_word_tolower [simp]: "is_word (tolower_c c) = is_word c"
  by (auto simp: is_word_def isalnum_c_def byte_simps byte_of_tolower)

lemma rstrip_lower: "rstrip isspace_c (lower s) = lower (rstrip isspace_c s)"
  by (simp add: rstrip_def rev_map dropWhile_map comp_def)

definition denial_word :: "bytes \<Rightarrow> bytes \<Rightarrow> bool" where
  "denial_word u w \<longleftrightarrow>
     (lower w = ''not'' \<and> (u = [] \<or> \<not> is_word (last u))) \<or> lower w = [CHR ''i'', CHR ''s'', CHR ''n'', apostrophe, CHR ''t''] \<or>
     lower w = ''is not'' \<or> lower w = ''never'' \<or> lower w = [CHR ''n'', apostrophe, CHR ''t'']"

lemma tolower_apostrophe [simp]: "tolower_c apostrophe = apostrophe"
  by (simp add: apostrophe_def tolower_c_def byte_simps)

lemma lower_denials [simp]:
  "lower ''not'' = ''not''" "lower [CHR ''i'', CHR ''s'', CHR ''n'', apostrophe, CHR ''t''] = [CHR ''i'', CHR ''s'', CHR ''n'', apostrophe, CHR ''t'']"
  "lower ''is not'' = ''is not''" "lower ''never'' = ''never''"
  "lower [CHR ''n'', apostrophe, CHR ''t''] = [CHR ''n'', apostrophe, CHR ''t'']"
  by (simp_all add: tolower_c_def byte_simps apostrophe_def)

lemma ex_disj_5:
  "(G \<and> (\<exists>w r. V w r \<and> P w \<and> B \<and> C w r)) \<or> (G \<and> (\<exists>w r. V w r \<and> Q1 w \<and> C w r)) \<or>
   (G \<and> (\<exists>w r. V w r \<and> Q2 w \<and> C w r)) \<or> (G \<and> (\<exists>w r. V w r \<and> Q3 w \<and> C w r)) \<or>
   (G \<and> (\<exists>w r. V w r \<and> Q4 w \<and> C w r)) \<longleftrightarrow>
   G \<and> (\<exists>w r. V w r \<and> (P w \<and> B \<or> Q1 w \<or> Q2 w \<or> Q3 w \<or> Q4 w) \<and> C w r)"
  by blast

lemma ex_split_5:
  "(\<exists>u w. V u w \<and> ((P w \<and> B u) \<or> Q1 w \<or> Q2 w \<or> Q3 w \<or> Q4 w)) \<longleftrightarrow>
   (\<exists>u w. V u w \<and> P w \<and> B u) \<or> (\<exists>u w. V u w \<and> Q1 w) \<or> (\<exists>u w. V u w \<and> Q2 w) \<or>
   (\<exists>u w. V u w \<and> Q3 w) \<or> (\<exists>u w. V u w \<and> Q4 w)"
  by blast

lemma negation_place:
  "re_match kNegation (place_after None u v) \<noteq> [] \<longleftrightarrow> (\<exists>w sp. v = w @ sp \<and> list_all isspace_c sp \<and> denial_word u w)"
proof -
  let ?cur = "place_after None u v"
  have v: "snd ?cur = v" by (simp add: place_after_def)
  define A where "A = Alt (Seq Boundary (literal ''not''))
            (Alt (literal [CHR ''i'', CHR ''s'', CHR ''n'', apostrophe, CHR ''t''])
              (Alt (literal ''is not'') (Alt (literal ''never'') (literal [CHR ''n'', apostrophe, CHR ''t'']))))"
  have word: "(cur1, g) \<in> set (re_match (literal cs) ?cur) \<longleftrightarrow>
      g = [] \<and> (\<exists>w r. v = w @ r \<and> lower w = lw \<and> cur1 = (Some (last w), r))"
    if cs: "cs \<noteq> []" and lw: "lower cs = lw" for cs lw cur1 g
    unfolding literal_mem [OF cs] v lw ..
  have n: "v \<noteq> [] \<and> is_word (hd v)" if v: "v = w @ r" and not: "lower w = ''not''" for w r
  proof -
    obtain c w' where w: "w = c # w'" "tolower_c c = CHR ''n''" using not by (auto simp: map_eq_Cons_conv)
    have "is_word (tolower_c c)" unfolding w(2) by (simp add: is_word_def isalnum_c_def byte_simps)
    then show ?thesis using v w(1) by simp
  qed
  have no: "(cur1, g) \<in> set (re_match (Seq Boundary (literal ''not'')) ?cur) \<longleftrightarrow>
      g = [] \<and> (\<exists>w r. v = w @ r \<and> lower w = ''not'' \<and> (u = [] \<or> \<not> is_word (last u)) \<and> cur1 = (Some (last w), r))" for cur1 g
  proof -
    have prev: "(case fst ?cur of None \<Rightarrow> False | Some c \<Rightarrow> is_word c) \<longleftrightarrow> u \<noteq> [] \<and> is_word (last u)"
      by (simp add: place_after_def)
    have "(cur1, g) \<in> set (re_match (Seq Boundary (literal ''not'')) ?cur) \<longleftrightarrow>
        (u \<noteq> [] \<and> is_word (last u)) \<noteq> (v \<noteq> [] \<and> is_word (hd v)) \<and> (cur1, g) \<in> set (re_match (literal ''not'') ?cur)"
      unfolding seq_mem boundary_mem v prev by auto
    also have "\<dots> \<longleftrightarrow> (u \<noteq> [] \<and> is_word (last u)) \<noteq> (v \<noteq> [] \<and> is_word (hd v)) \<and>
        g = [] \<and> (\<exists>w r. v = w @ r \<and> lower w = ''not'' \<and> cur1 = (Some (last w), r))"
      by (simp only: word [OF list.distinct(2) lower_denials(1)])
    also have "\<dots> \<longleftrightarrow> g = [] \<and> (\<exists>w r. v = w @ r \<and> lower w = ''not'' \<and> (u = [] \<or> \<not> is_word (last u)) \<and> cur1 = (Some (last w), r))"
    proof (cases "v \<noteq> [] \<and> is_word (hd v)")
      case True
      then show ?thesis by auto
    next
      case False
      then have "\<not> (v = w @ r \<and> lower w = ''not'')" for w r using n by metis
      then show ?thesis by metis
    qed
    finally show ?thesis .
  qed
  have A: "(cur1, g) \<in> set (re_match A ?cur) \<longleftrightarrow>
      g = [] \<and> (\<exists>w r. v = w @ r \<and> denial_word u w \<and> cur1 = (Some (last w), r))" for cur1 g
    unfolding A_def re_match.simps(6) set_append Un_iff no denial_word_def
    by (simp only: word [OF _ lower_denials(2)] word [OF _ lower_denials(3)] word [OF _ lower_denials(4)]
        word [OF _ lower_denials(5)] list.simps simp_thms) (rule ex_disj_5)
  have "re_match kNegation ?cur \<noteq> [] \<longleftrightarrow>
      (\<exists>cur1 g. (cur1, g) \<in> set (re_match A ?cur) \<and> list_all isspace_c (snd cur1))"
    unfolding re_match_nonempty kNegation_def A_def [symmetric] rest_spaces_mem [symmetric] seq_mem [of _ _ "Group A"] group_mem
    by blast
  then show ?thesis unfolding A by auto
qed

text \<open>
  The guard against denials is what its comment says: the expression finds a denial before a mention
  exactly if the text before it ends, up to white space and case, in a contraction with \<open>n't\<close>, in
  \<open>never\<close>, or in \<open>not\<close> as a word of its own (so \<open>cannot\<close> is none).
\<close>

theorem denied_iff: "denied pre \<longleftrightarrow> ends_in_denial pre"
proof -
  have "denied pre \<longleftrightarrow> (\<exists>u w sp. pre = u @ w @ sp \<and> list_all isspace_c sp \<and> denial_word u w)"
    unfolding denied_def regex_search_iff negation_place by blast
  also have "\<dots> \<longleftrightarrow> (\<exists>u w. rstrip isspace_c pre = u @ w \<and> denial_word u w)"
  proof
    assume "\<exists>u w sp. pre = u @ w @ sp \<and> list_all isspace_c sp \<and> denial_word u w"
    then obtain u w sp where s: "pre = u @ w @ sp" "list_all isspace_c sp" "denial_word u w" by blast
    have "w \<noteq> []" "\<not> isspace_c (last (lower w))"
      using s(3) by (auto simp: denial_word_def apostrophe_def byte_simps)
    then have "rstrip isspace_c ((u @ w) @ sp) = u @ w"
      using s(2) by (intro rstrip_append) (auto simp: last_map)
    then show "\<exists>u w. rstrip isspace_c pre = u @ w \<and> denial_word u w" using s by auto
  next
    assume "\<exists>u w. rstrip isspace_c pre = u @ w \<and> denial_word u w"
    then obtain u w where "rstrip isspace_c pre = u @ w" "denial_word u w" by blast
    moreover obtain sp where "pre = rstrip isspace_c pre @ sp" "list_all isspace_c sp" using rstrip_split by blast
    ultimately show "\<exists>u w sp. pre = u @ w @ sp \<and> list_all isspace_c sp \<and> denial_word u w" by auto
  qed
  also have "\<dots> \<longleftrightarrow> ends_in_denial pre"
  proof -
    define q where "q = rstrip isspace_c pre"
    have suff: "suffix x (lower q) \<longleftrightarrow> (\<exists>u w. q = u @ w \<and> lower w = x)" for x
      by (auto simp: suffix_def lower_append_conv)
    have word: "(\<exists>u w. q = u @ w \<and> lower w = ''not'' \<and> (u = [] \<or> \<not> is_word (last u))) \<longleftrightarrow>
        suffix ''not'' (lower q) \<and> (length (lower q) = 3 \<or> \<not> is_word (lower q ! (length (lower q) - 4)))"
    proof -
      have same: "(u = [] \<or> \<not> is_word (last u)) \<longleftrightarrow>
          (length (lower q) = 3 \<or> \<not> is_word (lower q ! (length (lower q) - 4)))" if "q = u @ w" "lower w = ''not''" for u w
      proof -
        have "length w = 3" using arg_cong [OF that(2), of length] by simp
        then show ?thesis using that(1)
          by (cases u rule: rev_cases) (auto simp: nth_append)
      qed
      show ?thesis
      proof
        assume "\<exists>u w. q = u @ w \<and> lower w = ''not'' \<and> (u = [] \<or> \<not> is_word (last u))"
        then obtain u where "\<exists>w. q = u @ w \<and> lower w = ''not'' \<and> (u = [] \<or> \<not> is_word (last u))" ..
        then obtain w where w: "q = u @ w \<and> lower w = ''not'' \<and> (u = [] \<or> \<not> is_word (last u))" ..
        note a = w [THEN conjunct1] w [THEN conjunct2, THEN conjunct1] w [THEN conjunct2, THEN conjunct2]
        have "suffix ''not'' (lower q)" unfolding suff using a(1,2) by (intro exI conjI)
        moreover have "length (lower q) = 3 \<or> \<not> is_word (lower q ! (length (lower q) - 4))"
          by (rule iffD1 [OF same [OF a(1,2)] a(3)])
        ultimately show "suffix ''not'' (lower q) \<and> (length (lower q) = 3 \<or> \<not> is_word (lower q ! (length (lower q) - 4)))"
          by (rule conjI)
      next
        assume r: "suffix ''not'' (lower q) \<and> (length (lower q) = 3 \<or> \<not> is_word (lower q ! (length (lower q) - 4)))"
        then have "\<exists>u w. q = u @ w \<and> lower w = ''not''" unfolding suff by (rule conjunct1)
        then obtain u where "\<exists>w. q = u @ w \<and> lower w = ''not''" ..
        then obtain w where w: "q = u @ w \<and> lower w = ''not''" ..
        note a = w [THEN conjunct1] w [THEN conjunct2]
        have "u = [] \<or> \<not> is_word (last u)" using r by (intro iffD2 [OF same [OF a]]) (rule conjunct2)
        then show "\<exists>u w. q = u @ w \<and> lower w = ''not'' \<and> (u = [] \<or> \<not> is_word (last u))"
          using a by (intro exI conjI)
      qed
    qed
    have shorter: "suffix [CHR ''i'', CHR ''s'', CHR ''n'', apostrophe, CHR ''t''] s \<Longrightarrow> suffix [CHR ''n'', apostrophe, CHR ''t''] s" for s
      by (auto simp: suffix_def)
    have words: "suffix ''not'' (lower q) \<and> (length (lower q) = 3 \<or> \<not> is_word (lower q ! (length (lower q) - 4)))"
      if is_not: "suffix ''is not'' (lower q)"
    proof -
      obtain a where "lower q = a @ ''is not''" using is_not by (rule suffixE)
      then have a: "lower q = (a @ ''is '') @ ''not''" by simp
      have s: "suffix ''not'' ((a @ ''is '') @ ''not'')" by (rule suffixI [OF refl])
      have "((a @ ''is '') @ ''not'') ! (length ((a @ ''is '') @ ''not'') - 4) = CHR '' ''"
        by (simp add: nth_append)
      then have "\<not> is_word (((a @ ''is '') @ ''not'') ! (length ((a @ ''is '') @ ''not'') - 4))"
        by (simp only: is_word_def isalnum_c_def byte_simps) simp
      then show ?thesis unfolding a using s by blast
    qed
    have "(\<exists>u w. q = u @ w \<and> denial_word u w) \<longleftrightarrow>
        (\<exists>u w. q = u @ w \<and> lower w = ''not'' \<and> (u = [] \<or> \<not> is_word (last u))) \<or>
        suffix [CHR ''i'', CHR ''s'', CHR ''n'', apostrophe, CHR ''t''] (lower q) \<or> suffix ''is not'' (lower q) \<or> suffix ''never'' (lower q) \<or>
        suffix [CHR ''n'', apostrophe, CHR ''t''] (lower q)"
      unfolding denial_word_def suff by (rule ex_split_5)
    then show ?thesis
      unfolding ends_in_denial_def rstrip_lower q_def [symmetric] Let_def word using shorter words by blast
  qed
  finally show ?thesis .
qed

section \<open>What a parsed claim looks like\<close>

definition claim_wf :: "claim \<Rightarrow> bool" where
  "claim_wf c \<longleftrightarrow>
     (case claim_kind c of
        CapabilityExists \<Rightarrow> claim_subject c \<noteq> [] \<and> list_all (\<lambda>x. \<not> isspace_c x) (claim_subject c) \<and>
          claim_predicate c \<in> {''supported_by'', ''implemented_by'', ''has''} \<and> claim_object c = [] \<and> claim_scope c = repository
      | ContractHolds \<Rightarrow> claim_subject c \<in> {''ThreadSafe'', ''MemorySafe'', ''ZeroCopy'', ''LockFree''} \<and>
          claim_predicate c = ''holds'' \<and> claim_object c = [] \<and> claim_scope c = repository
      | ArchitectureFollows \<Rightarrow> list_all isLayerName [claim_subject c, claim_object c, claim_scope c] \<and> claim_predicate c = ''flows_to''
      | FunctionImplements \<Rightarrow> claim_subject c \<noteq> [] \<and> list_all is_word (claim_subject c) \<and> \<not> isdigit_c (hd (claim_subject c)) \<and>
          length (claim_subject c) \<le> 61 \<and> claim_predicate c = ''should'' \<and> claim_object c \<noteq> [] \<and>
          length (claim_object c) \<le> 81 \<and> claim_scope c = repository)"

lemma isspace_toupper [simp]: "isspace_c (toupper_c c) = isspace_c c"
  by (auto simp: toupper_c_def byte_simps of_char_of)

lemma pascal_no_space: "list_all (\<lambda>c. \<not> isspace_c c) (pascal b s)"
  by (induction b s rule: pascal.induct) auto

lemma has_groups_literal: "has_groups (literal cs) gs \<Longrightarrow> gs = []"
proof (cases "cs = []")
  case True
  then show "has_groups (literal cs) gs \<Longrightarrow> gs = []" by (auto simp: has_groups_def)
next
  case False
  then show "has_groups (literal cs) gs \<Longrightarrow> gs = []" unfolding has_groups_def by (auto simp: literal_mem)
qed

lemma seq_groups_skip:
  assumes "has_groups (Seq a b) gs" and "\<And>g. has_groups a g \<Longrightarrow> g = []"
  shows "has_groups b gs"
proof -
  obtain g1 g2 where "gs = g1 @ g2" "has_groups a g1" "has_groups b g2" using has_groups_simps(1) [OF assms(1)] by blast
  then show ?thesis using assms(2) [of g1] by simp
qed

lemma should_groups:
  assumes "has_groups kShould gs"
  shows "\<exists>c w d v. gs = [c # w, d # v] \<and> (isalpha_c c \<or> c = CHR ''_'') \<and> list_all is_word w \<and> length w \<le> 60 \<and> length v \<le> 80"
proof -
  have "has_groups (Seq (Group (Seq (One (\<lambda>c. isalpha_c c \<or> c = CHR ''_'')) (Many is_word 0 60)))
      (Seq (Many1 isspace_c) (Seq (literal ''should'') (Seq (Many1 isspace_c)
        (Group (Seq (One isalpha_c) (Many (\<lambda>c. phrase_char c \<or> c = CHR '','') 0 80))))))) gs"
    by (rule seq_groups_skip [OF assms [unfolded kShould_def] has_groups_simps(8)])
  from has_groups_simps(1) [OF this] obtain g1 r where g: "gs = g1 @ r"
    "has_groups (Group (Seq (One (\<lambda>c. isalpha_c c \<or> c = CHR ''_'')) (Many is_word 0 60))) g1"
    "has_groups (Seq (Many1 isspace_c) (Seq (literal ''should'') (Seq (Many1 isspace_c)
      (Group (Seq (One isalpha_c) (Many (\<lambda>c. phrase_char c \<or> c = CHR '','') 0 80)))))) r"
    by (elim exE conjE)
  have "has_groups (Seq (literal ''should'') (Seq (Many1 isspace_c)
      (Group (Seq (One isalpha_c) (Many (\<lambda>c. phrase_char c \<or> c = CHR '','') 0 80))))) r"
    by (rule seq_groups_skip [OF g(3)]) (rule has_groups_simps(6))
  then have "has_groups (Seq (Many1 isspace_c)
      (Group (Seq (One isalpha_c) (Many (\<lambda>c. phrase_char c \<or> c = CHR '','') 0 80)))) r"
    by (rule seq_groups_skip) (rule has_groups_literal)
  then have rest: "has_groups (Group (Seq (One isalpha_c) (Many (\<lambda>c. phrase_char c \<or> c = CHR '','') 0 80))) r"
    by (rule seq_groups_skip) (rule has_groups_simps(6))
  show ?thesis using has_groups_word [OF g(2)] has_groups_word [OF rest] g(1) by auto
qed

lemma length_rstrip: "length (rstrip P t) \<le> length t"
  using length_dropWhile_le [of P "rev t"] by (simp add: rstrip_def)

lemma length_truncate: "length (truncateAtBoundary s) \<le> length s"
proof -
  obtain n where "truncateAtBoundary s = rstrip is_blank (take n s)"
    unfolding truncateAtBoundary_def Let_def by blast
  then show ?thesis using length_rstrip [of is_blank "take n s"] by simp
qed

lemma word_not_digit: "isalpha_c c \<or> c = CHR ''_'' \<Longrightarrow> is_word c \<and> \<not> isdigit_c c"
  by (auto simp: isalpha_c_def is_word_def isalnum_c_def byte_simps)

text \<open>
  (C21) Every parsed claim is well formed, whatever the text: a capability is a non-empty name without
  white space, a contract is one of the four, an architecture names three layers of the whitelist, and a
  function claim names an identifier of at most 61 characters with a non-empty behaviour; and the claim
  carries the source it was parsed from.
\<close>

theorem parse_well_formed:
  assumes "c \<in> set (parse txt source_kind source_ref)"
  shows "claim_wf c \<and> claim_source_kind c = source_kind \<and> claim_source_ref c = source_ref"
proof -
  let ?mk = "parsed_claim source_kind source_ref"
  have cap: "claim_wf c \<and> claim_source_kind c = source_kind \<and> claim_source_ref c = source_ref"
    if "capability_match ?mk predicate m = Some c" "predicate \<in> {''supported_by'', ''implemented_by''}" for m predicate
    using that pascal_no_space
    by (auto simp: capability_match_def Let_def claim_wf_def parsed_claim_def toPascalCase_def split: if_splits)
  have has: "claim_wf c \<and> claim_source_kind c = source_kind \<and> claim_source_ref c = source_ref" if "has_match ?mk m = Some c" for m
    using that pascal_no_space
    by (auto simp: has_match_def Let_def claim_wf_def parsed_claim_def toPascalCase_def split: if_splits)
  have should: "claim_wf c \<and> claim_source_kind c = source_kind \<and> claim_source_ref c = source_ref"
    if m: "m \<in> set (all_matches kShould txt)" and some: "should_match ?mk m = Some c" for m
  proof -
    obtain x w d v where g: "match_groups m = [x # w, d # v]" "isalpha_c x \<or> x = CHR ''_''" "list_all is_word w"
        "length w \<le> 60" "length v \<le> 80"
      using should_groups iterate_has_groups m unfolding all_matches_def by blast
    have "length (truncateAtBoundary (d # v)) \<le> 81" using length_truncate [of "d # v"] g(5) by simp
    then show ?thesis
      using some g word_not_digit [OF g(2)]
      by (auto simp: should_match_def Let_def claim_wf_def parsed_claim_def split: if_splits)
  qed
  have key: "claim_wf c \<and> claim_source_kind c = source_kind \<and> claim_source_ref c = source_ref"
    if "kc \<in> set kKeywords" "keyword_match ?mk txt kc = Some c" for kc
    using that by (auto simp: keyword_match_def kKeywords_def claim_wf_def parsed_claim_def split: option.splits if_splits)
  have arrow: "claim_wf c \<and> claim_source_kind c = source_kind \<and> claim_source_ref c = source_ref"
    if "arrow_match ?mk m = Some c" for m
    using that by (auto simp: arrow_match_def Let_def claim_wf_def parsed_claim_def split: if_splits)
  have "(\<exists>m. capability_match ?mk ''supported_by'' m = Some c) \<or> (\<exists>m. capability_match ?mk ''implemented_by'' m = Some c) \<or>
      (\<exists>m. has_match ?mk m = Some c) \<or> (\<exists>m \<in> set (all_matches kShould txt). should_match ?mk m = Some c) \<or>
      (\<exists>kc \<in> set kKeywords. keyword_match ?mk txt kc = Some c) \<or> (\<exists>m. arrow_match ?mk m = Some c)"
    using assms unfolding parse_def Let_def by (auto simp: set_map_filter split: if_splits)
  then show ?thesis using cap has should key arrow by blast
qed

theorem parse_well_formed_witness:
  "claim_wf (parsed_claim ''readme'' ''R'' ContractHolds ''ZeroCopy'' ''holds'' [] repository) \<and>
   parse ''fully zero-copy'' ''readme'' ''R'' = [parsed_claim ''readme'' ''R'' ContractHolds ''ZeroCopy'' ''holds'' [] repository]"
proof -
  have p: "parse ''fully zero-copy'' ''readme'' ''R'' = [parsed_claim ''readme'' ''R'' ContractHolds ''ZeroCopy'' ''holds'' [] repository]"
    by code_simp
  then show ?thesis using parse_well_formed [of _ "''fully zero-copy''" "''readme''" "''R''"] by simp
qed

text \<open>
  A denied mention makes no contract: if the first mention of the keyword is preceded by a denial,
  no claim with its contract is parsed, even if a later sentence asserts it.
\<close>

theorem denied_keyword_no_claim:
  assumes "(r, subject) \<in> set kKeywords" and "regex_search r txt = Some m" and "ends_in_denial (match_before m)"
  shows "\<not> list_ex (\<lambda>c. claim_kind c = ContractHolds \<and> claim_subject c = subject) (parse txt source_kind source_ref)"
proof
  let ?mk = "parsed_claim source_kind source_ref"
  assume "list_ex (\<lambda>c. claim_kind c = ContractHolds \<and> claim_subject c = subject) (parse txt source_kind source_ref)"
  then obtain c where c: "c \<in> set (parse txt source_kind source_ref)" "claim_kind c = ContractHolds" "claim_subject c = subject"
    by (auto simp: list_ex_iff)
  have "\<exists>kc \<in> set kKeywords. keyword_match ?mk txt kc = Some c"
    using c(1,2) unfolding parse_def Let_def
    by (auto simp: set_map_filter capability_match_def has_match_def should_match_def arrow_match_def parsed_claim_def Let_def
        split: if_splits)
  then obtain q where q: "(q, subject) \<in> set kKeywords" "keyword_match ?mk txt (q, subject) = Some c"
    using c(3) by (auto simp: keyword_match_def parsed_claim_def split: option.splits if_splits)
  have "q = r" using q(1) assms(1) by (auto simp: kKeywords_def)
  then show False using q(2) assms(2,3) by (simp add: keyword_match_def denied_iff)
qed

theorem denied_keyword_no_claim_witness:
  "\<not> list_ex (\<lambda>c. claim_kind c = ContractHolds \<and> claim_subject c = ''ThreadSafe'')
     (parse ''is not thread-safe'' ''readme'' ''R'')"
proof (rule denied_keyword_no_claim)
  show "(two_words ''thread'' ''safe'', ''ThreadSafe'') \<in> set kKeywords" by (simp add: kKeywords_def)
  show "regex_search (two_words ''thread'' ''safe'') ''is not thread-safe'' =
      Some \<lparr>match_before = ''is not '', match_groups = [], match_after = (Some (CHR ''e''), [])\<rparr>"
    by code_simp
  show "ends_in_denial (match_before \<lparr>match_before = ''is not '', match_groups = [], match_after = (Some (CHR ''e''), [])\<rparr>)"
    by code_simp
qed

text \<open>
  The patterns for \<open>supports\<close> and \<open>implements\<close> have no such guard: the sentence that denies a
  capability is parsed as the claim that the project has it.
\<close>

theorem denied_support_is_claimed:
  "parse ''does not support Windows'' ''readme'' ''R'' =
     [parsed_claim ''readme'' ''R'' CapabilityExists ''Windows'' ''supported_by'' [] repository] \<and> denied ''does not ''"
proof
  show "parse ''does not support Windows'' ''readme'' ''R'' =
     [parsed_claim ''readme'' ''R'' CapabilityExists ''Windows'' ''supported_by'' [] repository]"
    by code_simp
  show "denied ''does not ''" unfolding denied_iff by code_simp
qed

end
