(* ===== verification/Verify_Claim.thy ===== *)
theory Verify_Claim
  imports Verdicts Claim_Parser
begin

text \<open>
  From a claim to a recorded verdict (\<open>verify/registry.cpp\<close>, \<open>engine_verify_ffi.cpp\<close>,
  \<open>engine_verify_drift_ffi.cpp\<close>): the registry of verifiers and its life cycle, the rows that a
  verification writes, \<open>verify_one_claim\<close> and \<open>verify_claim_batch\<close>, and the exported functions for one
  claim, a review and a statement about reality.

  A write may fail at any time; \<open>can_write\<close> tells for each kind of row and each attempt to write.  What a
  verifier throws is a value of the sum type \<open>outcome\<close>.  The text of a \<open>double\<close> is given by the function
  \<open>fmt\<close>.
\<close>

section \<open>VerifierRegistry\<close>

datatype verifier_class = CapabilityVerifier | ContractVerifier | ArchitectureVerifier | FunctionImplementsVerifier

fun verifier_accepts :: "verifier_class \<Rightarrow> claim_type \<Rightarrow> bool" where
  "verifier_accepts CapabilityVerifier k = (k = CapabilityExists)"
| "verifier_accepts ContractVerifier k = (k = ContractHolds)"
| "verifier_accepts ArchitectureVerifier k = (k = ArchitectureFollows)"
| "verifier_accepts FunctionImplementsVerifier k = (k = FunctionImplements)"

fun verifier_class_name :: "verifier_class \<Rightarrow> bytes" where
  "verifier_class_name CapabilityVerifier = capability_name"
| "verifier_class_name ContractVerifier = contract_name"
| "verifier_class_name ArchitectureVerifier = architecture_name"
| "verifier_class_name FunctionImplementsVerifier = function_name"

text \<open>The owned pointers in the order of registration; \<open>None\<close> is a null pointer.\<close>

type_synonym registry = "verifier_class option list"

definition register_verifier :: "verifier_class option \<Rightarrow> registry \<Rightarrow> registry" where
  "register_verifier v reg = reg @ [v]"

definition register_default_verifiers :: "registry \<Rightarrow> registry" where
  "register_default_verifiers reg =
     register_verifier (Some FunctionImplementsVerifier) (register_verifier (Some ArchitectureVerifier)
       (register_verifier (Some ContractVerifier) (register_verifier (Some CapabilityVerifier) reg)))"

definition ensureDefaultVerifiers :: "registry \<Rightarrow> registry" where
  "ensureDefaultVerifiers reg = (if reg \<noteq> [] then reg else register_default_verifiers reg)"

definition registry_clear :: "registry \<Rightarrow> registry" where
  "registry_clear reg = []"

fun registry_match :: "registry \<Rightarrow> claim_type \<Rightarrow> verifier_class option" where
  "registry_match [] k = None"
| "registry_match (None # reg) k = registry_match reg k"
| "registry_match (Some v # reg) k = (if verifier_accepts v k then Some v else registry_match reg k)"

definition verifier_names :: "registry \<Rightarrow> bytes list" where
  "verifier_names reg = map (\<lambda>v. case v of Some c \<Rightarrow> verifier_class_name c | None \<Rightarrow> []) reg"

text \<open>The loop over the verifiers and the public types, with the set of types seen.\<close>

definition supported_claim_types :: "registry \<Rightarrow> claim_type list" where
  "supported_claim_types reg =
     fold (\<lambda>v supported.
         case v of None \<Rightarrow> supported
         | Some c \<Rightarrow> fold (\<lambda>k s. if k \<in> set s then s else if verifier_accepts c k then s @ [k] else s)
                       all_public_claim_types supported)
       reg []"

text \<open>What happens to the registry of a process: an engine is destroyed, a call arms it.\<close>

inductive registry_step :: "registry \<Rightarrow> registry \<Rightarrow> bool" where
  destroyed: "registry_step reg (registry_clear reg)"
| armed: "registry_step reg (ensureDefaultVerifiers reg)"

inductive_cases registry_stepE: "registry_step reg reg'"

definition default_registry :: registry where
  "default_registry =
     [Some CapabilityVerifier, Some ContractVerifier, Some ArchitectureVerifier, Some FunctionImplementsVerifier]"

lemma ensure_cases: "ensureDefaultVerifiers [] = default_registry" "ensureDefaultVerifiers default_registry = default_registry"
  by (simp_all add: ensureDefaultVerifiers_def register_default_verifiers_def register_verifier_def default_registry_def)

lemma registry_invariant: "registry_step\<^sup>*\<^sup>* [] reg \<Longrightarrow> reg = [] \<or> reg = default_registry"
proof (induction rule: rtranclp_induct)
  case (step reg reg')
  then show ?case by (auto elim!: registry_stepE simp: registry_clear_def ensure_cases)
qed simp

text \<open>
  The registry survives any life cycle: however often engines are destroyed and calls arm it again,
  the next arming leaves exactly the four verifiers, in which every public claim type has one that
  accepts it, and reports all of them as supported.
\<close>

theorem registry_lifecycle:
  assumes "registry_step\<^sup>*\<^sup>* [] reg"
  shows "ensureDefaultVerifiers reg = default_registry \<and>
    (case registry_match (ensureDefaultVerifiers reg) k of None \<Rightarrow> False
     | Some v \<Rightarrow> verifier_accepts v k \<and> verifier_class_name v = verifier_of k) \<and>
    supported_claim_types (ensureDefaultVerifiers reg) = all_public_claim_types"
proof -
  have e: "ensureDefaultVerifiers reg = default_registry" using registry_invariant [OF assms] ensure_cases by auto
  show ?thesis unfolding e
    by (cases k) (simp_all add: default_registry_def verifier_of_def supported_claim_types_def all_public_claim_types_def)
qed

theorem registry_lifecycle_witness:
  "ensureDefaultVerifiers (registry_clear (ensureDefaultVerifiers [])) = default_registry"
proof -
  have a: "registry_step [] (ensureDefaultVerifiers [])" by (rule armed)
  have d: "registry_step (ensureDefaultVerifiers []) (registry_clear (ensureDefaultVerifiers []))" by (rule destroyed)
  have "registry_step\<^sup>*\<^sup>* [] (registry_clear (ensureDefaultVerifiers []))"
    using converse_rtranclp_into_rtranclp [of registry_step, OF a r_into_rtranclp [of registry_step, OF d]] .
  from registry_lifecycle [OF this] show ?thesis by simp
qed

section \<open>The rows a verification writes\<close>

record evidence_row =
  er_id :: int
  er_claim :: int
  er_verdict :: verdict
  er_confidence :: rat
  er_verifier :: bytes
  er_detail :: bytes

record finding_row =
  fi_project :: nat
  fi_rule :: bytes
  fi_severity :: int
  fi_claim :: "int option"
  fi_description :: bytes
  fi_confidence :: rat

datatype write_kind = WriteClaim | WriteEvidence | WriteFact | WriteFinding

record knowledge =
  claim_rows :: "(int \<times> nat \<times> claim) list"
  evidence_rows :: "evidence_row list"
  evidence_fact_rows :: "(int \<times> int \<times> int) list"
  finding_rows :: "finding_row list"
  next_claim :: int
  next_evidence :: int
  attempts :: nat
  can_write :: "write_kind \<Rightarrow> nat \<Rightarrow> bool"

text \<open>\<open>next_claim\<close> and \<open>next_evidence\<close> are the row ids that SQLite gives to the next rows of the two tables.\<close>

definition insertClaim :: "nat \<Rightarrow> claim \<Rightarrow> knowledge \<Rightarrow> int \<times> knowledge" where
  "insertClaim project c k =
     (if can_write k WriteClaim (attempts k)
      then (next_claim k, k\<lparr>claim_rows := claim_rows k @ [(next_claim k, project, c)], next_claim := next_claim k + 1,
             attempts := Suc (attempts k)\<rparr>)
      else (-1, k\<lparr>attempts := Suc (attempts k)\<rparr>))"

definition insertEvidence :: "int \<Rightarrow> evidence_record \<Rightarrow> knowledge \<Rightarrow> int \<times> knowledge" where
  "insertEvidence claim_id r k =
     (if can_write k WriteEvidence (attempts k)
      then (next_evidence k, k\<lparr>evidence_rows := evidence_rows k @
             [\<lparr>er_id = next_evidence k, er_claim = claim_id, er_verdict = rec_verdict r, er_confidence = rec_confidence r,
               er_verifier = rec_verifier r, er_detail = rec_detail r\<rparr>],
             next_evidence := next_evidence k + 1, attempts := Suc (attempts k)\<rparr>)
      else (-1, k\<lparr>attempts := Suc (attempts k)\<rparr>))"

text \<open>\<open>INSERT OR IGNORE\<close> on the key of all three columns.\<close>

definition insertEvidenceFact :: "int \<Rightarrow> int \<times> int \<Rightarrow> knowledge \<Rightarrow> knowledge" where
  "insertEvidenceFact evidence_id f k =
     (let k1 = k\<lparr>attempts := Suc (attempts k)\<rparr>
      in if can_write k WriteFact (attempts k) \<and> (evidence_id, fst f, snd f) \<notin> set (evidence_fact_rows k)
         then k1\<lparr>evidence_fact_rows := evidence_fact_rows k @ [(evidence_id, fst f, snd f)]\<rparr> else k1)"

definition insertFinding :: "nat \<Rightarrow> bytes \<Rightarrow> int \<Rightarrow> int \<Rightarrow> bytes \<Rightarrow> rat \<Rightarrow> knowledge \<Rightarrow> knowledge" where
  "insertFinding project rule severity claim_id description conf k =
     (if can_write k WriteFinding (attempts k)
      then k\<lparr>finding_rows := finding_rows k @
             [\<lparr>fi_project = project, fi_rule = rule, fi_severity = severity,
               fi_claim = (if 0 < claim_id then Some claim_id else None), fi_description = description,
               fi_confidence = conf\<rparr>], attempts := Suc (attempts k)\<rparr>
      else k\<lparr>attempts := Suc (attempts k)\<rparr>)"

section \<open>verify_one_claim\<close>

text \<open>What the call of \<open>verify\<close> on the fresh verifier ends in: a record, a \<open>std::exception\<close> with its
  text, or another exception.\<close>

datatype outcome = Verified evidence_record | Threw bytes | ThrewUnknown

record verify_result =
  vr_json :: bytes
  vr_verdict :: verdict

definition unknown_result :: "int \<Rightarrow> bytes option \<Rightarrow> bytes \<Rightarrow> bytes \<Rightarrow> verify_result" where
  "unknown_result claim_id verifier code detail =
     \<lparr>vr_json = out (run_writer
        [BeginObject, Key ''claim_id'', ValueInt claim_id, Key ''verdict'', ValueString ''Unknown'', Key ''confidence'',
         ValueInt 0, Key ''verifier'', (case verifier of None \<Rightarrow> NullValue | Some v \<Rightarrow> ValueString v),
         Key ''error_code'', ValueString code, Key ''detail'', ValueString detail, Key ''evidence_facts'', BeginArray,
         EndArray, EndObject] new_writer),
      vr_verdict = Unknown\<rparr>"

definition text_result :: "bytes \<Rightarrow> verify_result" where
  "text_result t = \<lparr>vr_json = t, vr_verdict = Unknown\<rparr>"

definition fact_ops :: "int \<times> int \<Rightarrow> writer_op list" where
  "fact_ops f = [BeginObject, Key ''kind'', ValueInt (fst f), Key ''ref'', ValueInt (snd f), EndObject]"

definition recorded_result :: "(rat \<Rightarrow> bytes) \<Rightarrow> int \<Rightarrow> evidence_record \<Rightarrow> verify_result" where
  "recorded_result fmt claim_id r =
     \<lparr>vr_json = out (run_writer
        ([BeginObject, Key ''claim_id'', ValueInt claim_id, Key ''verdict'', ValueString (verdictName (rec_verdict r)),
          Key ''confidence'', ValueDouble (Some (fmt (rec_confidence r))), Key ''verifier'', ValueString (rec_verifier r)] @
         (if rec_verdict r = Unknown \<and> str_contains ''evidence backend not ready'' (rec_detail r)
          then [Key ''error_code'', ValueString ''evidence_backend_not_ready''] else []) @
         [Key ''detail'', ValueString (rec_detail r), Key ''evidence_facts'', BeginArray] @
         concat (map fact_ops (rec_facts r)) @ [EndArray, EndObject]) new_writer),
      vr_verdict = rec_verdict r\<rparr>"

definition no_verifier_detail :: "registry \<Rightarrow> claim_type \<Rightarrow> bytes" where
  "no_verifier_detail reg k =
     (if length reg = 0
      then ''verifier registry is empty (engine_create not called or the instance was destroyed) [module=ffi, method=verify_one_claim]''
      else ''no verifier accepts claim type '' @ in_quotes (claimTypeWireName k) @ '' [module=ffi, method=verify_one_claim]'')"

definition quote_json :: "bytes \<Rightarrow> bytes" where
  "quote_json s = [quote_char] @ s @ [quote_char]"

definition error_text :: "bytes \<Rightarrow> bytes" where
  "error_text s = ''{'' @ quote_json ''error'' @ '':'' @ quote_json s @ ''}''"

definition verify_one_claim ::
  "(rat \<Rightarrow> bytes) \<Rightarrow> (claim \<Rightarrow> outcome) \<Rightarrow> nat \<Rightarrow> claim \<Rightarrow> registry \<times> knowledge \<Rightarrow> verify_result \<times> registry \<times> knowledge" where
  "verify_one_claim fmt run project c s =
     (let (reg, k) = s; (claim_id, k1) = insertClaim project c k
      in if claim_id < 0
      then (text_result (error_text ''failed to persist claim [module=ffi, method=verify_one_claim]''), reg, k1)
      else
        let reg1 = ensureDefaultVerifiers reg in
        case registry_match reg1 (claim_kind c) of
          None \<Rightarrow>
            (unknown_result claim_id None (if length reg1 = 0 then ''registry_empty'' else ''claim_type_unsupported'')
               (no_verifier_detail reg1 (claim_kind c)), reg1, k1)
        | Some matched \<Rightarrow>
            (case run c of
               Threw what \<Rightarrow>
                 (unknown_result claim_id (Some (verifier_of (claim_kind c))) ''verifier_execution_failed''
                    (''verifier threw: '' @ what @ '' [module=ffi, method=verify_one_claim]''), reg1, k1)
             | ThrewUnknown \<Rightarrow>
                 (unknown_result claim_id (Some (verifier_of (claim_kind c))) ''verifier_execution_failed''
                    ''verifier threw unknown exception [module=ffi, method=verify_one_claim]'', reg1, k1)
             | Verified r0 \<Rightarrow>
                 let r = r0\<lparr>rec_claim_id := claim_id\<rparr>; (evidence_id, k2) = insertEvidence claim_id r k1
                 in if evidence_id < 0
                 then (text_result (error_text ''failed to persist evidence [module=ffi, method=verify_one_claim]''), reg1, k2)
                 else (recorded_result fmt claim_id r, reg1, fold (insertEvidenceFact evidence_id) (rec_facts r) k2)))"

section \<open>The rows stay linked\<close>

text \<open>Every evidence row belongs to a stored claim, every fact to a stored evidence row, and ids are unique.\<close>

definition claim_ids :: "knowledge \<Rightarrow> int list" where
  "claim_ids k = map fst (claim_rows k)"

definition evidence_ids :: "knowledge \<Rightarrow> int list" where
  "evidence_ids k = map er_id (evidence_rows k)"

definition rows_linked :: "knowledge \<Rightarrow> bool" where
  "rows_linked k \<longleftrightarrow>
     1 \<le> next_claim k \<and> 1 \<le> next_evidence k \<and> distinct (claim_ids k) \<and> distinct (evidence_ids k) \<and> distinct (evidence_fact_rows k) \<and>
     set (claim_ids k) \<subseteq> {1..<next_claim k} \<and> set (evidence_ids k) \<subseteq> {1..<next_evidence k} \<and>
     er_claim ` set (evidence_rows k) \<subseteq> set (claim_ids k) \<and> fst ` set (evidence_fact_rows k) \<subseteq> set (evidence_ids k)"

lemma ids_grow [simp]: "A \<subseteq> {1..<n} \<Longrightarrow> A \<subseteq> {1..<n + 1}" for n :: int
  by auto

lemma id_fresh: "A \<subseteq> {1..<n} \<Longrightarrow> n \<notin> A" for n :: int
  by auto

text \<open>Rows are only added.\<close>

definition extends :: "knowledge \<Rightarrow> knowledge \<Rightarrow> bool" where
  "extends k k' \<longleftrightarrow>
     prefix (claim_rows k) (claim_rows k') \<and> prefix (evidence_rows k) (evidence_rows k') \<and>
     prefix (evidence_fact_rows k) (evidence_fact_rows k') \<and> finding_rows k' = finding_rows k \<and>
     next_claim k \<le> next_claim k' \<and> next_evidence k \<le> next_evidence k' \<and> can_write k' = can_write k"

lemma extends_refl [intro, simp]: "extends k k"
  by (simp add: extends_def)

lemma extends_trans [trans]: "extends k k1 \<Longrightarrow> extends k1 k2 \<Longrightarrow> extends k k2"
  by (auto simp: extends_def intro: prefix_order.trans)

lemma insertClaim_step:
  assumes "insertClaim project c k = (i, k')"
  shows "extends k k'" "rows_linked k \<Longrightarrow> rows_linked k'"
    "0 \<le> i \<Longrightarrow> rows_linked k \<Longrightarrow> claim_rows k' = claim_rows k @ [(i, project, c)] \<and> i \<in> set (claim_ids k')"
    "evidence_rows k' = evidence_rows k" "evidence_fact_rows k' = evidence_fact_rows k"
    "i < 0 \<Longrightarrow> rows_linked k \<Longrightarrow> claim_rows k' = claim_rows k"
proof -
  show "rows_linked k'" if l: "rows_linked k"
  proof (cases "can_write k WriteClaim (attempts k)")
    case True
    have "next_claim k \<notin> set (claim_ids k)" using l id_fresh unfolding rows_linked_def by blast
    with assms l True show ?thesis
      unfolding insertClaim_def by clarsimp (simp add: rows_linked_def claim_ids_def evidence_ids_def subset_insertI2)
  next
    case False
    with assms l show ?thesis
      unfolding insertClaim_def by clarsimp (simp add: rows_linked_def claim_ids_def evidence_ids_def)
  qed
qed (use assms in \<open>auto simp: insertClaim_def extends_def rows_linked_def claim_ids_def evidence_ids_def split: if_splits\<close>)

lemma insertEvidence_step:
  assumes "insertEvidence claim_id r k = (i, k')"
  shows "extends k k'" "rows_linked k \<Longrightarrow> claim_id \<in> set (claim_ids k) \<Longrightarrow> rows_linked k'"
    "claim_rows k' = claim_rows k" "evidence_fact_rows k' = evidence_fact_rows k"
    "0 \<le> i \<Longrightarrow> evidence_rows k' = evidence_rows k @
       [\<lparr>er_id = i, er_claim = claim_id, er_verdict = rec_verdict r, er_confidence = rec_confidence r,
         er_verifier = rec_verifier r, er_detail = rec_detail r\<rparr>]"
    "i < 0 \<Longrightarrow> rows_linked k \<Longrightarrow> evidence_rows k' = evidence_rows k"
proof -
  show "rows_linked k'" if l: "rows_linked k" and c: "claim_id \<in> set (claim_ids k)"
  proof (cases "can_write k WriteEvidence (attempts k)")
    case True
    have "next_evidence k \<notin> set (evidence_ids k)" using l id_fresh unfolding rows_linked_def by blast
    with assms l c True show ?thesis
      unfolding insertEvidence_def by clarsimp (simp add: rows_linked_def claim_ids_def evidence_ids_def subset_insertI2)
  next
    case False
    with assms l show ?thesis
      unfolding insertEvidence_def by clarsimp (simp add: rows_linked_def claim_ids_def evidence_ids_def)
  qed
qed (use assms in \<open>auto simp: insertEvidence_def extends_def rows_linked_def split: if_splits\<close>)

lemma insertEvidenceFact_step:
  "extends k (insertEvidenceFact i f k)"
  "rows_linked k \<Longrightarrow> i \<in> set (evidence_ids k) \<Longrightarrow> rows_linked (insertEvidenceFact i f k)"
  "evidence_ids (insertEvidenceFact i f k) = evidence_ids k"
  "claim_rows (insertEvidenceFact i f k) = claim_rows k" "evidence_rows (insertEvidenceFact i f k) = evidence_rows k"
  by (auto simp: insertEvidenceFact_def Let_def extends_def rows_linked_def claim_ids_def evidence_ids_def split: if_splits)

lemma facts_step:
  "extends k (fold (insertEvidenceFact i) fs k)"
  "rows_linked k \<Longrightarrow> i \<in> set (evidence_ids k) \<Longrightarrow> rows_linked (fold (insertEvidenceFact i) fs k)"
  "claim_rows (fold (insertEvidenceFact i) fs k) = claim_rows k"
  "evidence_rows (fold (insertEvidenceFact i) fs k) = evidence_rows k"
proof (induction fs arbitrary: k)
  case (Cons f fs)
  { case 1 show ?case using extends_trans [OF insertEvidenceFact_step(1) Cons.IH(1)] by simp }
  { case 2 then show ?case using Cons.IH(2) by (simp add: insertEvidenceFact_step) }
  { case 3 show ?case using Cons.IH(3) by (simp add: insertEvidenceFact_step) }
  { case 4 show ?case using Cons.IH(4) by (simp add: insertEvidenceFact_step) }
qed simp_all

lemma fact_rows_written:
  "set (evidence_fact_rows (fold (insertEvidenceFact i) fs k)) \<subseteq> set (evidence_fact_rows k) \<union> Pair i ` set fs"
  "(\<And>w n. can_write k w n) \<Longrightarrow>
   set (evidence_fact_rows (fold (insertEvidenceFact i) fs k)) = set (evidence_fact_rows k) \<union> Pair i ` set fs"
proof (induction fs arbitrary: k)
  case (Cons f fs)
  { case 1 show ?case using Cons.IH(1) [of "insertEvidenceFact i f k"] by (auto simp: insertEvidenceFact_def Let_def split: if_splits) }
  { case 2
    then have "\<And>w n. can_write (insertEvidenceFact i f k) w n" by (simp add: insertEvidenceFact_def Let_def)
    from Cons.IH(2) [OF this] 2 show ?case by (auto simp: insertEvidenceFact_def Let_def) }
qed simp_all

text \<open>
  What one call of \<open>verify_one_claim\<close> can do to the rows, by the outcome of its two writes.
\<close>

lemma verify_one_claim_cases:
  assumes "verify_one_claim fmt run project c (reg, k) = (res, reg', k')"
  obtains (no_claim) i where "insertClaim project c k = (i, k')" "i < 0" "vr_verdict res = Unknown"
  | (undecided) i where "insertClaim project c k = (i, k')" "0 \<le> i" "vr_verdict res = Unknown"
  | (no_evidence) i k1 r j where "insertClaim project c k = (i, k1)" "0 \<le> i" "run c = Verified r"
      "insertEvidence i (r\<lparr>rec_claim_id := i\<rparr>) k1 = (j, k')" "j < 0" "vr_verdict res = Unknown"
  | (recorded) i k1 r j k2 where "insertClaim project c k = (i, k1)" "0 \<le> i" "run c = Verified r"
      "insertEvidence i (r\<lparr>rec_claim_id := i\<rparr>) k1 = (j, k2)" "0 \<le> j"
      "k' = fold (insertEvidenceFact j) (rec_facts r) k2" "vr_verdict res = rec_verdict r"
      "res = recorded_result fmt i (r\<lparr>rec_claim_id := i\<rparr>)"
  using assms unfolding verify_one_claim_def Let_def
  by (auto simp: text_result_def unknown_result_def recorded_result_def split: prod.splits if_splits option.splits outcome.splits)

lemma verification_keeps_links_aux:
  assumes "rows_linked k" and "verify_one_claim fmt run project c (reg, k) = (res, reg', k')"
  shows "rows_linked k' \<and> extends k k'"
  using assms(2)
proof (cases rule: verify_one_claim_cases)
  case (no_evidence i k1 r j)
  then show ?thesis using insertClaim_step [OF no_evidence(1)] insertEvidence_step [OF no_evidence(4)] assms(1)
    by (blast intro: extends_trans)
next
  case (recorded i k1 r j k2)
  note steps = insertClaim_step [OF recorded(1)] insertEvidence_step [OF recorded(4)]
  have "rows_linked k2" and ext: "extends k k2" using steps recorded(2) assms(1) by (blast intro: extends_trans)+
  moreover have "j \<in> set (evidence_ids k2)" using steps recorded(5) by (simp add: evidence_ids_def)
  ultimately show ?thesis unfolding recorded(6) using facts_step extends_trans by blast
qed (use insertClaim_step assms(1) in blast)+

text \<open>
  A verification never leaves dangling rows: whichever writes fail and whatever the verifier does,
  ids stay unique, every evidence row belongs to a stored claim, every fact row to a stored evidence
  row, and no row that was there is changed.
\<close>

theorem verification_keeps_links:
  assumes "rows_linked k" and "verify_one_claim fmt run project c (reg, k) = (res, reg', k')"
  shows "rows_linked k' \<and> extends k k'"
  using assms by (rule verification_keeps_links_aux)

definition empty_knowledge :: knowledge where
  "empty_knowledge = \<lparr>claim_rows = [], evidence_rows = [], evidence_fact_rows = [], finding_rows = [], next_claim = 1, next_evidence = 1, attempts = 0,
     can_write = (\<lambda>_ _. True)\<rparr>"

lemma empty_rows_linked [simp]: "rows_linked empty_knowledge"
  by (simp add: rows_linked_def empty_knowledge_def claim_ids_def evidence_ids_def)

definition demo_run :: "claim \<Rightarrow> outcome" where
  "demo_run c = Verified (verify_fresh healthy demo_tables 1 c)"

definition demo_verification :: "verify_result \<times> registry \<times> knowledge" where
  "demo_verification = verify_one_claim (\<lambda>q. ''0.5'') demo_run 1 (subject_claim CapabilityExists ''IncrementalIndex'') ([], empty_knowledge)"

theorem verification_keeps_links_witness: "rows_linked (snd (snd demo_verification))"
  using verification_keeps_links [OF empty_rows_linked, of "\<lambda>q. ''0.5''" demo_run 1 "subject_claim CapabilityExists ''IncrementalIndex''" "[]"]
  unfolding demo_verification_def [symmetric] by (metis prod.collapse)

text \<open>
  (C5) A reported verdict is a recorded verdict: if the caller is told Supported or Contradicted, then
  exactly one claim row and one evidence row were written, the evidence row refers to that claim and
  carries the verdict, confidence, verifier and detail of the verifier's record, and every new fact row
  is a fact of that record.
\<close>

theorem reported_verdict_is_recorded:
  assumes "rows_linked k" and "verify_one_claim fmt run project c (reg, k) = (res, reg', k')" and "vr_verdict res \<noteq> Unknown"
  shows "\<exists>i j r. run c = Verified r \<and> claim_rows k' = claim_rows k @ [(i, project, c)] \<and>
    evidence_rows k' = evidence_rows k @
      [\<lparr>er_id = j, er_claim = i, er_verdict = vr_verdict res, er_confidence = rec_confidence r,
        er_verifier = rec_verifier r, er_detail = rec_detail r\<rparr>] \<and>
    set (evidence_fact_rows k') \<subseteq> set (evidence_fact_rows k) \<union> Pair j ` set (rec_facts r)"
  using assms(2)
proof (cases rule: verify_one_claim_cases)
  case (recorded i k1 r j k2)
  note steps = insertClaim_step [OF recorded(1)] insertEvidence_step [OF recorded(4)]
  have "claim_rows k' = claim_rows k @ [(i, project, c)]"
    using steps facts_step recorded(2,6) assms(1) by simp
  moreover have "evidence_rows k' = evidence_rows k @
      [\<lparr>er_id = j, er_claim = i, er_verdict = vr_verdict res, er_confidence = rec_confidence r,
        er_verifier = rec_verifier r, er_detail = rec_detail r\<rparr>]"
    using steps facts_step recorded(5,6,7) by simp
  moreover have "set (evidence_fact_rows k') \<subseteq> set (evidence_fact_rows k) \<union> Pair j ` set (rec_facts r)"
    using fact_rows_written(1) [of j "rec_facts r" k2] steps recorded(6) by simp
  ultimately show ?thesis using recorded(3) by blast
qed (use assms(3) in auto)

lemma demo_supported: "vr_verdict (fst demo_verification) = Supported"
proof -
  have "rec_verdict (capability_verify healthy demo_tables 1 (subject_claim CapabilityExists ''IncrementalIndex'')) = Supported"
    by code_simp
  then show ?thesis
    by (simp add: demo_verification_def verify_one_claim_def demo_run_def verify_fresh_def insertClaim_def insertEvidence_def
        empty_knowledge_def ensure_cases default_registry_def recorded_result_def)
qed

theorem reported_verdict_is_recorded_witness: "length (evidence_rows (snd (snd demo_verification))) = 1"
proof -
  have v: "vr_verdict (fst demo_verification) \<noteq> Unknown" by (simp add: demo_supported)
  have d: "verify_one_claim (\<lambda>q. ''0.5'') demo_run 1 (subject_claim CapabilityExists ''IncrementalIndex'') ([], empty_knowledge) =
      (fst demo_verification, fst (snd demo_verification), snd (snd demo_verification))"
    by (simp only: demo_verification_def prod.collapse)
  from reported_verdict_is_recorded [OF empty_rows_linked d v]
  show ?thesis by (auto simp: empty_knowledge_def)
qed

section \<open>verify_claim_batch\<close>

record batch_result =
  claims_count :: nat
  batch_supported :: nat
  batch_contradicted :: nat
  batch_unknown :: nat
  results_json :: bytes
  batch_status :: bytes

text \<open>The loop over the claims: the results in order and the state after the last one.\<close>

fun verify_claims ::
  "(rat \<Rightarrow> bytes) \<Rightarrow> (claim \<Rightarrow> outcome) \<Rightarrow> nat \<Rightarrow> claim list \<Rightarrow> registry \<times> knowledge \<Rightarrow> verify_result list \<times> registry \<times> knowledge" where
  "verify_claims fmt run project [] s = ([], s)"
| "verify_claims fmt run project (c # cs) s =
     (let (r, s1) = verify_one_claim fmt run project c s; (rs, s2) = verify_claims fmt run project cs s1 in (r # rs, s2))"

definition tally :: "verdict \<Rightarrow> verify_result list \<Rightarrow> nat" where
  "tally v rs = length (filter (\<lambda>r. vr_verdict r = v) rs)"

definition batch_of :: "claim list \<Rightarrow> verify_result list \<Rightarrow> batch_result" where
  "batch_of cs rs =
     \<lparr>claims_count = length cs, batch_supported = tally Supported rs, batch_contradicted = tally Contradicted rs,
      batch_unknown = tally Unknown rs, results_json = ''['' @ join '','' (map vr_json rs) @ '']'',
      batch_status = (if length cs = 0 then ''no_claims''
        else if tally Supported rs + tally Contradicted rs = 0 then ''no_verdicts'' else ''verified'')\<rparr>"

definition verify_claim_batch ::
  "(rat \<Rightarrow> bytes) \<Rightarrow> (claim \<Rightarrow> outcome) \<Rightarrow> nat \<Rightarrow> bytes \<Rightarrow> bytes \<Rightarrow> bytes \<Rightarrow> registry \<times> knowledge \<Rightarrow>
   batch_result \<times> registry \<times> knowledge" where
  "verify_claim_batch fmt run project txt source_kind source_ref s =
     (let cs = parse txt source_kind source_ref; (rs, s') = verify_claims fmt run project cs s in (batch_of cs rs, s'))"

lemma tally_total: "tally Supported rs + tally Contradicted rs + tally Unknown rs = length rs"
proof (induction rs)
  case (Cons r rs)
  then show ?case by (cases "vr_verdict r") (simp_all add: tally_def)
qed (simp add: tally_def)

lemma tally_pos: "0 < tally v rs \<longleftrightarrow> (\<exists>r \<in> set rs. vr_verdict r = v)"
  by (auto simp: tally_def filter_empty_conv)

lemma verify_claims_length: "length (fst (verify_claims fmt run project cs s)) = length cs"
  by (induction cs arbitrary: s) (auto simp: case_prod_beta)

lemma verify_claims_linked:
  assumes "rows_linked (snd s)"
  shows "rows_linked (snd (snd (verify_claims fmt run project cs s))) \<and> extends (snd s) (snd (snd (verify_claims fmt run project cs s)))"
  using assms
proof (induction cs arbitrary: s)
  case (Cons c cs)
  obtain reg k where s: "s = (reg, k)" by (cases s)
  obtain r reg1 k1 where one: "verify_one_claim fmt run project c (reg, k) = (r, reg1, k1)"
    by (cases "verify_one_claim fmt run project c (reg, k)") auto
  from verification_keeps_links_aux [OF _ one] Cons.prems have "rows_linked k1" "extends k k1" by (simp_all add: s)
  then show ?case using Cons.IH [of "(reg1, k1)"] extends_trans [OF \<open>extends k k1\<close>] by (simp add: s one case_prod_beta)
qed simp

lemma batch_counts:
  assumes "verify_claim_batch fmt run project txt source_kind source_ref s = (b, s')"
  shows "batch_supported b + batch_contradicted b + batch_unknown b = claims_count b"
    "claims_count b = length (parse txt source_kind source_ref)"
    "batch_status b = ''no_claims'' \<longleftrightarrow> claims_count b = 0"
    "batch_status b = ''verified'' \<longleftrightarrow> 0 < batch_supported b + batch_contradicted b"
proof -
  let ?cs = "parse txt source_kind source_ref"
  have b: "b = batch_of ?cs (fst (verify_claims fmt run project ?cs s))"
    using assms by (simp add: verify_claim_batch_def Let_def case_prod_beta)
  note n = verify_claims_length [of fmt run project ?cs s]
  have t: "tally Supported (fst (verify_claims fmt run project ?cs s)) + tally Contradicted (fst (verify_claims fmt run project ?cs s))
      + tally Unknown (fst (verify_claims fmt run project ?cs s)) = length ?cs" using tally_total n by metis
  show "batch_supported b + batch_contradicted b + batch_unknown b = claims_count b"
    "claims_count b = length ?cs" using t by (simp_all add: b batch_of_def)
  show "batch_status b = ''no_claims'' \<longleftrightarrow> claims_count b = 0" by (simp add: b batch_of_def)
  show "batch_status b = ''verified'' \<longleftrightarrow> 0 < batch_supported b + batch_contradicted b"
    using t by (cases "?cs = []") (simp_all add: b batch_of_def tally_def)
qed

text \<open>
  A batch accounts for every claim of the text: the three tallies add up to the number of parsed
  claims, the status tells no claims, no verdicts and verified apart exactly, and the rows stay linked
  with nothing that was there changed.
\<close>

theorem batch_accounts:
  assumes "rows_linked (snd s)" and "verify_claim_batch fmt run project txt source_kind source_ref s = (b, s')"
  shows "batch_supported b + batch_contradicted b + batch_unknown b = length (parse txt source_kind source_ref) \<and>
    (batch_status b = ''no_claims'' \<longleftrightarrow> parse txt source_kind source_ref = []) \<and>
    (batch_status b = ''verified'' \<longleftrightarrow> 0 < batch_supported b + batch_contradicted b) \<and>
    rows_linked (snd s') \<and> extends (snd s) (snd s')"
proof -
  have "s' = snd (verify_claims fmt run project (parse txt source_kind source_ref) s)"
    using assms(2) by (auto simp: verify_claim_batch_def Let_def case_prod_beta)
  then have "rows_linked (snd s') \<and> extends (snd s) (snd s')"
    using verify_claims_linked [OF assms(1), of fmt run project "parse txt source_kind source_ref"] by simp
  then show ?thesis using batch_counts [OF assms(2)] by simp
qed

theorem batch_accounts_witness:
  "batch_supported (fst (verify_claim_batch (\<lambda>q. ''0.5'') demo_run 1 ''fully zero-copy'' ''readme'' ''R'' ([], empty_knowledge))) +
   batch_contradicted (fst (verify_claim_batch (\<lambda>q. ''0.5'') demo_run 1 ''fully zero-copy'' ''readme'' ''R'' ([], empty_knowledge))) +
   batch_unknown (fst (verify_claim_batch (\<lambda>q. ''0.5'') demo_run 1 ''fully zero-copy'' ''readme'' ''R'' ([], empty_knowledge))) = 1"
proof -
  have "length (parse ''fully zero-copy'' ''readme'' ''R'') = 1" by code_simp
  then show ?thesis
    using batch_accounts [of "([], empty_knowledge)" "\<lambda>q. ''0.5''" demo_run 1 "''fully zero-copy''" "''readme''" "''R''"]
      empty_rows_linked by (metis prod.collapse snd_conv)
qed

section \<open>A claim given as JSON\<close>

text \<open>The body of a string literal up to the closing quote, and \<open>jsonField\<close>.\<close>

definition field_escape :: "char \<Rightarrow> char" where
  "field_escape c = (if c = CHR ''n'' then CHR 0x0A else if c = CHR ''t'' then CHR 0x09 else if c = CHR ''r'' then CHR 0x0D else c)"

fun field_body :: "bytes \<Rightarrow> bytes" where
  "field_body [] = []"
| "field_body [c] = (if c = quote_char then [] else [c])"
| "field_body (c # d # cs) =
     (if c = quote_char then []
      else if c = CHR 0x5C then field_escape d # field_body cs
      else c # field_body (d # cs))"

definition field_value :: "bytes \<Rightarrow> bytes" where
  "field_value r =
     (case dropWhile (\<lambda>c. c = CHR '' '' \<or> c = CHR 0x09) r of [] \<Rightarrow> []
      | c # cs \<Rightarrow> (if c \<noteq> quote_char then [] else field_body cs))"

definition jsonField :: "bytes \<Rightarrow> bytes \<Rightarrow> bytes" where
  "jsonField json name =
     (case str_find (quote_json name) json of None \<Rightarrow> []
      | Some i \<Rightarrow>
          (case dropWhile (\<lambda>c. c \<noteq> CHR '':'') (drop (i + length (quote_json name)) json) of [] \<Rightarrow> []
           | c # r \<Rightarrow> field_value r))"

definition parseClaimType :: "bytes \<Rightarrow> claim_type option" where
  "parseClaimType s =
     (if s = ''capability_exists'' then Some CapabilityExists
      else if s = ''contract_holds'' then Some ContractHolds
      else if s = ''architecture_follows'' then Some ArchitectureFollows
      else if s = ''function_implements'' then Some FunctionImplements
      else None)"

definition or_default :: "bytes \<Rightarrow> bytes \<Rightarrow> bytes" where
  "or_default d s = (if s = [] then d else s)"

definition claim_of_json :: "claim_type \<Rightarrow> bytes \<Rightarrow> claim" where
  "claim_of_json k input =
     \<lparr>claim_kind = k, claim_subject = jsonField input ''subject'',
      claim_predicate = or_default ''implemented_by'' (jsonField input ''predicate''),
      claim_object = jsonField input ''object'', claim_scope = or_default ''repository'' (jsonField input ''scope''),
      claim_source_kind = or_default ''manual'' (jsonField input ''source_kind''),
      claim_source_ref = jsonField input ''source_ref''\<rparr>"

definition missing_type_message :: bytes where
  "missing_type_message =
     ''missing claim type: `claim` must be a JSON object with a '' @ quote_json ''type'' @
     '' field (one of: capability_exists, contract_holds, architecture_follows, function_implements), e.g. {'' @
     quote_json ''type'' @ '':'' @ quote_json ''capability_exists'' @ '','' @ quote_json ''subject'' @ '':'' @
     quote_json ''Indexing'' @ ''}. For free-form prose use verify_summary instead [module=ffi, method=engine_verify_claim]''"

definition type_error :: "bytes \<Rightarrow> bytes" where
  "type_error type_str =
     out (run_writer
       ([BeginObject, Key ''error''] @
        (if type_str = [] then [ValueString missing_type_message, Key ''error_code'', ValueString ''claim_type_missing'']
         else [ValueString (''unknown claim type '' @ in_quotes type_str @
             ''. Supported types: capability_exists, contract_holds, architecture_follows, function_implements [module=ffi, method=engine_verify_claim]''),
             Key ''error_code'', ValueString ''claim_type_unsupported'']) @ [EndObject]) new_writer)"

definition engine_verify_claim ::
  "(rat \<Rightarrow> bytes) \<Rightarrow> (claim \<Rightarrow> outcome) \<Rightarrow> bool \<Rightarrow> nat \<Rightarrow> bytes option \<Rightarrow> registry \<times> knowledge \<Rightarrow>
   bytes \<times> registry \<times> knowledge" where
  "engine_verify_claim fmt run ready project claim_json s =
     (if \<not> ready then (error_text ''not initialized'', s)
      else case claim_json of
        None \<Rightarrow> (error_text ''claim_json is empty [module=ffi, method=engine_verify_claim]'', s)
      | Some input \<Rightarrow>
          if input = [] then (error_text ''claim_json is empty [module=ffi, method=engine_verify_claim]'', s)
          else case parseClaimType (jsonField input ''type'') of
            None \<Rightarrow> (type_error (jsonField input ''type''), s)
          | Some k \<Rightarrow>
              if claim_subject (claim_of_json k input) = []
              then (error_text ''claim.subject is required [module=ffi, method=engine_verify_claim]'', s)
              else let (r, s') = verify_one_claim fmt run project (claim_of_json k input) s in (vr_json r, s'))"

lemma parseClaimType_wire: "parseClaimType s = Some k \<longleftrightarrow> s = claimTypeWireName k"
  by (cases k) (auto simp: parseClaimType_def)

text \<open>What the writer escapes with a single letter, the reader of a field decodes.\<close>

definition field_char :: "char \<Rightarrow> bool" where
  "field_char c \<longleftrightarrow> c \<in> {CHR 0x0A, CHR 0x09, CHR 0x0D} \<or> 32 \<le> byte_of c"

lemma field_body_char:
  assumes "field_char c" and "rest \<noteq> []"
  shows "field_body (esc_char c @ rest) = c # field_body rest"
proof -
  obtain d ds where rest: "rest = d # ds" using assms(2) by (cases rest) auto
  consider "c = quote_char" | "c = backslash" | "c = CHR 0x0A" | "c = CHR 0x0D" | "c = CHR 0x09"
    | "c \<noteq> quote_char" "c \<noteq> backslash" "c \<noteq> CHR 0x0A" "c \<noteq> CHR 0x0D" "c \<noteq> CHR 0x09" "32 \<le> byte_of c"
    using assms(1) unfolding field_char_def by auto
  then show ?thesis unfolding rest by cases (simp_all add: esc_char_def field_escape_def)
qed

lemma field_body_escaped: "list_all field_char v \<Longrightarrow> field_body (jsonEscapeString v @ quote_char # post) = v"
proof (induction v)
  case (Cons c v)
  then show ?case using field_body_char [of c "jsonEscapeString v @ quote_char # post"]
    by (simp add: jsonEscapeString_def)
qed (cases post; simp add: jsonEscapeString_def)

text \<open>
  The field reader is the inverse of the JSON writer: of an object in which no earlier text spells
  the quoted key, it returns exactly the string that was written for the key, quotes and backslashes
  included, as long as the string has no control character beyond line feed, tabulator and carriage
  return.
\<close>

theorem json_field_roundtrip:
  assumes "str_find (quote_json name) (pre @ quote_json name @ '':'' @ quoted v @ post) = Some (length pre)"
    and "list_all field_char v"
  shows "jsonField (pre @ quote_json name @ '':'' @ quoted v @ post) name = v"
proof -
  have "jsonField (pre @ quote_json name @ '':'' @ quoted v @ post) name = field_value (quoted v @ post)"
    unfolding jsonField_def assms(1) by simp
  also have "\<dots> = field_body (jsonEscapeString v @ quote_char # post)"
    by (simp add: field_value_def quoted_def)
  finally show ?thesis using field_body_escaped [OF assms(2)] by simp
qed

theorem json_field_roundtrip_witness:
  "jsonField (''{'' @ quote_json ''type'' @ '':'' @ quoted ''contract_holds'' @ ''}'') ''type'' = ''contract_holds''"
proof -
  have "str_find (quote_json ''type'') (''{'' @ quote_json ''type'' @ '':'' @ quoted ''contract_holds'' @ ''}'') = Some (length ''{'')"
    and "list_all field_char ''contract_holds''"
    by code_simp+
  then show ?thesis by (rule json_field_roundtrip)
qed

text \<open>
  The field reader does not know objects: a value that spells the key makes it return the value of
  the next member, and a character escaped by its number is not decoded.
\<close>

theorem json_field_confused:
  "jsonField (''{'' @ quote_json ''object'' @ '':'' @ quote_json ''subject'' @ '','' @ quote_json ''scope'' @ '':'' @
     quote_json ''Cache'' @ '','' @ quote_json ''subject'' @ '':'' @ quote_json ''Parser'' @ ''}'') ''subject'' = ''Cache'' \<and>
   jsonField (''{'' @ quote_json ''subject'' @ '':'' @ quote_json ([CHR 0x5C] @ ''u0041'') @ ''}'') ''subject'' = ''u0041''"
  by code_simp

text \<open>
  (C28) A claim that is refused leaves no trace: the call changes the store or the registry only if the
  text names one of the four public claim types and a subject; then it does exactly what
  \<open>verify_one_claim\<close> does with a claim of that type and subject.
\<close>

theorem refused_claim_writes_nothing:
  assumes "snd (engine_verify_claim fmt run ready project claim_json s) \<noteq> s"
  shows "\<exists>k input. claim_json = Some input \<and> jsonField input ''type'' = claimTypeWireName k \<and>
    jsonField input ''subject'' \<noteq> [] \<and>
    snd (engine_verify_claim fmt run ready project claim_json s) =
      snd (verify_one_claim fmt run project (claim_of_json k input) s)"
proof -
  from assms obtain input k where i: "ready" "claim_json = Some input" "input \<noteq> []"
      and k: "parseClaimType (jsonField input ''type'') = Some k" and sub: "claim_subject (claim_of_json k input) \<noteq> []"
    unfolding engine_verify_claim_def by (auto split: if_splits option.splits)
  have "snd (engine_verify_claim fmt run ready project claim_json s) =
      snd (verify_one_claim fmt run project (claim_of_json k input) s)"
    using i k sub by (simp add: engine_verify_claim_def case_prod_beta)
  then show ?thesis using i k sub by (auto simp: parseClaimType_wire claim_of_json_def)
qed

definition demo_input :: bytes where
  "demo_input = ''{'' @ quote_json ''type'' @ '':'' @ quote_json ''capability_exists'' @ '','' @ quote_json ''subject'' @ '':'' @
     quote_json ''IncrementalIndex'' @ ''}''"

theorem refused_claim_writes_nothing_witness:
  "snd (engine_verify_claim (\<lambda>q. ''0.5'') demo_run True 1 (Some demo_input) ([], empty_knowledge)) \<noteq> ([], empty_knowledge) \<and>
   jsonField demo_input ''subject'' \<noteq> []"
proof -
  have i: "demo_input \<noteq> []" "jsonField demo_input ''type'' = ''capability_exists''" "jsonField demo_input ''subject'' \<noteq> []"
    by code_simp+
  have "fst (snd (verify_one_claim (\<lambda>q. ''0.5'') demo_run 1 (claim_of_json CapabilityExists demo_input) ([], empty_knowledge))) = default_registry"
    by (simp add: verify_one_claim_def demo_run_def insertClaim_def insertEvidence_def empty_knowledge_def ensure_cases
        claim_of_json_def default_registry_def)
  then have "fst (snd (engine_verify_claim (\<lambda>q. ''0.5'') demo_run True 1 (Some demo_input) ([], empty_knowledge))) = default_registry"
    using i by (simp add: engine_verify_claim_def parseClaimType_def case_prod_beta claim_of_json_def)
  then have n: "snd (engine_verify_claim (\<lambda>q. ''0.5'') demo_run True 1 (Some demo_input) ([], empty_knowledge)) \<noteq> ([], empty_knowledge)"
    by (auto simp: default_registry_def)
  from refused_claim_writes_nothing [OF this] n show ?thesis by auto
qed

end
