(* ===== verification/Drift.thy ===== *)
theory Drift
  imports Readme_Scan Verify_Claim
begin

text \<open>
  Drift between what is declared and what is stored: of documentation
  (\<open>verify/documentation_drift.cpp\<close>), of capabilities (\<open>verify/capability_drift.cpp\<close>) and of the layers
  of an architecture (\<open>verify/architecture_drift.cpp\<close>), and the exported functions that store and report
  them (\<open>engine_verify_drift_ffi.cpp\<close>).

  Rows are those of \<open>Facts\<close>; a \<open>readmes\<close> row is the project and the content of a document of type 0.
\<close>

record drift_item =
  drift_type :: bytes
  drift_severity :: int
  drift_subject :: bytes
  drift_detail :: bytes

section \<open>Documentation\<close>

definition kDriftSeverityDoc :: int where "kDriftSeverityDoc = 1"
definition kDriftConfidenceDoc :: rat where "kDriftConfidenceDoc = 8 / 10"

definition countEntitiesByLanguage :: "query_env \<Rightarrow> fact_tables \<Rightarrow> nat \<Rightarrow> bytes \<Rightarrow> nat" where
  "countEntitiesByLanguage env t project language =
     (if \<not> has_handle env \<or> language = [] then 0
      else count_read env (CountLanguage language)
        (length (filter (\<lambda>e. if language = ''c'' \<or> language = ''cpp'' then fe_language e \<in> {''c'', ''cpp''}
                              else fe_language e = language) (project_entities t project))))"

text \<open>The contents of the documents, each followed by a newline; \<open>None\<close> is a NULL column.\<close>

definition readme_content :: "query_env \<Rightarrow> fact_tables \<Rightarrow> nat \<Rightarrow> bytes" where
  "readme_content env t project =
     concat (map (\<lambda>(p, content). case content of None \<Rightarrow> [] | Some c \<Rightarrow> c @ [newline])
       (rows_read env ReadDocuments (filter (\<lambda>(p, content). p = project) (readmes t))))"

definition documentation_detail :: "bytes \<Rightarrow> bytes" where
  "documentation_detail disp =
     ''README mentions '' @ in_quotes disp @ '' but no '' @ disp @ '' entities found in codebase''"

definition documentation_item :: "language_claim \<Rightarrow> drift_item" where
  "documentation_item c =
     \<lparr>drift_type = ''DocumentationDrift'', drift_severity = kDriftSeverityDoc, drift_subject = display c,
      drift_detail = documentation_detail (display c)\<rparr>"

definition detectDocumentationDrift :: "query_env \<Rightarrow> fact_tables \<Rightarrow> nat \<Rightarrow> drift_item list" where
  "detectDocumentationDrift env t project =
     (if \<not> has_handle env then []
      else if \<not> prepares env ReadDocuments then []
      else
        let content = readme_content env t project
        in if content = [] then []
        else
          let claims = extractLanguageClaims content
          in if claims = [] then []
          else if count_read env CountEntities (length (project_entities t project)) \<le> 0 then []
          else map documentation_item
                 (filter (\<lambda>c. countEntitiesByLanguage env t project (canonical c) = 0) claims))"

section \<open>Capabilities\<close>

definition kDriftSeverityCapability :: int where "kDriftSeverityCapability = 2"
definition kDriftConfidenceCapability :: rat where "kDriftConfidenceCapability = 9 / 10"

text \<open>\<open>None\<close> is the answer -1.\<close>

definition countImplementingEntities :: "query_env \<Rightarrow> fact_tables \<Rightarrow> nat \<Rightarrow> bytes \<Rightarrow> nat option" where
  "countImplementingEntities env t project cap_name =
     (if cap_name = [] then Some 0
      else if \<not> has_handle env then None
      else map_option length (implementingEntitiesFor env t project cap_name))"

definition capability_item :: "bytes \<Rightarrow> drift_item" where
  "capability_item name =
     \<lparr>drift_type = ''CapabilityDrift'', drift_severity = kDriftSeverityCapability, drift_subject = name,
      drift_detail = ''Capability '' @ in_quotes name @ '' declared in README but no implementing '' @
        ''implementing entity (called or exported) found in codebase''\<rparr>"

definition declared_names :: "(int \<times> nat \<times> bytes) list \<Rightarrow> nat \<Rightarrow> bytes list" where
  "declared_names rows project = map (\<lambda>(i, p, n). n) (filter (\<lambda>(i, p, n). p = project) rows)"

definition detectCapabilityDrift :: "query_env \<Rightarrow> fact_tables \<Rightarrow> nat \<Rightarrow> drift_item list" where
  "detectCapabilityDrift env t project =
     (if \<not> has_handle env then []
      else if \<not> evidence_backend_ready env t project then []
      else if \<not> prepares env ListCapabilities then []
      else map capability_item
             (filter (\<lambda>n. countImplementingEntities env t project n = Some 0)
               (rows_read env ListCapabilities (declared_names (capabilities t) project))))"

section \<open>Layers\<close>

definition kDriftSeverityArch :: int where "kDriftSeverityArch = 1"
definition kMaxArchViolations :: nat where "kMaxArchViolations = 100"
definition kLayerController :: bytes where "kLayerController = ''Controller''"
definition kLayerService :: bytes where "kLayerService = ''Service''"
definition kLayerRepository :: bytes where "kLayerRepository = ''Repository''"

definition layerRank :: "bytes \<Rightarrow> int" where
  "layerRank l =
     (if l = kLayerController then 0 else if l = kLayerService then 1 else if l = kLayerRepository then 2 else -1)"

definition endsWithCI :: "bytes \<Rightarrow> bytes \<Rightarrow> bool" where
  "endsWithCI name sfx = (if length name < length sfx then False else suffix (lower sfx) (lower name))"

definition containsCI :: "bytes \<Rightarrow> bytes \<Rightarrow> bool" where
  "containsCI haystack needle = (if needle = [] then False else str_contains (lower needle) (lower haystack))"

definition classifyEntityLayer :: "bytes \<Rightarrow> bytes \<Rightarrow> bytes" where
  "classifyEntityLayer name path =
     (if endsWithCI name ''Controller'' \<or> containsCI path ''/controllers/'' \<or> containsCI path ''/api/''
      then kLayerController
      else if endsWithCI name ''Service'' \<or> containsCI path ''/services/'' then kLayerService
      else if endsWithCI name ''Repository'' \<or> endsWithCI name ''Repo'' \<or> endsWithCI name ''Store'' \<or>
              endsWithCI name ''DAO'' \<or> containsCI path ''/repository/'' \<or> containsCI path ''/data/''
      then kLayerRepository else [])"

text \<open>The rows of the join: a call of the project between two different entities.\<close>

definition entities_with_id :: "fact_tables \<Rightarrow> int \<Rightarrow> fact_entity list" where
  "entities_with_id t i = filter (\<lambda>e. fe_id e = i) (entities t)"

definition call_rows :: "fact_tables \<Rightarrow> nat \<Rightarrow> (fact_entity \<times> fact_entity) list" where
  "call_rows t project =
     concat (map (\<lambda>r. List.product (entities_with_id t (fr_source r)) (entities_with_id t (fr_target r)))
       (filter (\<lambda>r. fr_source r \<noteq> fr_target r) (calls_of t project)))"

definition entity_layer :: "fact_entity \<Rightarrow> bytes" where
  "entity_layer e = classifyEntityLayer (fe_name e) (fe_file e)"

definition violation_kind :: "bytes \<Rightarrow> bytes \<Rightarrow> bytes option" where
  "violation_kind src_layer tgt_layer =
     (if src_layer = [] \<or> tgt_layer = [] then None
      else if layerRank tgt_layer < layerRank src_layer then Some ''reverse call''
      else if layerRank src_layer = layerRank tgt_layer \<and> src_layer = kLayerController then Some ''same-layer bypass''
      else None)"

definition architecture_item :: "fact_entity \<times> fact_entity \<Rightarrow> bytes \<Rightarrow> drift_item" where
  "architecture_item row violation =
     \<lparr>drift_type = ''ArchitectureDrift'', drift_severity = kDriftSeverityArch,
      drift_subject = entity_layer (fst row) @ ''->'' @ entity_layer (snd row),
      drift_detail = fe_name (fst row) @ '' ('' @ entity_layer (fst row) @ '') calls '' @ fe_name (snd row) @ '' ('' @
        entity_layer (snd row) @ '') - '' @ violation\<rparr>"

text \<open>The loop over the rows; it stops when \<open>kMaxArchViolations\<close> were found.\<close>

fun scan_calls :: "(fact_entity \<times> fact_entity) list \<Rightarrow> drift_item list \<Rightarrow> drift_item list" where
  "scan_calls [] drifts = drifts"
| "scan_calls (row # rows) drifts =
     (case violation_kind (entity_layer (fst row)) (entity_layer (snd row)) of
        None \<Rightarrow> scan_calls rows drifts
      | Some v \<Rightarrow>
          let drifts' = drifts @ [architecture_item row v]
          in if kMaxArchViolations \<le> length drifts' then drifts' else scan_calls rows drifts')"

definition detectArchitectureDrift :: "query_env \<Rightarrow> fact_tables \<Rightarrow> nat \<Rightarrow> drift_item list" where
  "detectArchitectureDrift env t project =
     (if \<not> has_handle env then []
      else if \<not> prepares env ArchitectureEdges then []
      else scan_calls (rows_read env ArchitectureEdges (call_rows t project)) [])"

section \<open>What is reported as drift\<close>

lemma count_language_healthy:
  "language \<noteq> [] \<Longrightarrow> countEntitiesByLanguage healthy t project language = 0 \<longleftrightarrow>
     (\<forall>e \<in> set (project_entities t project).
       fe_language e \<noteq> language \<and> (language \<in> {''c'', ''cpp''} \<longrightarrow> fe_language e \<notin> {''c'', ''cpp''}))"
  by (auto simp: countEntitiesByLanguage_def filter_empty_conv)

lemma extracted_canonical:
  assumes "c \<in> set (extractLanguageClaims content)"
  shows "canonical c \<noteq> [] \<and> canonical c \<noteq> ''c''"
proof -
  have "content \<noteq> []" using assms by (auto simp: extractLanguageClaims_def)
  then obtain needle mode where s: "(needle, canonical c, mode) \<in> set search_terms"
    using claimed_counted [of content "canonical c"] assms by auto
  have "list_all (\<lambda>(n, can, md). can \<noteq> [] \<and> can \<noteq> ''c'') search_terms" by (simp add: search_terms_def)
  with s show ?thesis unfolding list_all_iff by force
qed

text \<open>
  (C25) Documentation drift in an indexed project: with a healthy store that has entities the reported
  languages are exactly those that the README claims and no entity of the project is written in, C and
  C++ counting as one; each is reported once.  Without entities nothing is reported.
\<close>

theorem documentation_drift_exact:
  "detectDocumentationDrift healthy t project =
     (if project_entities t project = [] then []
      else map documentation_item
        (filter (\<lambda>c. \<forall>e \<in> set (project_entities t project).
            fe_language e \<noteq> canonical c \<and> (canonical c = ''cpp'' \<longrightarrow> fe_language e \<noteq> ''c''))
          (extractLanguageClaims (readme_content healthy t project))))"
proof (cases "project_entities t project = []")
  case True
  then show ?thesis by (simp add: detectDocumentationDrift_def Let_def)
next
  case False
  let ?claims = "extractLanguageClaims (readme_content healthy t project)"
  have eq: "countEntitiesByLanguage healthy t project (canonical c) = 0 \<longleftrightarrow>
      (\<forall>e \<in> set (project_entities t project). fe_language e \<noteq> canonical c \<and> (canonical c = ''cpp'' \<longrightarrow> fe_language e \<noteq> ''c''))"
    if "c \<in> set ?claims" for c
  proof -
    have "canonical c \<noteq> []" "canonical c \<noteq> ''c''" using extracted_canonical [OF that] by auto
    then show ?thesis unfolding count_language_healthy [OF \<open>canonical c \<noteq> []\<close>] by auto
  qed
  have "detectDocumentationDrift healthy t project =
      map documentation_item (filter (\<lambda>c. countEntitiesByLanguage healthy t project (canonical c) = 0) ?claims)"
    using False by (auto simp: detectDocumentationDrift_def Let_def extractLanguageClaims_def)
  also have "filter (\<lambda>c. countEntitiesByLanguage healthy t project (canonical c) = 0) ?claims =
      filter (\<lambda>c. \<forall>e \<in> set (project_entities t project). fe_language e \<noteq> canonical c \<and>
        (canonical c = ''cpp'' \<longrightarrow> fe_language e \<noteq> ''c'')) ?claims"
    using eq by (rule filter_cong [OF refl])
  finally show ?thesis using False by simp
qed

text \<open>
  (C24) The report of capability drift and the verification of a claim apply one rule: in a healthy store
  with facts, a declared capability with a name is reported as drift exactly if the claim that it
  exists is contradicted.
\<close>

theorem drift_agrees_with_verifier:
  assumes "evidence_backend_ready healthy t project" and "(i, project, n) \<in> set (capabilities t)" and "n \<noteq> []"
  shows "n \<in> drift_subject ` set (detectCapabilityDrift healthy t project) \<longleftrightarrow>
    rec_verdict (capability_verify healthy t project (new_claim\<lparr>claim_kind := CapabilityExists, claim_subject := n\<rparr>)) = Contradicted"
proof -
  let ?c = "new_claim\<lparr>claim_kind := CapabilityExists, claim_subject := n\<rparr>"
  have d: "capabilityDeclared healthy t project n = Some True"
    unfolding capability_declared_healthy using assms(2) by (auto simp: declares_def)
  obtain ids where ids: "implementingEntitiesFor healthy t project n = Some ids"
    by (simp add: implementingEntitiesFor_def)
  have "rec_verdict (capability_verify healthy t project ?c) = Contradicted \<longleftrightarrow> ids = []"
    using assms(1) by (simp add: capability_verify_def d ids capability_judge_def)
  moreover have "countImplementingEntities healthy t project n = Some 0 \<longleftrightarrow> ids = []"
    using assms(3) by (simp add: countImplementingEntities_def ids)
  moreover have "n \<in> set (declared_names (capabilities t) project)"
    using assms(2) by (force simp: declared_names_def)
  moreover have "drift_subject ` set (detectCapabilityDrift healthy t project) =
      {m \<in> set (declared_names (capabilities t) project). countImplementingEntities healthy t project m = Some 0}"
    using assms(1) by (simp add: detectCapabilityDrift_def image_image capability_item_def)
  ultimately show ?thesis by blast
qed

theorem drift_agrees_with_verifier_witness:
  "''IncrementalIndex'' \<notin> drift_subject ` set (detectCapabilityDrift healthy demo_tables 1)"
proof -
  have "rec_verdict (capability_verify healthy demo_tables 1
      (new_claim\<lparr>claim_kind := CapabilityExists, claim_subject := ''IncrementalIndex''\<rparr>)) = Supported"
    by code_simp
  moreover have "(5, 1, ''IncrementalIndex'') \<in> set (capabilities demo_tables)" by (simp add: demo_tables_def)
  ultimately show ?thesis using drift_agrees_with_verifier [OF demo_ready] by simp
qed

section \<open>Layers\<close>

text \<open>The violations among the rows, in order.\<close>

definition violations :: "(fact_entity \<times> fact_entity) list \<Rightarrow> drift_item list" where
  "violations rows =
     List.map_filter (\<lambda>row. map_option (architecture_item row)
       (violation_kind (entity_layer (fst row)) (entity_layer (snd row)))) rows"

lemma scan_calls_take:
  "length drifts < kMaxArchViolations \<Longrightarrow>
   scan_calls rows drifts = take kMaxArchViolations (drifts @ violations rows)"
proof (induction rows drifts rule: scan_calls.induct)
  case (2 row rows drifts)
  show ?case
  proof (cases "violation_kind (entity_layer (fst row)) (entity_layer (snd row))")
    case None
    then show ?thesis using 2 by (simp add: violations_def map_filter_simps)
  next
    case (Some v)
    have vs: "violations (row # rows) = architecture_item row v # violations rows"
      using Some by (simp add: violations_def map_filter_simps)
    show ?thesis
    proof (cases "kMaxArchViolations \<le> length (drifts @ [architecture_item row v])")
      case True
      then have k: "kMaxArchViolations - length drifts = 1" using 2(3) by simp
      show ?thesis using Some True 2(3) by (simp add: vs Let_def k)
    next
      case False
      then show ?thesis using Some 2(2) [OF Some refl False] by (simp add: vs Let_def)
    qed
  qed
qed (simp add: violations_def map_filter_simps)

text \<open>What is a violation: the called entity lies in a higher layer, or both are controllers.\<close>

lemma entity_layer_range: "entity_layer e \<in> {[], kLayerController, kLayerService, kLayerRepository}"
  by (simp add: entity_layer_def classifyEntityLayer_def)

lemma violation_kind_iff:
  "violation_kind a b \<noteq> None \<longleftrightarrow> a \<noteq> [] \<and> b \<noteq> [] \<and> (layerRank b < layerRank a \<or> (layerRank a = layerRank b \<and> a = kLayerController))"
  by (auto simp: violation_kind_def)

definition breaks_layers :: "bytes \<Rightarrow> bytes \<Rightarrow> bool" where
  "breaks_layers a b \<longleftrightarrow>
     (a, b) \<in> {(kLayerController, kLayerController), (kLayerService, kLayerController),
               (kLayerRepository, kLayerController), (kLayerRepository, kLayerService)}"

lemma violation_breaks:
  assumes "a \<in> {[], kLayerController, kLayerService, kLayerRepository}" "b \<in> {[], kLayerController, kLayerService, kLayerRepository}"
  shows "violation_kind a b \<noteq> None \<longleftrightarrow> breaks_layers a b"
proof -
  have "list_all (\<lambda>a. list_all (\<lambda>b. (violation_kind a b \<noteq> None) = breaks_layers a b)
      [[], kLayerController, kLayerService, kLayerRepository]) [[], kLayerController, kLayerService, kLayerRepository]"
    by code_simp
  with assms show ?thesis by auto
qed

text \<open>
  (C26) Architecture drift is exactly the calls against the layers: the report lists, in the order of the
  rows and up to one hundred, the calls between two different entities of which a controller, service
  or repository calls a controller, or a repository calls a service; nothing else is listed.
\<close>

theorem architecture_drift_exact:
  "detectArchitectureDrift healthy t project = take 100 (violations (call_rows t project)) \<and>
   (d \<in> set (violations (call_rows t project)) \<longleftrightarrow>
     (\<exists>r a b v. r \<in> set (relations t) \<and> fr_project r = project \<and> fr_type r = 1 \<and> a \<in> set (entities t) \<and> b \<in> set (entities t) \<and>
       fr_source r = fe_id a \<and> fr_target r = fe_id b \<and> fe_id a \<noteq> fe_id b \<and>
       breaks_layers (entity_layer a) (entity_layer b) \<and>
       violation_kind (entity_layer a) (entity_layer b) = Some v \<and> d = architecture_item (a, b) v))"
proof
  show "detectArchitectureDrift healthy t project = take 100 (violations (call_rows t project))"
    using scan_calls_take [of "[]" "call_rows t project"]
    by (simp add: detectArchitectureDrift_def kMaxArchViolations_def)
  have rows: "(a, b) \<in> set (call_rows t project) \<longleftrightarrow>
      (\<exists>r \<in> set (relations t). fr_project r = project \<and> fr_type r = 1 \<and> fr_source r = fe_id a \<and> fr_target r = fe_id b \<and>
        fe_id a \<noteq> fe_id b) \<and> a \<in> set (entities t) \<and> b \<in> set (entities t)" for a b
    by (auto simp: call_rows_def entities_with_id_def calls_of_def project_relations_def kRelationTypeCalls_def)
  have breaks: "breaks_layers (entity_layer a) (entity_layer b)"
    if "violation_kind (entity_layer a) (entity_layer b) = Some v" for a b v
    using violation_breaks [OF entity_layer_range entity_layer_range, of a b] that by simp
  have "d \<in> set (violations (call_rows t project)) \<longleftrightarrow>
      (\<exists>a b v. (a, b) \<in> set (call_rows t project) \<and> violation_kind (entity_layer a) (entity_layer b) = Some v \<and>
        d = architecture_item (a, b) v)"
    by (simp add: violations_def set_map_filter Bex_def split_paired_Ex) metis
  also have "\<dots> \<longleftrightarrow> (\<exists>r a b v. r \<in> set (relations t) \<and> fr_project r = project \<and> fr_type r = 1 \<and> a \<in> set (entities t) \<and>
      b \<in> set (entities t) \<and> fr_source r = fe_id a \<and> fr_target r = fe_id b \<and> fe_id a \<noteq> fe_id b \<and>
      breaks_layers (entity_layer a) (entity_layer b) \<and>
      violation_kind (entity_layer a) (entity_layer b) = Some v \<and> d = architecture_item (a, b) v)"
    unfolding rows using breaks by blast
  finally show "d \<in> set (violations (call_rows t project)) \<longleftrightarrow>
    (\<exists>r a b v. r \<in> set (relations t) \<and> fr_project r = project \<and> fr_type r = 1 \<and> a \<in> set (entities t) \<and> b \<in> set (entities t) \<and>
       fr_source r = fe_id a \<and> fr_target r = fe_id b \<and> fe_id a \<noteq> fe_id b \<and>
       breaks_layers (entity_layer a) (entity_layer b) \<and>
       violation_kind (entity_layer a) (entity_layer b) = Some v \<and> d = architecture_item (a, b) v)" .
qed

section \<open>Conclusions from a failed query\<close>

text \<open>
  A failed count is taken for an absent language: if the statement that counts the entities of a
  claimed language cannot be prepared, the language is reported as drift although entities in it are
  stored.
\<close>

theorem failed_count_reports_drift:
  assumes "has_handle env" and "prepares env ReadDocuments" and "0 < count_read env CountEntities (length (project_entities t project))"
    and "c \<in> set (extractLanguageClaims (readme_content env t project))"
    and "\<not> prepares env (CountLanguage (canonical c))"
  shows "documentation_item c \<in> set (detectDocumentationDrift env t project)"
proof -
  have "readme_content env t project \<noteq> []" using assms(4) by (auto simp: extractLanguageClaims_def)
  moreover have "extractLanguageClaims (readme_content env t project) \<noteq> []" using assms(4) by auto
  moreover have "countEntitiesByLanguage env t project (canonical c) = 0"
    using assms(5) by (simp add: countEntitiesByLanguage_def count_read_def)
  ultimately show ?thesis using assms by (simp add: detectDocumentationDrift_def Let_def)
qed

definition rust_project :: fact_tables where
  "rust_project = \<lparr>entities = [(demo_entity 1 ''main'' ''/p/main.rs'')\<lparr>fe_language := ''rust''\<rparr>], relations = [],
     capabilities = [], contracts = [], readmes = [(1, Some ''Written in Rust.'')]\<rparr>"

definition undocumented :: fact_tables where
  "undocumented = rust_project\<lparr>entities := [(demo_entity 1 ''main'' ''/p/main.py'')\<lparr>fe_language := ''python''\<rparr>]\<rparr>"

theorem documentation_drift_exact_witness:
  "map drift_subject (detectDocumentationDrift healthy undocumented 1) = [''Rust'']"
proof -
  have c: "extractLanguageClaims (readme_content healthy undocumented 1) =
      [\<lparr>canonical = ''rust'', display = ''Rust'', mention_count = 1\<rparr>]"
    by code_simp
  have e: "project_entities undocumented 1 = [(demo_entity 1 ''main'' ''/p/main.py'')\<lparr>fe_language := ''python''\<rparr>]"
    by (simp add: undocumented_def project_entities_def demo_entity_def)
  show ?thesis unfolding documentation_drift_exact [of undocumented 1] c e by (simp add: documentation_item_def)
qed

definition count_unprepared :: query_env where
  "count_unprepared = healthy\<lparr>prepares := (\<lambda>q. q \<noteq> CountLanguage ''rust'')\<rparr>"

theorem failed_count_reports_drift_witness:
  "drift_subject ` set (detectDocumentationDrift count_unprepared rust_project 1) \<noteq> {} \<and>
   detectDocumentationDrift healthy rust_project 1 = []"
proof -
  have claims: "extractLanguageClaims (readme_content count_unprepared rust_project 1) =
      [\<lparr>canonical = ''rust'', display = ''Rust'', mention_count = 1\<rparr>]"
    by code_simp
  have "0 < count_read count_unprepared CountEntities (length (project_entities rust_project 1))" by code_simp
  then have "documentation_item \<lparr>canonical = ''rust'', display = ''Rust'', mention_count = 1\<rparr>
      \<in> set (detectDocumentationDrift count_unprepared rust_project 1)"
    by (intro failed_count_reports_drift) (simp_all only: claims, simp_all add: count_unprepared_def)
  moreover have "detectDocumentationDrift healthy rust_project 1 = []" by code_simp
  ultimately show ?thesis by auto
qed

section \<open>The exported reports\<close>

definition drift_ops :: "drift_item \<Rightarrow> writer_op list" where
  "drift_ops d =
     [BeginObject, Key ''type'', ValueString (drift_type d), Key ''severity'', ValueInt (drift_severity d),
      Key ''subject'', ValueString (drift_subject d), Key ''detail'', ValueString (drift_detail d), EndObject]"

definition drift_texts :: "drift_item list \<Rightarrow> bytes" where
  "drift_texts ds = join '','' (map (\<lambda>d. out (run_writer (drift_ops d) new_writer)) ds)"

definition kDriftConfidenceArch :: rat where "kDriftConfidenceArch = 7 / 10"

definition store_drifts :: "nat \<Rightarrow> bytes \<Rightarrow> int \<Rightarrow> rat \<Rightarrow> drift_item list \<Rightarrow> knowledge \<Rightarrow> knowledge" where
  "store_drifts project rule severity conf ds = fold (\<lambda>d. insertFinding project rule severity 0 (drift_detail d) conf) ds"

definition engine_detect_capability_drift :: "query_env \<Rightarrow> fact_tables \<Rightarrow> nat \<Rightarrow> knowledge \<Rightarrow> bytes \<times> knowledge" where
  "engine_detect_capability_drift env t project k =
     (if \<not> has_store env
      then (error_text ''not initialized [module=ffi, method=engine_detect_capability_drift]'', k)
      else if \<not> has_handle env
      then (error_text ''db not open [module=ffi, method=engine_detect_capability_drift]'', k)
      else
        let ds = detectCapabilityDrift env t project;
            total_caps = count_read env CountCapabilities (length (declared_names (capabilities t) project))
        in (''{\"total_capabilities\":'' @ to_string_nat total_caps @ '',\"drifts\":['' @ drift_texts ds @
            ''],\"drifts_found\":'' @ to_string_nat (length ds) @
            (if total_caps = 0 then '',\"status\":\"no_capabilities_declared\"'' else []) @ ''}'',
            store_drifts project ''CapabilityDrift'' kDriftSeverityCapability kDriftConfidenceCapability ds k))"

definition engine_detect_architecture_drift :: "query_env \<Rightarrow> fact_tables \<Rightarrow> nat \<Rightarrow> knowledge \<Rightarrow> bytes \<times> knowledge" where
  "engine_detect_architecture_drift env t project k =
     (if \<not> has_store env
      then (error_text ''not initialized [module=ffi, method=engine_detect_architecture_drift]'', k)
      else
        let ds = detectArchitectureDrift env t project
        in (''{\"drifts\":['' @ drift_texts ds @ ''],\"drifts_found\":'' @ to_string_nat (length ds) @ ''}'',
            store_drifts project ''ArchitectureDrift'' kDriftSeverityArch kDriftConfidenceArch ds k))"

text \<open>The report on the documentation reads the README itself and has no gate on the entities.\<close>

definition string_list :: "bytes \<Rightarrow> bytes list \<Rightarrow> writer_op list" where
  "string_list name xs = [Key name, BeginArray] @ map ValueString xs @ [EndArray]"

definition documentation_ops :: "bytes list \<Rightarrow> bytes list \<Rightarrow> bytes list \<Rightarrow> writer_op list" where
  "documentation_ops claimed found missing =
     [BeginObject] @ string_list ''claimed_languages'' claimed @ string_list ''found_languages'' found @
     string_list ''missing_languages'' missing @ [Key ''drifts'', BeginArray] @
     concat (map (\<lambda>l. drift_ops \<lparr>drift_type = ''DocumentationDrift'', drift_severity = kDriftSeverityDoc, drift_subject = l,
       drift_detail = documentation_detail l\<rparr>) missing) @
     [EndArray, Key ''drifts_found'', ValueInt (int (length missing)), EndObject]"

definition engine_detect_documentation_drift ::
  "query_env \<Rightarrow> fact_tables \<Rightarrow> nat \<Rightarrow> knowledge \<Rightarrow> bytes \<times> knowledge" where
  "engine_detect_documentation_drift env t project k =
     (if \<not> has_store env then (error_text ''not initialized'', k)
      else if \<not> has_handle env
      then (error_text ''db handle null [module=ffi, method=engine_detect_documentation_drift]'', k)
      else if \<not> prepares env ReadDocuments
      then (error_text ''prepare failed [module=ffi, method=engine_detect_documentation_drift]'', k)
      else
        let claims = extractLanguageClaims (readme_content env t project);
            present = (\<lambda>c. 0 < countEntitiesByLanguage env t project (canonical c));
            missing = map display (filter (\<lambda>c. \<not> present c) claims)
        in (out (run_writer (documentation_ops (map display claims) (map display (filter present claims)) missing) new_writer),
            fold (\<lambda>l. insertFinding project ''DocumentationDrift'' kDriftSeverityDoc 0 (documentation_detail l) kDriftConfidenceDoc)
              missing k))"

text \<open>The values that the texts are.\<close>

definition drift_json :: "drift_item \<Rightarrow> json" where
  "drift_json d = JObject [(''type'', JString (drift_type d)), (''severity'', json_int (drift_severity d)),
     (''subject'', JString (drift_subject d)), (''detail'', JString (drift_detail d))]"

lemma drift_render: "out (run_writer (drift_ops d) new_writer) = render (drift_json d)"
proof -
  have "value_ops (drift_json d) = drift_ops d" by (simp add: drift_json_def drift_ops_def)
  moreover have "whole_numbers (drift_json d)" by (simp add: drift_json_def)
  ultimately show ?thesis by (metis write_render)
qed

definition drift_report_json :: "(bytes \<times> json) list \<Rightarrow> drift_item list \<Rightarrow> (bytes \<times> json) list \<Rightarrow> json" where
  "drift_report_json before_drifts ds after_drifts =
     JObject (before_drifts @ [(''drifts'', JArray (map drift_json ds)), (''drifts_found'', json_nat (length ds))] @ after_drifts)"

lemma drift_texts_render: "drift_texts ds = join '','' (map render (map drift_json ds))"
  by (simp add: drift_texts_def drift_render comp_def)

text \<open>The row that is stored for a reported item.\<close>

definition drift_row :: "nat \<Rightarrow> rat \<Rightarrow> drift_item \<Rightarrow> finding_row" where
  "drift_row project conf d =
     \<lparr>fi_project = project, fi_rule = drift_type d, fi_severity = drift_severity d, fi_claim = None,
      fi_description = drift_detail d, fi_confidence = conf\<rparr>"

lemma store_drifts_rows:
  assumes "\<forall>n. can_write k WriteFinding n" and "list_all (\<lambda>d. drift_type d = rule \<and> drift_severity d = severity) ds"
  shows "finding_rows (store_drifts project rule severity conf ds k) = finding_rows k @ map (drift_row project conf) ds \<and>
    claim_rows (store_drifts project rule severity conf ds k) = claim_rows k \<and>
    evidence_rows (store_drifts project rule severity conf ds k) = evidence_rows k"
  using assms
proof (induction ds arbitrary: k)
  case (Cons d ds)
  have "\<forall>n. can_write (insertFinding project rule severity 0 (drift_detail d) conf k) WriteFinding n"
    using Cons.prems(1) by (simp add: insertFinding_def)
  from Cons.IH [OF this] Cons.prems show ?case
    by (simp add: store_drifts_def insertFinding_def drift_row_def)
qed (simp add: store_drifts_def)

lemma capability_items: "list_all (\<lambda>d. drift_type d = ''CapabilityDrift'' \<and> drift_severity d = kDriftSeverityCapability)
    (detectCapabilityDrift env t project)"
  by (auto simp: detectCapabilityDrift_def capability_item_def list_all_iff)

text \<open>
  The report of capability drift is one JSON value and leaves a trace: it lists the detected items,
  their number, the number of declared capabilities, and says when there are none; and for each item
  exactly one row is added to the findings, with the severity, the text and the confidence of the
  report, while claims and evidence stay.
\<close>

theorem capability_drift_reported:
  assumes "has_store env" and "has_handle env" and "\<forall>n. can_write k WriteFinding n"
    and "engine_detect_capability_drift env t project k = (txt, k')"
  shows "txt = render (drift_report_json
      [(''total_capabilities'', json_nat (count_read env CountCapabilities (length (declared_names (capabilities t) project))))]
      (detectCapabilityDrift env t project)
      (if count_read env CountCapabilities (length (declared_names (capabilities t) project)) = 0
       then [(''status'', JString ''no_capabilities_declared'')] else [])) \<and>
    finding_rows k' = finding_rows k @ map (drift_row project (9 / 10)) (detectCapabilityDrift env t project) \<and>
    claim_rows k' = claim_rows k \<and> evidence_rows k' = evidence_rows k"
proof -
  define n where "n = count_read env CountCapabilities (length (declared_names (capabilities t) project))"
  define ds where "ds = detectCapabilityDrift env t project"
  have t: "txt = ''{\"total_capabilities\":'' @ to_string_nat n @ '',\"drifts\":['' @ drift_texts ds @
            ''],\"drifts_found\":'' @ to_string_nat (length ds) @
            (if n = 0 then '',\"status\":\"no_capabilities_declared\"'' else []) @ ''}''"
    and k: "k' = store_drifts project ''CapabilityDrift'' kDriftSeverityCapability kDriftConfidenceCapability ds k"
    using assms(1,2,4) by (auto simp: engine_detect_capability_drift_def Let_def ds_def n_def)
  have "txt = render (drift_report_json [(''total_capabilities'', json_nat n)] ds
      (if n = 0 then [(''status'', JString ''no_capabilities_declared'')] else []))"
    unfolding t drift_texts_render
    by (simp add: drift_report_json_def render_member_def quoted_def) (simp add: jsonEscapeString_def esc_char_def)
  moreover have "finding_rows k' = finding_rows k @ map (drift_row project (9 / 10)) ds \<and>
      claim_rows k' = claim_rows k \<and> evidence_rows k' = evidence_rows k"
    using store_drifts_rows [OF assms(3) capability_items, of project kDriftConfidenceCapability env t project]
    unfolding k ds_def kDriftConfidenceCapability_def .
  ultimately show ?thesis unfolding n_def ds_def by blast
qed

text \<open>
  The report on the documentation of a project that was not indexed accuses every language: without
  entities the detector draws no conclusion, but the exported function, which reads the README on its
  own, stores one finding for each claimed language.
\<close>

theorem unindexed_project_accused:
  assumes "project_entities t project = []" and "prepares env ReadDocuments" and "has_store env" and "has_handle env"
    and "\<forall>n. can_write k WriteFinding n"
  shows "detectDocumentationDrift env t project = [] \<and>
    length (finding_rows (snd (engine_detect_documentation_drift env t project k))) =
      length (finding_rows k) + length (extractLanguageClaims (readme_content env t project))"
proof -
  let ?claims = "extractLanguageClaims (readme_content env t project)"
  have none: "countEntitiesByLanguage env t project l = 0" for l
    using count_read_le [of env "CountLanguage l" 0] assms(1) by (simp add: countEntitiesByLanguage_def)
  have entities: "count_read env CountEntities 0 = 0" using count_read_le [of env CountEntities 0] by simp
  have none_found: "detectDocumentationDrift env t project = []"
    using assms by (simp add: detectDocumentationDrift_def Let_def entities)
  have len: "length (finding_rows (fold (\<lambda>l. insertFinding project rule severity 0 (f l) conf) ls k)) =
      length (finding_rows k) + length ls" if "\<forall>n. can_write k WriteFinding n" for ls k rule severity f conf
    using that
  proof (induction ls arbitrary: k)
    case (Cons l ls)
    have "\<forall>n. can_write (insertFinding project rule severity 0 (f l) conf k) WriteFinding n"
      using Cons.prems by (simp add: insertFinding_def)
    from Cons.IH [OF this] Cons.prems show ?case by (simp add: insertFinding_def)
  qed simp
  show ?thesis
    using assms none_found by (simp add: engine_detect_documentation_drift_def Let_def none len del: fold_map)
qed

definition unindexed :: fact_tables where
  "unindexed = rust_project\<lparr>entities := []\<rparr>"

theorem unindexed_project_accused_witness:
  "detectDocumentationDrift healthy unindexed 1 = [] \<and>
   length (finding_rows (snd (engine_detect_documentation_drift healthy unindexed 1 empty_knowledge))) = 1"
proof -
  have "length (extractLanguageClaims (readme_content healthy unindexed 1)) = 1" by code_simp
  moreover have "project_entities unindexed 1 = []" by (simp add: unindexed_def project_entities_def)
  moreover have "\<forall>n. can_write empty_knowledge WriteFinding n" "finding_rows empty_knowledge = []"
    by (simp_all add: empty_knowledge_def)
  ultimately show ?thesis using unindexed_project_accused [of unindexed 1 healthy empty_knowledge] by simp
qed

theorem capability_drift_reported_witness:
  "length (finding_rows (snd (engine_detect_capability_drift healthy (demo_tables\<lparr>capabilities := [(5, 1, ''Streaming'')]\<rparr>) 1 empty_knowledge))) = 1"
proof -
  let ?t = "demo_tables\<lparr>capabilities := [(5, 1, ''Streaming'')]\<rparr>"
  have "length (detectCapabilityDrift healthy ?t 1) = 1" by code_simp
  moreover have "\<forall>n. can_write empty_knowledge WriteFinding n" "finding_rows empty_knowledge = []"
    by (simp_all add: empty_knowledge_def)
  ultimately show ?thesis
    using capability_drift_reported [of healthy empty_knowledge ?t 1] by (metis One_nat_def append_Nil healthy_simps(1,2) length_map prod.collapse)
qed

end
