(* ===== verification/Dead_Code.thy ===== *)
theory Dead_Code
  imports Facts "HOL-Library.List_Lexorder" "HOL-Library.Char_ord"
begin

text \<open>
  The dead code inspector (\<open>verify/dead_code_inspector.cpp\<close>): modules that nobody imports, functions
  without calls, calls between modules, and the connected components of the call graph.

  The order in which groups and the keys of the hash map come is given by permutations
  (\<open>group_order\<close>, \<open>hash_order\<close>).  A \<open>LIKE\<close> pattern built from a scope name is used as in the code, without
  \<open>ESCAPE\<close>.
\<close>

section \<open>Tables and findings\<close>

record scope_row =
  sc_id :: int
  sc_project :: nat
  sc_kind :: int
  sc_name :: bytes

record import_row =
  im_project :: nat
  im_target :: bytes
  im_file :: bytes

record module_edge =
  me_project :: nat
  me_caller :: bytes
  me_callee :: bytes
  me_entity :: int

record code_tables =
  facts :: fact_tables
  scopes :: "scope_row list"
  imports_of :: "import_row list"
  module_edges :: "module_edge list"

record code_finding =
  cf_type :: bytes
  cf_description :: bytes
  cf_confidence :: rat

definition project_modules :: "code_tables \<Rightarrow> nat \<Rightarrow> scope_row list" where
  "project_modules t project = filter (\<lambda>s. sc_project s = project \<and> sc_kind s = 1) (scopes t)"

text \<open>\<open>path LIKE name || '%'\<close>.\<close>

definition under_scope :: "bytes \<Rightarrow> bytes \<Rightarrow> bool" where
  "under_scope name path \<longleftrightarrow> like_match None (name @ [percent]) path"

section \<open>Orphan modules\<close>

definition sql_rtrim :: "bytes \<Rightarrow> bytes \<Rightarrow> bytes" where
  "sql_rtrim s cs = rev (dropWhile (\<lambda>c. c \<in> set cs) (rev s))"

abbreviation slash_char :: char where "slash_char \<equiv> CHR ''/''"

text \<open>The expression with \<open>rtrim\<close>, \<open>replace\<close> and \<open>substr\<close> that takes the last component of a path.\<close>

definition sql_basename :: "bytes \<Rightarrow> bytes" where
  "sql_basename name =
     (let x = sql_rtrim name [slash_char] in drop (length (sql_rtrim x (sql_replace slash_char [] x))) x)"

definition imported_from_outside :: "code_tables \<Rightarrow> nat \<Rightarrow> bytes \<Rightarrow> bool" where
  "imported_from_outside t project name \<longleftrightarrow>
     list_ex (\<lambda>i. im_project i = project \<and> like_match None (percent # sql_basename name @ [percent]) (im_target i) \<and>
       \<not> under_scope name (im_file i)) (imports_of t)"

text \<open>The rows of a group: the entities below the scopes of that name.\<close>

definition module_files :: "code_tables \<Rightarrow> nat \<Rightarrow> bytes \<Rightarrow> bytes list" where
  "module_files t project name =
     concat (map (\<lambda>s. map fe_file (filter (\<lambda>e. under_scope name (fe_file e)) (project_entities (facts t) project)))
       (filter (\<lambda>s. sc_name s = name) (project_modules t project)))"

definition orphan_rows :: "(bytes list \<Rightarrow> bytes list) \<Rightarrow> code_tables \<Rightarrow> nat \<Rightarrow> (bytes \<times> bytes list) list" where
  "orphan_rows group_order t project =
     take 500 (sort_key (\<lambda>(n, fs). - int (length fs))
       (filter (\<lambda>(n, fs). 10 \<le> length fs)
         (map (\<lambda>n. (n, module_files t project n))
           (filter (\<lambda>n. \<not> imported_from_outside t project n)
             (group_order (remdups (map sc_name (project_modules t project))))))))"

definition min_text :: "bytes list \<Rightarrow> bytes" where
  "min_text fs = (case fs of [] \<Rightarrow> [] | f # fs' \<Rightarrow> foldl min f fs')"

definition orphan_module_finding :: "nat \<Rightarrow> bytes \<times> bytes list \<Rightarrow> code_finding" where
  "orphan_module_finding entity_rows row =
     (case row of (n, fs) \<Rightarrow>
        \<lparr>cf_type = ''DeadModule'',
         cf_description = ''Module '' @ [CHR 0x27] @ n @ [CHR 0x27] @ '' has '' @ to_string_nat (length fs) @
           '' entities and is imported by no other module (checked via the import table). Sample: '' @ min_text fs @
           (if entity_rows < length fs * 2
            then '' (this scope holds most of the project'' @ [CHR 0x27] @ ''s entities '' @
              [CHR 0xE2, CHR 0x80, CHR 0x94] @ '' it is a top-level directory, so no external importer is expected)''
            else []),
         cf_confidence = 95 / 100\<rparr>)"

definition findOrphanModules ::
  "query_env \<Rightarrow> (bytes list \<Rightarrow> bytes list) \<Rightarrow> code_tables \<Rightarrow> nat \<Rightarrow> code_finding list" where
  "findOrphanModules env group_order t project =
     (let entity_rows = count_read env CountEntities (length (project_entities (facts t) project));
          import_rows = count_read env CountImports (length (filter (\<lambda>i. im_project i = project) (imports_of t)))
      in if entity_rows \<le> 0 \<or> import_rows \<le> 0 then []
         else if \<not> prepares env OrphanModules then []
         else map (orphan_module_finding entity_rows) (rows_read env OrphanModules (orphan_rows group_order t project)))"

section \<open>Orphan functions\<close>

definition entry_point :: "fact_entity \<Rightarrow> bool" where
  "entry_point e \<longleftrightarrow>
     (lower (fe_name e) = ''main'' \<and> fe_language e \<in> {''c'', ''cpp'', ''c++'', ''go'', ''rust''}) \<or>
     (lower (fe_name e) = ''init'' \<and> fe_language e = ''go'')"

definition orphan_function :: "code_tables \<Rightarrow> nat \<Rightarrow> fact_entity \<Rightarrow> bool" where
  "orphan_function t project e \<longleftrightarrow>
     fe_project e = project \<and> fe_kind e \<in> {0, 1} \<and> fe_visibility e \<noteq> 1 \<and> \<not> entry_point e \<and>
     \<not> list_ex (\<lambda>r. fr_project r = project \<and> (fr_source r = fe_id e \<or> fr_target r = fe_id e)) (relations (facts t))"

definition orphan_function_finding :: "fact_entity \<Rightarrow> code_finding" where
  "orphan_function_finding e =
     \<lparr>cf_type = ''DeadFunction'',
      cf_description = ''Function '' @ [CHR 0x27] @ fe_name e @ [CHR 0x27] @ '' in '' @ fe_file e @
        '' has zero callers and zero callees '' @ [CHR 0xE2, CHR 0x80, CHR 0x94] @ '' isolated.'',
      cf_confidence = 90 / 100\<rparr>"

definition findOrphanFunctions :: "query_env \<Rightarrow> code_tables \<Rightarrow> nat \<Rightarrow> code_finding list" where
  "findOrphanFunctions env t project =
     (if \<not> prepares env CountRelations then []
      else if count_read env CountRelations (length (project_relations (facts t) project)) \<le> 0 then []
      else if \<not> prepares env OrphanFunctions then []
      else map orphan_function_finding
             (rows_read env OrphanFunctions (take 500 (filter (orphan_function t project) (entities (facts t))))))"

section \<open>Calls between modules\<close>

definition nested :: "bytes \<Rightarrow> bytes \<Rightarrow> bool" where
  "nested a b \<longleftrightarrow> prefix b a \<or> prefix a b"

definition entities_named :: "code_tables \<Rightarrow> int \<Rightarrow> fact_entity list" where
  "entities_named t i = filter (\<lambda>e. fe_id e = i) (entities (facts t))"

text \<open>One pair of names for every row of the join.\<close>

definition module_call_rows :: "code_tables \<Rightarrow> nat \<Rightarrow> (bytes \<times> bytes) list" where
  "module_call_rows t project =
     concat (map (\<lambda>r.
       concat (map (\<lambda>(src, tgt).
         concat (map (\<lambda>(a, b).
           if under_scope (sc_name a) (fe_file src) \<and> under_scope (sc_name b) (fe_file tgt) \<and> sc_id a \<noteq> sc_id b \<and>
              \<not> nested (sc_name a) (sc_name b)
           then [(sc_name a, sc_name b)] else [])
         (List.product (project_modules t project) (project_modules t project))))
       (List.product (entities_named t (fr_source r)) (entities_named t (fr_target r)))))
     (calls_of (facts t) project))"

text \<open>\<open>GROUP BY\<close> with \<open>COUNT(*)\<close>, the largest groups first.\<close>

definition group_counts :: "('a list \<Rightarrow> 'a list) \<Rightarrow> 'a list \<Rightarrow> ('a \<times> nat) list" where
  "group_counts group_order rows =
     sort_key (\<lambda>(g, n). - int n) (map (\<lambda>g. (g, count_list rows g)) (group_order (remdups rows)))"

definition module_call_finding :: "(bytes \<times> bytes) \<times> nat \<Rightarrow> code_finding" where
  "module_call_finding row =
     (case row of ((a, b), n) \<Rightarrow>
        \<lparr>cf_type = ''ArchitectureDrift'',
         cf_description = ''Module '' @ [CHR 0x27] @ a @ [CHR 0x27] @ '' calls '' @ [CHR 0x27] @ b @ [CHR 0x27] @ '' '' @
           to_string_nat n @ '' times '' @ [CHR 0xE2, CHR 0x80, CHR 0x94] @ '' potential architecture drift.'',
         cf_confidence = 85 / 100\<rparr>)"

definition coupling_rows :: "code_tables \<Rightarrow> nat \<Rightarrow> (bytes \<times> bytes) list" where
  "coupling_rows t project =
     concat (map (\<lambda>m.
       concat (map (\<lambda>e.
         concat (map (\<lambda>r.
           concat (map (\<lambda>caller.
             if me_callee m \<noteq> me_caller m \<and> \<not> nested (me_callee m) (me_caller m) \<and>
                like_match None (percent # me_caller m @ [percent]) (fe_file caller) \<and>
                like_match None (percent # me_callee m @ [percent]) (fe_file e)
             then [(me_caller m, me_callee m)] else [])
           (entities_named t (fr_source r))))
         (filter (\<lambda>r. fr_project r = project \<and> fr_target r = fe_id e) (relations (facts t)))))
       (entities_named t (me_entity m))))
     (filter (\<lambda>m. me_project m = project) (module_edges t)))"

definition coupling_finding :: "(bytes \<times> bytes) \<times> nat \<Rightarrow> code_finding" where
  "coupling_finding row =
     (case row of ((a, b), n) \<Rightarrow>
        \<lparr>cf_type = ''ModuleCoupling'',
         cf_description = ''Module coupling: '' @ [CHR 0x27] @ a @ [CHR 0x27] @ '' calls '' @ [CHR 0x27] @ b @ [CHR 0x27] @ '' '' @
           to_string_nat n @ '' times across a module boundary '' @ [CHR 0xE2, CHR 0x80, CHR 0x94] @
           '' a dependency, not a layer violation.'',
         cf_confidence = 90 / 100\<rparr>)"

definition findModuleDrift ::
  "query_env \<Rightarrow> ((bytes \<times> bytes) list \<Rightarrow> (bytes \<times> bytes) list) \<Rightarrow> code_tables \<Rightarrow> nat \<Rightarrow> code_finding list" where
  "findModuleDrift env pair_order t project =
     (if \<not> prepares env ModuleCalls then []
      else map module_call_finding
             (rows_read env ModuleCalls (take 15 (group_counts pair_order (module_call_rows t project)))) @
           (if prepares env ModuleCoupling
            then map coupling_finding
              (rows_read env ModuleCoupling (take 10 (filter (\<lambda>(g, n). 0 < n) (group_counts pair_order (coupling_rows t project)))))
            else []))"

section \<open>Connected components\<close>

type_synonym node = "64 word"

definition component_edges :: "query_env \<Rightarrow> code_tables \<Rightarrow> nat \<Rightarrow> (node \<times> node) list" where
  "component_edges env t project =
     map (\<lambda>(a, b). (word_of_int a, word_of_int b))
       (rows_read env ComponentCalls (remdups (map (\<lambda>r. (fr_source r, fr_target r)) (calls_of (facts t) project))))"

text \<open>\<open>adj\<close> as the list of neighbours of a node, in the order of the two \<open>push_back\<close> of each row.\<close>

definition neighbours_of :: "('a \<times> 'a) list \<Rightarrow> 'a \<Rightarrow> 'a list" where
  "neighbours_of edges n =
     concat (map (\<lambda>(s, t). (if s = n then [t] else []) @ (if t = n then [s] else [])) edges)"

definition graph_nodes :: "('a \<times> 'a) list \<Rightarrow> 'a list" where
  "graph_nodes edges = remdups (concat (map (\<lambda>(s, t). [s, t]) edges))"

fun push_unvisited :: "'a list \<Rightarrow> 'a list \<times> 'a list \<Rightarrow> 'a list \<times> 'a list" where
  "push_unvisited [] (visited, queue) = (visited, queue)"
| "push_unvisited (m # ms) (visited, queue) =
     push_unvisited ms (if m \<in> set visited then (visited, queue) else (m # visited, queue @ [m]))"

text \<open>The loop over the queue.  Every pop takes a node that was pushed when it was first visited, so as
  many rounds as there are nodes empty the queue (\<open>component_search\<close> below).\<close>

fun search_component :: "nat \<Rightarrow> ('a \<Rightarrow> 'a list) \<Rightarrow> 'a list \<Rightarrow> 'a list \<Rightarrow> 'a list \<Rightarrow> 'a list \<times> 'a list" where
  "search_component 0 adj queue visited found = (visited, found)"
| "search_component (Suc k) adj queue visited found =
     (case queue of [] \<Rightarrow> (visited, found)
      | n # rest \<Rightarrow>
          let (visited', queue') = push_unvisited (adj n) (visited, rest)
          in search_component k adj queue' visited' (found @ [n]))"

definition component_round :: "('a \<times> 'a) list \<Rightarrow> 'a \<Rightarrow> 'a list \<times> 'a list list \<Rightarrow> 'a list \<times> 'a list list" where
  "component_round edges start s =
     (case s of (visited, comps) \<Rightarrow>
        if start \<in> set visited then s
        else
          let (visited', found) = search_component (length (graph_nodes edges)) (neighbours_of edges) [start] (start # visited) []
          in (visited', if 1 < length found then comps @ [found] else comps))"

definition connected_components :: "('a list \<Rightarrow> 'a list) \<Rightarrow> ('a \<times> 'a) list \<Rightarrow> 'a list list" where
  "connected_components hash_order edges =
     snd (fold (component_round edges) (hash_order (graph_nodes edges)) ([], []))"

definition largest_index :: "'a list list \<Rightarrow> nat" where
  "largest_index comps =
     foldl (\<lambda>best i. if length (comps ! best) < length (comps ! i) then i else best) 0 [1..<length comps]"

definition component_finding :: "bytes \<Rightarrow> code_finding" where
  "component_finding d = \<lparr>cf_type = ''ConnectedComponent'', cf_description = d, cf_confidence = 95 / 100\<rparr>"

definition findConnectedComponents ::
  "query_env \<Rightarrow> (node list \<Rightarrow> node list) \<Rightarrow> code_tables \<Rightarrow> nat \<Rightarrow> code_finding list" where
  "findConnectedComponents env hash_order t project =
     (if \<not> prepares env ComponentCalls then []
      else
        let comps = connected_components hash_order (component_edges env t project)
        in if comps = [] then []
           else [component_finding (''Largest connected component has '' @
                   to_string_nat (length (comps ! largest_index comps)) @ '' entities''),
                 component_finding (''Total '' @ to_string_nat (length comps) @ '' connected components in the call graph'')])"

record orders =
  order_of_names :: "bytes list \<Rightarrow> bytes list"
  order_of_pairs :: "(bytes \<times> bytes) list \<Rightarrow> (bytes \<times> bytes) list"
  order_of_nodes :: "node list \<Rightarrow> node list"

definition inspect :: "query_env \<Rightarrow> orders \<Rightarrow> code_tables \<Rightarrow> nat \<Rightarrow> code_finding list" where
  "inspect env ord t project =
     findOrphanModules env (order_of_names ord) t project @ findOrphanFunctions env t project @
     findModuleDrift env (order_of_pairs ord) t project @ findConnectedComponents env (order_of_nodes ord) t project"

section \<open>The components are the components\<close>

definition adjacent :: "('a \<times> 'a) list \<Rightarrow> 'a \<Rightarrow> 'a \<Rightarrow> bool" where
  "adjacent edges x y \<longleftrightarrow> (x, y) \<in> set edges \<or> (y, x) \<in> set edges"

definition component_of :: "('a \<times> 'a) list \<Rightarrow> 'a \<Rightarrow> 'a set" where
  "component_of edges x = {y. (adjacent edges)\<^sup>*\<^sup>* x y}"

lemma set_neighbours: "set (neighbours_of edges n) = {m. adjacent edges n m}"
  by (auto simp: neighbours_of_def adjacent_def split: if_splits)

lemma set_graph_nodes: "set (graph_nodes edges) = {x. \<exists>y. adjacent edges x y}"
  by (fastforce simp: graph_nodes_def adjacent_def)

lemma adjacent_sym: "adjacent edges x y \<longleftrightarrow> adjacent edges y x"
  by (auto simp: adjacent_def)

lemma adjacent_star_sym: "(adjacent edges)\<^sup>*\<^sup>* x y \<Longrightarrow> (adjacent edges)\<^sup>*\<^sup>* y x"
proof (induction rule: rtranclp_induct)
  case (step y z)
  then show ?case by (metis adjacent_sym converse_rtranclp_into_rtranclp)
qed simp

lemma component_cong: "y \<in> component_of edges x \<Longrightarrow> component_of edges y = component_of edges x"
  by (auto simp: component_of_def intro: rtranclp_trans dest: adjacent_star_sym)

lemma component_self [simp]: "x \<in> component_of edges x"
  by (simp add: component_of_def)

lemma component_nodes: "x \<in> set (graph_nodes edges) \<Longrightarrow> component_of edges x \<subseteq> set (graph_nodes edges)"
proof
  fix y
  assume x: "x \<in> set (graph_nodes edges)" and "y \<in> component_of edges x"
  then have "(adjacent edges)\<^sup>*\<^sup>* x y" by (simp add: component_of_def)
  then show "y \<in> set (graph_nodes edges)"
  proof (induction rule: rtranclp_induct)
    case (step y z)
    then show ?case unfolding set_graph_nodes using adjacent_sym [of edges y z] by blast
  qed (rule x)
qed

lemma push_unvisited_props:
  assumes "push_unvisited ms (visited, queue) = (visited', queue')"
  shows "\<exists>new. queue' = queue @ new \<and> set visited' = set visited \<union> set new \<and> distinct new \<and> set new = set ms - set visited"
  using assms
proof (induction ms arbitrary: visited queue)
  case (Cons m ms)
  show ?case
  proof (cases "m \<in> set visited")
    case True
    then show ?thesis using Cons by (simp add: insert_Diff_if)
  next
    case False
    with Cons.prems have "push_unvisited ms (m # visited, queue @ [m]) = (visited', queue')" by simp
    from Cons.IH [OF this] obtain new where new: "queue' = (queue @ [m]) @ new" "set visited' = set (m # visited) \<union> set new"
        "distinct new" "set new = set ms - set (m # visited)" by blast
    then show ?thesis using False by (intro exI [of _ "m # new"]) auto
  qed
qed simp

text \<open>The invariant of the search from \<open>start\<close>; \<open>old\<close> is what was visited before.\<close>

definition searching :: "('a \<times> 'a) list \<Rightarrow> 'a \<Rightarrow> 'a set \<Rightarrow> 'a list \<Rightarrow> 'a list \<Rightarrow> 'a list \<Rightarrow> bool" where
  "searching edges start old queue visited found \<longleftrightarrow>
     distinct (found @ queue) \<and> set visited = old \<union> set (found @ queue) \<and> set (found @ queue) \<subseteq> component_of edges start \<and>
     start \<in> set (found @ queue) \<and> (\<forall>x \<in> set found. \<forall>y. adjacent edges x y \<longrightarrow> y \<in> set visited)"

lemma searching_step:
  assumes "searching edges start old (n # rest) visited found" and "old \<inter> component_of edges start = {}"
    and "push_unvisited (neighbours_of edges n) (visited, rest) = (visited', queue')"
  shows "searching edges start old queue' visited' (found @ [n])"
proof -
  obtain new where new: "queue' = rest @ new" "set visited' = set visited \<union> set new" "distinct new"
      "set new = {m. adjacent edges n m} - set visited"
    using push_unvisited_props [OF assms(3)] unfolding set_neighbours by blast
  note inv = assms(1) [unfolded searching_def]
  have "n \<in> component_of edges start" using inv by auto
  then have "set new \<subseteq> component_of edges start"
    using new(4) by (auto simp: component_of_def intro: rtranclp.rtrancl_into_rtrancl)
  moreover have "set (found @ n # rest) \<inter> set new = {}" using inv new(4) by auto
  ultimately show ?thesis using inv new unfolding searching_def by auto
qed

lemma searching_end:
  assumes "searching edges start old [] visited found" and "old \<inter> component_of edges start = {}"
  shows "set found = component_of edges start" "distinct found" "set visited = old \<union> component_of edges start"
proof -
  note inv = assms(1) [unfolded searching_def]
  have "y \<in> set found" if "(adjacent edges)\<^sup>*\<^sup>* start y" for y
    using that
  proof (induction rule: rtranclp_induct)
    case base
    then show ?case using inv by simp
  next
    case (step y z)
    then have "z \<in> component_of edges start" by (simp add: component_of_def)
    then show ?case using inv step(2,3) assms(2) by auto
  qed
  then show "set found = component_of edges start" using inv by (auto simp: component_of_def)
  then show "distinct found" "set visited = old \<union> component_of edges start" using inv by simp_all
qed

lemma component_search:
  assumes "search_component k (neighbours_of edges) queue visited found = (visited', found')"
    and "searching edges start old queue visited found" and "old \<inter> component_of edges start = {}"
    and "start \<in> set (graph_nodes edges)" and "length (graph_nodes edges) \<le> length found + k"
  shows "set found' = component_of edges start \<and> distinct found' \<and> set visited' = old \<union> component_of edges start"
  using assms
proof (induction k arbitrary: queue visited found)
  case 0
  note inv = 0(2) [unfolded searching_def]
  have "set (found @ queue) \<subseteq> set (graph_nodes edges)" using inv component_nodes [OF 0(4)] by blast
  then have "length (found @ queue) \<le> length (graph_nodes edges)"
    using inv card_mono [of "set (graph_nodes edges)" "set (found @ queue)"]
    by (metis List.finite_set card_length distinct_card le_trans)
  then have "length queue = 0" using 0(5) unfolding length_append by linarith
  then have "queue = []" by simp
  then show ?case using searching_end [OF 0(2) [unfolded \<open>queue = []\<close>] 0(3)] 0(1) by simp
next
  case (Suc k)
  show ?case
  proof (cases queue)
    case Nil
    then show ?thesis using searching_end [OF Suc(3) [unfolded Nil] Suc(4)] Suc(2) by simp
  next
    case (Cons n rest)
    obtain visited1 queue1 where p: "push_unvisited (neighbours_of edges n) (visited, rest) = (visited1, queue1)"
      by (cases "push_unvisited (neighbours_of edges n) (visited, rest)") auto
    have "search_component k (neighbours_of edges) queue1 visited1 (found @ [n]) = (visited', found')"
      using Suc(2) p by (simp add: Cons)
    moreover have "searching edges start old queue1 visited1 (found @ [n])"
      using searching_step [OF Suc(3) [unfolded Cons] Suc(4) p] .
    ultimately show ?thesis using Suc.IH [OF _ _ Suc(4,5), of queue1 visited1 "found @ [n]"] Suc(6) by simp
  qed
qed

text \<open>The invariant of the loop over the keys.\<close>

definition components_so_far :: "('a \<times> 'a) list \<Rightarrow> 'a list \<times> 'a list list \<Rightarrow> bool" where
  "components_so_far edges s \<longleftrightarrow>
     (\<forall>x \<in> set (fst s). component_of edges x \<subseteq> set (fst s)) \<and> distinct (map set (snd s)) \<and> list_all distinct (snd s) \<and>
     set ` set (snd s) = {C. \<exists>x \<in> set (fst s). C = component_of edges x \<and> 1 < card C}"

lemma component_round_inv:
  assumes inv: "components_so_far edges s" and start: "start \<in> set (graph_nodes edges)"
  shows "components_so_far edges (component_round edges start s) \<and>
    set (fst (component_round edges start s)) = set (fst s) \<union> component_of edges start"
proof -
  obtain visited comps where s: "s = (visited, comps)" by (cases s)
  note inv = inv [unfolded components_so_far_def s fst_conv snd_conv]
  show ?thesis
  proof (cases "start \<in> set visited")
    case True
    then show ?thesis using assms inv by (auto simp: component_round_def s)
  next
    case False
    have disj: "set visited \<inter> component_of edges start = {}"
    proof (rule ccontr)
      assume "set visited \<inter> component_of edges start \<noteq> {}"
      then obtain x where x: "x \<in> set visited" "x \<in> component_of edges start" by blast
      then have "start \<in> component_of edges x" using component_cong [OF x(2)] by simp
      then show False using inv x(1) False by blast
    qed
    obtain visited' found where sc: "search_component (length (graph_nodes edges)) (neighbours_of edges) [start] (start # visited) []
        = (visited', found)" by (metis surj_pair)
    have "searching edges start (set visited) [start] (start # visited) []" by (simp add: searching_def)
    from component_search [OF sc this disj start]
    have f: "set found = component_of edges start" "distinct found" "set visited' = set visited \<union> component_of edges start"
      by simp_all
    have r: "component_round edges start s = (visited', if 1 < length found then comps @ [found] else comps)"
      using False sc by (simp add: component_round_def s)
    have len: "length found = card (component_of edges start)" using f(1,2) distinct_card by fastforce
    have closed: "\<forall>x \<in> set visited'. component_of edges x \<subseteq> set visited'"
    proof
      fix x
      assume "x \<in> set visited'"
      then consider "x \<in> set visited" | "x \<in> component_of edges start" unfolding f(3) by blast
      then show "component_of edges x \<subseteq> set visited'"
        using inv component_cong [of x edges start] unfolding f(3) by cases auto
    qed
    have classes: "{C. \<exists>x \<in> set visited'. C = component_of edges x \<and> 1 < card C} =
        {C. \<exists>x \<in> set visited. C = component_of edges x \<and> 1 < card C} \<union>
        (if 1 < card (component_of edges start) then {component_of edges start} else {})"
    proof -
      have K: "component_of edges x = component_of edges start" if "x \<in> component_of edges start" for x
        using component_cong [OF that] .
      have "(\<exists>x \<in> component_of edges start. C = component_of edges x \<and> 1 < card C) \<longleftrightarrow>
          C = component_of edges start \<and> 1 < card (component_of edges start)" for C
        using K component_self [of start edges] by metis
      then show ?thesis unfolding f(3) Un_iff bex_Un Collect_disj_eq by simp
    qed
    have "component_of edges start \<notin> set ` set comps"
    proof
      assume "component_of edges start \<in> set ` set comps"
      then obtain x where "x \<in> set visited" "component_of edges start = component_of edges x" using inv by auto
      then show False using component_self [of x edges] disj by auto
    qed
    then have "components_so_far edges (component_round edges start s)"
      unfolding components_so_far_def r fst_conv snd_conv classes using inv closed f(1,2) len by auto
    moreover have "set (fst (component_round edges start s)) = set (fst s) \<union> component_of edges start"
      unfolding r fst_conv f(3) by (simp add: s)
    ultimately show ?thesis by blast
  qed
qed

lemma components_fold:
  assumes "components_so_far edges s" and "set keys \<subseteq> set (graph_nodes edges)"
  shows "components_so_far edges (fold (component_round edges) keys s) \<and>
    set (fst (fold (component_round edges) keys s)) = set (fst s) \<union> (\<Union>x \<in> set keys. component_of edges x)"
  using assms
proof (induction keys arbitrary: s)
  case (Cons k keys)
  then have "k \<in> set (graph_nodes edges)" by simp
  note r = component_round_inv [OF Cons.prems(1) this]
  from Cons.IH [OF conjunct1 [OF r]] Cons.prems(2) r show ?case by auto
qed simp

lemma connected_components_exact:
  assumes "\<forall>xs. mset (hash_order xs) = mset xs"
  shows "distinct (map set (connected_components hash_order edges))"
    "list_all distinct (connected_components hash_order edges)"
    "set ` set (connected_components hash_order edges) =
       {C. \<exists>x \<in> set (graph_nodes edges). C = component_of edges x \<and> 1 < card C}"
proof -
  have keys: "set (hash_order (graph_nodes edges)) = set (graph_nodes edges)" using assms by (metis mset_eq_setD)
  have "components_so_far edges ([], [])" by (simp add: components_so_far_def)
  from components_fold [OF this, of "hash_order (graph_nodes edges)"] keys
  have inv: "components_so_far edges (fold (component_round edges) (hash_order (graph_nodes edges)) ([], []))"
    and visited: "set (fst (fold (component_round edges) (hash_order (graph_nodes edges)) ([], []))) =
      (\<Union>x \<in> set (graph_nodes edges). component_of edges x)" by auto
  have "(\<Union>x \<in> set (graph_nodes edges). component_of edges x) = set (graph_nodes edges)"
    using component_nodes component_self by fastforce
  then show "distinct (map set (connected_components hash_order edges))"
    "list_all distinct (connected_components hash_order edges)"
    "set ` set (connected_components hash_order edges) =
       {C. \<exists>x \<in> set (graph_nodes edges). C = component_of edges x \<and> 1 < card C}"
    using inv unfolding components_so_far_def visited connected_components_def by simp_all
qed

text \<open>The size of the largest list, through the index that the loop keeps.\<close>

lemma largest_index_props:
  assumes "comps \<noteq> []"
  shows "largest_index comps < length comps \<and> (\<forall>i < length comps. length (comps ! i) \<le> length (comps ! largest_index comps))"
proof -
  let ?f = "\<lambda>best i. if length (comps ! best) < length (comps ! i) then i else best"
  have "foldl ?f 0 [1..<n] < n \<and> (\<forall>i < n. length (comps ! i) \<le> length (comps ! foldl ?f 0 [1..<n]))" if "0 < n" for n
    using that
  proof (induction n)
    case (Suc n)
    then show ?case by (cases "n = 0") (auto simp: less_Suc_eq)
  qed simp
  then show ?thesis using assms by (simp add: largest_index_def)
qed

text \<open>The node sets of the components with more than one node.\<close>

definition component_sets :: "(node \<times> node) list \<Rightarrow> node set set" where
  "component_sets edges = {C. \<exists>x \<in> set (graph_nodes edges). C = component_of edges x \<and> 1 < card C}"

text \<open>
  (C27) The report on connected components is right and does not depend on the hash order: it is empty
  exactly if no two different functions of the project are joined by calls; otherwise it says how many
  components with at least two functions the call graph has, and how large the largest is.
\<close>

theorem components_reported:
  assumes "\<forall>xs. mset (hash_order xs) = mset xs" and "prepares env ComponentCalls"
  shows "findConnectedComponents env hash_order t project =
    (if component_sets (component_edges env t project) = {} then []
     else [component_finding (''Largest connected component has '' @
             to_string_nat (Max (card ` component_sets (component_edges env t project))) @ '' entities''),
           component_finding (''Total '' @ to_string_nat (card (component_sets (component_edges env t project))) @
             '' connected components in the call graph'')])"
proof -
  define edges where "edges = component_edges env t project"
  define comps where "comps = connected_components hash_order edges"
  note exact = connected_components_exact [OF assms(1), of edges, folded comps_def component_sets_def]
  have empty: "component_sets edges = {} \<longleftrightarrow> comps = []" using exact(3) by auto
  have total: "card (component_sets edges) = length comps"
    using exact(1) unfolding exact(3) [symmetric] by (metis distinct_card length_map set_map)
  have sizes: "card ` component_sets edges = length ` set comps"
    unfolding exact(3) [symmetric] image_image using exact(2) by (auto simp: list_all_iff distinct_card intro!: image_cong)
  have "Max (card ` component_sets edges) = length (comps ! largest_index comps)" if "comps \<noteq> []"
    unfolding sizes
  proof (rule Max_eqI)
    show "finite (length ` set comps)" by simp
    show "y \<le> length (comps ! largest_index comps)" if "y \<in> length ` set comps" for y
      using that largest_index_props [OF \<open>comps \<noteq> []\<close>] by (auto simp: in_set_conv_nth)
    show "length (comps ! largest_index comps) \<in> length ` set comps"
      using largest_index_props [OF \<open>comps \<noteq> []\<close>] by simp
  qed
  then show ?thesis
    unfolding findConnectedComponents_def Let_def edges_def [symmetric] comps_def [symmetric]
    using assms(2) empty total by simp
qed

definition two_groups :: code_tables where
  "two_groups = \<lparr>facts = \<lparr>entities = [], relations =
       [\<lparr>fr_id = 1, fr_project = 1, fr_source = 10, fr_target = 11, fr_type = 1\<rparr>,
        \<lparr>fr_id = 2, fr_project = 1, fr_source = 12, fr_target = 11, fr_type = 1\<rparr>,
        \<lparr>fr_id = 3, fr_project = 1, fr_source = 20, fr_target = 21, fr_type = 1\<rparr>,
        \<lparr>fr_id = 4, fr_project = 1, fr_source = 30, fr_target = 30, fr_type = 1\<rparr>],
       capabilities = [], contracts = [], readmes = []\<rparr>,
     scopes = [], imports_of = [], module_edges = []\<rparr>"

theorem components_reported_witness:
  "map cf_description (findConnectedComponents healthy rev two_groups 1) =
     [''Largest connected component has 3 entities'', ''Total 2 connected components in the call graph''] \<and>
   component_sets (component_edges healthy two_groups 1) \<noteq> {}"
proof -
  have r: "map cf_description (findConnectedComponents healthy rev two_groups 1) =
      [''Largest connected component has 3 entities'', ''Total 2 connected components in the call graph'']"
    by code_simp
  have "\<forall>xs :: node list. mset (rev xs) = mset xs" by simp
  from components_reported [OF this, of healthy two_groups 1] r show ?thesis by (auto split: if_splits)
qed

section \<open>Modules\<close>

lemma set_replace_slash: "set (sql_replace slash_char [] x) = set x - {slash_char}"
  by (auto simp: sql_replace_def)

lemma dropWhile_replicate_append: "dropWhile (\<lambda>c. c = x) (replicate n x @ ys) = dropWhile (\<lambda>c. c = x) ys"
  by (induction n) simp_all

text \<open>
  The expression in SQL takes the last component of a path: for a path that ends in a component and
  any number of slashes, with nothing or a slash before the component, it is that component.
\<close>

theorem sql_basename_is_last_component:
  assumes "base \<noteq> []" and "slash_char \<notin> set base" and "pre = [] \<or> last pre = slash_char"
  shows "sql_basename (pre @ base @ replicate n slash_char) = base"
proof -
  let ?x = "pre @ base"
  have "dropWhile (\<lambda>c. c = slash_char) (rev ?x) = rev ?x"
    using assms(1,2) by (cases base rule: rev_cases) auto
  then have x: "sql_rtrim (pre @ base @ replicate n slash_char) [slash_char] = ?x"
    by (simp add: sql_rtrim_def dropWhile_replicate_append)
  define bad where "bad = set (sql_replace slash_char [] ?x)"
  have all: "c \<in> set (rev base) \<Longrightarrow> c \<in> bad" for c
    using assms(2) by (auto simp: bad_def set_replace_slash)
  have stop: "dropWhile (\<lambda>c. c \<in> bad) (rev pre) = rev pre"
    using assms(3) by (cases pre rule: rev_cases) (auto simp: bad_def set_replace_slash)
  have "dropWhile (\<lambda>c. c \<in> bad) (rev base @ rev pre) = rev pre"
    using dropWhile_append2 [of "rev base" "\<lambda>c. c \<in> bad" "rev pre"] all stop by simp
  then have "sql_rtrim ?x (sql_replace slash_char [] ?x) = pre"
    by (simp add: sql_rtrim_def bad_def)
  then show ?thesis by (simp add: sql_basename_def x Let_def)
qed

theorem sql_basename_is_last_component_witness: "sql_basename (''src/'' @ ''graph'' @ replicate 2 slash_char) = ''graph''"
  by (rule sql_basename_is_last_component) simp_all

text \<open>
  Nothing is called dead without evidence: whatever fails, a module is reported only in a project
  that has entities and imports, and a function only in a project that has relations; a reported
  function is a function or method of the project that is not exported, is no entry point, and occurs
  in no relation of the project.
\<close>

theorem dead_code_needs_evidence:
  "(findOrphanModules env order t project \<noteq> [] \<longrightarrow>
      project_entities (facts t) project \<noteq> [] \<and> (\<exists>i. i \<in> set (imports_of t) \<and> im_project i = project)) \<and>
   (f \<in> set (findOrphanFunctions env t project) \<longrightarrow>
      project_relations (facts t) project \<noteq> [] \<and>
      (\<exists>e. e \<in> set (project_entities (facts t) project) \<and> f = orphan_function_finding e \<and> fe_kind e \<in> {0, 1} \<and>
        fe_visibility e \<noteq> 1 \<and> \<not> entry_point e \<and>
        (\<forall>r \<in> set (project_relations (facts t) project). fr_source r \<noteq> fe_id e \<and> fr_target r \<noteq> fe_id e)))"
proof (intro conjI impI)
  assume m: "findOrphanModules env order t project \<noteq> []"
  have e: "count_read env CountEntities (length (project_entities (facts t) project)) \<noteq> 0"
    and i: "count_read env CountImports (length (filter (\<lambda>i. im_project i = project) (imports_of t))) \<noteq> 0"
    using m by (auto simp: findOrphanModules_def Let_def split: if_splits)
  show "project_entities (facts t) project \<noteq> []"
    using e count_read_le [of env CountEntities "length (project_entities (facts t) project)"] by auto
  have "filter (\<lambda>i. im_project i = project) (imports_of t) \<noteq> []"
    using i count_read_le [of env CountImports "length (filter (\<lambda>i. im_project i = project) (imports_of t))"] by auto
  then show "\<exists>i. i \<in> set (imports_of t) \<and> im_project i = project" by (auto simp: filter_empty_conv)
next
  assume f: "f \<in> set (findOrphanFunctions env t project)"
  have c: "count_read env CountRelations (length (project_relations (facts t) project)) \<noteq> 0"
    using f by (auto simp: findOrphanFunctions_def split: if_splits)
  then show "project_relations (facts t) project \<noteq> []"
    using count_read_le [of env CountRelations "length (project_relations (facts t) project)"] by auto
  have "f \<in> orphan_function_finding ` set (rows_read env OrphanFunctions (take 500 (filter (orphan_function t project) (entities (facts t)))))"
    using f by (auto simp: findOrphanFunctions_def split: if_splits)
  then obtain e where e: "f = orphan_function_finding e" "e \<in> set (filter (orphan_function t project) (entities (facts t)))"
    using rows_read_subset in_set_takeD by (smt (verit, ccfv_SIG) imageE subsetD)
  then show "\<exists>e. e \<in> set (project_entities (facts t) project) \<and> f = orphan_function_finding e \<and> fe_kind e \<in> {0, 1} \<and>
      fe_visibility e \<noteq> 1 \<and> \<not> entry_point e \<and>
      (\<forall>r \<in> set (project_relations (facts t) project). fr_source r \<noteq> fe_id e \<and> fr_target r \<noteq> fe_id e)"
    by (auto simp: orphan_function_def project_entities_def project_relations_def list_ex_iff)
qed

definition lonely :: code_tables where
  "lonely = two_groups\<lparr>facts := (facts two_groups)\<lparr>entities :=
     [\<lparr>fe_id = 40, fe_project = 1, fe_kind = 0, fe_name = ''helper'', fe_qualified = ''helper'', fe_file = ''/p/a.cpp'',
       fe_language = ''cpp'', fe_visibility = 0\<rparr>]\<rparr>\<rparr>"

theorem dead_code_needs_evidence_witness:
  "length (findOrphanFunctions healthy lonely 1) = 1 \<and> project_relations (facts lonely) 1 \<noteq> []"
proof -
  have l: "length (findOrphanFunctions healthy lonely 1) = 1" by code_simp
  then obtain f where "f \<in> set (findOrphanFunctions healthy lonely 1)" by (metis length_greater_0_conv list.set_intros(1) neq_Nil_conv zero_less_one)
  then show ?thesis using l dead_code_needs_evidence [of healthy id lonely 1 f] by blast
qed

end
