(* ===== verification/Verify_Reports.thy ===== *)
theory Verify_Reports
  imports Drift Dead_Code
begin

text \<open>
  The reports of the verification layer (\<open>engine_verify_ffi.cpp\<close>, \<open>engine_verify_drift_ffi.cpp\<close>): the
  verdict on a statement and on a review, the check of every declared capability and contract, the check
  of a summary with the three detectors of drift, the hard drift of declarations, and the status of the
  registry.

  A report is the text it returns and the rows it adds.  \<open>fmt\<close> is the text that the JSON writer gives for
  a \<open>double\<close>, \<open>stream\<close> the text that \<open>operator<<\<close> gives; scores are exact rationals.
\<close>

section \<open>A statement about reality\<close>

definition kSourceKindAiSummary :: bytes where "kSourceKindAiSummary = ''ai_summary''"
definition kSourceKindCodeReview :: bytes where "kSourceKindCodeReview = ''code_review''"
definition kSourceKindAiStatement :: bytes where "kSourceKindAiStatement = ''ai_statement''"
definition kSourceRefMaxLen :: nat where "kSourceRefMaxLen = 200"

definition aggregateVerdict :: "nat \<Rightarrow> nat \<Rightarrow> nat \<Rightarrow> bytes \<times> rat" where
  "aggregateVerdict supported contradicted unknown =
     (let total = supported + contradicted + unknown
      in if total \<le> 0 then (''Unknown'', 0)
         else if 0 < contradicted then (''Contradicted'', of_nat contradicted / of_nat total)
         else if unknown = 0 then (''Supported'', 1)
         else if 0 < supported then (''PartiallyVerified'', of_nat supported / of_nat total)
         else (''Unknown'', 0))"

definition reality_ops :: "(rat \<Rightarrow> bytes) \<Rightarrow> bytes \<Rightarrow> batch_result \<Rightarrow> writer_op list" where
  "reality_ops fmt src b =
     (let (v, conf) = aggregateVerdict (batch_supported b) (batch_contradicted b) (batch_unknown b)
      in [BeginObject, Key ''statement'', ValueString (take kSourceRefMaxLen src),
          Key ''claims_parsed'', ValueInt (int (claims_count b)), Key ''status'', ValueString (batch_status b),
          Key ''verdict'', ValueString v, Key ''confidence'', ValueDouble (Some (fmt conf)),
          Key ''results'', Raw (results_json b), EndObject])"

text \<open>The guards that the reports on a text share: a null pointer and the empty text are refused.\<close>

definition with_text ::
  "bool \<Rightarrow> bytes \<Rightarrow> bytes \<Rightarrow> bytes option \<Rightarrow> 's \<Rightarrow> (bytes \<Rightarrow> bytes \<times> 's) \<Rightarrow> bytes \<times> 's" where
  "with_text ready not_ready name txt s report =
     (if \<not> ready then (error_text not_ready, s)
      else case txt of None \<Rightarrow> (error_text (''text is empty [module=ffi, method='' @ name @ '']''), s)
      | Some src \<Rightarrow>
          if src = [] then (error_text (''text is empty [module=ffi, method='' @ name @ '']''), s) else report src)"

definition engine_verify_reality ::
  "(rat \<Rightarrow> bytes) \<Rightarrow> (claim \<Rightarrow> outcome) \<Rightarrow> bool \<Rightarrow> nat \<Rightarrow> bytes option \<Rightarrow> registry \<times> knowledge \<Rightarrow>
   bytes \<times> registry \<times> knowledge" where
  "engine_verify_reality fmt run ready project txt s =
     with_text ready ''not initialized'' ''engine_verify_reality'' txt s
       (\<lambda>src. let (b, s') = verify_claim_batch fmt run project src kSourceKindAiStatement (take kSourceRefMaxLen src) s
              in (out (run_writer (reality_ops fmt src b) new_writer), s'))"

definition review_text :: "(rat \<Rightarrow> bytes) \<Rightarrow> batch_result \<Rightarrow> bytes" where
  "review_text stream b =
     ''{\"claims_parsed\":'' @ to_string_nat (claims_count b) @ '',\"results\":'' @ results_json b @
     '',\"summary\":{\"supported\":'' @ to_string_nat (batch_supported b) @
     '',\"contradicted\":'' @ to_string_nat (batch_contradicted b) @
     '',\"unknown\":'' @ to_string_nat (batch_unknown b) @ '',\"status\":\"'' @ batch_status b @ ''\"'' @
     '',\"verdicts_decided\":'' @ to_string_nat (batch_supported b + batch_contradicted b) @ '',\"trust_score\":'' @
     (if 0 < batch_supported b + batch_contradicted b
      then stream (of_nat (batch_supported b) / of_nat (batch_supported b + batch_contradicted b)) else ''0.0'') @ ''}}''"

definition engine_verify_review ::
  "(rat \<Rightarrow> bytes) \<Rightarrow> (rat \<Rightarrow> bytes) \<Rightarrow> (claim \<Rightarrow> outcome) \<Rightarrow> bool \<Rightarrow> nat \<Rightarrow> bytes option \<Rightarrow> registry \<times> knowledge \<Rightarrow>
   bytes \<times> registry \<times> knowledge" where
  "engine_verify_review fmt stream run ready project txt s =
     with_text ready ''not initialized'' ''engine_verify_review'' txt s
       (\<lambda>src. let (b, s') = verify_claim_batch fmt run project src kSourceKindCodeReview (take kSourceRefMaxLen src) s
              in (review_text stream b, s'))"

text \<open>The score of a batch and of a summary, and its text: \<open>None\<close> where nothing was decided.\<close>

definition trust_ratio :: "nat \<Rightarrow> nat \<Rightarrow> rat option" where
  "trust_ratio supported denom = (if 0 < denom then Some (of_nat supported / of_nat denom) else None)"

section \<open>A summary\<close>

definition summary_score_op :: "(rat \<Rightarrow> bytes) \<Rightarrow> batch_result \<Rightarrow> nat \<Rightarrow> writer_op" where
  "summary_score_op fmt b total_drifts =
     (case trust_ratio (batch_supported b) (batch_supported b + batch_contradicted b + total_drifts) of
        Some q \<Rightarrow> ValueDouble (Some (fmt q))
      | None \<Rightarrow> if 0 < claims_count b then Raw ''0.0'' else Raw ''1.0'')"

definition summary_ops :: "(rat \<Rightarrow> bytes) \<Rightarrow> batch_result \<Rightarrow> drift_item list \<Rightarrow> writer_op list" where
  "summary_ops fmt b drifts =
     [BeginObject, Key ''claims_parsed'', ValueInt (int (claims_count b)), Key ''results'', Raw (results_json b),
      Key ''drifts'', BeginArray] @ concat (map drift_ops drifts) @
     [EndArray, Key ''summary'', BeginObject, Key ''supported'', ValueInt (int (batch_supported b)),
      Key ''contradicted'', ValueInt (int (batch_contradicted b)), Key ''unknown'', ValueInt (int (batch_unknown b)),
      Key ''drifts_found'', ValueInt (int (length drifts)), Key ''status'', ValueString (batch_status b),
      Key ''verdicts_decided'', ValueInt (int (batch_supported b + batch_contradicted b)), Key ''trust_score'',
      summary_score_op fmt b (length drifts), EndObject, EndObject]"

definition all_drifts :: "query_env \<Rightarrow> fact_tables \<Rightarrow> nat \<Rightarrow> drift_item list" where
  "all_drifts env t project =
     detectDocumentationDrift env t project @ detectCapabilityDrift env t project @ detectArchitectureDrift env t project"

definition engine_verify_summary ::
  "(rat \<Rightarrow> bytes) \<Rightarrow> (claim \<Rightarrow> outcome) \<Rightarrow> query_env \<Rightarrow> fact_tables \<Rightarrow> nat \<Rightarrow> bytes option \<Rightarrow> registry \<times> knowledge \<Rightarrow>
   bytes \<times> registry \<times> knowledge" where
  "engine_verify_summary fmt run env t project txt s =
     with_text (has_store env) ''not initialized [module=ffi, method=engine_verify_summary]'' ''engine_verify_summary'' txt s
       (\<lambda>src. let (b, s') = verify_claim_batch fmt run project src kSourceKindAiSummary (take kSourceRefMaxLen src) s
              in (out (run_writer (summary_ops fmt b (all_drifts env t project)) new_writer), s'))"

section \<open>Every declaration\<close>

definition kTrustScorePenalty :: rat where "kTrustScorePenalty = 1 / 10"
definition kDefaultMaxFindings :: int where "kDefaultMaxFindings = 200"
definition kMaxFindingsCap :: int where "kMaxFindingsCap = 2000"

definition findings_limit :: "int \<Rightarrow> int" where
  "findings_limit max_findings =
     (let limit = (if max_findings \<le> 0 then kDefaultMaxFindings else max_findings)
      in if kMaxFindingsCap < limit then kMaxFindingsCap else limit)"

definition listCapabilities :: "query_env \<Rightarrow> fact_tables \<Rightarrow> nat \<Rightarrow> (int \<times> bytes) list" where
  "listCapabilities env t project =
     (if \<not> prepares env ListCapabilities then []
      else rows_read env ListCapabilities
        (map (\<lambda>(i, p, n). (i, n)) (sort_key fst (filter (\<lambda>(i, p, n). p = project) (capabilities t)))))"

definition listContracts :: "query_env \<Rightarrow> fact_tables \<Rightarrow> nat \<Rightarrow> (int \<times> bytes) list" where
  "listContracts env t project =
     (if \<not> prepares env ListContracts then []
      else rows_read env ListContracts
        (map (\<lambda>(i, p, n). (i, n)) (sort_key fst (filter (\<lambda>(i, p, n). p = project) (contracts t)))))"

definition capability_claim :: "int \<times> bytes \<Rightarrow> claim" where
  "capability_claim cap =
     \<lparr>claim_kind = CapabilityExists, claim_subject = snd cap, claim_predicate = ''implemented_by'', claim_object = [],
      claim_scope = ''repository'', claim_source_kind = ''capability'', claim_source_ref = to_string_int (fst cap)\<rparr>"

definition contract_claim :: "int \<times> bytes \<Rightarrow> claim" where
  "contract_claim ct =
     \<lparr>claim_kind = ContractHolds, claim_subject = snd ct, claim_predicate = ''holds'', claim_object = [],
      claim_scope = ''repository'', claim_source_kind = ''contract'', claim_source_ref = to_string_int (fst ct)\<rparr>"

text \<open>The variables of the two loops: the counters, what the writer was asked, the rows.\<close>

record integrity_state =
  supported_count :: nat
  contradicted_count :: nat
  unknown_count :: nat
  emitted :: nat
  written :: "writer_op list"
  store :: knowledge

definition entry_ops :: "(rat \<Rightarrow> bytes) \<Rightarrow> bytes \<Rightarrow> bytes \<Rightarrow> rat \<Rightarrow> writer_op list" where
  "entry_ops fmt rule desc conf =
     [BeginObject, Key ''type'', ValueString rule, Key ''description'', ValueString desc,
      Key ''confidence'', ValueDouble (Some (fmt conf)), EndObject]"

definition emit_entry :: "int \<Rightarrow> writer_op list \<Rightarrow> integrity_state \<Rightarrow> integrity_state" where
  "emit_entry limit ops st =
     (if int (emitted st) < limit then st\<lparr>emitted := emitted st + 1, written := written st @ ops\<rparr> else st)"

definition count_verdict :: "verdict \<Rightarrow> integrity_state \<Rightarrow> integrity_state" where
  "count_verdict v st =
     (case v of Supported \<Rightarrow> st\<lparr>supported_count := supported_count st + 1\<rparr>
      | Contradicted \<Rightarrow> st\<lparr>contradicted_count := contradicted_count st + 1\<rparr>
      | Unknown \<Rightarrow> st\<lparr>unknown_count := unknown_count st + 1\<rparr>)"

definition judged_description :: "bytes \<Rightarrow> bytes \<Rightarrow> evidence_record \<Rightarrow> bytes" where
  "judged_description kind name r = kind @ '' '' @ in_quotes name @ '' '' @ verdictName (rec_verdict r) @ '': '' @ rec_detail r"

text \<open>One declaration: nothing but the counter for a supported one, a row and an entry for another.\<close>

definition check_declared ::
  "(rat \<Rightarrow> bytes) \<Rightarrow> int \<Rightarrow> nat \<Rightarrow> (claim \<Rightarrow> evidence_record) \<Rightarrow> bytes \<Rightarrow> bytes \<Rightarrow> (int \<times> bytes \<Rightarrow> claim) \<Rightarrow>
   int \<times> bytes \<Rightarrow> integrity_state \<Rightarrow> integrity_state" where
  "check_declared fmt limit project verify rule kind mk row st =
     (let r = verify (mk row); st1 = count_verdict (rec_verdict r) st
      in if rec_verdict r = Supported then st1
         else
           let severity = (if rec_verdict r = Contradicted then 1 else 0); desc = judged_description kind (snd row) r
           in emit_entry limit (entry_ops fmt rule desc (rec_confidence r))
                (st1\<lparr>store := insertFinding project rule severity 0 desc (rec_confidence r) (store st1)\<rparr>))"

definition orphan_entry_ops :: "(rat \<Rightarrow> bytes) \<Rightarrow> code_finding \<Rightarrow> writer_op list" where
  "orphan_entry_ops fmt f =
     [BeginObject, Key ''type'', ValueString ''DeadCodeInspector'', Key ''rule'', ValueString (cf_type f),
      Key ''description'', ValueString (cf_description f), Key ''confidence'', ValueDouble (Some (fmt (cf_confidence f))),
      EndObject]"

definition trust_score :: "nat \<Rightarrow> rat" where
  "trust_score bad = (let q = 1 - kTrustScorePenalty * of_nat bad in if q < 0 then 0 else q)"

definition integrity_loops ::
  "(rat \<Rightarrow> bytes) \<Rightarrow> int \<Rightarrow> nat \<Rightarrow> (claim \<Rightarrow> evidence_record) \<Rightarrow> (int \<times> bytes) list \<Rightarrow> (int \<times> bytes) list \<Rightarrow>
   code_finding list \<Rightarrow> knowledge \<Rightarrow> integrity_state" where
  "integrity_loops fmt limit project verify caps cts fs k =
     fold (\<lambda>f. emit_entry limit (orphan_entry_ops fmt f)) fs
       (fold (check_declared fmt limit project verify ''ContractVerifier'' ''Contract'' contract_claim) cts
         (fold (check_declared fmt limit project verify ''CapabilityVerifier'' ''Capability'' capability_claim) caps
           \<lparr>supported_count = 0, contradicted_count = 0, unknown_count = 0, emitted = 0, written = [], store = k\<rparr>))"

definition integrity_tail :: "(rat \<Rightarrow> bytes) \<Rightarrow> int \<Rightarrow> nat \<Rightarrow> integrity_state \<Rightarrow> writer_op list" where
  "integrity_tail fmt limit orphans st =
     [EndArray, Key ''total'', ValueInt (int (supported_count st + contradicted_count st + unknown_count st + orphans)),
      Key ''truncated'', ValueBool (emitted st < contradicted_count st + unknown_count st + orphans),
      Key ''limit'', ValueInt limit,
      Key ''trust_score'', ValueDouble (Some (fmt (trust_score (contradicted_count st + unknown_count st)))),
      Key ''supported'', ValueInt (int (supported_count st)), Key ''contradicted'', ValueInt (int (contradicted_count st)),
      Key ''unknown'', ValueInt (int (unknown_count st)), Key ''orphans'', ValueInt (int orphans), EndObject]"

definition engine_verify_integrity ::
  "(rat \<Rightarrow> bytes) \<Rightarrow> query_env \<Rightarrow> orders \<Rightarrow> code_tables \<Rightarrow> nat \<Rightarrow> int \<Rightarrow> knowledge \<Rightarrow> bytes \<times> knowledge" where
  "engine_verify_integrity fmt env ord t project max_findings k =
     (if \<not> has_store env then (error_text ''not initialized'', k)
      else
        let limit = findings_limit max_findings; fs = inspect env ord t project;
            st = integrity_loops fmt limit project (verify_fresh env (facts t) project)
              (listCapabilities env (facts t) project) (listContracts env (facts t) project) fs k
        in (out (run_writer ([BeginObject, Key ''findings'', BeginArray] @ written st @
              integrity_tail fmt limit (length fs) st) new_writer), store st))"

section \<open>Hard drift of declarations\<close>

text \<open>\<open>NOT EXISTS\<close> an entity of the project with the name that is the target of any relation.\<close>

definition has_incoming :: "fact_tables \<Rightarrow> nat \<Rightarrow> bytes \<Rightarrow> bool" where
  "has_incoming t project name \<longleftrightarrow>
     list_ex (\<lambda>e. fe_project e = project \<and> fe_name e = name \<and> list_ex (\<lambda>r. fr_target r = fe_id e) (relations t)) (entities t)"

definition missing_capabilities :: "fact_tables \<Rightarrow> nat \<Rightarrow> (int \<times> bytes) list" where
  "missing_capabilities t project =
     map (\<lambda>(i, p, n). (i, n)) (filter (\<lambda>(i, p, n). p = project \<and> \<not> has_incoming t project n) (capabilities t))"

text \<open>The columns of the table \<open>contract\<close> in the schema, and those that the statement names.\<close>

definition contract_columns :: "bytes list" where
  "contract_columns = [''id'', ''project_id'', ''name'', ''origin'', ''claim_text'', ''source_file'', ''source_line'']"

definition broken_contract_columns :: "bytes list" where
  "broken_contract_columns = [''id'', ''name'', ''claim_text'', ''file_path'', ''project_id'']"

definition contract_statement_prepares :: "query_env \<Rightarrow> bool" where
  "contract_statement_prepares env \<longleftrightarrow>
     prepares env DeclaredContracts \<and> set broken_contract_columns \<subseteq> set contract_columns"

definition contains_any :: "bytes list \<Rightarrow> bytes \<Rightarrow> bool" where
  "contains_any needles s \<longleftrightarrow> list_ex (\<lambda>n. str_contains n s) needles"

definition contract_keywords :: "bytes \<Rightarrow> bytes list" where
  "contract_keywords cname =
     (if contains_any [''memory'', ''Memory'', ''free'', ''Free'', ''alloc'', ''Alloc''] cname
      then [''%free%'', ''%alloc%'', ''%unique_ptr%'', ''%shared_ptr%'']
      else if contains_any [''thread'', ''Thread'', ''safe'', ''Safe'', ''concurrent'', ''Concurrent'', ''lock'', ''Lock''] cname
      then [''%Mutex%'', ''%Lock%'', ''%RwLock%'', ''%Atomic%'']
      else replicate 4 (percent # cname @ [percent]))"

definition contract_enforced :: "query_env \<Rightarrow> fact_tables \<Rightarrow> nat \<Rightarrow> bytes \<Rightarrow> bool" where
  "contract_enforced env t project cname =
     (let kws = contract_keywords cname
      in prepares env (ContractProbe kws) \<and>
         rows_read env (ContractProbe kws)
           [list_ex (\<lambda>e. fe_project e = project \<and> list_ex (\<lambda>kw. like_match None kw (fe_name e)) kws) (entities t)] = [True])"

definition hard_drift_ops :: "bytes \<Rightarrow> bytes \<Rightarrow> int \<Rightarrow> bytes \<Rightarrow> bytes \<Rightarrow> writer_op list" where
  "hard_drift_ops kind id_key i name detail =
     [BeginObject, Key ''type'', ValueString kind, Key ''severity'', ValueInt 2, Key id_key, ValueInt i,
      Key ''subject'', ValueString name, Key ''detail'', ValueString detail, EndObject]"

definition missing_detail :: "bytes \<Rightarrow> bytes" where
  "missing_detail name = ''Capability '' @ in_quotes name @ '' declared in README but no implementing entity with callers''"

definition broken_detail :: "bytes \<Rightarrow> bytes \<Rightarrow> bytes" where
  "broken_detail name file_path = ''Contract '' @ in_quotes name @ '' declared in '' @ file_path @ '' but no enforcing code detected''"

definition missing_rows :: "query_env \<Rightarrow> fact_tables \<Rightarrow> nat \<Rightarrow> (int \<times> bytes) list" where
  "missing_rows env t project =
     (if prepares env MissingCapabilities then rows_read env MissingCapabilities (missing_capabilities t project) else [])"

text \<open>The rows of the contracts with a fourth column \<open>file_path\<close>, which the table does not have; its
  value in each row is an argument.\<close>

definition broken_rows :: "query_env \<Rightarrow> (int \<Rightarrow> bytes) \<Rightarrow> fact_tables \<Rightarrow> nat \<Rightarrow> (int \<times> bytes \<times> bytes) list" where
  "broken_rows env file_path t project =
     (if contract_statement_prepares env
      then filter (\<lambda>(i, n, f). \<not> contract_enforced env t project n)
        (rows_read env DeclaredContracts
          (map (\<lambda>(i, p, n). (i, n, file_path i)) (filter (\<lambda>(i, p, n). p = project) (contracts t))))
      else [])"

definition engine_detect_drift ::
  "query_env \<Rightarrow> (int \<Rightarrow> bytes) \<Rightarrow> fact_tables \<Rightarrow> nat \<Rightarrow> knowledge \<Rightarrow> bytes \<times> knowledge" where
  "engine_detect_drift env file_path t project k =
     (if \<not> has_store env then (error_text ''not initialized'', k)
      else if \<not> has_handle env then (error_text ''db handle null [module=ffi, method=engine_detect_drift]'', k)
      else
        let missing = missing_rows env t project; broken = broken_rows env file_path t project;
            k1 = fold (\<lambda>(i, n). insertFinding project ''MissingCapability'' 2 0 (missing_detail n) (9 / 10)) missing k;
            k2 = fold (\<lambda>(i, n, f). insertFinding project ''BrokenContract'' 2 0 (broken_detail n f) (8 / 10)) broken k1
        in (''{\"drifts\":['' @
            join '','' (map (\<lambda>ops. out (run_writer ops new_writer))
              (map (\<lambda>(i, n). hard_drift_ops ''MissingCapability'' ''capability_id'' i n (missing_detail n)) missing @
               map (\<lambda>(i, n, f). hard_drift_ops ''BrokenContract'' ''contract_id'' i n (broken_detail n f)) broken)) @
            ''],\"drifts_found\":'' @ to_string_nat (length missing + length broken) @ ''}'', k2))"

section \<open>The status of the registry\<close>

text \<open>\<open>handle\<close> is \<open>None\<close> for a null handle, \<open>Some env\<close> for an engine.  The function reads \<open>ctx->store\<close>
  without asking whether \<open>ctx\<close> is null; that has no value.\<close>

definition status_ops :: "registry \<Rightarrow> bool \<Rightarrow> nat \<times> nat \<Rightarrow> writer_op list" where
  "status_ops reg backend_ready counts =
     (let supported = supported_claim_types reg
      in [BeginObject, Key ''registry_empty'', ValueBool (length reg = 0), Key ''verifier_count'', ValueInt (int (length reg))] @
         string_list ''verifier_names'' (verifier_names reg) @
         string_list ''supported_claim_types'' (map claimTypeWireName supported) @
         string_list ''unsupported_claim_types'' (map claimTypeWireName (filter (\<lambda>k. k \<notin> set supported) all_public_claim_types)) @
         [Key ''evidence_backend_ready'', ValueBool backend_ready, Key ''entity_count'', ValueInt (int (fst counts)),
          Key ''relation_count'', ValueInt (int (snd counts)), EndObject])"

definition engine_get_verifier_registry_status ::
  "query_env option \<Rightarrow> fact_tables \<Rightarrow> nat \<Rightarrow> registry \<Rightarrow> (bytes \<times> registry) option" where
  "engine_get_verifier_registry_status handle t project reg =
     (let reg' = ensureDefaultVerifiers reg
      in case handle of None \<Rightarrow> None
         | Some env \<Rightarrow>
             let probed = has_store env \<and> project \<noteq> 0;
                 backend_ready = probed \<and> evidence_backend_ready env t project;
                 counts = (if probed then backend_counts env t project else (0, 0))
             in Some (out (run_writer (status_ops reg' backend_ready counts) new_writer), reg'))"

section \<open>The verdict on a statement\<close>

lemma verdict_set_cases:
  fixes vs :: "verdict set"
  shows "vs \<subseteq> {Unknown} \<or> vs = {Supported} \<or> vs = {Supported, Unknown} \<or> Contradicted \<in> vs"
proof -
  have all: "v = Supported \<or> v = Contradicted \<or> v = Unknown" for v by (cases v) simp_all
  show ?thesis
  proof (cases "Contradicted \<in> vs")
    case False
    then have "vs \<subseteq> {Supported, Unknown}" using all by blast
    then have "vs \<in> Pow {Supported, Unknown}" by simp
    then have "vs \<in> {{}, {Supported}, {Unknown}, {Supported, Unknown}}" by (simp only: Pow_insert Pow_empty) blast
    then show ?thesis by (elim insertE emptyE) simp_all
  qed simp
qed

lemma with_text_ready: "src \<noteq> [] \<Longrightarrow> with_text True not_ready name (Some src) s report = report src"
  by (simp add: with_text_def)

lemma batch_fields:
  "batch_supported (batch_of cs rs) = tally Supported rs" "batch_contradicted (batch_of cs rs) = tally Contradicted rs"
  "batch_unknown (batch_of cs rs) = tally Unknown rs" "claims_count (batch_of cs rs) = length cs"
  "results_json (batch_of cs rs) = ''['' @ join '','' (map vr_json rs) @ '']''"
  by (simp_all add: batch_of_def)

lemma tally_zero: "tally v rs = 0 \<longleftrightarrow> v \<notin> vr_verdict ` set rs"
  using tally_pos [of v rs] by auto

lemma aggregate_exact:
  assumes "vs = vr_verdict ` set rs" and "aggregateVerdict (tally Supported rs) (tally Contradicted rs) (tally Unknown rs) = (v, conf)"
  shows "(v = ''Contradicted'' \<longleftrightarrow> Contradicted \<in> vs) \<and> (v = ''Supported'' \<longleftrightarrow> vs = {Supported}) \<and>
    (v = ''PartiallyVerified'' \<longleftrightarrow> vs = {Supported, Unknown}) \<and> (v = ''Unknown'' \<longleftrightarrow> vs \<subseteq> {Unknown})"
    and "0 \<le> conf \<and> conf \<le> 1 \<and> (conf = 0 \<longleftrightarrow> v = ''Unknown'')"
proof -
  define s c u where "s = tally Supported rs" and "c = tally Contradicted rs" and "u = tally Unknown rs"
  have zero: "s = 0 \<longleftrightarrow> Supported \<notin> vs" "c = 0 \<longleftrightarrow> Contradicted \<notin> vs" "u = 0 \<longleftrightarrow> Unknown \<notin> vs"
    by (simp_all add: s_def c_def u_def tally_zero assms(1))
  have agg: "aggregateVerdict s c u = (v, conf)" using assms(2) by (simp add: s_def c_def u_def)
  consider "vs \<subseteq> {Unknown}" | "vs = {Supported}" | "vs = {Supported, Unknown}" | "Contradicted \<in> vs"
    using verdict_set_cases by blast
  then show "(v = ''Contradicted'' \<longleftrightarrow> Contradicted \<in> vs) \<and> (v = ''Supported'' \<longleftrightarrow> vs = {Supported}) \<and>
    (v = ''PartiallyVerified'' \<longleftrightarrow> vs = {Supported, Unknown}) \<and> (v = ''Unknown'' \<longleftrightarrow> vs \<subseteq> {Unknown})"
    by cases (use agg zero in \<open>auto simp: aggregateVerdict_def Let_def split: if_splits\<close>)
  show "0 \<le> conf \<and> conf \<le> 1 \<and> (conf = 0 \<longleftrightarrow> v = ''Unknown'')"
    using agg by (auto simp: aggregateVerdict_def Let_def split: if_splits)
qed

text \<open>
  (C23) The report on a statement says exactly what the verdicts on its claims allow: Contradicted when
  one of them is contradicted, Supported when there are claims and all are supported, PartiallyVerified
  when some are supported and the rest unknown, and Unknown otherwise; the confidence lies between 0 and
  1 and is 0 exactly for Unknown; what is stored is what the verification of the claims stores.
\<close>

theorem reality_verdict_exact:
  assumes "src \<noteq> []"
    and "verify_claims fmt run project (parse src ''ai_statement'' (take 200 src)) s = (rs, s')"
    and "vs = vr_verdict ` set rs"
  shows "\<exists>v conf. engine_verify_reality fmt run True project (Some src) s =
      (out (run_writer [BeginObject, Key ''statement'', ValueString (take 200 src), Key ''claims_parsed'', ValueInt (int (length rs)),
         Key ''status'', ValueString (batch_status (batch_of (parse src ''ai_statement'' (take 200 src)) rs)),
         Key ''verdict'', ValueString v, Key ''confidence'', ValueDouble (Some (fmt conf)),
         Key ''results'', Raw (''['' @ join '','' (map vr_json rs) @ '']''), EndObject] new_writer), s') \<and>
    (v = ''Contradicted'' \<longleftrightarrow> Contradicted \<in> vs) \<and> (v = ''Supported'' \<longleftrightarrow> vs = {Supported}) \<and>
    (v = ''PartiallyVerified'' \<longleftrightarrow> vs = {Supported, Unknown}) \<and> (v = ''Unknown'' \<longleftrightarrow> vs \<subseteq> {Unknown}) \<and>
    0 \<le> conf \<and> conf \<le> 1 \<and> (conf = 0 \<longleftrightarrow> v = ''Unknown'')"
proof -
  define cs where "cs = parse src ''ai_statement'' (take 200 src)"
  obtain v conf where agg: "aggregateVerdict (tally Supported rs) (tally Contradicted rs) (tally Unknown rs) = (v, conf)"
    by (cases "aggregateVerdict (tally Supported rs) (tally Contradicted rs) (tally Unknown rs)")
  have len: "length cs = length rs" using verify_claims_length [of fmt run project cs s] assms(2) by (simp add: cs_def)
  have "engine_verify_reality fmt run True project (Some src) s =
      (out (run_writer [BeginObject, Key ''statement'', ValueString (take 200 src), Key ''claims_parsed'', ValueInt (int (length rs)),
         Key ''status'', ValueString (batch_status (batch_of cs rs)), Key ''verdict'', ValueString v, Key ''confidence'',
         ValueDouble (Some (fmt conf)), Key ''results'', Raw (''['' @ join '','' (map vr_json rs) @ '']''), EndObject] new_writer), s')"
  proof -
    have "verify_claim_batch fmt run project src kSourceKindAiStatement (take kSourceRefMaxLen src) s = (batch_of cs rs, s')"
      unfolding verify_claim_batch_def kSourceKindAiStatement_def kSourceRefMaxLen_def cs_def [symmetric] Let_def
      using assms(2) by (simp only: cs_def [symmetric] prod.case)
    then have "engine_verify_reality fmt run True project (Some src) s =
        (\<lambda>(b, s'). (out (run_writer (reality_ops fmt src b) new_writer), s')) (batch_of cs rs, s')"
      unfolding engine_verify_reality_def with_text_ready [OF assms(1)] Let_def by (rule arg_cong)
    then show ?thesis unfolding prod.case reality_ops_def batch_fields agg Let_def len kSourceRefMaxLen_def .
  qed
  from conjI [OF this [unfolded cs_def] conjI [OF aggregate_exact [OF assms(3) agg]]]
  show ?thesis unfolding conj_assoc by (intro exI [of _ v] exI [of _ conf])
qed

theorem reality_verdict_exact_witness:
  "snd (engine_verify_reality (\<lambda>q. ''0.5'') demo_run True 1 (Some ''fully zero-copy'') ([], empty_knowledge)) =
   snd (verify_claims (\<lambda>q. ''0.5'') demo_run 1 (parse ''fully zero-copy'' ''ai_statement'' (take 200 ''fully zero-copy'')) ([], empty_knowledge))"
proof -
  have ne: "''fully zero-copy'' \<noteq> []" by simp
  from reality_verdict_exact [OF ne prod.collapse [symmetric] refl, of "\<lambda>q. ''0.5''" demo_run 1 "([], empty_knowledge)"]
  obtain ans where "engine_verify_reality (\<lambda>q. ''0.5'') demo_run True 1 (Some ''fully zero-copy'') ([], empty_knowledge) =
      (ans, snd (verify_claims (\<lambda>q. ''0.5'') demo_run 1 (parse ''fully zero-copy'' ''ai_statement'' (take 200 ''fully zero-copy'')) ([], empty_knowledge)))"
    by (elim exE conjE) (rule that)
  then show ?thesis by (simp only: snd_conv)
qed

section \<open>The report on integrity\<close>

text \<open>What the two loops judge, and what of it goes into the report and the findings.\<close>

definition judged :: "(claim \<Rightarrow> evidence_record) \<Rightarrow> bytes \<Rightarrow> bytes \<Rightarrow> (int \<times> bytes \<Rightarrow> claim) \<Rightarrow> (int \<times> bytes) list \<Rightarrow>
    (bytes \<times> bytes \<times> evidence_record) list" where
  "judged verify rule kind mk rows =
     map (\<lambda>row. (rule, judged_description kind (snd row) (verify (mk row)), verify (mk row))) rows"

definition refuted :: "(bytes \<times> bytes \<times> evidence_record) list \<Rightarrow> (bytes \<times> bytes \<times> evidence_record) list" where
  "refuted js = filter (\<lambda>(rule, desc, r). rec_verdict r \<noteq> Supported) js"

definition refuted_entry :: "(rat \<Rightarrow> bytes) \<Rightarrow> bytes \<times> bytes \<times> evidence_record \<Rightarrow> writer_op list" where
  "refuted_entry fmt j = (case j of (rule, desc, r) \<Rightarrow> entry_ops fmt rule desc (rec_confidence r))"

definition store_refuted :: "nat \<Rightarrow> bytes \<times> bytes \<times> evidence_record \<Rightarrow> knowledge \<Rightarrow> knowledge" where
  "store_refuted project j k =
     (case j of (rule, desc, r) \<Rightarrow>
        insertFinding project rule (if rec_verdict r = Contradicted then 1 else 0) 0 desc (rec_confidence r) k)"

definition with_verdict :: "verdict \<Rightarrow> (bytes \<times> bytes \<times> evidence_record) list \<Rightarrow> nat" where
  "with_verdict v js = length (filter (\<lambda>(rule, desc, r). rec_verdict r = v) js)"

definition accounts_for ::
  "(rat \<Rightarrow> bytes) \<Rightarrow> int \<Rightarrow> nat \<Rightarrow> knowledge \<Rightarrow> (bytes \<times> bytes \<times> evidence_record) list \<Rightarrow> writer_op list list \<Rightarrow>
   integrity_state \<Rightarrow> bool" where
  "accounts_for fmt limit project k js entries st \<longleftrightarrow>
     supported_count st = with_verdict Supported js \<and> contradicted_count st = with_verdict Contradicted js \<and>
     unknown_count st = with_verdict Unknown js \<and> emitted st = min (nat limit) (length entries) \<and>
     written st = concat (take (nat limit) entries) \<and> store st = fold (store_refuted project) (refuted js) k"

lemma emit_entry_accounts:
  assumes "accounts_for fmt limit project k js entries st"
  shows "accounts_for fmt limit project k js (entries @ [ops]) (emit_entry limit ops st)"
proof (cases "length entries < nat limit")
  case True
  then show ?thesis using assms by (auto simp: accounts_for_def emit_entry_def)
next
  case False
  then show ?thesis using assms by (auto simp: accounts_for_def emit_entry_def)
qed

lemma check_declared_accounts:
  assumes "accounts_for fmt limit project k js (map (refuted_entry fmt) (refuted js)) st"
  shows "accounts_for fmt limit project k (js @ judged verify rule kind mk [row])
    (map (refuted_entry fmt) (refuted (js @ judged verify rule kind mk [row])))
    (check_declared fmt limit project verify rule kind mk row st)"
proof -
  define r where "r = verify (mk row)"
  define desc where "desc = judged_description kind (snd row) r"
  have j: "judged verify rule kind mk [row] = [(rule, desc, r)]" by (simp add: judged_def desc_def r_def)
  show ?thesis
  proof (cases "rec_verdict r = Supported")
    case True
    then show ?thesis using assms unfolding j
      by (simp add: check_declared_def Let_def r_def [symmetric] count_verdict_def accounts_for_def with_verdict_def refuted_def)
  next
    case False
    define st1 where "st1 = (count_verdict (rec_verdict r) st)
      \<lparr>store := insertFinding project rule (if rec_verdict r = Contradicted then 1 else 0) 0 desc (rec_confidence r) (store st)\<rparr>"
    have "store (count_verdict (rec_verdict r) st) = store st" by (simp add: count_verdict_def split: verdict.splits)
    then have step: "check_declared fmt limit project verify rule kind mk row st = emit_entry limit (entry_ops fmt rule desc (rec_confidence r)) st1"
      using False by (simp add: check_declared_def Let_def r_def [symmetric] desc_def [symmetric] st1_def)
    have "accounts_for fmt limit project k (js @ [(rule, desc, r)]) (map (refuted_entry fmt) (refuted js)) st1"
      using assms False
      by (cases "rec_verdict r")
        (simp_all add: st1_def accounts_for_def count_verdict_def with_verdict_def refuted_def store_refuted_def)
    from emit_entry_accounts [OF this, of "entry_ops fmt rule desc (rec_confidence r)"] False show ?thesis
      unfolding j step by (simp add: refuted_def refuted_entry_def)
  qed
qed

lemma declared_loop_accounts:
  assumes "accounts_for fmt limit project k js (map (refuted_entry fmt) (refuted js)) st"
  shows "accounts_for fmt limit project k (js @ judged verify rule kind mk rows)
    (map (refuted_entry fmt) (refuted (js @ judged verify rule kind mk rows)))
    (fold (check_declared fmt limit project verify rule kind mk) rows st)"
  using assms
proof (induction rows arbitrary: js st)
  case (Cons row rows)
  from Cons.IH [OF check_declared_accounts [OF Cons.prems]] show ?case by (simp add: judged_def)
qed (simp add: judged_def)

lemma orphan_loop_accounts:
  assumes "accounts_for fmt limit project k js entries st"
  shows "accounts_for fmt limit project k js (entries @ map (orphan_entry_ops fmt) fs)
    (fold (\<lambda>f. emit_entry limit (orphan_entry_ops fmt f)) fs st)"
  using assms
proof (induction fs arbitrary: entries st)
  case (Cons f fs)
  from Cons.IH [OF emit_entry_accounts [OF Cons.prems]] show ?case by simp
qed simp

lemma verdict_partition:
  "with_verdict Supported js + with_verdict Contradicted js + with_verdict Unknown js = length js"
  "with_verdict Contradicted js + with_verdict Unknown js = length (refuted js)"
proof (induction js)
  case (Cons j js)
  { case 1 show ?case using Cons.IH(1) by (cases j; cases "rec_verdict (snd (snd j))") (simp_all add: with_verdict_def) }
  { case 2 show ?case using Cons.IH(2) by (cases j; cases "rec_verdict (snd (snd j))") (simp_all add: with_verdict_def refuted_def) }
qed (simp_all add: with_verdict_def refuted_def)

lemma trust_score_max: "trust_score n = max 0 (1 - of_nat n / 10)"
  by (simp add: trust_score_def kTrustScorePenalty_def Let_def max_def)

lemma findings_limit_bounds: "1 \<le> findings_limit m" "findings_limit m \<le> 2000"
  by (simp_all add: findings_limit_def kDefaultMaxFindings_def kMaxFindingsCap_def Let_def)

text \<open>
  (C22) The report on integrity accounts for every declaration and every finding of the inspector: each
  declared capability and contract is judged by its verifier; the array holds the first entries, up to
  the limit, which lies between 1 and 2000, of those that are not supported followed by the findings of
  the inspector; the totals count all of them, the flag says exactly whether an entry is missing, the
  score is one minus a tenth for each declaration that is not supported, not below 0; and exactly those
  declarations are stored as findings, whether or not they are in the array.
\<close>

theorem integrity_report_exact:
  assumes "has_store env"
    and "js = judged (verify_fresh env (facts t) project) ''CapabilityVerifier'' ''Capability'' capability_claim
        (listCapabilities env (facts t) project) @
      judged (verify_fresh env (facts t) project) ''ContractVerifier'' ''Contract'' contract_claim
        (listContracts env (facts t) project)"
    and "fs = inspect env ord t project"
    and "entries = map (refuted_entry fmt) (refuted js) @ map (orphan_entry_ops fmt) fs"
    and "n = findings_limit max_findings"
  shows "1 \<le> n \<and> n \<le> 2000 \<and> engine_verify_integrity fmt env ord t project max_findings k =
     (out (run_writer ([BeginObject, Key ''findings'', BeginArray] @ concat (take (nat n) entries) @
        [EndArray, Key ''total'', ValueInt (int (length js + length fs)),
         Key ''truncated'', ValueBool (n < int (length entries)), Key ''limit'', ValueInt n,
         Key ''trust_score'', ValueDouble (Some (fmt (max 0 (1 - of_nat (length (refuted js)) / 10)))),
         Key ''supported'', ValueInt (int (with_verdict Supported js)),
         Key ''contradicted'', ValueInt (int (with_verdict Contradicted js)),
         Key ''unknown'', ValueInt (int (with_verdict Unknown js)),
         Key ''orphans'', ValueInt (int (length fs)), EndObject]) new_writer),
      fold (store_refuted project) (refuted js) k)"
proof -
  define st where "st = integrity_loops fmt n project (verify_fresh env (facts t) project)
    (listCapabilities env (facts t) project) (listContracts env (facts t) project) fs k"
  have "accounts_for fmt n project k [] (map (refuted_entry fmt) (refuted []))
      \<lparr>supported_count = 0, contradicted_count = 0, unknown_count = 0, emitted = 0, written = [], store = k\<rparr>"
    by (simp add: accounts_for_def with_verdict_def refuted_def)
  from orphan_loop_accounts [OF declared_loop_accounts [OF declared_loop_accounts [OF this]]]
  have acc: "accounts_for fmt n project k js entries st"
    unfolding st_def integrity_loops_def assms(2,4) append_Nil append_assoc .
  have counts: "supported_count st = with_verdict Supported js" "contradicted_count st = with_verdict Contradicted js"
      "unknown_count st = with_verdict Unknown js"
    using acc by (simp_all add: accounts_for_def)
  have total: "supported_count st + contradicted_count st + unknown_count st + length fs = length js + length fs"
    and bad: "contradicted_count st + unknown_count st = length (refuted js)"
    using acc verdict_partition [of js] by (simp_all add: accounts_for_def)
  have cut: "(emitted st < contradicted_count st + unknown_count st + length fs) = (n < int (length entries))"
    using acc bad findings_limit_bounds(1) [of max_findings] assms(4,5) by (auto simp: accounts_for_def)
  have tail: "integrity_tail fmt n (length fs) st =
      [EndArray, Key ''total'', ValueInt (int (length js + length fs)),
       Key ''truncated'', ValueBool (n < int (length entries)), Key ''limit'', ValueInt n,
       Key ''trust_score'', ValueDouble (Some (fmt (max 0 (1 - of_nat (length (refuted js)) / 10)))),
       Key ''supported'', ValueInt (int (with_verdict Supported js)),
       Key ''contradicted'', ValueInt (int (with_verdict Contradicted js)),
       Key ''unknown'', ValueInt (int (with_verdict Unknown js)),
       Key ''orphans'', ValueInt (int (length fs)), EndObject]"
    unfolding integrity_tail_def cut unfolding total bad trust_score_max unfolding counts by (rule refl)
  have "engine_verify_integrity fmt env ord t project max_findings k =
      (out (run_writer ([BeginObject, Key ''findings'', BeginArray] @ written st @ integrity_tail fmt n (length fs) st) new_writer),
       store st)"
    unfolding engine_verify_integrity_def Let_def st_def assms(5) assms(3) using assms(1) by (simp only: simp_thms if_False)
  moreover have "written st = concat (take (nat n) entries)" "store st = fold (store_refuted project) (refuted js) k"
    using acc by (simp_all add: accounts_for_def)
  ultimately show ?thesis unfolding tail using findings_limit_bounds [of max_findings] assms(5) by (simp only: simp_thms)
qed

definition declared_code :: code_tables where
  "declared_code = \<lparr>facts = demo_tables\<lparr>capabilities := [(5, 1, ''Streaming'')], contracts := []\<rparr>, scopes = [], imports_of = [], module_edges = []\<rparr>"

definition id_orders :: orders where
  "id_orders = \<lparr>order_of_names = id, order_of_pairs = id, order_of_nodes = id\<rparr>"

theorem integrity_report_exact_witness:
  "length (finding_rows (snd (engine_verify_integrity (\<lambda>q. ''0.5'') healthy id_orders declared_code 1 0 empty_knowledge))) = 1"
proof -
  let ?js = "judged (verify_fresh healthy (facts declared_code) 1) ''CapabilityVerifier'' ''Capability'' capability_claim
        (listCapabilities healthy (facts declared_code) 1) @
      judged (verify_fresh healthy (facts declared_code) 1) ''ContractVerifier'' ''Contract'' contract_claim
        (listContracts healthy (facts declared_code) 1)"
  have f: "length (finding_rows (fold (store_refuted 1) (refuted ?js) empty_knowledge)) = 1" by code_simp
  from integrity_report_exact [OF healthy_simps(1) refl refl refl refl, where t = declared_code and project = 1 and
      ord = id_orders and fmt = "\<lambda>q. ''0.5''" and max_findings = 0 and k = empty_knowledge]
  obtain ans where "engine_verify_integrity (\<lambda>q. ''0.5'') healthy id_orders declared_code 1 0 empty_knowledge =
      (ans, fold (store_refuted 1) (refuted ?js) empty_knowledge)"
    by (elim conjE) (rule that)
  then show ?thesis using f by (simp only: snd_conv)
qed

section \<open>The score of a summary\<close>

text \<open>The number that the score op writes.\<close>

definition score_value :: "batch_result \<Rightarrow> nat \<Rightarrow> rat" where
  "score_value b drifts =
     (case trust_ratio (batch_supported b) (batch_supported b + batch_contradicted b + drifts) of Some q \<Rightarrow> q
      | None \<Rightarrow> if 0 < claims_count b then 0 else 1)"

lemma verdict_tally_total:
  "tally Supported rs = 0 \<Longrightarrow> tally Contradicted rs = 0 \<Longrightarrow> tally Unknown rs = length rs"
  using tally_total [of rs] by simp

lemma summary_trust_aux:
  assumes "length cs = length rs"
  shows "0 \<le> score_value (batch_of cs rs) d \<and> score_value (batch_of cs rs) d \<le> 1 \<and>
    (score_value (batch_of cs rs) d = 1 \<longleftrightarrow>
       d = 0 \<and> Contradicted \<notin> vr_verdict ` set rs \<and> (rs = [] \<or> Supported \<in> vr_verdict ` set rs))"
proof -
  define s c where "s = tally Supported rs" and "c = tally Contradicted rs"
  have zero: "Supported \<in> vr_verdict ` set rs \<longleftrightarrow> 0 < s" "Contradicted \<notin> vr_verdict ` set rs \<longleftrightarrow> c = 0"
    using tally_zero [of Supported rs] tally_zero [of Contradicted rs] by (auto simp: s_def c_def)
  have v: "score_value (batch_of cs rs) d = (if 0 < s + c + d then of_nat s / of_nat (s + c + d) else if rs = [] then 1 else 0)"
    using assms by (auto simp: score_value_def trust_ratio_def batch_fields s_def c_def)
  have frac: "0 \<le> (of_nat s :: rat) / of_nat (s + c + d)" "(of_nat s :: rat) / of_nat (s + c + d) \<le> 1"
    and one: "0 < s + c + d \<Longrightarrow> (of_nat s :: rat) / of_nat (s + c + d) = 1 \<longleftrightarrow> c = 0 \<and> d = 0"
    by (auto simp: divide_le_eq eq_divide_eq divide_eq_eq simp flip: of_nat_add)
  have empty: "rs = [] \<Longrightarrow> s = 0 \<and> c = 0" by (simp add: s_def c_def tally_def)
  show ?thesis
  proof (cases "0 < s + c + d")
    case True
    then show ?thesis unfolding v zero using frac one [OF True] empty by auto
  next
    case False
    then show ?thesis unfolding v zero by auto
  qed
qed

text \<open>
  The trust in a summary is a number between 0 and 1 that is 1 only without contradiction: only if
  no claim of the text is contradicted, none of the three detectors reports a drift, and some claim is
  supported or the text has no claim at all; the report lists the results of the claims and the drifts
  of the three detectors.
\<close>

theorem summary_trust:
  assumes "has_store env" and "src \<noteq> []"
    and "verify_claims fmt run project (parse src ''ai_summary'' (take 200 src)) s = (rs, s')"
    and "b = batch_of (parse src ''ai_summary'' (take 200 src)) rs" and "d = length (all_drifts env t project)"
  shows "engine_verify_summary fmt run env t project (Some src) s =
      (out (run_writer (summary_ops fmt b (all_drifts env t project)) new_writer), s') \<and>
    summary_score_op fmt b d \<in> {ValueDouble (Some (fmt (score_value b d))), Raw ''0.0'', Raw ''1.0''} \<and>
    0 \<le> score_value b d \<and> score_value b d \<le> 1 \<and>
    (score_value b d = 1 \<longleftrightarrow> all_drifts env t project = [] \<and> Contradicted \<notin> vr_verdict ` set rs \<and>
       (rs = [] \<or> Supported \<in> vr_verdict ` set rs))"
proof -
  define cs where "cs = parse src ''ai_summary'' (take 200 src)"
  have len: "length cs = length rs" using verify_claims_length [of fmt run project cs s] assms(3) by (simp add: cs_def)
  have "verify_claim_batch fmt run project src kSourceKindAiSummary (take kSourceRefMaxLen src) s = (b, s')"
    unfolding verify_claim_batch_def kSourceKindAiSummary_def kSourceRefMaxLen_def cs_def [symmetric] Let_def assms(4)
    using assms(3) by (simp only: cs_def [symmetric] prod.case)
  then have "engine_verify_summary fmt run env t project (Some src) s =
      (\<lambda>(b, s'). (out (run_writer (summary_ops fmt b (all_drifts env t project)) new_writer), s')) (b, s')"
    unfolding engine_verify_summary_def with_text_ready [OF assms(2)] Let_def eqTrueI [OF assms(1)] by (rule arg_cong)
  then have e: "engine_verify_summary fmt run env t project (Some src) s =
      (out (run_writer (summary_ops fmt b (all_drifts env t project)) new_writer), s')"
    unfolding prod.case .
  have op: "summary_score_op fmt b d \<in> {ValueDouble (Some (fmt (score_value b d))), Raw ''0.0'', Raw ''1.0''}"
    by (simp add: summary_score_op_def score_value_def split: option.splits)
  have "d = 0 \<longleftrightarrow> all_drifts env t project = []" by (simp add: assms(5))
  with summary_trust_aux [OF len, of d] e op show ?thesis unfolding assms(4) cs_def [symmetric] by (simp only: simp_thms)
qed

theorem summary_trust_witness:
  "snd (engine_verify_summary (\<lambda>q. ''0.5'') demo_run healthy demo_tables 1 (Some ''fully zero-copy'') ([], empty_knowledge)) =
   snd (verify_claims (\<lambda>q. ''0.5'') demo_run 1 (parse ''fully zero-copy'' ''ai_summary'' (take 200 ''fully zero-copy'')) ([], empty_knowledge))"
proof -
  have ne: "''fully zero-copy'' \<noteq> []" by simp
  from summary_trust [OF healthy_simps(1) ne prod.collapse [symmetric] refl refl, where fmt = "\<lambda>q. ''0.5''" and run = demo_run and project = 1 and
      s = "([], empty_knowledge)" and t = demo_tables]
  obtain ans where "engine_verify_summary (\<lambda>q. ''0.5'') demo_run healthy demo_tables 1 (Some ''fully zero-copy'') ([], empty_knowledge) =
      (ans, snd (verify_claims (\<lambda>q. ''0.5'') demo_run 1 (parse ''fully zero-copy'' ''ai_summary'' (take 200 ''fully zero-copy'')) ([], empty_knowledge)))"
    by (elim exE conjE) (rule that)
  then show ?thesis by (simp only: snd_conv)
qed

section \<open>Hard drift, and what it does not see\<close>

lemma contract_statement_never_prepares: "\<not> contract_statement_prepares env"
  by (simp add: contract_statement_prepares_def broken_contract_columns_def contract_columns_def)

definition missing_json :: "int \<times> bytes \<Rightarrow> json" where
  "missing_json c = JObject [(''type'', JString ''MissingCapability''), (''severity'', json_int 2), (''capability_id'', json_int (fst c)),
     (''subject'', JString (snd c)), (''detail'', JString (missing_detail (snd c)))]"

lemma missing_render:
  "out (run_writer (hard_drift_ops ''MissingCapability'' ''capability_id'' i n (missing_detail n)) new_writer) = render (missing_json (i, n))"
proof -
  have "value_ops (missing_json (i, n)) = hard_drift_ops ''MissingCapability'' ''capability_id'' i n (missing_detail n)"
    by (simp add: missing_json_def hard_drift_ops_def)
  moreover have "whole_numbers (missing_json (i, n))" by (simp add: missing_json_def)
  ultimately show ?thesis by (metis write_render)
qed

text \<open>
  The report on hard drift lists exactly the declared capabilities of the project without an entity
  of that very name that is the target of a relation, one stored finding for each; contracts play no
  part: their statement names a column that the table does not have, so it is never prepared, and no
  contract is reported as broken whatever the code holds.
\<close>

theorem hard_drift_exact:
  assumes "has_store env" and "has_handle env" and "prepares env MissingCapabilities" and "stops_after env MissingCapabilities = None"
  shows "engine_detect_drift env file_path t project k =
     (render (JObject [(''drifts'', JArray (map missing_json (missing_capabilities t project))),
        (''drifts_found'', json_nat (length (missing_capabilities t project)))]),
      fold (\<lambda>(i, n). insertFinding project ''MissingCapability'' 2 0 (missing_detail n) (9 / 10)) (missing_capabilities t project) k) \<and>
    ((i, n) \<in> set (missing_capabilities t project) \<longleftrightarrow> (i, project, n) \<in> set (capabilities t) \<and>
       \<not> (\<exists>e r. e \<in> set (project_entities t project) \<and> fe_name e = n \<and> r \<in> set (relations t) \<and> fr_target r = fe_id e))"
proof -
  have broken: "broken_rows env file_path t project = []"
    by (simp only: broken_rows_def contract_statement_never_prepares if_False)
  have missing: "missing_rows env t project = missing_capabilities t project"
    using assms(3,4) by (simp add: missing_rows_def rows_read_def)
  have texts: "map (\<lambda>ops. out (run_writer ops new_writer))
      (map (\<lambda>(i, n). hard_drift_ops ''MissingCapability'' ''capability_id'' i n (missing_detail n)) rows) = map (\<lambda>c. render (missing_json c)) rows" for rows
    by (induction rows) (auto simp: missing_render)
  have "engine_detect_drift env file_path t project k =
     (''{\"drifts\":['' @ join '','' (map (\<lambda>c. render (missing_json c)) (missing_capabilities t project)) @
        ''],\"drifts_found\":'' @ to_string_nat (length (missing_capabilities t project)) @ ''}'',
      fold (\<lambda>(i, n). insertFinding project ''MissingCapability'' 2 0 (missing_detail n) (9 / 10)) (missing_capabilities t project) k)"
    unfolding engine_detect_drift_def Let_def broken missing eqTrueI [OF assms(1)] eqTrueI [OF assms(2)] not_True_eq_False if_False
      list.map append_Nil2 texts fold_simps list.size add_0_right id_apply ..
  moreover have "render (JObject [(''drifts'', JArray (map missing_json (missing_capabilities t project))),
        (''drifts_found'', json_nat (length (missing_capabilities t project)))]) =
      ''{\"drifts\":['' @ join '','' (map (\<lambda>c. render (missing_json c)) (missing_capabilities t project)) @
        ''],\"drifts_found\":'' @ to_string_nat (length (missing_capabilities t project)) @ ''}''"
    by (simp add: render_member_def quoted_def comp_def) (simp add: jsonEscapeString_def esc_char_def)
  moreover have "(i, n) \<in> set (missing_capabilities t project) \<longleftrightarrow> (i, project, n) \<in> set (capabilities t) \<and>
       \<not> (\<exists>e r. e \<in> set (project_entities t project) \<and> fe_name e = n \<and> r \<in> set (relations t) \<and> fr_target r = fe_id e)"
    by (auto simp: missing_capabilities_def has_incoming_def list_ex_iff project_entities_def image_iff)
  ultimately show ?thesis by (simp only: simp_thms)
qed

theorem hard_drift_exact_witness:
  "(5, ''IncrementalIndex'') \<in> set (missing_capabilities demo_tables 1)"
proof -
  have "list_all (\<lambda>e. fe_name e \<noteq> ''IncrementalIndex'') (project_entities demo_tables 1)" by code_simp
  then have "\<not> (\<exists>e r. e \<in> set (project_entities demo_tables 1) \<and> fe_name e = ''IncrementalIndex'' \<and>
      r \<in> set (relations demo_tables) \<and> fr_target r = fe_id e)"
    unfolding list_all_iff by metis
  moreover have "(5, 1, ''IncrementalIndex'') \<in> set (capabilities demo_tables)" by (simp add: demo_tables_def)
  ultimately show ?thesis
    using hard_drift_exact [of healthy "\<lambda>_. []" demo_tables 1 empty_knowledge 5 "''IncrementalIndex''"] by simp
qed

text \<open>
  The two answers on a declared capability differ: the verifier supports it through an entity
  with another spelling of the name that is called, while the report on hard drift calls it missing.
\<close>

theorem hard_drift_contradicts_verifier:
  "rec_verdict (capability_verify healthy demo_tables 1 (subject_claim CapabilityExists ''IncrementalIndex'')) = Supported \<and>
   missing_rows healthy demo_tables 1 = [(5, ''IncrementalIndex'')]"
  by code_simp

section \<open>The status of the registry is exact\<close>

definition status_json :: "bool \<Rightarrow> nat \<times> nat \<Rightarrow> json" where
  "status_json backend_ready counts = JObject
     [(''registry_empty'', JBool False), (''verifier_count'', json_int 4),
      (''verifier_names'', JArray (map JString [''CapabilityVerifier'', ''ContractVerifier'', ''ArchitectureVerifier'', ''FunctionImplementsVerifier''])),
      (''supported_claim_types'', JArray (map JString [''capability_exists'', ''contract_holds'', ''architecture_follows'', ''function_implements''])),
      (''unsupported_claim_types'', JArray []), (''evidence_backend_ready'', JBool backend_ready),
      (''entity_count'', json_int (int (fst counts))), (''relation_count'', json_int (int (snd counts)))]"

lemma status_render: "out (run_writer (status_ops default_registry backend_ready counts) new_writer) = render (status_json backend_ready counts)"
proof -
  have sup: "supported_claim_types default_registry = all_public_claim_types"
    by (simp add: default_registry_def supported_claim_types_def all_public_claim_types_def)
  have "value_ops (status_json backend_ready counts) = status_ops default_registry backend_ready counts"
    unfolding status_ops_def Let_def sup
    by (simp add: status_json_def string_list_def verifier_names_def default_registry_def all_public_claim_types_def
        capability_name_def contract_name_def architecture_name_def function_name_def)
  moreover have "whole_numbers (status_json backend_ready counts)" by (simp add: status_json_def)
  ultimately show ?thesis by (metis write_render)
qed

text \<open>
  The status is the truth: in every state that destroying engines and arming calls can bring the
  registry into, the answer for an engine is one JSON object that names the four verifiers and all public
  claim types as supported, none as unsupported, and whose readiness and counts are those that every
  verifier decides by; the registry is left armed.
\<close>

theorem registry_status_exact:
  assumes "registry_step\<^sup>*\<^sup>* [] reg" and "has_store env" and "project \<noteq> 0"
  shows "engine_get_verifier_registry_status (Some env) t project reg =
    Some (render (status_json (evidence_backend_ready env t project) (backend_counts env t project)), default_registry)"
proof -
  have "ensureDefaultVerifiers reg = default_registry" using registry_invariant [OF assms(1)] ensure_cases by auto
  then show ?thesis using assms(2,3) by (simp add: engine_get_verifier_registry_status_def Let_def status_render)
qed

theorem registry_status_exact_witness:
  "engine_get_verifier_registry_status (Some healthy) demo_tables 1 [] =
     Some (render (status_json True (4, 3)), default_registry)"
proof -
  have "evidence_backend_ready healthy demo_tables 1" "backend_counts healthy demo_tables 1 = (4, 3)" by code_simp+
  then show ?thesis using registry_status_exact [of "[]" healthy 1 demo_tables] by simp
qed
end
