(* ===== verification/Aho_Corasick.thy ===== *)
theory Aho_Corasick
  imports Prelude
begin

text \<open>
  The multi-pattern automaton (\<open>ahocorasick.h\<close>) by which the JavaScript visitor dispatches on the type of
  a node: \<open>addPattern\<close>, \<open>build\<close>, \<open>match\<close>.

  A pointer to a node is its index in the list of nodes, the root has index 0, a null pointer is
  \<open>None\<close>; \<open>new Node()\<close> appends.  The loops that follow links run on fuel and return \<open>None\<close> when it is
  used up, which the theorem on \<open>match\<close> excludes.
\<close>

section \<open>Nodes\<close>

record ac_node =
  next_node :: "char \<Rightarrow> nat option"
  fail :: "nat option"
  out_link :: "nat option"
  output_id :: int
  output_len :: nat

definition new_node :: ac_node where
  "new_node = \<lparr>next_node = (\<lambda>_. None), fail = None, out_link = None, output_id = 0, output_len = 0\<rparr>"

type_synonym automaton = "ac_node list"

definition update_node :: "nat \<Rightarrow> (ac_node \<Rightarrow> ac_node) \<Rightarrow> automaton \<Rightarrow> automaton" where
  "update_node n f A = A[n := f (A ! n)]"

section \<open>addPattern\<close>

fun add_path :: "bytes \<Rightarrow> nat \<Rightarrow> automaton \<Rightarrow> nat \<times> automaton" where
  "add_path [] cur A = (cur, A)"
| "add_path (c # cs) cur A =
     (case next_node (A ! cur) c of
        Some n \<Rightarrow> add_path cs n A
      | None \<Rightarrow>
          add_path cs (length A)
            (update_node cur (next_node_update (\<lambda>f. f(c := Some (length A)))) A @ [new_node]))"

definition addPattern :: "bytes \<times> int \<Rightarrow> automaton \<Rightarrow> automaton" where
  "addPattern p A =
     (if fst p = [] then A
      else
        let (cur, A') = add_path (fst p) 0 A
        in update_node cur (\<lambda>x. x\<lparr>output_id := snd p, output_len := length (fst p)\<rparr>) A')"

section \<open>build\<close>

definition all_chars :: "char list" where
  "all_chars = map char_of [0..<256::nat]"

text \<open>The loop that looks for a node with a child for the character.\<close>

fun find_fail :: "nat \<Rightarrow> automaton \<Rightarrow> char \<Rightarrow> nat option \<Rightarrow> nat option option" where
  "find_fail k A c None = Some None"
| "find_fail 0 A c (Some f) = None"
| "find_fail (Suc k) A c (Some f) = (if next_node (A ! f) c \<noteq> None then Some (Some f) else find_fail k A c (fail (A ! f)))"

definition fail_target :: "automaton \<Rightarrow> char \<Rightarrow> nat option \<Rightarrow> nat" where
  "fail_target A c f = (case f of None \<Rightarrow> 0 | Some n \<Rightarrow> the (next_node (A ! n) c))"

definition set_links :: "nat \<Rightarrow> nat \<Rightarrow> automaton \<Rightarrow> automaton" where
  "set_links child fail_node A =
     update_node child
       (\<lambda>x. x\<lparr>fail := Some fail_node,
              out_link := (if fail_node \<noteq> 0 \<and> output_id (A ! fail_node) \<noteq> 0 then Some fail_node else out_link (A ! fail_node))\<rparr>) A"

definition link_child :: "nat \<Rightarrow> char \<Rightarrow> automaton \<times> nat list \<Rightarrow> (automaton \<times> nat list) option" where
  "link_child cur c s =
     (case s of (A, q) \<Rightarrow>
        case next_node (A ! cur) c of
          None \<Rightarrow> Some (A, q)
        | Some child \<Rightarrow>
            map_option (\<lambda>f. (set_links child (fail_target A c f) A, q @ [child])) (find_fail (length A) A c (fail (A ! cur))))"

fun link_children :: "nat \<Rightarrow> char list \<Rightarrow> automaton \<times> nat list \<Rightarrow> (automaton \<times> nat list) option" where
  "link_children cur [] s = Some s"
| "link_children cur (c # cs) s = Option.bind (link_child cur c s) (link_children cur cs)"

fun link_queue :: "nat \<Rightarrow> automaton \<times> nat list \<Rightarrow> automaton option" where
  "link_queue k (A, []) = Some A"
| "link_queue 0 (A, cur # q) = None"
| "link_queue (Suc k) (A, cur # q) = Option.bind (link_children cur all_chars (A, q)) (link_queue k)"

text \<open>Level 1: the children of the root.\<close>

definition link_top :: "char \<Rightarrow> automaton \<times> nat list \<Rightarrow> automaton \<times> nat list" where
  "link_top c s =
     (case s of (A, q) \<Rightarrow>
        case next_node (A ! 0) c of
          None \<Rightarrow> (A, q)
        | Some n \<Rightarrow> (update_node n (\<lambda>x. x\<lparr>fail := Some 0, out_link := None\<rparr>) A, q @ [n]))"

definition ac_build :: "automaton \<Rightarrow> automaton option" where
  "ac_build A = link_queue (length A) (fold link_top all_chars (A, []))"

section \<open>match\<close>

text \<open>The loop that follows failure links to a node with a child for the character, or to the root.\<close>

fun follow_fail :: "nat \<Rightarrow> automaton \<Rightarrow> char \<Rightarrow> nat \<Rightarrow> nat option" where
  "follow_fail k A c cur =
     (if cur = 0 \<or> next_node (A ! cur) c \<noteq> None then Some cur
      else case k of 0 \<Rightarrow> None
           | Suc k' \<Rightarrow> (case fail (A ! cur) of None \<Rightarrow> None | Some f \<Rightarrow> follow_fail k' A c f))"

declare follow_fail.simps [simp del]

text \<open>The walk over the dictionary suffixes, with the best id and length so far.\<close>

definition better :: "ac_node \<Rightarrow> int \<times> nat \<Rightarrow> int \<times> nat" where
  "better x best = (if output_id x \<noteq> 0 \<and> snd best < output_len x then (output_id x, output_len x) else best)"

fun walk_out :: "nat \<Rightarrow> automaton \<Rightarrow> nat option \<Rightarrow> int \<times> nat \<Rightarrow> (int \<times> nat) option" where
  "walk_out k A None best = Some best"
| "walk_out 0 A (Some n) best = None"
| "walk_out (Suc k) A (Some n) best = walk_out k A (out_link (A ! n)) (better (A ! n) best)"

definition match_char :: "automaton \<Rightarrow> char \<Rightarrow> nat \<times> int \<times> nat \<Rightarrow> (nat \<times> int \<times> nat) option" where
  "match_char A c s =
     (case s of (cur, best) \<Rightarrow>
        Option.bind (follow_fail (length A) A c cur)
          (\<lambda>n. let n' = (case next_node (A ! n) c of Some m \<Rightarrow> m | None \<Rightarrow> n)
               in map_option (Pair n') (walk_out (Suc (length A)) A (Some n') best)))"

fun match_loop :: "automaton \<Rightarrow> bytes \<Rightarrow> nat \<times> int \<times> nat \<Rightarrow> (nat \<times> int \<times> nat) option" where
  "match_loop A [] s = Some s"
| "match_loop A (c # cs) s = Option.bind (match_char A c s) (match_loop A cs)"

text \<open>The text ends at the first null byte; a null pointer is \<open>None\<close>.\<close>

definition c_string :: "bytes \<Rightarrow> bytes" where
  "c_string s = takeWhile (\<lambda>c. c \<noteq> CHR 0x00) s"

definition ac_match :: "automaton \<Rightarrow> bytes option \<Rightarrow> int option" where
  "ac_match A s =
     (case s of None \<Rightarrow> Some 0 | Some t \<Rightarrow> map_option (\<lambda>(n, best). fst best) (match_loop A (c_string t) (0, 0, 0)))"

definition automaton_of :: "(bytes \<times> int) list \<Rightarrow> automaton option" where
  "automaton_of ps = ac_build (fold addPattern ps [new_node])"

section \<open>Longest suffixes\<close>

text \<open>The longest suffix of a string in a set of strings that holds the empty one.\<close>

fun longest_suffix :: "bytes set \<Rightarrow> bytes \<Rightarrow> bytes" where
  "longest_suffix P [] = []"
| "longest_suffix P (c # cs) = (if c # cs \<in> P then c # cs else longest_suffix P cs)"

text \<open>The longest nonempty suffix in a set, if any.\<close>

fun longest_out :: "bytes set \<Rightarrow> bytes \<Rightarrow> bytes option" where
  "longest_out Q [] = None"
| "longest_out Q (c # cs) = (if c # cs \<in> Q then Some (c # cs) else longest_out Q cs)"

definition prefix_closed :: "bytes set \<Rightarrow> bool" where
  "prefix_closed P \<longleftrightarrow> [] \<in> P \<and> (\<forall>s c. s @ [c] \<in> P \<longrightarrow> s \<in> P)"

lemma longest_suffix_in: "[] \<in> P \<Longrightarrow> longest_suffix P s \<in> P"
  by (induction s) auto

lemma longest_suffix_length: "length (longest_suffix P s) \<le> length s"
  by (induction s) auto

lemma longest_suffix_self: "s \<in> P \<Longrightarrow> longest_suffix P s = s"
  by (cases s) auto

lemma longest_suffix_step:
  assumes "prefix_closed P"
  shows "longest_suffix P (longest_suffix P s @ [c]) = longest_suffix P (s @ [c])"
proof (induction s)
  case (Cons x s)
  show ?case
  proof (cases "x # s \<in> P")
    case False
    then have "x # s @ [c] \<notin> P" using assms unfolding prefix_closed_def by (metis append_Cons)
    then show ?thesis using Cons False by simp
  qed simp
qed simp

lemma longest_out_suffix:
  assumes "Q \<subseteq> P" and "w = longest_suffix P s"
  shows "longest_out Q s = longest_out Q w"
  using assms(2)
proof (induction s)
  case (Cons x s)
  then show ?case using assms(1) by (cases "x # s \<in> P") auto
qed simp

lemma longest_out_Some: "longest_out Q s = Some w \<Longrightarrow> w \<in> Q \<and> w \<noteq> [] \<and> suffix w s"
  by (induction s) (auto split: if_splits intro: suffix_ConsI)

lemma longest_out_max: "v \<in> Q \<Longrightarrow> v \<noteq> [] \<Longrightarrow> suffix v s \<Longrightarrow> \<exists>w. longest_out Q s = Some w \<and> length v \<le> length w"
proof (induction s)
  case (Cons x s)
  then show ?case by (auto simp: suffix_Cons dest: suffix_length_le)
qed simp

section \<open>The trie\<close>

text \<open>\<open>L\<close> gives the string that leads to each node; \<open>D\<close> is the dictionary.\<close>

type_synonym dict = "bytes \<Rightarrow> int option"

definition child_ok :: "bytes list \<Rightarrow> nat \<Rightarrow> char \<Rightarrow> nat option \<Rightarrow> bool" where
  "child_ok L n c r \<longleftrightarrow>
     (case r of None \<Rightarrow> L ! n @ [c] \<notin> set L | Some m \<Rightarrow> m < length L \<and> L ! m = L ! n @ [c])"

definition output_ok :: "dict \<Rightarrow> bytes \<Rightarrow> ac_node \<Rightarrow> bool" where
  "output_ok D s x \<longleftrightarrow> (case D s of None \<Rightarrow> output_id x = 0 | Some i \<Rightarrow> output_id x = i \<and> output_len x = length s)"

definition trie :: "automaton \<Rightarrow> bytes list \<Rightarrow> dict \<Rightarrow> bool" where
  "trie A L D \<longleftrightarrow>
     length A = length L \<and> L \<noteq> [] \<and> L ! 0 = [] \<and> distinct L \<and> prefix_closed (set L) \<and> dom D \<subseteq> set L - {[]} \<and>
     (\<forall>n < length L. (\<forall>c. child_ok L n c (next_node (A ! n) c)) \<and> output_ok D (L ! n) (A ! n))"


definition root_ok :: "automaton \<Rightarrow> bool" where
  "root_ok A \<longleftrightarrow> fail (A ! 0) = None \<and> out_link (A ! 0) = None"

lemma length_update_node [simp]: "length (update_node n f A) = length A"
  by (simp add: update_node_def)

lemma nth_update_node [simp]: "m < length A \<Longrightarrow> update_node n f A ! m = (if m = n then f (A ! n) else A ! m)"
  by (simp add: update_node_def nth_list_update)

lemma child_ok_append:
  assumes "child_ok L n c r" and "n < length L" and "r = None \<Longrightarrow> L ! n @ [c] \<noteq> s"
  shows "child_ok (L @ [s]) n c r"
  using assms by (auto simp: child_ok_def nth_append split: option.splits)

lemma output_ok_next [simp]: "output_ok D s (next_node_update f x) = output_ok D s x"
  by (simp add: output_ok_def split: option.splits)

lemma trie_simps:
  assumes "trie A L D"
  shows "length A = length L" "0 < length L" "L ! 0 = []" "distinct L" "prefix_closed (set L)" "dom D \<subseteq> set L - {[]}"
    "n < length L \<Longrightarrow> child_ok L n c (next_node (A ! n) c)" "n < length L \<Longrightarrow> output_ok D (L ! n) (A ! n)"
  using assms by (auto simp: trie_def)

lemma trie_no_child: "trie A L D \<Longrightarrow> n < length L \<Longrightarrow> next_node (A ! n) c = None \<longleftrightarrow> L ! n @ [c] \<notin> set L"
  using trie_simps(7) [of A L D n c] by (auto simp: child_ok_def split: option.splits) (metis nth_mem)

lemma trie_child: "trie A L D \<Longrightarrow> n < length L \<Longrightarrow> next_node (A ! n) c = Some m \<Longrightarrow> m < length L \<and> L ! m = L ! n @ [c]"
  using trie_simps(7) [of A L D n c] by (simp add: child_ok_def)

text \<open>A new node below \<open>cur\<close> for a character without a child.\<close>

lemma grow_trie:
  assumes "trie A L D" and "cur < length L" and "next_node (A ! cur) c = None"
  shows "trie (update_node cur (next_node_update (\<lambda>f. f(c := Some (length A)))) A @ [new_node]) (L @ [L ! cur @ [c]]) D"
    (is "trie ?A ?L D")
proof -
  have len: "length A = length L" and fresh: "L ! cur @ [c] \<notin> set L" and ne: "L \<noteq> []"
    using assms trie_no_child [OF assms(1,2), of c] trie_simps [OF assms(1)] by auto
  have nodes: "(\<forall>d. child_ok ?L n d (next_node (?A ! n) d)) \<and> output_ok D (?L ! n) (?A ! n)" if "n < length ?L" for n
  proof (cases "n = length L")
    case True
    have "L ! cur @ [c, d] \<notin> set ?L" for d
    proof
      assume "L ! cur @ [c, d] \<in> set ?L"
      then have "(L ! cur @ [c]) @ [d] \<in> set L" by auto
      then show False using assms(1) fresh unfolding trie_def prefix_closed_def by blast
    qed
    moreover have "D (L ! cur @ [c]) = None" using assms(1) fresh by (auto simp: trie_def dom_def)
    ultimately show ?thesis using True len
      by (simp add: nth_append child_ok_def output_ok_def new_node_def)
  next
    case False
    then have n: "n < length L" using that by simp
    have old: "child_ok L n d (next_node (A ! n) d)" "output_ok D (L ! n) (A ! n)" for d
      using assms(1) n by (simp_all add: trie_def)
    have "child_ok ?L n d (next_node (?A ! n) d)" for d
    proof (cases "n = cur \<and> d = c")
      case True
      then show ?thesis using n len by (simp add: nth_append child_ok_def)
    next
      case False
      have "L ! n @ [d] \<noteq> L ! cur @ [c]"
        using False assms(1,2) n unfolding trie_def by (auto simp: nth_eq_iff_index_eq)
      then have "child_ok ?L n d (next_node (A ! n) d)" using child_ok_append [OF old(1) n] by blast
      then show ?thesis using False n len by (auto simp: nth_append)
    qed
    then show ?thesis using old(2) n len by (cases "n = cur") (simp_all add: nth_append)
  qed
  have closed: "prefix_closed (set ?L)"
    using assms(1,2) unfolding trie_def prefix_closed_def by (auto simp: nth_mem)
  show ?thesis
    unfolding trie_def
  proof (intro conjI)
    show "\<forall>n < length ?L. (\<forall>d. child_ok ?L n d (next_node (?A ! n) d)) \<and> output_ok D (?L ! n) (?A ! n)"
      using nodes by blast
  qed (use assms(1) fresh ne len closed in \<open>auto simp: trie_def nth_append\<close>)
qed

lemma add_path_trie:
  assumes "trie A L D" and "root_ok A" and "cur < length L" and "add_path cs cur A = (n, A')"
  shows "\<exists>L'. trie A' L' D \<and> root_ok A' \<and> n < length L' \<and> L' ! n = L ! cur @ cs \<and> set L \<subseteq> set L'"
  using assms
proof (induction cs arbitrary: cur A L)
  case (Cons c cs)
  show ?case
  proof (cases "next_node (A ! cur) c")
    case None
    let ?A = "update_node cur (next_node_update (\<lambda>f. f(c := Some (length A)))) A @ [new_node]"
    have t: "trie ?A (L @ [L ! cur @ [c]]) D" using grow_trie [OF Cons.prems(1,3) None] .
    have len: "length A = length L" and ne: "L \<noteq> []" using Cons.prems(1) by (auto simp: trie_def)
    have r: "root_ok ?A" using Cons.prems(2) len ne by (auto simp: root_ok_def nth_append)
    have "\<exists>L'. trie A' L' D \<and> root_ok A' \<and> n < length L' \<and> L' ! n = (L @ [L ! cur @ [c]]) ! length A @ cs \<and>
        set (L @ [L ! cur @ [c]]) \<subseteq> set L'"
      using Cons.IH [OF t r, of "length A"] Cons.prems(4) None len by simp
    then show ?thesis using len by (auto simp: nth_append)
  next
    case (Some m)
    then have m: "m < length L" "L ! m = L ! cur @ [c]"
      using Cons.prems(1,3) by (auto simp: trie_def child_ok_def split: option.splits)
    show ?thesis using Cons.IH [OF Cons.prems(1,2) m(1)] Cons.prems(4) Some m(2) by simp
  qed
qed auto

definition enter :: "bytes \<times> int \<Rightarrow> dict \<Rightarrow> dict" where
  "enter p D = (if fst p = [] then D else D(fst p \<mapsto> snd p))"

lemma addPattern_trie:
  assumes "trie A L D" and "root_ok A"
  shows "\<exists>L'. trie (addPattern p A) L' (enter p D) \<and> root_ok (addPattern p A)"
proof (cases "fst p = []")
  case False
  obtain n A' where path: "add_path (fst p) 0 A = (n, A')" by (cases "add_path (fst p) 0 A")
  have "0 < length L" "L ! 0 = []" using assms(1) by (auto simp: trie_def)
  with add_path_trie [OF assms this(1) path] obtain L' where t: "trie A' L' D" and r: "root_ok A'"
    and n: "n < length L'" "L' ! n = fst p" by auto
  let ?A = "update_node n (\<lambda>x. x\<lparr>output_id := snd p, output_len := length (fst p)\<rparr>) A'"
  have eq: "addPattern p A = ?A" using False path by (simp add: addPattern_def)
  have len: "length A' = length L'" and d: "distinct L'" using t by (simp_all add: trie_def)
  have "output_ok (enter p D) (L' ! k) (?A ! k)" if k: "k < length L'" for k
  proof (cases "k = n")
    case True
    then show ?thesis using False n len by (simp add: output_ok_def enter_def)
  next
    case other: False
    then have "L' ! k \<noteq> fst p" using n k nth_eq_iff_index_eq [OF d, of k n] by auto
    then have "enter p D (L' ! k) = D (L' ! k)" by (simp add: enter_def)
    then show ?thesis using t k other len by (simp add: output_ok_def trie_def split: option.splits)
  qed
  moreover have "next_node (?A ! k) = next_node (A' ! k)" if "k < length L'" for k using that len by simp
  moreover have "fst p \<in> set L'" using n nth_mem by metis
  then have "dom (enter p D) \<subseteq> set L' - {[]}" using t False by (auto simp: trie_def enter_def dom_def)
  ultimately have "trie ?A L' (enter p D)" using t by (simp add: trie_def)
  moreover have "root_ok ?A" using r len n trie_simps(2) [OF t] by (cases "n = 0") (auto simp: root_ok_def)
  ultimately show ?thesis unfolding eq by blast
qed (use assms in \<open>auto simp: addPattern_def enter_def\<close>)

lemma patterns_trie:
  assumes "trie A L D" and "root_ok A"
  shows "\<exists>L'. trie (fold addPattern ps A) L' (fold enter ps D) \<and> root_ok (fold addPattern ps A)"
  using assms
proof (induction ps arbitrary: A L D)
  case (Cons p ps)
  from addPattern_trie [OF Cons.prems, of p] Cons.IH show ?case by auto
qed auto

lemma new_node_trie: "trie [new_node] [[]] Map.empty" "root_ok [new_node]"
  by (simp_all add: trie_def prefix_closed_def child_ok_def output_ok_def new_node_def root_ok_def)


lemma closed_length:
  assumes "prefix_closed P" and "finite P" and "s \<in> P"
  shows "length s < card P"
proof -
  have take: "take (length s - k) s \<in> P" for k
  proof (induction k)
    case (Suc k)
    show ?case
    proof (cases "k < length s")
      case True
      then have "take (length s - k) s = take (length s - Suc k) s @ [s ! (length s - Suc k)]"
        by (metis Suc_diff_Suc Suc_diff_le diff_less_Suc diff_Suc_Suc diff_less less_imp_Suc_add take_Suc_conv_app_nth zero_less_Suc)
      then show ?thesis using Suc assms(1) unfolding prefix_closed_def by metis
    qed (use Suc in simp)
  qed (use assms(3) in simp)
  have "take k s \<in> P" if "k \<le> length s" for k using take [of "length s - k"] that by simp
  then have "(\<lambda>k. take k s) ` {0..length s} \<subseteq> P" by auto
  moreover have "inj_on (\<lambda>k. take k s) {0..length s}"
    by (rule inj_onI) (metis atLeastAtMost_iff length_take min.absorb2)
  ultimately have "card {0..length s} \<le> card P" using assms(2) by (metis card_image card_mono)
  then show ?thesis by simp
qed

lemma trie_fuel: "trie A L D \<Longrightarrow> n < length L \<Longrightarrow> length (L ! n) < length A"
  using closed_length [of "set L" "L ! n"] by (simp add: trie_simps distinct_card)

section \<open>Links\<close>

definition outs :: "dict \<Rightarrow> bytes set" where
  "outs D = {s. \<exists>i. D s = Some i \<and> i \<noteq> 0}"

definition points_to :: "bytes list \<Rightarrow> nat option \<Rightarrow> bytes option \<Rightarrow> bool" where
  "points_to L r w \<longleftrightarrow> (case w of None \<Rightarrow> r = None | Some s \<Rightarrow> \<exists>m < length L. r = Some m \<and> L ! m = s)"

definition linked :: "bytes list \<Rightarrow> dict \<Rightarrow> automaton \<Rightarrow> nat \<Rightarrow> bool" where
  "linked L D A n \<longleftrightarrow>
     points_to L (fail (A ! n)) (Some (longest_suffix (set L) (tl (L ! n)))) \<and>
     points_to L (out_link (A ! n)) (longest_out (outs D) (tl (L ! n)))"

lemma outs_subset: "trie A L D \<Longrightarrow> outs D \<subseteq> set L"
  using trie_simps(6) [of A L D] by (auto simp: outs_def)

lemma output_in_outs: "trie A L D \<Longrightarrow> n < length L \<Longrightarrow> output_id (A ! n) \<noteq> 0 \<longleftrightarrow> L ! n \<in> outs D"
  using trie_simps(8) [of A L D n] by (auto simp: output_ok_def outs_def split: option.splits)

lemma root_string: "trie A L D \<Longrightarrow> n < length L \<Longrightarrow> L ! n = [] \<longleftrightarrow> n = 0"
  using trie_simps(2,3) [of A L D] nth_eq_iff_index_eq [OF trie_simps(4) [of A L D], of n 0] by auto

text \<open>The loop finds the node of the longest suffix that can be extended.\<close>

lemma find_fail_target:
  assumes t: "trie A L D" and r: "root_ok A"
    and low: "\<And>n. 0 < n \<Longrightarrow> n < length L \<Longrightarrow> length (L ! n) \<le> d \<Longrightarrow> linked L D A n"
    and "f < length L" and "length (L ! f) \<le> d" and "length (L ! f) < k"
  shows "\<exists>g. find_fail k A c (Some f) = Some g \<and> fail_target A c g < length L \<and>
    L ! fail_target A c g = longest_suffix (set L) (L ! f @ [c])"
  using assms(4-)
proof (induction k arbitrary: f)
  case (Suc k)
  note closed = trie_simps(5) [OF t]
  show ?case
  proof (cases "next_node (A ! f) c")
    case (Some m)
    then have m: "m < length L" "L ! m = L ! f @ [c]" using trie_child [OF t Suc.prems(1)] by auto
    then have "longest_suffix (set L) (L ! f @ [c]) = L ! f @ [c]" by (metis longest_suffix_self nth_mem)
    with Some m show ?thesis by (simp add: fail_target_def)
  next
    case None
    then have no: "L ! f @ [c] \<notin> set L" using trie_no_child [OF t Suc.prems(1)] by simp
    show ?thesis
    proof (cases "f = 0")
      case True
      then have "fail (A ! f) = None" "L ! f = []" using r trie_simps(3) [OF t] by (simp_all add: root_ok_def)
      with None no show ?thesis using trie_simps(2,3) [OF t] True by (simp add: fail_target_def)
    next
      case False
      then have "linked L D A f" using low Suc.prems by simp
      then obtain m where m: "m < length L" "fail (A ! f) = Some m" "L ! m = longest_suffix (set L) (tl (L ! f))"
        by (auto simp: linked_def points_to_def)
      have "L ! f \<noteq> []" using root_string [OF t Suc.prems(1)] False by simp
      then obtain x v where f: "L ! f = x # v" by (cases "L ! f") auto
      have short: "length (L ! m) \<le> length v" using m(3) longest_suffix_length [of "set L" v] by (simp add: f)
      have "longest_suffix (set L) (L ! m @ [c]) = longest_suffix (set L) (L ! f @ [c])"
        using no longest_suffix_step [OF closed, of v c] by (simp add: m(3) f)
      with Suc.IH [OF m(1)] show ?thesis using None m(2) short Suc.prems by (simp add: f)
    qed
  qed
qed simp

lemma set_links_keeps:
  assumes "trie A L D" and "root_ok A" and "m < length L" and "m \<noteq> 0"
  shows "trie (set_links m t A) L D" "root_ok (set_links m t A)"
    "n < length L \<Longrightarrow> next_node (set_links m t A ! n) = next_node (A ! n)"
    "n < length L \<Longrightarrow> n \<noteq> m \<Longrightarrow> linked L D (set_links m t A) n = linked L D A n"
  using assms
  by (auto simp: trie_def set_links_def root_ok_def linked_def output_ok_def split: option.splits)

lemma set_links_linked:
  assumes t: "trie A L D" and r: "root_ok A" and m: "m < length L" "m \<noteq> 0"
    and f: "f < length L" "L ! f = longest_suffix (set L) (tl (L ! m))"
    and low: "f \<noteq> 0 \<Longrightarrow> linked L D A f"
  shows "linked L D (set_links m f A) m"
proof -
  have len: "length A = length L" using trie_simps(1) [OF t] .
  have out: "longest_out (outs D) (tl (L ! m)) = longest_out (outs D) (L ! f)"
    using longest_out_suffix [OF outs_subset [OF t] f(2)] .
  have "points_to L (out_link (set_links m f A ! m)) (longest_out (outs D) (L ! f))"
  proof (cases "f = 0")
    case True
    then show ?thesis using r m len trie_simps(3) [OF t] by (simp add: set_links_def root_ok_def points_to_def)
  next
    case False
    then have "L ! f \<noteq> []" using root_string [OF t f(1)] by simp
    then obtain x v where v: "L ! f = x # v" by (cases "L ! f") auto
    show ?thesis
    proof (cases "L ! f \<in> outs D")
      case True
      then have "output_id (A ! f) \<noteq> 0" using output_in_outs [OF t f(1)] by simp
      then show ?thesis using True False m len f(1) by (auto simp: set_links_def points_to_def v)
    next
      case no: False
      then have "output_id (A ! f) = 0" using output_in_outs [OF t f(1)] by simp
      then show ?thesis using no False m len low by (simp add: set_links_def v linked_def)
    qed
  qed
  then show ?thesis using f m len unfolding linked_def out by (simp add: set_links_def points_to_def)
qed

definition kids :: "automaton \<Rightarrow> nat \<Rightarrow> char list \<Rightarrow> nat list" where
  "kids A cur cs = List.map_filter (next_node (A ! cur)) cs"

lemma kids_simps [simp]:
  "kids A cur [] = []"
  "kids A cur (c # cs) = (case next_node (A ! cur) c of None \<Rightarrow> kids A cur cs | Some m \<Rightarrow> m # kids A cur cs)"
  by (simp_all add: kids_def map_filter_simps split: option.splits)

lemma kids_cong: "next_node (A ! cur) = next_node (B ! cur) \<Longrightarrow> kids A cur cs = kids B cur cs"
  by (simp add: kids_def)

lemma link_children_ok:
  assumes "trie A L D" and "root_ok A" and "cur < length L" and "cur \<noteq> 0"
    and "\<And>n. 0 < n \<Longrightarrow> n < length L \<Longrightarrow> length (L ! n) \<le> length (L ! cur) \<Longrightarrow> linked L D A n"
  shows "\<exists>A'. link_children cur cs (A, q) = Some (A', q @ kids A cur cs) \<and> trie A' L D \<and> root_ok A' \<and>
    (\<forall>n < length L. next_node (A' ! n) = next_node (A ! n) \<and> (linked L D A n \<longrightarrow> linked L D A' n)) \<and>
    (\<forall>m \<in> set (kids A cur cs). linked L D A' m)"
  using assms
proof (induction cs arbitrary: A q)
  case (Cons c cs)
  note t = Cons.prems(1) and r = Cons.prems(2) and cur = Cons.prems(3,4) and low = Cons.prems(5)
  show ?case
  proof (cases "next_node (A ! cur) c")
    case None
    then show ?thesis using Cons.IH [OF t r cur low] by (simp add: link_child_def)
  next
    case (Some m)
    then have m: "m < length L" "L ! m = L ! cur @ [c]" using trie_child [OF t cur(1)] by auto
    then have m0: "m \<noteq> 0" using trie_simps(3) [OF t] by (metis append_is_Nil_conv list.distinct(1))
    obtain x v where v: "L ! cur = x # v" using root_string [OF t cur(1)] cur(2) by (cases "L ! cur") auto
    obtain f where f: "f < length L" "fail (A ! cur) = Some f" "L ! f = longest_suffix (set L) v"
      using low [OF _ cur(1)] cur(2) by (auto simp: linked_def points_to_def v)
    have short: "length (L ! f) \<le> length (L ! cur)" using f(3) longest_suffix_length [of "set L" v] by (simp add: v)
    obtain g where g: "find_fail (length A) A c (Some f) = Some g" "fail_target A c g < length L"
        "L ! fail_target A c g = longest_suffix (set L) (L ! f @ [c])"
      using find_fail_target [OF t r low f(1) short trie_fuel [OF t f(1)]] by blast
    have target: "L ! fail_target A c g = longest_suffix (set L) (tl (L ! m))"
      using longest_suffix_step [OF trie_simps(5) [OF t], of v c] by (simp add: g(3) f(3) m(2) v)
    have "length (L ! fail_target A c g) \<le> length (L ! cur)"
      using longest_suffix_length [of "set L" "tl (L ! m)"] by (simp add: target m(2) v)
    then have lt: "fail_target A c g \<noteq> 0 \<Longrightarrow> linked L D A (fail_target A c g)" using low g(2) by simp
    let ?A = "set_links m (fail_target A c g) A"
    note keeps = set_links_keeps [OF t r m(1) m0, where t = "fail_target A c g"]
    have lm: "linked L D ?A m" by (rule set_links_linked [OF t r m(1) m0 g(2) target lt])
    have lk: "linked L D A n \<Longrightarrow> n < length L \<Longrightarrow> linked L D ?A n" for n using keeps(4) lm by (cases "n = m") auto
    have low': "\<And>n. 0 < n \<Longrightarrow> n < length L \<Longrightarrow> length (L ! n) \<le> length (L ! cur) \<Longrightarrow> linked L D ?A n"
      using lk low by blast
    have k: "kids ?A cur cs = kids A cur cs" by (rule kids_cong) (rule keeps(3) [OF cur(1)])
    from Cons.IH [OF keeps(1,2) cur low', of "q @ [m]"] obtain A' where
      A': "link_children cur cs (?A, q @ [m]) = Some (A', (q @ [m]) @ kids A cur cs)" "trie A' L D" "root_ok A'"
        "\<forall>n < length L. next_node (A' ! n) = next_node (?A ! n) \<and> (linked L D ?A n \<longrightarrow> linked L D A' n)"
        "\<forall>n \<in> set (kids A cur cs). linked L D A' n"
      unfolding k by blast
    have "link_children cur (c # cs) (A, q) = Some (A', q @ kids A cur (c # cs))"
      using A'(1) Some g(1) f(2) by (simp add: link_child_def)
    then show ?thesis using A' Some lm lk m(1) keeps(3) by auto
  qed
qed auto


section \<open>The queue\<close>

text \<open>\<open>K\<close> are the nodes that were put into the queue so far.\<close>

definition children :: "bytes list \<Rightarrow> nat \<Rightarrow> nat set" where
  "children L n = {m. m < length L \<and> (\<exists>c. L ! m = L ! n @ [c])}"

definition expanded :: "nat set \<Rightarrow> nat list \<Rightarrow> nat set" where
  "expanded K q = insert 0 (K - set q)"

definition bfs :: "bytes list \<Rightarrow> nat set \<Rightarrow> nat list \<Rightarrow> bool" where
  "bfs L K q \<longleftrightarrow>
     K \<subseteq> {0<..<length L} \<and> set q \<subseteq> K \<and> distinct q \<and>
     sorted (map (\<lambda>n. length (L ! n)) q) \<and> (\<forall>x \<in> set q. length (L ! x) \<le> Suc (length (L ! hd q))) \<and>
     (\<forall>n \<in> expanded K q. children L n \<subseteq> K) \<and> (\<forall>m \<in> K. \<exists>n \<in> expanded K q. m \<in> children L n)"

lemma set_kids_of: "set (kids A n cs) = {m. \<exists>c \<in> set cs. next_node (A ! n) c = Some m}"
  by (induction cs) (auto split: option.splits)

lemma set_kids: "trie A L D \<Longrightarrow> n < length L \<Longrightarrow> set (kids A n all_chars) = children L n"
proof -
  assume t: "trie A L D" and n: "n < length L"
  have all: "c \<in> set all_chars" for c
  proof -
    have "c = char_of (of_char c :: nat)" by simp
    then show ?thesis unfolding all_chars_def by (metis atLeast0LessThan byte_of_less image_eqI lessThan_iff list.set_map set_upt)
  qed
  have "m \<in> set (kids A n all_chars) \<longleftrightarrow> (\<exists>c. next_node (A ! n) c = Some m)" for m
    unfolding set_kids_of using all by blast
  moreover have "(\<exists>c. next_node (A ! n) c = Some m) \<longleftrightarrow> m \<in> children L n" for m
  proof
    assume "m \<in> children L n"
    then obtain c where m: "m < length L" "L ! m = L ! n @ [c]" by (auto simp: children_def)
    then have "L ! n @ [c] \<in> set L" by (metis nth_mem)
    then obtain m' where m': "next_node (A ! n) c = Some m'" using trie_no_child [OF t n] by blast
    then have "m' = m" using trie_child [OF t n m'] m nth_eq_iff_index_eq [OF trie_simps(4) [OF t]] by metis
    then show "\<exists>c. next_node (A ! n) c = Some m" using m' by blast
  qed (auto simp: children_def dest: trie_child [OF t n])
  ultimately show "set (kids A n all_chars) = children L n" by blast
qed

lemma distinct_kids: "trie A L D \<Longrightarrow> n < length L \<Longrightarrow> distinct (kids A n all_chars)"
proof -
  assume t: "trie A L D" and n: "n < length L"
  have "distinct (kids A n cs)" if "distinct cs" for cs
    using that
  proof (induction cs)
    case (Cons c cs)
    have "m \<notin> set (kids A n cs)" if m: "next_node (A ! n) c = Some m" for m
    proof
      assume "m \<in> set (kids A n cs)"
      then obtain d where "d \<in> set cs" "next_node (A ! n) d = Some m" unfolding set_kids_of by blast
      then show False using trie_child [OF t n m] trie_child [OF t n, of d m] Cons.prems by auto
    qed
    then show ?case using Cons by (auto split: option.splits)
  qed simp
  moreover have "distinct all_chars"
    unfolding all_chars_def distinct_map by (auto intro!: inj_onI dest: arg_cong [where f = "of_char :: char \<Rightarrow> nat"] simp: of_char_of)
  ultimately show "distinct (kids A n all_chars)" by blast
qed

text \<open>Every node that is no deeper than the head of the queue is known.\<close>

lemma bfs_shallow:
  assumes b: "bfs L K q" and closed: "prefix_closed (set L)" and d: "distinct L" "L ! 0 = []"
    and deep: "\<forall>x \<in> set q. d \<le> length (L ! x)"
  shows "0 < n \<Longrightarrow> n < length L \<Longrightarrow> length (L ! n) \<le> d \<Longrightarrow> n \<in> K"
proof (induction "length (L ! n)" arbitrary: n rule: less_induct)
  case less
  have "L ! n \<noteq> []" using less.prems d nth_eq_iff_index_eq [OF d(1), of n 0] by (metis gr_implies_not_zero length_greater_0_conv list.size(3) not_gr_zero not_less_zero)
  then obtain s c where n: "L ! n = s @ [c]" by (cases "L ! n" rule: rev_cases) auto
  then have "s \<in> set L" using closed less.prems(2) unfolding prefix_closed_def by (metis nth_mem)
  then obtain p where p: "p < length L" "L ! p = s" by (metis in_set_conv_nth)
  have "p \<in> expanded K q"
  proof (cases "p = 0")
    case False
    have "length (L ! p) < length (L ! n)" by (simp add: n p(2))
    then have "p \<in> K" "p \<notin> set q" using less False p(1) deep by auto
    then show ?thesis by (simp add: expanded_def)
  qed (simp add: expanded_def)
  moreover have "n \<in> children L p" using n p less.prems(2) by (simp add: children_def)
  ultimately show ?case using b unfolding bfs_def by blast
qed

lemma children_unique: "m \<in> children L n \<Longrightarrow> m \<in> children L n' \<Longrightarrow> distinct L \<Longrightarrow> n < length L \<Longrightarrow> n' < length L \<Longrightarrow> n = n'"
  by (auto simp: children_def nth_eq_iff_index_eq)

lemma bfs_step:
  assumes b: "bfs L K (cur # q)" and d: "distinct L" "L ! 0 = []" and ks: "set ks = children L cur" "distinct ks"
  shows "bfs L (K \<union> set ks) (q @ ks)" "set ks \<inter> K = {}"
proof -
  have K: "K \<subseteq> {0<..<length L}" "cur \<in> K" "set q \<subseteq> K" "cur \<notin> set q" "distinct q"
    and ex: "\<And>n. n \<in> expanded K (cur # q) \<Longrightarrow> children L n \<subseteq> K"
    and par: "\<And>m. m \<in> K \<Longrightarrow> \<exists>n \<in> expanded K (cur # q). m \<in> children L n"
    and so: "sorted (map (\<lambda>n. length (L ! n)) (cur # q))" "\<forall>x \<in> set q. length (L ! x) \<le> Suc (length (L ! cur))"
    using b unfolding bfs_def by auto
  have cur: "0 < cur" "cur < length L" using K by auto
  show disj: "set ks \<inter> K = {}"
  proof (rule ccontr)
    assume "set ks \<inter> K \<noteq> {}"
    then obtain m n where m: "m \<in> children L cur" "n \<in> expanded K (cur # q)" "m \<in> children L n"
      using ks(1) par by blast
    then have "n < length L" "n \<noteq> cur" using K cur by (auto simp: expanded_def)
    then show False using children_unique [OF m(1,3) d(1) cur(2)] by simp
  qed
  have kl: "length (L ! x) = Suc (length (L ! cur))" if "x \<in> set ks" for x
    using that unfolding ks(1) children_def by auto
  have k0: "x \<noteq> 0" if "x \<in> set ks" for x using kl [OF that] d(2) by (metis list.size(3) nat.distinct(1))
  have sub: "K \<union> set ks \<subseteq> {0<..<length L}"
    using K(1) k0 ks(1) by (auto simp: children_def)
  have e: "expanded (K \<union> set ks) (q @ ks) = insert cur (expanded K (cur # q))"
    using disj K cur by (auto simp: expanded_def)
  have q0: "\<forall>x \<in> set q. length (L ! cur) \<le> length (L ! x)" "sorted (map (\<lambda>n. length (L ! n)) q)"
    using so(1) by auto
  have "map (\<lambda>n. length (L ! n)) ks = replicate (length ks) (Suc (length (L ! cur)))"
    using kl by (simp add: map_replicate_const [symmetric] cong: map_cong)
  then have "sorted (map (\<lambda>n. length (L ! n)) (q @ ks))"
    using q0(2) so(2) by (simp add: sorted_append sorted_replicate)
  moreover have "\<forall>x \<in> set (q @ ks). length (L ! x) \<le> Suc (length (L ! hd (q @ ks)))"
  proof (cases q)
    case Nil
    then show ?thesis using kl by (cases ks) auto
  next
    case (Cons y ys)
    then show ?thesis using so(2) kl q0(1) by fastforce
  qed
  moreover have "\<forall>n \<in> insert cur (expanded K (cur # q)). children L n \<subseteq> K \<union> set ks" using ex ks(1) by blast
  moreover have "\<forall>m \<in> K \<union> set ks. \<exists>n \<in> insert cur (expanded K (cur # q)). m \<in> children L n" using par ks(1) by blast
  moreover have "distinct (q @ ks)" "set (q @ ks) \<subseteq> K \<union> set ks" using K ks(2) disj by auto
  ultimately show "bfs L (K \<union> set ks) (q @ ks)" unfolding bfs_def e using sub by blast
qed


lemma bfs_done:
  assumes "bfs L K []" and "prefix_closed (set L)" and "distinct L" and "L ! 0 = []"
  shows "0 < n \<Longrightarrow> n < length L \<Longrightarrow> n \<in> K"
  using bfs_shallow [OF assms, of "length (L ! n)" n] by simp

lemma link_queue_ok:
  assumes "trie A L D" and "root_ok A" and "bfs L K q" and "\<forall>n \<in> K. linked L D A n"
    and "length L + length q \<le> k + card K + 1"
  shows "\<exists>A'. link_queue k (A, q) = Some A' \<and> trie A' L D \<and> root_ok A' \<and> (\<forall>n. 0 < n \<longrightarrow> n < length L \<longrightarrow> linked L D A' n)"
  using assms
proof (induction k "(A, q)" arbitrary: A q K rule: link_queue.induct)
  case (1 k A)
  then show ?case using bfs_done [of L K] trie_simps(3-5) [OF 1(1)] by auto
next
  case (2 A cur q)
  have "K \<subseteq> {0<..<length L}" "set (cur # q) \<subseteq> K" "distinct (cur # q)" using 2(3) by (auto simp: bfs_def)
  then have "card K \<le> length L - 1" "0 < length L"
    using card_mono [of "{0<..<length L}" K] by auto
  then have "card K < length L" by arith
  then show ?case using 2(5) by simp
next
  case (3 k A cur q)
  note t = 3(2) and r = 3(3) and b = 3(4)
  note simps = trie_simps(3-5) [OF t]
  have cur: "0 < cur" "cur < length L" "cur \<in> K" and fin: "finite K"
    using b finite_subset [of K "{0<..<length L}"] by (auto simp: bfs_def)
  have "\<forall>x \<in> set (cur # q). length (L ! cur) \<le> length (L ! x)" using b by (auto simp: bfs_def)
  then have low: "\<And>n. 0 < n \<Longrightarrow> n < length L \<Longrightarrow> length (L ! n) \<le> length (L ! cur) \<Longrightarrow> linked L D A n"
    using bfs_shallow [OF b simps(3,2,1)] 3(5) by blast
  let ?ks = "kids A cur all_chars"
  obtain A' where A': "link_children cur all_chars (A, q) = Some (A', q @ ?ks)" "trie A' L D" "root_ok A'"
      "\<forall>n < length L. next_node (A' ! n) = next_node (A ! n) \<and> (linked L D A n \<longrightarrow> linked L D A' n)"
      "\<forall>m \<in> set ?ks. linked L D A' m"
    using link_children_ok [OF t r cur(2) _ low, of all_chars q] cur(1) by auto
  note step = bfs_step [OF b simps(2,1) set_kids [OF t cur(2)] distinct_kids [OF t cur(2)]]
  have "card (K \<union> set ?ks) = card K + length ?ks"
    using step(2) fin distinct_kids [OF t cur(2)] by (subst card_Un_disjoint) (auto simp: distinct_card Int_commute)
  then have fuel: "length L + length (q @ ?ks) \<le> k + card (K \<union> set ?ks) + 1" using 3(6) by simp
  have "K \<subseteq> {0<..<length L}" using b by (simp add: bfs_def)
  then have "\<forall>n \<in> K \<union> set ?ks. linked L D A' n" using A'(4,5) 3(5) by auto
  from 3(1) [OF A'(1) A'(2,3) step(1) this fuel] A'(1) show ?case by simp
qed

text \<open>Level 1.\<close>

lemma link_top_ok:
  assumes "trie A L D" and "root_ok A"
  shows "\<exists>A'. fold link_top cs (A, q) = (A', q @ kids A 0 cs) \<and> trie A' L D \<and> root_ok A' \<and>
    (\<forall>n < length L. next_node (A' ! n) = next_node (A ! n) \<and> (linked L D A n \<longrightarrow> linked L D A' n)) \<and>
    (\<forall>m \<in> set (kids A 0 cs). linked L D A' m)"
  using assms
proof (induction cs arbitrary: A q)
  case (Cons c cs)
  note t = Cons.prems(1) and r = Cons.prems(2)
  have z: "0 < length L" "L ! 0 = []" "length A = length L" using trie_simps(1-3) [OF t] by auto
  show ?case
  proof (cases "next_node (A ! 0) c")
    case None
    then show ?thesis using Cons.IH [OF t r] by (simp add: link_top_def)
  next
    case (Some m)
    then have m: "m < length L" "L ! m = [c]" using trie_child [OF t z(1)] z(2) by auto
    then have m0: "m \<noteq> 0" using z(2) by (metis not_Cons_self2)
    let ?A = "update_node m (\<lambda>x. x\<lparr>fail := Some 0, out_link := None\<rparr>) A"
    have eq: "next_node (?A ! n) = next_node (A ! n)" "n \<noteq> m \<Longrightarrow> linked L D ?A n = linked L D A n" if "n < length L" for n
      using that z(3) by (simp_all add: linked_def)
    have t': "trie ?A L D" using t z(3) by (auto simp: trie_def output_ok_def split: option.splits)
    have r': "root_ok ?A" using r m0 z by (simp add: root_ok_def)
    have lm: "linked L D ?A m" using m z by (simp add: linked_def points_to_def)
    have lk: "n < length L \<Longrightarrow> linked L D A n \<Longrightarrow> linked L D ?A n" for n using eq(2) lm by (cases "n = m") auto
    have k: "kids ?A 0 cs = kids A 0 cs" by (rule kids_cong) (rule eq(1) [OF z(1)])
    from Cons.IH [OF t' r', of "q @ [m]"] obtain A' where A': "fold link_top cs (?A, q @ [m]) = (A', (q @ [m]) @ kids A 0 cs)"
        "trie A' L D" "root_ok A'"
        "\<forall>n < length L. next_node (A' ! n) = next_node (?A ! n) \<and> (linked L D ?A n \<longrightarrow> linked L D A' n)"
        "\<forall>n \<in> set (kids A 0 cs). linked L D A' n"
      unfolding k by blast
    have "fold link_top (c # cs) (A, q) = (A', q @ kids A 0 (c # cs))" using A'(1) Some by (simp add: link_top_def)
    then show ?thesis using A' Some lm lk m(1) eq(1) by auto
  qed
qed auto

definition linked_automaton :: "automaton \<Rightarrow> bytes list \<Rightarrow> dict \<Rightarrow> bool" where
  "linked_automaton A L D \<longleftrightarrow> trie A L D \<and> root_ok A \<and> (\<forall>n. 0 < n \<longrightarrow> n < length L \<longrightarrow> linked L D A n)"

lemma build_ok:
  assumes t: "trie A L D" and r: "root_ok A"
  shows "\<exists>A'. ac_build A = Some A' \<and> linked_automaton A' L D"
proof -
  let ?ks = "kids A 0 all_chars"
  note z = trie_simps(1-5) [OF t]
  obtain A1 where A1: "fold link_top all_chars (A, []) = (A1, ?ks)" "trie A1 L D" "root_ok A1" "\<forall>m \<in> set ?ks. linked L D A1 m"
    using link_top_ok [OF t r, of all_chars "[]"] by auto
  have ks: "set ?ks = children L 0" "distinct ?ks" using set_kids [OF t z(2)] distinct_kids [OF t z(2)] by auto
  have one: "length (L ! x) = 1" if "x \<in> set ?ks" for x using that z(3) unfolding ks(1) by (auto simp: children_def)
  have sub: "set ?ks \<subseteq> {0<..<length L}"
  proof
    fix x assume x: "x \<in> set ?ks"
    then have "x \<noteq> 0" using one [OF x] z(3) by (metis list.size(3) zero_neq_one)
    then show "x \<in> {0<..<length L}" using x unfolding ks(1) by (auto simp: children_def)
  qed
  have "map (\<lambda>n. length (L ! n)) ?ks = replicate (length ?ks) 1"
    using one by (simp add: map_replicate_const [symmetric] cong: map_cong)
  then have sorted: "sorted (map (\<lambda>n. length (L ! n)) ?ks)" by (simp add: sorted_replicate)
  have "bfs L (set ?ks) ?ks"
    unfolding bfs_def using sub ks sorted one by (auto simp: expanded_def)
  moreover have "length L + length ?ks \<le> length A + card (set ?ks) + 1" using ks(2) z(1) by (simp add: distinct_card)
  ultimately show ?thesis
    using link_queue_ok [OF A1(2,3), of "set ?ks" ?ks "length A"] A1(1,4) by (auto simp: ac_build_def linked_automaton_def)
qed

section \<open>match\<close>

lemma follow_fail_ok:
  assumes a: "linked_automaton A L D" and "cur < length L" and "length (L ! cur) < Suc k"
  shows "\<exists>n. follow_fail k A c cur = Some n \<and> n < length L \<and>
    (case next_node (A ! n) c of Some m \<Rightarrow> m | None \<Rightarrow> n) < length L \<and>
    L ! (case next_node (A ! n) c of Some m \<Rightarrow> m | None \<Rightarrow> n) = longest_suffix (set L) (L ! cur @ [c])"
  using assms(2,3)
proof (induction k arbitrary: cur)
  have t: "trie A L D" using a by (simp add: linked_automaton_def)
  have stop: "follow_fail k A c cur = Some cur \<and> cur < length L \<and>
    (case next_node (A ! cur) c of Some m \<Rightarrow> m | None \<Rightarrow> cur) < length L \<and>
    L ! (case next_node (A ! cur) c of Some m \<Rightarrow> m | None \<Rightarrow> cur) = longest_suffix (set L) (L ! cur @ [c])"
    if "cur < length L" "cur = 0 \<or> next_node (A ! cur) c \<noteq> None" for cur k
  proof (cases "next_node (A ! cur) c")
    case None
    then have "cur = 0" "L ! cur @ [c] \<notin> set L" using that trie_no_child [OF t that(1)] by auto
    then show ?thesis using None that trie_simps(3) [OF t] by (simp add: follow_fail.simps)
  next
    case (Some m)
    then have m: "m < length L" "L ! m = L ! cur @ [c]" using trie_child [OF t that(1)] by auto
    then have "longest_suffix (set L) (L ! cur @ [c]) = L ! cur @ [c]" by (metis longest_suffix_self nth_mem)
    then show ?thesis using m Some that by (simp add: follow_fail.simps)
  qed
  {
    case 0
    then have "cur = 0" using root_string [OF t] by simp
    then show ?case using stop [OF 0(1), of 0] by auto
  next
    case (Suc k)
    show ?case
    proof (cases "cur = 0 \<or> next_node (A ! cur) c \<noteq> None")
      case True
      then show ?thesis using stop [OF Suc.prems(1)] by blast
    next
      case False
      then have "linked L D A cur" using a Suc.prems by (simp add: linked_automaton_def)
      then obtain f where f: "f < length L" "fail (A ! cur) = Some f" "L ! f = longest_suffix (set L) (tl (L ! cur))"
        by (auto simp: linked_def points_to_def)
      obtain x v where v: "L ! cur = x # v" using root_string [OF t Suc.prems(1)] False by (cases "L ! cur") auto
      have "L ! cur @ [c] \<notin> set L" using trie_no_child [OF t Suc.prems(1)] False by simp
      then have "longest_suffix (set L) (L ! f @ [c]) = longest_suffix (set L) (L ! cur @ [c])"
        using longest_suffix_step [OF trie_simps(5) [OF t], of v c] by (simp add: f(3) v)
      moreover have "length (L ! f) < Suc k" using longest_suffix_length [of "set L" v] Suc.prems(2) by (simp add: f(3) v)
      ultimately show ?thesis using Suc.IH [OF f(1)] False f(2) by (simp add: follow_fail.simps [of "Suc k"])
    qed
  }
qed


lemma walk_keep:
  assumes a: "linked_automaton A L D"
  shows "n < length L \<Longrightarrow> length (L ! n) < k \<Longrightarrow> length (L ! n) \<le> snd best \<Longrightarrow> walk_out k A (Some n) best = Some best"
proof (induction k arbitrary: n)
  case (Suc k)
  have t: "trie A L D" and r: "root_ok A" using a by (simp_all add: linked_automaton_def)
  have "output_id (A ! n) \<noteq> 0 \<Longrightarrow> output_len (A ! n) = length (L ! n)"
    using trie_simps(8) [OF t Suc.prems(1)] by (auto simp: output_ok_def split: option.splits)
  then have b: "better (A ! n) best = best" using Suc.prems(3) by (auto simp: better_def)
  show ?case
  proof (cases "n = 0")
    case True
    then show ?thesis using b r by (simp add: root_ok_def)
  next
    case False
    then have l: "points_to L (out_link (A ! n)) (longest_out (outs D) (tl (L ! n)))"
      using a Suc.prems(1) by (simp add: linked_automaton_def linked_def)
    show ?thesis
    proof (cases "longest_out (outs D) (tl (L ! n))")
      case None
      then show ?thesis using b l by (simp add: points_to_def)
    next
      case (Some w)
      then obtain m where m: "m < length L" "out_link (A ! n) = Some m" "L ! m = w" using l by (auto simp: points_to_def)
      have "suffix w (tl (L ! n))" "w \<noteq> []" using longest_out_Some [OF Some] by auto
      then have "length w < length (L ! n)" using suffix_length_le [of w "tl (L ! n)"] by (cases "L ! n") auto
      then show ?thesis using Suc.IH [OF m(1)] Suc.prems b m(2,3) by simp
    qed
  qed
qed simp

definition improved :: "dict \<Rightarrow> bytes option \<Rightarrow> int \<times> nat \<Rightarrow> int \<times> nat" where
  "improved D w best = (case w of None \<Rightarrow> best | Some s \<Rightarrow> if snd best < length s then (the (D s), length s) else best)"

lemma walk_result:
  assumes a: "linked_automaton A L D"
  shows "n < length L \<Longrightarrow> length (L ! n) < k \<Longrightarrow> walk_out k A (Some n) best = Some (improved D (longest_out (outs D) (L ! n)) best)"
proof (induction k arbitrary: n)
  case (Suc k)
  have t: "trie A L D" and r: "root_ok A" using a by (simp_all add: linked_automaton_def)
  show ?case
  proof (cases "n = 0")
    case True
    then have "L ! n = []" "output_id (A ! n) = 0"
      using trie_simps(3,6) [OF t] output_in_outs [OF t Suc.prems(1)] outs_def by (auto simp: outs_def)
    then show ?thesis using True r by (simp add: better_def improved_def root_ok_def)
  next
    case False
    then have l: "points_to L (out_link (A ! n)) (longest_out (outs D) (tl (L ! n)))"
      using a Suc.prems(1) by (simp add: linked_automaton_def linked_def)
    obtain x v where v: "L ! n = x # v" using root_string [OF t Suc.prems(1)] False by (cases "L ! n") auto
    show ?thesis
    proof (cases "L ! n \<in> outs D")
      case True
      then have o: "output_id (A ! n) \<noteq> 0" using output_in_outs [OF t Suc.prems(1)] by simp
      then have e: "output_id (A ! n) = the (D (L ! n))" "output_len (A ! n) = length (L ! n)"
        using trie_simps(8) [OF t Suc.prems(1)] by (auto simp: output_ok_def split: option.splits)
      have b: "better (A ! n) best = improved D (Some (L ! n)) best" using o e by (simp add: better_def improved_def)
      have "walk_out k A (out_link (A ! n)) (better (A ! n) best) = Some (better (A ! n) best)"
      proof (cases "longest_out (outs D) v")
        case None
        then show ?thesis using l by (simp add: points_to_def v)
      next
        case (Some w)
        then obtain m where m: "m < length L" "out_link (A ! n) = Some m" "L ! m = w" using l by (auto simp: points_to_def v)
        have "length w \<le> length v" using longest_out_Some [OF Some] suffix_length_le by blast
        then show ?thesis using walk_keep [OF a m(1), of k "better (A ! n) best"] m(2,3) Suc.prems(2) b v
          by (simp add: improved_def)
      qed
      then show ?thesis using True b by (simp add: v)
    next
      case no: False
      then have b: "better (A ! n) best = best" using output_in_outs [OF t Suc.prems(1)] by (simp add: better_def)
      show ?thesis
      proof (cases "longest_out (outs D) v")
        case None
        then show ?thesis using l b no by (simp add: points_to_def v improved_def)
      next
        case (Some w)
        then obtain m where m: "m < length L" "out_link (A ! n) = Some m" "L ! m = w" using l by (auto simp: points_to_def v)
        have w: "w \<in> outs D" "w \<noteq> []" "length w \<le> length v" using longest_out_Some [OF Some] suffix_length_le by blast+
        then have "longest_out (outs D) w = Some w" by (cases w) auto
        then show ?thesis using Suc.IH [OF m(1)] Suc.prems(2) m(2,3) b no w Some by (simp add: v)
      qed
    qed
  qed
qed simp

text \<open>What the best pair says of the text read so far.\<close>

definition longest_at :: "dict \<Rightarrow> bytes \<Rightarrow> int \<times> nat \<Rightarrow> bool" where
  "longest_at D u best \<longleftrightarrow>
     (\<exists>w p. w \<in> outs D \<and> D w = Some (fst best) \<and> snd best = length w \<and> prefix p u \<and> suffix w p \<and>
        (\<forall>q v. strict_prefix q p \<longrightarrow> v \<in> outs D \<longrightarrow> suffix v q \<longrightarrow> length v < length w))"

definition best_ok :: "dict \<Rightarrow> bytes \<Rightarrow> int \<times> nat \<Rightarrow> bool" where
  "best_ok D u best \<longleftrightarrow>
     (\<forall>v \<in> outs D. sublist v u \<longrightarrow> length v \<le> snd best) \<and>
     (if \<exists>v \<in> outs D. sublist v u then longest_at D u best else best = (0, 0))"

lemma longest_at_snoc: "longest_at D u best \<Longrightarrow> longest_at D (u @ [c]) best"
  unfolding longest_at_def by (blast intro: prefix_prefix)

lemma sublist_snoc: "sublist v (u @ [c]) \<longleftrightarrow> sublist v u \<or> suffix v (u @ [c])"
proof
  assume "sublist v (u @ [c])"
  then obtain a b where e: "u @ [c] = a @ v @ b" by (auto simp: sublist_def)
  show "sublist v u \<or> suffix v (u @ [c])"
  proof (cases b rule: rev_cases)
    case Nil
    then show ?thesis using e by (auto simp: suffix_def)
  next
    case (snoc b' d)
    then have "u = a @ v @ b'" using e by simp
    then show ?thesis by (auto simp: sublist_def)
  qed
next
  assume "sublist v u \<or> suffix v (u @ [c])"
  then show "sublist v (u @ [c])"
    using sublist_order.order.trans [of v u "u @ [c]"] by (auto intro: suffix_imp_sublist prefix_imp_sublist)
qed

lemma prefix_suffix_sublist: "prefix p u \<Longrightarrow> suffix v p \<Longrightarrow> sublist v u"
  using sublist_order.order.trans [of v p u] by (simp add: suffix_imp_sublist prefix_imp_sublist)

lemma outs_nonempty: "trie A L D \<Longrightarrow> v \<in> outs D \<Longrightarrow> v \<noteq> []"
  using trie_simps(6) [of A L D] by (auto simp: outs_def)

lemma best_step:
  assumes b: "best_ok D u best" and ne: "[] \<notin> outs D"
  shows "best_ok D (u @ [c]) (improved D (longest_out (outs D) (u @ [c])) best)"
proof (cases "longest_out (outs D) (u @ [c])")
  case None
  then have "sublist v (u @ [c]) \<longleftrightarrow> sublist v u" if "v \<in> outs D" for v
    using that ne longest_out_max [of v "outs D" "u @ [c]"] by (auto simp: sublist_snoc)
  then have same: "(\<exists>v \<in> outs D. sublist v (u @ [c])) = (\<exists>v \<in> outs D. sublist v u)"
      "(\<forall>v \<in> outs D. sublist v (u @ [c]) \<longrightarrow> length v \<le> snd best) = (\<forall>v \<in> outs D. sublist v u \<longrightarrow> length v \<le> snd best)"
    by blast+
  show ?thesis
    using b unfolding best_ok_def None improved_def option.case same
    by (cases "\<exists>v \<in> outs D. sublist v u") (simp_all add: longest_at_snoc)
next
  case (Some w)
  note w = longest_out_Some [OF Some]
  have longest: "length v \<le> length w" if "v \<in> outs D" "suffix v (u @ [c])" for v
    using that ne longest_out_max [of v "outs D" "u @ [c]"] Some by (metis option.inject)
  have some: "\<exists>v \<in> outs D. sublist v (u @ [c])" using w by (auto simp: sublist_snoc)
  show ?thesis
  proof (cases "snd best < length w")
    case True
    have "\<exists>i. D w = Some i" using w by (auto simp: outs_def)
    then have d: "D w = Some (the (D w))" by auto
    have "\<forall>v \<in> outs D. sublist v (u @ [c]) \<longrightarrow> length v \<le> length w"
      using b True longest unfolding best_ok_def sublist_snoc by force
    moreover have "length v < length w" if "strict_prefix q (u @ [c])" "v \<in> outs D" "suffix v q" for q v
    proof -
      have "prefix q u" using that(1) by (auto simp: strict_prefix_def)
      then have "sublist v u" using prefix_suffix_sublist that(3) by blast
      then show ?thesis using b True that(2) unfolding best_ok_def by force
    qed
    ultimately have "longest_at D (u @ [c]) (the (D w), length w)" and
        "\<forall>v \<in> outs D. sublist v (u @ [c]) \<longrightarrow> length v \<le> snd (the (D w), length w)"
      unfolding longest_at_def fst_conv snd_conv using w d by blast+
    then show ?thesis unfolding best_ok_def Some improved_def option.case if_P [OF True] if_P [OF some] by blast
  next
    case False
    have pos: "0 < snd best" using False w by (cases w) auto
    then have ex: "\<exists>v \<in> outs D. sublist v u" using b unfolding best_ok_def by (auto split: if_splits)
    have old: "longest_at D u best" using b unfolding best_ok_def if_P [OF ex] by blast
    have "\<forall>v \<in> outs D. sublist v (u @ [c]) \<longrightarrow> length v \<le> snd best"
      using b False longest unfolding best_ok_def sublist_snoc by force
    then show ?thesis
      using longest_at_snoc [OF old, of c] unfolding best_ok_def Some improved_def option.case if_not_P [OF False] if_P [OF some] by blast
  qed
qed

lemma match_loop_ok:
  assumes a: "linked_automaton A L D" and "n < length L" and "L ! n = longest_suffix (set L) u" and "best_ok D u best"
  shows "\<exists>n' best'. match_loop A cs (n, best) = Some (n', best') \<and> best_ok D (u @ cs) best'"
  using assms(2-)
proof (induction cs arbitrary: n u best)
  case (Cons c cs)
  have t: "trie A L D" using a by (simp add: linked_automaton_def)
  have ne: "[] \<notin> outs D" using outs_nonempty [OF t] by blast
  have "length (L ! n) < Suc (length A)" using trie_fuel [OF t Cons.prems(1)] by simp
  from follow_fail_ok [OF a Cons.prems(1) this, of c] obtain m where
    m: "follow_fail (length A) A c n = Some m" "(case next_node (A ! m) c of Some m' \<Rightarrow> m' | None \<Rightarrow> m) < length L"
      "L ! (case next_node (A ! m) c of Some m' \<Rightarrow> m' | None \<Rightarrow> m) = longest_suffix (set L) (L ! n @ [c])"
    by blast
  define n' where "n' = (case next_node (A ! m) c of Some m' \<Rightarrow> m' | None \<Rightarrow> m)"
  have n': "n' < length L" "L ! n' = longest_suffix (set L) (u @ [c])"
    using m longest_suffix_step [OF trie_simps(5) [OF t], of u c] Cons.prems(2) by (simp_all add: n'_def)
  have "longest_out (outs D) (u @ [c]) = longest_out (outs D) (L ! n')"
    using longest_out_suffix [OF outs_subset [OF t] n'(2)] .
  then have "match_char A c (n, best) = Some (n', improved D (longest_out (outs D) (u @ [c])) best)"
    using m(1) walk_result [OF a n'(1), of "Suc (length A)" best] trie_fuel [OF t n'(1)]
    by (simp add: match_char_def n'_def [symmetric] Let_def)
  then show ?case using Cons.IH [OF n' best_step [OF Cons.prems(3) ne]] by simp
qed auto

text \<open>The dictionary of a list of patterns: the last id entered for a pattern; the empty pattern is ignored.\<close>

definition dictionary :: "(bytes \<times> int) list \<Rightarrow> dict" where
  "dictionary ps = fold enter ps Map.empty"

lemma ac_match_best:
  "\<exists>A best. automaton_of ps = Some A \<and> ac_match A (Some subject) = Some (fst best) \<and>
     best_ok (dictionary ps) (c_string subject) best"
proof -
  obtain L where t: "trie (fold addPattern ps [new_node]) L (dictionary ps)" "root_ok (fold addPattern ps [new_node])"
    using patterns_trie [OF new_node_trie] unfolding dictionary_def by blast
  obtain A where A: "automaton_of ps = Some A" "linked_automaton A L (dictionary ps)"
    using build_ok [OF t] by (auto simp: automaton_of_def)
  have tA: "trie A L (dictionary ps)" using A(2) by (simp add: linked_automaton_def)
  have "best_ok (dictionary ps) [] (0, 0)"
    using outs_nonempty [OF tA] by (auto simp: best_ok_def)
  from match_loop_ok [OF A(2) _ _ this, of 0 "c_string subject"] trie_simps(2,3) [OF tA] obtain n best where
    m: "match_loop A (c_string subject) (0, 0, 0) = Some (n, best)" "best_ok (dictionary ps) (c_string subject) best"
    by auto
  have "ac_match A (Some subject) = Some (fst best)" using m(1) by (simp add: ac_match_def)
  then show ?thesis using A(1) m(2) by blast
qed

text \<open>
  (C29) The automaton is built and answers for every list of patterns and every text, and the answer is
  the longest match: the id of a pattern with an id other than 0 that occurs in the text up to its first
  null byte, such that no longer pattern occurs and none of that length ends earlier; 0 if no such
  pattern occurs.  A pattern that was added twice has its last id.
\<close>

theorem ac_match_longest:
  "\<exists>A r. automaton_of ps = Some A \<and> ac_match A (Some subject) = Some r \<and>
     (if \<exists>v \<in> outs (dictionary ps). sublist v (c_string subject)
      then \<exists>w p. w \<in> outs (dictionary ps) \<and> dictionary ps w = Some r \<and> prefix p (c_string subject) \<and> suffix w p \<and>
             (\<forall>v \<in> outs (dictionary ps). sublist v (c_string subject) \<longrightarrow> length v \<le> length w) \<and>
             (\<forall>q v. strict_prefix q p \<longrightarrow> v \<in> outs (dictionary ps) \<longrightarrow> suffix v q \<longrightarrow> length v < length w)
      else r = 0)"
proof -
  obtain A best where m: "automaton_of ps = Some A" "ac_match A (Some subject) = Some (fst best)"
      "best_ok (dictionary ps) (c_string subject) best"
    using ac_match_best by blast
  have "if \<exists>v \<in> outs (dictionary ps). sublist v (c_string subject)
      then \<exists>w p. w \<in> outs (dictionary ps) \<and> dictionary ps w = Some (fst best) \<and> prefix p (c_string subject) \<and> suffix w p \<and>
             (\<forall>v \<in> outs (dictionary ps). sublist v (c_string subject) \<longrightarrow> length v \<le> length w) \<and>
             (\<forall>q v. strict_prefix q p \<longrightarrow> v \<in> outs (dictionary ps) \<longrightarrow> suffix v q \<longrightarrow> length v < length w)
      else fst best = 0"
  proof (cases "\<exists>v \<in> outs (dictionary ps). sublist v (c_string subject)")
    case True
    from m(3) show ?thesis unfolding best_ok_def longest_at_def if_P [OF True] by metis
  next
    case False
    from m(3) show ?thesis unfolding best_ok_def if_not_P [OF False] by simp
  qed
  then show ?thesis using m(1,2) by blast
qed

theorem ac_match_longest_witness:
  "\<exists>A r. automaton_of [(''ab'', 1), (''b'', 2)] = Some A \<and> ac_match A (Some ''xabb'') = Some r \<and> r \<noteq> 0"
proof -
  let ?D = "dictionary [(''ab'', 1), (''b'', 2)]"
  have "''b'' \<in> outs ?D" by (simp add: dictionary_def enter_def outs_def)
  moreover have "sublist ''b'' (c_string ''xabb'')" by code_simp
  ultimately have ex: "\<exists>v \<in> outs ?D. sublist v (c_string ''xabb'')" by blast
  from ac_match_longest [of "[(''ab'', 1), (''b'', 2)]" "''xabb''", unfolded if_P [OF ex]]
  show ?thesis unfolding outs_def by auto
qed

section \<open>The dispatch of the JavaScript visitor\<close>

definition js_patterns :: "(bytes \<times> int) list" where
  "js_patterns =
     [(''function_declaration'', 100), (''generator_function_declaration'', 100), (''arrow_function'', 101), (''class_declaration'', 102),
      (''method_definition'', 103), (''call_expression'', 104), (''identifier'', 105), (''variable_declaration'', 106),
      (''lexical_declaration'', 106), (''import_statement'', 107), (''import'', 107), (''export_statement'', 108),
      (''export'', 108), (''member_expression'', 109), (''new_expression'', 110), (''number'', 200),
      (''string'', 200), (''template_string'', 200), (''true'', 200), (''false'', 200),
      (''null'', 200), (''undefined'', 200), (''regex'', 200), (''comment'', 201),
      (''return_statement'', 300), (''if_statement'', 300), (''for_statement'', 300), (''for_in_statement'', 300),
      (''for_of_statement'', 300), (''while_statement'', 300), (''do_statement'', 300), (''switch_statement'', 300),
      (''switch_case'', 300), (''try_statement'', 300), (''catch_clause'', 111), (''throw_statement'', 300),
      (''binary_expression'', 300), (''unary_expression'', 300), (''assignment_expression'', 300), (''ternary_expression'', 300),
      (''subscript_expression'', 300), (''await_expression'', 300), (''yield_expression'', 300)]"

text \<open>The handlers of \<open>visitNode\<close>, and what the default does.\<close>

datatype js_handler =
    FunctionDecl | ArrowFunction | ClassDecl | MethodDef | CallExpr | Identifier | VariableDecl | ImportStmt | ExportStmt
  | MemberExpr | NewExpr | CatchClause | EmitLiteral | EmitComment | VisitChildren

definition js_handler_of :: "int \<Rightarrow> js_handler" where
  "js_handler_of i =
     (if i = 100 then FunctionDecl else if i = 101 then ArrowFunction else if i = 102 then ClassDecl
      else if i = 103 then MethodDef else if i = 104 then CallExpr else if i = 105 then Identifier
      else if i = 106 then VariableDecl else if i = 107 then ImportStmt else if i = 108 then ExportStmt
      else if i = 109 then MemberExpr else if i = 110 then NewExpr else if i = 111 then CatchClause
      else if i = 200 then EmitLiteral else if i = 201 then EmitComment else VisitChildren)"

definition js_dispatch :: "bytes \<Rightarrow> js_handler option" where
  "js_dispatch type_name = Option.bind (automaton_of js_patterns) (\<lambda>A. map_option js_handler_of (ac_match A (Some type_name)))"

lemma dictionary_map_of: "list_all (\<lambda>p. fst p \<noteq> []) ps \<Longrightarrow> dictionary ps = map_of (rev ps)"
proof (induction ps rule: rev_induct)
  case (snoc p ps)
  then show ?case by (cases p) (simp add: dictionary_def enter_def)
qed (simp add: dictionary_def)

lemma js_facts:
  "list_all (\<lambda>p. fst p \<noteq> []) js_patterns" "distinct (map fst js_patterns)" "list_all (\<lambda>p. snd p \<noteq> 0) js_patterns"
  "list_all (\<lambda>p. c_string (fst p) = fst p) js_patterns"
  by code_simp+

lemma js_dictionary: "dictionary js_patterns w = Some i \<longleftrightarrow> (w, i) \<in> set js_patterns"
  using dictionary_map_of [OF js_facts(1)] js_facts(2) by (simp add: map_of_eq_Some_iff rev_map [symmetric])

lemma js_outs: "outs (dictionary js_patterns) = fst ` set js_patterns"
  using js_facts(3) unfolding outs_def js_dictionary list_all_iff by force

text \<open>The handler is that of the longest pattern in the name, if the pattern is known to be in it.\<close>

lemma js_dispatch_longest:
  assumes "(w, i) \<in> set js_patterns" and "sublist w (c_string s)"
    and "\<And>v j. (v, j) \<in> set js_patterns \<Longrightarrow> sublist v (c_string s) \<Longrightarrow> length w \<le> length v \<Longrightarrow> v = w"
  shows "js_dispatch s = Some (js_handler_of i)"
proof -
  have "w \<in> outs (dictionary js_patterns)" using assms(1) unfolding js_outs by force
  then have ex: "\<exists>v \<in> outs (dictionary js_patterns). sublist v (c_string s)" using assms(2) by blast
  from ac_match_best [of js_patterns s] ex obtain A best where
    A: "automaton_of js_patterns = Some A" "ac_match A (Some s) = Some (fst best)"
      "\<forall>u \<in> outs (dictionary js_patterns). sublist u (c_string s) \<longrightarrow> length u \<le> snd best"
      "longest_at (dictionary js_patterns) (c_string s) best"
    unfolding best_ok_def by auto
  from A(4) obtain v p where v: "dictionary js_patterns v = Some (fst best)" "snd best = length v"
      "prefix p (c_string s)" "suffix v p" unfolding longest_at_def by blast
  have "length w \<le> length v" using A(3) v(2) assms(2) \<open>w \<in> outs _\<close> by auto
  moreover have "sublist v (c_string s)" using prefix_suffix_sublist [OF v(3,4)] .
  ultimately have "v = w" using assms(3) v(1) unfolding js_dictionary by blast
  then have "fst best = i" using v(1) assms(1) js_dictionary [of w i] by simp
  then show ?thesis using A(1,2) by (simp add: js_dispatch_def)
qed

lemma sublist_same_length: "sublist v u \<Longrightarrow> length u \<le> length v \<Longrightarrow> v = u"
  by (auto simp: sublist_def)

text \<open>
  On the types that it lists, the dispatch by the automaton is the chain of comparisons that it
  replaces: the type of every pattern is handled by the handler of that pattern, although patterns occur
  in each other.
\<close>

theorem js_dispatch_exact:
  assumes "(type_name, i) \<in> set js_patterns"
  shows "js_dispatch type_name = Some (js_handler_of i)"
proof (rule js_dispatch_longest [OF assms])
  have c: "c_string type_name = type_name" using js_facts(4) assms by (force simp: list_all_iff)
  then show "sublist type_name (c_string type_name)" by simp
  fix v j
  assume "sublist v (c_string type_name)" "length type_name \<le> length v"
  then show "v = type_name" using c sublist_same_length [of v type_name] by simp
qed

theorem js_dispatch_exact_witness: "js_dispatch ''generator_function_declaration'' = Some FunctionDecl"
proof -
  have "(''generator_function_declaration'', 100) \<in> set js_patterns" by (simp add: js_patterns_def)
  from js_dispatch_exact [OF this] show ?thesis by (simp add: js_handler_of_def)
qed

text \<open>
  On other types it is not: a type that contains a listed one is handled like it, where a comparison
  would visit the children.
\<close>

theorem js_dispatch_substring:
  "js_dispatch ''property_identifier'' = Some Identifier \<and> js_dispatch ''import_clause'' = Some ImportStmt \<and>
   js_dispatch ''export_specifier'' = Some ExportStmt \<and>
   list_all (\<lambda>s. s \<notin> fst ` set js_patterns) [''property_identifier'', ''import_clause'', ''export_specifier'']"
proof -
  have one: "js_dispatch s = Some (js_handler_of i)"
    if f: "filter (\<lambda>p. sublist (fst p) (c_string s)) js_patterns = [(w, i)]" for s w i
  proof (rule js_dispatch_longest)
    have m: "(v, j) \<in> set [(w, i)] \<longleftrightarrow> (v, j) \<in> set js_patterns \<and> sublist v (c_string s)" for v j
      unfolding f [symmetric] by simp
    show "(w, i) \<in> set js_patterns" "sublist w (c_string s)" using m [of w i] by simp_all
    show "v = w" if "(v, j) \<in> set js_patterns" "sublist v (c_string s)" for v j using m [of v j] that by simp
  qed
  have f: "filter (\<lambda>p. sublist (fst p) (c_string ''property_identifier'')) js_patterns = [(''identifier'', 105)]"
    "filter (\<lambda>p. sublist (fst p) (c_string ''import_clause'')) js_patterns = [(''import'', 107)]"
    "filter (\<lambda>p. sublist (fst p) (c_string ''export_specifier'')) js_patterns = [(''export'', 108)]"
    by code_simp+
  have n: "list_all (\<lambda>s. s \<notin> fst ` set js_patterns) [''property_identifier'', ''import_clause'', ''export_specifier'']"
    by code_simp
  show ?thesis using one [OF f(1)] one [OF f(2)] one [OF f(3)] n by (simp only: js_handler_of_def) simp
qed

end
