(* ===== verification/Semantic_Unit.thy ===== *)
theory Semantic_Unit
  imports Prelude
begin

text \<open>
  The records that a visitor extracts from one source file (\<open>ir/semantic_unit.h\<close>,
  \<open>ir/semantic_unit.cpp\<close>) and the emitter through which it adds them (\<open>ir/semantic_emitter.cpp\<close>).

  Identifiers are natural numbers, which stay below \<open>2 ^ 64\<close> as long as the records fit in memory; the
  hash map from an id to the place of its record is an association list with the newest pair first.
\<close>

section \<open>Records\<close>

record source_range =
  start_row :: "32 word"
  start_col :: "32 word"
  end_row :: "32 word"
  end_col :: "32 word"

definition isValid :: "source_range \<Rightarrow> bool" where
  "isValid r \<longleftrightarrow> start_row r \<le> end_row r \<or> start_row r = end_row r \<and> start_col r \<le> end_col r"

datatype record_kind =
    RFunction | RMethod | RClass | RInterface | REnum | RTypeAlias | RVariable | RField | RParameter | RCallExpr
  | RMemberExpr | RImport | RExport | RLiteral | RComment | RTranslationUnit | RTypeDecl | RTypeRef | RTypeAssign
  | RRoute | RInterfaceImpl | RImportBinding

datatype call_kind = Direct | MethodCall | InterfaceCall | Constructor | StaticMethod | Virtual

text \<open>The cast of an \<open>int\<close> to the enum keeps the low byte; the named values are those below 6.\<close>

definition call_kind_code :: "call_kind \<Rightarrow> 8 word" where
  "call_kind_code k =
     (case k of Direct \<Rightarrow> 0 | MethodCall \<Rightarrow> 1 | InterfaceCall \<Rightarrow> 2 | Constructor \<Rightarrow> 3 | StaticMethod \<Rightarrow> 4 | Virtual \<Rightarrow> 5)"

record sem_record =
  rec_id :: nat
  original_id :: nat
  rec_kind :: record_kind
  rec_name :: bytes
  qualified_name :: bytes
  type_name :: bytes
  parent_id :: nat
  ref_original_id :: nat
  resolve_strategy :: bytes
  rec_loc :: source_range
  rec_file :: bytes
  rec_language :: bytes
  arity :: int
  is_static :: bool
  rec_call_kind :: "8 word"
  visibility :: int
  qualified_target :: bytes
  receiver_text :: bytes
  receiver_type :: bytes
  import_alias :: bytes

section \<open>The unit\<close>

record semantic_unit =
  records :: "sem_record list"
  id_to_index :: "(nat \<times> nat) list"
  unit_file :: bytes
  unit_language :: bytes
  next_id :: nat

definition new_unit :: semantic_unit where
  "new_unit = \<lparr>records = [], id_to_index = [], unit_file = [], unit_language = [], next_id = 1\<rparr>"

definition setFilePath :: "bytes \<Rightarrow> semantic_unit \<Rightarrow> semantic_unit" where
  "setFilePath path u = u\<lparr>unit_file := path\<rparr>"

definition setLanguage :: "bytes \<Rightarrow> semantic_unit \<Rightarrow> semantic_unit" where
  "setLanguage lang u = u\<lparr>unit_language := lang\<rparr>"

text \<open>What the three ways to add a record share: the next id, and the file and language of the unit.\<close>

definition fresh_record :: "semantic_unit \<Rightarrow> record_kind \<Rightarrow> bytes \<Rightarrow> nat \<Rightarrow> source_range \<Rightarrow> sem_record" where
  "fresh_record u k name parent loc =
     \<lparr>rec_id = next_id u, original_id = 0, rec_kind = k, rec_name = name, qualified_name = [], type_name = [],
      parent_id = parent, ref_original_id = 0, resolve_strategy = [], rec_loc = loc, rec_file = unit_file u,
      rec_language = unit_language u, arity = 0, is_static = False, rec_call_kind = 0, visibility = 0,
      qualified_target = [], receiver_text = [], receiver_type = [], import_alias = []\<rparr>"

definition push_record :: "sem_record \<Rightarrow> (nat \<times> nat) list \<Rightarrow> semantic_unit \<Rightarrow> nat \<times> semantic_unit" where
  "push_record r extra u =
     (rec_id r,
      u\<lparr>records := records u @ [r], id_to_index := extra @ (rec_id r, length (records u)) # id_to_index u,
        next_id := Suc (next_id u)\<rparr>)"

definition addRecord ::
  "record_kind \<Rightarrow> bytes \<Rightarrow> nat \<Rightarrow> source_range \<Rightarrow> int \<Rightarrow> bool \<Rightarrow> int \<Rightarrow> semantic_unit \<Rightarrow> nat \<times> semantic_unit" where
  "addRecord k name parent loc n static vis u =
     push_record ((fresh_record u k name parent loc)\<lparr>arity := n, is_static := static, visibility := vis\<rparr>) [] u"

definition addTypedRecord ::
  "record_kind \<Rightarrow> bytes \<Rightarrow> bytes \<Rightarrow> nat \<Rightarrow> source_range \<Rightarrow> int \<Rightarrow> semantic_unit \<Rightarrow> nat \<times> semantic_unit" where
  "addTypedRecord k name ty parent loc vis u =
     push_record ((fresh_record u k name parent loc)\<lparr>type_name := ty, visibility := vis\<rparr>) [] u"

text \<open>The third one, to rebuild a unit from stored rows, also enters the id that the row had.\<close>

definition addRebuilt ::
  "record_kind \<Rightarrow> bytes \<Rightarrow> bytes \<Rightarrow> nat \<Rightarrow> nat \<Rightarrow> source_range \<Rightarrow> semantic_unit \<Rightarrow> nat \<times> semantic_unit" where
  "addRebuilt k name qname original parent loc u =
     push_record ((fresh_record u k name parent loc)\<lparr>qualified_name := qname\<rparr>)
       (if 0 < original then [(original, length (records u))] else []) u"

definition getRecord :: "semantic_unit \<Rightarrow> nat \<Rightarrow> sem_record option" where
  "getRecord u i = map_option (\<lambda>n. records u ! n) (map_of (id_to_index u) i)"

section \<open>Queries and updates\<close>

definition findRecordsByKind :: "semantic_unit \<Rightarrow> record_kind \<Rightarrow> nat list" where
  "findRecordsByKind u k = filter (\<lambda>n. rec_kind (records u ! n) = k) [0..<length (records u)]"

text \<open>\<open>SIZE_MAX\<close> is \<open>None\<close>.\<close>

definition findRecordByName :: "semantic_unit \<Rightarrow> bytes \<Rightarrow> nat option" where
  "findRecordByName u name = List.find (\<lambda>n. rec_name (records u ! n) = name) [0..<length (records u)]"

definition getChildren :: "semantic_unit \<Rightarrow> nat \<Rightarrow> nat list" where
  "getChildren u p = filter (\<lambda>n. parent_id (records u ! n) = p) [0..<length (records u)]"

definition set_record :: "nat \<Rightarrow> (sem_record \<Rightarrow> sem_record) \<Rightarrow> semantic_unit \<Rightarrow> bool \<times> semantic_unit" where
  "set_record i f u =
     (case map_of (id_to_index u) i of
        None \<Rightarrow> (False, u)
      | Some n \<Rightarrow> (True, u\<lparr>records := (records u)[n := f (records u ! n)]\<rparr>))"

definition setCallReference :: "nat \<Rightarrow> nat \<Rightarrow> semantic_unit \<Rightarrow> bool \<times> semantic_unit" where
  "setCallReference i ref = set_record i (\<lambda>r. r\<lparr>ref_original_id := ref\<rparr>)"

definition setCallKind :: "nat \<Rightarrow> int \<Rightarrow> semantic_unit \<Rightarrow> bool \<times> semantic_unit" where
  "setCallKind i k = set_record i (\<lambda>r. r\<lparr>rec_call_kind := of_int k\<rparr>)"

definition setCallStrategy :: "nat \<Rightarrow> bytes \<Rightarrow> semantic_unit \<Rightarrow> bool \<times> semantic_unit" where
  "setCallStrategy i s = set_record i (\<lambda>r. r\<lparr>resolve_strategy := s\<rparr>)"

definition setCallFacts :: "nat \<Rightarrow> bytes \<Rightarrow> bytes \<Rightarrow> bytes \<Rightarrow> bytes \<Rightarrow> semantic_unit \<Rightarrow> bool \<times> semantic_unit" where
  "setCallFacts i target rtext rtype alias =
     set_record i (\<lambda>r. r\<lparr>qualified_target := target, receiver_text := rtext, receiver_type := rtype, import_alias := alias\<rparr>)"

definition setQualifiedName :: "nat \<Rightarrow> bytes \<Rightarrow> semantic_unit \<Rightarrow> bool \<times> semantic_unit" where
  "setQualifiedName i name = set_record i (\<lambda>r. r\<lparr>qualified_name := name\<rparr>)"

section \<open>The emitter\<close>

definition emitFunction :: "bytes \<Rightarrow> source_range \<Rightarrow> nat \<Rightarrow> int \<Rightarrow> bool \<Rightarrow> int \<Rightarrow> semantic_unit \<Rightarrow> nat \<times> semantic_unit" where
  "emitFunction name loc parent n static vis = addRecord RFunction name parent loc n static vis"

definition emitMethod :: "bytes \<Rightarrow> source_range \<Rightarrow> nat \<Rightarrow> int \<Rightarrow> bool \<Rightarrow> int \<Rightarrow> semantic_unit \<Rightarrow> nat \<times> semantic_unit" where
  "emitMethod name loc parent n static vis = addRecord RMethod name parent loc n static vis"

definition emitClass :: "bytes \<Rightarrow> source_range \<Rightarrow> nat \<Rightarrow> int \<Rightarrow> semantic_unit \<Rightarrow> nat \<times> semantic_unit" where
  "emitClass name loc parent vis = addRecord RClass name parent loc 0 False vis"

definition emitInterface :: "bytes \<Rightarrow> source_range \<Rightarrow> nat \<Rightarrow> int \<Rightarrow> semantic_unit \<Rightarrow> nat \<times> semantic_unit" where
  "emitInterface name loc parent vis = addRecord RInterface name parent loc 0 False vis"

definition emitEnum :: "bytes \<Rightarrow> source_range \<Rightarrow> nat \<Rightarrow> int \<Rightarrow> semantic_unit \<Rightarrow> nat \<times> semantic_unit" where
  "emitEnum name loc parent vis = addRecord REnum name parent loc 0 False vis"

definition emitTypeAlias :: "bytes \<Rightarrow> source_range \<Rightarrow> nat \<Rightarrow> int \<Rightarrow> semantic_unit \<Rightarrow> nat \<times> semantic_unit" where
  "emitTypeAlias name loc parent vis = addRecord RTypeAlias name parent loc 0 False vis"

definition emitVariable :: "bytes \<Rightarrow> source_range \<Rightarrow> nat \<Rightarrow> int \<Rightarrow> semantic_unit \<Rightarrow> nat \<times> semantic_unit" where
  "emitVariable name loc parent vis = addRecord RVariable name parent loc 0 False vis"

definition emitCall :: "bytes \<Rightarrow> source_range \<Rightarrow> nat \<Rightarrow> int \<Rightarrow> bool \<Rightarrow> int \<Rightarrow> semantic_unit \<Rightarrow> nat \<times> semantic_unit" where
  "emitCall name loc parent n static kind u =
     (let (i, u') = addRecord RCallExpr name parent loc n static 0 u
      in (i, if kind \<noteq> 0 then snd (setCallKind i kind u') else u'))"

definition emitMemberAccess :: "bytes \<Rightarrow> source_range \<Rightarrow> nat \<Rightarrow> semantic_unit \<Rightarrow> nat \<times> semantic_unit" where
  "emitMemberAccess name loc parent = addRecord RMemberExpr name parent loc 0 False 0"

definition emitImport :: "bytes \<Rightarrow> source_range \<Rightarrow> nat \<Rightarrow> semantic_unit \<Rightarrow> nat \<times> semantic_unit" where
  "emitImport name loc parent = addRecord RImport name parent loc 0 False 0"

definition emitImportBinding :: "bytes \<Rightarrow> bytes \<Rightarrow> source_range \<Rightarrow> nat \<Rightarrow> semantic_unit \<Rightarrow> nat \<times> semantic_unit" where
  "emitImportBinding name spec loc parent = addTypedRecord RImportBinding name spec parent loc 0"

definition emitExport :: "bytes \<Rightarrow> source_range \<Rightarrow> nat \<Rightarrow> semantic_unit \<Rightarrow> nat \<times> semantic_unit" where
  "emitExport name loc parent = addRecord RExport name parent loc 0 False 0"

definition emitReference :: "bytes \<Rightarrow> source_range \<Rightarrow> nat \<Rightarrow> int \<Rightarrow> semantic_unit \<Rightarrow> nat \<times> semantic_unit" where
  "emitReference name loc parent n = addRecord RCallExpr name parent loc n False 0"

definition emitTypeRef :: "bytes \<Rightarrow> bytes \<Rightarrow> source_range \<Rightarrow> nat \<Rightarrow> semantic_unit \<Rightarrow> nat \<times> semantic_unit" where
  "emitTypeRef name ty loc parent = addTypedRecord RTypeRef name ty parent loc 0"

definition emitTypeDecl :: "bytes \<Rightarrow> source_range \<Rightarrow> nat \<Rightarrow> semantic_unit \<Rightarrow> nat \<times> semantic_unit" where
  "emitTypeDecl name loc parent = addTypedRecord RTypeDecl name [] parent loc 0"

definition emitLiteral :: "bytes \<Rightarrow> source_range \<Rightarrow> nat \<Rightarrow> semantic_unit \<Rightarrow> nat \<times> semantic_unit" where
  "emitLiteral value loc parent = addRecord RLiteral value parent loc 0 False 0"

definition emitComment :: "bytes \<Rightarrow> source_range \<Rightarrow> nat \<Rightarrow> semantic_unit \<Rightarrow> nat \<times> semantic_unit" where
  "emitComment value loc parent = addRecord RComment value parent loc 0 False 0"

definition emitRoute :: "bytes \<Rightarrow> bytes \<Rightarrow> source_range \<Rightarrow> nat \<Rightarrow> semantic_unit \<Rightarrow> nat \<times> semantic_unit" where
  "emitRoute label handler loc parent = addRebuilt RRoute label handler 0 parent loc"

definition emitInterfaceImpl :: "bytes \<Rightarrow> bytes \<Rightarrow> source_range \<Rightarrow> nat \<Rightarrow> semantic_unit \<Rightarrow> nat \<times> semantic_unit" where
  "emitInterfaceImpl name iface loc parent = addTypedRecord RInterfaceImpl name iface parent loc 0"

section \<open>Calls on a unit\<close>

text \<open>Every call that changes a unit, as a value; \<open>unit_call\<close> runs one and drops the answer.\<close>

datatype unit_op =
    Add record_kind bytes nat source_range int bool int
  | AddTyped record_kind bytes bytes nat source_range int
  | AddRebuilt record_kind bytes bytes nat nat source_range
  | SetReference nat nat
  | SetKind nat int
  | SetStrategy nat bytes
  | SetFacts nat bytes bytes bytes bytes
  | SetName nat bytes
  | SetFile bytes
  | SetLang bytes

fun unit_call :: "unit_op \<Rightarrow> semantic_unit \<Rightarrow> semantic_unit" where
  "unit_call (Add k name parent loc n static vis) u = snd (addRecord k name parent loc n static vis u)"
| "unit_call (AddTyped k name ty parent loc vis) u = snd (addTypedRecord k name ty parent loc vis u)"
| "unit_call (AddRebuilt k name qname original parent loc) u = snd (addRebuilt k name qname original parent loc u)"
| "unit_call (SetReference i ref) u = snd (setCallReference i ref u)"
| "unit_call (SetKind i k) u = snd (setCallKind i k u)"
| "unit_call (SetStrategy i s) u = snd (setCallStrategy i s u)"
| "unit_call (SetFacts i a b c d) u = snd (setCallFacts i a b c d u)"
| "unit_call (SetName i name) u = snd (setQualifiedName i name u)"
| "unit_call (SetFile path) u = setFilePath path u"
| "unit_call (SetLang lang) u = setLanguage lang u"

definition unit_calls :: "unit_op list \<Rightarrow> semantic_unit \<Rightarrow> semantic_unit" where
  "unit_calls = fold unit_call"

text \<open>The visitors pass no id of a stored row: their only call of the third kind is that of \<open>emitRoute\<close>.\<close>

fun keeps_ids :: "unit_op \<Rightarrow> bool" where
  "keeps_ids (AddRebuilt k name qname original parent loc) \<longleftrightarrow> original = 0"
| "keeps_ids _ \<longleftrightarrow> True"

fun is_add :: "unit_op \<Rightarrow> bool" where
  "is_add (Add k name parent loc n static vis) \<longleftrightarrow> True"
| "is_add (AddTyped k name ty parent loc vis) \<longleftrightarrow> True"
| "is_add (AddRebuilt k name qname original parent loc) \<longleftrightarrow> True"
| "is_add _ \<longleftrightarrow> False"

section \<open>Ids are places\<close>

text \<open>The record of id \<open>i\<close> stands at place \<open>i - 1\<close>, and the map says so.\<close>

definition unit_ok :: "semantic_unit \<Rightarrow> bool" where
  "unit_ok u \<longleftrightarrow>
     next_id u = Suc (length (records u)) \<and>
     (\<forall>n < length (records u). rec_id (records u ! n) = Suc n \<and> original_id (records u ! n) = 0) \<and>
     (\<forall>i. map_of (id_to_index u) i = (if 0 < i \<and> i \<le> length (records u) then Some (i - 1) else None))"

lemma new_unit_ok: "unit_ok new_unit"
  by (auto simp: unit_ok_def new_unit_def)

lemma fresh_record_simps [simp]:
  "rec_id (fresh_record u k name parent loc) = next_id u" "original_id (fresh_record u k name parent loc) = 0"
  by (simp_all add: fresh_record_def)

lemma push_record_simps [simp]:
  "fst (push_record r e u) = rec_id r" "records (snd (push_record r e u)) = records u @ [r]"
  "next_id (snd (push_record r e u)) = Suc (next_id u)"
  by (simp_all add: push_record_def)

lemma push_record_ok:
  assumes "unit_ok u" and "rec_id r = next_id u" and "original_id r = 0"
  shows "unit_ok (snd (push_record r [] u))"
  using assms unfolding unit_ok_def push_record_def
  by (auto simp: nth_append less_Suc_eq)

lemma set_record_simps [simp]:
  "next_id (snd (set_record i f u)) = next_id u" "id_to_index (snd (set_record i f u)) = id_to_index u"
  "length (records (snd (set_record i f u))) = length (records u)"
  by (simp_all add: set_record_def split: option.split)

lemma set_record_nth:
  "n < length (records u) \<Longrightarrow>
     records (snd (set_record i f u)) ! n = (if map_of (id_to_index u) i = Some n then f (records u ! n) else records u ! n)"
  by (auto simp: set_record_def split: option.split)

lemma set_record_ok:
  assumes "unit_ok u" and "\<And>r. rec_id (f r) = rec_id r" and "\<And>r. original_id (f r) = original_id r"
  shows "unit_ok (snd (set_record i f u))"
  using assms unfolding unit_ok_def by (simp add: set_record_nth)

lemmas setters = setCallReference_def setCallKind_def setCallStrategy_def setCallFacts_def setQualifiedName_def

lemma unit_call_ok:
  assumes "unit_ok u" and "keeps_ids op"
  shows "unit_ok (unit_call op u)"
proof (cases op)
  case (SetFile path) then show ?thesis using assms by (simp add: unit_ok_def setFilePath_def)
next
  case (SetLang lang) then show ?thesis using assms by (simp add: unit_ok_def setLanguage_def)
qed (use assms in \<open>simp_all add: addRecord_def addTypedRecord_def addRebuilt_def setters push_record_ok set_record_ok\<close>)

lemma unit_calls_ok: "unit_ok u \<Longrightarrow> list_all keeps_ids ops \<Longrightarrow> unit_ok (unit_calls ops u)"
  unfolding unit_calls_def by (induction ops arbitrary: u) (simp_all add: unit_call_ok)

lemma getRecord_ok:
  "unit_ok u \<Longrightarrow> getRecord u i = (if 0 < i \<and> i \<le> length (records u) then Some (records u ! (i - 1)) else None)"
  by (simp add: unit_ok_def getRecord_def)

lemma ids_upt: "unit_ok u \<Longrightarrow> map rec_id (records u) = [1..<Suc (length (records u))]"
  unfolding unit_ok_def by (rule nth_equalityI) (simp_all del: upt_Suc)

lemma getRecord_set_record:
  assumes "unit_ok u"
  shows "getRecord (snd (set_record i f u)) j = (if j = i then map_option f (getRecord u j) else getRecord u j)"
proof (cases "map_of (id_to_index u) j")
  case (Some n)
  have j: "0 < j" "j \<le> length (records u)" "n = j - 1"
    using assms Some unfolding unit_ok_def by (metis option.distinct(1) option.inject)+
  then have "map_of (id_to_index u) i = Some n \<longleftrightarrow> i = j"
    using assms unfolding unit_ok_def by auto
  then show ?thesis using j Some by (cases "j = i") (simp_all add: getRecord_def set_record_nth)
qed (auto simp: getRecord_def)

lemma getRecord_id: "unit_ok u \<Longrightarrow> getRecord u i = Some r \<Longrightarrow> rec_id r = i \<and> r \<in> set (records u)"
  by (auto simp: getRecord_ok unit_ok_def split: if_splits)

lemma getRecord_self: "unit_ok u \<Longrightarrow> r \<in> set (records u) \<Longrightarrow> getRecord u (rec_id r) = Some r"
  by (auto simp: getRecord_ok unit_ok_def in_set_conv_nth)

lemma distinct_ids: "unit_ok u \<Longrightarrow> distinct (map rec_id (records u))"
  by (auto simp: unit_ok_def distinct_conv_nth)

section \<open>What later calls keep of a record\<close>

text \<open>The syntax facts of a record, which no setter touches.\<close>

definition same_syntax :: "sem_record \<Rightarrow> sem_record \<Rightarrow> bool" where
  "same_syntax r s \<longleftrightarrow>
     rec_id s = rec_id r \<and> original_id s = original_id r \<and> rec_kind s = rec_kind r \<and> rec_name s = rec_name r \<and>
     type_name s = type_name r \<and> parent_id s = parent_id r \<and> rec_loc s = rec_loc r \<and> rec_file s = rec_file r \<and>
     rec_language s = rec_language r \<and> arity s = arity r \<and> is_static s = is_static r \<and> visibility s = visibility r"

lemma same_syntax_trans: "same_syntax r s \<Longrightarrow> same_syntax s t \<Longrightarrow> same_syntax r t"
  by (simp add: same_syntax_def)

text \<open>\<open>later u v\<close>: \<open>v\<close> holds the records of \<open>u\<close>, in their places.\<close>

definition later :: "semantic_unit \<Rightarrow> semantic_unit \<Rightarrow> bool" where
  "later u v \<longleftrightarrow>
     length (records u) \<le> length (records v) \<and>
     (\<forall>n < length (records u). same_syntax (records u ! n) (records v ! n))"

lemma later_trans: "later u v \<Longrightarrow> later v w \<Longrightarrow> later u w"
  unfolding later_def using same_syntax_trans by (meson le_trans order_less_le_trans)

lemma later_push: "later u (snd (push_record r e u))"
  by (simp add: later_def nth_append same_syntax_def)

lemma later_set: "(\<And>r. same_syntax r (f r)) \<Longrightarrow> later u (snd (set_record i f u))"
  by (simp add: later_def set_record_nth) (simp add: same_syntax_def)

lemma unit_call_later: "later u (unit_call op u)"
  by (cases op)
    (simp_all add: addRecord_def addTypedRecord_def addRebuilt_def setters later_push later_set same_syntax_def,
     simp_all add: later_def same_syntax_def setFilePath_def setLanguage_def)

lemma unit_calls_later: "later u (unit_calls ops u)"
proof (induction ops arbitrary: u)
  case (Cons op ops)
  show ?case using later_trans [OF unit_call_later Cons] by (simp add: unit_calls_def)
qed (simp add: unit_calls_def later_def same_syntax_def)

lemma unit_call_length: "length (records (unit_call op u)) = length (records u) + (if is_add op then 1 else 0)"
  by (cases op)
    (simp_all add: addRecord_def addTypedRecord_def addRebuilt_def setters setFilePath_def setLanguage_def)

lemma unit_calls_length:
  "length (records (unit_calls ops u)) = length (records u) + length (filter is_add ops)"
  by (induction ops arbitrary: u) (simp_all add: unit_calls_def unit_call_length)

text \<open>
  (C40) Whatever a visitor calls, in whatever order: the records have the ids from 1 on, in the order in
  which they were added and as many as were added; every one of these ids finds its record and no other id
  finds any; and later calls change nothing of the syntax of a record that an id has found.
\<close>

theorem unit_ids_resolve:
  assumes "list_all keeps_ids (before @ rest)"
  shows "map rec_id (records (unit_calls before new_unit)) = [1..<Suc (length (filter is_add before))] \<and>
    (\<forall>i. getRecord (unit_calls before new_unit) i =
       (if 0 < i \<and> i \<le> length (filter is_add before) then Some (records (unit_calls before new_unit) ! (i - 1)) else None)) \<and>
    (\<forall>i r. getRecord (unit_calls before new_unit) i = Some r \<longrightarrow>
       (\<exists>s. getRecord (unit_calls (before @ rest) new_unit) i = Some s \<and> same_syntax r s))"
proof -
  let ?u = "unit_calls before new_unit" and ?v = "unit_calls (before @ rest) new_unit"
  have ok: "unit_ok ?u" "unit_ok ?v" using assms by (auto intro: unit_calls_ok [OF new_unit_ok])
  have n: "length (records ?u) = length (filter is_add before)"
    by (simp add: unit_calls_length) (simp add: new_unit_def)
  have "map rec_id (records ?u) = [1..<Suc (length (records ?u))]"
    by (rule ids_upt [OF ok(1)])
  moreover have "\<forall>i. getRecord ?u i = (if 0 < i \<and> i \<le> length (records ?u) then Some (records ?u ! (i - 1)) else None)"
    using getRecord_ok [OF ok(1)] by blast
  moreover have "\<exists>s. getRecord ?v i = Some s \<and> same_syntax r s" if "getRecord ?u i = Some r" for i r
  proof -
    have "later ?u ?v" using unit_calls_later [of ?u rest] by (simp add: unit_calls_def)
    then show ?thesis using that unfolding getRecord_ok [OF ok(1)] getRecord_ok [OF ok(2)] later_def
      by (metis One_nat_def Suc_pred le_trans less_eq_Suc_le option.distinct(1) option.inject)
  qed
  ultimately show ?thesis unfolding n by blast
qed

text \<open>A function with two calls in it, one of which is resolved later.\<close>

definition demo_range :: source_range where
  "demo_range = \<lparr>start_row = 1, start_col = 0, end_row = 2, end_col = 4\<rparr>"

theorem unit_ids_resolve_witness:
  "map rec_id (records (unit_calls [Add RFunction ''f'' 0 demo_range 0 False 0, Add RCallExpr ''g'' 1 demo_range 1 False 0] new_unit)) = [1, 2]"
  using unit_ids_resolve [of "[Add RFunction ''f'' 0 demo_range 0 False 0, Add RCallExpr ''g'' 1 demo_range 1 False 0]" "[SetReference 2 1]"]
  by (simp add: upt_rec)

text \<open>
  A setter answers whether the id is known, and changes the one record of that id: here the reference
  of a call, which is what \<open>getRecord\<close> shows afterwards.
\<close>

theorem call_reference_set:
  assumes "list_all keeps_ids ops"
  shows "let u = unit_calls ops new_unit; (ok, v) = setCallReference i ref u
         in ok = (getRecord u i \<noteq> None) \<and>
            (\<forall>j. getRecord v j = (if j = i then map_option (ref_original_id_update (\<lambda>_. ref)) (getRecord u j) else getRecord u j))"
proof -
  have ok: "unit_ok (unit_calls ops new_unit)" using unit_calls_ok [OF new_unit_ok assms] .
  show ?thesis
    unfolding Let_def case_prod_beta setCallReference_def getRecord_set_record [OF ok]
    by (simp add: set_record_def getRecord_def split: option.split)
qed

theorem call_reference_set_witness:
  "let u = unit_calls [Add RCallExpr ''g'' 0 demo_range 1 False 0] new_unit; (ok, v) = setCallReference 1 7 u
   in ok \<and> map_option ref_original_id (getRecord v 1) = Some 7"
proof -
  have "list_all keeps_ids [Add RCallExpr ''g'' 0 demo_range 1 False 0]" by simp
  note set = call_reference_set [OF this, of 1 7]
  have "getRecord (unit_calls [Add RCallExpr ''g'' 0 demo_range 1 False 0] new_unit) 1 \<noteq> None" by code_simp
  with set show ?thesis by (auto simp: Let_def case_prod_beta)
qed

text \<open>
  The ids of stored rows share the map with the new ids: after a unit is rebuilt from two rows that were
  stored in the other order, the id 1 finds the record whose id is 2, and a reference set on the record of id 1
  lands on the other one.
\<close>

theorem rebuilt_ids_collide:
  "let u = unit_calls [AddRebuilt RFunction ''f'' ''f'' 2 0 demo_range, AddRebuilt RCallExpr ''g'' ''g'' 1 2 demo_range] new_unit
   in map_option rec_id (getRecord u 1) = Some 2 \<and>
      map ref_original_id (records (snd (setCallReference 1 9 u))) = [0, 9]"
  by code_simp

text \<open>
  A range of one row is taken for valid whatever its columns are.
\<close>

theorem range_columns_ignored: "isValid r \<longleftrightarrow> start_row r \<le> end_row r"
  by (auto simp: isValid_def)

end
