(* ===== verification/Graph_Builder.thy ===== *)
theory Graph_Builder
  imports Semantic_Unit
begin

text \<open>
  The code graph (\<open>graph/graph_types.h\<close>, \<open>graph/graph_types.cpp\<close>) and what the two halves of the
  builder share (\<open>graph/graph_builder.h\<close>, \<open>graph/graph_builder.cpp\<close>): its state, and the edges that it
  keeps free of duplicates.
\<close>

section \<open>Nodes and edges\<close>

datatype node_type =
    FunctionNode | MethodNode | ClassNode | StructNode | InterfaceNode | VariableNode | MacroNode | ModuleNode | FileNode

datatype edge_type = References | Calls | Defines | Contains | Imports | Inherits | UsesType | HasType

definition nodeTypeName :: "node_type \<Rightarrow> bytes" where
  "nodeTypeName t =
     (case t of FunctionNode \<Rightarrow> ''function'' | MethodNode \<Rightarrow> ''method'' | ClassNode \<Rightarrow> ''class'' | StructNode \<Rightarrow> ''struct''
      | InterfaceNode \<Rightarrow> ''interface'' | VariableNode \<Rightarrow> ''variable'' | MacroNode \<Rightarrow> ''macro'' | ModuleNode \<Rightarrow> ''module''
      | FileNode \<Rightarrow> ''file'')"

definition edgeTypeName :: "edge_type \<Rightarrow> bytes" where
  "edgeTypeName t =
     (case t of References \<Rightarrow> ''references'' | Calls \<Rightarrow> ''calls'' | Defines \<Rightarrow> ''defines'' | Contains \<Rightarrow> ''contains''
      | Imports \<Rightarrow> ''imports'' | Inherits \<Rightarrow> ''inherits'' | UsesType \<Rightarrow> ''uses_type'' | HasType \<Rightarrow> ''has_type'')"

definition relationTypeToInt :: "edge_type \<Rightarrow> int" where
  "relationTypeToInt t =
     (case t of References \<Rightarrow> 0 | Calls \<Rightarrow> 1 | Defines \<Rightarrow> 2 | Contains \<Rightarrow> 3 | Imports \<Rightarrow> 4 | Inherits \<Rightarrow> 5
      | UsesType \<Rightarrow> 6 | HasType \<Rightarrow> 7)"

definition relationTypeFromInt :: "int \<Rightarrow> edge_type" where
  "relationTypeFromInt n =
     (if n = 0 then References else if n = 1 then Calls else if n = 2 then Defines else if n = 3 then Contains
      else if n = 4 then Imports else if n = 5 then Inherits else if n = 6 then UsesType else if n = 7 then HasType
      else References)"

definition isCallsEdge :: "int \<Rightarrow> bool" where
  "isCallsEdge n \<longleftrightarrow> relationTypeFromInt n = Calls"

definition isRelatesEdge :: "int \<Rightarrow> bool" where
  "isRelatesEdge n \<longleftrightarrow> \<not> isCallsEdge n"

record graph_node =
  gn_id :: nat
  ir_node_id :: nat
  gn_type :: node_type
  gn_name :: bytes
  gn_qualified :: bytes
  gn_file :: bytes
  gn_start_row :: "32 word"
  gn_start_col :: "32 word"
  gn_end_row :: "32 word"
  gn_end_col :: "32 word"
  gn_language :: bytes
  is_entry_point :: bool

record graph_edge =
  ge_id :: nat
  source_id :: nat
  target_id :: nat
  ge_type :: edge_type
  ge_graph_type :: bytes

record code_graph =
  graph_name :: bytes
  graph_type :: bytes
  graph_nodes :: "graph_node list"
  graph_edges :: "graph_edge list"

section \<open>The nodes of the tree that a translator builds\<close>

datatype node_kind =
    NTranslationUnit | NModule | NFunctionDecl | NClassDecl | NMethodDecl | NVariableDecl | NFieldDecl | NParameterDecl
  | NEnumDecl | NEnumMemberDecl | NTypeAliasDecl | NMacroDecl | NTemplateDecl | NNamespaceDecl
  | NBlockStmt | NExprStmt | NIfStmt | NForStmt | NWhileStmt | NDoWhileStmt | NSwitchStmt | NCaseStmt | NReturnStmt
  | NBreakStmt | NContinueStmt | NTryStmt | NCatchStmt | NThrowStmt
  | NCallExpr | NBinaryExpr | NUnaryExpr | NMemberExpr | NIndexExpr | NIdentifierExpr | NLiteralExpr | NLambdaExpr
  | NNewExpr | NCastExpr | NTernaryExpr | NImportDecl | NExportDecl | NComment

record node_data =
  nd_id :: nat
  nd_kind :: node_kind
  nd_name :: bytes
  nd_qualified :: bytes
  nd_loc :: source_range
  nd_language :: bytes
  nd_file :: bytes

section \<open>The state of the builder\<close>

text \<open>The maps are association lists, newest pair first; \<open>function_stack\<close> has its top first.\<close>

record builder =
  current_graph :: code_graph
  next_node_id :: nat
  next_edge_id :: nat
  building_call_graph :: bool
  ir_to_graph_node :: "(nat \<times> nat) list"
  function_stack :: "node_data list"
  added_edges :: "(nat \<times> nat \<times> edge_type \<times> bytes) list"
  parent_cache :: "(nat \<times> nat) list"

definition empty_graph :: code_graph where
  "empty_graph = \<lparr>graph_name = [], graph_type = [], graph_nodes = [], graph_edges = []\<rparr>"

definition new_builder :: "nat \<Rightarrow> builder" where
  "new_builder start =
     \<lparr>current_graph = empty_graph, next_node_id = start, next_edge_id = 1, building_call_graph = False,
      ir_to_graph_node = [], function_stack = [], added_edges = [], parent_cache = []\<rparr>"

abbreviation node_of :: "builder \<Rightarrow> nat \<Rightarrow> nat option" where
  "node_of b \<equiv> map_of (ir_to_graph_node b)"

definition isEntryPointName :: "bytes \<Rightarrow> bytes \<Rightarrow> bool" where
  "isEntryPointName name language \<longleftrightarrow>
     (if name = ''main'' then language \<in> {''c'', ''cpp'', ''c++'', ''go'', ''rust''}
      else name = ''init'' \<and> language = ''go'')"

definition push_node :: "graph_node \<Rightarrow> builder \<Rightarrow> builder" where
  "push_node g b = b\<lparr>current_graph := (current_graph b)\<lparr>graph_nodes := graph_nodes (current_graph b) @ [g]\<rparr>\<rparr>"

definition addGraphEdge :: "nat \<Rightarrow> nat \<Rightarrow> edge_type \<Rightarrow> builder \<Rightarrow> builder" where
  "addGraphEdge src tgt ty b =
     (let k = (src, tgt, ty, graph_type (current_graph b))
      in if k \<in> set (added_edges b) then b
         else b\<lparr>added_edges := k # added_edges b, next_edge_id := Suc (next_edge_id b),
                current_graph := (current_graph b)\<lparr>graph_edges := graph_edges (current_graph b) @
                  [\<lparr>ge_id = next_edge_id b, source_id = src, target_id = tgt, ge_type = ty,
                    ge_graph_type = graph_type (current_graph b)\<rparr>]\<rparr>\<rparr>)"

section \<open>The edges\<close>

abbreviation ends :: "graph_edge \<Rightarrow> nat \<times> nat \<times> edge_type" where
  "ends e \<equiv> (source_id e, target_id e, ge_type e)"

abbreviation edges_of :: "builder \<Rightarrow> graph_edge list" where
  "edges_of b \<equiv> graph_edges (current_graph b)"

abbreviation nodes_of :: "builder \<Rightarrow> graph_node list" where
  "nodes_of b \<equiv> graph_nodes (current_graph b)"

text \<open>Edges numbered from 1 on, no two with the same ends and type, all of the type of the graph.\<close>

definition proper_edges :: "code_graph \<Rightarrow> bool" where
  "proper_edges g \<longleftrightarrow>
     map ge_id (graph_edges g) = [1..<Suc (length (graph_edges g))] \<and> distinct (map ends (graph_edges g)) \<and>
     list_all (\<lambda>e. ge_graph_type e = graph_type g) (graph_edges g)"

definition edges_ok :: "builder \<Rightarrow> bool" where
  "edges_ok b \<longleftrightarrow>
     proper_edges (current_graph b) \<and> next_edge_id b = Suc (length (edges_of b)) \<and>
     (\<forall>s t ty. (s, t, ty, graph_type (current_graph b)) \<in> set (added_edges b) \<longleftrightarrow> (s, t, ty) \<in> ends ` set (edges_of b))"

lemma addGraphEdge_keeps [simp]:
  "ir_to_graph_node (addGraphEdge s t ty b) = ir_to_graph_node b" "next_node_id (addGraphEdge s t ty b) = next_node_id b"
  "function_stack (addGraphEdge s t ty b) = function_stack b" "parent_cache (addGraphEdge s t ty b) = parent_cache b"
  "building_call_graph (addGraphEdge s t ty b) = building_call_graph b"
  "nodes_of (addGraphEdge s t ty b) = nodes_of b" "graph_type (current_graph (addGraphEdge s t ty b)) = graph_type (current_graph b)"
  "graph_name (current_graph (addGraphEdge s t ty b)) = graph_name (current_graph b)"
  by (simp_all add: addGraphEdge_def Let_def)

lemma addGraphEdge_ok:
  assumes "edges_ok b"
  shows "edges_ok (addGraphEdge s t ty b)" "ends ` set (edges_of (addGraphEdge s t ty b)) = insert (s, t, ty) (ends ` set (edges_of b))"
proof -
  have k: "(s, t, ty, graph_type (current_graph b)) \<in> set (added_edges b) \<longleftrightarrow> (s, t, ty) \<in> ends ` set (edges_of b)"
    using assms unfolding edges_ok_def by blast
  show "edges_ok (addGraphEdge s t ty b)"
  proof (cases "(s, t, ty, graph_type (current_graph b)) \<in> set (added_edges b)")
    case False
    then have "(s, t, ty) \<notin> ends ` set (edges_of b)" using k by blast
    then show ?thesis using assms False unfolding edges_ok_def proper_edges_def addGraphEdge_def Let_def by auto
  qed (use assms in \<open>simp add: addGraphEdge_def\<close>)
  show "ends ` set (edges_of (addGraphEdge s t ty b)) = insert (s, t, ty) (ends ` set (edges_of b))"
    using k by (auto simp: addGraphEdge_def Let_def)
qed

text \<open>Adding edges to a list of targets.\<close>

definition add_edges :: "nat \<Rightarrow> edge_type \<Rightarrow> nat list \<Rightarrow> builder \<Rightarrow> builder" where
  "add_edges src ty ts b = fold (\<lambda>t. addGraphEdge src t ty) ts b"

lemma add_edges_keeps [simp]:
  "ir_to_graph_node (add_edges s ty ts b) = ir_to_graph_node b" "next_node_id (add_edges s ty ts b) = next_node_id b"
  "function_stack (add_edges s ty ts b) = function_stack b" "parent_cache (add_edges s ty ts b) = parent_cache b"
  "building_call_graph (add_edges s ty ts b) = building_call_graph b"
  "nodes_of (add_edges s ty ts b) = nodes_of b" "graph_type (current_graph (add_edges s ty ts b)) = graph_type (current_graph b)"
  "graph_name (current_graph (add_edges s ty ts b)) = graph_name (current_graph b)"
  unfolding add_edges_def by (induction ts arbitrary: b) simp_all

lemma add_edges_ok:
  assumes "edges_ok b"
  shows "edges_ok (add_edges s ty ts b)" "ends ` set (edges_of (add_edges s ty ts b)) = (\<lambda>t. (s, t, ty)) ` set ts \<union> ends ` set (edges_of b)"
proof -
  have "edges_ok (fold (\<lambda>t. addGraphEdge s t ty) ts b) \<and>
      ends ` set (edges_of (fold (\<lambda>t. addGraphEdge s t ty) ts b)) = (\<lambda>t. (s, t, ty)) ` set ts \<union> ends ` set (edges_of b)"
    using assms by (induction ts arbitrary: b) (simp_all add: addGraphEdge_ok)
  then show "edges_ok (add_edges s ty ts b)" "ends ` set (edges_of (add_edges s ty ts b)) = (\<lambda>t. (s, t, ty)) ` set ts \<union> ends ` set (edges_of b)"
    unfolding add_edges_def by blast+
qed

text \<open>
  The stored numbers of relations: every type is read back from its number, exactly the number 1 is a
  call, and every number that no type has is read as a reference, never as a call.
\<close>

theorem relation_types_roundtrip:
  "relationTypeFromInt (relationTypeToInt t) = t \<and> (isCallsEdge n \<longleftrightarrow> n = 1) \<and> isRelatesEdge n = (\<not> isCallsEdge n) \<and>
   (n \<notin> range relationTypeToInt \<longrightarrow> relationTypeFromInt n = References)"
proof -
  have "relationTypeFromInt n = References" if "n \<notin> range relationTypeToInt"
  proof -
    have "n \<noteq> relationTypeToInt x" for x using that by blast
    then have "n \<noteq> 0" "n \<noteq> 1" "n \<noteq> 2" "n \<noteq> 3" "n \<noteq> 4" "n \<noteq> 5" "n \<noteq> 6" "n \<noteq> 7"
      by (force simp: relationTypeToInt_def split: edge_type.splits)+
    then show ?thesis by (simp add: relationTypeFromInt_def)
  qed
  moreover have "isCallsEdge n \<longleftrightarrow> n = 1" by (simp add: isCallsEdge_def relationTypeFromInt_def)
  ultimately show ?thesis by (cases t) (simp_all add: isRelatesEdge_def relationTypeToInt_def relationTypeFromInt_def)
qed

end
