(* ===== verification/Record_Graph.thy ===== *)
theory Record_Graph
  imports Graph_Builder
begin

text \<open>
  The half of the graph builder that works on the flat records of a unit
  (\<open>graph/graph_builder.cpp\<close>, from \<open>SemanticUnit API\<close> on): the symbol graph with its containment, the call
  graph with its layers of resolution, and the edges to types.
\<close>

section \<open>Which records are nodes\<close>

definition recordKindToNodeType :: "record_kind \<Rightarrow> node_type" where
  "recordKindToNodeType k =
     (case k of RFunction \<Rightarrow> FunctionNode | RMethod \<Rightarrow> MethodNode | RClass \<Rightarrow> ClassNode | RInterface \<Rightarrow> InterfaceNode
      | REnum \<Rightarrow> ModuleNode | RTypeAlias \<Rightarrow> ModuleNode | RTypeDecl \<Rightarrow> ModuleNode | RVariable \<Rightarrow> VariableNode
      | RImport \<Rightarrow> ModuleNode | RExport \<Rightarrow> ModuleNode | RField \<Rightarrow> VariableNode | _ \<Rightarrow> FileNode)"

definition isDeclarationKind :: "record_kind \<Rightarrow> bool" where
  "isDeclarationKind k \<longleftrightarrow>
     (case k of RFunction \<Rightarrow> True | RMethod \<Rightarrow> True | RClass \<Rightarrow> True | RInterface \<Rightarrow> True | REnum \<Rightarrow> True
      | RTypeAlias \<Rightarrow> True | RTypeDecl \<Rightarrow> True | RVariable \<Rightarrow> True | RField \<Rightarrow> True | RImport \<Rightarrow> True | RExport \<Rightarrow> True
      | _ \<Rightarrow> False)"

definition record_node :: "nat \<Rightarrow> sem_record \<Rightarrow> node_type \<Rightarrow> graph_node" where
  "record_node i r ty =
     \<lparr>gn_id = i, ir_node_id = rec_id r, gn_type = ty, gn_name = rec_name r,
      gn_qualified = (if qualified_name r = [] then rec_name r else qualified_name r), gn_file = rec_file r,
      gn_start_row = start_row (rec_loc r), gn_start_col = start_col (rec_loc r), gn_end_row = end_row (rec_loc r),
      gn_end_col = end_col (rec_loc r), gn_language = rec_language r, is_entry_point = False\<rparr>"

definition addRecordNode :: "sem_record \<Rightarrow> node_type \<Rightarrow> builder \<Rightarrow> builder" where
  "addRecordNode r ty b =
     (if node_of b (rec_id r) \<noteq> None then b
      else push_node (record_node (next_node_id b) r ty)
        (b\<lparr>next_node_id := Suc (next_node_id b),
           ir_to_graph_node :=
             (if original_id r \<noteq> 0 \<and> original_id r \<noteq> rec_id r then [(original_id r, next_node_id b)] else []) @
             (rec_id r, next_node_id b) # ir_to_graph_node b\<rparr>))"

text \<open>The nameless variable without a parent is the container of the file.\<close>

definition is_symbol :: "sem_record \<Rightarrow> bool" where
  "is_symbol r \<longleftrightarrow> isDeclarationKind (rec_kind r) \<and> \<not> (rec_kind r = RVariable \<and> rec_name r = [] \<and> parent_id r = 0)"

definition add_symbol :: "sem_record \<Rightarrow> builder \<Rightarrow> builder" where
  "add_symbol r b = (if is_symbol r then addRecordNode r (recordKindToNodeType (rec_kind r)) b else b)"

section \<open>The containing declaration\<close>

text \<open>The walk along the parents, with the ids it has visited.\<close>

function walk_parents :: "semantic_unit \<Rightarrow> builder \<Rightarrow> nat list \<Rightarrow> nat \<Rightarrow> nat" where
  "walk_parents u b visited pid =
     (if pid = 0 \<or> pid \<in> set visited then 0
      else if node_of b pid \<noteq> None then pid
      else case map_of (parent_cache b) pid of
             Some r \<Rightarrow> r
           | None \<Rightarrow> (case getRecord u pid of None \<Rightarrow> 0 | Some p \<Rightarrow> walk_parents u b (pid # visited) (parent_id p)))"
  by pat_completeness auto

termination walk_parents
proof (relation "measure (\<lambda>(u, b, visited, pid). card (dom (map_of (id_to_index u)) - set visited))")
  fix u b visited pid p
  assume "\<not> (pid = 0 \<or> pid \<in> set visited)" and "getRecord u pid = Some p"
  then have "pid \<in> dom (map_of (id_to_index u)) - set visited" by (auto simp: getRecord_def)
  then have "card (dom (map_of (id_to_index u)) - set (pid # visited)) < card (dom (map_of (id_to_index u)) - set visited)"
    by (intro psubset_card_mono finite_Diff finite_dom_map_of) auto
  then show "((u, b, pid # visited, parent_id p), u, b, visited, pid)
      \<in> measure (\<lambda>(u, b, visited, pid). card (dom (map_of (id_to_index u)) - set visited))"
    unfolding in_measure prod.case .
qed simp

declare walk_parents.simps [simp del]

definition findContainingFunction :: "semantic_unit \<Rightarrow> sem_record \<Rightarrow> builder \<Rightarrow> nat \<times> builder" where
  "findContainingFunction u r b =
     (if parent_id r = 0 then (0, b)
      else case map_of (parent_cache b) (parent_id r) of
             Some c \<Rightarrow> (c, b)
           | None \<Rightarrow>
               (let c = walk_parents u b [] (parent_id r) in (c, b\<lparr>parent_cache := (parent_id r, c) # parent_cache b\<rparr>)))"

section \<open>The symbol graph\<close>

definition contain_record :: "semantic_unit \<Rightarrow> sem_record \<Rightarrow> builder \<Rightarrow> builder" where
  "contain_record u r b =
     (if parent_id r = 0 then b
      else case node_of b (rec_id r) of
             None \<Rightarrow> b
           | Some child \<Rightarrow>
               (let (a, b') = findContainingFunction u r b
                in if a \<noteq> 0 \<and> a \<noteq> rec_id r
                   then (case node_of b' a of
                           Some n \<Rightarrow> if n \<noteq> child then addGraphEdge n child Contains b' else b'
                         | None \<Rightarrow> b')
                   else b'))"

definition start_symbols :: "builder \<Rightarrow> builder" where
  "start_symbols b =
     b\<lparr>current_graph := empty_graph\<lparr>graph_name := ''symbol-graph'', graph_type := ''symbol_reference''\<rparr>, next_edge_id := 1,
       ir_to_graph_node := [], function_stack := [], parent_cache := [], added_edges := [], building_call_graph := False\<rparr>"

definition buildSymbolGraph :: "semantic_unit \<Rightarrow> builder \<Rightarrow> code_graph \<times> builder" where
  "buildSymbolGraph u b =
     (let b' = fold (contain_record u) (records u) (fold add_symbol (records u) (start_symbols b))
      in (current_graph b', b'))"

section \<open>The call graph\<close>

record callee_candidate =
  cand_arity :: int
  cand_node :: nat

record callee_index =
  by_qualified_name :: "(bytes \<times> nat) list"
  by_name :: "(bytes \<times> callee_candidate) list"

text \<open>The order in which the hash tables give the entries of one key.\<close>

record bucket_order =
  order_ids :: "nat list \<Rightarrow> nat list"
  order_candidates :: "callee_candidate list \<Rightarrow> callee_candidate list"

definition equal_range :: "('a list \<Rightarrow> 'a list) \<Rightarrow> bytes \<Rightarrow> (bytes \<times> 'a) list \<Rightarrow> 'a list" where
  "equal_range ord k table = ord (map snd (filter (\<lambda>e. fst e = k) table))"

definition index_record :: "(nat \<Rightarrow> nat option) \<Rightarrow> sem_record \<Rightarrow> callee_index \<Rightarrow> callee_index" where
  "index_record node r idx =
     (case node (rec_id r) of
        None \<Rightarrow> idx
      | Some n \<Rightarrow>
          if rec_name r = [] then idx
          else \<lparr>by_qualified_name =
                  (if qualified_name r \<noteq> [] then by_qualified_name idx @ [(qualified_name r, n)] else by_qualified_name idx),
                by_name = by_name idx @ [(rec_name r, \<lparr>cand_arity = arity r, cand_node = n\<rparr>)]\<rparr>)"

definition buildCalleeIndex :: "semantic_unit \<Rightarrow> (nat \<Rightarrow> nat option) \<Rightarrow> callee_index" where
  "buildCalleeIndex u node = fold (index_record node) (records u) \<lparr>by_qualified_name = [], by_name = []\<rparr>"

definition buildNameIndex :: "semantic_unit \<Rightarrow> builder \<Rightarrow> callee_index" where
  "buildNameIndex u b = buildCalleeIndex u (node_of b)"

text \<open>The candidates that layer 3 and 4 choose from a name.\<close>

definition choose_by_arity :: "int \<Rightarrow> callee_candidate list \<Rightarrow> nat list" where
  "choose_by_arity n cs =
     (if n \<noteq> 0
      then let exact = map cand_node (filter (\<lambda>c. cand_arity c = n) cs);
               unknown = map cand_node (filter (\<lambda>c. cand_arity c \<noteq> n \<and> cand_arity c = 0) cs)
           in if exact = [] then unknown else exact
      else map cand_node cs)"

definition resolveCallEdges :: "bucket_order \<Rightarrow> sem_record \<Rightarrow> nat \<Rightarrow> callee_index \<Rightarrow> builder \<Rightarrow> builder" where
  "resolveCallEdges ord r caller idx b =
     (if ref_original_id r \<noteq> 0
      then (case node_of b (ref_original_id r) of
              Some n \<Rightarrow> if n \<noteq> caller then addGraphEdge caller n Calls b else b
            | None \<Rightarrow> b)
      else
        let qualified = (if qualified_name r = [] then []
                         else filter (\<lambda>n. n \<noteq> caller) (equal_range (order_ids ord) (qualified_name r) (by_qualified_name idx)))
        in if qualified \<noteq> [] then add_edges caller Calls qualified b
           else if rec_name r = [] then b
           else add_edges caller Calls
                  (choose_by_arity (arity r)
                    (filter (\<lambda>c. cand_node c \<noteq> caller) (equal_range (order_candidates ord) (rec_name r) (by_name idx)))) b)"

definition resolve_record :: "bucket_order \<Rightarrow> semantic_unit \<Rightarrow> callee_index \<Rightarrow> sem_record \<Rightarrow> builder \<Rightarrow> builder" where
  "resolve_record ord u idx r b =
     (if rec_kind r \<noteq> RCallExpr \<or> (rec_name r = [] \<and> qualified_name r = [] \<and> ref_original_id r = 0) then b
      else let (c, b') = findContainingFunction u r b
           in case node_of b' c of None \<Rightarrow> b' | Some caller \<Rightarrow> resolveCallEdges ord r caller idx b')"

definition start_calls :: "builder \<Rightarrow> builder" where
  "start_calls b =
     b\<lparr>current_graph := empty_graph\<lparr>graph_name := ''call-graph'', graph_type := ''call_graph''\<rparr>, next_edge_id := 1,
       added_edges := [], building_call_graph := True\<rparr>"

definition buildCallGraphImpl :: "bucket_order \<Rightarrow> semantic_unit \<Rightarrow> callee_index \<Rightarrow> builder \<Rightarrow> code_graph \<times> builder" where
  "buildCallGraphImpl ord u idx b =
     (let b' = fold (resolve_record ord u idx) (records u) (start_calls b) in (current_graph b', b'))"

definition buildCallGraph :: "bucket_order \<Rightarrow> semantic_unit \<Rightarrow> builder \<Rightarrow> code_graph \<times> builder" where
  "buildCallGraph ord u b = buildCallGraphImpl ord u (buildNameIndex u b) b"

section \<open>Edges to types\<close>

definition type_declaration :: "builder \<Rightarrow> sem_record \<Rightarrow> (bytes \<times> nat) list \<Rightarrow> (bytes \<times> nat) list" where
  "type_declaration b r table =
     (if rec_kind r = RTypeDecl \<and> rec_name r \<noteq> []
      then (case node_of b (rec_id r) of Some n \<Rightarrow> (rec_name r, n) # table | None \<Rightarrow> table)
      else table)"

definition type_edge :: "(bytes \<times> nat) list \<Rightarrow> sem_record \<Rightarrow> builder \<Rightarrow> builder" where
  "type_edge table r b =
     (if rec_kind r \<noteq> RTypeRef \<and> rec_kind r \<noteq> RTypeAssign \<or> rec_name r = [] \<or> type_name r = [] then b
      else case node_of b (rec_id r) of
             None \<Rightarrow> b
           | Some src \<Rightarrow> (case map_of table (type_name r) of None \<Rightarrow> b | Some tgt \<Rightarrow> addGraphEdge src tgt UsesType b))"

definition buildTypeEdges :: "semantic_unit \<Rightarrow> builder \<Rightarrow> builder" where
  "buildTypeEdges u b = fold (type_edge (fold (type_declaration b) (records u) [])) (records u) b"

section \<open>The nearest declaration above\<close>

text \<open>
  \<open>encloses u D p a\<close>: the first id for which \<open>D\<close> holds on the way from \<open>p\<close> along the parents is \<open>a\<close>.
\<close>

inductive encloses :: "semantic_unit \<Rightarrow> (nat \<Rightarrow> bool) \<Rightarrow> nat \<Rightarrow> nat \<Rightarrow> bool" for u D where
  here: "p \<noteq> 0 \<Longrightarrow> D p \<Longrightarrow> encloses u D p p"
| above: "p \<noteq> 0 \<Longrightarrow> \<not> D p \<Longrightarrow> getRecord u p = Some r \<Longrightarrow> encloses u D (parent_id r) a \<Longrightarrow> encloses u D p a"

inductive_cases enclosesE: "encloses u D p a"

lemma encloses_declared: "encloses u D p a \<Longrightarrow> D a \<and> a \<noteq> 0"
  by (induction rule: encloses.induct) auto

lemma encloses_step:
  assumes "p \<noteq> 0" and "\<not> D p" and "getRecord u p = Some r"
  shows "encloses u D p a \<longleftrightarrow> encloses u D (parent_id r) a"
proof
  assume "encloses u D p a"
  then show "encloses u D (parent_id r) a"
    by (cases rule: encloses.cases) (use assms in auto)
qed (rule encloses.above [OF assms(1), of D, OF assms(2,3)])

lemma encloses_here: "p \<noteq> 0 \<Longrightarrow> D p \<Longrightarrow> encloses u D p a \<longleftrightarrow> a = p"
  by (rule iffI, erule encloses.cases) (auto intro: encloses.here)

lemma encloses_unique: "encloses u D p a \<Longrightarrow> encloses u D p c \<Longrightarrow> a = c"
proof (induction arbitrary: c rule: encloses.induct)
  case (here p)
  then show ?case using encloses_here [of p D u c] by blast
next
  case (above p r a)
  then show ?case using encloses_step [OF above(1), of D, OF above(2,3)] by blast
qed

text \<open>What a search answers: 0 if there is none.\<close>

definition found :: "semantic_unit \<Rightarrow> (nat \<Rightarrow> bool) \<Rightarrow> nat \<Rightarrow> nat \<Rightarrow> bool" where
  "found u D p c \<longleftrightarrow> (\<forall>a. encloses u D p a \<longleftrightarrow> c = a \<and> a \<noteq> 0)"

lemma found_0: "found u D 0 0"
  by (auto simp: found_def elim: enclosesE)

lemma found_none: "found u D p 0 \<Longrightarrow> \<not> encloses u D p a"
  by (auto simp: found_def)

lemma found_declared: "found u D p c \<Longrightarrow> c \<noteq> 0 \<Longrightarrow> D c"
  unfolding found_def using encloses_declared by metis

text \<open>The ids visited so far have no declaration and lead to each other or to the next id.\<close>

definition trail :: "semantic_unit \<Rightarrow> (nat \<Rightarrow> bool) \<Rightarrow> nat list \<Rightarrow> nat \<Rightarrow> bool" where
  "trail u D visited pid \<longleftrightarrow>
     (\<forall>v \<in> set visited. \<not> D v \<and> (\<exists>r. getRecord u v = Some r \<and> parent_id r \<in> insert pid (set visited)))"

lemma cycle_no_enclosing: "encloses u D p a \<Longrightarrow> p \<in> set visited \<Longrightarrow> trail u D visited q \<Longrightarrow> q \<in> set visited \<Longrightarrow> False"
proof (induction rule: encloses.induct)
  case (above p r a)
  have "parent_id r \<in> set visited" using above by (auto simp: trail_def)
  then show ?case using above by blast
qed (auto simp: trail_def)

abbreviation declared :: "builder \<Rightarrow> nat \<Rightarrow> bool" where
  "declared b i \<equiv> node_of b i \<noteq> None"

definition cache_ok :: "semantic_unit \<Rightarrow> builder \<Rightarrow> bool" where
  "cache_ok u b \<longleftrightarrow> (\<forall>p c. map_of (parent_cache b) p = Some c \<longrightarrow> found u (declared b) p c)"

lemma walk_found:
  assumes "cache_ok u b" and "trail u (declared b) visited pid"
  shows "found u (declared b) pid (walk_parents u b visited pid)"
  using assms
proof (induction u b visited pid rule: walk_parents.induct)
  case (1 u b visited pid)
  consider "pid = 0" | "pid \<noteq> 0" "pid \<in> set visited" | "pid \<noteq> 0" "pid \<notin> set visited" "declared b pid"
    | "pid \<noteq> 0" "pid \<notin> set visited" "\<not> declared b pid" by blast
  then show ?case
  proof cases
    case 1
    then show ?thesis by (simp add: walk_parents.simps found_0)
  next
    case 2
    then have "\<not> encloses u (declared b) pid a" for a using cycle_no_enclosing "1.prems"(2) by blast
    then show ?thesis using 2 by (auto simp: walk_parents.simps found_def)
  next
    case 3
    then have "encloses u (declared b) pid a \<longleftrightarrow> pid = a" for a
      using encloses_here [of pid "declared b" u a] by blast
    then show ?thesis using 3 by (auto simp: walk_parents.simps found_def)
  next
    case 4
    show ?thesis
    proof (cases "map_of (parent_cache b) pid")
      case (Some c)
      then show ?thesis using 4 "1.prems"(1) by (simp add: walk_parents.simps [of u b] cache_ok_def)
    next
      case None
      show ?thesis
      proof (cases "getRecord u pid")
        case no: None
        then have "\<not> encloses u (declared b) pid a" for a using 4 by (auto elim: enclosesE)
        then show ?thesis using 4 None no by (auto simp: walk_parents.simps [of u b] found_def)
      next
        case (Some p)
        have "trail u (declared b) (pid # visited) (parent_id p)"
          using "1.prems"(2) 4 Some unfolding trail_def by auto
        then have "found u (declared b) (parent_id p) (walk_parents u b (pid # visited) (parent_id p))"
          using "1.IH" [OF _ _ None Some] 4 "1.prems"(1) by blast
        then show ?thesis using 4 None Some encloses_step [of pid "declared b" u p]
          by (simp add: walk_parents.simps [of u b] found_def)
      qed
    qed
  qed
qed

lemma findContaining_keeps [simp]:
  "ir_to_graph_node (snd (findContainingFunction u r b)) = ir_to_graph_node b"
  "current_graph (snd (findContainingFunction u r b)) = current_graph b"
  "next_edge_id (snd (findContainingFunction u r b)) = next_edge_id b"
  "added_edges (snd (findContainingFunction u r b)) = added_edges b"
  by (simp_all add: findContainingFunction_def Let_def split: option.split)

lemma findContaining_ok:
  assumes "cache_ok u b"
  shows "found u (declared b) (parent_id r) (fst (findContainingFunction u r b))"
    "cache_ok u (snd (findContainingFunction u r b))"
proof -
  have w: "found u (declared b) (parent_id r) (walk_parents u b [] (parent_id r))"
    by (rule walk_found [OF assms]) (simp add: trail_def)
  show "found u (declared b) (parent_id r) (fst (findContainingFunction u r b))"
    using w found_0 assms by (auto simp: findContainingFunction_def Let_def cache_ok_def split: option.split)
  show "cache_ok u (snd (findContainingFunction u r b))"
    using w assms by (auto simp: findContainingFunction_def Let_def cache_ok_def split: option.split)
qed

section \<open>The nodes of a symbol graph\<close>

definition symbol_nodes :: "nat \<Rightarrow> sem_record list \<Rightarrow> graph_node list" where
  "symbol_nodes i rs = map (\<lambda>(k, r). record_node k r (recordKindToNodeType (rec_kind r))) (List.enumerate i (filter is_symbol rs))"

abbreviation ir_pair :: "graph_node \<Rightarrow> nat \<times> nat" where
  "ir_pair n \<equiv> (ir_node_id n, gn_id n)"

definition node_in :: "graph_node list \<Rightarrow> nat \<Rightarrow> nat option" where
  "node_in ns = map_of (map ir_pair ns)"

lemma symbol_nodes_Cons:
  "symbol_nodes i (r # rs) =
     (if is_symbol r then record_node i r (recordKindToNodeType (rec_kind r)) # symbol_nodes (Suc i) rs else symbol_nodes i rs)"
  by (simp add: symbol_nodes_def)

lemma symbol_nodes_ids: "map ir_node_id (symbol_nodes i rs) = map rec_id (filter is_symbol rs)"
  by (induction rs arbitrary: i) (simp_all add: symbol_nodes_Cons, simp_all add: symbol_nodes_def record_node_def)

lemma symbol_nodes_numbers: "map gn_id (symbol_nodes i rs) = [i..<i + length (filter is_symbol rs)]"
  by (induction rs arbitrary: i)
    (simp_all add: symbol_nodes_Cons upt_conv_Cons del: upt_Suc, simp_all add: symbol_nodes_def record_node_def)

lemma push_node_simps [simp]:
  "nodes_of (push_node g b) = nodes_of b @ [g]" "edges_of (push_node g b) = edges_of b"
  "graph_type (current_graph (push_node g b)) = graph_type (current_graph b)"
  "ir_to_graph_node (push_node g b) = ir_to_graph_node b" "next_node_id (push_node g b) = next_node_id b"
  "next_edge_id (push_node g b) = next_edge_id b" "added_edges (push_node g b) = added_edges b"
  "parent_cache (push_node g b) = parent_cache b"
  by (simp_all add: push_node_def)

lemma add_symbol_keeps [simp]:
  "edges_of (add_symbol r b) = edges_of b" "graph_type (current_graph (add_symbol r b)) = graph_type (current_graph b)"
  "next_edge_id (add_symbol r b) = next_edge_id b" "added_edges (add_symbol r b) = added_edges b"
  "parent_cache (add_symbol r b) = parent_cache b"
  by (simp_all add: add_symbol_def addRecordNode_def)

lemma symbols_pass:
  assumes "distinct (map rec_id rs)" and "\<And>r. r \<in> set rs \<Longrightarrow> original_id r = 0" and "\<And>r. r \<in> set rs \<Longrightarrow> node_of b (rec_id r) = None"
  shows "nodes_of (fold add_symbol rs b) = nodes_of b @ symbol_nodes (next_node_id b) rs \<and>
    ir_to_graph_node (fold add_symbol rs b) = rev (map ir_pair (symbol_nodes (next_node_id b) rs)) @ ir_to_graph_node b"
  using assms
proof (induction rs arbitrary: b)
  case (Cons r rs)
  have n: "node_of b (rec_id r) = None" "original_id r = 0" using Cons.prems by simp_all
  show ?case
  proof (cases "is_symbol r")
    case True
    let ?b = "add_symbol r b"
    have b: "nodes_of ?b = nodes_of b @ [record_node (next_node_id b) r (recordKindToNodeType (rec_kind r))]"
      "ir_to_graph_node ?b = (rec_id r, next_node_id b) # ir_to_graph_node b" "next_node_id ?b = Suc (next_node_id b)"
      using True n by (simp_all add: add_symbol_def addRecordNode_def)
    have "node_of ?b (rec_id s) = None" if s: "s \<in> set rs" for s
    proof -
      have "rec_id s \<noteq> rec_id r" using Cons.prems(1) imageI [OF s, of rec_id] by (metis distinct.simps(2) list.simps(9) set_map)
      then show ?thesis using Cons.prems(3) s by (simp add: b)
    qed
    then show ?thesis using Cons.IH [of ?b] Cons.prems True
      by (simp add: b symbol_nodes_Cons) (simp add: record_node_def)
  next
    case False
    then show ?thesis using Cons by (simp add: add_symbol_def symbol_nodes_Cons)
  qed
qed (simp add: symbol_nodes_def)

lemma symbols_keep [simp]:
  "edges_of (fold add_symbol rs b) = edges_of b" "next_edge_id (fold add_symbol rs b) = next_edge_id b"
  "graph_type (current_graph (fold add_symbol rs b)) = graph_type (current_graph b)"
  "added_edges (fold add_symbol rs b) = added_edges b" "parent_cache (fold add_symbol rs b) = parent_cache b"
  by (induction rs arbitrary: b) simp_all

lemma map_of_rev:
  assumes "distinct (map fst xs)"
  shows "map_of (rev xs) = map_of xs"
proof
  fix i
  show "map_of (rev xs) i = map_of xs i"
  proof (cases "map_of xs i")
    case None
    then have "map_of (rev xs) i = None" by (simp add: map_of_eq_None_iff)
    then show ?thesis using None by simp
  next
    case (Some k)
    then show ?thesis using assms by (simp add: map_of_eq_Some_iff rev_map [symmetric])
  qed
qed

lemma node_in_Some:
  "distinct (map ir_node_id ns) \<Longrightarrow> node_in ns i = Some k \<longleftrightarrow> (\<exists>n \<in> set ns. ir_node_id n = i \<and> gn_id n = k)"
  unfolding node_in_def by (subst map_of_eq_Some_iff) (auto simp: comp_def)

section \<open>Containment\<close>

text \<open>The edge of a declaration from the nearest declaration above it.\<close>

definition contained :: "semantic_unit \<Rightarrow> (nat \<Rightarrow> nat option) \<Rightarrow> sem_record set \<Rightarrow> (nat \<times> nat \<times> edge_type) set" where
  "contained u node R =
     {(s, t, Contains) | s t r a. r \<in> R \<and> node (rec_id r) = Some t \<and> encloses u (\<lambda>i. node i \<noteq> None) (parent_id r) a \<and>
        node a = Some s \<and> s \<noteq> t}"

lemma contained_insert: "contained u node (insert r R) = contained u node {r} \<union> contained u node R"
  by (auto simp: contained_def)

lemma edges_ok_cong:
  assumes "current_graph c = current_graph b" "next_edge_id c = next_edge_id b" "added_edges c = added_edges b"
  shows "edges_ok c = edges_ok b"
  by (simp add: edges_ok_def assms)

lemma contain_record_keeps [simp]:
  "ir_to_graph_node (contain_record u r b) = ir_to_graph_node b" "nodes_of (contain_record u r b) = nodes_of b"
  "graph_type (current_graph (contain_record u r b)) = graph_type (current_graph b)"
  by (simp_all add: contain_record_def case_prod_beta Let_def split: option.split)

lemma contain_record_ok:
  assumes "cache_ok u b" and "edges_ok b"
  shows "cache_ok u (contain_record u r b)" "edges_ok (contain_record u r b)"
    "ends ` set (edges_of (contain_record u r b)) = contained u (node_of b) {r} \<union> ends ` set (edges_of b)"
proof -
  let ?b = "snd (findContainingFunction u r b)" and ?c = "fst (findContainingFunction u r b)"
  have f: "found u (declared b) (parent_id r) ?c" "cache_ok u ?b" using findContaining_ok [OF assms(1)] by blast+
  have e: "edges_ok ?b" using assms(2) by (simp add: edges_ok_cong [of ?b b])
  have c: "cache_ok u (addGraphEdge s t ty ?b)" for s t ty using f(2) by (simp add: cache_ok_def)
  have "contain_record u r b \<in> {b, ?b} \<or> (\<exists>s t. contain_record u r b = addGraphEdge s t Contains ?b)"
    unfolding contain_record_def case_prod_beta Let_def by (auto split: option.split)
  then show "cache_ok u (contain_record u r b)" "edges_ok (contain_record u r b)"
    using f(2) e c assms addGraphEdge_ok(1) [OF e] by (elim disjE exE insertE emptyE; simp)+
  show "ends ` set (edges_of (contain_record u r b)) = contained u (node_of b) {r} \<union> ends ` set (edges_of b)"
  proof (cases "parent_id r = 0 \<or> node_of b (rec_id r) = None \<or> ?c = 0")
    case True
    have "\<not> encloses u (declared b) (parent_id r) a" if "parent_id r = 0 \<or> ?c = 0" for a
      using that found_none [OF found_0] found_none f(1) by metis
    with True have "contained u (node_of b) {r} = {}" unfolding contained_def by auto
    then show ?thesis using True by (auto simp: contain_record_def case_prod_beta Let_def split: option.split)
  next
    case False
    then obtain t s where t: "node_of b (rec_id r) = Some t" and s: "node_of b ?c = Some s"
      using found_declared [OF f(1)] by auto
    have "encloses u (declared b) (parent_id r) a \<longleftrightarrow> a = ?c" for a using f(1) False unfolding found_def by auto
    then have "contained u (node_of b) {r} = (if s \<noteq> t then {(s, t, Contains)} else {})"
      using t s by (auto simp: contained_def)
    then show ?thesis using False t s addGraphEdge_ok(2) [OF e]
      by (auto simp: contain_record_def case_prod_beta Let_def)
  qed
qed

lemma containment_pass:
  assumes "cache_ok u b" and "edges_ok b"
  shows "cache_ok u (fold (contain_record u) rs b) \<and> edges_ok (fold (contain_record u) rs b) \<and>
    ends ` set (edges_of (fold (contain_record u) rs b)) = contained u (node_of b) (set rs) \<union> ends ` set (edges_of b) \<and>
    ir_to_graph_node (fold (contain_record u) rs b) = ir_to_graph_node b \<and> nodes_of (fold (contain_record u) rs b) = nodes_of b"
  using assms
proof (induction rs arbitrary: b)
  case (Cons r rs)
  note step = contain_record_ok [OF Cons.prems, of r]
  show ?case using Cons.IH [OF step(1,2)] step(3)
    by (auto simp: contained_insert [of _ _ r "set rs"] simp del: fold_simps(1))
qed (simp add: contained_def)

lemma start_symbols_ok: "edges_ok (start_symbols b)"
  by (simp add: edges_ok_def proper_edges_def start_symbols_def empty_graph_def)

text \<open>What the symbol graph of a unit is, and the state it leaves for the call graph.\<close>

lemma symbol_graph:
  assumes "unit_ok u" and "buildSymbolGraph u b = (g, c)"
  shows "graph_nodes g = symbol_nodes (next_node_id b) (records u)" "proper_edges g"
    "ends ` set (graph_edges g) = contained u (node_in (graph_nodes g)) (set (records u))"
    "node_of c = node_in (graph_nodes g)" "cache_ok u c" "distinct (map ir_node_id (graph_nodes g))"
proof -
  let ?s = "fold add_symbol (records u) (start_symbols b)"
  have s: "nodes_of (start_symbols b) = []" "ir_to_graph_node (start_symbols b) = []" "edges_of (start_symbols b) = []"
      "parent_cache (start_symbols b) = []" "next_node_id (start_symbols b) = next_node_id b"
    by (simp_all add: start_symbols_def empty_graph_def)
  have o: "original_id r = 0" if "r \<in> set (records u)" for r
    using assms(1) that unfolding unit_ok_def in_set_conv_nth by metis
  have pass: "nodes_of ?s = symbol_nodes (next_node_id b) (records u)"
      "ir_to_graph_node ?s = rev (map ir_pair (symbol_nodes (next_node_id b) (records u)))"
    using symbols_pass [OF distinct_ids [OF assms(1)] o, of "start_symbols b"] by (simp_all add: s)
  have ok: "cache_ok u ?s" "edges_ok ?s"
    using start_symbols_ok [of b] by (simp_all add: cache_ok_def s) (simp add: edges_ok_def proper_edges_def s)
  have c: "c = fold (contain_record u) (records u) ?s" and g: "g = current_graph c"
    using assms(2) by (auto simp: buildSymbolGraph_def Let_def)
  note all = containment_pass [OF ok, of "records u", folded c]
  show nodes: "graph_nodes g = symbol_nodes (next_node_id b) (records u)" using all pass g by simp
  show d: "distinct (map ir_node_id (graph_nodes g))"
    unfolding nodes symbol_nodes_ids using distinct_ids [OF assms(1)] by (simp add: distinct_map_filter)
  have n: "node_of ?s = node_in (graph_nodes g)"
    unfolding pass(2) nodes node_in_def using d by (intro map_of_rev) (simp add: nodes comp_def)
  show "proper_edges g" using all g by (simp add: edges_ok_def)
  show "ends ` set (graph_edges g) = contained u (node_in (graph_nodes g)) (set (records u))"
    using all g n by (simp add: s)
  show "node_of c = node_in (graph_nodes g)" "cache_ok u c" using all n by simp_all
qed


text \<open>A target has one edge at most, since the nearest declaration above it is one.\<close>

lemma contained_target:
  assumes "unit_ok u" and "distinct (map gn_id ns)" and "distinct (map ir_node_id ns)"
    and "(s, t, ty) \<in> contained u (node_in ns) (set (records u))" and "(s', t, ty') \<in> contained u (node_in ns) (set (records u))"
  shows "(s, t, ty) = (s', t, ty')"
proof -
  from assms(4) obtain r a where r: "r \<in> set (records u)" "node_in ns (rec_id r) = Some t"
      "encloses u (\<lambda>i. node_in ns i \<noteq> None) (parent_id r) a" "node_in ns a = Some s" "ty = Contains"
    unfolding contained_def by blast
  from assms(5) obtain r' a' where r': "r' \<in> set (records u)" "node_in ns (rec_id r') = Some t"
      "encloses u (\<lambda>i. node_in ns i \<noteq> None) (parent_id r') a'" "node_in ns a' = Some s'" "ty' = Contains"
    unfolding contained_def by blast
  obtain n n' where n: "n \<in> set ns" "ir_node_id n = rec_id r" "gn_id n = t" "n' \<in> set ns" "ir_node_id n' = rec_id r'" "gn_id n' = t"
    using r(2) r'(2) unfolding node_in_Some [OF assms(3)] by blast
  have "n = n'" using assms(2) n(1,3,4,6) unfolding distinct_map by (metis inj_onD)
  then have "rec_id r = rec_id r'" using n(2,5) by simp
  then have "r = r'" using getRecord_self [OF assms(1) r(1)] getRecord_self [OF assms(1) r'(1)] by (metis option.inject)
  then have "a = a'" using encloses_unique [OF r(3)] r'(3) by blast
  then show ?thesis using r r' by simp
qed

lemma symbol_numbers_distinct: "distinct (map gn_id (symbol_nodes i rs))"
  unfolding symbol_nodes_numbers by simp

text \<open>
  (C34) The symbol graph of any unit that a visitor can emit: its nodes are the declarations in the order of the
  records, numbered from the next free number on, without the container of the file; and it has exactly one edge
  from the nearest declaration above to each declaration that has one, although the code looks that up in a
  cache and parents may form a cycle.
\<close>

theorem symbol_graph_exact:
  assumes "list_all keeps_ids ops" and "buildSymbolGraph (unit_calls ops new_unit) b = (g, c)"
  shows "graph_nodes g = symbol_nodes (next_node_id b) (records (unit_calls ops new_unit)) \<and>
    ends ` set (graph_edges g) = contained (unit_calls ops new_unit) (node_in (graph_nodes g)) (set (records (unit_calls ops new_unit))) \<and>
    proper_edges g \<and> distinct (map target_id (graph_edges g))"
proof -
  have ok: "unit_ok (unit_calls ops new_unit)" using unit_calls_ok [OF new_unit_ok assms(1)] .
  note g = symbol_graph [OF ok assms(2)]
  have "e = e'" if e: "e \<in> set (graph_edges g)" "e' \<in> set (graph_edges g)" "target_id e = target_id e'" for e e'
  proof -
    have c: "ends e \<in> contained (unit_calls ops new_unit) (node_in (graph_nodes g)) (set (records (unit_calls ops new_unit)))"
      "(source_id e', target_id e, ge_type e') \<in> contained (unit_calls ops new_unit) (node_in (graph_nodes g)) (set (records (unit_calls ops new_unit)))"
      unfolding g(3) [symmetric] using imageI [OF e(1), of ends] imageI [OF e(2), of ends] e(3) by simp_all
    have "distinct (map gn_id (graph_nodes g))" unfolding g(1) by (rule symbol_numbers_distinct)
    from contained_target [OF ok this g(6) c] have "ends e = ends e'" using e(3) by (simp only:)
    then show ?thesis using e(1,2) g(2) unfolding proper_edges_def by (auto simp: distinct_map dest: inj_onD)
  qed
  then have "distinct (map target_id (graph_edges g))"
    using g(2) unfolding proper_edges_def by (simp add: distinct_map inj_on_def)
  then show ?thesis using g by blast
qed

text \<open>A class with a method, a literal in it and a variable in the literal, below the container of the file.\<close>

definition demo_ops :: "unit_op list" where
  "demo_ops =
     [Add RVariable [] 0 demo_range 0 False 0, Add RClass ''A'' 1 demo_range 0 False 0, Add RMethod ''f'' 2 demo_range 0 False 0,
      Add RLiteral ''x'' 3 demo_range 0 False 0, Add RVariable ''v'' 4 demo_range 0 False 0]"

theorem symbol_graph_exact_witness:
  "distinct (map target_id (graph_edges (fst (buildSymbolGraph (unit_calls demo_ops new_unit) (new_builder 10))))) \<and>
   map ends (graph_edges (fst (buildSymbolGraph (unit_calls demo_ops new_unit) (new_builder 10)))) =
     [(10, 11, Contains), (11, 12, Contains)]"
proof -
  have "list_all keeps_ids demo_ops" by (simp add: demo_ops_def)
  note g = symbol_graph_exact [OF this surjective_pairing, of "new_builder 10"]
  have "map ends (graph_edges (fst (buildSymbolGraph (unit_calls demo_ops new_unit) (new_builder 10)))) =
     [(10, 11, Contains), (11, 12, Contains)]" by code_simp
  with g show ?thesis by blast
qed

section \<open>Calls\<close>

text \<open>
  What a call record may resolve to: the layers from the most precise one down, over the named declarations
  that have a node, without the caller.
\<close>

definition callees :: "semantic_unit \<Rightarrow> (nat \<Rightarrow> nat option) \<Rightarrow> sem_record \<Rightarrow> nat \<Rightarrow> nat set" where
  "callees u node r caller =
     (let P = (\<lambda>d n. d \<in> set (records u) \<and> node (rec_id d) = Some n \<and> rec_name d \<noteq> [] \<and> n \<noteq> caller);
          Q = {n. \<exists>d. P d n \<and> qualified_name d = qualified_name r};
          N = (\<lambda>k. {n. \<exists>d. P d n \<and> rec_name d = rec_name r \<and> arity d = k})
      in if ref_original_id r \<noteq> 0 then {n. node (ref_original_id r) = Some n \<and> n \<noteq> caller}
         else if qualified_name r \<noteq> [] \<and> Q \<noteq> {} then Q
         else if arity r = 0 then {n. \<exists>d. P d n \<and> rec_name d = rec_name r}
         else if N (arity r) \<noteq> {} then N (arity r)
         else N 0)"

definition call_edges :: "semantic_unit \<Rightarrow> (nat \<Rightarrow> nat option) \<Rightarrow> sem_record set \<Rightarrow> (nat \<times> nat \<times> edge_type) set" where
  "call_edges u node R =
     {(s, t, Calls) | s t r c. r \<in> R \<and> rec_kind r = RCallExpr \<and> encloses u (\<lambda>i. node i \<noteq> None) (parent_id r) c \<and>
        node c = Some s \<and> t \<in> callees u node r s}"

lemma call_edges_insert: "call_edges u node (insert r R) = call_edges u node {r} \<union> call_edges u node R"
  by (auto simp: call_edges_def)

lemma index_fold:
  "set (by_qualified_name (fold (index_record node) rs idx)) =
     set (by_qualified_name idx) \<union> {(qualified_name d, n) | d n. d \<in> set rs \<and> node (rec_id d) = Some n \<and> rec_name d \<noteq> [] \<and> qualified_name d \<noteq> []}"
  "set (by_name (fold (index_record node) rs idx)) =
     set (by_name idx) \<union> {(rec_name d, \<lparr>cand_arity = arity d, cand_node = n\<rparr>) | d n. d \<in> set rs \<and> node (rec_id d) = Some n \<and> rec_name d \<noteq> []}"
  by (induction rs arbitrary: idx) (auto simp: index_record_def split: option.split)

lemma index_entries:
  "set (by_qualified_name (buildCalleeIndex u node)) =
     {(qualified_name d, n) | d n. d \<in> set (records u) \<and> node (rec_id d) = Some n \<and> rec_name d \<noteq> [] \<and> qualified_name d \<noteq> []}"
  "set (by_name (buildCalleeIndex u node)) =
     {(rec_name d, \<lparr>cand_arity = arity d, cand_node = n\<rparr>) | d n. d \<in> set (records u) \<and> node (rec_id d) = Some n \<and> rec_name d \<noteq> []}"
  unfolding buildCalleeIndex_def index_fold by simp_all

definition proper_order :: "bucket_order \<Rightarrow> bool" where
  "proper_order ord \<longleftrightarrow> (\<forall>xs. mset (order_ids ord xs) = mset xs) \<and> (\<forall>xs. mset (order_candidates ord xs) = mset xs)"

lemma set_equal_range:
  "proper_order ord \<Longrightarrow> set (equal_range (order_ids ord) k ids) = {n. (k, n) \<in> set ids}"
  "proper_order ord \<Longrightarrow> set (equal_range (order_candidates ord) k cs) = {c. (k, c) \<in> set cs}"
proof -
  have s: "set (f xs) = set xs" if "mset (f xs) = mset xs" for f :: "'a list \<Rightarrow> 'a list" and xs
    using that by (metis set_mset_mset)
  show "set (equal_range (order_ids ord) k ids) = {n. (k, n) \<in> set ids}" if "proper_order ord"
    using that unfolding equal_range_def proper_order_def by (auto simp: s image_iff)
  have s': "set (f xs) = set xs" if "mset (f xs) = mset xs" for f :: "callee_candidate list \<Rightarrow> callee_candidate list" and xs
    using that by (metis set_mset_mset)
  show "set (equal_range (order_candidates ord) k cs) = {c. (k, c) \<in> set cs}" if "proper_order ord"
    using that unfolding equal_range_def proper_order_def by (auto simp: s' image_iff)
qed

lemma set_choose:
  "set (choose_by_arity n cs) =
     (if n = 0 then cand_node ` set cs
      else if \<exists>c \<in> set cs. cand_arity c = n then {cand_node c | c. c \<in> set cs \<and> cand_arity c = n}
      else {cand_node c | c. c \<in> set cs \<and> cand_arity c = 0})"
  by (auto simp: choose_by_arity_def Let_def filter_empty_conv)

lemma resolve_targets:
  assumes "proper_order ord" and "idx = buildCalleeIndex u (node_of b)"
  shows "\<exists>ts. resolveCallEdges ord r caller idx b = add_edges caller Calls ts b \<and> set ts = callees u (node_of b) r caller"
proof -
  let ?q = "filter (\<lambda>n. n \<noteq> caller) (equal_range (order_ids ord) (qualified_name r) (by_qualified_name idx))"
  let ?c = "filter (\<lambda>c. cand_node c \<noteq> caller) (equal_range (order_candidates ord) (rec_name r) (by_name idx))"
  have q: "set ?q = {n. \<exists>d. d \<in> set (records u) \<and> node_of b (rec_id d) = Some n \<and> rec_name d \<noteq> [] \<and> n \<noteq> caller \<and>
      qualified_name d = qualified_name r}" if "qualified_name r \<noteq> []"
    unfolding set_filter set_equal_range(1) [OF assms(1)] assms(2) index_entries using that by auto metis
  have c: "set ?c = {\<lparr>cand_arity = arity d, cand_node = n\<rparr> | d n. d \<in> set (records u) \<and> node_of b (rec_id d) = Some n \<and>
      rec_name d \<noteq> [] \<and> n \<noteq> caller \<and> rec_name d = rec_name r}"
    unfolding set_filter set_equal_range(2) [OF assms(1)] assms(2) index_entries by auto metis
  consider "ref_original_id r \<noteq> 0" | "ref_original_id r = 0" "qualified_name r \<noteq> []" "?q \<noteq> []"
    | "ref_original_id r = 0" "qualified_name r = [] \<or> ?q = []" by blast
  then show ?thesis
  proof cases
    case 1
    let ?ts = "case node_of b (ref_original_id r) of None \<Rightarrow> [] | Some n \<Rightarrow> if n \<noteq> caller then [n] else []"
    have "resolveCallEdges ord r caller idx b = add_edges caller Calls ?ts b"
      using 1 by (auto simp: resolveCallEdges_def add_edges_def split: option.split)
    moreover have "set ?ts = callees u (node_of b) r caller"
      using 1 by (auto simp: callees_def Let_def split: option.split)
    ultimately show ?thesis by blast
  next
    case 2
    have "resolveCallEdges ord r caller idx b = add_edges caller Calls ?q b"
      using 2 by (simp add: resolveCallEdges_def Let_def)
    moreover have "set ?q = callees u (node_of b) r caller"
    proof -
      let ?Q = "{n. \<exists>d. (d \<in> set (records u) \<and> node_of b (rec_id d) = Some n \<and> rec_name d \<noteq> [] \<and> n \<noteq> caller) \<and>
          qualified_name d = qualified_name r}"
      have Q: "set ?q = ?Q" unfolding q [OF 2(2)] by blast
      have "set ?q \<noteq> {}" using 2(3) by (metis set_empty)
      then have yes: "qualified_name r \<noteq> [] \<and> ?Q \<noteq> {}" using 2(2) unfolding Q by blast
      show ?thesis unfolding Q callees_def Let_def if_P [OF yes] using 2(1) by (simp only: not_not simp_thms if_False)
    qed
    ultimately show ?thesis by blast
  next
    case 3
    let ?ts = "if rec_name r = [] then [] else choose_by_arity (arity r) ?c"
    have "resolveCallEdges ord r caller idx b = add_edges caller Calls ?ts b"
      using 3 by (auto simp: resolveCallEdges_def Let_def add_edges_def)
    moreover have "set ?ts = callees u (node_of b) r caller"
    proof -
      have none: "qualified_name r = [] \<or> {n. \<exists>d. d \<in> set (records u) \<and> node_of b (rec_id d) = Some n \<and> rec_name d \<noteq> [] \<and>
          n \<noteq> caller \<and> qualified_name d = qualified_name r} = {}"
      proof (cases "qualified_name r = []")
        case False
        with 3(2) have "?q = []" by blast
        then have "set ?q = {}" by (simp only: list.set(1))
        then show ?thesis unfolding q [OF False] by blast
      qed simp
      have ts: "set ?ts = set (choose_by_arity (arity r) ?c)"
      proof (cases "rec_name r = []")
        case True
        then have "set ?c = {}" unfolding c by auto
        then show ?thesis unfolding set_choose using True by simp
      qed simp
      let ?P = "\<lambda>d n. (d \<in> set (records u) \<and> node_of b (rec_id d) = Some n \<and> rec_name d \<noteq> [] \<and> n \<noteq> caller)"
      have img: "cand_node ` set ?c = {n. \<exists>d. ?P d n \<and> rec_name d = rec_name r}" unfolding c by force
      have sel: "{cand_node x | x. x \<in> set ?c \<and> cand_arity x = k} = {n. \<exists>d. ?P d n \<and> rec_name d = rec_name r \<and> arity d = k}" for k
        unfolding c by force
      have ex: "(\<exists>x \<in> set ?c. cand_arity x = k) \<longleftrightarrow> {n. \<exists>d. ?P d n \<and> rec_name d = rec_name r \<and> arity d = k} \<noteq> {}" for k
        unfolding sel [symmetric] by blast
      have no: "\<not> (qualified_name r \<noteq> [] \<and> {n. \<exists>d. ?P d n \<and> qualified_name d = qualified_name r} \<noteq> {})"
        using none by blast
      have "callees u (node_of b) r caller =
          (if arity r = 0 then {n. \<exists>d. ?P d n \<and> rec_name d = rec_name r}
           else if {n. \<exists>d. ?P d n \<and> rec_name d = rec_name r \<and> arity d = arity r} \<noteq> {}
           then {n. \<exists>d. ?P d n \<and> rec_name d = rec_name r \<and> arity d = arity r}
           else {n. \<exists>d. ?P d n \<and> rec_name d = rec_name r \<and> arity d = 0})"
        unfolding callees_def Let_def if_not_P [OF no] using 3(1) by (simp only: not_not simp_thms if_False)
      then show ?thesis unfolding ts set_choose img sel ex by (rule sym)
    qed
    ultimately show ?thesis by blast
  qed
qed

lemma callees_unresolvable: "rec_name r = [] \<Longrightarrow> qualified_name r = [] \<Longrightarrow> ref_original_id r = 0 \<Longrightarrow> callees u node r s = {}"
  by (auto simp: callees_def Let_def)

lemma resolve_record_ok:
  assumes "proper_order ord" and "cache_ok u b" and "edges_ok b" and "node_of b 0 = None" and "idx = buildCalleeIndex u (node_of b)"
  shows "cache_ok u (resolve_record ord u idx r b) \<and> edges_ok (resolve_record ord u idx r b) \<and>
    ir_to_graph_node (resolve_record ord u idx r b) = ir_to_graph_node b \<and> nodes_of (resolve_record ord u idx r b) = nodes_of b \<and>
    ends ` set (edges_of (resolve_record ord u idx r b)) = call_edges u (node_of b) {r} \<union> ends ` set (edges_of b)"
proof (cases "rec_kind r \<noteq> RCallExpr \<or> (rec_name r = [] \<and> qualified_name r = [] \<and> ref_original_id r = 0)")
  case True
  then have "call_edges u (node_of b) {r} = {}" using callees_unresolvable by (auto simp: call_edges_def)
  then show ?thesis using True assms by (auto simp: resolve_record_def)
next
  case False
  let ?b = "snd (findContainingFunction u r b)" and ?c = "fst (findContainingFunction u r b)"
  have f: "found u (declared b) (parent_id r) ?c" "cache_ok u ?b" using findContaining_ok [OF assms(2)] by blast+
  have e: "edges_ok ?b" using assms(3) by (simp add: edges_ok_cong [of ?b b])
  have step: "resolve_record ord u idx r b =
      (case node_of b ?c of None \<Rightarrow> ?b | Some caller \<Rightarrow> resolveCallEdges ord r caller idx ?b)"
    using False by (auto simp: resolve_record_def case_prod_beta Let_def)
  show ?thesis
  proof (cases "node_of b ?c")
    case None
    then have "call_edges u (node_of b) {r} = {}" using f(1) by (auto simp: call_edges_def found_def)
    then show ?thesis using None f e by (simp add: step)
  next
    case (Some caller)
    then have "?c \<noteq> 0" using assms(4) by (metis option.distinct(1))
    have "encloses u (declared b) (parent_id r) a \<longleftrightarrow> a = ?c" for a using f(1) \<open>?c \<noteq> 0\<close> unfolding found_def by auto
    then have ce: "call_edges u (node_of b) {r} = (\<lambda>t. (caller, t, Calls)) ` callees u (node_of b) r caller"
      using False Some by (auto simp: call_edges_def)
    obtain ts where ts: "resolveCallEdges ord r caller idx ?b = add_edges caller Calls ts ?b"
        "set ts = callees u (node_of b) r caller"
      using resolve_targets [OF assms(1), of idx u ?b r caller] assms(5) by auto
    have "cache_ok u (add_edges caller Calls ts ?b)" using f(2) by (simp add: cache_ok_def)
    then show ?thesis using Some add_edges_ok [OF e] by (simp add: step ts ce)
  qed
qed

lemma calls_pass:
  assumes "proper_order ord" and "cache_ok u b" and "edges_ok b" and "node_of b 0 = None" and "idx = buildCalleeIndex u (node_of b)"
  shows "edges_ok (fold (resolve_record ord u idx) rs b) \<and> nodes_of (fold (resolve_record ord u idx) rs b) = nodes_of b \<and>
    ends ` set (edges_of (fold (resolve_record ord u idx) rs b)) = call_edges u (node_of b) (set rs) \<union> ends ` set (edges_of b)"
  using assms(2-5)
proof (induction rs arbitrary: b)
  case (Cons r rs)
  note step = resolve_record_ok [OF assms(1) Cons.prems, of r]
  show ?case using Cons.IH [of "resolve_record ord u idx r b"] step Cons.prems(3,4)
    by (auto simp: call_edges_insert [of _ _ r "set rs"])
qed (simp add: call_edges_def)

lemma call_graph:
  assumes "unit_ok u" and "proper_order ord" and "buildSymbolGraph u b = (g, c)" and "buildCallGraph ord u c = (h, d)"
  shows "graph_nodes h = []" "proper_edges h"
    "ends ` set (graph_edges h) = call_edges u (node_in (graph_nodes g)) (set (records u))"
proof -
  note g = symbol_graph [OF assms(1,3)]
  have s: "nodes_of (start_calls c) = []" "edges_of (start_calls c) = []" "ir_to_graph_node (start_calls c) = ir_to_graph_node c"
      "edges_ok (start_calls c)"
    by (simp_all add: start_calls_def empty_graph_def edges_ok_def proper_edges_def)
  have "node_in (graph_nodes g) 0 = None"
  proof -
    have "0 \<notin> ir_node_id ` set (graph_nodes g)"
    proof
      assume "0 \<in> ir_node_id ` set (graph_nodes g)"
      then have "0 \<in> set (map ir_node_id (graph_nodes g))" by simp
      then obtain r where "r \<in> set (records u)" "rec_id r = 0" unfolding g(1) symbol_nodes_ids by auto
      then show False using assms(1) by (auto simp: unit_ok_def in_set_conv_nth)
    qed
    then show ?thesis by (auto simp: node_in_def map_of_eq_None_iff)
  qed
  then have z: "node_of (start_calls c) 0 = None" using g(4) by (simp add: s)
  have k: "cache_ok u (start_calls c)" using g(5) by (simp add: cache_ok_def start_calls_def)
  have h: "h = current_graph (fold (resolve_record ord u (buildCalleeIndex u (node_of (start_calls c)))) (records u) (start_calls c))"
    using assms(4) by (auto simp: buildCallGraph_def buildCallGraphImpl_def buildNameIndex_def Let_def s)
  note pass = calls_pass [OF assms(2) k s(4) z refl, of "records u"]
  show "graph_nodes h = []" "proper_edges h" using pass s unfolding h edges_ok_def by simp_all
  show "ends ` set (graph_edges h) = call_edges u (node_in (graph_nodes g)) (set (records u))"
    using pass s g(4) unfolding h by simp
qed

text \<open>
  (C32) The call graph that follows the symbol graph of a unit has exactly these edges, whatever the order in the
  hash tables is.  An edge starts at the nearest declaration of any kind above the call.  It leads to the resolved
  reference if the call has one; else to the declarations of its qualified name, whatever their arity; else, and
  also when the caller itself is the only declaration of that qualified name, to those of its name with its number
  of parameters, else to those of its name with an unknown one (to all of its name if the call does not know the
  number).  No declaration calls itself.
\<close>

theorem call_graph_exact:
  assumes "list_all keeps_ids ops" and "proper_order ord"
    and "buildSymbolGraph (unit_calls ops new_unit) b = (g, c)" and "buildCallGraph ord (unit_calls ops new_unit) c = (h, d)"
  shows "ends ` set (graph_edges h) =
      call_edges (unit_calls ops new_unit) (node_in (graph_nodes g)) (set (records (unit_calls ops new_unit))) \<and>
    proper_edges h \<and> graph_nodes h = [] \<and> list_all (\<lambda>e. source_id e \<noteq> target_id e) (graph_edges h)"
proof -
  have ok: "unit_ok (unit_calls ops new_unit)" using unit_calls_ok [OF new_unit_ok assms(1)] .
  note h = call_graph [OF ok assms(2-4)]
  have "source_id e \<noteq> target_id e" if "e \<in> set (graph_edges h)" for e
  proof -
    have "ends e \<in> call_edges (unit_calls ops new_unit) (node_in (graph_nodes g)) (set (records (unit_calls ops new_unit)))"
      using that h(3) by blast
    then obtain r where "target_id e \<in> callees (unit_calls ops new_unit) (node_in (graph_nodes g)) r (source_id e)"
      unfolding call_edges_def by blast
    then show ?thesis by (auto simp: callees_def Let_def split: if_splits)
  qed
  then show ?thesis using h by (auto simp: list_all_iff)
qed

text \<open>Two functions of the same name with 1 and 2 parameters, and a call with 2.\<close>

definition stored_order :: bucket_order where
  "stored_order = \<lparr>order_ids = (\<lambda>xs. xs), order_candidates = (\<lambda>xs. xs)\<rparr>"

definition arity_ops :: "unit_op list" where
  "arity_ops =
     [Add RFunction ''f'' 0 demo_range 1 False 0, Add RFunction ''f'' 0 demo_range 2 False 0, Add RFunction ''g'' 0 demo_range 0 False 0,
      Add RCallExpr ''f'' 3 demo_range 2 False 0]"

definition symbols_and_calls :: "unit_op list \<Rightarrow> code_graph \<times> code_graph" where
  "symbols_and_calls ops =
     (let (g, c) = buildSymbolGraph (unit_calls ops new_unit) (new_builder 1)
      in (g, fst (buildCallGraph stored_order (unit_calls ops new_unit) c)))"

theorem call_graph_exact_witness:
  "list_all (\<lambda>e. source_id e \<noteq> target_id e) (graph_edges (snd (symbols_and_calls arity_ops))) \<and>
   map ends (graph_edges (snd (symbols_and_calls arity_ops))) = [(3, 2, Calls)]"
proof -
  have "list_all keeps_ids arity_ops" "proper_order stored_order"
    by (simp_all add: arity_ops_def stored_order_def proper_order_def)
  note h = call_graph_exact [OF this surjective_pairing surjective_pairing, of "new_builder 1"]
  have "map ends (graph_edges (snd (symbols_and_calls arity_ops))) = [(3, 2, Calls)]" by code_simp
  with h show ?thesis unfolding symbols_and_calls_def Let_def case_prod_beta snd_conv by blast
qed

text \<open>
  A method that calls itself by its qualified name is taken for a caller of the other methods of that name:
  the self-call is skipped, so the precise layer finds nothing and the search by name goes on.
\<close>

theorem recursion_misattributed:
  "map ends (graph_edges (snd (symbols_and_calls
     [AddRebuilt RMethod ''f'' ''A::f'' 0 0 demo_range, AddRebuilt RMethod ''f'' ''B::f'' 0 0 demo_range,
      AddRebuilt RCallExpr ''f'' ''A::f'' 0 1 demo_range]))) = [(1, 2, Calls)]"
  by code_simp

text \<open>
  The rule on arities holds for the search by name only: the layer of qualified names connects a call with two
  arguments to a function of one parameter, both numbers known.
\<close>

theorem qualified_layer_ignores_arity:
  "map ends (graph_edges (snd (symbols_and_calls
     [Add RFunction ''f'' 0 demo_range 1 False 0, SetName 1 ''N::f'', Add RFunction ''g'' 0 demo_range 0 False 0,
      Add RCallExpr ''f'' 2 demo_range 2 False 0, SetName 3 ''N::f'']))) = [(2, 1, Calls)]"
  "map ends (graph_edges (snd (symbols_and_calls
     [Add RFunction ''f'' 0 demo_range 1 False 0, SetName 1 ''N::f'', Add RFunction ''g'' 0 demo_range 0 False 0,
      Add RCallExpr ''f'' 2 demo_range 2 False 0]))) = []"
  by code_simp+

text \<open>The caller need not be a function: a call in the body of a class is an edge of the class.\<close>

theorem class_calls:
  "map ends (graph_edges (snd (symbols_and_calls
     [Add RClass ''C'' 0 demo_range 0 False 0, Add RFunction ''f'' 0 demo_range 0 False 0,
      Add RCallExpr ''f'' 1 demo_range 0 False 0]))) = [(1, 2, Calls)] \<and>
   map gn_type (graph_nodes (fst (symbols_and_calls
     [Add RClass ''C'' 0 demo_range 0 False 0, Add RFunction ''f'' 0 demo_range 0 False 0,
      Add RCallExpr ''f'' 1 demo_range 0 False 0]))) = [ClassNode, FunctionNode]"
  by code_simp

section \<open>Types\<close>

text \<open>
  The builder of the edges to types adds none: it starts from the nodes of references to types, and those
  records have no nodes.
\<close>

theorem no_type_edges:
  assumes "list_all keeps_ids ops" and "buildSymbolGraph (unit_calls ops new_unit) b = (g, c)"
  shows "buildTypeEdges (unit_calls ops new_unit) c = c"
proof -
  let ?u = "unit_calls ops new_unit"
  have ok: "unit_ok ?u" using unit_calls_ok [OF new_unit_ok assms(1)] .
  note g = symbol_graph [OF ok assms(2)]
  have none: "node_of c (rec_id r) = None" if r: "r \<in> set (records ?u)" "rec_kind r = RTypeRef \<or> rec_kind r = RTypeAssign" for r
  proof -
    have "rec_id r \<notin> set (map ir_node_id (graph_nodes g))"
    proof
      assume "rec_id r \<in> set (map ir_node_id (graph_nodes g))"
      then obtain s where s: "s \<in> set (records ?u)" "is_symbol s" "rec_id s = rec_id r"
        unfolding g(1) symbol_nodes_ids by auto
      then have "s = r" using getRecord_self [OF ok] r(1) by (metis option.inject)
      then show False using s(2) r(2) by (auto simp: is_symbol_def isDeclarationKind_def)
    qed
    then show ?thesis unfolding g(4) node_in_def by (auto simp: map_of_eq_None_iff)
  qed
  have "fold (type_edge table) rs c = c" if "set rs \<subseteq> set (records ?u)" for rs table
    using that by (induction rs) (auto simp: type_edge_def none)
  then show ?thesis by (simp add: buildTypeEdges_def)
qed

theorem no_type_edges_witness:
  "buildTypeEdges (unit_calls [AddTyped RTypeDecl ''T'' [] 0 demo_range 0, AddTyped RTypeRef ''x'' ''T'' 0 demo_range 0] new_unit)
     (snd (buildSymbolGraph (unit_calls [AddTyped RTypeDecl ''T'' [] 0 demo_range 0, AddTyped RTypeRef ''x'' ''T'' 0 demo_range 0] new_unit)
       (new_builder 1))) =
   snd (buildSymbolGraph (unit_calls [AddTyped RTypeDecl ''T'' [] 0 demo_range 0, AddTyped RTypeRef ''x'' ''T'' 0 demo_range 0] new_unit)
       (new_builder 1))"
  by (rule no_type_edges [OF _ surjective_pairing]) simp

end
