(* ===== verification/Tree_Graph.thy ===== *)
theory Tree_Graph
  imports Graph_Builder
begin

text \<open>
  The half of the graph builder that visits the tree of a translation unit (\<open>ir/ir.h\<close>, \<open>ir/ir.cpp\<close>,
  \<open>ir/ir_visitor.cpp\<close>, and \<open>GraphBuilder::visitEnter\<close> of \<open>graph/graph_builder.cpp\<close>).

  A node holds its children; a semantic edge points to any node of the unit, of which the builder reads only
  the data, so an edge holds the data of its target, or \<open>None\<close> for a null pointer.
\<close>

section \<open>The tree\<close>

datatype relation = ParentRel | ChildRel | TypeRefRel | SymbolRef | CallTarget | Receiver | BaseClass

datatype ir_node = IrNode node_data "(node_data option \<times> relation) list" "ir_node list"

definition kindName :: "node_kind \<Rightarrow> bytes" where
  "kindName k =
     (case k of
        NTranslationUnit \<Rightarrow> ''TranslationUnit'' | NModule \<Rightarrow> ''Module'' | NFunctionDecl \<Rightarrow> ''FunctionDecl''
      | NClassDecl \<Rightarrow> ''ClassDecl'' | NMethodDecl \<Rightarrow> ''MethodDecl'' | NVariableDecl \<Rightarrow> ''VariableDecl''
      | NFieldDecl \<Rightarrow> ''FieldDecl'' | NParameterDecl \<Rightarrow> ''ParameterDecl'' | NEnumDecl \<Rightarrow> ''EnumDecl''
      | NEnumMemberDecl \<Rightarrow> ''EnumMemberDecl'' | NTypeAliasDecl \<Rightarrow> ''TypeAliasDecl'' | NMacroDecl \<Rightarrow> ''MacroDecl''
      | NTemplateDecl \<Rightarrow> ''TemplateDecl'' | NNamespaceDecl \<Rightarrow> ''NamespaceDecl'' | NBlockStmt \<Rightarrow> ''BlockStmt''
      | NExprStmt \<Rightarrow> ''ExprStmt'' | NIfStmt \<Rightarrow> ''IfStmt'' | NForStmt \<Rightarrow> ''ForStmt'' | NWhileStmt \<Rightarrow> ''WhileStmt''
      | NDoWhileStmt \<Rightarrow> ''DoWhileStmt'' | NSwitchStmt \<Rightarrow> ''SwitchStmt'' | NCaseStmt \<Rightarrow> ''CaseStmt''
      | NReturnStmt \<Rightarrow> ''ReturnStmt'' | NBreakStmt \<Rightarrow> ''BreakStmt'' | NContinueStmt \<Rightarrow> ''ContinueStmt''
      | NTryStmt \<Rightarrow> ''TryStmt'' | NCatchStmt \<Rightarrow> ''CatchStmt'' | NThrowStmt \<Rightarrow> ''ThrowStmt'' | NCallExpr \<Rightarrow> ''CallExpr''
      | NBinaryExpr \<Rightarrow> ''BinaryExpr'' | NUnaryExpr \<Rightarrow> ''UnaryExpr'' | NMemberExpr \<Rightarrow> ''MemberExpr''
      | NIndexExpr \<Rightarrow> ''IndexExpr'' | NIdentifierExpr \<Rightarrow> ''IdentifierExpr'' | NLiteralExpr \<Rightarrow> ''LiteralExpr''
      | NLambdaExpr \<Rightarrow> ''LambdaExpr'' | NNewExpr \<Rightarrow> ''NewExpr'' | NCastExpr \<Rightarrow> ''CastExpr''
      | NTernaryExpr \<Rightarrow> ''TernaryExpr'' | NImportDecl \<Rightarrow> ''ImportDecl'' | NExportDecl \<Rightarrow> ''ExportDecl''
      | NComment \<Rightarrow> ''Comment'')"

definition relationName :: "relation \<Rightarrow> bytes" where
  "relationName r =
     (case r of ParentRel \<Rightarrow> ''Parent'' | ChildRel \<Rightarrow> ''Child'' | TypeRefRel \<Rightarrow> ''TypeRef'' | SymbolRef \<Rightarrow> ''SymbolRef''
      | CallTarget \<Rightarrow> ''CallTarget'' | Receiver \<Rightarrow> ''Receiver'' | BaseClass \<Rightarrow> ''BaseClass'')"

text \<open>The flat list of all nodes gets the ids from 0 on.\<close>

definition assignIds :: "node_data list \<Rightarrow> node_data list" where
  "assignIds ns = map (\<lambda>(i, n). n\<lparr>nd_id := i\<rparr>) (List.enumerate 0 ns)"

lemma assigned_ids_distinct: "distinct (map nd_id (assignIds ns))"
proof -
  have "map nd_id (assignIds ns) = [0..<length ns]"
    by (rule nth_equalityI) (simp_all add: assignIds_def nth_enumerate_eq)
  then show ?thesis by simp
qed

section \<open>Nodes\<close>

text \<open>The kinds that get a node when they are visited, and those that get one as the target of an edge.\<close>

definition visited_type :: "node_kind \<Rightarrow> node_type option" where
  "visited_type k =
     (case k of NFunctionDecl \<Rightarrow> Some FunctionNode | NMethodDecl \<Rightarrow> Some MethodNode | NClassDecl \<Rightarrow> Some ClassNode
      | NEnumDecl \<Rightarrow> Some ModuleNode | NVariableDecl \<Rightarrow> Some VariableNode | NMacroDecl \<Rightarrow> Some MacroNode
      | NModule \<Rightarrow> Some ModuleNode | NNamespaceDecl \<Rightarrow> Some ModuleNode | NImportDecl \<Rightarrow> Some ModuleNode
      | NExportDecl \<Rightarrow> Some ModuleNode | NTranslationUnit \<Rightarrow> Some FileNode | _ \<Rightarrow> None)"

definition target_type :: "node_kind \<Rightarrow> node_type option" where
  "target_type k =
     (case k of NFunctionDecl \<Rightarrow> Some FunctionNode | NMethodDecl \<Rightarrow> Some MethodNode | NClassDecl \<Rightarrow> Some ClassNode
      | NVariableDecl \<Rightarrow> Some VariableNode | NMacroDecl \<Rightarrow> Some MacroNode | NModule \<Rightarrow> Some ModuleNode | _ \<Rightarrow> None)"

definition is_function :: "node_data \<Rightarrow> bool" where
  "is_function d \<longleftrightarrow> nd_kind d = NFunctionDecl \<or> nd_kind d = NMethodDecl"

definition tree_node :: "nat \<Rightarrow> node_data \<Rightarrow> node_type \<Rightarrow> graph_node" where
  "tree_node i d ty =
     \<lparr>gn_id = i, ir_node_id = nd_id d, gn_type = ty, gn_name = nd_name d, gn_qualified = nd_qualified d, gn_file = nd_file d,
      gn_start_row = start_row (nd_loc d), gn_start_col = start_col (nd_loc d), gn_end_row = end_row (nd_loc d),
      gn_end_col = end_col (nd_loc d), gn_language = nd_language d,
      is_entry_point = ((ty = FunctionNode \<or> ty = MethodNode) \<and> isEntryPointName (nd_name d) (nd_language d))\<rparr>"

definition addTreeNode :: "node_data \<Rightarrow> node_type \<Rightarrow> builder \<Rightarrow> builder" where
  "addTreeNode d ty b =
     (if node_of b (nd_id d) \<noteq> None then b
      else push_node (tree_node (next_node_id b) d ty)
        (b\<lparr>next_node_id := Suc (next_node_id b), ir_to_graph_node := (nd_id d, next_node_id b) # ir_to_graph_node b\<rparr>))"

section \<open>The visit of a node\<close>

fun containing_node :: "(nat \<Rightarrow> nat option) \<Rightarrow> node_data list \<Rightarrow> nat" where
  "containing_node node [] = 0"
| "containing_node node (f # fs) = (case node (nd_id f) of Some n \<Rightarrow> n | None \<Rightarrow> containing_node node fs)"

definition getContainingFunctionNode :: "builder \<Rightarrow> nat" where
  "getContainingFunctionNode b = containing_node (node_of b) (function_stack b)"

text \<open>Nothing ever leaves the stack: \<open>visitLeave\<close> is not overridden.\<close>

definition enter_function :: "node_data \<Rightarrow> builder \<Rightarrow> builder" where
  "enter_function d b = (if is_function d then b\<lparr>function_stack := d # function_stack b\<rparr> else b)"

definition declare_node :: "node_data \<Rightarrow> builder \<Rightarrow> builder" where
  "declare_node d b = (case visited_type (nd_kind d) of None \<Rightarrow> b | Some ty \<Rightarrow> addTreeNode d ty b)"

text \<open>The fallback of the code looks through the same stack again.\<close>

definition contain_node :: "node_data \<Rightarrow> builder \<Rightarrow> builder" where
  "contain_node d b =
     (if building_call_graph b then b
      else case node_of b (nd_id d) of
             None \<Rightarrow> b
           | Some child \<Rightarrow>
               (let c = getContainingFunctionNode b;
                    c' = (if c = 0 then containing_node (node_of b) (function_stack b) else c)
                in if 0 < c' \<and> c' \<noteq> child then addGraphEdge c' child Contains b else b))"

definition effective_source :: "relation \<Rightarrow> node_data \<Rightarrow> builder \<Rightarrow> nat" where
  "effective_source rel d b =
     (if rel = CallTarget then getContainingFunctionNode b
      else case node_of b (nd_id d) of
             Some n \<Rightarrow> n
           | None \<Rightarrow> if rel = SymbolRef then getContainingFunctionNode b else 0)"

definition edge_type_of :: "bool \<Rightarrow> relation \<Rightarrow> edge_type option" where
  "edge_type_of building rel =
     (case rel of
        SymbolRef \<Rightarrow> if building then None else Some References
      | CallTarget \<Rightarrow> if building then Some Calls else None
      | Receiver \<Rightarrow> if building then None else Some Contains
      | BaseClass \<Rightarrow> if building then None else Some Inherits
      | _ \<Rightarrow> None)"

definition ensure_target :: "node_data \<Rightarrow> builder \<Rightarrow> builder" where
  "ensure_target x b =
     (if node_of b (nd_id x) \<noteq> None then b
      else case target_type (nd_kind x) of None \<Rightarrow> b | Some ty \<Rightarrow> addTreeNode x ty b)"

definition semantic_edge :: "node_data \<Rightarrow> node_data option \<times> relation \<Rightarrow> builder \<Rightarrow> builder" where
  "semantic_edge d e b =
     (let rel = snd e in
      if \<not> building_call_graph b \<and> rel = CallTarget then b
      else
        let src = effective_source rel d b in
        if src = 0 then b
        else case fst e of
               None \<Rightarrow> b
             | Some x \<Rightarrow>
                 let b' = ensure_target x b
                 in case node_of b' (nd_id x) of
                      None \<Rightarrow> b'
                    | Some tgt \<Rightarrow>
                        (case edge_type_of (building_call_graph b) rel of None \<Rightarrow> b' | Some ty \<Rightarrow> addGraphEdge src tgt ty b'))"

definition visitEnter :: "node_data \<Rightarrow> (node_data option \<times> relation) list \<Rightarrow> builder \<Rightarrow> builder" where
  "visitEnter d es b = fold (semantic_edge d) es (contain_node d (declare_node d (enter_function d b)))"

fun traverseNode :: "ir_node \<Rightarrow> builder \<Rightarrow> builder" where
  "traverseNode (IrNode d es cs) b = fold traverseNode cs (visitEnter d es b)"

definition traverse :: "ir_node option \<Rightarrow> builder \<Rightarrow> builder" where
  "traverse u b = (case u of None \<Rightarrow> b | Some t \<Rightarrow> traverseNode t b)"

definition start_tree_symbols :: "builder \<Rightarrow> builder" where
  "start_tree_symbols b =
     b\<lparr>current_graph := empty_graph\<lparr>graph_name := ''symbol-graph'', graph_type := ''symbol_reference''\<rparr>, next_edge_id := 1,
       ir_to_graph_node := [], function_stack := [], added_edges := [], building_call_graph := False\<rparr>"

definition tree_symbol_graph :: "ir_node option \<Rightarrow> builder \<Rightarrow> code_graph \<times> builder" where
  "tree_symbol_graph u b = (let b' = traverse u (start_tree_symbols b) in (current_graph b', b'))"

definition start_tree_calls :: "builder \<Rightarrow> builder" where
  "start_tree_calls b =
     b\<lparr>current_graph := empty_graph\<lparr>graph_name := ''call-graph'', graph_type := ''call_graph''\<rparr>, next_edge_id := 1,
       added_edges := [], building_call_graph := True\<rparr>"

definition tree_call_graph :: "ir_node option \<Rightarrow> builder \<Rightarrow> code_graph \<times> builder" where
  "tree_call_graph u b = (let b' = traverse u (start_tree_calls b) in (current_graph b', b'))"

section \<open>The visits in order\<close>

type_synonym visit = "node_data \<times> (node_data option \<times> relation) list"

fun visits :: "ir_node \<Rightarrow> visit list" where
  "visits (IrNode d es cs) = (d, es) # concat (map visits cs)"

definition unit_visits :: "ir_node option \<Rightarrow> visit list" where
  "unit_visits u = (case u of None \<Rightarrow> [] | Some t \<Rightarrow> visits t)"

lemma fold_concat_map: "fold f (concat (map g xs)) = fold (\<lambda>x. fold f (g x)) xs"
  by (induction xs) simp_all

lemma traverseNode_visits: "traverseNode t b = fold (\<lambda>(d, es). visitEnter d es) (visits t) b"
proof (induction t b rule: traverseNode.induct)
  case (1 d es cs b)
  have "fold traverseNode cs s = fold (\<lambda>t. fold (\<lambda>(d, es). visitEnter d es) (visits t)) cs s" for s
    by (rule fold_cong) (use 1 in \<open>auto intro!: ext\<close>)
  then show ?case by (simp add: fold_concat_map)
qed

lemma traverse_visits: "traverse u b = fold (\<lambda>(d, es). visitEnter d es) (unit_visits u) b"
  by (simp add: traverse_def unit_visits_def traverseNode_visits split: option.split)

section \<open>What the edges should be\<close>

text \<open>
  \<open>node\<close> is the node of an id, \<open>st\<close> the functions entered so far (the last one first) and \<open>seen\<close> the ids
  visited so far, both with the node itself.
\<close>

definition current_function :: "(nat \<Rightarrow> nat option) \<Rightarrow> node_data list \<Rightarrow> nat option" where
  "current_function node st = (case st of [] \<Rightarrow> None | f # fs \<Rightarrow> node (nd_id f))"

definition nest_edges :: "bool \<Rightarrow> (nat \<Rightarrow> nat option) \<Rightarrow> node_data list \<Rightarrow> node_data \<Rightarrow> (nat \<times> nat \<times> edge_type) set" where
  "nest_edges building node st d =
     {(s, t, Contains) | s t. \<not> building \<and> current_function node st = Some s \<and> node (nd_id d) = Some t \<and> s \<noteq> t}"

definition edge_source :: "(nat \<Rightarrow> nat option) \<Rightarrow> node_data list \<Rightarrow> node_data \<Rightarrow> relation \<Rightarrow> nat option" where
  "edge_source node st d rel =
     (if rel = CallTarget \<or> rel = SymbolRef \<and> node (nd_id d) = None then current_function node st else node (nd_id d))"

definition semantic_edges ::
  "bool \<Rightarrow> (nat \<Rightarrow> nat option) \<Rightarrow> node_data list \<Rightarrow> nat set \<Rightarrow> node_data \<Rightarrow> (node_data option \<times> relation) list \<Rightarrow> (nat \<times> nat \<times> edge_type) set" where
  "semantic_edges building node st seen d es =
     {(s, t, ty) | s t ty x rel. (Some x, rel) \<in> set es \<and> edge_type_of building rel = Some ty \<and>
        edge_source node st d rel = Some s \<and> node (nd_id x) = Some t \<and> (target_type (nd_kind x) \<noteq> None \<or> nd_id x \<in> seen)}"

fun visit_edges :: "bool \<Rightarrow> (nat \<Rightarrow> nat option) \<Rightarrow> node_data list \<Rightarrow> nat set \<Rightarrow> visit list \<Rightarrow> (nat \<times> nat \<times> edge_type) set" where
  "visit_edges building node st seen [] = {}"
| "visit_edges building node st seen ((d, es) # vs) =
     (let st' = (if is_function d then d # st else st)
      in nest_edges building node st' d \<union> semantic_edges building node st' (insert (nd_id d) seen) d es \<union>
         visit_edges building node st' (insert (nd_id d) seen) vs)"

section \<open>The nodes stay consistent\<close>

text \<open>
  \<open>old\<close> are the nodes of an earlier graph: with them, the map of the builder is that of its nodes, which are
  numbered without gaps and have different ids.
\<close>

definition node_table :: "graph_node list \<Rightarrow> nat \<Rightarrow> nat option" where
  "node_table ns = map_of (map (\<lambda>n. (ir_node_id n, gn_id n)) (rev ns))"

definition nodes_ok :: "nat \<Rightarrow> graph_node list \<Rightarrow> builder \<Rightarrow> bool" where
  "nodes_ok start old b \<longleftrightarrow>
     0 < start \<and> node_of b = node_table (old @ nodes_of b) \<and> distinct (map ir_node_id (old @ nodes_of b)) \<and>
     map gn_id (old @ nodes_of b) = [start..<start + length (old @ nodes_of b)] \<and>
     next_node_id b = start + length (old @ nodes_of b)"

lemma node_table_None: "node_table ns i = None \<longleftrightarrow> i \<notin> ir_node_id ` set ns"
  by (auto simp: node_table_def map_of_eq_None_iff image_image)

lemma node_table_Some: "node_table ns i = Some k \<Longrightarrow> \<exists>n \<in> set ns. ir_node_id n = i \<and> gn_id n = k"
  unfolding node_table_def by (drule map_of_SomeD) auto

lemma nodes_ok_range:
  assumes "nodes_ok start old b" and "node_of b i = Some k"
  shows "0 < k" "k < next_node_id b"
proof -
  obtain n where "n \<in> set (old @ nodes_of b)" "gn_id n = k"
    using assms node_table_Some unfolding nodes_ok_def by metis
  then have "k \<in> set (map gn_id (old @ nodes_of b))" by auto
  then have "k \<in> {start..<start + length (old @ nodes_of b)}"
    using assms(1) unfolding nodes_ok_def by (metis atLeastLessThan_upt)
  then show "0 < k" "k < next_node_id b" using assms(1) unfolding nodes_ok_def by auto
qed

lemma nodes_ok_inj:
  assumes "nodes_ok start old b" and "node_of b i = Some k" and "node_of b j = Some k"
  shows "i = j"
proof -
  obtain n m where n: "n \<in> set (old @ nodes_of b)" "ir_node_id n = i" "gn_id n = k"
    "m \<in> set (old @ nodes_of b)" "ir_node_id m = j" "gn_id m = k"
    using assms node_table_Some unfolding nodes_ok_def by metis
  have "distinct (map gn_id (old @ nodes_of b))" using assms(1) unfolding nodes_ok_def by (metis distinct_upt)
  then have "n = m" using n unfolding distinct_map by (metis inj_onD)
  then show ?thesis using n by simp
qed

lemma addTreeNode_keeps [simp]:
  "edges_of (addTreeNode d ty b) = edges_of b" "graph_type (current_graph (addTreeNode d ty b)) = graph_type (current_graph b)"
  "next_edge_id (addTreeNode d ty b) = next_edge_id b" "added_edges (addTreeNode d ty b) = added_edges b"
  "function_stack (addTreeNode d ty b) = function_stack b" "building_call_graph (addTreeNode d ty b) = building_call_graph b"
  by (simp_all add: addTreeNode_def push_node_def)

lemma addTreeNode_ok:
  assumes "nodes_ok start old b"
  shows "nodes_ok start old (addTreeNode d ty b)" "node_of b \<subseteq>\<^sub>m node_of (addTreeNode d ty b)"
    "node_of (addTreeNode d ty b) i \<noteq> None \<longleftrightarrow> i = nd_id d \<or> node_of b i \<noteq> None"
proof -
  have "nodes_ok start old (addTreeNode d ty b) \<and> node_of b \<subseteq>\<^sub>m node_of (addTreeNode d ty b)"
  proof (cases "node_of b (nd_id d)")
    case None
    then have "nd_id d \<notin> ir_node_id ` set (old @ nodes_of b)"
      using assms unfolding nodes_ok_def by (metis node_table_None)
    then show ?thesis using assms None
      by (auto simp: addTreeNode_def push_node_def nodes_ok_def tree_node_def node_table_def map_le_def)
  next
    case (Some n)
    then show ?thesis using assms by (simp add: addTreeNode_def)
  qed
  then show "nodes_ok start old (addTreeNode d ty b)" "node_of b \<subseteq>\<^sub>m node_of (addTreeNode d ty b)" by blast+
  show "node_of (addTreeNode d ty b) i \<noteq> None \<longleftrightarrow> i = nd_id d \<or> node_of b i \<noteq> None"
    by (auto simp: addTreeNode_def push_node_def)
qed

section \<open>What is known at a visit\<close>

text \<open>
  \<open>W\<close> are the nodes and the targets of a unit.  What was visited and is of a kind with a node has one; what has
  one is of such a kind, and was visited or can be a target.
\<close>

definition known_ok :: "node_data set \<Rightarrow> nat set \<Rightarrow> (nat \<Rightarrow> nat option) \<Rightarrow> bool" where
  "known_ok W seen node \<longleftrightarrow>
     (\<forall>x \<in> W. (nd_id x \<in> seen \<and> visited_type (nd_kind x) \<noteq> None \<longrightarrow> node (nd_id x) \<noteq> None) \<and>
       (node (nd_id x) \<noteq> None \<longrightarrow> visited_type (nd_kind x) \<noteq> None \<and> (target_type (nd_kind x) \<noteq> None \<or> nd_id x \<in> seen)))"

definition tree_ok :: "node_data set \<Rightarrow> nat \<Rightarrow> graph_node list \<Rightarrow> nat set \<Rightarrow> node_data list \<Rightarrow> builder \<Rightarrow> bool" where
  "tree_ok W start old seen st b \<longleftrightarrow>
     nodes_ok start old b \<and> edges_ok b \<and> known_ok W seen (node_of b) \<and> function_stack b = st \<and>
     (\<forall>f \<in> set st. f \<in> W \<and> is_function f \<and> nd_id f \<in> seen)"

text \<open>A map that only knows kinds with a node.\<close>

definition kinds_ok :: "node_data set \<Rightarrow> (nat \<Rightarrow> nat option) \<Rightarrow> bool" where
  "kinds_ok W node \<longleftrightarrow> (\<forall>x \<in> W. node (nd_id x) \<noteq> None \<longrightarrow> visited_type (nd_kind x) \<noteq> None)"

lemma map_le_Some: "m \<subseteq>\<^sub>m n \<Longrightarrow> m i = Some k \<Longrightarrow> n i = Some k"
  by (metis domI map_le_def)

lemma target_visited: "target_type k \<noteq> None \<Longrightarrow> visited_type k \<noteq> None"
  by (simp add: target_type_def visited_type_def split: node_kind.splits)

lemma function_visited: "is_function f \<Longrightarrow> visited_type (nd_kind f) \<noteq> None"
  by (auto simp: is_function_def visited_type_def)

lemma tree_ok_kinds: "tree_ok W start old seen st b \<Longrightarrow> kinds_ok W (node_of b)"
  unfolding tree_ok_def known_ok_def kinds_ok_def by blast

lemma seen_agrees:
  assumes "tree_ok W start old seen st b" and "node_of b \<subseteq>\<^sub>m node" and "kinds_ok W node" and "x \<in> W" and "nd_id x \<in> seen"
  shows "node (nd_id x) = node_of b (nd_id x)"
proof (cases "node_of b (nd_id x)")
  case None
  then have "visited_type (nd_kind x) = None" using assms(1,4,5) unfolding tree_ok_def known_ok_def by blast
  then show ?thesis using None assms(3,4) unfolding kinds_ok_def by auto
next
  case (Some n)
  then show ?thesis using map_le_Some [OF assms(2)] by simp
qed

lemma stack_known:
  assumes "tree_ok W start old seen (f # fs) b"
  shows "f \<in> W" "nd_id f \<in> seen" "\<exists>n. node_of b (nd_id f) = Some n \<and> 0 < n"
proof -
  show f: "f \<in> W" "nd_id f \<in> seen" using assms unfolding tree_ok_def by simp_all
  have "visited_type (nd_kind f) \<noteq> None" using assms function_visited unfolding tree_ok_def by simp
  then have "node_of b (nd_id f) \<noteq> None" using f assms unfolding tree_ok_def known_ok_def by blast
  then show "\<exists>n. node_of b (nd_id f) = Some n \<and> 0 < n"
    using assms nodes_ok_range(1) unfolding tree_ok_def by blast
qed

lemma current_function_agrees:
  assumes "tree_ok W start old seen st b" and "node_of b \<subseteq>\<^sub>m node"
  shows "current_function node st = current_function (node_of b) st"
proof (cases st)
  case (Cons f fs)
  obtain n where n: "node_of b (nd_id f) = Some n" using stack_known [OF assms(1) [unfolded Cons]] by blast
  then show ?thesis using Cons map_le_Some [OF assms(2)] by (simp add: current_function_def)
qed (simp add: current_function_def)

lemma containing_current:
  assumes "tree_ok W start old seen st b"
  shows "containing_node (node_of b) st = (case current_function (node_of b) st of None \<Rightarrow> 0 | Some n \<Rightarrow> n)"
proof (cases st)
  case (Cons f fs)
  obtain n where "node_of b (nd_id f) = Some n" using stack_known [OF assms [unfolded Cons]] by blast
  then show ?thesis using Cons by (simp add: current_function_def)
qed (simp add: current_function_def)

lemma current_positive:
  assumes "tree_ok W start old seen st b" and "current_function (node_of b) st = Some n"
  shows "0 < n"
proof (cases st)
  case (Cons f fs)
  then show ?thesis using stack_known(3) [OF assms(1) [unfolded Cons]] assms(2) by (auto simp: current_function_def)
qed (use assms in \<open>simp add: current_function_def\<close>)

text \<open>Every record of the state that has the same map, nodes and stack is as good.\<close>

lemma tree_ok_edge: "tree_ok W start old seen st b \<Longrightarrow> tree_ok W start old seen st (addGraphEdge s t ty b)"
  unfolding tree_ok_def nodes_ok_def addGraphEdge_keeps using addGraphEdge_ok(1) by blast

section \<open>One visit\<close>

lemma declare_ok:
  assumes "tree_ok W start old seen st b" and "inj_on nd_id W" and "d \<in> W"
  shows "tree_ok W start old (insert (nd_id d) seen) (if is_function d then d # st else st) (declare_node d (enter_function d b))"
    "node_of b \<subseteq>\<^sub>m node_of (declare_node d (enter_function d b))"
    "edges_of (declare_node d (enter_function d b)) = edges_of b"
    "building_call_graph (declare_node d (enter_function d b)) = building_call_graph b"
proof -
  let ?b = "enter_function d b" and ?c = "declare_node d (enter_function d b)" and ?st = "if is_function d then d # st else st"
  have b: "nodes_ok start old ?b" "edges_ok ?b" "node_of ?b = node_of b" "function_stack ?b = ?st" "edges_of ?b = edges_of b"
      "building_call_graph ?b = building_call_graph b"
    using assms(1) by (auto simp: tree_ok_def enter_function_def nodes_ok_def edges_ok_def)
  have c: "nodes_ok start old ?c" "edges_ok ?c" "node_of b \<subseteq>\<^sub>m node_of ?c" "function_stack ?c = ?st" "edges_of ?c = edges_of b"
      "building_call_graph ?c = building_call_graph b"
    using b addTreeNode_ok [OF b(1), of d]
    by (auto simp: declare_node_def edges_ok_def proper_edges_def split: option.split)
  have k: "node_of ?c i \<noteq> None \<longleftrightarrow> i = nd_id d \<and> visited_type (nd_kind d) \<noteq> None \<or> node_of b i \<noteq> None" for i
    using addTreeNode_ok(3) [OF b(1), of d _ i] b(3) by (auto simp: declare_node_def split: option.split)
  have known: "known_ok W seen (node_of b)" using assms(1) by (simp add: tree_ok_def)
  have "known_ok W (insert (nd_id d) seen) (node_of ?c)"
    unfolding known_ok_def
  proof (intro ballI)
    fix x
    assume x: "x \<in> W"
    have "nd_id x = nd_id d \<Longrightarrow> x = d" using assms(2,3) x by (metis inj_onD)
    then show "(nd_id x \<in> insert (nd_id d) seen \<and> visited_type (nd_kind x) \<noteq> None \<longrightarrow> node_of ?c (nd_id x) \<noteq> None) \<and>
       (node_of ?c (nd_id x) \<noteq> None \<longrightarrow> visited_type (nd_kind x) \<noteq> None \<and>
         (target_type (nd_kind x) \<noteq> None \<or> nd_id x \<in> insert (nd_id d) seen))"
      using known x unfolding k known_ok_def by blast
  qed
  then show "tree_ok W start old (insert (nd_id d) seen) ?st ?c"
    using c assms(1,3) by (auto simp: tree_ok_def)
  show "node_of b \<subseteq>\<^sub>m node_of ?c" "edges_of ?c = edges_of b" "building_call_graph ?c = building_call_graph b"
    using c by blast+
qed

lemma contain_ok:
  assumes "tree_ok W start old seen st b" and "d \<in> W" and "nd_id d \<in> seen"
  shows "tree_ok W start old seen st (contain_node d b)" "node_of (contain_node d b) = node_of b"
    "building_call_graph (contain_node d b) = building_call_graph b"
    "ends ` set (edges_of (contain_node d b)) = nest_edges (building_call_graph b) (node_of b) st d \<union> ends ` set (edges_of b)"
proof -
  have st: "function_stack b = st" and e: "edges_ok b" using assms(1) by (simp_all add: tree_ok_def)
  let ?c = "containing_node (node_of b) st"
  have step: "contain_node d b =
      (if building_call_graph b then b
       else case node_of b (nd_id d) of None \<Rightarrow> b
         | Some child \<Rightarrow> if 0 < ?c \<and> ?c \<noteq> child then addGraphEdge ?c child Contains b else b)"
    by (simp add: contain_node_def getContainingFunctionNode_def st Let_def split: option.split)
  show "tree_ok W start old seen st (contain_node d b)" "node_of (contain_node d b) = node_of b"
    "building_call_graph (contain_node d b) = building_call_graph b"
    using assms(1) tree_ok_edge [OF assms(1)] by (simp_all add: step split: option.split)
  show "ends ` set (edges_of (contain_node d b)) = nest_edges (building_call_graph b) (node_of b) st d \<union> ends ` set (edges_of b)"
    using current_positive [OF assms(1)] addGraphEdge_ok(2) [OF e] containing_current [OF assms(1)]
    by (auto simp: step nest_edges_def split: option.splits)
qed

lemma effective_source_edge:
  assumes "tree_ok W start old seen st b" and "d \<in> W" and "nd_id d \<in> seen" and "node_of b \<subseteq>\<^sub>m node" and "kinds_ok W node"
  shows "edge_source node st d rel = (if effective_source rel d b = 0 then None else Some (effective_source rel d b))"
proof -
  have d: "node (nd_id d) = node_of b (nd_id d)" using seen_agrees [OF assms(1,4,5,2,3)] .
  have f: "current_function node st = current_function (node_of b) st" using current_function_agrees [OF assms(1,4)] .
  have c: "getContainingFunctionNode b = (case current_function (node_of b) st of None \<Rightarrow> 0 | Some n \<Rightarrow> n)"
    using containing_current [OF assms(1)] assms(1) by (simp add: getContainingFunctionNode_def tree_ok_def)
  have n: "0 < n" if "node_of b (nd_id d) = Some n" for n
    using that assms(1) nodes_ok_range(1) unfolding tree_ok_def by blast
  show ?thesis
    using n current_positive [OF assms(1)] unfolding edge_source_def effective_source_def d f c
    by (auto split: option.split)
qed

lemma ensure_ok:
  assumes "tree_ok W start old seen st b" and "inj_on nd_id W" and "x \<in> W"
  shows "tree_ok W start old seen st (ensure_target x b)" "node_of b \<subseteq>\<^sub>m node_of (ensure_target x b)"
    "edges_of (ensure_target x b) = edges_of b" "building_call_graph (ensure_target x b) = building_call_graph b"
    "node_of (ensure_target x b) (nd_id x) \<noteq> None \<longleftrightarrow> node_of b (nd_id x) \<noteq> None \<or> target_type (nd_kind x) \<noteq> None"
proof -
  let ?c = "ensure_target x b"
  have b: "nodes_ok start old b" "edges_ok b" "known_ok W seen (node_of b)" "function_stack b = st" using assms(1) by (simp_all add: tree_ok_def)
  have c: "nodes_ok start old ?c" "edges_ok ?c" "node_of b \<subseteq>\<^sub>m node_of ?c" "function_stack ?c = st" "edges_of ?c = edges_of b"
      "building_call_graph ?c = building_call_graph b"
    using b addTreeNode_ok [OF b(1), of x]
    by (auto simp: ensure_target_def edges_ok_def proper_edges_def split: option.split)
  have k: "node_of ?c i \<noteq> None \<longleftrightarrow> i = nd_id x \<and> target_type (nd_kind x) \<noteq> None \<or> node_of b i \<noteq> None" for i
    using addTreeNode_ok(3) [OF b(1), of x _ i] by (auto simp: ensure_target_def split: option.split)
  have "known_ok W seen (node_of ?c)"
    unfolding known_ok_def
  proof (intro ballI)
    fix y
    assume y: "y \<in> W"
    have "nd_id y = nd_id x \<Longrightarrow> y = x" using assms(2,3) y by (metis inj_onD)
    then show "(nd_id y \<in> seen \<and> visited_type (nd_kind y) \<noteq> None \<longrightarrow> node_of ?c (nd_id y) \<noteq> None) \<and>
       (node_of ?c (nd_id y) \<noteq> None \<longrightarrow> visited_type (nd_kind y) \<noteq> None \<and>
         (target_type (nd_kind y) \<noteq> None \<or> nd_id y \<in> seen))"
      using b(3) y target_visited unfolding k known_ok_def by blast
  qed
  then show "tree_ok W start old seen st ?c" using c assms(1) by (simp add: tree_ok_def)
  show "node_of b \<subseteq>\<^sub>m node_of ?c" "edges_of ?c = edges_of b" "building_call_graph ?c = building_call_graph b"
    "node_of ?c (nd_id x) \<noteq> None \<longleftrightarrow> node_of b (nd_id x) \<noteq> None \<or> target_type (nd_kind x) \<noteq> None"
    using c k by blast+
qed

text \<open>The edges of one semantic edge, and what a visit keeps.\<close>

definition keeps ::
  "node_data set \<Rightarrow> nat \<Rightarrow> graph_node list \<Rightarrow> nat set \<Rightarrow> node_data list \<Rightarrow> builder \<Rightarrow> builder \<Rightarrow>
     ((nat \<Rightarrow> nat option) \<Rightarrow> (nat \<times> nat \<times> edge_type) set) \<Rightarrow> bool" where
  "keeps W start old seen st b c new \<longleftrightarrow>
     tree_ok W start old seen st c \<and> node_of b \<subseteq>\<^sub>m node_of c \<and> building_call_graph c = building_call_graph b \<and>
     (\<forall>node. node_of c \<subseteq>\<^sub>m node \<longrightarrow> kinds_ok W node \<longrightarrow> ends ` set (edges_of c) = new node \<union> ends ` set (edges_of b))"

lemma keeps_trans:
  assumes "keeps W start old seen st b c new" and "keeps W start old seen' st' c d new'"
  shows "keeps W start old seen' st' b d (\<lambda>node. new node \<union> new' node)"
proof -
  have m: "node_of b \<subseteq>\<^sub>m node_of c" "node_of c \<subseteq>\<^sub>m node_of d" using assms by (simp_all add: keeps_def)
  have e: "ends ` set (edges_of d) = (new node \<union> new' node) \<union> ends ` set (edges_of b)"
    if n: "node_of d \<subseteq>\<^sub>m node" "kinds_ok W node" for node
  proof -
    have c: "ends ` set (edges_of c) = new node \<union> ends ` set (edges_of b)"
      using assms(1) n(2) map_le_trans [OF m(2) n(1)] by (simp add: keeps_def)
    have d: "ends ` set (edges_of d) = new' node \<union> ends ` set (edges_of c)"
      using assms(2) n by (simp add: keeps_def)
    show ?thesis unfolding d c by blast
  qed
  show ?thesis using assms map_le_trans [OF m] e by (simp add: keeps_def)
qed

lemma semantic_edge_ok:
  assumes "tree_ok W start old seen st b" and "inj_on nd_id W" and "d \<in> W" and "nd_id d \<in> seen"
    and "\<And>x. fst e = Some x \<Longrightarrow> x \<in> W"
  shows "keeps W start old seen st b (semantic_edge d e b) (\<lambda>node. semantic_edges (building_call_graph b) node st seen d [e])"
proof -
  obtain tgt rel where e: "e = (tgt, rel)" by (cases e)
  let ?B = "building_call_graph b" and ?src = "effective_source rel d b"
  have none: "keeps W start old seen st b b (\<lambda>node. semantic_edges ?B node st seen d [e])"
    if "\<And>node. node_of b \<subseteq>\<^sub>m node \<Longrightarrow> kinds_ok W node \<Longrightarrow> semantic_edges ?B node st seen d [e] = {}"
    using assms(1) that by (simp add: keeps_def)
  consider "\<not> ?B \<and> rel = CallTarget" | "\<not> (\<not> ?B \<and> rel = CallTarget)" "?src = 0" | "\<not> (\<not> ?B \<and> rel = CallTarget)" "?src \<noteq> 0" "tgt = None"
    | x where "\<not> (\<not> ?B \<and> rel = CallTarget)" "?src \<noteq> 0" "tgt = Some x" by blast
  then show ?thesis
  proof cases
    case 1
    then have "semantic_edges ?B node st seen d [e] = {}" for node
      by (simp add: semantic_edges_def e edge_type_of_def)
    then show ?thesis using 1 none by (simp add: semantic_edge_def e)
  next
    case 2
    have "semantic_edges ?B node st seen d [e] = {}" if "node_of b \<subseteq>\<^sub>m node" "kinds_ok W node" for node
      using 2 effective_source_edge [OF assms(1,3,4) that, of rel] by (simp add: semantic_edges_def e)
    then show ?thesis using 2 none by (auto simp: semantic_edge_def e)
  next
    case 3
    then have "semantic_edges ?B node st seen d [e] = {}" for node by (simp add: semantic_edges_def e)
    then show ?thesis using 3 none by (auto simp: semantic_edge_def e)
  next
    case (4 x)
    have x: "x \<in> W" using assms(5) 4 e by simp
    let ?c = "ensure_target x b"
    note c = ensure_ok [OF assms(1,2) x]
    have out: "semantic_edge d e b =
        (case node_of ?c (nd_id x) of None \<Rightarrow> ?c
         | Some t \<Rightarrow> (case edge_type_of ?B rel of None \<Rightarrow> ?c | Some ty \<Rightarrow> addGraphEdge ?src t ty ?c))"
      using 4 by (auto simp: semantic_edge_def e Let_def)
    have ok: "tree_ok W start old seen st (semantic_edge d e b)" "node_of (semantic_edge d e b) = node_of ?c"
      "building_call_graph (semantic_edge d e b) = ?B"
      using c(1,4) tree_ok_edge [OF c(1)] by (simp_all add: out split: option.split)
    have new: "ends ` set (edges_of (semantic_edge d e b)) = semantic_edges ?B node st seen d [e] \<union> ends ` set (edges_of b)"
      if node: "node_of ?c \<subseteq>\<^sub>m node" "kinds_ok W node" for node
    proof -
      have src: "edge_source node st d rel = Some ?src"
        using effective_source_edge [OF assms(1,3,4) map_le_trans [OF c(2) node(1)] node(2), of rel] 4(2) by simp
      have tgt: "node (nd_id x) = Some t \<and> (target_type (nd_kind x) \<noteq> None \<or> nd_id x \<in> seen) \<longleftrightarrow> node_of ?c (nd_id x) = Some t" for t
      proof
        assume t: "node (nd_id x) = Some t \<and> (target_type (nd_kind x) \<noteq> None \<or> nd_id x \<in> seen)"
        then have "node_of ?c (nd_id x) \<noteq> None"
          using c(5) seen_agrees [OF c(1) node x] by auto
        then show "node_of ?c (nd_id x) = Some t" using map_le_Some [OF node(1)] t by fastforce
      next
        assume t: "node_of ?c (nd_id x) = Some t"
        then have "target_type (nd_kind x) \<noteq> None \<or> nd_id x \<in> seen" using c(1) x unfolding tree_ok_def known_ok_def by blast
        then show "node (nd_id x) = Some t \<and> (target_type (nd_kind x) \<noteq> None \<or> nd_id x \<in> seen)"
          using map_le_Some [OF node(1) t] by blast
      qed
      have "semantic_edges ?B node st seen d [e] =
          {(?src, t, ty) | t ty. edge_type_of ?B rel = Some ty \<and> node_of ?c (nd_id x) = Some t}"
        unfolding semantic_edges_def e 4(3) tgt [symmetric] using src by auto
      then show ?thesis
        using addGraphEdge_ok(2) [of ?c] c(1,3) by (auto simp: out tree_ok_def split: option.splits)
    qed
    show ?thesis using ok new c(2) by (simp add: keeps_def)
  qed
qed

lemma semantic_edges_Cons:
  "semantic_edges B node st seen d (e # es) = semantic_edges B node st seen d [e] \<union> semantic_edges B node st seen d es"
  unfolding semantic_edges_def by (simp only: list.set insert_iff empty_iff simp_thms) blast

lemma keeps_cong: "keeps W start old seen st b c new \<Longrightarrow> (\<And>node. new node = new' node) \<Longrightarrow> keeps W start old seen st b c new'"
  by (simp add: keeps_def)

lemma semantic_edges_ok:
  assumes "tree_ok W start old seen st b" and "inj_on nd_id W" and "d \<in> W" and "nd_id d \<in> seen"
    and "\<And>x rel. (Some x, rel) \<in> set es \<Longrightarrow> x \<in> W"
  shows "keeps W start old seen st b (fold (semantic_edge d) es b) (\<lambda>node. semantic_edges (building_call_graph b) node st seen d es)"
  using assms(1,5)
proof (induction es arbitrary: b)
  case Nil
  then show ?case by (simp add: keeps_def semantic_edges_def)
next
  case (Cons e es)
  have "x \<in> W" if "fst e = Some x" for x using Cons.prems(2) [of x "snd e"] that by (cases e) auto
  note step = semantic_edge_ok [OF Cons.prems(1) assms(2-4) this]
  have t: "tree_ok W start old seen st (semantic_edge d e b)" "building_call_graph (semantic_edge d e b) = building_call_graph b"
    using step by (simp_all add: keeps_def)
  have w: "x \<in> W" if "(Some x, rel) \<in> set es" for x rel using Cons.prems(2) that by (meson list.set_intros(2))
  have "keeps W start old seen st (semantic_edge d e b) (fold (semantic_edge d) es (semantic_edge d e b))
      (\<lambda>node. semantic_edges (building_call_graph b) node st seen d es)" using Cons.IH [OF t(1) w] t(2) by simp
  from keeps_trans [OF step this]
  show ?case unfolding fold_simps semantic_edges_Cons [of _ _ _ _ _ e es] .
qed

text \<open>A visit adds the edges of the nesting and the semantic ones.\<close>

lemma visit_ok:
  assumes "tree_ok W start old seen st b" and "inj_on nd_id W" and "d \<in> W" and "\<And>x rel. (Some x, rel) \<in> set es \<Longrightarrow> x \<in> W"
    and "st' = (if is_function d then d # st else st)"
  shows "keeps W start old (insert (nd_id d) seen) st' b (visitEnter d es b)
    (\<lambda>node. nest_edges (building_call_graph b) node st' d \<union> semantic_edges (building_call_graph b) node st' (insert (nd_id d) seen) d es)"
proof -
  let ?c = "declare_node d (enter_function d b)" and ?s = "insert (nd_id d) seen"
  note c = declare_ok [OF assms(1-3), folded assms(5)]
  note n = contain_ok [OF c(1) assms(3)]
  have "keeps W start old ?s st' b (contain_node d ?c) (\<lambda>node. nest_edges (building_call_graph b) node st' d)"
    unfolding keeps_def
  proof (intro conjI allI impI)
    show "tree_ok W start old ?s st' (contain_node d ?c)" "node_of b \<subseteq>\<^sub>m node_of (contain_node d ?c)"
      "building_call_graph (contain_node d ?c) = building_call_graph b"
      using n c by simp_all
    fix node
    assume node: "node_of (contain_node d ?c) \<subseteq>\<^sub>m node" "kinds_ok W node"
    then have "nest_edges (building_call_graph b) (node_of ?c) st' d = nest_edges (building_call_graph b) node st' d"
      using seen_agrees [OF c(1) _ node(2) assms(3)] current_function_agrees [OF c(1), of node] n(2)
      by (simp add: nest_edges_def)
    then show "ends ` set (edges_of (contain_node d ?c)) = nest_edges (building_call_graph b) node st' d \<union> ends ` set (edges_of b)"
      using n(4) c(3,4) by simp
  qed
  moreover have "keeps W start old ?s st' (contain_node d ?c) (visitEnter d es b)
      (\<lambda>node. semantic_edges (building_call_graph b) node st' ?s d es)"
    using semantic_edges_ok [OF n(1) assms(2,3) _ assms(4)] n(3) c(4) by (simp add: visitEnter_def)
  ultimately show ?thesis by (rule keeps_trans)
qed

text \<open>The stack after some visits.\<close>

fun stack_after :: "node_data list \<Rightarrow> visit list \<Rightarrow> node_data list" where
  "stack_after st [] = st"
| "stack_after st ((d, es) # vs) = stack_after (if is_function d then d # st else st) vs"

definition unit_nodes :: "visit list \<Rightarrow> node_data set" where
  "unit_nodes vs = fst ` set vs \<union> (\<Union>v \<in> set vs. {x. \<exists>rel. (Some x, rel) \<in> set (snd v)})"

lemma visits_ok:
  assumes "tree_ok W start old seen st b" and "inj_on nd_id W" and "unit_nodes vs \<subseteq> W"
  shows "keeps W start old (seen \<union> nd_id ` fst ` set vs) (stack_after st vs) b (fold (\<lambda>(d, es). visitEnter d es) vs b)
    (\<lambda>node. visit_edges (building_call_graph b) node st seen vs)"
  using assms(1,3)
proof (induction vs arbitrary: b st seen)
  case Nil
  then show ?case by (simp add: keeps_def)
next
  case (Cons v vs)
  obtain d es where v: "v = (d, es)" by (cases v)
  let ?st = "if is_function d then d # st else st"
  have d: "d \<in> W" "\<And>x rel. (Some x, rel) \<in> set es \<Longrightarrow> x \<in> W" and vs: "unit_nodes vs \<subseteq> W"
    using Cons.prems(2) unfolding v unit_nodes_def by auto
  note step = visit_ok [OF Cons.prems(1) assms(2) d refl]
  have t: "tree_ok W start old (insert (nd_id d) seen) ?st (visitEnter d es b)"
    "building_call_graph (visitEnter d es b) = building_call_graph b"
    using step by (simp_all add: keeps_def)
  from keeps_trans [OF step Cons.IH [OF t(1) vs]]
  show ?case unfolding v t(2) by (simp add: Let_def Un_assoc Un_commute Un_left_commute)
qed

section \<open>The graphs\<close>

lemma visit_edges_iff:
  "e \<in> visit_edges B node st seen vs \<longleftrightarrow>
     (\<exists>us d es ws. vs = us @ (d, es) # ws \<and>
        e \<in> nest_edges B node (stack_after st (us @ [(d, es)])) d \<union>
            semantic_edges B node (stack_after st (us @ [(d, es)])) (seen \<union> nd_id ` fst ` set (us @ [(d, es)])) d es)"
proof (induction vs arbitrary: st seen)
  case (Cons v vs)
  obtain d es where v: "v = (d, es)" by (cases v)
  show ?case unfolding v
  proof (rule iffI)
    assume "e \<in> visit_edges B node st seen ((d, es) # vs)"
    then consider "e \<in> nest_edges B node (stack_after st ([] @ [(d, es)])) d \<union>
            semantic_edges B node (stack_after st ([] @ [(d, es)])) (seen \<union> nd_id ` fst ` set ([] @ [(d, es)])) d es"
      | "e \<in> visit_edges B node (stack_after st [(d, es)]) (insert (nd_id d) seen) vs"
      by (auto simp: Let_def)
    then show "\<exists>us d' es' ws. (d, es) # vs = us @ (d', es') # ws \<and>
        e \<in> nest_edges B node (stack_after st (us @ [(d', es')])) d' \<union>
            semantic_edges B node (stack_after st (us @ [(d', es')])) (seen \<union> nd_id ` fst ` set (us @ [(d', es')])) d' es'"
    proof cases
      case 1
      then show ?thesis by (metis append_Nil)
    next
      case 2
      then obtain us d' es' ws where u: "vs = us @ (d', es') # ws"
        "e \<in> nest_edges B node (stack_after (stack_after st [(d, es)]) (us @ [(d', es')])) d' \<union>
            semantic_edges B node (stack_after (stack_after st [(d, es)]) (us @ [(d', es')]))
              (insert (nd_id d) seen \<union> nd_id ` fst ` set (us @ [(d', es')])) d' es'"
        unfolding Cons.IH by blast
      have "(d, es) # vs = ((d, es) # us) @ (d', es') # ws" using u(1) by simp
      moreover have "e \<in> nest_edges B node (stack_after st (((d, es) # us) @ [(d', es')])) d' \<union>
            semantic_edges B node (stack_after st (((d, es) # us) @ [(d', es')]))
              (seen \<union> nd_id ` fst ` set (((d, es) # us) @ [(d', es')])) d' es'"
        using u(2) by (simp add: insert_commute)
      ultimately show ?thesis by blast
    qed
  next
    assume "\<exists>us d' es' ws. (d, es) # vs = us @ (d', es') # ws \<and>
        e \<in> nest_edges B node (stack_after st (us @ [(d', es')])) d' \<union>
            semantic_edges B node (stack_after st (us @ [(d', es')])) (seen \<union> nd_id ` fst ` set (us @ [(d', es')])) d' es'"
    then obtain us d' es' ws where u: "(d, es) # vs = us @ (d', es') # ws"
      and e: "e \<in> nest_edges B node (stack_after st (us @ [(d', es')])) d' \<union>
            semantic_edges B node (stack_after st (us @ [(d', es')])) (seen \<union> nd_id ` fst ` set (us @ [(d', es')])) d' es'" by blast
    show "e \<in> visit_edges B node st seen ((d, es) # vs)"
    proof (cases us)
      case Nil
      then show ?thesis using u e by (auto simp: Let_def)
    next
      case (Cons w us')
      then have "vs = us' @ (d', es') # ws" "w = (d, es)" using u by simp_all
      moreover have "e \<in> nest_edges B node (stack_after (stack_after st [(d, es)]) (us' @ [(d', es')])) d' \<union>
            semantic_edges B node (stack_after (stack_after st [(d, es)]) (us' @ [(d', es')]))
              (insert (nd_id d) seen \<union> nd_id ` fst ` set (us' @ [(d', es')])) d' es'"
        using e Cons calculation(2) by (simp add: insert_commute)
      ultimately have "e \<in> visit_edges B node (stack_after st [(d, es)]) (insert (nd_id d) seen) vs"
        unfolding Cons.IH by blast
      then show ?thesis by (simp add: Let_def)
    qed
  qed
qed simp

lemma stack_after_filter: "stack_after st vs = rev (filter is_function (map fst vs)) @ st"
  by (induction st vs rule: stack_after.induct) auto

text \<open>The last function or method entered in some visits.\<close>

definition last_function :: "visit list \<Rightarrow> node_data option" where
  "last_function vs = (case rev (filter is_function (map fst vs)) of [] \<Rightarrow> None | f # fs \<Rightarrow> Some f)"

definition orelse :: "'a option \<Rightarrow> 'a option \<Rightarrow> 'a option" where
  "orelse a b = (case a of None \<Rightarrow> b | Some x \<Rightarrow> Some x)"

lemma current_stack:
  "current_function node (stack_after (stack_after [] ws) vs) = Option.bind (orelse (last_function vs) (last_function ws)) (\<lambda>f. node (nd_id f))"
  "current_function node (stack_after [] vs) = Option.bind (last_function vs) (\<lambda>f. node (nd_id f))"
  by (auto simp: current_function_def stack_after_filter last_function_def orelse_def split: list.split)

lemma start_ok:
  assumes "0 < next_node_id b"
  shows "tree_ok W (next_node_id b) [] {} [] (start_tree_symbols b)"
  using assms
  by (simp add: tree_ok_def nodes_ok_def edges_ok_def proper_edges_def known_ok_def start_tree_symbols_def empty_graph_def node_table_def)

lemma tree_symbols:
  assumes "0 < next_node_id b" and "inj_on nd_id (unit_nodes (unit_visits u))" and "tree_symbol_graph u b = (g, c)"
  shows "tree_ok (unit_nodes (unit_visits u)) (next_node_id b) [] (nd_id ` fst ` set (unit_visits u)) (stack_after [] (unit_visits u)) c"
    "g = current_graph c" "node_of c = node_table (graph_nodes g)"
    "ends ` set (graph_edges g) = visit_edges False (node_table (graph_nodes g)) [] {} (unit_visits u)"
proof -
  let ?W = "unit_nodes (unit_visits u)"
  have c: "c = fold (\<lambda>(d, es). visitEnter d es) (unit_visits u) (start_tree_symbols b)"
    using assms(3) by (auto simp: tree_symbol_graph_def traverse_visits Let_def)
  show g: "g = current_graph c" using assms(3) by (auto simp: tree_symbol_graph_def Let_def)
  note k = visits_ok [OF start_ok [OF assms(1)] assms(2) order_refl, folded c]
  have s: "building_call_graph (start_tree_symbols b) = False" "edges_of (start_tree_symbols b) = []"
    by (simp_all add: start_tree_symbols_def empty_graph_def)
  show t: "tree_ok ?W (next_node_id b) [] (nd_id ` fst ` set (unit_visits u)) (stack_after [] (unit_visits u)) c"
    using k by (simp add: keeps_def)
  then show n: "node_of c = node_table (graph_nodes g)" unfolding tree_ok_def nodes_ok_def g by simp
  show "ends ` set (graph_edges g) = visit_edges False (node_table (graph_nodes g)) [] {} (unit_visits u)"
    using k tree_ok_kinds [OF t] unfolding keeps_def s g n [symmetric, unfolded g] by simp
qed

lemma tree_calls:
  assumes "0 < next_node_id b" and "inj_on nd_id (unit_nodes (unit_visits u))" and "tree_symbol_graph u b = (g, c)"
    and "tree_call_graph u c = (h, d)"
  shows "ends ` set (graph_edges h) =
      visit_edges True (node_table (graph_nodes g @ graph_nodes h)) (stack_after [] (unit_visits u)) (nd_id ` fst ` set (unit_visits u)) (unit_visits u)"
    "proper_edges h" "node_of d = node_table (graph_nodes g @ graph_nodes h)"
    "tree_ok (unit_nodes (unit_visits u)) (next_node_id b) (graph_nodes g) (nd_id ` fst ` set (unit_visits u))
       (stack_after (stack_after [] (unit_visits u)) (unit_visits u)) d" "h = current_graph d"
proof -
  let ?W = "unit_nodes (unit_visits u)" and ?seen = "nd_id ` fst ` set (unit_visits u)" and ?st = "stack_after [] (unit_visits u)"
  note g = tree_symbols [OF assms(1-3)]
  let ?s = "start_tree_calls c"
  have s: "node_of ?s = node_of c" "nodes_of ?s = []" "next_node_id ?s = next_node_id c" "edges_of ?s = []"
      "function_stack ?s = function_stack c" "building_call_graph ?s = True" "edges_ok ?s"
    by (simp_all add: start_tree_calls_def empty_graph_def edges_ok_def proper_edges_def)
  have start: "tree_ok ?W (next_node_id b) (graph_nodes g) ?seen ?st ?s"
    using g(1) unfolding tree_ok_def nodes_ok_def s g(2) [symmetric] append_Nil append_Nil2 using s(7) by blast
  have d: "d = fold (\<lambda>(d, es). visitEnter d es) (unit_visits u) ?s"
    using assms(4) by (auto simp: tree_call_graph_def traverse_visits Let_def)
  show h: "h = current_graph d" using assms(4) by (auto simp: tree_call_graph_def Let_def)
  note k = visits_ok [OF start assms(2) order_refl, folded d]
  show t: "tree_ok ?W (next_node_id b) (graph_nodes g) ?seen (stack_after ?st (unit_visits u)) d"
    using k by (simp add: keeps_def)
  then show n: "node_of d = node_table (graph_nodes g @ graph_nodes h)" "proper_edges h"
    unfolding tree_ok_def nodes_ok_def h edges_ok_def by blast+
  show "ends ` set (graph_edges h) = visit_edges True (node_table (graph_nodes g @ graph_nodes h)) ?st ?seen (unit_visits u)"
    using k tree_ok_kinds [OF t] unfolding keeps_def s h n(1) [symmetric, unfolded h] by simp
qed

text \<open>Two steps of logic on what the visits give.\<close>

lemma drop_guard:
  "(\<And>x. A x \<Longrightarrow> D x \<Longrightarrow> R x) \<Longrightarrow> (\<exists>x. A x \<and> T \<and> C \<and> D x \<and> R x) \<longleftrightarrow> T \<and> (\<exists>x. A x \<and> C \<and> D x)"
  by blast

lemma first_case:
  "\<exists>us d es ws. V us d es ws \<and> (A us d es ws \<or> (\<exists>x rel. M us d es ws x rel \<and> T us d es ws x rel \<and> R us d es ws x rel)) \<Longrightarrow>
     (\<And>us d es ws x rel. V us d es ws \<Longrightarrow> M us d es ws x rel \<Longrightarrow> \<not> T us d es ws x rel) \<Longrightarrow> \<exists>us d es ws. V us d es ws \<and> A us d es ws"
  by blast

lemma edge_type_building: "edge_type_of True rel = Some ty \<longleftrightarrow> rel = CallTarget \<and> ty = Calls"
  by (auto simp: edge_type_of_def split: relation.splits)

text \<open>
  (C33) The call graph of a tree, built after its symbol graph: each call edge of a node is an edge from the last
  function entered before it, in the order of the visits, or, if there is none, from the last function of the
  whole tree, to the target of the edge.
\<close>

theorem tree_call_graph_exact:
  assumes "0 < next_node_id b" and "inj_on nd_id (unit_nodes (unit_visits u))"
    and "tree_symbol_graph u b = (g, c)" and "tree_call_graph u c = (h, d)"
  shows "((s, t, ty) \<in> ends ` set (graph_edges h) \<longleftrightarrow>
      (\<exists>us d es ws. unit_visits u = us @ (d, es) # ws \<and> ty = Calls \<and>
         (\<exists>x. (Some x, CallTarget) \<in> set es \<and>
            (\<exists>f. orelse (last_function (us @ [(d, es)])) (last_function (unit_visits u)) = Some f \<and>
               node_table (graph_nodes g @ graph_nodes h) (nd_id f) = Some s) \<and>
            node_table (graph_nodes g @ graph_nodes h) (nd_id x) = Some t))) \<and> proper_edges h"
proof -
  let ?N = "node_table (graph_nodes g @ graph_nodes h)" and ?W = "unit_nodes (unit_visits u)" and ?seen = "nd_id ` fst ` set (unit_visits u)"
  note h = tree_calls [OF assms]
  have reach: "target_type (nd_kind x) \<noteq> None \<or> nd_id x \<in> ?seen \<union> S"
    if "(d', es) \<in> set (unit_visits u)" "(Some x, rel) \<in> set es" "?N (nd_id x) = Some k" for d' es x rel k S
  proof -
    have "x \<in> ?W" using that(1,2) unfolding unit_nodes_def by force
    then show ?thesis using h(4) that(3) unfolding tree_ok_def known_ok_def h(3) by blast
  qed
  have sem: "(s, t, ty) \<in> nest_edges True ?N st d' \<union> semantic_edges True ?N st (?seen \<union> S) d' es \<longleftrightarrow>
      ty = Calls \<and> (\<exists>x. (Some x, CallTarget) \<in> set es \<and> current_function ?N st = Some s \<and> ?N (nd_id x) = Some t)"
    if "(d', es) \<in> set (unit_visits u)" for d' es st S
  proof -
    have "(s, t, ty) \<in> nest_edges True ?N st d' \<union> semantic_edges True ?N st (?seen \<union> S) d' es \<longleftrightarrow>
        (\<exists>x. (Some x, CallTarget) \<in> set es \<and> ty = Calls \<and> current_function ?N st = Some s \<and> ?N (nd_id x) = Some t \<and>
           (target_type (nd_kind x) \<noteq> None \<or> nd_id x \<in> ?seen \<union> S))"
      unfolding nest_edges_def semantic_edges_def edge_source_def edge_type_building by auto
    then show ?thesis using drop_guard [OF reach [OF that]] by (rule trans)
  qed
  have "(s, t, ty) \<in> ends ` set (graph_edges h) \<longleftrightarrow>
      (\<exists>us d es ws. unit_visits u = us @ (d, es) # ws \<and> ty = Calls \<and>
         (\<exists>x. (Some x, CallTarget) \<in> set es \<and>
            current_function ?N (stack_after (stack_after [] (unit_visits u)) (us @ [(d, es)])) = Some s \<and> ?N (nd_id x) = Some t))"
    unfolding h(1) visit_edges_iff
    by (intro arg_cong [of _ _ Ex] ext conj_cong refl) (rule sem, simp)
  from conjI [OF this [unfolded current_stack(1) bind_eq_Some_conv] h(2)] show ?thesis .
qed

section \<open>The symbol graph of a tree\<close>

lemma edge_type_symbols:
  "edge_type_of False rel = Some ty \<longleftrightarrow>
     rel = SymbolRef \<and> ty = References \<or> rel = Receiver \<and> ty = Contains \<or> rel = BaseClass \<and> ty = Inherits"
  by (auto simp: edge_type_of_def split: relation.splits)

lemma tree_symbol_edges:
  assumes "0 < next_node_id b" and "inj_on nd_id (unit_nodes (unit_visits u))" and "tree_symbol_graph u b = (g, c)"
  shows "(s, t, ty) \<in> ends ` set (graph_edges g) \<longleftrightarrow>
      (\<exists>us d es ws. unit_visits u = us @ (d, es) # ws \<and>
        ((ty = Contains \<and> (\<exists>f. last_function (us @ [(d, es)]) = Some f \<and> node_table (graph_nodes g) (nd_id f) = Some s) \<and>
            node_table (graph_nodes g) (nd_id d) = Some t \<and> s \<noteq> t) \<or>
         (\<exists>x rel. (Some x, rel) \<in> set es \<and> edge_type_of False rel = Some ty \<and> node_table (graph_nodes g) (nd_id x) = Some t \<and>
            (target_type (nd_kind x) \<noteq> None \<or> nd_id x \<in> nd_id ` fst ` set (us @ [(d, es)])) \<and>
            (node_table (graph_nodes g) (nd_id d) = Some s \<or>
             rel = SymbolRef \<and> node_table (graph_nodes g) (nd_id d) = None \<and>
               (\<exists>f. last_function (us @ [(d, es)]) = Some f \<and> node_table (graph_nodes g) (nd_id f) = Some s)))))"
proof -
  let ?N = "node_table (graph_nodes g)"
  note g = tree_symbols [OF assms]
  have src: "edge_source ?N st d rel = Some s \<longleftrightarrow>
      ?N (nd_id d) = Some s \<or> rel = SymbolRef \<and> ?N (nd_id d) = None \<and> current_function ?N st = Some s"
    if "edge_type_of False rel = Some ty" for st d rel
    using that unfolding edge_type_symbols edge_source_def by auto
  have sem: "(s, t, ty) \<in> semantic_edges False ?N st S d es \<longleftrightarrow>
      (\<exists>x rel. (Some x, rel) \<in> set es \<and> edge_type_of False rel = Some ty \<and> ?N (nd_id x) = Some t \<and>
         (target_type (nd_kind x) \<noteq> None \<or> nd_id x \<in> S) \<and>
         (?N (nd_id d) = Some s \<or> rel = SymbolRef \<and> ?N (nd_id d) = None \<and> current_function ?N st = Some s))" for st S d es
    unfolding semantic_edges_def using src by blast
  have nest: "(s, t, ty) \<in> nest_edges False ?N st d \<longleftrightarrow>
      ty = Contains \<and> current_function ?N st = Some s \<and> ?N (nd_id d) = Some t \<and> s \<noteq> t" for st d
    unfolding nest_edges_def by auto
  show ?thesis
    unfolding g(4) visit_edges_iff Un_iff sem nest current_stack(2) bind_eq_Some_conv Un_empty_left ..
qed

text \<open>
  The symbol graph of a tree: a declaration is contained in the last function entered before it, wherever
  that function ended; a reference, a receiver or a base class gives an edge to a target of a kind that may be
  added on the spot, to another target only if it was visited before; and exactly the visited nodes of the kinds
  that are declarations have a node.
\<close>

theorem tree_symbol_graph_exact:
  assumes "0 < next_node_id b" and "inj_on nd_id (unit_nodes (unit_visits u))" and "tree_symbol_graph u b = (g, c)"
  shows "((s, t, ty) \<in> ends ` set (graph_edges g) \<longleftrightarrow>
      (\<exists>us d es ws. unit_visits u = us @ (d, es) # ws \<and>
        ((ty = Contains \<and> (\<exists>f. last_function (us @ [(d, es)]) = Some f \<and> node_table (graph_nodes g) (nd_id f) = Some s) \<and>
            node_table (graph_nodes g) (nd_id d) = Some t \<and> s \<noteq> t) \<or>
         (\<exists>x rel. (Some x, rel) \<in> set es \<and> edge_type_of False rel = Some ty \<and> node_table (graph_nodes g) (nd_id x) = Some t \<and>
            (target_type (nd_kind x) \<noteq> None \<or> nd_id x \<in> nd_id ` fst ` set (us @ [(d, es)])) \<and>
            (node_table (graph_nodes g) (nd_id d) = Some s \<or>
             rel = SymbolRef \<and> node_table (graph_nodes g) (nd_id d) = None \<and>
               (\<exists>f. last_function (us @ [(d, es)]) = Some f \<and> node_table (graph_nodes g) (nd_id f) = Some s)))))) \<and>
    (\<forall>v \<in> set (unit_visits u). node_table (graph_nodes g) (nd_id (fst v)) \<noteq> None \<longleftrightarrow> visited_type (nd_kind (fst v)) \<noteq> None) \<and>
    map gn_id (graph_nodes g) = [next_node_id b..<next_node_id b + length (graph_nodes g)] \<and> proper_edges g"
proof -
  note g = tree_symbols [OF assms]
  have "node_table (graph_nodes g) (nd_id (fst v)) \<noteq> None \<longleftrightarrow> visited_type (nd_kind (fst v)) \<noteq> None" if "v \<in> set (unit_visits u)" for v
  proof -
    have "fst v \<in> unit_nodes (unit_visits u)" "nd_id (fst v) \<in> nd_id ` fst ` set (unit_visits u)"
      using that by (auto simp: unit_nodes_def)
    then show ?thesis using g(1) unfolding tree_ok_def known_ok_def g(3) by blast
  qed
  note kinds = this
  have more: "map gn_id (graph_nodes g) = [next_node_id b..<next_node_id b + length (graph_nodes g)]" "proper_edges g"
    using g(1) unfolding tree_ok_def nodes_ok_def edges_ok_def g(2) by simp_all
  show ?thesis by (intro conjI ballI tree_symbol_edges [OF assms] kinds more)
qed

text \<open>
  No function or method is contained in anything, unless it has a receiver: the function itself is on top
  of the stack when its container is looked up.
\<close>

theorem functions_not_nested:
  assumes "0 < next_node_id b" and "inj_on nd_id (unit_nodes (unit_visits u))" and "tree_symbol_graph u b = (g, c)"
    and "\<And>d es x. (d, es) \<in> set (unit_visits u) \<Longrightarrow> (Some x, Receiver) \<notin> set es"
    and "f \<in> fst ` set (unit_visits u)" and "is_function f"
  shows "(s, t, Contains) \<notin> ends ` set (graph_edges g) \<or> node_table (graph_nodes g) (nd_id f) \<noteq> Some t"
proof (rule ccontr)
  assume "\<not> ?thesis"
  then have e: "(s, t, Contains) \<in> ends ` set (graph_edges g)" and f: "node_table (graph_nodes g) (nd_id f) = Some t" by blast+
  note g = tree_symbols [OF assms(1-3)]
  have no: "edge_type_of False rel \<noteq> Some Contains" if "unit_visits u = us @ (d, es) # ws" "(Some x, rel) \<in> set es" for us d es ws x rel
  proof -
    have "(d, es) \<in> set (unit_visits u)" using that(1) by simp
    then have "rel \<noteq> Receiver" using assms(4) that(2) by blast
    then show ?thesis by (simp add: edge_type_symbols)
  qed
  have "\<exists>us d es ws. unit_visits u = us @ (d, es) # ws \<and> Contains = Contains \<and>
      (\<exists>f. last_function (us @ [(d, es)]) = Some f \<and> node_table (graph_nodes g) (nd_id f) = Some s) \<and>
      node_table (graph_nodes g) (nd_id d) = Some t \<and> s \<noteq> t"
    by (rule first_case [OF iffD1 [OF tree_symbol_edges [OF assms(1-3)] e]]) (erule (1) no)
  then obtain us d es ws k where d: "unit_visits u = us @ (d, es) # ws" "last_function (us @ [(d, es)]) = Some k"
      "node_table (graph_nodes g) (nd_id k) = Some s" "node_table (graph_nodes g) (nd_id d) = Some t" "s \<noteq> t"
    by blast
  have "nodes_ok (next_node_id b) [] c" using g(1) unfolding tree_ok_def by blast
  then have "nd_id d = nd_id f" using nodes_ok_inj f d(4) unfolding g(3) [symmetric] by blast
  moreover have "d \<in> unit_nodes (unit_visits u)" "f \<in> unit_nodes (unit_visits u)" using d(1) assms(5) by (auto simp: unit_nodes_def)
  ultimately have "d = f" using assms(2) by (metis inj_onD)
  then have "k = d" using d(2) assms(6) by (simp add: last_function_def)
  then show False using d by simp
qed

section \<open>Examples\<close>

definition demo_node :: "nat \<Rightarrow> node_kind \<Rightarrow> bytes \<Rightarrow> node_data" where
  "demo_node i k name =
     \<lparr>nd_id = i, nd_kind = k, nd_name = name, nd_qualified = name, nd_loc = demo_range, nd_language = ''python'', nd_file = ''a.py''\<rparr>"

text \<open>
  A file with the functions \<open>main\<close>, in it \<open>inner\<close>, then a call of \<open>helper\<close>; then \<open>helper\<close>, and last a variable of the
  file and a call of \<open>main\<close> outside of any function.
\<close>

definition demo_tree :: ir_node where
  "demo_tree =
     IrNode (demo_node 0 NTranslationUnit ''a.py'') []
       [IrNode (demo_node 1 NFunctionDecl ''main'') []
          [IrNode (demo_node 2 NFunctionDecl ''inner'') [] [],
           IrNode (demo_node 3 NCallExpr []) [(Some (demo_node 4 NFunctionDecl ''helper''), CallTarget)] []],
        IrNode (demo_node 4 NFunctionDecl ''helper'') [] [],
        IrNode (demo_node 5 NVariableDecl ''x'') [] [],
        IrNode (demo_node 6 NCallExpr []) [(Some (demo_node 1 NFunctionDecl ''main''), CallTarget)] []]"

definition tree_graphs :: "ir_node option \<Rightarrow> code_graph \<times> code_graph" where
  "tree_graphs u =
     (fst (tree_symbol_graph u (new_builder 1)), fst (tree_call_graph u (snd (tree_symbol_graph u (new_builder 1)))))"

text \<open>
  In the example, the variable of the file is contained in \<open>helper\<close>, the call in \<open>main\<close> is a call of \<open>inner\<close>, and the
  call of the file is one of \<open>helper\<close>; no edge joins \<open>main\<close> or the file to what is in them.
\<close>

theorem left_functions_own_code:
  "map gn_name (graph_nodes (fst (tree_graphs (Some demo_tree)))) = [''a.py'', ''main'', ''inner'', ''helper'', ''x''] \<and>
   map ends (graph_edges (fst (tree_graphs (Some demo_tree)))) = [(4, 5, Contains)] \<and>
   map ends (graph_edges (snd (tree_graphs (Some demo_tree)))) = [(3, 4, Calls), (4, 2, Calls)]"
  by code_simp

lemma demo_inj: "inj_on nd_id (unit_nodes (unit_visits (Some demo_tree)))"
  by (auto simp: unit_nodes_def unit_visits_def demo_tree_def demo_node_def inj_on_def)

text \<open>
  A reference to an enum gives an edge only if the enum stands before it.
\<close>

theorem enum_reference_order:
  "map ends (graph_edges (fst (tree_graphs (Some (IrNode (demo_node 0 NModule ''m'') []
      [IrNode (demo_node 1 NEnumDecl ''E'') [] [],
       IrNode (demo_node 2 NVariableDecl ''x'') [(Some (demo_node 1 NEnumDecl ''E''), SymbolRef)] []]))))) = [(3, 2, References)] \<and>
   map ends (graph_edges (fst (tree_graphs (Some (IrNode (demo_node 0 NModule ''m'') []
      [IrNode (demo_node 2 NVariableDecl ''x'') [(Some (demo_node 1 NEnumDecl ''E''), SymbolRef)] [],
       IrNode (demo_node 1 NEnumDecl ''E'') [] []]))))) = []"
  by code_simp

theorem tree_call_graph_exact_witness:
  "(3, 4, Calls) \<in> ends ` set (graph_edges (snd (tree_graphs (Some demo_tree)))) \<and>
   proper_edges (snd (tree_graphs (Some demo_tree)))"
proof -
  have "0 < next_node_id (new_builder 1)" by (simp add: new_builder_def)
  note h = tree_call_graph_exact [OF this demo_inj surjective_pairing surjective_pairing]
  have e: "map ends (graph_edges (snd (tree_graphs (Some demo_tree)))) = [(3, 4, Calls), (4, 2, Calls)]" by code_simp
  have "(3, 4, Calls) \<in> ends ` set (graph_edges (snd (tree_graphs (Some demo_tree))))"
    unfolding set_map [symmetric] e by simp
  then show ?thesis using conjunct2 [OF h] unfolding tree_graphs_def snd_conv by (rule conjI)
qed

theorem tree_symbol_graph_exact_witness:
  "proper_edges (fst (tree_graphs (Some demo_tree))) \<and> map gn_id (graph_nodes (fst (tree_graphs (Some demo_tree)))) = [1, 2, 3, 4, 5]"
proof -
  have "0 < next_node_id (new_builder 1)" by (simp add: new_builder_def)
  note g = tree_symbol_graph_exact [OF this demo_inj surjective_pairing]
  have "map gn_id (graph_nodes (fst (tree_graphs (Some demo_tree)))) = [1, 2, 3, 4, 5]" by code_simp
  then show ?thesis using conjunct2 [OF conjunct2 [OF conjunct2 [OF g]]] unfolding tree_graphs_def fst_conv by (intro conjI)
qed

lemma demo_visited:
  "demo_node 2 NFunctionDecl ''inner'' \<in> fst ` set (unit_visits (Some demo_tree))" "is_function (demo_node 2 NFunctionDecl ''inner'')"
  by (simp_all add: unit_visits_def demo_tree_def is_function_def) (simp add: demo_node_def)

lemma demo_no_receiver: "(d, es) \<in> set (unit_visits (Some demo_tree)) \<Longrightarrow> (Some x, Receiver) \<notin> set es"
  by (auto simp: unit_visits_def demo_tree_def)

theorem functions_not_nested_witness:
  "(2, 3, Contains) \<notin> ends ` set (graph_edges (fst (tree_symbol_graph (Some demo_tree) (new_builder 1))))"
proof -
  have "0 < next_node_id (new_builder 1)" by (simp add: new_builder_def)
  note no = functions_not_nested [OF this demo_inj surjective_pairing demo_no_receiver demo_visited, where s = 2 and t = 3]
  have "node_table (graph_nodes (fst (tree_symbol_graph (Some demo_tree) (new_builder 1)))) (nd_id (demo_node 2 NFunctionDecl ''inner'')) = Some 3"
    by code_simp
  with no show ?thesis by simp
qed

end
