(* ===== verification/Spec2Isabelle.thy ===== *)
theory Spec2Isabelle
  imports Evidence Parse_Failures Resolver_Pipeline Resolver_Sql Communities Discovery Sched Verify_Reports
    Aho_Corasick Record_Graph Tree_Graph
begin

text \<open>
  A verification of the engine of CodeScope, the C++ library under \<open>engine/src\<close>.

  The engine reads a project and answers questions about it.  A run of the indexer walks the directories
  and keeps the files that a filter lets through, parses each file with a syntax tree library, and lets a
  visitor turn the tree into flat records.  The records go to the tables of a SQLite store.  A resolver then
  decides, for each call that was seen by name, which entity it means, and the call edges are packed into
  adjacency tables.  Queries walk these tables: shortest paths, neighbourhoods, the impact of a change,
  communities.  On top of the stored facts a verification layer judges claims: a claim is parsed from
  English text, one of four verifiers looks for evidence, and the verdict is recorded; detectors report where
  documentation, declared capabilities and layers drift from the code.  Everything is exported through
  functions that return JSON text.

  All paths below are relative to \<open>engine/src\<close>.
\<close>

section \<open>The theories and the code they model\<close>

text \<open>
  \<^bold>\<open>Ground.\<close>  \<open>Prelude\<close> has byte strings as lists of characters and what the code uses of the C library on
  them (\<open>tolower\<close>, \<open>find\<close>, \<open>rfind\<close>, splitting), with the collection \<open>byte_simps\<close>.  \<open>Json_Text\<close> is the reader of
  \<open>evidence/rule.cpp\<close> (\<open>JsonParser\<close>) and the escaper; \<open>Json_Writer\<close> is \<open>util/json_writer.cpp\<close> with the error
  envelopes; \<open>Json_Roundtrip\<close> relates the two.  \<open>Regex\<close> is the part of \<open>std::regex\<close> that the engine uses.

  \<^bold>\<open>Finding files.\<close>  \<open>Glob\<close> is \<open>filter_policy_ignore.cpp\<close>, \<open>Filter_Policy\<close> is \<open>filter_policy.h\<close>,
  \<open>filter_policy.cpp\<close> and \<open>filter_policy_detect.cpp\<close>, \<open>Discovery\<close> is \<open>engine_index_discover.cpp\<close>.  The state
  \<open>filter_policy\<close> has the fields of the class \<open>FilterPolicy\<close>; a directory tree is a datatype of entries.

  \<^bold>\<open>Parsing files.\<close>  \<open>Sched\<close> is the pool of cores that indexing processes share through shared memory
  (\<open>engine_index_sched.cpp\<close> and the monitor thread of \<open>engine_index_project.cpp\<close>) as a step relation over all
  interleavings.  \<open>Parse_Failures\<close> is \<open>store/store_parse_failure.cpp\<close> and the worker of
  \<open>engine_index_project_membulk.cpp\<close>, which records failures and skips the files with too many of them.
  \<open>Aho_Corasick\<close> is \<open>ahocorasick.h\<close> and the dispatch of \<open>ir/translators/js_visitor.cpp\<close> over it.

  \<^bold>\<open>Records and graphs.\<close>  \<open>Semantic_Unit\<close> is \<open>ir/semantic_unit.cpp\<close> and \<open>ir/semantic_emitter.cpp\<close>.
  \<open>Graph_Builder\<close> has the types of \<open>graph/graph_types.h\<close> and what the two halves of \<open>graph/graph_builder.cpp\<close>
  share; \<open>Record_Graph\<close> is the half over records, \<open>Tree_Graph\<close> the half over the tree of \<open>ir/ir.h\<close>.

  \<^bold>\<open>Resolving calls.\<close>  \<open>Resolver_Factors\<close> is \<open>resolver/factors.h\<close> and \<open>resolver/factors.cpp\<close>;
  \<open>Resolver_Fuzzy\<close> is \<open>resolver/fuzzy_resolver.cpp\<close>, compared in \<open>Resolver_Sql\<close> with the queries it replaced;
  \<open>Resolver_Load\<close>, \<open>Resolver_Score\<close> and \<open>Resolver_Pipeline\<close> are \<open>resolver/pipeline_load.cpp\<close>,
  \<open>resolver/pipeline_apply.cpp\<close> and \<open>resolver/pipeline.cpp\<close> with \<open>resolver/pipeline_flush.cpp\<close>.  The record \<open>pipeline\<close> has the indexes of the
  class \<open>ResolverPipeline\<close>, \<open>run_state\<close> what a turn of its loop changes.

  \<^bold>\<open>Queries.\<close>  \<open>Call_Graph\<close> is \<open>store/store_graph_csr.cpp\<close>, \<open>Traversal\<close> and \<open>Subgraph\<close> are
  \<open>query/query_engine_traverse.cpp\<close>, \<open>Impact\<close> is \<open>query/impact_analysis.cpp\<close>, \<open>Communities\<close> is
  \<open>query/query_communities.cpp\<close>.  Ids in these tables are words of 64 bits.

  \<^bold>\<open>Verification.\<close>  \<open>Facts\<close> has the types of \<open>verify/claim.h\<close>, the tables, the text functions of SQLite and the
  readiness probe of \<open>verify/registry.cpp\<close>.  \<open>Verifiers\<close> has the four verifiers (\<open>verify/*_verifier.cpp\<close>), \<open>Verdicts\<close>
  what their verdicts mean.  \<open>Claim_Parser\<close> is \<open>verify/claim_parser.cpp\<close>.  \<open>Verify_Claim\<close> is the registry and the
  way from a claim to recorded rows (\<open>engine_verify_ffi.cpp\<close>, \<open>store/store_knowledge.cpp\<close>).  \<open>Readme_Scan\<close> and \<open>Drift\<close>
  are \<open>verify/documentation_drift.cpp\<close>, \<open>verify/capability_drift.cpp\<close>, \<open>verify/architecture_drift.cpp\<close> and their
  exported reports; \<open>Dead_Code\<close> is \<open>verify/dead_code_inspector.cpp\<close>; \<open>Verify_Reports\<close> has the reports on
  statements, reviews, summaries and declarations.

  \<^bold>\<open>Evidence.\<close>  \<open>Rules\<close> is \<open>evidence/rule.cpp\<close> and \<open>Evidence\<close> is \<open>evidence/evidence_builder.cpp\<close>.  \<open>Lsp\<close> is the client
  of a language server, \<open>lsp/lsp_framing.h\<close> and \<open>lsp/lsp_client.cpp\<close>.
\<close>

section \<open>Conventions\<close>

text \<open>
  A struct or class is a record with the names of the source, an enumeration a datatype.  Ids that are used
  as keys only are natural numbers; where the width matters they are words: the ids in the packed tables, the
  counter of cores, the values of \<open>sqlite3_column_int\<close>.  Scores are exact rationals in the place of doubles.
  Functions that can fail return an option or a sum, and every early return of the source is a branch.

  What is not in the repository is an argument.  SQLite: a table is the list of its rows, and records such as
  \<open>csr_env\<close>, \<open>query_env\<close> and \<open>failure_env\<close> say which statements cannot be prepared, which steps fail, and after how
  many rows a scan breaks off; \<open>LIKE\<close>, \<open>LOWER\<close>, \<open>LENGTH\<close> and \<open>REPLACE\<close> are written out in \<open>Facts\<close>.  The file system,
  the clock, the environment, the pipe to the language server, the syntax tree library and its grammars, the
  order in which a hash table is iterated over, and the text that a stream makes of a double are arguments
  too.  Statements hold for all of their values, under the hypotheses they name.

  The interfaces between components are locales, interpreted on the definitions of the code: \<open>adjacency\<close> in
  \<open>Call_Graph\<close> (the lookups of callers and callees agree on a set of calls; used by the walks of \<open>Traversal\<close>,
  \<open>Subgraph\<close> and \<open>Impact\<close>), \<open>name_lookup\<close> in \<open>Resolver_Fuzzy\<close> (three lookups by name), \<open>claim_verifier\<close> in \<open>Verifiers\<close> (the four
  verifiers), \<open>fact_query\<close> in \<open>Evidence\<close>, \<open>value_reader\<close> in \<open>Json_Text\<close> (one level of the JSON reader in terms of
  the next), \<open>enum_codec\<close> in \<open>Rules\<close>.
\<close>

section \<open>What is shown\<close>

text \<open>
  \<^item> Text: writer and reader of JSON are inverse on values of at most 64 levels with integers up to \<open>2 ^ 53\<close>; the
    writer records an error exactly when its calls are not those of a document; the reader always ends.
  \<^item> Files: a glob matches exactly what its pattern denotes, up to 8 double stars; what a path check decides; what
    the pruning of a directory may lose; the walk finds exactly the files that the filter accepts.
  \<^item> Parsing: the cores of the pool are conserved in every interleaving, and a parse phase returns what it borrowed;
    the set of skipped files is exactly determined by the failures since the last reset; the automaton returns the
    longest pattern in the text; records are found under the ids they were given.
  \<^item> Graphs: the edges of the symbol graph and of both call graphs, exactly, whatever the order of the hash tables.
  \<^item> Resolver: every edge is between a caller and a visible entity of a compatible language; a scored edge passes the
    threshold and the ambiguity gap; the ranking does not depend on the order of loading; the fast path and
    dispatch agree with the full rules as far as stated; the fuzzy lookup answers what SQL may answer.
  \<^item> Queries: a rebuild of the tables publishes what its scans delivered or changes nothing; a shortest path is one; the
    sets of an impact analysis and of a neighbourhood are exact with their distances; communities are the final labels
    of synchronous label propagation, and their report keeps its limits.
  \<^item> Verification: a verdict other than unknown rests on evidence; the verdicts on capabilities and architecture mean what
    they say; what is told is what is recorded; a refused claim writes nothing; the detectors report exactly what
    their rules define and agree with the verifiers.

  Many theorems beside these show where the code departs from its comments; the smaller theorems on each
  component stand with it.
\<close>

section \<open>Termination and bounds\<close>

text \<open>
  Loops of the code are total functions with a measure where one is at hand: the walk along the parents of a record
  ends because it has visited each known id at most once, the breadth first searches because a turn enlarges the set
  of discovered nodes or shortens the queue, the search of the impact analysis because each push lowers a recorded
  depth, which is at most 3 once it is set.  Where the structure gives no measure the loop has fuel: the search for components in
  \<open>Dead_Code\<close> has as much as there are nodes; the loops of the automaton have the number of its nodes, and one step more
  for the walk back to the root, and it is shown that they find what they look for before it is used up; the loops over
  members and elements of the JSON reader have the length of the unread text, and \<open>json_parser_terminates\<close> shows that the
  error for lack of it is never the result.  Label propagation runs at most \<open>kMaxLpaIterations\<close>, 20 rounds, as in the
  code; nesting of JSON is limited to 64 levels and double stars to 8, as in the code.
\<close>

section \<open>What is not modelled\<close>

text \<open>
  The visitors and translators of the languages walk syntax trees whose nodes are those of generated grammars; only
  what they emit into is modelled.  The writers of the store, its schema, its search modules and the derivation of modules,
  imports and facts are SQL scripts without logic of their own.  The plugins that insert declarations from documents,
  the thread that runs them, the metrics, the wrappers of exported functions, the replacements for Windows, and the
  server in Rust (but for the exclude list that it hands to a worker, which \<open>Glob\<close> has) are left out.  In the modelled
  parts, progress messages, profiling counters and exceptions for lack of memory are left out.
\<close>

end
